(* ===== verification/Kernel_Prelude.thy ===== *)
theory Kernel_Prelude
  imports Main "HOL-Library.Word" "HOL-Library.Monad_Syntax"
begin

text \<open>
  Shared vocabulary of the development.

  Kernel code either returns, or it stops the machine: a failed \<open>ASSERT\<close>, a \<open>PANIC\<close> and a
  page fault taken in the kernel all end in \<open>debug_panic\<close>. A C function that can panic is
  therefore a function into \<^typ>\<open>'a option\<close>: \<^const>\<open>None\<close> is \<^emph>\<open>the kernel stopped\<close> (or, for a
  loop defined by \<^theory_text>\<open>partial_function\<close>, \<^emph>\<open>it did not return\<close>) and \<^term>\<open>Some x\<close> is a normal
  return. Error codes that the code itself returns (null pointers, \<open>false\<close>, \<open>-1\<close>,
  \<open>BITMAP_ERROR\<close>) are ordinary values below the \<^const>\<open>Some\<close>.

  The collections: \<open>kassert_simps\<close> evaluates assertions, \<open>kbind\<close> splits a monadic
  computation that is known to have returned.
\<close>

named_theorems kassert_simps \<open>evaluation of kernel assertions\<close>
named_theorems kbind \<open>decomposition of computations that returned\<close>

section \<open>Assertions and the panic monad\<close>

definition ASSERT :: "bool \<Rightarrow> unit option" where
  "ASSERT b = (if b then Some () else None)"

lemma ASSERT_True [simp, kassert_simps]: "ASSERT True = Some ()"
  by (simp add: ASSERT_def)

lemma ASSERT_False [simp, kassert_simps]: "ASSERT False = None"
  by (simp add: ASSERT_def)

lemma ASSERT_eq_Some [simp]: "ASSERT b = Some u \<longleftrightarrow> b"
  by (simp add: ASSERT_def)

lemma ASSERT_eq_None [simp]: "ASSERT b = None \<longleftrightarrow> \<not> b"
  by (simp add: ASSERT_def)

lemma bind_ASSERT [kassert_simps]: "b \<Longrightarrow> Option.bind (ASSERT b) f = f ()"
  by (simp add: ASSERT_def)

lemma bind_Some_iff [kbind]:
  "Option.bind m f = Some y \<longleftrightarrow> (\<exists>x. m = Some x \<and> f x = Some y)"
  by (cases m) auto

lemma bind_ASSERT_Some [kbind]:
  "Option.bind (ASSERT b) f = Some y \<longleftrightarrow> b \<and> f () = Some y"
  by (simp add: ASSERT_def)

lemma bind_ASSERT_iff: "Option.bind (ASSERT b) f = (if b then f () else None)"
  by (simp add: ASSERT_def)

section \<open>Iteration of a body that can panic\<close>

primrec foldM :: "('a \<Rightarrow> 's \<Rightarrow> 's option) \<Rightarrow> 'a list \<Rightarrow> 's \<Rightarrow> 's option" where
  "foldM f [] s = Some s"
| "foldM f (x # xs) s = do { s \<leftarrow> f x s; foldM f xs s }"

lemma foldM_mono [partial_function_mono]:
  assumes "\<And>x s. mono_option (\<lambda>f. F f x s)"
  shows "mono_option (\<lambda>f. foldM (F f) xs s)"
proof (induction xs arbitrary: s)
  case Nil
  then show ?case by (simp add: monotone_def flat_ord_def fun_ord_def)
next
  case (Cons x xs)
  show ?case by (simp, intro bind_mono assms Cons)
qed

lemma foldM_commute:
  assumes "foldM f xs s = Some s'" "I s"
    and "\<And>x s s'. f x s = Some s' \<Longrightarrow> I s \<Longrightarrow> I s' \<and> g x (h s) = Some (h s')"
  shows "I s' \<and> foldM g xs (h s) = Some (h s')"
  using assms(1,2)
proof (induction xs arbitrary: s)
  case (Cons x xs)
  then obtain s1 where s1: "f x s = Some s1" "foldM f xs s1 = Some s'" by (auto simp: kbind)
  show ?case using assms(3) [OF s1(1) Cons.prems(2)] Cons.IH [OF s1(2)] by simp
qed simp

section \<open>Lists\<close>

lemma last_Cons_append [simp]: "last (a # xs @ [b]) = b"
  by simp

lemma butlast_Cons_append [simp]: "butlast (a # xs @ [b]) = a # xs"
  by (simp add: butlast_append)

lemma in_set_tlD: "x \<in> set (tl xs) \<Longrightarrow> x \<in> set xs"
  by (cases xs) auto

lemma nth_eq_hd_drop: "i < length xs \<Longrightarrow> xs ! i = hd (drop i xs)"
  by (simp add: hd_drop_conv_nth)

lemma distinct_append_split:
  "distinct (xs @ y # ys) \<longleftrightarrow> distinct (xs @ ys) \<and> y \<notin> set xs \<and> y \<notin> set ys"
  by auto

section \<open>Machine words\<close>

type_synonym u8 = "8 word"
type_synonym u16 = "16 word"
type_synonym u32 = "32 word"
type_synonym u64 = "64 word"

unbundle bit_operations_syntax

lemma unat_u32_lt [simp]: "unat (w :: u32) < 4294967296"
  using unsigned_less [of w, where ?'a = nat] by simp

lemma unat_u8_lt [simp]: "unat (w :: u8) < 256"
  using unsigned_less [of w, where ?'a = nat] by simp

lemma unat_of_nat_small: "n < 2 ^ 32 \<Longrightarrow> unat (of_nat n :: u32) = n"
  by (simp add: unat_of_nat)

lemma sint_of_nat_small: "k < 2 ^ 31 \<Longrightarrow> sint (of_nat k :: u32) = int k"
  by (simp add: signed_of_nat signed_take_bit_int_eq_self)

lemma unat_add_small: "unat (a :: u32) + unat b < 2 ^ 32 \<Longrightarrow> unat (a + b) = unat a + unat b"
  by (simp add: unat_word_ariths)

section \<open>Sizes\<close>

text \<open>
  A \<open>size_t\<close> is a natural number below \<open>2 ^ 32\<close>; where the code's arithmetic can wrap round it
  is written with \<open>add32\<close>. The macros of \<open>lib/round.h\<close> are used on such sizes.
\<close>

definition add32 :: "nat \<Rightarrow> nat \<Rightarrow> nat" where
  "add32 a b = (a + b) mod 2 ^ 32"

definition ROUND_UP :: "nat \<Rightarrow> nat \<Rightarrow> nat" where
  "ROUND_UP x step = add32 x (step - 1) div step * step"

definition DIV_ROUND_UP :: "nat \<Rightarrow> nat \<Rightarrow> nat" where
  "DIV_ROUND_UP x step = add32 x (step - 1) div step"

definition ROUND_DOWN :: "nat \<Rightarrow> nat \<Rightarrow> nat" where
  "ROUND_DOWN x step = x div step * step"

lemma add32_small: "a + b < 2 ^ 32 \<Longrightarrow> add32 a b = a + b"
  by (simp add: add32_def)

end
