(* ===== verification/Kernel_List.thy ===== *)
theory Kernel_List
  imports Kernel_Prelude
begin

text \<open>
  The doubly linked list of \<open>lib/kernel/list.c\<close>, as pointer code.

  A list element is a pair of pointers in a heap; the two header elements of a
  \<open>struct list\<close> are heap cells like the interior ones. Every C function of the file is one
  definition that reads and writes the heap in the order of the C statements; a read or write
  through a null or dangling pointer, and a failed \<open>ASSERT\<close>, is \<^const>\<open>None\<close>. Loops are
  \<^theory_text>\<open>partial_function\<close>s, so a loop that runs round a corrupt list is \<^const>\<open>None\<close> too.

  \<open>list_rep h l xs\<close> is the representation predicate: in heap \<open>h\<close> the list header \<open>l\<close> stands
  for the sequence \<open>xs\<close> of element addresses. The lemmas of this theory say what the basic
  operations do to that sequence and to the rest of the heap; \<open>Kernel_List_Loops\<close> and
  \<open>Kernel_List_Sort\<close> hold the traversals and the merge sort.
\<close>

section \<open>Heap cells\<close>

type_synonym addr = nat

abbreviation (input) NULL :: addr where "NULL \<equiv> 0"

record list_elem =
  le_prev :: addr
  le_next :: addr

type_synonym heap = "addr \<rightharpoonup> list_elem"

text \<open>A \<open>struct list\<close> is known by the addresses of its two header members.\<close>

record klist =
  l_head :: addr
  l_tail :: addr

definition deref :: "heap \<Rightarrow> addr \<Rightarrow> list_elem option" where
  "deref h p = (if p = NULL then None else h p)"

definition get_prev :: "heap \<Rightarrow> addr \<Rightarrow> addr option" where
  "get_prev h p = map_option le_prev (deref h p)"

definition get_next :: "heap \<Rightarrow> addr \<Rightarrow> addr option" where
  "get_next h p = map_option le_next (deref h p)"

definition set_prev :: "heap \<Rightarrow> addr \<Rightarrow> addr \<Rightarrow> heap option" where
  "set_prev h p v = map_option (\<lambda>e. h(p \<mapsto> e\<lparr>le_prev := v\<rparr>)) (deref h p)"

definition set_next :: "heap \<Rightarrow> addr \<Rightarrow> addr \<Rightarrow> heap option" where
  "set_next h p v = map_option (\<lambda>e. h(p \<mapsto> e\<lparr>le_next := v\<rparr>)) (deref h p)"

section \<open>The operations of list.c that do not loop\<close>

definition is_head :: "heap \<Rightarrow> addr \<Rightarrow> bool option" where
  "is_head h elem = (if elem = NULL then Some False else do {
     p \<leftarrow> get_prev h elem; n \<leftarrow> get_next h elem; Some (p = NULL \<and> n \<noteq> NULL) })"

definition is_interior :: "heap \<Rightarrow> addr \<Rightarrow> bool option" where
  "is_interior h elem = (if elem = NULL then Some False else do {
     p \<leftarrow> get_prev h elem; n \<leftarrow> get_next h elem; Some (p \<noteq> NULL \<and> n \<noteq> NULL) })"

definition is_tail :: "heap \<Rightarrow> addr \<Rightarrow> bool option" where
  "is_tail h elem = (if elem = NULL then Some False else do {
     p \<leftarrow> get_prev h elem; n \<leftarrow> get_next h elem; Some (p \<noteq> NULL \<and> n = NULL) })"

definition list_init :: "heap \<Rightarrow> klist \<Rightarrow> heap option" where
  "list_init h l = do {
     h \<leftarrow> set_prev h (l_head l) NULL;
     h \<leftarrow> set_next h (l_head l) (l_tail l);
     h \<leftarrow> set_prev h (l_tail l) (l_head l);
     set_next h (l_tail l) NULL }"

definition list_begin :: "heap \<Rightarrow> klist \<Rightarrow> addr option" where
  "list_begin h l = get_next h (l_head l)"

definition list_next :: "heap \<Rightarrow> addr \<Rightarrow> addr option" where
  "list_next h elem = do {
     a \<leftarrow> is_head h elem; b \<leftarrow> is_interior h elem; ASSERT (a \<or> b);
     get_next h elem }"

definition list_end :: "klist \<Rightarrow> addr" where
  "list_end l = l_tail l"

definition list_rbegin :: "heap \<Rightarrow> klist \<Rightarrow> addr option" where
  "list_rbegin h l = get_prev h (l_tail l)"

definition list_prev :: "heap \<Rightarrow> addr \<Rightarrow> addr option" where
  "list_prev h elem = do {
     a \<leftarrow> is_interior h elem; b \<leftarrow> is_tail h elem; ASSERT (a \<or> b);
     get_prev h elem }"

definition list_rend :: "klist \<Rightarrow> addr" where
  "list_rend l = l_head l"

definition list_head :: "klist \<Rightarrow> addr" where
  "list_head l = l_head l"

definition list_tail :: "klist \<Rightarrow> addr" where
  "list_tail l = l_tail l"

definition list_insert :: "heap \<Rightarrow> addr \<Rightarrow> addr \<Rightarrow> heap option" where
  "list_insert h before elem = do {
     a \<leftarrow> is_interior h before; b \<leftarrow> is_tail h before; ASSERT (a \<or> b);
     ASSERT (elem \<noteq> NULL);
     p \<leftarrow> get_prev h before;
     h \<leftarrow> set_prev h elem p;
     h \<leftarrow> set_next h elem before;
     p \<leftarrow> get_prev h before;
     h \<leftarrow> set_next h p elem;
     set_prev h before elem }"

definition list_splice :: "heap \<Rightarrow> addr \<Rightarrow> addr \<Rightarrow> addr \<Rightarrow> heap option" where
  "list_splice h before first last0 = do {
     a \<leftarrow> is_interior h before; b \<leftarrow> is_tail h before; ASSERT (a \<or> b);
     if first = last0 then Some h
     else do {
       last1 \<leftarrow> list_prev h last0;
       fi \<leftarrow> is_interior h first; ASSERT fi;
       li \<leftarrow> is_interior h last1; ASSERT li;
       fp \<leftarrow> get_prev h first;
       ln \<leftarrow> get_next h last1;
       h \<leftarrow> set_next h fp ln;
       ln \<leftarrow> get_next h last1;
       fp \<leftarrow> get_prev h first;
       h \<leftarrow> set_prev h ln fp;
       bp \<leftarrow> get_prev h before;
       h \<leftarrow> set_prev h first bp;
       h \<leftarrow> set_next h last1 before;
       bp \<leftarrow> get_prev h before;
       h \<leftarrow> set_next h bp first;
       set_prev h before last1 } }"

definition list_push_front :: "heap \<Rightarrow> klist \<Rightarrow> addr \<Rightarrow> heap option" where
  "list_push_front h l elem = do { b \<leftarrow> list_begin h l; list_insert h b elem }"

definition list_push_back :: "heap \<Rightarrow> klist \<Rightarrow> addr \<Rightarrow> heap option" where
  "list_push_back h l elem = list_insert h (list_end l) elem"

definition list_remove :: "heap \<Rightarrow> addr \<Rightarrow> (addr \<times> heap) option" where
  "list_remove h elem = do {
     i \<leftarrow> is_interior h elem; ASSERT i;
     p \<leftarrow> get_prev h elem; n \<leftarrow> get_next h elem;
     h \<leftarrow> set_next h p n;
     n \<leftarrow> get_next h elem; p \<leftarrow> get_prev h elem;
     h \<leftarrow> set_prev h n p;
     n \<leftarrow> get_next h elem;
     Some (n, h) }"

definition list_empty :: "heap \<Rightarrow> klist \<Rightarrow> bool option" where
  "list_empty h l = do { b \<leftarrow> list_begin h l; Some (b = list_end l) }"

definition list_front :: "heap \<Rightarrow> klist \<Rightarrow> addr option" where
  "list_front h l = do { e \<leftarrow> list_empty h l; ASSERT (\<not> e); get_next h (l_head l) }"

definition list_back :: "heap \<Rightarrow> klist \<Rightarrow> addr option" where
  "list_back h l = do { e \<leftarrow> list_empty h l; ASSERT (\<not> e); get_prev h (l_tail l) }"

definition list_pop_front :: "heap \<Rightarrow> klist \<Rightarrow> (addr \<times> heap) option" where
  "list_pop_front h l = do {
     front \<leftarrow> list_front h l; (n, h) \<leftarrow> list_remove h front; Some (front, h) }"

definition list_pop_back :: "heap \<Rightarrow> klist \<Rightarrow> (addr \<times> heap) option" where
  "list_pop_back h l = do {
     back \<leftarrow> list_back h l; (n, h) \<leftarrow> list_remove h back; Some (back, h) }"

section \<open>Field access\<close>

definition valid :: "heap \<Rightarrow> addr \<Rightarrow> bool" where
  "valid h p \<longleftrightarrow> p \<noteq> NULL \<and> h p \<noteq> None"

definition upd_prev :: "heap \<Rightarrow> addr \<Rightarrow> addr \<Rightarrow> heap" where
  "upd_prev h p v = h(p := map_option (\<lambda>e. e\<lparr>le_prev := v\<rparr>) (h p))"

definition upd_next :: "heap \<Rightarrow> addr \<Rightarrow> addr \<Rightarrow> heap" where
  "upd_next h p v = h(p := map_option (\<lambda>e. e\<lparr>le_next := v\<rparr>) (h p))"

lemma set_prev_eq: "set_prev h p v = (if valid h p then Some (upd_prev h p v) else None)"
  by (auto simp: set_prev_def upd_prev_def valid_def deref_def)

lemma set_next_eq: "set_next h p v = (if valid h p then Some (upd_next h p v) else None)"
  by (auto simp: set_next_def upd_next_def valid_def deref_def)

lemma valid_upd [simp]:
  "valid (upd_prev h p v) q = valid h q" "valid (upd_next h p v) q = valid h q"
  by (auto simp: valid_def upd_prev_def upd_next_def)

lemma get_upd_prev [simp]:
  "get_prev (upd_prev h p v) q = (if q = p \<and> valid h p then Some v else get_prev h q)"
  "get_next (upd_prev h p v) q = get_next h q"
  by (cases "h p"; auto simp: get_prev_def get_next_def deref_def upd_prev_def valid_def)+

lemma get_upd_next [simp]:
  "get_next (upd_next h p v) q = (if q = p \<and> valid h p then Some v else get_next h q)"
  "get_prev (upd_next h p v) q = get_prev h q"
  by (cases "h p"; auto simp: get_prev_def get_next_def deref_def upd_next_def valid_def)+

lemma upd_frame [simp]:
  "q \<noteq> p \<Longrightarrow> upd_prev h p v q = h q" "q \<noteq> p \<Longrightarrow> upd_next h p v q = h q"
  by (simp_all add: upd_prev_def upd_next_def)

lemma valid_if_get:
  "get_prev h p = Some v \<Longrightarrow> valid h p" "get_next h p = Some v \<Longrightarrow> valid h p"
  by (auto simp: get_prev_def get_next_def deref_def valid_def split: if_splits)

lemma valid_get:
  "valid h p \<Longrightarrow> \<exists>v. get_prev h p = Some v" "valid h p \<Longrightarrow> \<exists>v. get_next h p = Some v"
  by (auto simp: get_prev_def get_next_def deref_def valid_def)

lemma get_prev_NULL [simp]: "get_prev h NULL = None"
  by (simp add: get_prev_def deref_def)

lemma get_next_NULL [simp]: "get_next h NULL = None"
  by (simp add: get_next_def deref_def)

lemma get_cong:
  "h' p = h p \<Longrightarrow> get_prev h' p = get_prev h p" "h' p = h p \<Longrightarrow> get_next h' p = get_next h p"
  by (simp_all add: get_prev_def get_next_def deref_def)

section \<open>Chains of nodes\<close>

text \<open>
  \<open>chain h ns\<close>: each node of \<open>ns\<close> points forward to the following one and is pointed back at
  by it. \<open>dlist h ns\<close>: \<open>ns\<close> is a whole list, headers included.
\<close>

fun chain :: "heap \<Rightarrow> addr list \<Rightarrow> bool" where
  "chain h [] = True"
| "chain h [a] = True"
| "chain h (a # b # ns) = (get_next h a = Some b \<and> get_prev h b = Some a \<and> chain h (b # ns))"

definition dlist :: "heap \<Rightarrow> addr list \<Rightarrow> bool" where
  "dlist h ns \<longleftrightarrow> distinct ns \<and> 2 \<le> length ns \<and> NULL \<notin> set ns \<and> chain h ns \<and>
     get_prev h (hd ns) = Some NULL \<and> get_next h (last ns) = Some NULL"

definition nodes :: "klist \<Rightarrow> addr list \<Rightarrow> addr list" where
  "nodes l xs = l_head l # xs @ [l_tail l]"

definition list_rep :: "heap \<Rightarrow> klist \<Rightarrow> addr list \<Rightarrow> bool" where
  "list_rep h l xs \<longleftrightarrow> dlist h (nodes l xs)"

lemma chain_append:
  "chain h (as @ a # b # bs) \<longleftrightarrow>
     chain h (as @ [a]) \<and> get_next h a = Some b \<and> get_prev h b = Some a \<and> chain h (b # bs)"
proof (induction as)
  case (Cons c as)
  then show ?case by (cases as) auto
qed simp

lemma chain_cong:
  "\<forall>a \<in> set (butlast ns). get_next h' a = get_next h a \<Longrightarrow>
   \<forall>a \<in> set (tl ns). get_prev h' a = get_prev h a \<Longrightarrow> chain h' ns = chain h ns"
proof (induction ns)
  case (Cons a ns)
  show ?case
  proof (cases ns)
    case (Cons b ms)
    have "\<forall>a \<in> set (tl ns). get_prev h' a = get_prev h a"
      using Cons.prems(2) Cons by simp
    moreover have "\<forall>a \<in> set (butlast ns). get_next h' a = get_next h a"
      using Cons.prems(1) Cons by simp
    ultimately have "chain h' ns = chain h ns" by (intro Cons.IH)
    then show ?thesis using Cons.prems Cons by simp
  qed simp
qed simp

text \<open>Writes outside the fields a chain reads leave it intact.\<close>

lemma chain_upd_next [simp]: "p \<notin> set (butlast ns) \<Longrightarrow> chain (upd_next h p v) ns = chain h ns"
  by (intro chain_cong) auto

lemma chain_upd_prev [simp]: "p \<notin> set (tl ns) \<Longrightarrow> chain (upd_prev h p v) ns = chain h ns"
  by (intro chain_cong) auto

lemma chain_snoc: "chain h (as @ [a, b]) \<longleftrightarrow>
    chain h (as @ [a]) \<and> get_next h a = Some b \<and> get_prev h b = Some a"
  using chain_append [of h as a b "[]"] by simp

lemma dlist_cong: "\<forall>a \<in> set ns. h' a = h a \<Longrightarrow> dlist h' ns = dlist h ns"
proof (cases ns)
  case (Cons n ms)
  assume eq: "\<forall>a \<in> set ns. h' a = h a"
  have "chain h' ns = chain h ns"
    using eq Cons by (intro chain_cong ballI get_cong) (auto dest: in_set_butlastD split: if_splits)
  moreover have "get_prev h' (hd ns) = get_prev h (hd ns)" "get_next h' (last ns) = get_next h (last ns)"
    using eq Cons by (intro get_cong; simp)+
  ultimately show ?thesis by (simp add: dlist_def)
qed (simp add: dlist_def)

lemma list_rep_frame:
  "\<forall>a \<in> set (nodes l xs). h' a = h a \<Longrightarrow> list_rep h' l xs = list_rep h l xs"
  by (simp add: list_rep_def dlist_cong)

text \<open>What the links of a list are, node by node.\<close>

lemma dlist_link:
  assumes "dlist h (as @ a # b # bs)"
  shows "get_next h a = Some b" "get_prev h b = Some a"
  using assms by (auto simp: dlist_def chain_append)

lemma dlist_first: "dlist h (a # b # bs) \<Longrightarrow> get_prev h a = Some NULL"
  by (simp add: dlist_def)

lemma dlist_last: "dlist h (as @ [a, b]) \<Longrightarrow> get_next h b = Some NULL"
  by (simp add: dlist_def)

lemma dlist_nonnull: "dlist h ns \<Longrightarrow> a \<in> set ns \<Longrightarrow> a \<noteq> NULL"
  by (metis dlist_def)

lemma dlist_valid:
  assumes "dlist h ns" "a \<in> set ns"
  shows "valid h a"
proof -
  from assms(2) obtain as bs where ns: "ns = as @ a # bs" by (auto simp: in_set_conv_decomp)
  show ?thesis
  proof (cases bs)
    case (Cons b cs)
    then show ?thesis using assms(1) ns dlist_link(1) valid_if_get(2) by blast
  next
    case Nil
    then have "as \<noteq> []" using assms(1) ns by (auto simp: dlist_def)
    then show ?thesis using assms(1) ns Nil by (auto simp: dlist_def intro: valid_if_get(2))
  qed
qed

text \<open>The three predicates of the code tell the three kinds of node apart.\<close>

lemma dlist_inner:
  assumes "dlist h (as @ a # x # b # bs)"
  shows "is_head h x = Some False" "is_interior h x = Some True" "is_tail h x = Some False"
    "get_prev h x = Some a" "get_next h x = Some b"
proof -
  show 1: "get_prev h x = Some a" using dlist_link(2) [OF assms] .
  have "dlist h ((as @ [a]) @ x # b # bs)" using assms by simp
  from dlist_link(1) [OF this] show 2: "get_next h x = Some b" .
  have "a \<noteq> NULL" "b \<noteq> NULL" "x \<noteq> NULL"
    using dlist_nonnull [OF assms] by auto
  then show "is_head h x = Some False" "is_interior h x = Some True" "is_tail h x = Some False"
    by (simp_all add: is_head_def is_interior_def is_tail_def 1 2)
qed

lemma dlist_front_node:
  assumes "dlist h (x # b # bs)"
  shows "is_head h x = Some True" "is_interior h x = Some False" "is_tail h x = Some False"
    "get_prev h x = Some NULL" "get_next h x = Some b"
proof -
  show 1: "get_prev h x = Some NULL" using dlist_first [OF assms] .
  show 2: "get_next h x = Some b" using dlist_link(1) [of h "[]"] assms by simp
  have "x \<noteq> NULL" "b \<noteq> NULL" using dlist_nonnull [OF assms] by auto
  then show "is_head h x = Some True" "is_interior h x = Some False" "is_tail h x = Some False"
    by (simp_all add: is_head_def is_interior_def is_tail_def 1 2)
qed

lemma dlist_back_node:
  assumes "dlist h (as @ [a, x])"
  shows "is_head h x = Some False" "is_interior h x = Some False" "is_tail h x = Some True"
    "get_prev h x = Some a" "get_next h x = Some NULL"
proof -
  show 1: "get_prev h x = Some a" using dlist_link(2) [of h as a x "[]"] assms by simp
  show 2: "get_next h x = Some NULL" using dlist_last [OF assms] .
  have "x \<noteq> NULL" "a \<noteq> NULL" using dlist_nonnull [OF assms] by auto
  then show "is_head h x = Some False" "is_interior h x = Some False" "is_tail h x = Some True"
    by (simp_all add: is_head_def is_interior_def is_tail_def 1 2)
qed

text \<open>A node with a predecessor passes the check of the inserting operations.\<close>

lemma dlist_before:
  assumes "dlist h (as @ p # b # bs)"
  obtains i t where "is_interior h b = Some i" "is_tail h b = Some t" "i \<or> t"
proof (cases bs)
  case Nil
  then show ?thesis using that dlist_back_node(2,3) [of h as p b] assms by auto
next
  case (Cons c cs)
  then show ?thesis using that dlist_inner(2,3) [of h as p b c cs] assms by auto
qed

lemma dlist_list_next:
  assumes "dlist h (as @ a # b # bs)"
  shows "list_next h a = Some b"
proof (cases as rule: rev_cases)
  case Nil
  then show ?thesis
    using dlist_front_node [of h a b bs] assms by (simp add: list_next_def)
next
  case (snoc cs c)
  then show ?thesis
    using dlist_inner [of h cs c a b bs] assms by (simp add: list_next_def)
qed

lemma dlist_list_prev:
  assumes "dlist h (as @ a # b # bs)"
  shows "list_prev h b = Some a"
proof (cases bs)
  case Nil
  then show ?thesis
    using dlist_back_node [of h as a b] assms by (simp add: list_prev_def)
next
  case (Cons c cs)
  then show ?thesis
    using dlist_inner [of h as a b c cs] assms by (simp add: list_prev_def)
qed

section \<open>Linking and unlinking runs of nodes\<close>

text \<open>
  The pointer assignments of \<open>list_insert\<close>, \<open>list_remove\<close> and \<open>list_splice\<close> are two heap
  transformers: \<open>unlink h p n\<close> joins \<open>p\<close> to \<open>n\<close>, dropping what is between them, and
  \<open>link h q b f l\<close> puts the run from \<open>f\<close> to \<open>l\<close> between \<open>q\<close> and \<open>b\<close>.
\<close>

definition unlink :: "heap \<Rightarrow> addr \<Rightarrow> addr \<Rightarrow> heap" where
  "unlink h p n = upd_prev (upd_next h p n) n p"

definition link :: "heap \<Rightarrow> addr \<Rightarrow> addr \<Rightarrow> addr \<Rightarrow> addr \<Rightarrow> heap" where
  "link h q b f l = upd_prev (upd_next (upd_next (upd_prev h f q) l b) q f) b l"

lemma unlink_frame: "x \<noteq> p \<Longrightarrow> x \<noteq> n \<Longrightarrow> unlink h p n x = h x"
  by (simp add: unlink_def)

lemma link_frame: "x \<noteq> q \<Longrightarrow> x \<noteq> b \<Longrightarrow> x \<noteq> f \<Longrightarrow> x \<noteq> l \<Longrightarrow> link h q b f l x = h x"
  by (simp add: link_def)

lemma valid_unlink [simp]: "valid (unlink h p n) x = valid h x"
  by (simp add: unlink_def)

lemma valid_link [simp]: "valid (link h q b f l) x = valid h x"
  by (simp add: link_def)

lemma chain_appendD:
  assumes "chain h (as @ bs)"
  shows "chain h as" "chain h bs"
proof -
  show "chain h as"
    using assms by (induction as rule: chain.induct [of _ h]) auto
  show "chain h bs"
    using assms
  proof (induction as)
    case (Cons a as)
    then show ?case by (cases "as @ bs") auto
  qed simp
qed

lemma chain_appendI:
  "chain h (as @ [a]) \<Longrightarrow> get_next h a = Some b \<Longrightarrow> get_prev h b = Some a \<Longrightarrow>
    chain h (b # bs) \<Longrightarrow> chain h (as @ a # b # bs)"
  by (simp add: chain_append)

lemma dlist_unlink:
  assumes d: "dlist h (as @ p # seg @ n # bs)"
  shows "dlist (unlink h p n) (as @ p # n # bs)" "chain (unlink h p n) seg"
proof -
  let ?h = "unlink h p n"
  have v: "valid h p" "valid h n" using dlist_valid [OF d] by auto
  have links: "get_next ?h p = Some n" "get_prev ?h n = Some p"
    using v by (simp_all add: unlink_def)
  have ch: "chain h ((as @ [p]) @ seg @ n # bs)" using d by (simp add: dlist_def)
  have dist: "p \<notin> set (as @ n # bs)" "n \<notin> set (as @ bs)" "p \<notin> set seg" "n \<notin> set seg"
    using d by (auto simp: dlist_def)
  note parts = chain_appendD(1) [OF ch] chain_appendD [OF chain_appendD(2) [OF ch]]
  have 1: "chain ?h (as @ [p])"
    using parts(1) dist by (subst chain_cong [of _ _ h]) (auto simp: unlink_def dest!: in_set_tlD)
  have 2: "chain ?h (n # bs)"
    using parts(3) dist
    by (subst chain_cong [of _ _ h]) (auto simp: unlink_def dest: in_set_butlastD split: if_splits)
  show "chain ?h seg"
    using parts(2) dist
    by (subst chain_cong [of _ _ h]) (auto simp: unlink_def dest: in_set_butlastD in_set_tlD)
  have "chain ?h (as @ p # n # bs)" using 1 2 links by (intro chain_appendI)
  moreover have "get_prev ?h (hd (as @ p # n # bs)) = Some NULL"
    using d dist by (cases as) (auto simp: dlist_def unlink_def)
  moreover have "get_next ?h (last (as @ p # n # bs)) = Some NULL"
    using d dist by (auto simp: dlist_def unlink_def)
  ultimately show "dlist ?h (as @ p # n # bs)" using d by (auto simp: dlist_def)
qed

lemma dlist_link_run:
  assumes d: "dlist h (as @ q # b # bs)"
    and seg: "seg \<noteq> []" "distinct seg" "chain h seg" "\<forall>x \<in> set seg. valid h x"
    and disj: "set seg \<inter> set (as @ q # b # bs) = {}"
  shows "dlist (link h q b (hd seg) (last seg)) (as @ q # seg @ b # bs)"
proof -
  let ?h = "link h q b (hd seg) (last seg)"
  have v: "valid h q" "valid h b" using dlist_valid [OF d] by auto
  obtain f fs where seg1: "seg = f # fs" using seg(1) by (cases seg) auto
  obtain ls l where seg2: "seg = ls @ [l]" using seg(1) by (cases seg rule: rev_cases) auto
  have ends: "hd seg = f" "last seg = l" by (simp add: seg1, simp add: seg2)
  have fl_in: "f \<in> set seg" "l \<in> set seg" by (simp add: seg1, simp add: seg2)
  have ne: "q \<notin> set seg" "b \<notin> set seg" "q \<noteq> b" using d disj by (auto simp: dlist_def)
  with fl_in have ne': "f \<noteq> q" "f \<noteq> b" "l \<noteq> q" "l \<noteq> b" "f \<noteq> NULL" "l \<noteq> NULL" "valid h f" "valid h l"
    using seg(4) by (auto simp: valid_def)
  have links: "get_next ?h q = Some f" "get_prev ?h f = Some q"
    "get_next ?h l = Some b" "get_prev ?h b = Some l"
    using v ne' ne by (simp_all add: link_def ends)
  have dist: "q \<notin> set (as @ b # bs)" "b \<notin> set (as @ bs)" using d by (auto simp: dlist_def)
  have out: "f \<notin> set as" "l \<notin> set as" "f \<notin> set bs" "l \<notin> set bs"
    using disj fl_in by auto
  have ch: "chain h ((as @ [q]) @ b # bs)" using d by (simp add: dlist_def)
  have 1: "chain ?h (as @ [q])"
    using chain_appendD(1) [OF ch] dist out ne'
    by (subst chain_cong [of _ _ h]) (auto simp: link_def ends dest!: in_set_tlD)
  have 2: "chain ?h (b # bs)"
    using chain_appendD(2) [OF ch] dist out ne'
    by (subst chain_cong [of _ _ h]) (auto simp: link_def ends dest: in_set_butlastD split: if_splits)
  have fl: "f \<notin> set (tl seg)" using seg(2) by (simp add: seg1)
  have lf: "l \<notin> set (butlast seg)" using seg(2) by (simp add: seg2)
  have 3: "chain ?h seg"
    using seg(3) fl lf ne
    by (subst chain_cong [of _ _ h]) (auto simp: link_def ends dest: in_set_butlastD in_set_tlD)
  have "chain ?h (ls @ l # b # bs)" using 3 2 links unfolding seg2 by (intro chain_appendI)
  then have "chain ?h (f # fs @ b # bs)" using seg1 seg2 by (metis append_Cons append_assoc append_Nil)
  then have "chain ?h (as @ q # f # fs @ b # bs)" using 1 links by (intro chain_appendI)
  then have "chain ?h (as @ q # seg @ b # bs)" using seg1 by simp
  moreover have "get_prev ?h (hd (as @ q # seg @ b # bs)) = Some NULL"
    using d dist out ne' by (cases as) (auto simp: dlist_def link_def ends)
  moreover have "get_next ?h (last (as @ q # seg @ b # bs)) = Some NULL"
    using d dist out ne' by (auto simp: dlist_def link_def ends)
  ultimately show ?thesis
    using d seg disj by (auto simp: dlist_def valid_def)
qed

section \<open>What the basic operations do\<close>

lemma list_insert_dlist:
  assumes d: "dlist h (as @ p # b # bs)" and e: "valid h e" "e \<notin> set (as @ p # b # bs)"
  shows "list_insert h b e = Some (link h p b e e)"
proof -
  obtain i t where it: "is_interior h b = Some i" "is_tail h b = Some t" "i \<or> t"
    using dlist_before [OF d] by blast
  have v: "valid h p" "valid h b" using dlist_valid [OF d] by auto
  have "e \<noteq> NULL" using e(1) by (simp add: valid_def)
  then show ?thesis
    using it v e dlist_link [OF d] by (auto simp: list_insert_def set_prev_eq set_next_eq link_def)
qed

lemma list_remove_dlist:
  assumes d: "dlist h (as @ p # e # n # bs)"
  shows "list_remove h e = Some (n, unlink h p n)"
proof -
  have v: "valid h p" "valid h n" using dlist_valid [OF d] by auto
  have "p \<noteq> e" "n \<noteq> e" using d by (auto simp: dlist_def)
  then show ?thesis
    using v dlist_inner [OF d] by (simp add: list_remove_def set_prev_eq set_next_eq unlink_def)
qed

lemma list_splice_dlist:
  assumes src: "dlist h (as @ p # seg @ n # bs)" and seg: "seg \<noteq> []"
    and b: "dlist h (cs @ c # b # ds)" "b \<notin> set seg"
    and dst: "dlist (unlink h p n) (es @ q # b # fs)" "q \<notin> set seg"
  shows "list_splice h b (hd seg) n = Some (link (unlink h p n) q b (hd seg) (last seg))"
proof -
  obtain i t where it: "is_interior h b = Some i" "is_tail h b = Some t" "i \<or> t"
    using dlist_before [OF b(1)] by blast
  obtain f gs where seg1: "seg = f # gs" using seg by (cases seg) auto
  obtain ls l where seg2: "seg = ls @ [l]" using seg by (cases seg rule: rev_cases) auto
  have ends: "hd seg = f" "last seg = l" by (simp add: seg1, simp add: seg2)
  have "dlist h ((as @ p # ls) @ l # n # bs)" using src seg2 by simp
  from dlist_list_prev [OF this] dlist_link(1) [OF this]
  have l: "list_prev h n = Some l" "get_next h l = Some n" .
  obtain g gs' where "gs @ n # bs = g # gs'" by (cases gs) auto
  then have fd: "dlist h (as @ p # f # g # gs')" using src seg1 by simp
  have f: "is_interior h f = Some True" "get_prev h f = Some p"
    using dlist_inner [OF fd] by simp_all
  have li: "is_interior h l = Some True"
  proof (cases ls rule: rev_cases)
    case Nil
    then show ?thesis using f seg1 seg2 by simp
  next
    case (snoc ms m)
    then have "dlist h ((as @ p # ms) @ m # l # n # bs)" using src seg2 by simp
    then show ?thesis by (rule dlist_inner)
  qed
  have fl_in: "f \<in> set seg" "l \<in> set seg" by (simp add: seg1, simp add: seg2)
  have pn: "p \<notin> set seg" "n \<notin> set seg" using src by (auto simp: dlist_def)
  have ne: "f \<noteq> n" "l \<noteq> p" "f \<noteq> p" "l \<noteq> n" "f \<noteq> b" "l \<noteq> b" "q \<noteq> f" "q \<noteq> l"
    using pn fl_in b(2) dst(2) by auto
  have v: "valid h p" "valid h n" "valid h f" "valid h l"
    using dlist_valid [OF src] fl_in by auto
  have v': "valid h q" "valid h b" using dlist_valid [OF dst(1)] by auto
  have q: "get_prev (unlink h p n) b = Some q" using dlist_link(2) [OF dst(1)] .
  then show ?thesis
    using it l f li ne v v' by (simp add: list_splice_def set_prev_eq set_next_eq ends link_def unlink_def split: if_splits)
qed

section \<open>The list as a sequence\<close>

text \<open>
  \<open>fresh h l xs e\<close>: \<open>e\<close> is an allocated element outside the list. \<open>only_changes h h' S\<close>:
  \<open>h'\<close> differs from \<open>h\<close> in the cells of \<open>S\<close> at most, and both have the same valid cells.
\<close>

definition fresh :: "heap \<Rightarrow> klist \<Rightarrow> addr list \<Rightarrow> addr \<Rightarrow> bool" where
  "fresh h l xs e \<longleftrightarrow> valid h e \<and> e \<notin> set (nodes l xs)"

definition only_changes :: "heap \<Rightarrow> heap \<Rightarrow> addr set \<Rightarrow> bool" where
  "only_changes h h' S \<longleftrightarrow> (\<forall>a. a \<notin> S \<longrightarrow> h' a = h a) \<and> valid h' = valid h"

lemma only_changes_refl [simp]: "only_changes h h S"
  by (simp add: only_changes_def)

lemma only_changes_trans:
  "only_changes h1 h2 S \<Longrightarrow> only_changes h2 h3 T \<Longrightarrow> only_changes h1 h3 (S \<union> T)"
  by (simp add: only_changes_def)

lemma only_changes_mono: "only_changes h h' S \<Longrightarrow> S \<subseteq> T \<Longrightarrow> only_changes h h' T"
  by (auto simp: only_changes_def)

lemma only_changes_link: "{q, b, f, l} \<subseteq> S \<Longrightarrow> only_changes h (link h q b f l) S"
  by (auto simp: only_changes_def fun_eq_iff intro: link_frame)

lemma only_changes_unlink: "{p, n} \<subseteq> S \<Longrightarrow> only_changes h (unlink h p n) S"
  by (auto simp: only_changes_def fun_eq_iff intro: unlink_frame)

lemma only_changes_list_rep:
  "only_changes h h' S \<Longrightarrow> set (nodes l xs) \<inter> S = {} \<Longrightarrow> list_rep h' l xs = list_rep h l xs"
  by (rule list_rep_frame) (auto simp: only_changes_def)

lemma list_rep_split:
  "list_rep h l (xs @ ys) \<longleftrightarrow> dlist h ((l_head l # xs) @ (ys @ [l_tail l]))"
  by (simp add: list_rep_def nodes_def)

lemma list_repD:
  assumes "list_rep h l xs"
  shows "distinct xs" "NULL \<notin> set xs" "l_head l \<notin> set xs" "l_tail l \<notin> set xs"
    "l_head l \<noteq> l_tail l" "\<forall>x \<in> set (nodes l xs). valid h x"
  using assms dlist_valid [of h "nodes l xs"] by (auto simp: list_rep_def nodes_def dlist_def)

text \<open>The part of the list before a position ends in a node \<open>p\<close>, the rest starts with \<open>b\<close>.\<close>

lemma rep_position:
  obtains as p b bs where "l_head l # xs = as @ [p]" "ys @ [l_tail l] = b # bs"
    "hd (ys @ [l_tail l]) = b" "last (l_head l # xs) = p"
proof -
  obtain as p where "l_head l # xs = as @ [p]" by (metis list.distinct(1) rev_exhaust)
  moreover obtain b bs where "ys @ [l_tail l] = b # bs" by (cases ys) auto
  ultimately show ?thesis using that by simp
qed

lemma list_init_rep:
  assumes "valid h (l_head l)" "valid h (l_tail l)" "l_head l \<noteq> l_tail l"
  shows "\<exists>h'. list_init h l = Some h' \<and> list_rep h' l [] \<and>
    only_changes h h' {l_head l, l_tail l}"
  using assms
  by (auto simp: list_init_def set_prev_eq set_next_eq list_rep_def nodes_def dlist_def
      only_changes_def fun_eq_iff valid_def [of h])

lemma list_begin_rep:
  assumes "list_rep h l xs"
  shows "list_begin h l = Some (hd (xs @ [l_tail l]))"
proof -
  obtain b bs where b: "xs @ [l_tail l] = b # bs" by (cases xs) auto
  with assms have "dlist h ([] @ l_head l # b # bs)" by (simp add: list_rep_def nodes_def)
  from dlist_link(1) [OF this] b show ?thesis by (simp add: list_begin_def)
qed

lemma list_rbegin_rep:
  assumes "list_rep h l xs"
  shows "list_rbegin h l = Some (last (l_head l # xs))"
proof -
  obtain as p where p: "l_head l # xs = as @ [p]" by (metis list.distinct(1) rev_exhaust)
  with assms list_rep_split [of h l xs "[]"] have "dlist h (as @ p # [l_tail l])" by simp
  from dlist_link(2) [OF this] p show ?thesis by (simp add: list_rbegin_def)
qed

lemma list_empty_rep: "list_rep h l xs \<Longrightarrow> list_empty h l = Some (xs = [])"
  using list_repD(4) [of h l xs]
  by (cases xs) (auto simp: list_empty_def list_begin_rep list_end_def)

lemma list_front_rep: "list_rep h l (x # xs) \<Longrightarrow> list_front h l = Some x"
  using list_begin_rep [of h l "x # xs"]
  by (simp add: list_front_def list_empty_rep list_begin_def)

lemma list_back_rep: "list_rep h l (xs @ [x]) \<Longrightarrow> list_back h l = Some x"
  using list_rbegin_rep [of h l "xs @ [x]"]
  by (simp add: list_back_def list_empty_rep list_rbegin_def)

lemma list_front_empty: "list_rep h l [] \<Longrightarrow> list_front h l = None"
  by (simp add: list_front_def list_empty_rep)

lemma list_back_empty: "list_rep h l [] \<Longrightarrow> list_back h l = None"
  by (simp add: list_back_def list_empty_rep)

text \<open>Stepping through the list.\<close>

lemma list_next_rep:
  assumes "list_rep h l (xs @ x # ys)"
  shows "list_next h x = Some (hd (ys @ [l_tail l]))"
proof -
  obtain b bs where b: "ys @ [l_tail l] = b # bs" by (cases ys) auto
  with assms have "dlist h ((l_head l # xs) @ x # b # bs)" by (simp add: list_rep_def nodes_def)
  from dlist_list_next [OF this] b show ?thesis by simp
qed

lemma list_prev_rep:
  assumes "list_rep h l (xs @ ys)"
  shows "list_prev h (hd (ys @ [l_tail l])) = Some (last (l_head l # xs))"
proof -
  obtain as p b bs where pos: "l_head l # xs = as @ [p]" "ys @ [l_tail l] = b # bs"
      "hd (ys @ [l_tail l]) = b" "last (l_head l # xs) = p"
    by (rule rep_position)
  with assms have "dlist h (as @ p # b # bs)" by (simp add: list_rep_split)
  from dlist_list_prev [OF this] pos show ?thesis by simp
qed

lemma list_next_tail:
  assumes "list_rep h l xs"
  shows "list_next h (l_tail l) = None"
proof -
  obtain as p where p: "l_head l # xs = as @ [p]" by (metis list.distinct(1) rev_exhaust)
  with assms list_rep_split [of h l xs "[]"] have "dlist h (as @ [p, l_tail l])" by simp
  from dlist_back_node(1,2) [OF this] show ?thesis by (simp add: list_next_def)
qed

text \<open>Insertion.\<close>

lemma list_insert_rep:
  assumes r: "list_rep h l (xs @ ys)" and e: "fresh h l (xs @ ys) e"
  shows "\<exists>h'. list_insert h (hd (ys @ [l_tail l])) e = Some h' \<and> list_rep h' l (xs @ e # ys) \<and>
    only_changes h h' (set (nodes l (xs @ e # ys)))"
proof -
  obtain as p b bs where pos: "l_head l # xs = as @ [p]" "ys @ [l_tail l] = b # bs"
      "hd (ys @ [l_tail l]) = b"
    by (rule rep_position)
  have d: "dlist h (as @ p # b # bs)" using r pos by (simp add: list_rep_split)
  have ns: "nodes l (xs @ ys) = as @ p # b # bs" "nodes l (xs @ e # ys) = as @ p # e # b # bs"
    using pos by (simp_all add: nodes_def)
  have e': "valid h e" "e \<notin> set (as @ p # b # bs)" using e ns by (auto simp: fresh_def)
  have "dlist (link h p b e e) (as @ p # [e] @ b # bs)"
    using dlist_link_run [OF d, of "[e]"] e' by simp
  then have "list_rep (link h p b e e) l (xs @ e # ys)"
    using ns by (simp add: list_rep_def)
  moreover have "only_changes h (link h p b e e) (set (nodes l (xs @ e # ys)))"
    unfolding ns by (rule only_changes_link) auto
  ultimately show ?thesis using list_insert_dlist [OF d e'] pos by simp
qed

lemma list_push_front_rep:
  assumes "list_rep h l xs" "fresh h l xs e"
  shows "\<exists>h'. list_push_front h l e = Some h' \<and> list_rep h' l (e # xs) \<and>
    only_changes h h' (set (nodes l (e # xs)))"
  using list_insert_rep [of h l "[]" xs e] assms
  by (simp add: list_push_front_def list_begin_rep)

lemma list_push_back_rep:
  assumes "list_rep h l xs" "fresh h l xs e"
  shows "\<exists>h'. list_push_back h l e = Some h' \<and> list_rep h' l (xs @ [e]) \<and>
    only_changes h h' (set (nodes l (xs @ [e])))"
  using list_insert_rep [of h l xs "[]" e] assms
  by (simp add: list_push_back_def list_end_def)

text \<open>Removal.\<close>

lemma list_remove_rep:
  assumes r: "list_rep h l (xs @ e # ys)"
  shows "\<exists>h'. list_remove h e = Some (hd (ys @ [l_tail l]), h') \<and> list_rep h' l (xs @ ys) \<and>
    only_changes h h' (set (nodes l (xs @ ys))) \<and> fresh h' l (xs @ ys) e"
proof -
  obtain as p b bs where pos: "l_head l # xs = as @ [p]" "ys @ [l_tail l] = b # bs"
      "hd (ys @ [l_tail l]) = b"
    by (rule rep_position)
  have ns: "nodes l (xs @ ys) = as @ p # b # bs" "nodes l (xs @ e # ys) = as @ p # e # b # bs"
    using pos by (simp_all add: nodes_def)
  have d: "dlist h (as @ p # [e] @ b # bs)" using r ns by (simp add: list_rep_def)
  have "list_rep (unlink h p b) l (xs @ ys)"
    using dlist_unlink(1) [OF d] ns by (simp add: list_rep_def)
  moreover have "only_changes h (unlink h p b) (set (nodes l (xs @ ys)))"
    unfolding ns by (rule only_changes_unlink) auto
  moreover have "fresh (unlink h p b) l (xs @ ys) e"
    using d ns dlist_valid [OF d] by (auto simp: fresh_def dlist_def)
  ultimately show ?thesis using list_remove_dlist [of h as p e b bs] d pos by simp
qed

lemma list_pop_front_rep:
  assumes "list_rep h l (x # xs)"
  shows "\<exists>h'. list_pop_front h l = Some (x, h') \<and> list_rep h' l xs \<and>
    only_changes h h' (set (nodes l xs)) \<and> fresh h' l xs x"
  using list_remove_rep [of h l "[]" x xs] assms
  by (auto simp: list_pop_front_def list_front_rep)

lemma list_pop_back_rep:
  assumes "list_rep h l (xs @ [x])"
  shows "\<exists>h'. list_pop_back h l = Some (x, h') \<and> list_rep h' l xs \<and>
    only_changes h h' (set (nodes l xs)) \<and> fresh h' l xs x"
  using list_remove_rep [of h l xs x "[]"] assms
  by (auto simp: list_pop_back_def list_back_rep)

lemma list_pop_front_empty: "list_rep h l [] \<Longrightarrow> list_pop_front h l = None"
  by (simp add: list_pop_front_def list_front_empty)

lemma list_pop_back_empty: "list_rep h l [] \<Longrightarrow> list_pop_back h l = None"
  by (simp add: list_pop_back_def list_back_empty)

end
