(* ===== verification/Kernel_List_Loops.thy ===== *)
theory Kernel_List_Loops
  imports Kernel_List "HOL-Library.Multiset"
begin

text \<open>
  Moving runs of elements (\<open>list_splice\<close>) and the traversals of \<open>lib/kernel/list.c\<close>:
  \<open>list_size\<close>, \<open>list_reverse\<close>, \<open>list_insert_ordered\<close>, \<open>list_unique\<close>, \<open>list_max\<close> and
  \<open>list_min\<close>, each with the function on sequences that it implements. The comparison function
  and its auxiliary data are one parameter \<open>lt\<close>: the code only calls it, and it reads the
  structures the elements are embedded in, which the list code never writes.
\<close>

section \<open>Splicing\<close>

lemma list_splice_nothing:
  assumes "list_rep h l (xs @ ys)"
  shows "list_splice h (hd (ys @ [l_tail l])) f f = Some h"
proof -
  obtain as p b bs where pos: "l_head l # xs = as @ [p]" "ys @ [l_tail l] = b # bs"
      "hd (ys @ [l_tail l]) = b"
    by (rule rep_position)
  then have "dlist h (as @ p # b # bs)" using assms by (simp add: list_rep_split)
  from dlist_before [OF this] obtain i t
    where "is_interior h b = Some i" "is_tail h b = Some t" "i \<or> t" by blast
  then show ?thesis using pos by (auto simp: list_splice_def)
qed

lemma has_predecessor:
  assumes "b \<in> set (tl ns)"
  obtains cs c ds where "ns = cs @ c # b # ds"
proof -
  obtain a ms where "ns = a # ms" using assms by (cases ns) auto
  moreover obtain us vs where "ms = us @ b # vs"
    using assms calculation by (auto simp: in_set_conv_decomp)
  moreover obtain cs c where "a # us = cs @ [c]" by (metis list.distinct(1) rev_exhaust)
  ultimately have "ns = cs @ c # b # vs" by (metis append_Cons append_assoc append_Nil)
  then show ?thesis using that by blast
qed

text \<open>Within one list: the run \<open>seg\<close> is taken out of \<open>us @ seg @ vs\<close> and put back elsewhere.\<close>

lemma list_splice_same:
  assumes r: "list_rep h l (us @ seg @ vs)" and seg: "seg \<noteq> []" and rest: "us @ vs = cs @ ds"
  shows "\<exists>h'. list_splice h (hd (ds @ [l_tail l])) (hd seg) (hd (vs @ [l_tail l])) = Some h' \<and>
    list_rep h' l (cs @ seg @ ds) \<and> only_changes h h' (set (nodes l (us @ seg @ vs)))"
proof -
  obtain as p n bs where pos: "l_head l # us = as @ [p]" "vs @ [l_tail l] = n # bs"
      "hd (vs @ [l_tail l]) = n"
    by (rule rep_position)
  have ns: "nodes l (us @ seg @ vs) = as @ p # seg @ n # bs" "nodes l (us @ vs) = as @ p # n # bs"
    using pos by (simp_all add: nodes_def)
  obtain es q b fs where at: "l_head l # cs = es @ [q]" "ds @ [l_tail l] = b # fs"
      "hd (ds @ [l_tail l]) = b"
    by (rule rep_position)
  have ns': "nodes l (cs @ seg @ ds) = es @ q # seg @ b # fs" "nodes l (us @ vs) = es @ q # b # fs"
    unfolding rest using at by (simp_all add: nodes_def)
  have d: "dlist h (as @ p # seg @ n # bs)" using r ns by (simp add: list_rep_def)
  let ?h1 = "unlink h p n"
  have d1: "dlist ?h1 (es @ q # b # fs)" "chain ?h1 seg"
    using dlist_unlink [OF d] ns ns' by auto
  have sets: "set (es @ q # b # fs) = set (as @ p # n # bs)" using ns(2) ns'(2) by simp
  have disj: "set seg \<inter> set (es @ q # b # fs) = {}" unfolding sets using d by (auto simp: dlist_def)
  have segp: "distinct seg" "\<forall>x \<in> set seg. valid ?h1 x"
    using d dlist_valid [OF d] by (auto simp: dlist_def)
  have "as @ p # n # bs = es @ q # b # fs" using ns(2) ns'(2) by simp
  moreover have "b \<in> set (tl (es @ q # b # fs))" by (cases es) auto
  ultimately have "b \<in> set (tl (as @ p # n # bs))" by simp
  then have "b \<in> set (tl (as @ p # seg @ n # bs))" by (cases as) auto
  then obtain xs x ys where "as @ p # seg @ n # bs = xs @ x # b # ys"
    by (rule has_predecessor)
  then have db: "dlist h (xs @ x # b # ys)" using d by simp
  have nin: "b \<notin> set seg" "q \<notin> set seg" using disj by auto
  have "list_rep (link ?h1 q b (hd seg) (last seg)) l (cs @ seg @ ds)"
    using dlist_link_run [OF d1(1) seg segp(1) d1(2) segp(2) disj] ns' by (simp add: list_rep_def)
  moreover have "only_changes h (link ?h1 q b (hd seg) (last seg)) (set (nodes l (us @ seg @ vs)))"
  proof -
    have 1: "only_changes h ?h1 (set (as @ p # seg @ n # bs))" by (rule only_changes_unlink) auto
    have 2: "only_changes ?h1 (link ?h1 q b (hd seg) (last seg)) (set (as @ p # seg @ n # bs))"
      using sets seg by (intro only_changes_link) auto
    show ?thesis using only_changes_trans [OF 1 2] ns by simp
  qed
  ultimately show ?thesis
    using list_splice_dlist [OF d seg db nin(1) d1(1) nin(2)] pos at by auto
qed

text \<open>From one list into another.\<close>

lemma list_splice_rep:
  assumes r1: "list_rep h l1 (us @ seg @ vs)" and seg: "seg \<noteq> []"
    and r2: "list_rep h l2 (cs @ ds)"
    and disj: "set (nodes l1 (us @ seg @ vs)) \<inter> set (nodes l2 (cs @ ds)) = {}"
  shows "\<exists>h'. list_splice h (hd (ds @ [l_tail l2])) (hd seg) (hd (vs @ [l_tail l1])) = Some h' \<and>
    list_rep h' l1 (us @ vs) \<and> list_rep h' l2 (cs @ seg @ ds) \<and>
    only_changes h h' (set (nodes l1 (us @ seg @ vs)) \<union> set (nodes l2 (cs @ ds)))"
proof -
  obtain as p n bs where pos: "l_head l1 # us = as @ [p]" "vs @ [l_tail l1] = n # bs"
      "hd (vs @ [l_tail l1]) = n"
    by (rule rep_position)
  have ns: "nodes l1 (us @ seg @ vs) = as @ p # seg @ n # bs" "nodes l1 (us @ vs) = as @ p # n # bs"
    using pos by (simp_all add: nodes_def)
  obtain es q b fs where at: "l_head l2 # cs = es @ [q]" "ds @ [l_tail l2] = b # fs"
      "hd (ds @ [l_tail l2]) = b"
    by (rule rep_position)
  have ns': "nodes l2 (cs @ seg @ ds) = es @ q # seg @ b # fs" "nodes l2 (cs @ ds) = es @ q # b # fs"
    using at by (simp_all add: nodes_def)
  have d: "dlist h (as @ p # seg @ n # bs)" using r1 ns by (simp add: list_rep_def)
  have d2: "dlist h (es @ q # b # fs)" using r2 ns' by (simp add: list_rep_def)
  have disj': "set (as @ p # seg @ n # bs) \<inter> set (es @ q # b # fs) = {}" using disj ns ns' by simp
  let ?h1 = "unlink h p n" and ?h2 = "link (unlink h p n) q b (hd seg) (last seg)"
  have d1: "dlist ?h1 (as @ p # n # bs)" "chain ?h1 seg" using dlist_unlink [OF d] by auto
  have d2': "dlist ?h1 (es @ q # b # fs)"
    using d2 disj' by (subst dlist_cong) (auto intro!: unlink_frame)
  have segp: "distinct seg" "\<forall>x \<in> set seg. valid ?h1 x" "set seg \<inter> set (es @ q # b # fs) = {}"
    using d dlist_valid [OF d] disj' by (auto simp: dlist_def)
  have nin: "b \<notin> set seg" "q \<notin> set seg" using segp(3) by auto
  have "list_rep ?h2 l2 (cs @ seg @ ds)"
    using dlist_link_run [OF d2' seg segp(1) d1(2) segp(2) segp(3)] ns' by (simp add: list_rep_def)
  moreover have "list_rep ?h2 l1 (us @ vs)"
  proof -
    have fl: "hd seg \<in> set seg" "last seg \<in> set seg" using seg by auto
    have "set seg \<inter> set (as @ p # n # bs) = {}" using d by (auto simp: dlist_def)
    moreover have "{q, b} \<inter> set (as @ p # n # bs) = {}" using disj' by auto
    ultimately have "\<forall>a \<in> set (as @ p # n # bs). ?h2 a = ?h1 a"
      using fl by (intro ballI link_frame) blast+
    then have "dlist ?h2 (as @ p # n # bs)" using d1(1) dlist_cong by blast
    then show ?thesis using ns by (simp add: list_rep_def)
  qed
  moreover have "only_changes h ?h2 (set (nodes l1 (us @ seg @ vs)) \<union> set (nodes l2 (cs @ ds)))"
  proof -
    let ?S = "set (as @ p # seg @ n # bs) \<union> set (es @ q # b # fs)"
    have 1: "only_changes h ?h1 ?S" by (rule only_changes_unlink) auto
    have 2: "only_changes ?h1 ?h2 ?S" using seg by (intro only_changes_link) auto
    show ?thesis using only_changes_trans [OF 1 2] ns ns' by simp
  qed
  ultimately show ?thesis
    using list_splice_dlist [OF d seg d2 nin(1) d2' nin(2)] pos at by auto
qed

section \<open>The traversals\<close>

type_synonym less_func = "addr \<Rightarrow> addr \<Rightarrow> bool"

partial_function (option) list_size_loop :: "heap \<Rightarrow> klist \<Rightarrow> addr \<Rightarrow> nat \<Rightarrow> nat option" where
  "list_size_loop h l e cnt =
     (if e = list_end l then Some cnt
      else do { n \<leftarrow> list_next h e; list_size_loop h l n (cnt + 1) })"

definition list_size :: "heap \<Rightarrow> klist \<Rightarrow> nat option" where
  "list_size h l = do { e \<leftarrow> list_begin h l; list_size_loop h l e 0 }"

text \<open>\<open>swap\<close> exchanges two pointer fields, each an lvalue of some element.\<close>

datatype link_field = Prev addr | Next addr

fun read_field :: "heap \<Rightarrow> link_field \<Rightarrow> addr option" where
  "read_field h (Prev p) = get_prev h p"
| "read_field h (Next p) = get_next h p"

fun write_field :: "heap \<Rightarrow> link_field \<Rightarrow> addr \<Rightarrow> heap option" where
  "write_field h (Prev p) v = set_prev h p v"
| "write_field h (Next p) v = set_next h p v"

definition swap_fields :: "heap \<Rightarrow> link_field \<Rightarrow> link_field \<Rightarrow> heap option" where
  "swap_fields h a b = do {
     t \<leftarrow> read_field h a;
     v \<leftarrow> read_field h b;
     h \<leftarrow> write_field h a v;
     write_field h b t }"

partial_function (option) list_reverse_loop :: "heap \<Rightarrow> klist \<Rightarrow> addr \<Rightarrow> heap option" where
  "list_reverse_loop h l e =
     (if e = list_end l then Some h
      else do {
        h \<leftarrow> swap_fields h (Prev e) (Next e);
        p \<leftarrow> get_prev h e;
        list_reverse_loop h l p })"

definition list_reverse :: "heap \<Rightarrow> klist \<Rightarrow> heap option" where
  "list_reverse h l = do {
     e \<leftarrow> list_empty h l;
     if e then Some h
     else do {
       b \<leftarrow> list_begin h l;
       h \<leftarrow> list_reverse_loop h l b;
       h \<leftarrow> swap_fields h (Next (l_head l)) (Prev (l_tail l));
       hn \<leftarrow> get_next h (l_head l);
       tp \<leftarrow> get_prev h (l_tail l);
       swap_fields h (Prev hn) (Next tp) } }"

partial_function (option) list_insert_ordered_loop ::
    "heap \<Rightarrow> klist \<Rightarrow> less_func \<Rightarrow> addr \<Rightarrow> addr \<Rightarrow> addr option" where
  "list_insert_ordered_loop h l lt elem e =
     (if e = list_end l then Some e
      else if lt elem e then Some e
      else do { n \<leftarrow> list_next h e; list_insert_ordered_loop h l lt elem n })"

definition list_insert_ordered :: "heap \<Rightarrow> klist \<Rightarrow> addr \<Rightarrow> less_func \<Rightarrow> heap option" where
  "list_insert_ordered h l elem lt = do {
     ASSERT (elem \<noteq> NULL);
     b \<leftarrow> list_begin h l;
     e \<leftarrow> list_insert_ordered_loop h l lt elem b;
     list_insert h e elem }"

partial_function (option) list_unique_loop ::
    "heap \<Rightarrow> klist \<Rightarrow> klist option \<Rightarrow> less_func \<Rightarrow> addr \<Rightarrow> heap option" where
  "list_unique_loop h l duplicates lt elem = do {
     nxt \<leftarrow> list_next h elem;
     if nxt = list_end l then Some h
     else if \<not> lt elem nxt \<and> \<not> lt nxt elem then do {
       (_, h) \<leftarrow> list_remove h nxt;
       h \<leftarrow> (case duplicates of None \<Rightarrow> Some h | Some d \<Rightarrow> list_push_back h d nxt);
       list_unique_loop h l duplicates lt elem }
     else list_unique_loop h l duplicates lt nxt }"

definition list_unique :: "heap \<Rightarrow> klist \<Rightarrow> klist option \<Rightarrow> less_func \<Rightarrow> heap option" where
  "list_unique h l duplicates lt = do {
     e \<leftarrow> list_empty h l;
     if e then Some h
     else do { b \<leftarrow> list_begin h l; list_unique_loop h l duplicates lt b } }"

partial_function (option) list_max_loop ::
    "heap \<Rightarrow> klist \<Rightarrow> less_func \<Rightarrow> addr \<Rightarrow> addr \<Rightarrow> addr option" where
  "list_max_loop h l lt mx e =
     (if e = list_end l then Some mx
      else do {
        n \<leftarrow> list_next h e;
        list_max_loop h l lt (if lt mx e then e else mx) n })"

definition list_max :: "heap \<Rightarrow> klist \<Rightarrow> less_func \<Rightarrow> addr option" where
  "list_max h l lt = do {
     mx \<leftarrow> list_begin h l;
     if mx \<noteq> list_end l then do { e \<leftarrow> list_next h mx; list_max_loop h l lt mx e }
     else Some mx }"

partial_function (option) list_min_loop ::
    "heap \<Rightarrow> klist \<Rightarrow> less_func \<Rightarrow> addr \<Rightarrow> addr \<Rightarrow> addr option" where
  "list_min_loop h l lt mn e =
     (if e = list_end l then Some mn
      else do {
        n \<leftarrow> list_next h e;
        list_min_loop h l lt (if lt e mn then e else mn) n })"

definition list_min :: "heap \<Rightarrow> klist \<Rightarrow> less_func \<Rightarrow> addr option" where
  "list_min h l lt = do {
     mn \<leftarrow> list_begin h l;
     if mn \<noteq> list_end l then do { e \<leftarrow> list_next h mn; list_min_loop h l lt mn e }
     else Some mn }"

section \<open>What the traversals compute\<close>

lemma hd_end_iff [simp]:
  "list_rep h l (us @ xs) \<Longrightarrow> hd (xs @ [l_tail l]) = l_tail l \<longleftrightarrow> xs = []"
  using list_repD(4) [of h l "us @ xs"] by (cases xs) auto

lemma list_size_loop_rep:
  "list_rep h l (us @ xs) \<Longrightarrow> list_size_loop h l (hd (xs @ [l_tail l])) n = Some (n + length xs)"
proof (induction xs arbitrary: us n)
  case Nil
  then show ?case by (simp add: list_size_loop.simps list_end_def)
next
  case (Cons x xs)
  have "list_size_loop h l (hd (xs @ [l_tail l])) (n + 1) = Some (n + 1 + length xs)"
    using Cons.IH [of "us @ [x]"] Cons.prems by simp
  moreover have "list_next h x = Some (hd (xs @ [l_tail l]))"
    using list_next_rep [OF Cons.prems] .
  moreover have "x \<noteq> l_tail l" using list_repD(4) [OF Cons.prems] by auto
  ultimately show ?case
    by (subst list_size_loop.simps) (simp add: list_end_def)
qed

lemma list_size_rep: "list_rep h l xs \<Longrightarrow> list_size h l = Some (length xs)"
  using list_size_loop_rep [of h l "[]" xs 0] by (simp add: list_size_def list_begin_rep)

text \<open>Extrema: the fold that the loop performs.\<close>

lemma list_max_loop_rep:
  "list_rep h l (us @ xs) \<Longrightarrow> list_max_loop h l lt m (hd (xs @ [l_tail l])) =
    Some (fold (\<lambda>e m. if lt m e then e else m) xs m)"
proof (induction xs arbitrary: us m)
  case Nil
  then show ?case by (simp add: list_max_loop.simps list_end_def)
next
  case (Cons x xs)
  have "\<And>m. list_max_loop h l lt m (hd (xs @ [l_tail l])) =
      Some (fold (\<lambda>e m. if lt m e then e else m) xs m)"
    using Cons.IH [of "us @ [x]"] Cons.prems by simp
  moreover have "list_next h x = Some (hd (xs @ [l_tail l]))"
    using list_next_rep [OF Cons.prems] .
  moreover have "x \<noteq> l_tail l" using list_repD(4) [OF Cons.prems] by auto
  ultimately show ?case
    by (subst list_max_loop.simps) (simp add: list_end_def)
qed

lemma list_min_loop_rep:
  "list_rep h l (us @ xs) \<Longrightarrow> list_min_loop h l lt m (hd (xs @ [l_tail l])) =
    Some (fold (\<lambda>e m. if lt e m then e else m) xs m)"
proof (induction xs arbitrary: us m)
  case Nil
  then show ?case by (simp add: list_min_loop.simps list_end_def)
next
  case (Cons x xs)
  have "\<And>m. list_min_loop h l lt m (hd (xs @ [l_tail l])) =
      Some (fold (\<lambda>e m. if lt e m then e else m) xs m)"
    using Cons.IH [of "us @ [x]"] Cons.prems by simp
  moreover have "list_next h x = Some (hd (xs @ [l_tail l]))"
    using list_next_rep [OF Cons.prems] .
  moreover have "x \<noteq> l_tail l" using list_repD(4) [OF Cons.prems] by auto
  ultimately show ?case
    by (subst list_min_loop.simps) (simp add: list_end_def)
qed

lemma list_max_rep:
  assumes "list_rep h l (x # xs)"
  shows "list_max h l lt = Some (fold (\<lambda>e m. if lt m e then e else m) xs x)"
  using assms list_max_loop_rep [of h l "[x]" xs lt x] list_next_rep [of h l "[]" x xs]
    list_repD(4) [OF assms]
  by (simp add: list_max_def list_begin_rep list_end_def)

lemma list_min_rep:
  assumes "list_rep h l (x # xs)"
  shows "list_min h l lt = Some (fold (\<lambda>e m. if lt e m then e else m) xs x)"
  using assms list_min_loop_rep [of h l "[x]" xs lt x] list_next_rep [of h l "[]" x xs]
    list_repD(4) [OF assms]
  by (simp add: list_min_def list_begin_rep list_end_def)

lemma list_max_empty: "list_rep h l [] \<Longrightarrow> list_max h l lt = Some (l_tail l)"
  by (simp add: list_max_def list_begin_rep list_end_def)

lemma list_min_empty: "list_rep h l [] \<Longrightarrow> list_min h l lt = Some (l_tail l)"
  by (simp add: list_min_def list_begin_rep list_end_def)

section \<open>Ordered insertion\<close>

text \<open>
  \<open>weakly_ordered lt xs\<close>: no element is less than one before it, which is what \<open>is_sorted\<close>
  of the code checks between neighbours. \<open>strict_weak_order lt\<close> is the contract of a
  \<open>list_less_func\<close>: a strict order whose incomparable elements count as equal.
\<close>

abbreviation weakly_ordered :: "less_func \<Rightarrow> addr list \<Rightarrow> bool" where
  "weakly_ordered lt \<equiv> sorted_wrt (\<lambda>a b. \<not> lt b a)"

definition strict_weak_order :: "less_func \<Rightarrow> bool" where
  "strict_weak_order lt \<longleftrightarrow>
     (\<forall>a. \<not> lt a a) \<and> (\<forall>a b c. lt a b \<longrightarrow> lt b c \<longrightarrow> lt a c) \<and>
     (\<forall>a b c. \<not> lt a b \<longrightarrow> \<not> lt b c \<longrightarrow> \<not> lt a c)"

lemma strict_weak_orderD:
  assumes "strict_weak_order lt"
  shows "\<not> lt a a" "lt a b \<Longrightarrow> \<not> lt b a" "lt a b \<Longrightarrow> lt b c \<Longrightarrow> lt a c"
    "\<not> lt a b \<Longrightarrow> \<not> lt b c \<Longrightarrow> \<not> lt a c" "lt a b \<Longrightarrow> \<not> lt c b \<Longrightarrow> lt a c"
  using assms unfolding strict_weak_order_def by metis+

lemma strict_weak_order_key: "strict_weak_order (\<lambda>a b. (key a :: 'k :: linorder) < key b)"
  by (auto simp: strict_weak_order_def)

definition insert_seq :: "less_func \<Rightarrow> addr \<Rightarrow> addr list \<Rightarrow> addr list" where
  "insert_seq lt e xs = takeWhile (\<lambda>x. \<not> lt e x) xs @ e # dropWhile (\<lambda>x. \<not> lt e x) xs"

lemma list_insert_ordered_loop_rep:
  "list_rep h l (us @ xs) \<Longrightarrow> list_insert_ordered_loop h l lt e (hd (xs @ [l_tail l])) =
    Some (hd (dropWhile (\<lambda>x. \<not> lt e x) xs @ [l_tail l]))"
proof (induction xs arbitrary: us)
  case Nil
  then show ?case by (simp add: list_insert_ordered_loop.simps list_end_def)
next
  case (Cons x xs)
  have "list_insert_ordered_loop h l lt e (hd (xs @ [l_tail l])) =
      Some (hd (dropWhile (\<lambda>x. \<not> lt e x) xs @ [l_tail l]))"
    using Cons.IH [of "us @ [x]"] Cons.prems by simp
  moreover have "list_next h x = Some (hd (xs @ [l_tail l]))"
    using list_next_rep [OF Cons.prems] .
  moreover have "x \<noteq> l_tail l" using list_repD(4) [OF Cons.prems] by auto
  ultimately show ?case
    by (subst list_insert_ordered_loop.simps) (simp add: list_end_def)
qed

lemma list_insert_ordered_rep:
  assumes r: "list_rep h l xs" and e: "fresh h l xs e"
  shows "\<exists>h'. list_insert_ordered h l e lt = Some h' \<and> list_rep h' l (insert_seq lt e xs) \<and>
    only_changes h h' (set (nodes l (insert_seq lt e xs)))"
proof -
  let ?us = "takeWhile (\<lambda>x. \<not> lt e x) xs" and ?vs = "dropWhile (\<lambda>x. \<not> lt e x) xs"
  have "list_insert_ordered_loop h l lt e (hd (xs @ [l_tail l])) = Some (hd (?vs @ [l_tail l]))"
    using list_insert_ordered_loop_rep [of h l "[]" xs lt e] r by simp
  moreover have "e \<noteq> NULL" using e by (simp add: fresh_def valid_def)
  ultimately show ?thesis
    using list_insert_rep [of h l ?us ?vs e] r e
    by (simp add: list_insert_ordered_def list_begin_rep insert_seq_def)
qed

lemma mset_insert_seq: "mset (insert_seq lt e xs) = add_mset e (mset xs)"
proof -
  have "mset xs = mset (takeWhile (\<lambda>x. \<not> lt e x) xs) + mset (dropWhile (\<lambda>x. \<not> lt e x) xs)"
    by (metis mset_append takeWhile_dropWhile_id)
  then show ?thesis by (simp add: insert_seq_def)
qed

lemma insert_seq_after:
  assumes lt: "strict_weak_order lt" and s: "weakly_ordered lt xs"
  shows "\<forall>x \<in> set (dropWhile (\<lambda>x. \<not> lt e x) xs). lt e x"
proof (cases "dropWhile (\<lambda>x. \<not> lt e x) xs")
  case (Cons v vs)
  then have v: "lt e v" using hd_dropWhile [of "\<lambda>x. \<not> lt e x" xs] by simp
  have "weakly_ordered lt (v # vs)"
    using s sorted_wrt_append [of _ "takeWhile (\<lambda>x. \<not> lt e x) xs" "v # vs"] Cons
    by (metis takeWhile_dropWhile_id)
  then have "lt e x" if "x \<in> set vs" for x
    using strict_weak_orderD(5) [OF lt v] that by simp
  then show ?thesis using Cons v by simp
next
  case Nil
  show ?thesis unfolding Nil by simp
qed

lemma insert_seq_sorted:
  assumes lt: "strict_weak_order lt" and s: "weakly_ordered lt xs"
  shows "weakly_ordered lt (insert_seq lt e xs)"
proof -
  let ?us = "takeWhile (\<lambda>x. \<not> lt e x) xs" and ?vs = "dropWhile (\<lambda>x. \<not> lt e x) xs"
  have split: "weakly_ordered lt ?us" "weakly_ordered lt ?vs"
    "\<forall>x \<in> set ?us. \<forall>y \<in> set ?vs. \<not> lt y x"
    using s sorted_wrt_append [of "\<lambda>a b. \<not> lt b a" ?us ?vs] by simp_all
  have us: "\<forall>x \<in> set ?us. \<not> lt e x" by (auto dest: set_takeWhileD)
  have vs: "\<forall>x \<in> set ?vs. lt e x" by (rule insert_seq_after [OF lt s])
  then have "\<forall>x \<in> set ?vs. \<not> lt x e" using strict_weak_orderD(2) [OF lt] by blast
  then show ?thesis
    unfolding insert_seq_def sorted_wrt_append sorted_wrt.simps list.set
    using split us vs by blast
qed

text \<open>Extrema of a list under a strict weak order: the earliest of the extreme elements.\<close>

lemma fold_max:
  assumes lt: "strict_weak_order lt"
  defines "f \<equiv> \<lambda>e m. if lt m e then e else m"
  shows "fold f xs m \<in> set (m # xs) \<and> (\<forall>y \<in> set (m # xs). \<not> lt (fold f xs m) y)"
proof (induction xs arbitrary: m)
  case Nil
  then show ?case using strict_weak_orderD(1) [OF lt] by simp
next
  case (Cons x xs)
  let ?r = "fold f xs (f x m)"
  have r: "?r \<in> set (f x m # xs)" "\<forall>y \<in> set (f x m # xs). \<not> lt ?r y" using Cons by auto
  have "\<not> lt ?r m \<and> \<not> lt ?r x"
  proof (cases "lt m x")
    case True
    then have x: "\<not> lt ?r x" using r(2) by (simp add: f_def)
    moreover have "\<not> lt x m" using strict_weak_orderD(2) [OF lt True] .
    ultimately show ?thesis using strict_weak_orderD(4) [OF lt] by blast
  next
    case False
    then have m: "\<not> lt ?r m" using r(2) by (simp add: f_def)
    then show ?thesis using strict_weak_orderD(4) [OF lt m False] by simp
  qed
  moreover have "?r \<in> set (m # x # xs)" using r(1) by (cases "lt m x") (auto simp: f_def)
  ultimately show ?case using r(2) by simp
qed

section \<open>Removal of duplicates\<close>

text \<open>The elements that \<open>list_unique\<close> keeps and the ones it moves away, in order.\<close>

fun unique_seq :: "less_func \<Rightarrow> addr list \<Rightarrow> addr list \<times> addr list" where
  "unique_seq lt (x # y # ys) =
     (if \<not> lt x y \<and> \<not> lt y x
      then (let (k, d) = unique_seq lt (x # ys) in (k, y # d))
      else (let (k, d) = unique_seq lt (y # ys) in (x # k, d)))"
| "unique_seq lt [x] = ([x], [])"
| "unique_seq lt [] = ([], [])"

definition dup_rep :: "heap \<Rightarrow> klist \<Rightarrow> addr list \<Rightarrow> klist option \<Rightarrow> addr list \<Rightarrow> bool" where
  "dup_rep h l xs dup ds = (case dup of None \<Rightarrow> True
     | Some d \<Rightarrow> list_rep h d ds \<and> set (nodes d ds) \<inter> set (nodes l xs) = {})"

lemma list_unique_step:
  assumes r: "list_rep h l (us @ x # y # ys)" and d: "dup_rep h l (us @ x # y # ys) dup ds"
  shows "\<exists>h1 h2. list_remove h y = Some (hd (ys @ [l_tail l]), h1) \<and>
    (case dup of None \<Rightarrow> Some h1 | Some d \<Rightarrow> list_push_back h1 d y) = Some h2 \<and>
    list_rep h2 l (us @ x # ys) \<and> dup_rep h2 l (us @ x # ys) dup (ds @ [y])"
proof -
  from list_remove_rep [of h l "us @ [x]" y ys] r obtain h1 where h1:
    "list_remove h y = Some (hd (ys @ [l_tail l]), h1)" "list_rep h1 l (us @ x # ys)"
    "only_changes h h1 (set (nodes l (us @ x # ys)))" "fresh h1 l (us @ x # ys) y"
    by auto
  show ?thesis
  proof (cases dup)
    case None
    with h1 show ?thesis by (simp add: dup_rep_def)
  next
    case (Some k)
    have sep: "list_rep h k ds" "set (nodes k ds) \<inter> set (nodes l (us @ x # y # ys)) = {}"
      using d Some by (simp_all add: dup_rep_def)
    have sub: "set (nodes l (us @ x # ys)) \<subseteq> set (nodes l (us @ x # y # ys))"
      by (auto simp: nodes_def)
    have 1: "list_rep h1 k ds"
      using only_changes_list_rep [OF h1(3), of k ds] sep sub by blast
    have 2: "fresh h1 k ds y" using h1(4) sep(2) by (auto simp: fresh_def nodes_def)
    from list_push_back_rep [OF 1 2] obtain h2 where h2: "list_push_back h1 k y = Some h2"
      "list_rep h2 k (ds @ [y])" "only_changes h1 h2 (set (nodes k (ds @ [y])))" by blast
    have disj: "set (nodes l (us @ x # ys)) \<inter> set (nodes k (ds @ [y])) = {}"
      using sep(2) h1(4) by (auto simp: nodes_def fresh_def)
    have "list_rep h2 l (us @ x # ys)"
      using only_changes_list_rep [OF h2(3) disj] h1(2) by simp
    then show ?thesis using h1(1) h2 disj Some by (auto simp: dup_rep_def)
  qed
qed

lemma list_unique_loop_rep:
  "list_rep h l (us @ x # xs) \<Longrightarrow> dup_rep h l (us @ x # xs) dup ds \<Longrightarrow>
    \<exists>h'. list_unique_loop h l dup lt x = Some h' \<and>
      list_rep h' l (us @ fst (unique_seq lt (x # xs))) \<and>
      dup_rep h' l (us @ fst (unique_seq lt (x # xs))) dup (ds @ snd (unique_seq lt (x # xs)))"
proof (induction lt "x # xs" arbitrary: h us x xs ds rule: unique_seq.induct)
  case (1 lt x y ys)
  note r = "1.prems"(1)
  have nxt: "list_next h x = Some y" using list_next_rep [OF r] by simp
  have ny: "y \<noteq> list_end l" using list_repD(4) [OF r] by (auto simp: list_end_def)
  show ?case
  proof (cases "\<not> lt x y \<and> \<not> lt y x")
    case True
    from list_unique_step [OF r "1.prems"(2)] obtain h1 h2 where h:
      "list_remove h y = Some (hd (ys @ [l_tail l]), h1)"
      "(case dup of None \<Rightarrow> Some h1 | Some d \<Rightarrow> list_push_back h1 d y) = Some h2"
      "list_rep h2 l (us @ x # ys)" "dup_rep h2 l (us @ x # ys) dup (ds @ [y])"
      by blast
    have "list_unique_loop h l dup lt x = list_unique_loop h2 l dup lt x"
      by (subst list_unique_loop.simps) (use True nxt ny h(1,2) in simp)
    then show ?thesis
      using "1.hyps"(1) [OF True h(3,4)] True by (simp add: case_prod_beta)
  next
    case False
    have "list_unique_loop h l dup lt x = list_unique_loop h l dup lt y"
      by (subst list_unique_loop.simps) (use False nxt ny in auto)
    moreover have "unique_seq lt (x # y # ys) =
        (x # fst (unique_seq lt (y # ys)), snd (unique_seq lt (y # ys)))"
      using False by (auto simp: case_prod_beta)
    ultimately show ?thesis
      using "1.hyps"(2) [OF False, of h "us @ [x]" ds] "1.prems" by simp
  qed
next
  case (2 lt x)
  have "list_next h x = Some (list_end l)"
    using list_next_rep [of h l us x "[]"] "2" by (simp add: list_end_def)
  then have "list_unique_loop h l dup lt x = Some h"
    by (subst list_unique_loop.simps) simp
  then show ?case using "2" by simp
qed

lemma list_unique_rep:
  assumes r: "list_rep h l xs" and d: "dup_rep h l xs dup ds"
  shows "\<exists>h'. list_unique h l dup lt = Some h' \<and> list_rep h' l (fst (unique_seq lt xs)) \<and>
    dup_rep h' l (fst (unique_seq lt xs)) dup (ds @ snd (unique_seq lt xs))"
proof (cases xs)
  case Nil
  with assms show ?thesis by (simp add: list_unique_def list_empty_rep)
next
  case (Cons x ys)
  with assms list_unique_loop_rep [of h l "[]" x ys dup ds lt] show ?thesis
    by (simp add: list_unique_def list_empty_rep list_begin_rep)
qed

text \<open>
  Meaning of \<open>unique_seq\<close>: nothing is lost, and on a sorted list of a strict weak order the
  kept elements are strictly increasing.
\<close>

lemma unique_seq_hd: "x # xs = ys \<Longrightarrow> \<exists>zs. fst (unique_seq lt ys) = x # zs"
  by (induction lt ys arbitrary: x xs rule: unique_seq.induct) (auto simp: case_prod_beta)

lemma unique_seq_mset:
  "mset (fst (unique_seq lt xs)) + mset (snd (unique_seq lt xs)) = mset xs"
  by (induction lt xs rule: unique_seq.induct) (auto simp: case_prod_beta)

lemma unique_seq_subset:
  "set (fst (unique_seq lt xs)) \<subseteq> set xs" "set (snd (unique_seq lt xs)) \<subseteq> set xs"
  by (metis mset_subset_eq_add_left set_mset_mono set_mset_mset unique_seq_mset)
    (metis mset_subset_eq_add_right set_mset_mono set_mset_mset unique_seq_mset)

lemma unique_seq_increasing:
  "strict_weak_order lt \<Longrightarrow> weakly_ordered lt xs \<Longrightarrow> sorted_wrt lt (fst (unique_seq lt xs))"
proof (induction lt xs rule: unique_seq.induct)
  case (1 lt x y ys)
  note lt = "1.prems"(1)
  show ?case
  proof (cases "\<not> lt x y \<and> \<not> lt y x")
    case True
    then show ?thesis using "1.IH"(1) [OF True] "1.prems" by (simp add: case_prod_beta)
  next
    case False
    then have xy: "lt x y" using "1.prems" by simp
    have rest: "sorted_wrt lt (fst (unique_seq lt (y # ys)))"
      using "1.IH"(2) [OF False] "1.prems" by simp
    have "lt x z" if "z \<in> set (fst (unique_seq lt (y # ys)))" for z
    proof -
      have "z \<in> set (y # ys)" using that unique_seq_subset(1) by blast
      then have "\<not> lt z y \<or> z = y" using "1.prems" by auto
      then show ?thesis using xy strict_weak_orderD(5) [OF lt xy] by auto
    qed
    then show ?thesis using xy rest False by (auto simp: case_prod_beta)
  qed
qed auto

section \<open>Reversal\<close>

text \<open>The loop swaps the two links of every interior node, front to back.\<close>

definition swapped :: "heap \<Rightarrow> heap \<Rightarrow> addr \<Rightarrow> bool" where
  "swapped h h' x \<longleftrightarrow> get_prev h' x = get_next h x \<and> get_next h' x = get_prev h x"

lemma swap_links:
  assumes "valid h x"
  shows "\<exists>h'. swap_fields h (Prev x) (Next x) = Some h' \<and> swapped h h' x \<and>
    only_changes h h' {x}"
proof -
  obtain p n where "get_prev h x = Some p" "get_next h x = Some n" using valid_get [OF assms] by blast
  with assms show ?thesis
    by (auto simp: swap_fields_def set_prev_eq set_next_eq swapped_def only_changes_def fun_eq_iff)
qed

lemma list_reverse_loop_rep:
  assumes r: "list_rep h l (us @ xs)"
  shows "(\<forall>a \<in> set us. swapped h h1 a) \<Longrightarrow> only_changes h h1 (set us) \<Longrightarrow>
    \<exists>h'. list_reverse_loop h1 l (hd (xs @ [l_tail l])) = Some h' \<and>
      (\<forall>a \<in> set (us @ xs). swapped h h' a) \<and> only_changes h h' (set (us @ xs))"
  using r
proof (induction xs arbitrary: us h1)
  case Nil
  then show ?case by (simp add: list_reverse_loop.simps list_end_def)
next
  case (Cons x xs)
  note r = Cons.prems(3)
  have x: "valid h x" "x \<notin> set us" "x \<noteq> l_tail l"
    using list_repD [OF r] by (auto simp: nodes_def)
  have v1: "valid h1 x" using Cons.prems(2) x(1) by (simp add: only_changes_def)
  have "h1 x = h x" using Cons.prems(2) x(2) by (simp add: only_changes_def)
  then have same: "get_prev h1 x = get_prev h x" "get_next h1 x = get_next h x"
    by (rule get_cong)+
  obtain h2 where h2: "swap_fields h1 (Prev x) (Next x) = Some h2" "swapped h1 h2 x"
      "only_changes h1 h2 {x}"
    using swap_links [OF v1] by blast
  obtain b bs where b: "xs @ [l_tail l] = b # bs" by (cases xs) auto
  have "dlist h ((l_head l # us) @ x # b # bs)" using r b by (simp add: list_rep_def nodes_def)
  from dlist_link(1) [OF this] have nxt: "get_prev h2 x = Some b"
    using h2(2) same by (simp add: swapped_def)
  have sw: "\<forall>a \<in> set (us @ [x]). swapped h h2 a"
  proof
    fix a assume a: "a \<in> set (us @ [x])"
    show "swapped h h2 a"
    proof (cases "a = x")
      case True
      then show ?thesis using h2(2) same by (simp add: swapped_def)
    next
      case False
      then have "swapped h h1 a" "h2 a = h1 a"
        using a Cons.prems(1) h2(3) by (auto simp: only_changes_def)
      then show ?thesis using get_cong [of h2 a h1] by (simp add: swapped_def)
    qed
  qed
  have oc: "only_changes h h2 (set (us @ [x]))"
    using only_changes_trans [OF Cons.prems(2) h2(3)] by simp
  have step: "list_reverse_loop h1 l x = list_reverse_loop h2 l b"
    by (subst list_reverse_loop.simps) (use x h2(1) nxt in \<open>simp add: list_end_def\<close>)
  show ?case
    using Cons.IH [OF sw oc] r step b by simp
qed

lemma chain_rev:
  "\<forall>a \<in> set xs. swapped h h' a \<Longrightarrow> chain h' (rev xs) = chain h xs"
proof (induction h xs rule: chain.induct)
  case (3 h a b xs)
  then have "swapped h h' a" "swapped h h' b" and IH: "chain h' (rev (b # xs)) = chain h (b # xs)"
    by simp_all
  then show ?case
    using chain_append [of h' "rev xs" b a "[]"] by (auto simp: swapped_def)
qed auto

lemma list_reverse_rep:
  assumes r: "list_rep h l xs"
  shows "\<exists>h'. list_reverse h l = Some h' \<and> list_rep h' l (rev xs) \<and>
    only_changes h h' (set (nodes l xs))"
proof (cases "xs = []")
  case True
  with r show ?thesis by (simp add: list_reverse_def list_empty_rep)
next
  case False
  let ?H = "l_head l" and ?T = "l_tail l"
  obtain f fs where f: "xs = f # fs" using False by (cases xs) auto
  obtain ks k where k: "xs = ks @ [k]" using False by (cases xs rule: rev_cases) auto
  have fk: "f \<in> set xs" "k \<in> set xs" by (simp add: f, simp add: k)
  have v: "valid h ?H" "valid h ?T" "valid h f" "valid h k"
    using list_repD(6) [OF r] fk by (auto simp: nodes_def)
  have ne: "?H \<noteq> ?T" "?H \<notin> set xs" "?T \<notin> set xs" using list_repD [OF r] by auto
  have neq: "f \<noteq> ?H" "f \<noteq> ?T" "k \<noteq> ?H" "k \<noteq> ?T" using fk ne by auto
  obtain h1 where h1: "list_reverse_loop h l f = Some h1" "\<forall>a \<in> set xs. swapped h h1 a"
      "only_changes h h1 (set xs)"
    using list_reverse_loop_rep [of h l "[]" xs h] r f by auto
  have hd: "dlist h ([] @ ?H # f # fs @ [?T])" using r by (simp add: list_rep_def nodes_def f)
  have tl: "dlist h ((?H # ks) @ k # ?T # [])" using r by (simp add: list_rep_def nodes_def k)
  note ends = dlist_link [OF hd] dlist_link [OF tl]
  have v1: "valid h1 = valid h" using h1(3) by (simp add: only_changes_def)
  have out: "h1 ?H = h ?H" "h1 ?T = h ?T" using h1(3) ne by (auto simp: only_changes_def)
  have "get_next h1 ?H = get_next h ?H" "get_prev h1 ?H = get_prev h ?H"
      "get_next h1 ?T = get_next h ?T" "get_prev h1 ?T = get_prev h ?T"
    using out by (intro get_cong; simp)+
  then have g1: "get_next h1 ?H = Some f" "get_prev h1 ?T = Some k"
      "get_prev h1 ?H = Some NULL" "get_next h1 ?T = Some NULL"
    using ends dlist_first [of h] hd
      dlist_last [of h "?H # ks" k ?T] tl by simp_all
  have g2: "get_next h1 f = Some ?H" "get_prev h1 k = Some ?T"
    using h1(2) fk ends by (auto simp: swapped_def)
  let ?h2 = "upd_prev (upd_next h1 ?H k) ?T f"
  let ?h3 = "upd_next (upd_prev ?h2 k ?H) f ?T"
  have "swap_fields h1 (Next ?H) (Prev ?T) = Some ?h2"
    using g1 v v1 by (simp add: swap_fields_def set_prev_eq set_next_eq)
  moreover have "get_next ?h2 ?H = Some k" "get_prev ?h2 ?T = Some f"
    using v v1 by simp_all
  moreover have "swap_fields ?h2 (Prev k) (Next f) = Some ?h3"
    using g2 v v1 neq by (simp add: swap_fields_def set_prev_eq set_next_eq)
  ultimately have run: "list_reverse h l = Some ?h3"
    using h1(1) f r False by (simp add: list_reverse_def list_empty_rep list_begin_rep)
  have "chain h1 (rev xs)"
    using chain_rev [OF h1(2)] chain_appendD(1) [of h xs "[?T]"] chain_appendD(2) [of h "[?H]"]
      r by (simp add: list_rep_def nodes_def dlist_def)
  moreover have "f \<notin> set (butlast (rev xs))" "k \<notin> set (tl (rev xs))"
    using list_repD(1) [OF r] by (simp add: f, simp add: k)
  moreover have "?H \<notin> set (butlast (rev xs))" "?T \<notin> set (tl (rev xs))"
    using ne by (auto dest: in_set_butlastD in_set_tlD)
  ultimately have c3: "chain ?h3 (rev xs)" by simp
  have rk: "rev xs = k # rev ks" and rf: "rev xs = rev fs @ [f]" by (simp add: k, simp add: f)
  have l3: "get_next ?h3 ?H = Some k" "get_prev ?h3 k = Some ?H"
      "get_next ?h3 f = Some ?T" "get_prev ?h3 ?T = Some f"
      "get_prev ?h3 ?H = Some NULL" "get_next ?h3 ?T = Some NULL"
    using v v1 neq ne(1) g1 by auto
  have "chain ?h3 (rev fs @ f # [?T])"
    using c3 l3 unfolding rf by (intro chain_appendI) auto
  then have "chain ?h3 (k # rev ks @ [?T])" using rk rf by (metis append_Cons append_assoc append_Nil)
  then have "chain ?h3 (nodes l (rev xs))" using l3 rk by (simp add: nodes_def)
  then have "list_rep ?h3 l (rev xs)"
    using r l3 by (auto simp: list_rep_def dlist_def nodes_def)
  moreover have "?h3 a = h a" if "a \<notin> set (nodes l xs)" for a
  proof -
    have "a \<noteq> f" "a \<noteq> k" "a \<noteq> ?H" "a \<noteq> ?T" "a \<notin> set xs" using that fk by (auto simp: nodes_def)
    then show ?thesis using h1(3) by (simp add: only_changes_def)
  qed
  then have "only_changes h ?h3 (set (nodes l xs))"
    using v1 by (auto simp: only_changes_def fun_eq_iff)
  ultimately show ?thesis using run by blast
qed

end
