(* ===== verification/Kernel_List_Sort.thy ===== *)
theory Kernel_List_Sort
  imports Kernel_List_Loops
begin

text \<open>
  \<open>list_sort\<close> of \<open>lib/kernel/list.c\<close>: the in-place natural merge sort, with its helpers
  \<open>is_sorted\<close>, \<open>find_end_of_run\<close> and \<open>inplace_merge\<close> on the pointer heap, the functions on
  sequences they refine, and the correctness of those: a stable sorted permutation, reached
  after finitely many passes because every pass halves the number of runs.
\<close>

section \<open>The code\<close>

partial_function (option) is_sorted_loop :: "heap \<Rightarrow> less_func \<Rightarrow> addr \<Rightarrow> addr \<Rightarrow> bool option" where
  "is_sorted_loop h lt a b = do {
     a \<leftarrow> list_next h a;
     if a = b then Some True
     else do {
       p \<leftarrow> list_prev h a;
       if lt a p then Some False else is_sorted_loop h lt a b } }"

definition is_sorted :: "heap \<Rightarrow> addr \<Rightarrow> addr \<Rightarrow> less_func \<Rightarrow> bool option" where
  "is_sorted h a b lt = (if a \<noteq> b then is_sorted_loop h lt a b else Some True)"

partial_function (option) find_end_of_run_loop ::
    "heap \<Rightarrow> less_func \<Rightarrow> addr \<Rightarrow> addr \<Rightarrow> addr option" where
  "find_end_of_run_loop h lt a b = do {
     a \<leftarrow> list_next h a;
     if a = b then Some a
     else do {
       p \<leftarrow> list_prev h a;
       if \<not> lt a p then find_end_of_run_loop h lt a b else Some a } }"

definition find_end_of_run :: "heap \<Rightarrow> addr \<Rightarrow> addr \<Rightarrow> less_func \<Rightarrow> addr option" where
  "find_end_of_run h a b lt = do {
     ASSERT (a \<noteq> NULL); ASSERT (b \<noteq> NULL); ASSERT (a \<noteq> b);
     find_end_of_run_loop h lt a b }"

partial_function (option) inplace_merge_loop ::
    "heap \<Rightarrow> less_func \<Rightarrow> addr \<Rightarrow> addr \<Rightarrow> addr \<Rightarrow> heap option" where
  "inplace_merge_loop h lt a0 a1b0 b1 =
     (if a0 \<noteq> a1b0 \<and> a1b0 \<noteq> b1 then
        if \<not> lt a1b0 a0 then do {
          a0 \<leftarrow> list_next h a0;
          inplace_merge_loop h lt a0 a1b0 b1 }
        else do {
          a1b0 \<leftarrow> list_next h a1b0;
          p \<leftarrow> list_prev h a1b0;
          h \<leftarrow> list_splice h a0 p a1b0;
          inplace_merge_loop h lt a0 a1b0 b1 }
      else Some h)"

definition inplace_merge :: "heap \<Rightarrow> addr \<Rightarrow> addr \<Rightarrow> addr \<Rightarrow> less_func \<Rightarrow> heap option" where
  "inplace_merge h a0 a1b0 b1 lt = do {
     ASSERT (a0 \<noteq> NULL); ASSERT (a1b0 \<noteq> NULL); ASSERT (b1 \<noteq> NULL);
     s \<leftarrow> is_sorted h a0 a1b0 lt; ASSERT s;
     s \<leftarrow> is_sorted h a1b0 b1 lt; ASSERT s;
     inplace_merge_loop h lt a0 a1b0 b1 }"

text \<open>One pass of the outer loop; it returns the number of runs it output.\<close>

partial_function (option) list_sort_pass ::
    "heap \<Rightarrow> klist \<Rightarrow> less_func \<Rightarrow> addr \<Rightarrow> nat \<Rightarrow> (nat \<times> heap) option" where
  "list_sort_pass h l lt a0 output_run_cnt =
     (if a0 = list_end l then Some (output_run_cnt, h)
      else do {
        a1b0 \<leftarrow> find_end_of_run h a0 (list_end l) lt;
        if a1b0 = list_end l then Some (output_run_cnt + 1, h)
        else do {
          b1 \<leftarrow> find_end_of_run h a1b0 (list_end l) lt;
          h \<leftarrow> inplace_merge h a0 a1b0 b1 lt;
          list_sort_pass h l lt b1 (output_run_cnt + 1) } })"

partial_function (option) list_sort_loop :: "heap \<Rightarrow> klist \<Rightarrow> less_func \<Rightarrow> heap option" where
  "list_sort_loop h l lt = do {
     a0 \<leftarrow> list_begin h l;
     (output_run_cnt, h) \<leftarrow> list_sort_pass h l lt a0 0;
     if output_run_cnt > 1 then list_sort_loop h l lt else Some h }"

definition list_sort :: "heap \<Rightarrow> klist \<Rightarrow> less_func \<Rightarrow> heap option" where
  "list_sort h l lt = do {
     h \<leftarrow> list_sort_loop h l lt;
     b \<leftarrow> list_begin h l;
     s \<leftarrow> is_sorted h b (list_end l) lt; ASSERT s;
     Some h }"

section \<open>The same on sequences\<close>

fun nondecreasing :: "less_func \<Rightarrow> addr list \<Rightarrow> bool" where
  "nondecreasing lt (x # y # ys) = (\<not> lt y x \<and> nondecreasing lt (y # ys))"
| "nondecreasing lt [x] = True"
| "nondecreasing lt [] = True"

fun take_run :: "less_func \<Rightarrow> addr \<Rightarrow> addr list \<Rightarrow> addr list \<times> addr list" where
  "take_run lt x [] = ([x], [])"
| "take_run lt x (y # ys) =
     (if \<not> lt y x then (let (r, rest) = take_run lt y ys in (x # r, rest)) else ([x], y # ys))"

fun merge_runs :: "less_func \<Rightarrow> addr list \<Rightarrow> addr list \<Rightarrow> addr list" where
  "merge_runs lt (x # xs) (y # ys) =
     (if \<not> lt y x then x # merge_runs lt xs (y # ys) else y # merge_runs lt (x # xs) ys)"
| "merge_runs lt [] ys = ys"
| "merge_runs lt xs [] = xs"

lemma take_run_length: "take_run lt x xs = (r, rest) \<Longrightarrow> length rest \<le> length xs"
  by (induction lt x xs arbitrary: r rule: take_run.induct)
    (fastforce split: if_splits prod.splits)+

function pass_seq :: "less_func \<Rightarrow> addr list \<Rightarrow> nat \<times> addr list" where
  "pass_seq lt [] = (0, [])"
| "pass_seq lt (x # xs) =
     (case take_run lt x xs of
        (r1, []) \<Rightarrow> (1, r1)
      | (r1, y # ys) \<Rightarrow>
          (case take_run lt y ys of (r2, rest) \<Rightarrow>
             (let (c, zs) = pass_seq lt rest in (c + 1, merge_runs lt r1 r2 @ zs))))"
  by pat_completeness auto
termination
  by (relation "measure (\<lambda>(lt, xs). length xs)")
    (auto dest!: take_run_length [OF sym])

lemma take_run_split: "take_run lt x xs = (r, rest) \<Longrightarrow> r @ rest = x # xs \<and> nondecreasing lt r \<and>
    (\<exists>r'. r = x # r')"
proof (induction lt x xs arbitrary: r rest rule: take_run.induct)
  case (2 lt x y ys)
  then show ?case by (cases "take_run lt y ys") (fastforce split: if_splits)
qed auto

text \<open>The number of maximal runs of a sequence.\<close>

fun runs :: "less_func \<Rightarrow> addr list \<Rightarrow> nat" where
  "runs lt [] = 0"
| "runs lt [x] = 1"
| "runs lt (x # y # ys) = (if lt y x then 1 else 0) + runs lt (y # ys)"

lemma runs_take_run: "take_run lt x xs = (r, rest) \<Longrightarrow> runs lt (x # xs) = runs lt rest + 1"
proof (induction lt x xs arbitrary: r rest rule: take_run.induct)
  case (2 lt x y ys)
  then show ?case by (cases "take_run lt y ys") (auto split: if_splits)
qed auto

lemma runs_append_le: "nondecreasing lt r \<Longrightarrow> runs lt (r @ zs) \<le> runs lt zs + 1"
proof (induction r rule: nondecreasing.induct [of _ lt])
  case (2 lt x)
  then show ?case by (cases zs) auto
qed auto

lemma runs_pos [simp]: "0 < runs lt (x # xs)"
  by (induction xs arbitrary: x) auto

lemma runs_le_1: "runs lt xs \<le> 1 \<longleftrightarrow> nondecreasing lt xs"
proof (induction lt xs rule: nondecreasing.induct)
  case (1 lt x y ys)
  then show ?case using runs_pos [of lt y ys] by (auto simp del: runs_pos)
qed auto

section \<open>Merging sorted runs\<close>

lemma nondecreasing_iff:
  assumes lt: "strict_weak_order lt"
  shows "nondecreasing lt xs \<longleftrightarrow> weakly_ordered lt xs"
proof (induction xs)
  case (Cons x xs)
  show ?case
  proof (cases xs)
    case Nil
    then show ?thesis by simp
  next
    case (Cons y ys)
    have "\<not> lt z x" if "\<not> lt y x" "\<not> lt z y" for z
      using strict_weak_orderD(4) [OF lt that(2) that(1)] .
    then show ?thesis using Cons Cons.IH by auto
  qed
qed simp

lemma set_merge_runs: "set (merge_runs lt xs ys) = set xs \<union> set ys"
  by (induction lt xs ys rule: merge_runs.induct) auto

lemma mset_merge_runs: "mset (merge_runs lt xs ys) = mset xs + mset ys"
  by (induction lt xs ys rule: merge_runs.induct) auto

lemma merge_runs_Nil [simp]: "merge_runs lt xs [] = xs"
  by (cases xs) auto

lemma merge_runs_sorted:
  "strict_weak_order lt \<Longrightarrow> weakly_ordered lt xs \<Longrightarrow> weakly_ordered lt ys \<Longrightarrow>
    weakly_ordered lt (merge_runs lt xs ys)"
proof (induction lt xs ys rule: merge_runs.induct)
  case (1 lt x xs y ys)
  note lt = "1.prems"(1)
  show ?case
  proof (cases "lt y x")
    case False
    have IH: "weakly_ordered lt (merge_runs lt xs (y # ys))" using "1.IH"(1) False "1.prems" by simp
    have "\<not> lt z x" if "z \<in> set xs \<union> set (y # ys)" for z
    proof (cases "z \<in> set xs \<or> z = y")
      case True
      then show ?thesis using "1.prems"(2) False by auto
    next
      case zy: False
      then have "\<not> lt z y" using that "1.prems"(3) by auto
      then show ?thesis using strict_weak_orderD(4) [OF lt _ False] by blast
    qed
    then show ?thesis using IH False by (simp add: set_merge_runs)
  next
    case True
    have IH: "weakly_ordered lt (merge_runs lt (x # xs) ys)" using "1.IH"(2) True "1.prems" by simp
    have xy: "\<not> lt x y" using strict_weak_orderD(2) [OF lt True] .
    have "\<not> lt z y" if "z \<in> set (x # xs) \<union> set ys" for z
    proof (cases "z \<in> set ys \<or> z = x")
      case True
      then show ?thesis using "1.prems"(3) xy by auto
    next
      case False
      then have "\<not> lt z x" using that "1.prems"(2) by auto
      then show ?thesis using strict_weak_orderD(4) [OF lt _ xy] by blast
    qed
    then show ?thesis using IH True by (simp add: set_merge_runs)
  qed
qed auto

text \<open>Stability: the elements equal to any given \<open>a\<close> keep their relative order.\<close>

definition equals :: "less_func \<Rightarrow> addr \<Rightarrow> addr \<Rightarrow> bool" where
  "equals lt a x \<longleftrightarrow> \<not> lt a x \<and> \<not> lt x a"

lemma merge_runs_stable:
  "strict_weak_order lt \<Longrightarrow> weakly_ordered lt xs \<Longrightarrow> weakly_ordered lt ys \<Longrightarrow>
    filter (equals lt a) (merge_runs lt xs ys) = filter (equals lt a) xs @ filter (equals lt a) ys"
proof (induction lt xs ys rule: merge_runs.induct)
  case (1 lt x xs y ys)
  note lt = "1.prems"(1)
  show ?case
  proof (cases "lt y x")
    case False
    then show ?thesis using "1.IH"(1) "1.prems" by simp
  next
    case True
    have IH: "filter (equals lt a) (merge_runs lt (x # xs) ys) =
        filter (equals lt a) (x # xs) @ filter (equals lt a) ys"
      using "1.IH"(2) True "1.prems" by simp
    show ?thesis
    proof (cases "equals lt a y")
      case False
      then show ?thesis using IH True by simp
    next
      case eq: True
      have "lt a z" if "z \<in> set (x # xs)" for z
      proof -
        have "\<not> lt z x" using that "1.prems"(2) strict_weak_orderD(1) [OF lt] by auto
        then have "lt y z" using strict_weak_orderD(5) [OF lt True] by blast
        then show ?thesis
          using eq strict_weak_orderD(4) [OF lt, of a z y] strict_weak_orderD(4) [OF lt, of y a z]
          by (auto simp: equals_def)
      qed
      then have "filter (equals lt a) (x # xs) = []" by (auto simp: filter_empty_conv equals_def)
      then show ?thesis using IH True by simp
    qed
  qed
qed auto

lemma take_run_parts:
  assumes "take_run lt x xs = (r, rest)"
  shows "x # xs = r @ rest" "nondecreasing lt r" "r \<noteq> []" "runs lt (x # xs) = runs lt rest + 1"
  using take_run_split [OF assms] runs_take_run [OF assms] by auto

text \<open>One pass: a permutation, stable, and with half as many runs.\<close>

lemma pass_seq_correct:
  "strict_weak_order lt \<Longrightarrow> pass_seq lt xs = (c, zs) \<Longrightarrow>
    mset zs = mset xs \<and> (\<forall>a. filter (equals lt a) zs = filter (equals lt a) xs) \<and>
    runs lt zs \<le> c \<and> c = (runs lt xs + 1) div 2"
proof (induction lt xs arbitrary: c zs rule: pass_seq.induct)
  case (2 lt x xs)
  note lt = "2.prems"(1)
  obtain r1 rest1 where t1: "take_run lt x xs = (r1, rest1)" by fastforce
  note p1 = take_run_parts [OF t1]
  have wo1: "weakly_ordered lt r1" using p1(2) nondecreasing_iff [OF lt] by simp
  show ?case
  proof (cases rest1)
    case Nil
    then have "c = 1" "zs = r1" using "2.prems"(2) t1 by simp_all
    then show ?thesis using p1 Nil runs_le_1 [of lt r1] by simp
  next
    case (Cons y ys)
    obtain r2 rest2 where t2: "take_run lt y ys = (r2, rest2)" by fastforce
    note p2 = take_run_parts [OF t2]
    have wo2: "weakly_ordered lt r2" using p2(2) nondecreasing_iff [OF lt] by simp
    obtain c' zs' where rec: "pass_seq lt rest2 = (c', zs')" by fastforce
    have IH: "mset zs' = mset rest2" "\<And>a. filter (equals lt a) zs' = filter (equals lt a) rest2"
      "runs lt zs' \<le> c'" "c' = (runs lt rest2 + 1) div 2"
      using "2.IH" [OF t1 [symmetric] Cons t2 [symmetric] lt rec] by auto
    have c: "c = c' + 1" and zs: "zs = merge_runs lt r1 r2 @ zs'"
      using "2.prems"(2) t1 t2 Cons rec by simp_all
    have xs: "x # xs = r1 @ r2 @ rest2" using p1(1) p2(1) Cons by simp
    have "nondecreasing lt (merge_runs lt r1 r2)"
      using merge_runs_sorted [OF lt wo1 wo2] nondecreasing_iff [OF lt] by simp
    then have "runs lt zs \<le> c" using runs_append_le [of lt _ zs'] IH(3) c zs by fastforce
    moreover have "c = (runs lt (x # xs) + 1) div 2" using p1(4) p2(4) Cons IH(4) c by simp
    moreover have "mset zs = mset (x # xs)" using IH(1) by (simp add: zs xs mset_merge_runs)
    moreover have "filter (equals lt a) zs = filter (equals lt a) (x # xs)" for a
      using IH(2) merge_runs_stable [OF lt wo1 wo2] by (simp add: zs xs)
    ultimately show ?thesis by blast
  qed
qed auto

section \<open>The pointer code refines the functions on sequences\<close>

text \<open>
  A position in the list is written as a split of its sequence: the node that a pointer
  stands at is the head of what follows, or the tail header.
\<close>

abbreviation at :: "klist \<Rightarrow> addr list \<Rightarrow> addr" where
  "at l xs \<equiv> hd (xs @ [l_tail l])"

lemma at_neq:
  assumes "list_rep h l (us @ vs @ ws)" "vs \<noteq> []"
  shows "at l (vs @ ws) \<noteq> at l ws"
proof -
  obtain v vs' where v: "vs = v # vs'" using assms(2) by (cases vs) auto
  have "v \<notin> set ws" "v \<noteq> l_tail l" using list_repD(1,4) [OF assms(1)] v by auto
  then show ?thesis using v by (cases ws) auto
qed

lemma at_nonnull: "list_rep h l (us @ vs) \<Longrightarrow> at l vs \<noteq> NULL"
  using list_repD(2,6) [of h l "us @ vs"] by (cases vs) (auto simp: nodes_def valid_def)

lemma list_prev_rep': "list_rep h l (us @ x # y # vs) \<Longrightarrow> list_prev h y = Some x"
  using list_prev_rep [of h l "us @ [x]" "y # vs"] by simp

lemma is_sorted_loop_rep:
  "list_rep h l (us @ x # xs @ vs) \<Longrightarrow>
    is_sorted_loop h lt x (at l vs) = Some (nondecreasing lt (x # xs))"
proof (induction xs arbitrary: us x)
  case Nil
  then have "list_next h x = Some (at l vs)" using list_next_rep [of h l us x vs] by simp
  then show ?case by (subst is_sorted_loop.simps) simp
next
  case (Cons y ys)
  have 1: "list_next h x = Some y" using list_next_rep [OF Cons.prems] by simp
  have 2: "list_prev h y = Some x" using list_prev_rep' [of h l us x y] Cons.prems by simp
  have 3: "y \<noteq> at l vs" using at_neq [of h l "us @ [x]" "y # ys" vs] Cons.prems by simp
  have 4: "is_sorted_loop h lt y (at l vs) = Some (nondecreasing lt (y # ys))"
    using Cons.IH [of "us @ [x]" y] Cons.prems by simp
  show ?case by (subst is_sorted_loop.simps) (use 1 2 3 4 in simp)
qed

lemma is_sorted_rep:
  assumes "list_rep h l (us @ xs @ vs)"
  shows "is_sorted h (at l (xs @ vs)) (at l vs) lt = Some (nondecreasing lt xs)"
proof (cases xs)
  case (Cons y ys)
  then show ?thesis
    using assms at_neq [OF assms] is_sorted_loop_rep [of h l us y ys vs lt] by (simp add: is_sorted_def)
qed (simp add: is_sorted_def)

lemma find_end_of_run_loop_rep:
  "list_rep h l (us @ x # xs) \<Longrightarrow>
    find_end_of_run_loop h lt x (l_tail l) = Some (at l (snd (take_run lt x xs)))"
proof (induction lt x xs arbitrary: us rule: take_run.induct)
  case (1 lt x)
  then have "list_next h x = Some (l_tail l)" using list_next_rep [of h l us x "[]"] by simp
  then show ?case by (subst find_end_of_run_loop.simps) simp
next
  case (2 lt x y ys)
  have n: "list_next h x = Some y" using list_next_rep [OF "2.prems"] by simp
  have p: "list_prev h y = Some x" using list_prev_rep' [OF "2.prems"] .
  have t: "y \<noteq> l_tail l" using list_repD(4) [OF "2.prems"] by auto
  show ?case
  proof (cases "lt y x")
    case True
    then show ?thesis by (subst find_end_of_run_loop.simps) (use n p t in simp)
  next
    case False
    then have "find_end_of_run_loop h lt y (l_tail l) = Some (at l (snd (take_run lt y ys)))"
      using "2.IH" [of "us @ [x]"] "2.prems" by simp
    then show ?thesis
      by (subst find_end_of_run_loop.simps) (use n p t False in \<open>simp add: case_prod_beta\<close>)
  qed
qed

lemma find_end_of_run_rep:
  assumes "list_rep h l (us @ x # xs)"
  shows "find_end_of_run h x (list_end l) lt = Some (at l (snd (take_run lt x xs)))"
  using find_end_of_run_loop_rep [OF assms] list_repD(2,4,6) [OF assms]
  by (auto simp: find_end_of_run_def list_end_def nodes_def valid_def)

lemma inplace_merge_loop_rep:
  "list_rep h l (us @ as @ bs @ vs) \<Longrightarrow>
    \<exists>h'. inplace_merge_loop h lt (at l (as @ bs @ vs)) (at l (bs @ vs)) (at l vs) = Some h' \<and>
      list_rep h' l (us @ merge_runs lt as bs @ vs) \<and>
      only_changes h h' (set (nodes l (us @ as @ bs @ vs)))"
proof (induction lt as bs arbitrary: h us rule: merge_runs.induct)
  case (1 lt a as b bs)
  let ?a1b0 = "at l ((b # bs) @ vs)" and ?b1 = "at l vs"
  have ne: "a \<noteq> b" using list_repD(1) [OF "1.prems"] by auto
  have neb: "b \<noteq> ?b1" using at_neq [of h l "us @ a # as" "b # bs" vs] "1.prems" by simp
  show ?case
  proof (cases "lt b a")
    case False
    have "list_next h a = Some (at l (as @ (b # bs) @ vs))"
      using list_next_rep [of h l us a] "1.prems" by simp
    then have "inplace_merge_loop h lt a b ?b1 =
        inplace_merge_loop h lt (at l (as @ (b # bs) @ vs)) b ?b1"
      by (subst inplace_merge_loop.simps) (use ne neb False in simp)
    moreover obtain h' where "inplace_merge_loop h lt (at l (as @ (b # bs) @ vs)) b ?b1 = Some h'"
        "list_rep h' l ((us @ [a]) @ merge_runs lt as (b # bs) @ vs)"
        "only_changes h h' (set (nodes l ((us @ [a]) @ as @ (b # bs) @ vs)))"
      using "1.IH"(1) [OF False, of h "us @ [a]"] "1.prems" by auto
    ultimately show ?thesis using False by simp
  next
    case True
    have r: "list_rep h l ((us @ a # as) @ [b] @ (bs @ vs))" using "1.prems" by simp
    have n: "list_next h b = Some (at l (bs @ vs))"
      using list_next_rep [of h l "us @ a # as" b "bs @ vs"] r by simp
    have p: "list_prev h (at l (bs @ vs)) = Some b"
      using list_prev_rep [of h l "us @ a # as @ [b]" "bs @ vs"] r by simp
    obtain h1 where h1: "list_splice h a b (at l (bs @ vs)) = Some h1"
        "list_rep h1 l (us @ [b] @ a # as @ bs @ vs)"
        "only_changes h h1 (set (nodes l ((us @ a # as) @ [b] @ (bs @ vs))))"
      using list_splice_same [OF r, of us "a # as @ bs @ vs"] by auto
    have step: "inplace_merge_loop h lt a b ?b1 =
        inplace_merge_loop h1 lt a (at l (bs @ vs)) ?b1"
      by (subst inplace_merge_loop.simps) (use ne neb True n p h1(1) in simp)
    have r1: "list_rep h1 l ((us @ [b]) @ (a # as) @ bs @ vs)" using h1(2) by simp
    have "\<not> \<not> lt b a" using True by simp
    from "1.IH"(2) [OF this r1] obtain h' where h':
        "inplace_merge_loop h1 lt a (at l (bs @ vs)) ?b1 = Some h'"
        "list_rep h' l ((us @ [b]) @ merge_runs lt (a # as) bs @ vs)"
        "only_changes h1 h' (set (nodes l ((us @ [b]) @ (a # as) @ bs @ vs)))" by auto
    have "set (nodes l ((us @ [b]) @ (a # as) @ bs @ vs)) =
        set (nodes l (us @ (a # as) @ (b # bs) @ vs))" by (auto simp: nodes_def)
    then have "only_changes h h' (set (nodes l (us @ (a # as) @ (b # bs) @ vs)))"
      using only_changes_trans [OF h1(3) h'(3)] by simp
    then show ?thesis using step h' True by simp
  qed
next
  case (2 lt bs)
  then show ?case by (subst inplace_merge_loop.simps) simp
next
  case (3 lt a as)
  then show ?case by (subst inplace_merge_loop.simps) simp
qed

lemma inplace_merge_rep:
  assumes r: "list_rep h l (us @ as @ bs @ vs)" and s: "nondecreasing lt as" "nondecreasing lt bs"
  shows "\<exists>h'. inplace_merge h (at l (as @ bs @ vs)) (at l (bs @ vs)) (at l vs) lt = Some h' \<and>
      list_rep h' l (us @ merge_runs lt as bs @ vs) \<and>
      only_changes h h' (set (nodes l (us @ as @ bs @ vs)))"
proof -
  have "at l (as @ bs @ vs) \<noteq> NULL" "at l (bs @ vs) \<noteq> NULL" "at l vs \<noteq> NULL"
    using at_nonnull [of h l us "as @ bs @ vs"] at_nonnull [of h l "us @ as" "bs @ vs"]
      at_nonnull [of h l "us @ as @ bs" vs] r by simp_all
  moreover have "is_sorted h (at l (as @ bs @ vs)) (at l (bs @ vs)) lt = Some True"
    using is_sorted_rep [OF r] s by simp
  moreover have "is_sorted h (at l (bs @ vs)) (at l vs) lt = Some True"
    using is_sorted_rep [of h l "us @ as" bs vs] r s by simp
  ultimately show ?thesis using inplace_merge_loop_rep [OF r] by (simp add: inplace_merge_def)
qed

lemma list_sort_pass_rep:
  "list_rep h l (us @ xs) \<Longrightarrow>
    \<exists>h'. list_sort_pass h l lt (at l xs) n = Some (n + fst (pass_seq lt xs), h') \<and>
      list_rep h' l (us @ snd (pass_seq lt xs)) \<and> only_changes h h' (set (nodes l (us @ xs)))"
proof (induction lt xs arbitrary: h us n rule: pass_seq.induct)
  case (1 lt)
  then show ?case by (subst list_sort_pass.simps) (simp add: list_end_def)
next
  case (2 lt x xs)
  obtain r1 rest1 where t1: "take_run lt x xs = (r1, rest1)" by fastforce
  note p1 = take_run_parts [OF t1]
  have tl: "x \<noteq> list_end l" using list_repD(4) [OF "2.prems"] by (auto simp: list_end_def)
  have f1: "find_end_of_run h x (list_end l) lt = Some (at l rest1)"
    using find_end_of_run_rep [OF "2.prems"] t1 by simp
  show ?case
  proof (cases rest1)
    case Nil
    then have "list_sort_pass h l lt x n = Some (n + 1, h)"
      by (subst list_sort_pass.simps) (use tl f1 in \<open>simp add: list_end_def\<close>)
    moreover have "fst (pass_seq lt (x # xs)) = 1" "snd (pass_seq lt (x # xs)) = x # xs"
      using t1 Nil p1(1) [symmetric] by simp_all
    ultimately show ?thesis using "2.prems" by (simp del: pass_seq.simps)
  next
    case (Cons y ys)
    obtain r2 rest2 where t2: "take_run lt y ys = (r2, rest2)" by fastforce
    note p2 = take_run_parts [OF t2]
    have r: "list_rep h l (us @ r1 @ r2 @ rest2)" using "2.prems" p1(1) p2(1) Cons by simp
    have ne: "at l rest1 \<noteq> list_end l"
      using at_neq [of h l "us @ r1" rest1 "[]"] "2.prems" p1(1) Cons by (simp add: list_end_def)
    have "list_rep h l ((us @ r1) @ y # ys)" using "2.prems" p1(1) Cons by simp
    then have f2: "find_end_of_run h (at l rest1) (list_end l) lt = Some (at l rest2)"
      using find_end_of_run_rep [of h l "us @ r1" y ys lt] t2 Cons by simp
    obtain h1 where h1: "inplace_merge h (at l (r1 @ r2 @ rest2)) (at l (r2 @ rest2)) (at l rest2) lt =
        Some h1" "list_rep h1 l (us @ merge_runs lt r1 r2 @ rest2)"
        "only_changes h h1 (set (nodes l (us @ r1 @ r2 @ rest2)))"
      using inplace_merge_rep [OF r p1(2) p2(2)] by auto
    have heads: "at l (r1 @ r2 @ rest2) = x" "at l (r2 @ rest2) = at l rest1"
      using p1(1) p2(1) Cons by (metis append_Cons list.sel(1) append_assoc, simp)
    have step: "list_sort_pass h l lt x n = list_sort_pass h1 l lt (at l rest2) (n + 1)"
      by (subst list_sort_pass.simps) (use tl f1 ne f2 h1(1) heads in simp)
    have r1': "list_rep h1 l ((us @ merge_runs lt r1 r2) @ rest2)" using h1(2) by simp
    from "2.IH" [OF t1 [symmetric] Cons t2 [symmetric] r1', of "n + 1"] obtain h' where h':
      "list_sort_pass h1 l lt (at l rest2) (n + 1) = Some (n + 1 + fst (pass_seq lt rest2), h')"
      "list_rep h' l ((us @ merge_runs lt r1 r2) @ snd (pass_seq lt rest2))"
      "only_changes h1 h' (set (nodes l ((us @ merge_runs lt r1 r2) @ rest2)))" by auto
    have res: "pass_seq lt (x # xs) =
        (fst (pass_seq lt rest2) + 1, merge_runs lt r1 r2 @ snd (pass_seq lt rest2))"
      using t1 t2 Cons by (simp add: case_prod_beta)
    have xs: "x # xs = r1 @ r2 @ rest2" using p1(1) p2(1) Cons by simp
    have "set (nodes l ((us @ merge_runs lt r1 r2) @ rest2)) = set (nodes l (us @ r1 @ r2 @ rest2))"
      by (auto simp: nodes_def set_merge_runs)
    then have "only_changes h h' (set (nodes l (us @ x # xs)))"
      using only_changes_trans [OF h1(3) h'(3)] xs by simp
    then show ?thesis using step h' res by simp
  qed
qed

lemma list_sort_loop_rep:
  assumes lt: "strict_weak_order lt"
  shows "list_rep h l xs \<Longrightarrow> \<exists>h' ys. list_sort_loop h l lt = Some h' \<and> list_rep h' l ys \<and>
    mset ys = mset xs \<and> (\<forall>a. filter (equals lt a) ys = filter (equals lt a) xs) \<and>
    nondecreasing lt ys \<and> only_changes h h' (set (nodes l xs))"
proof (induction "runs lt xs" arbitrary: h xs rule: less_induct)
  case less
  obtain c zs where p: "pass_seq lt xs = (c, zs)" by fastforce
  note pass = pass_seq_correct [OF lt p]
  obtain h1 where h1: "list_sort_pass h l lt (at l xs) 0 = Some (c, h1)" "list_rep h1 l zs"
      "only_changes h h1 (set (nodes l xs))"
    using list_sort_pass_rep [of h l "[]" xs lt 0] less.prems p by auto
  have b: "list_begin h l = Some (at l xs)" using list_begin_rep [OF less.prems] .
  show ?case
  proof (cases "1 < c")
    case True
    then have "runs lt zs < runs lt xs" using pass by auto
    from less.hyps [OF this h1(2)] obtain h' ys where h': "list_sort_loop h1 l lt = Some h'"
      "list_rep h' l ys" "mset ys = mset zs" "\<forall>a. filter (equals lt a) ys = filter (equals lt a) zs"
      "nondecreasing lt ys" "only_changes h1 h' (set (nodes l zs))" by auto
    have "set xs = set zs" using pass by (metis set_mset_mset)
    then have "set (nodes l zs) = set (nodes l xs)" by (simp add: nodes_def)
    then have "only_changes h h' (set (nodes l xs))" using only_changes_trans [OF h1(3) h'(6)] by simp
    moreover have "list_sort_loop h l lt = list_sort_loop h1 l lt"
      by (subst list_sort_loop.simps) (use b h1(1) True in simp)
    ultimately show ?thesis using h' pass by auto
  next
    case False
    then have "list_sort_loop h l lt = Some h1"
      by (subst list_sort_loop.simps) (use b h1(1) in simp)
    moreover have "nondecreasing lt zs" using False pass runs_le_1 [of lt zs] by simp
    ultimately show ?thesis using h1 pass by blast
  qed
qed

lemma list_sort_rep:
  assumes lt: "strict_weak_order lt" and r: "list_rep h l xs"
  shows "\<exists>h' ys. list_sort h l lt = Some h' \<and> list_rep h' l ys \<and>
    mset ys = mset xs \<and> (\<forall>a. filter (equals lt a) ys = filter (equals lt a) xs) \<and>
    weakly_ordered lt ys \<and> only_changes h h' (set (nodes l xs))"
proof -
  obtain h' ys where h': "list_sort_loop h l lt = Some h'" "list_rep h' l ys" "mset ys = mset xs"
    "\<forall>a. filter (equals lt a) ys = filter (equals lt a) xs" "nondecreasing lt ys"
    "only_changes h h' (set (nodes l xs))"
    using list_sort_loop_rep [OF lt r] by blast
  have "is_sorted h' (at l ys) (l_tail l) lt = Some True"
    using is_sorted_rep [of h' l "[]" ys "[]" lt] h'(2,5) by simp
  then have "list_sort h l lt = Some h'"
    using h'(1) list_begin_rep [OF h'(2)] by (simp add: list_sort_def list_end_def)
  then show ?thesis using h' nondecreasing_iff [OF lt] by blast
qed

end
