(* ===== verification/Kernel_Queue.thy ===== *)
theory Kernel_Queue
  imports Kernel_List
begin

text \<open>
  The first-in first-out use of a kernel list: \<open>list_push_back\<close> at one end and
  \<open>list_pop_front\<close> at the other, which is how \<open>threads/synch.c\<close> keeps its waiters and how
  \<open>threads/thread.c\<close> keeps the ready list.

  The locale \<open>fifo_queue\<close> is the contract those clients rely on; the pointer code provides it.
\<close>

section \<open>The abstract queue\<close>

datatype 'e qop = Enq 'e | Deq

fun enqueued :: "'e qop list \<Rightarrow> 'e set" where
  "enqueued [] = {}"
| "enqueued (Enq e # ops) = insert e (enqueued ops)"
| "enqueued (Deq # ops) = enqueued ops"

text \<open>
  A history on a sequence: what is dequeued and what stays. An element that is in the queue
  must not be put in again, and the empty queue cannot be dequeued.
\<close>

fun run_spec :: "'e list \<Rightarrow> 'e qop list \<Rightarrow> ('e list \<times> 'e list) option" where
  "run_spec xs [] = Some ([], xs)"
| "run_spec xs (Enq e # ops) = (if e \<in> set xs then None else run_spec (xs @ [e]) ops)"
| "run_spec xs (Deq # ops) = (case xs of [] \<Rightarrow> None
     | y # ys \<Rightarrow> do { (out, zs) \<leftarrow> run_spec ys ops; Some (y # out, zs) })"

text \<open>The same history on an implementation.\<close>

fun run_queue :: "('q \<Rightarrow> 'e \<Rightarrow> 'q option) \<Rightarrow> ('q \<Rightarrow> ('e \<times> 'q) option) \<Rightarrow> 'q \<Rightarrow> 'e qop list \<Rightarrow>
    ('e list \<times> 'q) option" where
  "run_queue enq deq q [] = Some ([], q)"
| "run_queue enq deq q (Enq e # ops) = do { q \<leftarrow> enq q e; run_queue enq deq q ops }"
| "run_queue enq deq q (Deq # ops) = do {
     (e, q) \<leftarrow> deq q; (out, q) \<leftarrow> run_queue enq deq q ops; Some (e # out, q) }"

section \<open>The contract\<close>

locale fifo_queue =
  fixes enq :: "'q \<Rightarrow> 'e \<Rightarrow> 'q option"
    and deq :: "'q \<Rightarrow> ('e \<times> 'q) option"
    and holds :: "'q \<Rightarrow> 'e list \<Rightarrow> bool"
    and free :: "'q \<Rightarrow> 'e list \<Rightarrow> 'e \<Rightarrow> bool"
  assumes enq_ok: "holds q xs \<Longrightarrow> free q xs e \<Longrightarrow>
      \<exists>q'. enq q e = Some q' \<and> holds q' (xs @ [e]) \<and>
        (\<forall>f. f \<noteq> e \<longrightarrow> free q xs f \<longrightarrow> free q' (xs @ [e]) f)"
    and deq_ok: "holds q (x # xs) \<Longrightarrow>
      \<exists>q'. deq q = Some (x, q') \<and> holds q' xs \<and> free q' xs x \<and>
        (\<forall>f. free q (x # xs) f \<longrightarrow> free q' xs f)"
    and deq_empty: "holds q [] \<Longrightarrow> deq q = None"
begin

lemma run_refines:
  assumes "holds q xs" "\<forall>e \<in> E. e \<in> set xs \<or> free q xs e" "enqueued ops \<subseteq> E"
    "run_spec xs ops = Some (out, ys)"
  shows "\<exists>q'. run_queue enq deq q ops = Some (out, q') \<and> holds q' ys"
  using assms
proof (induction ops arbitrary: q xs out)
  case Nil
  then show ?case by simp
next
  case (Cons a ops)
  show ?case
  proof (cases a)
    case (Enq e)
    then have e: "e \<notin> set xs" "run_spec (xs @ [e]) ops = Some (out, ys)" "free q xs e"
      using Cons.prems(2-4) by (auto split: if_splits)
    obtain q' where q': "enq q e = Some q'" "holds q' (xs @ [e])"
      "\<forall>f. f \<noteq> e \<longrightarrow> free q xs f \<longrightarrow> free q' (xs @ [e]) f"
      using enq_ok [OF Cons.prems(1) e(3)] by blast
    have "\<forall>f \<in> E. f \<in> set (xs @ [e]) \<or> free q' (xs @ [e]) f"
      using Cons.prems(2) q'(3) by auto
    then show ?thesis using Cons.IH [OF q'(2) _ _ e(2)] Cons.prems(3) q'(1) Enq by auto
  next
    case Deq
    then obtain z zs o' where z: "xs = z # zs" "run_spec zs ops = Some (o', ys)" "out = z # o'"
      using Cons.prems(4) by (auto simp: kbind split: list.splits)
    obtain q' where q': "deq q = Some (z, q')" "holds q' zs" "free q' zs z"
      "\<forall>f. free q (z # zs) f \<longrightarrow> free q' zs f"
      using deq_ok Cons.prems(1) z(1) by blast
    have "\<forall>f \<in> E. f \<in> set zs \<or> free q' zs f"
      using Cons.prems(2) q'(3,4) z(1) by auto
    then show ?thesis using Cons.IH [OF q'(2) _ _ z(2)] Cons.prems(3) q'(1) Deq z(3) by auto
  qed
qed

end

section \<open>Kernel lists provide it\<close>

interpretation list_fifo: fifo_queue "\<lambda>h. list_push_back h l" "\<lambda>h. list_pop_front h l"
    "\<lambda>h. list_rep h l" "\<lambda>h. fresh h l" for l
proof (unfold_locales, goal_cases)
  case (1 h xs e)
  then obtain h' where h': "list_push_back h l e = Some h'" "list_rep h' l (xs @ [e])"
    "only_changes h h' (set (nodes l (xs @ [e])))"
    using list_push_back_rep by blast
  moreover have "fresh h' l (xs @ [e]) f" if "f \<noteq> e" "fresh h l xs f" for f
    using h'(3) that by (auto simp: fresh_def only_changes_def valid_def nodes_def)
  ultimately show ?case by blast
next
  case (2 h x xs)
  then obtain h' where h': "list_pop_front h l = Some (x, h')" "list_rep h' l xs"
    "only_changes h h' (set (nodes l xs))" "fresh h' l xs x"
    using list_pop_front_rep by blast
  moreover have "fresh h' l xs f" if "fresh h l (x # xs) f" for f
    using h'(3) that by (auto simp: fresh_def only_changes_def valid_def nodes_def)
  ultimately show ?case by blast
next
  case (3 h)
  then show ?case by (rule list_pop_front_empty)
qed

section \<open>Properties\<close>

text \<open>A list of three elements, used by the concrete instances of this development.\<close>

definition demo_list :: klist where "demo_list = \<lparr>l_head = 1, l_tail = 2\<rparr>"

definition demo_heap :: heap where
  "demo_heap = [1 \<mapsto> \<lparr>le_prev = 0, le_next = 3\<rparr>, 3 \<mapsto> \<lparr>le_prev = 1, le_next = 4\<rparr>,
     4 \<mapsto> \<lparr>le_prev = 3, le_next = 5\<rparr>, 5 \<mapsto> \<lparr>le_prev = 4, le_next = 2\<rparr>,
     2 \<mapsto> \<lparr>le_prev = 5, le_next = 0\<rparr>, 6 \<mapsto> \<lparr>le_prev = 77, le_next = 77\<rparr>]"

lemma demo_rep: "list_rep demo_heap demo_list [3, 4, 5]"
  by (simp add: list_rep_def dlist_def nodes_def demo_list_def demo_heap_def get_prev_def
      get_next_def deref_def)

lemma demo_fresh: "fresh demo_heap demo_list [3, 4, 5] 6"
  by (simp add: fresh_def nodes_def demo_list_def demo_heap_def valid_def)

text \<open>C24: A kernel list used with push-back and pop-front is a first-in first-out queue: every
  history that the abstract queue can perform, over elements that are in the list or unlinked,
  runs on the pointers without panicking, delivers the same elements in the same order and
  leaves the list standing for the abstract queue's rest.\<close>

theorem list_queue_refines_fifo:
  assumes "list_rep h l xs" "\<forall>e \<in> E. e \<in> set xs \<or> fresh h l xs e" "enqueued ops \<subseteq> E"
    "run_spec xs ops = Some (out, ys)"
  shows "\<exists>h'. run_queue (\<lambda>h. list_push_back h l) (\<lambda>h. list_pop_front h l) h ops = Some (out, h') \<and>
    list_rep h' l ys"
  using assms by (rule list_fifo.run_refines)

theorem list_queue_refines_fifo_witness:
  "\<exists>h'. run_queue (\<lambda>h. list_push_back h demo_list) (\<lambda>h. list_pop_front h demo_list) demo_heap
      [Deq, Enq 6, Deq, Enq 3, Deq] = Some ([3, 4, 5], h') \<and> list_rep h' demo_list [6, 3]"
  using list_queue_refines_fifo [OF demo_rep, of "{3, 6}" "[Deq, Enq 6, Deq, Enq 3, Deq]"]
    demo_fresh by simp

end
