(* ===== verification/Kernel_List_Theorems.thy ===== *)
theory Kernel_List_Theorems
  imports Kernel_List_Sort Kernel_Queue
begin

text \<open>
  What the traversals of \<open>lib/kernel/list.c\<close> guarantee, as statements about the pointer code:
  the merge sort, ordered insertion, removal of duplicates, reversal, splicing, extrema.
\<close>

abbreviation larger :: less_func where "larger \<equiv> \<lambda>a b. b < a"

lemma larger_order: "strict_weak_order larger"
  by (auto simp: strict_weak_order_def)

text \<open>C7: For every comparison that is a strict weak order, \<open>list_sort\<close> returns: its merge
  passes end, no assertion of the sort fails, the list stands for a rearrangement of its
  elements in which no element is less than one before it, elements that compare equal keep
  their relative order, and no memory but the list's own elements is written.\<close>

theorem list_sort_correct:
  assumes "strict_weak_order lt" "list_rep h l xs"
  shows "\<exists>h' ys. list_sort h l lt = Some h' \<and> list_rep h' l ys \<and>
    mset ys = mset xs \<and> (\<forall>a. filter (equals lt a) ys = filter (equals lt a) xs) \<and>
    weakly_ordered lt ys \<and> only_changes h h' (set (nodes l xs))"
  using assms by (rule list_sort_rep)

theorem list_sort_correct_witness:
  "\<exists>h' ys. list_sort demo_heap demo_list larger = Some h' \<and> list_rep h' demo_list ys \<and>
    mset ys = {#3, 4, 5#} \<and> (\<forall>a. filter (equals larger a) ys = filter (equals larger a) [3, 4, 5]) \<and>
    weakly_ordered larger ys \<and> only_changes demo_heap h' (set (nodes demo_list [3, 4, 5]))"
  using list_sort_correct [OF larger_order demo_rep] by (simp add: add_mset_commute)

text \<open>\<open>list_insert_ordered\<close> into an ordered list returns, adds exactly the new element,
  puts it behind every element it does not precede and before every element it precedes, and
  the list stays ordered.\<close>

theorem list_insert_ordered_correct:
  assumes "strict_weak_order lt" "list_rep h l xs" "weakly_ordered lt xs" "fresh h l xs e"
  shows "\<exists>h' us vs. list_insert_ordered h l e lt = Some h' \<and> list_rep h' l (us @ e # vs) \<and>
    xs = us @ vs \<and> (\<forall>u \<in> set us. \<not> lt e u) \<and> (\<forall>v \<in> set vs. lt e v) \<and>
    weakly_ordered lt (us @ e # vs)"
proof -
  let ?us = "takeWhile (\<lambda>x. \<not> lt e x) xs" and ?vs = "dropWhile (\<lambda>x. \<not> lt e x) xs"
  have s: "weakly_ordered lt (?us @ e # ?vs)"
    using insert_seq_sorted [OF assms(1,3), of e] by (simp add: insert_seq_def)
  have "\<forall>v \<in> set ?vs. lt e v" by (rule insert_seq_after [OF assms(1,3)])
  moreover obtain h' where "list_insert_ordered h l e lt = Some h'" "list_rep h' l (?us @ e # ?vs)"
    using list_insert_ordered_rep [OF assms(2,4), of lt] unfolding insert_seq_def by blast
  moreover have "\<forall>u \<in> set ?us. \<not> lt e u" by (auto dest: set_takeWhileD)
  ultimately show ?thesis using s takeWhile_dropWhile_id [of "\<lambda>x. \<not> lt e x" xs, symmetric] by blast
qed

theorem list_insert_ordered_correct_witness:
  "\<exists>h' us vs. list_insert_ordered demo_heap demo_list 6 (<) = Some h' \<and>
    list_rep h' demo_list (us @ 6 # vs) \<and> [3, 4, 5] = us @ vs \<and> (\<forall>u \<in> set us. \<not> 6 < u) \<and>
    (\<forall>v \<in> set vs. 6 < v) \<and> weakly_ordered (<) (us @ 6 # vs)"
  by (rule list_insert_ordered_correct [OF strict_weak_order_key [of id, simplified] demo_rep _ demo_fresh])
    simp

text \<open>\<open>list_unique\<close> on an ordered list returns, keeps a strictly increasing list, and
  moves what it drops, in order, to the end of the second list: nothing is lost and nothing is
  duplicated.\<close>

theorem list_unique_correct:
  assumes "strict_weak_order lt" "list_rep h l xs" "weakly_ordered lt xs"
    "dup_rep h l xs dup ds"
  shows "\<exists>h' ks rs. list_unique h l dup lt = Some h' \<and> list_rep h' l ks \<and> sorted_wrt lt ks \<and>
    dup_rep h' l ks dup (ds @ rs) \<and> mset ks + mset rs = mset xs"
  using list_unique_rep [OF assms(2,4), of lt] unique_seq_increasing [OF assms(1,3)]
    unique_seq_mset by blast

theorem list_unique_correct_witness:
  "\<exists>h' ks rs. list_unique demo_heap demo_list None (\<lambda>a b. a div 2 < b div 2) = Some h' \<and>
    list_rep h' demo_list ks \<and> sorted_wrt (\<lambda>a b. a div 2 < b div 2) ks \<and>
    dup_rep h' demo_list ks None ([] @ rs) \<and> mset ks + mset rs = mset [3, 4, 5]"
  by (rule list_unique_correct [OF strict_weak_order_key [of "\<lambda>a. a div 2"] demo_rep])
    (simp_all add: dup_rep_def)

text \<open> \<open>list_reverse\<close> returns and the list stands for the reversed sequence; only the
  list's own nodes are written.\<close>

theorem list_reverse_correct:
  assumes "list_rep h l xs"
  shows "\<exists>h'. list_reverse h l = Some h' \<and> list_rep h' l (rev xs) \<and>
    only_changes h h' (set (nodes l xs))"
  using assms by (rule list_reverse_rep)

theorem list_reverse_correct_witness:
  "\<exists>h'. list_reverse demo_heap demo_list = Some h' \<and> list_rep h' demo_list [5, 4, 3] \<and>
    only_changes demo_heap h' (set (nodes demo_list [3, 4, 5]))"
  using list_reverse_correct [OF demo_rep] by simp

text \<open>\<open>list_splice\<close> moves a non-empty run of one list in front of a position of another
  list: the run leaves the first, joins the second in order at that position, and nothing else
  of the heap changes.\<close>

theorem list_splice_correct:
  assumes "list_rep h l1 (us @ seg @ vs)" "seg \<noteq> []" "list_rep h l2 (cs @ ds)"
    "set (nodes l1 (us @ seg @ vs)) \<inter> set (nodes l2 (cs @ ds)) = {}"
  shows "\<exists>h'. list_splice h (hd (ds @ [l_tail l2])) (hd seg) (hd (vs @ [l_tail l1])) = Some h' \<and>
    list_rep h' l1 (us @ vs) \<and> list_rep h' l2 (cs @ seg @ ds) \<and>
    only_changes h h' (set (nodes l1 (us @ seg @ vs)) \<union> set (nodes l2 (cs @ ds)))"
  using assms by (rule list_splice_rep)

theorem list_splice_correct_witness:
  "let h = demo_heap(8 \<mapsto> \<lparr>le_prev = 0, le_next = 9\<rparr>, 9 \<mapsto> \<lparr>le_prev = 8, le_next = 0\<rparr>);
       l2 = \<lparr>l_head = 8, l_tail = 9\<rparr>
   in \<exists>h'. list_splice h 9 4 2 = Some h' \<and> list_rep h' demo_list [3] \<and> list_rep h' l2 [4, 5] \<and>
     only_changes h h' (set (nodes demo_list [3, 4, 5]) \<union> set (nodes l2 []))"
proof -
  let ?h = "demo_heap(8 \<mapsto> \<lparr>le_prev = 0, le_next = 9\<rparr>, 9 \<mapsto> \<lparr>le_prev = 8, le_next = 0\<rparr>)"
  have "list_rep ?h demo_list ([3] @ [4, 5] @ [])" "list_rep ?h \<lparr>l_head = 8, l_tail = 9\<rparr> ([] @ [])"
    by (simp_all add: list_rep_def dlist_def nodes_def demo_list_def demo_heap_def get_prev_def
        get_next_def deref_def)
  from list_splice_correct [OF this(1) _ this(2)] show ?thesis
    by (simp add: nodes_def demo_list_def Let_def)
qed

text \<open> \<open>list_max\<close> of a non-empty list returns an element of the list that no element of the
  list exceeds, and \<open>list_min\<close> one that exceeds no element.\<close>

theorem list_extrema_correct:
  assumes "strict_weak_order lt" "list_rep h l xs" "xs \<noteq> []"
  shows "\<exists>a b. list_max h l lt = Some a \<and> a \<in> set xs \<and> (\<forall>y \<in> set xs. \<not> lt a y) \<and>
    list_min h l lt = Some b \<and> b \<in> set xs \<and> (\<forall>y \<in> set xs. \<not> lt y b)"
proof -
  obtain x ys where xs: "xs = x # ys" using assms(3) by (cases xs) auto
  have flip: "strict_weak_order (\<lambda>a b. lt b a)"
    using assms(1) unfolding strict_weak_order_def by metis
  show ?thesis
    using fold_max [OF assms(1), of ys x] fold_max [OF flip, of ys x] list_max_rep [of h l x ys lt]
      list_min_rep [of h l x ys lt] assms(2) xs by auto
qed

theorem list_extrema_correct_witness:
  "\<exists>a b. list_max demo_heap demo_list (<) = Some a \<and> a \<in> set [3, 4, 5] \<and>
    (\<forall>y \<in> set [3, 4, 5]. \<not> a < y) \<and> list_min demo_heap demo_list (<) = Some b \<and>
    b \<in> set [3, 4, 5] \<and> (\<forall>y \<in> set [3, 4, 5]. \<not> y < b)"
  by (rule list_extrema_correct [OF strict_weak_order_key [of id, simplified] demo_rep]) simp

end
