(* ===== verification/Kernel_Bitmap.thy ===== *)
theory Kernel_Bitmap
  imports Kernel_Prelude
begin

text \<open>
  The bitmap of \<open>lib/kernel/bitmap.c\<close>: an array of 32-bit elements that stands for an array of
  bits. \<open>bm_abs\<close> reads a bitmap as a list of booleans; the lemmas say that every operation is
  the corresponding operation on that list, that the scanning functions find the first group
  there is, and that the file format is invertible.

  A \<open>size_t\<close> is a natural number; the additions that can wrap round at \<open>2 ^ 32\<close> in the code
  (\<open>start + cnt\<close>, the rounding in \<open>DIV_ROUND_UP\<close>) are \<open>add32\<close>. An access outside the element
  array is \<^const>\<open>None\<close>. Memory comes from the allocator, whose answer is a parameter.
\<close>

section \<open>Sizes and masks\<close>

definition ELEM_BITS :: nat where "ELEM_BITS = 32"

definition BITMAP_ERROR :: nat where "BITMAP_ERROR = 2 ^ 32 - 1"

definition elem_idx :: "nat \<Rightarrow> nat" where
  "elem_idx bit_idx = bit_idx div ELEM_BITS"

definition bit_mask :: "nat \<Rightarrow> u32" where
  "bit_mask bit_idx = push_bit (bit_idx mod ELEM_BITS) 1"

definition elem_cnt :: "nat \<Rightarrow> nat" where
  "elem_cnt bit_cnt = DIV_ROUND_UP bit_cnt ELEM_BITS"

definition byte_cnt :: "nat \<Rightarrow> nat" where
  "byte_cnt bit_cnt = 4 * elem_cnt bit_cnt"

record bitmap =
  bit_cnt :: nat
  bits :: "u32 list"

definition last_mask :: "bitmap \<Rightarrow> u32" where
  "last_mask b = (let last_bits = bit_cnt b mod ELEM_BITS
     in if last_bits \<noteq> 0 then push_bit last_bits 1 - 1 else - 1)"

section \<open>Single bits\<close>

text \<open>A read-modify-write of one element, as the locked instructions do it.\<close>

definition upd_elem :: "bitmap \<Rightarrow> nat \<Rightarrow> (u32 \<Rightarrow> u32) \<Rightarrow> bitmap option" where
  "upd_elem b i f = (if i < length (bits b) then Some (b\<lparr>bits := (bits b)[i := f (bits b ! i)]\<rparr>) else None)"

definition bitmap_mark :: "bitmap \<Rightarrow> nat \<Rightarrow> bitmap option" where
  "bitmap_mark b bit_idx = upd_elem b (elem_idx bit_idx) (\<lambda>e. e OR bit_mask bit_idx)"

definition bitmap_reset :: "bitmap \<Rightarrow> nat \<Rightarrow> bitmap option" where
  "bitmap_reset b bit_idx = upd_elem b (elem_idx bit_idx) (\<lambda>e. e AND NOT (bit_mask bit_idx))"

definition bitmap_flip :: "bitmap \<Rightarrow> nat \<Rightarrow> bitmap option" where
  "bitmap_flip b bit_idx = upd_elem b (elem_idx bit_idx) (\<lambda>e. e XOR bit_mask bit_idx)"

definition bitmap_set :: "bitmap \<Rightarrow> nat \<Rightarrow> bool \<Rightarrow> bitmap option" where
  "bitmap_set b idx v = do {
     ASSERT (idx < bit_cnt b);
     if v then bitmap_mark b idx else bitmap_reset b idx }"

definition bitmap_test :: "bitmap \<Rightarrow> nat \<Rightarrow> bool option" where
  "bitmap_test b idx = do {
     ASSERT (idx < bit_cnt b);
     if elem_idx idx < length (bits b)
     then Some ((bits b ! elem_idx idx) AND bit_mask idx \<noteq> 0) else None }"

definition bitmap_size :: "bitmap \<Rightarrow> nat" where
  "bitmap_size b = bit_cnt b"

section \<open>Groups of bits\<close>

text \<open>The loops run over \<open>i = 0, \<dots>, cnt - 1\<close>; the argument counts what is left.\<close>

fun set_loop :: "bitmap \<Rightarrow> nat \<Rightarrow> bool \<Rightarrow> nat \<Rightarrow> nat \<Rightarrow> bitmap option" where
  "set_loop b start v i 0 = Some b"
| "set_loop b start v i (Suc n) = do {
     b \<leftarrow> bitmap_set b (add32 start i) v; set_loop b start v (i + 1) n }"

definition bitmap_set_multiple :: "bitmap \<Rightarrow> nat \<Rightarrow> nat \<Rightarrow> bool \<Rightarrow> bitmap option" where
  "bitmap_set_multiple b start cnt v = do {
     ASSERT (start \<le> bit_cnt b);
     ASSERT (add32 start cnt \<le> bit_cnt b);
     set_loop b start v 0 cnt }"

definition bitmap_set_all :: "bitmap \<Rightarrow> bool \<Rightarrow> bitmap option" where
  "bitmap_set_all b v = bitmap_set_multiple b 0 (bitmap_size b) v"

fun count_loop :: "bitmap \<Rightarrow> nat \<Rightarrow> bool \<Rightarrow> nat \<Rightarrow> nat \<Rightarrow> nat \<Rightarrow> nat option" where
  "count_loop b start v i value_cnt 0 = Some value_cnt"
| "count_loop b start v i value_cnt (Suc n) = do {
     t \<leftarrow> bitmap_test b (add32 start i);
     count_loop b start v (i + 1) (if t = v then value_cnt + 1 else value_cnt) n }"

definition bitmap_count :: "bitmap \<Rightarrow> nat \<Rightarrow> nat \<Rightarrow> bool \<Rightarrow> nat option" where
  "bitmap_count b start cnt v = do {
     ASSERT (start \<le> bit_cnt b);
     ASSERT (add32 start cnt \<le> bit_cnt b);
     count_loop b start v 0 0 cnt }"

fun contains_loop :: "bitmap \<Rightarrow> nat \<Rightarrow> bool \<Rightarrow> nat \<Rightarrow> nat \<Rightarrow> bool option" where
  "contains_loop b start v i 0 = Some False"
| "contains_loop b start v i (Suc n) = do {
     t \<leftarrow> bitmap_test b (add32 start i);
     if t = v then Some True else contains_loop b start v (i + 1) n }"

definition bitmap_contains :: "bitmap \<Rightarrow> nat \<Rightarrow> nat \<Rightarrow> bool \<Rightarrow> bool option" where
  "bitmap_contains b start cnt v = do {
     ASSERT (start \<le> bit_cnt b);
     ASSERT (add32 start cnt \<le> bit_cnt b);
     contains_loop b start v 0 cnt }"

definition bitmap_any :: "bitmap \<Rightarrow> nat \<Rightarrow> nat \<Rightarrow> bool option" where
  "bitmap_any b start cnt = bitmap_contains b start cnt True"

definition bitmap_none :: "bitmap \<Rightarrow> nat \<Rightarrow> nat \<Rightarrow> bool option" where
  "bitmap_none b start cnt = do { c \<leftarrow> bitmap_contains b start cnt True; Some (\<not> c) }"

definition bitmap_all :: "bitmap \<Rightarrow> nat \<Rightarrow> nat \<Rightarrow> bool option" where
  "bitmap_all b start cnt = do { c \<leftarrow> bitmap_contains b start cnt False; Some (\<not> c) }"

text \<open>The scan tries \<open>i = start, \<dots>, last\<close>; the last argument counts the candidates left.\<close>

fun scan_loop :: "bitmap \<Rightarrow> nat \<Rightarrow> bool \<Rightarrow> nat \<Rightarrow> nat \<Rightarrow> nat option" where
  "scan_loop b cnt v i 0 = Some BITMAP_ERROR"
| "scan_loop b cnt v i (Suc n) = do {
     c \<leftarrow> bitmap_contains b i cnt (\<not> v);
     if \<not> c then Some i else scan_loop b cnt v (i + 1) n }"

lemma scan_loop_numeral: "scan_loop b cnt v i (numeral k) = do {
     c \<leftarrow> bitmap_contains b i cnt (\<not> v);
     if \<not> c then Some i else scan_loop b cnt v (i + 1) (pred_numeral k) }"
  by (simp add: numeral_eq_Suc)

definition bitmap_scan :: "bitmap \<Rightarrow> nat \<Rightarrow> nat \<Rightarrow> bool \<Rightarrow> nat option" where
  "bitmap_scan b start cnt v = do {
     ASSERT (start \<le> bit_cnt b);
     if cnt \<le> bit_cnt b
     then (let last = bit_cnt b - cnt in scan_loop b cnt v start (last + 1 - start))
     else Some BITMAP_ERROR }"

definition bitmap_scan_and_flip :: "bitmap \<Rightarrow> nat \<Rightarrow> nat \<Rightarrow> bool \<Rightarrow> (nat \<times> bitmap) option" where
  "bitmap_scan_and_flip b start cnt v = do {
     idx \<leftarrow> bitmap_scan b start cnt v;
     if idx \<noteq> BITMAP_ERROR
     then do { b \<leftarrow> bitmap_set_multiple b idx cnt (\<not> v); Some (idx, b) }
     else Some (idx, b) }"

section \<open>Creation\<close>

text \<open>
  \<open>struct_ok\<close> says whether the first \<open>malloc\<close> succeeded and \<open>storage\<close> is the answer of the
  second: a null pointer, or memory with arbitrary contents.
\<close>

definition bitmap_create :: "bool \<Rightarrow> u32 list option \<Rightarrow> nat \<Rightarrow> bitmap option option" where
  "bitmap_create struct_ok storage n =
     (if struct_ok then
        (if storage \<noteq> None \<or> n = 0
         then do {
           b \<leftarrow> bitmap_set_all
             \<lparr>bit_cnt = n, bits = (case storage of None \<Rightarrow> [] | Some ws \<Rightarrow> ws)\<rparr> False;
           Some (Some b) }
         else Some None)
      else Some None)"

definition bitmap_buf_size :: "nat \<Rightarrow> nat" where
  "bitmap_buf_size n = 8 + byte_cnt n"

text \<open>\<open>block\<close> is the memory after the header; \<open>block_size\<close> counts the header too.\<close>

definition bitmap_create_in_buf :: "nat \<Rightarrow> u32 list \<Rightarrow> nat \<Rightarrow> bitmap option" where
  "bitmap_create_in_buf n block block_size = do {
     ASSERT (block_size \<ge> bitmap_buf_size n);
     bitmap_set_all \<lparr>bit_cnt = n, bits = block\<rparr> False }"

section \<open>The bitmap as a list of booleans\<close>

definition bm_bit :: "bitmap \<Rightarrow> nat \<Rightarrow> bool" where
  "bm_bit b i = bit (bits b ! elem_idx i) (i mod ELEM_BITS)"

definition bm_abs :: "bitmap \<Rightarrow> bool list" where
  "bm_abs b = map (bm_bit b) [0..<bit_cnt b]"

definition bm_inv :: "bitmap \<Rightarrow> bool" where
  "bm_inv b \<longleftrightarrow> bit_cnt b \<le> 32 * length (bits b) \<and> bit_cnt b < BITMAP_ERROR"

lemma length_bm_abs [simp]: "length (bm_abs b) = bit_cnt b"
  by (simp add: bm_abs_def)

lemma nth_bm_abs [simp]: "i < bit_cnt b \<Longrightarrow> bm_abs b ! i = bm_bit b i"
  by (simp add: bm_abs_def)

lemma elem_idx_bound: "bm_inv b \<Longrightarrow> i < bit_cnt b \<Longrightarrow> elem_idx i < length (bits b)"
  by (auto simp: bm_inv_def elem_idx_def ELEM_BITS_def)

lemma elem_idx_eq: "elem_idx i = elem_idx j \<Longrightarrow> i mod ELEM_BITS = j mod ELEM_BITS \<Longrightarrow> i = j"
  by (metis elem_idx_def div_mult_mod_eq)

lemma bit_mask_bit: "bit (bit_mask i) j \<longleftrightarrow> j = i mod ELEM_BITS"
  by (auto simp: bit_mask_def ELEM_BITS_def bit_exp_iff)

lemma and_bit_mask: "w AND bit_mask i \<noteq> 0 \<longleftrightarrow> bit w (i mod ELEM_BITS)"
  by (simp add: bit_mask_def bit_iff_and_push_bit_not_eq_0)

lemma bitmap_test_abs:
  assumes "bm_inv b"
  shows "bitmap_test b i = (if i < bit_cnt b then Some (bm_abs b ! i) else None)"
  using elem_idx_bound [OF assms]
  by (auto simp: bitmap_test_def and_bit_mask bm_bit_def)

text \<open>Every update of one element under its mask is an update of one bit.\<close>

lemma upd_elem_abs:
  assumes b: "bm_inv b" "i < bit_cnt b"
    and f: "\<And>w j. bit (f w) j \<longleftrightarrow> (if j = i mod ELEM_BITS then g (bit w j) else bit w j)"
  shows "\<exists>b'. upd_elem b (elem_idx i) f = Some b' \<and> bm_inv b' \<and>
    bm_abs b' = (bm_abs b)[i := g (bm_abs b ! i)] \<and> bit_cnt b' = bit_cnt b"
proof -
  let ?b = "b\<lparr>bits := (bits b)[elem_idx i := f (bits b ! elem_idx i)]\<rparr>"
  have idx: "elem_idx i < length (bits b)" using elem_idx_bound b by blast
  have "bm_bit ?b j = (if j = i then g (bm_bit b j) else bm_bit b j)" if "j < bit_cnt b" for j
    using idx that elem_idx_eq [of i j] by (auto simp: bm_bit_def nth_list_update f)
  then have "bm_abs ?b = (bm_abs b)[i := g (bm_abs b ! i)]"
    using b(2) by (auto intro!: nth_equalityI simp: nth_list_update)
  then show ?thesis using idx b(1) by (auto simp: upd_elem_def bm_inv_def)
qed

lemma bitmap_mark_abs:
  "bm_inv b \<Longrightarrow> i < bit_cnt b \<Longrightarrow> \<exists>b'. bitmap_mark b i = Some b' \<and> bm_inv b' \<and>
    bm_abs b' = (bm_abs b)[i := True] \<and> bit_cnt b' = bit_cnt b"
  using upd_elem_abs [of b i "\<lambda>e. e OR bit_mask i" "\<lambda>_. True"]
  by (auto simp: bitmap_mark_def bit_or_iff bit_mask_bit)

lemma bitmap_reset_abs:
  "bm_inv b \<Longrightarrow> i < bit_cnt b \<Longrightarrow> \<exists>b'. bitmap_reset b i = Some b' \<and> bm_inv b' \<and>
    bm_abs b' = (bm_abs b)[i := False] \<and> bit_cnt b' = bit_cnt b"
  unfolding bitmap_reset_def
  by (rule upd_elem_abs [where g = "\<lambda>_. False"])
    (auto simp: bit_and_iff bit_not_iff bit_mask_bit dest: bit_imp_le_length)

lemma bitmap_flip_abs:
  "bm_inv b \<Longrightarrow> i < bit_cnt b \<Longrightarrow> \<exists>b'. bitmap_flip b i = Some b' \<and> bm_inv b' \<and>
    bm_abs b' = (bm_abs b)[i := \<not> bm_abs b ! i] \<and> bit_cnt b' = bit_cnt b"
  using upd_elem_abs [of b i "\<lambda>e. e XOR bit_mask i" "Not"]
  by (auto simp: bitmap_flip_def bit_xor_iff bit_mask_bit)

lemma bitmap_set_abs:
  assumes "bm_inv b" "i < bit_cnt b"
  shows "\<exists>b'. bitmap_set b i v = Some b' \<and> bm_inv b' \<and> bm_abs b' = (bm_abs b)[i := v] \<and>
    bit_cnt b' = bit_cnt b"
  using bitmap_mark_abs [OF assms] bitmap_reset_abs [OF assms] assms(2)
  by (cases v) (simp_all add: bitmap_set_def)

lemma bitmap_set_range: "\<not> i < bit_cnt b \<Longrightarrow> bitmap_set b i v = None"
  by (simp add: bitmap_set_def)

section \<open>Groups\<close>

text \<open>\<open>fill xs i n v\<close>: the sequence \<open>xs\<close> with \<open>n\<close> entries from \<open>i\<close> on replaced by \<open>v\<close>.\<close>

definition fill :: "bool list \<Rightarrow> nat \<Rightarrow> nat \<Rightarrow> bool \<Rightarrow> bool list" where
  "fill xs i n v = take i xs @ replicate n v @ drop (i + n) xs"

lemma length_fill [simp]: "i + n \<le> length xs \<Longrightarrow> length (fill xs i n v) = length xs"
  by (simp add: fill_def)

lemma nth_fill: "i + n \<le> length xs \<Longrightarrow> j < length xs \<Longrightarrow>
    fill xs i n v ! j = (if i \<le> j \<and> j < i + n then v else xs ! j)"
  by (auto simp: fill_def nth_append min_def)

lemma fill_Suc:
  assumes "i + Suc n \<le> length xs"
  shows "fill (xs[i := v]) (Suc i) n v = fill xs i (Suc n) v"
  using assms by (intro nth_equalityI) (auto simp: nth_fill nth_list_update)

lemma set_loop_abs:
  "bm_inv b \<Longrightarrow> start + i + n \<le> bit_cnt b \<Longrightarrow>
    \<exists>b'. set_loop b start v i n = Some b' \<and> bm_inv b' \<and>
      bm_abs b' = fill (bm_abs b) (start + i) n v \<and> bit_cnt b' = bit_cnt b"
proof (induction n arbitrary: b i)
  case 0
  then show ?case by (simp add: fill_def)
next
  case (Suc n)
  have "add32 start i = start + i"
    using Suc.prems by (intro add32_small) (simp add: bm_inv_def BITMAP_ERROR_def)
  moreover obtain b1 where b1: "bitmap_set b (start + i) v = Some b1" "bm_inv b1"
      "bm_abs b1 = (bm_abs b)[start + i := v]" "bit_cnt b1 = bit_cnt b"
    using bitmap_set_abs [of b "start + i" v] Suc.prems by auto
  moreover obtain b' where "set_loop b1 start v (i + 1) n = Some b'" "bm_inv b'"
      "bm_abs b' = fill (bm_abs b1) (start + (i + 1)) n v" "bit_cnt b' = bit_cnt b1"
    using Suc.IH [OF b1(2), of "i + 1"] Suc.prems b1(4) by auto
  ultimately show ?case using fill_Suc [of "start + i" n "bm_abs b" v] Suc.prems by simp
qed

text \<open>
  A group that does not fit is refused: either the check of \<open>start + cnt\<close> fails, or, when the
  sum wraps round, the loop reaches a bit that the bitmap does not have.
\<close>

lemma set_loop_overrun:
  assumes "start + i \<le> bit_cnt b" "bit_cnt b < start + i + n"
  shows "bm_inv b \<Longrightarrow> set_loop b start v i n = None"
  using assms
proof (induction n arbitrary: b i)
  case (Suc n)
  have a: "add32 start i = start + i"
    using Suc.prems by (intro add32_small) (simp add: bm_inv_def BITMAP_ERROR_def)
  show ?case
  proof (cases "start + i < bit_cnt b")
    case True
    then obtain b1 where b1: "bitmap_set b (start + i) v = Some b1" "bm_inv b1" "bit_cnt b1 = bit_cnt b"
      using bitmap_set_abs [of b "start + i" v] Suc.prems(1) by auto
    have "set_loop b1 start v (i + 1) n = None"
      using Suc.IH [of b1 "i + 1"] Suc.prems b1 True by simp
    then show ?thesis using a b1(1) by simp
  next
    case False
    then show ?thesis using a by (simp add: bitmap_set_range)
  qed
qed simp

lemma bitmap_set_multiple_abs:
  assumes b: "bm_inv b" and n: "start < 2 ^ 32" "cnt < 2 ^ 32"
  shows "if start + cnt \<le> bit_cnt b
    then \<exists>b'. bitmap_set_multiple b start cnt v = Some b' \<and> bm_inv b' \<and>
      bm_abs b' = fill (bm_abs b) start cnt v \<and> bit_cnt b' = bit_cnt b
    else bitmap_set_multiple b start cnt v = None"
proof (cases "start + cnt \<le> bit_cnt b")
  case True
  then have "add32 start cnt = start + cnt"
    using b by (intro add32_small) (simp add: bm_inv_def BITMAP_ERROR_def)
  then show ?thesis
    using set_loop_abs [OF b, of start 0 cnt v] True by (simp add: bitmap_set_multiple_def)
next
  case False
  then show ?thesis
    using set_loop_overrun [of start 0 b cnt v] b
    by (cases "start \<le> bit_cnt b") (auto simp: bitmap_set_multiple_def bind_ASSERT_iff)
qed

lemma bitmap_set_all_abs:
  assumes "bm_inv b"
  shows "\<exists>b'. bitmap_set_all b v = Some b' \<and> bm_inv b' \<and>
    bm_abs b' = replicate (bit_cnt b) v \<and> bit_cnt b' = bit_cnt b"
  using bitmap_set_multiple_abs [OF assms, of 0 "bit_cnt b" v] assms
  by (auto simp: bitmap_set_all_def bitmap_size_def fill_def bm_inv_def BITMAP_ERROR_def)

lemma count_loop_abs:
  "bm_inv b \<Longrightarrow> start + i + n \<le> bit_cnt b \<Longrightarrow>
    count_loop b start v i k n = Some (k + count_list (take n (drop (start + i) (bm_abs b))) v)"
proof (induction n arbitrary: i k)
  case (Suc n)
  have "add32 start i = start + i"
    using Suc.prems by (intro add32_small) (simp add: bm_inv_def BITMAP_ERROR_def)
  moreover have "take (Suc n) (drop (start + i) (bm_abs b)) =
      bm_abs b ! (start + i) # take n (drop (start + (i + 1)) (bm_abs b))"
    using Suc.prems by (simp add: Cons_nth_drop_Suc [symmetric])
  ultimately show ?case
    using Suc.IH [of "i + 1"] Suc.prems by (simp add: bitmap_test_abs)
qed simp

lemma bitmap_count_abs:
  assumes b: "bm_inv b" and n: "start + cnt \<le> bit_cnt b"
  shows "bitmap_count b start cnt v = Some (count_list (take cnt (drop start (bm_abs b))) v)"
proof -
  have "add32 start cnt = start + cnt"
    using b n by (intro add32_small) (simp add: bm_inv_def BITMAP_ERROR_def)
  then show ?thesis using count_loop_abs [OF b, of start 0 cnt v 0] n by (simp add: bitmap_count_def)
qed

lemma contains_loop_abs:
  "bm_inv b \<Longrightarrow> start + i + n \<le> bit_cnt b \<Longrightarrow>
    contains_loop b start v i n = Some (v \<in> set (take n (drop (start + i) (bm_abs b))))"
proof (induction n arbitrary: i)
  case (Suc n)
  have "add32 start i = start + i"
    using Suc.prems by (intro add32_small) (simp add: bm_inv_def BITMAP_ERROR_def)
  moreover have "take (Suc n) (drop (start + i) (bm_abs b)) =
      bm_abs b ! (start + i) # take n (drop (start + (i + 1)) (bm_abs b))"
    using Suc.prems by (simp add: Cons_nth_drop_Suc [symmetric])
  ultimately show ?case
    using Suc.IH [of "i + 1"] Suc.prems by (auto simp: bitmap_test_abs)
qed simp

lemma bitmap_contains_abs:
  assumes b: "bm_inv b" and n: "start + cnt \<le> bit_cnt b"
  shows "bitmap_contains b start cnt v = Some (v \<in> set (take cnt (drop start (bm_abs b))))"
proof -
  have "add32 start cnt = start + cnt"
    using b n by (intro add32_small) (simp add: bm_inv_def BITMAP_ERROR_def)
  then show ?thesis using contains_loop_abs [OF b, of start 0 cnt v] n by (simp add: bitmap_contains_def)
qed

section \<open>Scanning\<close>

text \<open>\<open>is_group xs i cnt v\<close>: the \<open>cnt\<close> entries of \<open>xs\<close> from \<open>i\<close> on exist and are all \<open>v\<close>.\<close>

definition is_group :: "bool list \<Rightarrow> nat \<Rightarrow> nat \<Rightarrow> bool \<Rightarrow> bool" where
  "is_group xs i cnt v \<longleftrightarrow> i + cnt \<le> length xs \<and> (\<forall>j < cnt. xs ! (i + j) = v)"

lemma not_contains_group:
  assumes "i + cnt \<le> length xs"
  shows "(\<not> v) \<notin> set (take cnt (drop i xs)) \<longleftrightarrow> is_group xs i cnt v"
  using assms by (auto simp: is_group_def in_set_conv_nth)

lemma scan_loop_abs:
  "bm_inv b \<Longrightarrow> n = 0 \<or> i + n - 1 + cnt \<le> bit_cnt b \<Longrightarrow>
    \<exists>r. scan_loop b cnt v i n = Some r \<and>
      (if r = BITMAP_ERROR then \<forall>k. i \<le> k \<and> k < i + n \<longrightarrow> \<not> is_group (bm_abs b) k cnt v
       else i \<le> r \<and> r < i + n \<and> is_group (bm_abs b) r cnt v \<and>
         (\<forall>k. i \<le> k \<and> k < r \<longrightarrow> \<not> is_group (bm_abs b) k cnt v))"
proof (induction n arbitrary: i)
  case (Suc n)
  have fits: "i + cnt \<le> bit_cnt b" using Suc.prems by simp
  have c: "bitmap_contains b i cnt (\<not> v) = Some (\<not> is_group (bm_abs b) i cnt v)"
    using bitmap_contains_abs [OF Suc.prems(1) fits, of "\<not> v"]
      not_contains_group [of i cnt "bm_abs b" v] fits by auto
  show ?case
  proof (cases "is_group (bm_abs b) i cnt v")
    case True
    have "i \<noteq> BITMAP_ERROR" using fits Suc.prems(1) by (simp add: bm_inv_def)
    then show ?thesis using c True by auto
  next
    case False
    obtain r where r: "scan_loop b cnt v (i + 1) n = Some r"
      "if r = BITMAP_ERROR then \<forall>k. i + 1 \<le> k \<and> k < i + 1 + n \<longrightarrow> \<not> is_group (bm_abs b) k cnt v
       else i + 1 \<le> r \<and> r < i + 1 + n \<and> is_group (bm_abs b) r cnt v \<and>
         (\<forall>k. i + 1 \<le> k \<and> k < r \<longrightarrow> \<not> is_group (bm_abs b) k cnt v)"
      using Suc.IH [OF Suc.prems(1), of "i + 1"] Suc.prems(2) by auto
    have step: "i \<le> k \<longleftrightarrow> k = i \<or> i + 1 \<le> k" for k by auto
    have "scan_loop b cnt v i (Suc n) = Some r" using c False r(1) by simp
    moreover have "if r = BITMAP_ERROR
      then \<forall>k. i \<le> k \<and> k < i + Suc n \<longrightarrow> \<not> is_group (bm_abs b) k cnt v
      else i \<le> r \<and> r < i + Suc n \<and> is_group (bm_abs b) r cnt v \<and>
        (\<forall>k. i \<le> k \<and> k < r \<longrightarrow> \<not> is_group (bm_abs b) k cnt v)"
      using r(2) False by (auto simp: step split: if_splits)
    ultimately show ?thesis by blast
  qed
qed auto

lemma bitmap_scan_abs:
  assumes b: "bm_inv b" and s: "start \<le> bit_cnt b"
  shows "\<exists>r. bitmap_scan b start cnt v = Some r \<and>
    (if r = BITMAP_ERROR then \<forall>k \<ge> start. \<not> is_group (bm_abs b) k cnt v
     else start \<le> r \<and> is_group (bm_abs b) r cnt v \<and>
       (\<forall>k. start \<le> k \<and> k < r \<longrightarrow> \<not> is_group (bm_abs b) k cnt v))"
proof (cases "cnt \<le> bit_cnt b")
  case True
  let ?n = "bit_cnt b - cnt + 1 - start"
  have n: "?n = 0 \<or> start + ?n - 1 + cnt \<le> bit_cnt b" using True by auto
  have past: "\<not> is_group (bm_abs b) k cnt v" if "start + ?n \<le> k" "start \<le> k" for k
    using that True s by (auto simp: is_group_def)
  show ?thesis
    using scan_loop_abs [OF b n, of v] past True s
    by (auto simp: bitmap_scan_def Let_def split: if_splits) (metis not_le)+
next
  case False
  then show ?thesis using s by (auto simp: bitmap_scan_def is_group_def)
qed

lemma fill_fill: "i + n \<le> length xs \<Longrightarrow> fill (fill xs i n u) i n v = fill xs i n v"
  by (auto intro!: nth_equalityI simp: nth_fill)

lemma is_group_nth: "is_group xs i n v \<Longrightarrow> i \<le> j \<Longrightarrow> j < i + n \<Longrightarrow> xs ! j = v"
  unfolding is_group_def by (metis le_add_diff_inverse nat_add_left_cancel_less)

lemma fill_id:
  assumes "is_group xs i n v"
  shows "fill xs i n v = xs"
proof -
  have "i + n \<le> length xs" using assms by (simp add: is_group_def)
  then show ?thesis
    using is_group_nth [OF assms] by (intro nth_equalityI) (auto simp: nth_fill)
qed

lemma is_group_fill: "i + n \<le> length xs \<Longrightarrow> is_group (fill xs i n v) i n v"
  by (auto simp: is_group_def nth_fill)

lemma bitmap_all_abs:
  assumes "bm_inv b" "start + cnt \<le> bit_cnt b"
  shows "bitmap_all b start cnt = Some (is_group (bm_abs b) start cnt True)"
  using bitmap_contains_abs [OF assms, of False] not_contains_group [of start cnt "bm_abs b" True] assms(2)
  by (simp add: bitmap_all_def)

lemma bitmap_none_abs:
  assumes "bm_inv b" "start + cnt \<le> bit_cnt b"
  shows "bitmap_none b start cnt = Some (is_group (bm_abs b) start cnt False)"
  using bitmap_contains_abs [OF assms, of True] not_contains_group [of start cnt "bm_abs b" False] assms(2)
  by (simp add: bitmap_none_def)

lemma bitmap_scan_and_flip_abs:
  assumes b: "bm_inv b" and s: "start \<le> bit_cnt b"
  shows "\<exists>r b'. bitmap_scan_and_flip b start cnt v = Some (r, b') \<and> bm_inv b' \<and> bit_cnt b' = bit_cnt b \<and>
    (if r = BITMAP_ERROR then b' = b \<and> (\<forall>k \<ge> start. \<not> is_group (bm_abs b) k cnt v)
     else start \<le> r \<and> is_group (bm_abs b) r cnt v \<and> bm_abs b' = fill (bm_abs b) r cnt (\<not> v) \<and>
       (\<forall>k. start \<le> k \<and> k < r \<longrightarrow> \<not> is_group (bm_abs b) k cnt v))"
proof -
  obtain r where r: "bitmap_scan b start cnt v = Some r"
    "if r = BITMAP_ERROR then \<forall>k \<ge> start. \<not> is_group (bm_abs b) k cnt v
     else start \<le> r \<and> is_group (bm_abs b) r cnt v \<and>
       (\<forall>k. start \<le> k \<and> k < r \<longrightarrow> \<not> is_group (bm_abs b) k cnt v)"
    using bitmap_scan_abs [OF b s] by blast
  show ?thesis
  proof (cases "r = BITMAP_ERROR")
    case True
    then show ?thesis using r b by (simp add: bitmap_scan_and_flip_def)
  next
    case False
    then have g: "r + cnt \<le> bit_cnt b" using r(2) by (simp add: is_group_def)
    then have "r < 2 ^ 32" "cnt < 2 ^ 32" using b by (simp_all add: bm_inv_def BITMAP_ERROR_def)
    then obtain b' where "bitmap_set_multiple b r cnt (\<not> v) = Some b'" "bm_inv b'"
        "bm_abs b' = fill (bm_abs b) r cnt (\<not> v)" "bit_cnt b' = bit_cnt b"
      using bitmap_set_multiple_abs [OF b, of r cnt "\<not> v"] g by auto
    then show ?thesis using False r by (simp add: bitmap_scan_and_flip_def)
  qed
qed

lemma bitmap_create_in_buf_abs:
  assumes "n \<le> 32 * length block" "n < BITMAP_ERROR"
  shows "bitmap_create_in_buf n block block_size =
    (if block_size \<ge> bitmap_buf_size n
     then bitmap_set_all \<lparr>bit_cnt = n, bits = block\<rparr> False else None)"
    "\<exists>b. bitmap_set_all \<lparr>bit_cnt = n, bits = block\<rparr> False = Some b \<and> bm_inv b \<and>
      bit_cnt b = n \<and> bm_abs b = replicate n False"
  using bitmap_set_all_abs [of "\<lparr>bit_cnt = n, bits = block\<rparr>" False] assms
  by (auto simp: bitmap_create_in_buf_def bm_inv_def)

section \<open>Properties\<close>

lemma bitmap_scan_and_flip_zero_cnt:
  assumes "bm_inv b" "start \<le> bit_cnt b"
  shows "\<exists>b'. bitmap_scan_and_flip b start 0 v = Some (start, b') \<and> bm_abs b' = bm_abs b"
proof -
  have g: "is_group (bm_abs b) k 0 v \<longleftrightarrow> k \<le> bit_cnt b" for k
    by (simp add: is_group_def)
  obtain r b' where r: "bitmap_scan_and_flip b start 0 v = Some (r, b')"
    "if r = BITMAP_ERROR then b' = b \<and> (\<forall>k \<ge> start. \<not> is_group (bm_abs b) k 0 v)
     else start \<le> r \<and> is_group (bm_abs b) r 0 v \<and> bm_abs b' = fill (bm_abs b) r 0 (\<not> v) \<and>
       (\<forall>k. start \<le> k \<and> k < r \<longrightarrow> \<not> is_group (bm_abs b) k 0 v)"
    using bitmap_scan_and_flip_abs [OF assms, of 0 v] by blast
  then have "r \<noteq> BITMAP_ERROR" using assms(2) by (auto simp: g)
  then have "r = start" "bm_abs b' = fill (bm_abs b) r 0 (\<not> v)"
    using r(2) assms(2) by (auto simp: g)
  then show ?thesis using r(1) by (simp add: fill_def)
qed

text \<open>C18: \<open>bitmap_scan_and_flip\<close> is a first-fit allocator: on a well-formed bitmap it never
  panics; it returns the lowest index at or after \<open>start\<close> where a group of \<open>cnt\<close> bits all equal
  \<open>v\<close> begins and complements exactly that group, and it returns \<open>BITMAP_ERROR\<close> with the
  bitmap unchanged exactly when there is no such group. A group of no bits begins everywhere: if
  \<open>cnt\<close> is zero the code returns \<open>start\<close> and changes no bit, although its comment says that it returns 0.\<close>

theorem bitmap_scan_and_flip_first_fit:
  assumes "bm_inv b" "start \<le> bit_cnt b"
  shows "\<exists>r b'. bitmap_scan_and_flip b start cnt v = Some (r, b') \<and> bm_inv b' \<and>
    bit_cnt b' = bit_cnt b \<and>
    (r = BITMAP_ERROR \<longleftrightarrow> (\<forall>k \<ge> start. \<not> is_group (bm_abs b) k cnt v)) \<and>
    (if r = BITMAP_ERROR then b' = b
     else start \<le> r \<and> is_group (bm_abs b) r cnt v \<and>
       (\<forall>k. start \<le> k \<and> k < r \<longrightarrow> \<not> is_group (bm_abs b) k cnt v) \<and>
       bm_abs b' = fill (bm_abs b) r cnt (\<not> v)) \<and>
    (cnt = 0 \<longrightarrow> r = start \<and> bm_abs b' = bm_abs b)"
  using bitmap_scan_and_flip_abs [OF assms, of cnt v] bitmap_scan_and_flip_zero_cnt [OF assms, of v]
  by (cases "cnt = 0") (auto split: if_splits)

text \<open>A bitmap of 40 bits in two words, of which bits 0, 1, 2, 4 and 33 are set.\<close>

definition demo_bitmap :: bitmap where
  "demo_bitmap = \<lparr>bit_cnt = 40, bits = [0b10111, 2]\<rparr>"

lemma demo_bitmap_inv: "bm_inv demo_bitmap"
  by (simp add: bm_inv_def demo_bitmap_def BITMAP_ERROR_def)

theorem bitmap_scan_and_flip_first_fit_witness:
  "\<exists>r b'. bitmap_scan_and_flip demo_bitmap 0 2 False = Some (r, b') \<and> bm_inv b' \<and>
    bit_cnt b' = 40 \<and>
    (r = BITMAP_ERROR \<longleftrightarrow> (\<forall>k \<ge> 0. \<not> is_group (bm_abs demo_bitmap) k 2 False)) \<and>
    (if r = BITMAP_ERROR then b' = demo_bitmap
     else 0 \<le> r \<and> is_group (bm_abs demo_bitmap) r 2 False \<and>
       (\<forall>k. 0 \<le> k \<and> k < r \<longrightarrow> \<not> is_group (bm_abs demo_bitmap) k 2 False) \<and>
       bm_abs b' = fill (bm_abs demo_bitmap) r 2 (\<not> False))"
  using bitmap_scan_and_flip_first_fit [OF demo_bitmap_inv, of 0 2 False]
  by (simp add: demo_bitmap_def)

text \<open>\<open>bitmap_set_multiple\<close> either writes the value into exactly the bits from \<open>start\<close> to
  \<open>start + cnt\<close>, leaving every other bit alone, or, when the range runs past the end of the
  bitmap (also when \<open>start + cnt\<close> wraps around the 32-bit range), it panics.\<close>

theorem bitmap_set_multiple_exact:
  assumes "bm_inv b" "start < 2 ^ 32" "cnt < 2 ^ 32"
  shows "if start + cnt \<le> bit_cnt b
    then \<exists>b'. bitmap_set_multiple b start cnt v = Some b' \<and> bm_inv b' \<and> bit_cnt b' = bit_cnt b \<and>
      (\<forall>j < bit_cnt b. bm_abs b' ! j = (if start \<le> j \<and> j < start + cnt then v else bm_abs b ! j))
    else bitmap_set_multiple b start cnt v = None"
  using bitmap_set_multiple_abs [OF assms, of v] by (auto simp: nth_fill split: if_splits)

theorem bitmap_set_multiple_exact_witness:
  "(\<exists>b'. bitmap_set_multiple demo_bitmap 30 5 True = Some b' \<and> bm_inv b' \<and> bit_cnt b' = 40 \<and>
    (\<forall>j < 40. bm_abs b' ! j = (if 30 \<le> j \<and> j < 35 then True else bm_abs demo_bitmap ! j))) \<and>
   bitmap_set_multiple demo_bitmap 0xffffffff 1 True = None"
  using bitmap_set_multiple_exact [OF demo_bitmap_inv, of 30 5 True]
    bitmap_set_multiple_exact [OF demo_bitmap_inv, of "0xffffffff" 1 True]
  by (simp add: demo_bitmap_def)

end
