(* ===== verification/Kernel_Memory.thy ===== *)
theory Kernel_Memory
  imports Kernel_Prelude
begin

text \<open>
  Addresses and memory: the address arithmetic of \<open>threads/vaddr.h\<close> on 32-bit words, and a
  byte memory with little-endian 32-bit loads and stores, as the processor and the page-table
  code use it. The lemmas relate the bit masks to division and remainder, and say when a load
  sees a store.
\<close>

section \<open>vaddr.h\<close>

definition BITMASK :: "nat \<Rightarrow> nat \<Rightarrow> u32" where
  "BITMASK shift cnt = push_bit shift (push_bit cnt 1 - 1)"

definition PGBITS :: nat where "PGBITS = 12"
definition PGSIZE :: nat where "PGSIZE = 4096"

definition PGMASK :: u32 where "PGMASK = BITMASK 0 PGBITS"

definition PHYS_BASE :: u32 where "PHYS_BASE = 0xc0000000"

definition pg_ofs :: "u32 \<Rightarrow> u32" where
  "pg_ofs va = va AND PGMASK"

definition pg_no :: "u32 \<Rightarrow> u32" where
  "pg_no va = drop_bit PGBITS va"

definition pg_round_up :: "u32 \<Rightarrow> u32" where
  "pg_round_up va = (va + of_nat PGSIZE - 1) AND NOT PGMASK"

definition pg_round_down :: "u32 \<Rightarrow> u32" where
  "pg_round_down va = va AND NOT PGMASK"

definition is_user_vaddr :: "u32 \<Rightarrow> bool" where
  "is_user_vaddr va \<longleftrightarrow> va < PHYS_BASE"

definition is_kernel_vaddr :: "u32 \<Rightarrow> bool" where
  "is_kernel_vaddr va \<longleftrightarrow> va \<ge> PHYS_BASE"

definition ptov :: "u32 \<Rightarrow> u32 option" where
  "ptov paddr = do { ASSERT (paddr < PHYS_BASE); Some (paddr + PHYS_BASE) }"

definition vtop :: "u32 \<Rightarrow> u32 option" where
  "vtop va = do { ASSERT (is_kernel_vaddr va); Some (va - PHYS_BASE) }"

section \<open>Masks as arithmetic\<close>

lemma PGMASK_eq: "PGMASK = mask 12"
  by (simp add: PGMASK_def BITMASK_def PGBITS_def mask_eq_exp_minus_1)

lemma pg_ofs_eq: "pg_ofs va = take_bit 12 va"
  by (simp add: pg_ofs_def PGMASK_eq take_bit_eq_mask)

lemma unat_pg_ofs: "unat (pg_ofs va) = unat va mod PGSIZE"
  by (simp add: pg_ofs_eq PGSIZE_def take_bit_eq_mod unat_mod)

lemma unat_pg_no: "unat (pg_no va) = unat va div PGSIZE"
  by (simp add: pg_no_def PGBITS_def PGSIZE_def drop_bit_eq_div unat_div)

lemma pg_round_down_eq: "pg_round_down va = va - pg_ofs va"
proof -
  have "pg_round_down va OR pg_ofs va = va"
    by (rule bit_eqI) (auto simp: pg_round_down_def pg_ofs_def bit_simps)
  moreover have "pg_round_down va AND pg_ofs va = 0"
    by (rule bit_eqI) (auto simp: pg_round_down_def pg_ofs_def bit_simps)
  ultimately have "pg_round_down va + pg_ofs va = va"
    by (simp add: disjunctive_add_eq_or)
  then show ?thesis by (metis add_diff_cancel_right')
qed

lemma unat_pg_round_down: "unat (pg_round_down va) = unat va div PGSIZE * PGSIZE"
proof -
  have "pg_ofs va \<le> va" by (simp add: word_le_nat_alt unat_pg_ofs)
  then have "unat (pg_round_down va) = unat va - unat (pg_ofs va)"
    by (simp add: pg_round_down_eq unat_sub)
  then show ?thesis by (simp add: unat_pg_ofs minus_mod_eq_div_mult)
qed

lemma unat_pg_round_up:
  assumes "unat va + PGSIZE \<le> 2 ^ 32"
  shows "unat (pg_round_up va) = (unat va + PGSIZE - 1) div PGSIZE * PGSIZE"
proof -
  have "pg_round_up va = pg_round_down (va + of_nat (PGSIZE - 1))"
    by (simp add: pg_round_up_def pg_round_down_def PGSIZE_def add.commute)
  moreover have "unat (va + of_nat (PGSIZE - 1)) = unat va + (PGSIZE - 1)"
    using assms by (subst unat_add_lem [THEN iffD1]) (simp_all add: PGSIZE_def)
  ultimately show ?thesis by (simp add: unat_pg_round_down PGSIZE_def)
qed

lemma pg_aligned_iff: "pg_ofs va = 0 \<longleftrightarrow> PGSIZE dvd unat va"
  by (metis dvd_eq_mod_eq_0 unat_eq_zero unat_pg_ofs)

lemma pg_round_down_aligned: "pg_ofs (pg_round_down va) = 0"
  by (simp add: pg_aligned_iff unat_pg_round_down)

lemma pg_round_down_id: "pg_ofs va = 0 \<Longrightarrow> pg_round_down va = va"
  by (simp add: pg_round_down_eq)

text \<open>The direct mapping: \<open>ptov\<close> and \<open>vtop\<close> are inverse where they are defined.\<close>

lemma vtop_ptov: "is_kernel_vaddr va \<Longrightarrow> vtop va = Some (va - PHYS_BASE)"
  by (simp add: vtop_def)

lemma ptov_vtop:
  assumes "vtop va = Some pa" "pa < PHYS_BASE"
  shows "ptov pa = Some va"
  using assms by (auto simp: vtop_def ptov_def kbind)

lemma vtop_small: "vtop va = Some pa \<Longrightarrow> unat pa < 0x40000000"
proof -
  assume "vtop va = Some pa"
  then have "PHYS_BASE \<le> va" and pa: "pa = va - PHYS_BASE"
    by (auto simp: vtop_def is_kernel_vaddr_def kbind)
  then have "unat pa = unat va - 0xc0000000" by (simp add: unat_sub PHYS_BASE_def)
  then show ?thesis using unat_u32_lt [of va] by linarith
qed

section \<open>Memory\<close>

type_synonym memory = "u32 \<Rightarrow> u8"

definition le_byte :: "nat \<Rightarrow> u32 \<Rightarrow> u8" where
  "le_byte k w = ucast (drop_bit (8 * k) w)"

definition le_word :: "u8 \<Rightarrow> u8 \<Rightarrow> u8 \<Rightarrow> u8 \<Rightarrow> u32" where
  "le_word a b c d = ucast a OR push_bit 8 (ucast b) OR push_bit 16 (ucast c) OR push_bit 24 (ucast d)"

definition load32 :: "memory \<Rightarrow> u32 \<Rightarrow> u32" where
  "load32 m p = le_word (m p) (m (p + 1)) (m (p + 2)) (m (p + 3))"

definition store32 :: "memory \<Rightarrow> u32 \<Rightarrow> u32 \<Rightarrow> memory" where
  "store32 m p w = m(p := le_byte 0 w, p + 1 := le_byte 1 w, p + 2 := le_byte 2 w, p + 3 := le_byte 3 w)"

text \<open>\<open>in_range p n a\<close>: \<open>a\<close> is one of the \<open>n\<close> bytes from \<open>p\<close> on.\<close>

definition in_range :: "u32 \<Rightarrow> nat \<Rightarrow> u32 \<Rightarrow> bool" where
  "in_range p n a \<longleftrightarrow> unat (a - p) < n"

definition mem_set :: "memory \<Rightarrow> u32 \<Rightarrow> u8 \<Rightarrow> nat \<Rightarrow> memory" where
  "mem_set m dst v n = (\<lambda>a. if in_range dst n a then v else m a)"

definition mem_copy :: "memory \<Rightarrow> u32 \<Rightarrow> u32 \<Rightarrow> nat \<Rightarrow> memory" where
  "mem_copy m dst src n = (\<lambda>a. if in_range dst n a then m (src + (a - dst)) else m a)"

lemma le_word_bytes: "le_word (le_byte 0 w) (le_byte 1 w) (le_byte 2 w) (le_byte 3 w) = w"
proof (rule bit_word_eqI)
  fix n
  assume "n < LENGTH(32)"
  then have "n < 32" by simp
  then consider "n < 8" | "8 \<le> n \<and> n < 16" | "16 \<le> n \<and> n < 24" | "24 \<le> n \<and> n < 32"
    by linarith
  then show "bit (le_word (le_byte 0 w) (le_byte 1 w) (le_byte 2 w) (le_byte 3 w)) n = bit w n"
    by cases (auto simp: le_word_def le_byte_def bit_simps)
qed

lemma le_byte_word:
  "le_byte 0 (le_word a b c d) = a" "le_byte 1 (le_word a b c d) = b"
  "le_byte 2 (le_word a b c d) = c" "le_byte 3 (le_word a b c d) = d"
  by (rule bit_eqI; auto simp: le_word_def le_byte_def bit_simps dest: bit_imp_le_length)+

lemma load_store_same: "load32 (store32 m p w) p = w"
  by (simp add: load32_def store32_def le_word_bytes [simplified])

lemma load_store_other:
  assumes "4 \<le> unat (q - p)" "4 \<le> unat (p - q)"
  shows "load32 (store32 m p w) q = load32 m q"
proof -
  have "\<forall>i \<in> {0, 1, 2, 3}. \<forall>j \<in> {0, 1, 2, 3}. q + i \<noteq> p + j"
  proof (intro ballI notI)
    fix i j :: u32
    assume ij: "i \<in> {0, 1, 2, 3}" "j \<in> {0, 1, 2, 3}" and "q + i = p + j"
    then have "q - p = j - i" "p - q = i - j" by (simp_all add: algebra_simps)
    then show False using assms ij by auto
  qed
  then show ?thesis by (simp add: load32_def store32_def)
qed

end
