(* ===== verification/Kernel_Palloc.thy ===== *)
theory Kernel_Palloc
  imports Kernel_Bitmap Kernel_Memory
begin

text \<open>
  The page allocator of \<open>threads/palloc.c\<close>: two pools of page frames, each a bitmap of used
  pages and a base address, over the byte memory that \<open>memset\<close> clears. The pool lock only
  brackets the bitmap update; a step of this model is what runs while the lock is held.

  \<open>palloc_inv\<close> says the pools are well formed and do not overlap. The lemmas say what an
  allocation returns (the first fitting group of free pages, marked used), when it fails, and
  that freeing undoes it.
\<close>

section \<open>State and operations\<close>

definition PAL_ASSERT :: u32 where "PAL_ASSERT = 1"
definition PAL_ZERO :: u32 where "PAL_ZERO = 2"
definition PAL_USER :: u32 where "PAL_USER = 4"

record pool =
  used_map :: bitmap
  pool_base :: u32

record palloc =
  kernel_pool :: pool
  user_pool :: pool
  mem :: memory

definition palloc_get_multiple :: "palloc \<Rightarrow> u32 \<Rightarrow> nat \<Rightarrow> (u32 \<times> palloc) option" where
  "palloc_get_multiple s flags page_cnt =
     (let user = (flags AND PAL_USER \<noteq> 0);
          pool = (if user then user_pool s else kernel_pool s)
      in if page_cnt = 0 then Some (0, s)
      else do {
        (page_idx, um) \<leftarrow> bitmap_scan_and_flip (used_map pool) 0 page_cnt False;
        let pool' = pool\<lparr>used_map := um\<rparr>;
        let s = (if user then s\<lparr>user_pool := pool'\<rparr> else s\<lparr>kernel_pool := pool'\<rparr>);
        let pages = (if page_idx \<noteq> BITMAP_ERROR
                     then pool_base pool + of_nat (PGSIZE * page_idx) else 0);
        if pages \<noteq> 0
        then Some (pages, if flags AND PAL_ZERO \<noteq> 0
                          then s\<lparr>mem := mem_set (mem s) pages 0 (PGSIZE * page_cnt)\<rparr> else s)
        else do { ASSERT (flags AND PAL_ASSERT = 0); Some (pages, s) } })"

definition palloc_get_page :: "palloc \<Rightarrow> u32 \<Rightarrow> (u32 \<times> palloc) option" where
  "palloc_get_page s flags = palloc_get_multiple s flags 1"

definition page_from_pool :: "pool \<Rightarrow> u32 \<Rightarrow> bool" where
  "page_from_pool pool page =
     (let page_no = unat (pg_no page);
          start_page = unat (pg_no (pool_base pool));
          end_page = add32 start_page (bitmap_size (used_map pool))
      in page_no \<ge> start_page \<and> page_no < end_page)"

definition free_in_pool :: "pool \<Rightarrow> u32 \<Rightarrow> nat \<Rightarrow> pool option" where
  "free_in_pool pool pages page_cnt = do {
     let page_idx = unat (pg_no pages - pg_no (pool_base pool));
     a \<leftarrow> bitmap_all (used_map pool) page_idx page_cnt;
     ASSERT a;
     um \<leftarrow> bitmap_set_multiple (used_map pool) page_idx page_cnt False;
     Some (pool\<lparr>used_map := um\<rparr>) }"

definition palloc_free_multiple :: "palloc \<Rightarrow> u32 \<Rightarrow> nat \<Rightarrow> palloc option" where
  "palloc_free_multiple s pages page_cnt = do {
     ASSERT (pg_ofs pages = 0);
     if pages = 0 \<or> page_cnt = 0 then Some s
     else (let s' = s\<lparr>mem := mem_set (mem s) pages 0xcc (PGSIZE * page_cnt)\<rparr> in
       if page_from_pool (kernel_pool s) pages
       then do { p \<leftarrow> free_in_pool (kernel_pool s) pages page_cnt; Some (s'\<lparr>kernel_pool := p\<rparr>) }
       else if page_from_pool (user_pool s) pages
       then do { p \<leftarrow> free_in_pool (user_pool s) pages page_cnt; Some (s'\<lparr>user_pool := p\<rparr>) }
       else None) }"

definition palloc_free_page :: "palloc \<Rightarrow> u32 \<Rightarrow> palloc option" where
  "palloc_free_page s page = palloc_free_multiple s page 1"

text \<open>The bitmap of a pool lives in the pool's first pages, with whatever they contain.\<close>

definition init_pool :: "memory \<Rightarrow> u32 \<Rightarrow> nat \<Rightarrow> pool option" where
  "init_pool m base page_cnt =
     (let bm_pages = DIV_ROUND_UP (bitmap_buf_size page_cnt) PGSIZE
      in if bm_pages > page_cnt then None
      else do {
        um \<leftarrow> bitmap_create_in_buf (page_cnt - bm_pages)
          (map (\<lambda>i. load32 m (base + of_nat (8 + 4 * i))) [0..<(bm_pages * PGSIZE - 8) div 4])
          (bm_pages * PGSIZE);
        Some \<lparr>used_map = um, pool_base = base + of_nat (bm_pages * PGSIZE)\<rparr> })"

text \<open>The pointer difference is signed and its division truncates.\<close>

definition ptrdiff_div :: "u32 \<Rightarrow> int \<Rightarrow> u32" where
  "ptrdiff_div d n = word_of_int (sgn (sint d) * sgn n * (\<bar>sint d\<bar> div \<bar>n\<bar>))"

definition palloc_init :: "memory \<Rightarrow> u32 \<Rightarrow> nat \<Rightarrow> palloc option" where
  "palloc_init m init_ram_pages user_page_limit = do {
     free_start \<leftarrow> ptov (1024 * 1024);
     free_end \<leftarrow> ptov (init_ram_pages * of_nat PGSIZE);
     let free_pages = unat (ptrdiff_div (free_end - free_start) (int PGSIZE));
     let user_pages = min (free_pages div 2) user_page_limit;
     let kernel_pages = free_pages - user_pages;
     kp \<leftarrow> init_pool m free_start kernel_pages;
     up \<leftarrow> init_pool m (free_start + of_nat (kernel_pages * PGSIZE)) user_pages;
     Some \<lparr>kernel_pool = kp, user_pool = up, mem = m\<rparr> }"

section \<open>Well-formed pools\<close>

definition pool_inv :: "pool \<Rightarrow> bool" where
  "pool_inv p \<longleftrightarrow> bm_inv (used_map p) \<and> pg_ofs (pool_base p) = 0 \<and> pool_base p \<noteq> 0 \<and>
     unat (pool_base p) + PGSIZE * bit_cnt (used_map p) \<le> 2 ^ 32 - PGSIZE"

definition palloc_inv :: "palloc \<Rightarrow> bool" where
  "palloc_inv s \<longleftrightarrow> pool_inv (kernel_pool s) \<and> pool_inv (user_pool s) \<and>
     unat (pool_base (kernel_pool s)) + PGSIZE * bit_cnt (used_map (kernel_pool s))
       \<le> unat (pool_base (user_pool s))"

abbreviation pool_used :: "pool \<Rightarrow> bool list" where
  "pool_used p \<equiv> bm_abs (used_map p)"

definition pool_page :: "pool \<Rightarrow> nat \<Rightarrow> u32" where
  "pool_page p i = pool_base p + of_nat (PGSIZE * i)"

definition selected_pool :: "palloc \<Rightarrow> u32 \<Rightarrow> pool" where
  "selected_pool s flags = (if flags AND PAL_USER \<noteq> 0 then user_pool s else kernel_pool s)"

lemma palloc_inv_selected: "palloc_inv s \<Longrightarrow> pool_inv (selected_pool s flags)"
  by (simp add: palloc_inv_def selected_pool_def)

lemma unat_pool_page:
  assumes "pool_inv p" "i \<le> bit_cnt (used_map p)"
  shows "unat (pool_page p i) = unat (pool_base p) + PGSIZE * i"
proof -
  have "PGSIZE * i \<le> PGSIZE * bit_cnt (used_map p)" using assms(2) by simp
  then have "unat (pool_base p) + PGSIZE * i < 2 ^ 32"
    using assms(1) by (simp add: pool_inv_def PGSIZE_def)
  then show ?thesis
    unfolding pool_page_def by (subst unat_add_small) (simp_all only: unat_of_nat_small)
qed

lemma pool_page_facts:
  assumes "pool_inv p" "i < bit_cnt (used_map p)"
  shows "pool_page p i \<noteq> 0" "pg_ofs (pool_page p i) = 0"
    "unat (pg_no (pool_page p i)) = unat (pg_no (pool_base p)) + i"
    "page_from_pool p (pool_page p i)"
    "unat (pg_no (pool_page p i) - pg_no (pool_base p)) = i"
proof -
  note u = unat_pool_page [OF assms(1), of i]
  have b: "PGSIZE dvd unat (pool_base p)" using assms(1) by (simp add: pool_inv_def pg_aligned_iff)
  have "unat (pool_base p) \<noteq> 0" using assms(1) by (simp add: pool_inv_def unat_eq_zero)
  then show "pool_page p i \<noteq> 0" using u assms(2) by (metis add_is_0 less_imp_le unat_0)
  show "pg_ofs (pool_page p i) = 0" using u b assms(2) by (simp add: pg_aligned_iff)
  show no: "unat (pg_no (pool_page p i)) = unat (pg_no (pool_base p)) + i"
    using u b assms(2) by (simp add: unat_pg_no PGSIZE_def)
  have "PGSIZE * (unat (pg_no (pool_base p)) + bit_cnt (used_map p)) \<le> 2 ^ 32 - PGSIZE"
    using assms(1) b by (simp add: pool_inv_def unat_pg_no algebra_simps)
  then have "add32 (unat (pg_no (pool_base p))) (bit_cnt (used_map p)) =
      unat (pg_no (pool_base p)) + bit_cnt (used_map p)"
    by (intro add32_small) (simp add: PGSIZE_def)
  then show "page_from_pool p (pool_page p i)"
    using no assms(2) by (simp add: page_from_pool_def bitmap_size_def)
  show "unat (pg_no (pool_page p i) - pg_no (pool_base p)) = i"
    using no by (subst unat_sub) (simp_all add: word_le_nat_alt)
qed

section \<open>Allocation\<close>

text \<open>The state with the selected pool replaced.\<close>

definition with_pool :: "palloc \<Rightarrow> u32 \<Rightarrow> pool \<Rightarrow> palloc" where
  "with_pool s flags p = (if flags AND PAL_USER \<noteq> 0 then s\<lparr>user_pool := p\<rparr> else s\<lparr>kernel_pool := p\<rparr>)"

lemma selected_with_pool [simp]: "selected_pool (with_pool s flags p) flags = p"
  by (simp add: selected_pool_def with_pool_def)

lemma mem_with_pool [simp]: "mem (with_pool s flags p) = mem s"
  by (simp add: with_pool_def)

lemma selected_mem [simp]: "selected_pool (s\<lparr>mem := m\<rparr>) flags = selected_pool s flags"
  by (simp add: selected_pool_def)

lemma with_pool_same [simp]: "with_pool s flags (selected_pool s flags) = s"
  by (simp add: with_pool_def selected_pool_def)

lemma with_pool_with_pool [simp]: "with_pool (with_pool s flags p) flags q = with_pool s flags q"
  by (simp add: with_pool_def)

lemma palloc_inv_mem [simp]: "palloc_inv (s\<lparr>mem := m\<rparr>) = palloc_inv s"
  by (simp add: palloc_inv_def)

lemma palloc_inv_with_pool:
  assumes "palloc_inv s" "pool_inv p" "pool_base p = pool_base (selected_pool s flags)"
    "bit_cnt (used_map p) = bit_cnt (used_map (selected_pool s flags))"
  shows "palloc_inv (with_pool s flags p)"
  using assms by (auto simp: palloc_inv_def with_pool_def selected_pool_def split: if_splits)

lemma palloc_get_multiple_spec:
  fixes s :: palloc and flags :: u32 and n :: nat
  assumes inv: "palloc_inv s" and n: "0 < n"
  defines "p \<equiv> selected_pool s flags"
  shows "if \<exists>k. is_group (pool_used p) k n False
    then \<exists>k um s'. palloc_get_multiple s flags n = Some (pool_page p k, s') \<and>
      is_group (pool_used p) k n False \<and> (\<forall>j < k. \<not> is_group (pool_used p) j n False) \<and>
      bm_inv um \<and> bit_cnt um = bit_cnt (used_map p) \<and> bm_abs um = fill (pool_used p) k n True \<and>
      s' = (with_pool s flags (p\<lparr>used_map := um\<rparr>))\<lparr>mem :=
        (if flags AND PAL_ZERO \<noteq> 0 then mem_set (mem s) (pool_page p k) 0 (PGSIZE * n) else mem s)\<rparr>
    else palloc_get_multiple s flags n = (if flags AND PAL_ASSERT = 0 then Some (0, s) else None)"
proof -
  have pinv: "pool_inv p" using palloc_inv_selected [OF inv] by (simp add: p_def)
  then have b: "bm_inv (used_map p)" by (simp add: pool_inv_def)
  obtain r um where r: "bitmap_scan_and_flip (used_map p) 0 n False = Some (r, um)" "bm_inv um"
    "bit_cnt um = bit_cnt (used_map p)"
    and raw: "if r = BITMAP_ERROR
      then um = used_map p \<and> (\<forall>k \<ge> 0. \<not> is_group (pool_used p) k n False)
      else 0 \<le> r \<and> is_group (pool_used p) r n False \<and> bm_abs um = fill (pool_used p) r n (\<not> False) \<and>
        (\<forall>k. 0 \<le> k \<and> k < r \<longrightarrow> \<not> is_group (pool_used p) k n False)"
    using bitmap_scan_and_flip_abs [OF b, of 0 n False] by blast
  have bad: "um = used_map p" "\<nexists>k. is_group (pool_used p) k n False" if "r = BITMAP_ERROR"
    using raw that by auto
  have good: "is_group (pool_used p) r n False" "bm_abs um = fill (pool_used p) r n True"
    "\<forall>k < r. \<not> is_group (pool_used p) k n False" if "r \<noteq> BITMAP_ERROR"
    using raw that by auto
  have run: "palloc_get_multiple s flags n =
     (let s1 = with_pool s flags (p\<lparr>used_map := um\<rparr>);
          pages = (if r \<noteq> BITMAP_ERROR then pool_page p r else 0)
      in if pages \<noteq> 0
        then Some (pages, if flags AND PAL_ZERO \<noteq> 0
                          then s1\<lparr>mem := mem_set (mem s1) pages 0 (PGSIZE * n)\<rparr> else s1)
        else do { ASSERT (flags AND PAL_ASSERT = 0); Some (pages, s1) })"
    using n r(1) by (simp add: palloc_get_multiple_def p_def selected_pool_def with_pool_def Let_def
        pool_page_def)
  show ?thesis
  proof (cases "r = BITMAP_ERROR")
    case True
    then show ?thesis using run bad [OF True] by (simp add: p_def)
  next
    case False
    note g = good [OF False]
    then have "r < bit_cnt (used_map p)" using n by (simp add: is_group_def)
    then have "pool_page p r \<noteq> 0" using pool_page_facts(1) [OF pinv] by blast
    then have "palloc_get_multiple s flags n = Some (pool_page p r,
        (with_pool s flags (p\<lparr>used_map := um\<rparr>))\<lparr>mem :=
          (if flags AND PAL_ZERO \<noteq> 0 then mem_set (mem s) (pool_page p r) 0 (PGSIZE * n) else mem s)\<rparr>)"
      using run False by (simp add: with_pool_def Let_def)
    then show ?thesis using g r(2,3) by auto
  qed
qed

section \<open>Release\<close>

lemma free_in_pool_spec:
  assumes inv: "pool_inv p" and k: "k < bit_cnt (used_map p)" "k + n \<le> bit_cnt (used_map p)"
  shows "if is_group (pool_used p) k n True
    then \<exists>um. free_in_pool p (pool_page p k) n = Some (p\<lparr>used_map := um\<rparr>) \<and> bm_inv um \<and>
      bit_cnt um = bit_cnt (used_map p) \<and> bm_abs um = fill (pool_used p) k n False
    else free_in_pool p (pool_page p k) n = None"
proof -
  have b: "bm_inv (used_map p)" using inv by (simp add: pool_inv_def)
  then have small: "k < 2 ^ 32" "n < 2 ^ 32" using k by (simp_all add: bm_inv_def BITMAP_ERROR_def)
  obtain um where "bitmap_set_multiple (used_map p) k n False = Some um" "bm_inv um"
      "bm_abs um = fill (pool_used p) k n False" "bit_cnt um = bit_cnt (used_map p)"
    using bitmap_set_multiple_abs [OF b small, of False] k(2) by auto
  then show ?thesis
    using pool_page_facts(5) [OF inv k(1)] bitmap_all_abs [OF b k(2)]
    by (auto simp: free_in_pool_def Let_def)
qed

text \<open>A page of the user pool is not one of the kernel pool.\<close>

lemma kernel_not_user:
  assumes inv: "palloc_inv s" and k: "k < bit_cnt (used_map (user_pool s))"
  shows "\<not> page_from_pool (kernel_pool s) (pool_page (user_pool s) k)"
proof -
  let ?K = "kernel_pool s" and ?U = "user_pool s"
  have inv': "pool_inv ?U" "pool_inv ?K"
    "unat (pool_base ?K) + PGSIZE * bit_cnt (used_map ?K) \<le> unat (pool_base ?U)"
    using inv by (simp_all add: palloc_inv_def)
  have dv: "PGSIZE dvd unat (pool_base ?K)" using inv'(2) by (simp add: pool_inv_def pg_aligned_iff)
  have sum: "unat (pg_no (pool_base ?K)) + bit_cnt (used_map ?K) \<le> unat (pg_no (pool_base ?U))"
    using div_le_mono [OF inv'(3), of PGSIZE] dv by (simp add: unat_pg_no PGSIZE_def)
  have "add32 (unat (pg_no (pool_base ?K))) (bit_cnt (used_map ?K)) \<le>
      unat (pg_no (pool_base ?K)) + bit_cnt (used_map ?K)"
    by (simp add: add32_def)
  then show ?thesis
    using sum pool_page_facts(3) [OF inv'(1) k] by (simp add: page_from_pool_def bitmap_size_def)
qed

lemma palloc_free_multiple_pool:
  fixes s :: palloc and flags :: u32 and k n :: nat
  assumes inv: "palloc_inv s" and n: "0 < n"
    and k: "k < bit_cnt (used_map (selected_pool s flags))"
  defines "p \<equiv> selected_pool s flags"
  shows "palloc_free_multiple s (pool_page p k) n =
    map_option (\<lambda>q. (with_pool s flags q)\<lparr>mem := mem_set (mem s) (pool_page p k) 0xcc (PGSIZE * n)\<rparr>)
      (free_in_pool p (pool_page p k) n)"
proof -
  have pinv: "pool_inv p" using palloc_inv_selected [OF inv] by (simp add: p_def)
  note facts = pool_page_facts [OF pinv k [folded p_def]]
  have "flags AND PAL_USER \<noteq> 0 \<Longrightarrow> \<not> page_from_pool (kernel_pool s) (pool_page p k)"
    using kernel_not_user [OF inv, of k] k by (simp add: p_def selected_pool_def)
  then show ?thesis
    using facts(1,2,4) n
    by (cases "free_in_pool p (pool_page p k) n")
      (auto simp: palloc_free_multiple_def p_def selected_pool_def with_pool_def Let_def)
qed

lemma palloc_free_multiple_spec:
  fixes s :: palloc and flags :: u32 and k n :: nat
  assumes inv: "palloc_inv s" and n: "0 < n"
    and k: "k + n \<le> bit_cnt (used_map (selected_pool s flags))"
  defines "p \<equiv> selected_pool s flags"
  shows "if is_group (pool_used p) k n True
    then \<exists>um. palloc_free_multiple s (pool_page p k) n =
        Some ((with_pool s flags (p\<lparr>used_map := um\<rparr>))\<lparr>mem :=
          mem_set (mem s) (pool_page p k) 0xcc (PGSIZE * n)\<rparr>) \<and>
      bm_inv um \<and> bit_cnt um = bit_cnt (used_map p) \<and> bm_abs um = fill (pool_used p) k n False
    else palloc_free_multiple s (pool_page p k) n = None"
proof -
  have pinv: "pool_inv p" using palloc_inv_selected [OF inv] by (simp add: p_def)
  have k': "k < bit_cnt (used_map p)" "k + n \<le> bit_cnt (used_map p)" using k n by (simp_all add: p_def)
  show ?thesis
    using palloc_free_multiple_pool [OF inv n k'(1) [unfolded p_def]] free_in_pool_spec [OF pinv k', folded p_def]
    by (auto simp: p_def split: if_splits)
qed

section \<open>The invariant is kept\<close>

lemma palloc_get_multiple_inv:
  assumes "palloc_inv s" "palloc_get_multiple s flags n = Some (pages, s')"
  shows "palloc_inv s'"
proof (cases "n = 0")
  case True
  then show ?thesis using assms by (simp add: palloc_get_multiple_def Let_def)
next
  case False
  have p: "pool_inv (selected_pool s flags)" using palloc_inv_selected [OF assms(1)] .
  show ?thesis
    using palloc_get_multiple_spec [OF assms(1), of n flags] False assms p
    by (auto split: if_splits intro!: palloc_inv_with_pool simp: pool_inv_def)
qed

lemma get_free_used:
  assumes inv: "palloc_inv s" and get: "palloc_get_multiple s flags n = Some (pages, s')"
    and ok: "pages \<noteq> 0"
  shows "\<exists>s''. palloc_free_multiple s' pages n = Some s'' \<and>
    pool_used (kernel_pool s'') = pool_used (kernel_pool s) \<and>
    pool_used (user_pool s'') = pool_used (user_pool s) \<and> palloc_inv s''"
proof -
  have n: "0 < n" using get ok by (cases "n = 0") (auto simp: palloc_get_multiple_def Let_def)
  let ?p = "selected_pool s flags"
  have pinv: "pool_inv ?p" using palloc_inv_selected [OF inv] .
  have "\<exists>k. is_group (pool_used ?p) k n False"
    using palloc_get_multiple_spec [OF inv n, of flags] get ok by (auto split: if_splits)
  then obtain k um where k: "pages = pool_page ?p k" "is_group (pool_used ?p) k n False"
    "bm_inv um" "bit_cnt um = bit_cnt (used_map ?p)" "bm_abs um = fill (pool_used ?p) k n True"
    "s' = (with_pool s flags (?p\<lparr>used_map := um\<rparr>))\<lparr>mem := mem s'\<rparr>"
    using palloc_get_multiple_spec [OF inv n, of flags] get by auto
  have inv': "palloc_inv s'" using palloc_get_multiple_inv [OF inv get] .
  have sel: "selected_pool s' flags = ?p\<lparr>used_map := um\<rparr>"
    by (subst k(6)) simp
  have fits: "k + n \<le> bit_cnt (used_map ?p)" using k(2) by (simp add: is_group_def)
  have page: "pool_page (selected_pool s' flags) k = pages"
    using k(1) sel by (simp add: pool_page_def)
  have used: "is_group (pool_used (selected_pool s' flags)) k n True"
    using sel k(5) fits by (simp add: is_group_fill)
  obtain um2 where f: "palloc_free_multiple s' pages n =
      Some ((with_pool s' flags ((selected_pool s' flags)\<lparr>used_map := um2\<rparr>))\<lparr>mem :=
        mem_set (mem s') pages 0xcc (PGSIZE * n)\<rparr>)"
    "bm_inv um2" "bit_cnt um2 = bit_cnt um" "bm_abs um2 = fill (bm_abs um) k n False"
    using palloc_free_multiple_spec [OF inv' n, of k flags] used fits page sel k(4) by auto
  have restored: "bm_abs um2 = pool_used ?p"
    using f(4) k(5) fits fill_fill [of k n "pool_used ?p" True False] fill_id [OF k(2)] by simp
  let ?s2 = "(with_pool s' flags ((selected_pool s' flags)\<lparr>used_map := um2\<rparr>))\<lparr>mem :=
        mem_set (mem s') pages 0xcc (PGSIZE * n)\<rparr>"
  have "palloc_inv ?s2"
    using inv' pinv sel f(2,3) k(3,4) by (auto intro!: palloc_inv_with_pool simp: pool_inv_def)
  moreover have "pool_used (kernel_pool ?s2) = pool_used (kernel_pool s)"
    "pool_used (user_pool ?s2) = pool_used (user_pool s)"
    using restored unfolding sel by (subst k(6), auto simp: with_pool_def selected_pool_def)+
  ultimately show ?thesis using f(1) by blast
qed

section \<open>Initialisation\<close>

lemma DIV_ROUND_UP_small: "x + step \<le> 2 ^ 32 \<Longrightarrow> 0 < step \<Longrightarrow> DIV_ROUND_UP x step = (x + (step - 1)) div step"
  by (simp add: DIV_ROUND_UP_def add32_def)

lemma elem_cnt_small: "n + 32 \<le> 2 ^ 32 \<Longrightarrow> elem_cnt n = (n + 31) div 32"
  by (simp add: elem_cnt_def ELEM_BITS_def DIV_ROUND_UP_small)

text \<open>Pages that a pool of \<open>n\<close> pages spends on its own bitmap.\<close>

definition bitmap_pages :: "nat \<Rightarrow> nat" where
  "bitmap_pages n = (8 + 4 * ((n + 31) div 32) + 4095) div 4096"

lemma bitmap_pages_eq: "n \<le> 2 ^ 20 \<Longrightarrow> DIV_ROUND_UP (bitmap_buf_size n) PGSIZE = bitmap_pages n"
  unfolding bitmap_buf_size_def byte_cnt_def
  by (simp add: elem_cnt_small PGSIZE_def DIV_ROUND_UP_small bitmap_pages_def)

lemma init_pool_spec:
  assumes n: "n \<le> 2 ^ 20" and base: "pg_ofs base = 0" "base \<noteq> 0"
    and fits: "unat base + PGSIZE * n \<le> 2 ^ 32 - PGSIZE"
  shows "if n < bitmap_pages n then init_pool m base n = None
    else \<exists>p. init_pool m base n = Some p \<and> pool_inv p \<and>
      unat (pool_base p) = unat base + PGSIZE * bitmap_pages n \<and>
      pool_used p = replicate (n - bitmap_pages n) False \<and> bit_cnt (used_map p) = n - bitmap_pages n"
proof -
  let ?b = "bitmap_pages n"
  let ?block = "map (\<lambda>i. load32 m (base + of_nat (8 + 4 * i))) [0..<(?b * PGSIZE - 8) div 4]"
  have b: "4096 * ?b \<ge> 8 + 4 * ((n + 31) div 32)" by (simp add: bitmap_pages_def)
  moreover have "(4096 * ?b - 8) div 4 = 1024 * ?b - 2" by linarith
  ultimately have len: "n - ?b \<le> 32 * length ?block"
    by (simp add: PGSIZE_def mult.commute)
  have small: "n - ?b < BITMAP_ERROR" using n by (simp add: BITMAP_ERROR_def)
  have "elem_cnt (n - ?b) \<le> (n + 31) div 32"
    using n by (subst elem_cnt_small) (auto intro: div_le_mono)
  then have size: "bitmap_buf_size (n - ?b) \<le> ?b * PGSIZE"
    using b by (simp add: bitmap_buf_size_def byte_cnt_def PGSIZE_def)
  obtain um where um: "bitmap_create_in_buf (n - ?b) ?block (?b * PGSIZE) = Some um" "bm_inv um"
      "bit_cnt um = n - ?b" "bm_abs um = replicate (n - ?b) False"
    using bitmap_create_in_buf_abs [OF len small] size by auto
  show ?thesis
  proof (cases "n < ?b")
    case True
    then show ?thesis using bitmap_pages_eq [OF n] by (simp add: init_pool_def)
  next
    case False
    let ?p = "\<lparr>used_map = um, pool_base = base + of_nat (?b * PGSIZE)\<rparr>"
    have le: "unat base + PGSIZE * ?b \<le> 2 ^ 32 - PGSIZE" using fits False by (simp add: PGSIZE_def)
    then have "unat (base + of_nat (?b * PGSIZE)) = unat base + unat (of_nat (?b * PGSIZE) :: u32)"
      by (intro unat_add_small, subst unat_of_nat_small) (simp_all add: PGSIZE_def)
    moreover have "unat (of_nat (?b * PGSIZE) :: u32) = ?b * PGSIZE"
      using le by (intro unat_of_nat_small) (simp add: PGSIZE_def)
    ultimately have ub: "unat (pool_base ?p) = unat base + PGSIZE * ?b" by (simp add: mult.commute)
    have "PGSIZE dvd unat (pool_base ?p)"
      using base(1) unfolding ub by (simp add: pg_aligned_iff)
    moreover have "unat (pool_base ?p) \<noteq> 0" using ub base(2) by (simp add: unat_eq_zero)
    ultimately have "pool_inv ?p"
      using um(2,3) ub fits False by (auto simp: pool_inv_def pg_aligned_iff PGSIZE_def)
    then show ?thesis using um ub False bitmap_pages_eq [OF n] by (simp add: init_pool_def Let_def)
  qed
qed

lemma palloc_init_spec:
  fixes r :: u32 and limit :: nat and m :: memory
  assumes r: "256 \<le> unat r" "unat r < 0x3ffff"
  defines "n \<equiv> unat r - 256" and "u \<equiv> min ((unat r - 256) div 2) limit"
  shows "if n - u < bitmap_pages (n - u) \<or> u < bitmap_pages u
    then palloc_init m r limit = None
    else \<exists>s. palloc_init m r limit = Some s \<and> palloc_inv s \<and>
      pool_used (kernel_pool s) = replicate (n - u - bitmap_pages (n - u)) False \<and>
      pool_used (user_pool s) = replicate (u - bitmap_pages u) False"
proof -
  have ram: "unat (r * of_nat PGSIZE) = unat r * PGSIZE"
    using r by (subst unat_mult_lem [THEN iffD1]) (simp_all add: PGSIZE_def)
  then have end_ok: "r * of_nat PGSIZE < PHYS_BASE"
    using r by (simp add: word_less_nat_alt PHYS_BASE_def PGSIZE_def)
  define fs fe where "fs = 1024 * 1024 + PHYS_BASE" and "fe = r * of_nat PGSIZE + PHYS_BASE"
  have ufs: "unat fs = 0xc0100000" by (simp add: fs_def PHYS_BASE_def)
  have ptov1: "ptov (1024 * 1024) = Some fs" by (simp add: ptov_def fs_def PHYS_BASE_def)
  have ptov2: "ptov (r * of_nat PGSIZE) = Some fe" using end_ok by (simp add: ptov_def fe_def)
  have "unat (fe - fs) = n * PGSIZE"
  proof -
    have "fe - fs = r * of_nat PGSIZE - 0x100000" by (simp add: fe_def fs_def)
    moreover have "(0x100000 :: u32) \<le> r * of_nat PGSIZE"
      using r ram by (simp add: word_le_nat_alt PGSIZE_def)
    ultimately have "unat (fe - fs) = unat (r * of_nat PGSIZE) - 0x100000" by (simp add: unat_sub)
    then show ?thesis using ram r by (simp add: n_def PGSIZE_def)
  qed
  moreover have nb: "n * PGSIZE < 2 ^ 31" using r by (simp add: n_def PGSIZE_def)
  ultimately have "sint (fe - fs) = int (n * PGSIZE)"
    by (simp add: sint_uint uint_nat signed_take_bit_int_eq_self del: of_nat_mult)
  then have "ptrdiff_div (fe - fs) (int PGSIZE) = of_nat n"
    by (simp add: ptrdiff_div_def PGSIZE_def sgn_if)
  then have fp: "unat (ptrdiff_div (fe - fs) (int PGSIZE)) = n"
    using nb by (simp add: unat_of_nat_small PGSIZE_def)
  have ub: "u \<le> n div 2" "n - u \<le> 2 ^ 20" "u \<le> 2 ^ 20" "n \<le> 0x3fefe"
    using r by (auto simp: u_def n_def)
  have uf: "unat (of_nat ((n - u) * PGSIZE) :: u32) = (n - u) * PGSIZE"
    using ub by (intro unat_of_nat_small) (simp add: PGSIZE_def)
  define us where "us = fs + of_nat ((n - u) * PGSIZE)"
  have uus: "unat us = 0xc0100000 + (n - u) * PGSIZE"
    unfolding us_def using ub uf ufs by (subst unat_add_small) (simp_all add: PGSIZE_def)
  have base: "pg_ofs fs = 0" "fs \<noteq> 0" "pg_ofs us = 0" "us \<noteq> 0"
    using ufs uus by (auto simp: pg_aligned_iff PGSIZE_def)
  have fits: "unat fs + PGSIZE * (n - u) \<le> 2 ^ 32 - PGSIZE" "unat us + PGSIZE * u \<le> 2 ^ 32 - PGSIZE"
    using ufs uus ub by (simp_all add: PGSIZE_def)
  have run: "palloc_init m r limit = do {
      kp \<leftarrow> init_pool m fs (n - u); up \<leftarrow> init_pool m us u;
      Some \<lparr>kernel_pool = kp, user_pool = up, mem = m\<rparr> }"
    by (simp add: palloc_init_def ptov1 [simplified] ptov2 fp Let_def us_def u_def n_def del: of_nat_mult)
  note k = init_pool_spec [OF ub(2) base(1,2) fits(1), of m]
    and us = init_pool_spec [OF ub(3) base(3,4) fits(2), of m]
  show ?thesis
  proof (cases "n - u < bitmap_pages (n - u) \<or> u < bitmap_pages u")
    case True
    then show ?thesis using run k us by (auto split: if_splits)
  next
    case False
    then obtain kp up where p: "init_pool m fs (n - u) = Some kp" "init_pool m us u = Some up"
      "pool_inv kp" "pool_inv up" "unat (pool_base kp) = unat fs + PGSIZE * bitmap_pages (n - u)"
      "unat (pool_base up) = unat us + PGSIZE * bitmap_pages u"
      "pool_used kp = replicate (n - u - bitmap_pages (n - u)) False"
      "pool_used up = replicate (u - bitmap_pages u) False"
      "bit_cnt (used_map kp) = n - u - bitmap_pages (n - u)"
      using k us by auto
    have "palloc_inv \<lparr>kernel_pool = kp, user_pool = up, mem = m\<rparr>"
      using p(3-6,9) False ufs uus
        by (simp add: palloc_inv_def PGSIZE_def del: diff_diff_left, linarith)
    then show ?thesis using run p False by simp
  qed
qed

section \<open>Properties\<close>

text \<open>A group that was handed out is disjoint from the next one.\<close>

lemma get_group:
  assumes inv: "palloc_inv s" and get: "palloc_get_multiple s flags n = Some (pages, s')"
    and ok: "pages \<noteq> 0"
  shows "\<exists>k um. pages = pool_page (selected_pool s flags) k \<and>
    is_group (pool_used (selected_pool s flags)) k n False \<and> 0 < n \<and>
    bit_cnt um = bit_cnt (used_map (selected_pool s flags)) \<and>
    bm_abs um = fill (pool_used (selected_pool s flags)) k n True \<and>
    s' = (with_pool s flags ((selected_pool s flags)\<lparr>used_map := um\<rparr>))\<lparr>mem :=
      (if flags AND PAL_ZERO \<noteq> 0 then mem_set (mem s) pages 0 (PGSIZE * n) else mem s)\<rparr>"
proof -
  have n: "0 < n" using get ok by (cases "n = 0") (auto simp: palloc_get_multiple_def Let_def)
  then have ex: "\<exists>k. is_group (pool_used (selected_pool s flags)) k n False"
    using palloc_get_multiple_spec [OF inv n, of flags] get ok by (auto split: if_splits)
  obtain k um s2 where g: "palloc_get_multiple s flags n = Some (pool_page (selected_pool s flags) k, s2)"
    "is_group (pool_used (selected_pool s flags)) k n False"
    "bit_cnt um = bit_cnt (used_map (selected_pool s flags))"
    "bm_abs um = fill (pool_used (selected_pool s flags)) k n True"
    "s2 = (with_pool s flags ((selected_pool s flags)\<lparr>used_map := um\<rparr>))\<lparr>mem :=
      (if flags AND PAL_ZERO \<noteq> 0 then mem_set (mem s) (pool_page (selected_pool s flags) k) 0 (PGSIZE * n)
       else mem s)\<rparr>"
    using palloc_get_multiple_spec [OF inv n, of flags] unfolding if_P [OF ex] by blast
  then have "pages = pool_page (selected_pool s flags) k" "s' = s2" using get by simp_all
  then show ?thesis using g(2-5) n by blast
qed

lemma group_range:
  assumes "pool_inv p" "is_group (pool_used p) k n v" "0 < n"
  shows "unat (pool_page p k) = unat (pool_base p) + PGSIZE * k"
    "unat (pool_page p k) + PGSIZE * n \<le> unat (pool_base p) + PGSIZE * bit_cnt (used_map p)"
proof -
  have k: "k + n \<le> bit_cnt (used_map p)" using assms(2) by (simp add: is_group_def)
  then show u: "unat (pool_page p k) = unat (pool_base p) + PGSIZE * k"
    by (intro unat_pool_page [OF assms(1)]) simp
  have "PGSIZE * (k + n) \<le> PGSIZE * bit_cnt (used_map p)" using k by simp
  then show "unat (pool_page p k) + PGSIZE * n \<le> unat (pool_base p) + PGSIZE * bit_cnt (used_map p)"
    using u by (simp add: distrib_left)
qed

lemma groups_apart:
  assumes "is_group (fill xs k n True) j m False" "is_group xs k n False" "0 < n" "0 < m"
  shows "k + n \<le> j \<or> j + m \<le> k"
proof (rule ccontr)
  assume "\<not> ?thesis"
  then have "max k j < k + n" "k \<le> max k j" "j \<le> max k j" "max k j < j + m" using assms by auto
  moreover have "max k j < length xs" using assms(2) calculation by (simp add: is_group_def)
  ultimately show False
    using is_group_nth [OF assms(1), of "max k j"] assms(2)
    by (simp add: nth_fill is_group_def)
qed

text \<open>C3: Two allocations never overlap: pages returned by one \<open>palloc_get_multiple\<close> and by the
  next, whatever pools the two ask for, occupy disjoint ranges of memory.\<close>

theorem palloc_allocations_disjoint:
  assumes inv: "palloc_inv s"
    and get1: "palloc_get_multiple s flags n = Some (p, s')" and p: "p \<noteq> 0"
    and get2: "palloc_get_multiple s' flags' m = Some (q, s'')" and q: "q \<noteq> 0"
  shows "unat p + PGSIZE * n \<le> unat q \<or> unat q + PGSIZE * m \<le> unat p"
proof -
  let ?p = "selected_pool s flags" and ?q = "selected_pool s' flags'"
  obtain k um where k: "p = pool_page ?p k" "is_group (pool_used ?p) k n False" "0 < n"
    "bit_cnt um = bit_cnt (used_map ?p)" "bm_abs um = fill (pool_used ?p) k n True"
    "s' = (with_pool s flags (?p\<lparr>used_map := um\<rparr>))\<lparr>mem :=
      (if flags AND PAL_ZERO \<noteq> 0 then mem_set (mem s) p 0 (PGSIZE * n) else mem s)\<rparr>"
    using get_group [OF inv get1 p] by blast
  have inv': "palloc_inv s'" using palloc_get_multiple_inv [OF inv get1] .
  obtain j where j: "q = pool_page ?q j" "is_group (pool_used ?q) j m False" "0 < m"
    using get_group [OF inv' get2 q] by blast
  note rp = group_range [OF palloc_inv_selected [OF inv] k(2,3)]
    and rq = group_range [OF palloc_inv_selected [OF inv'] j(2,3)]
  show ?thesis
  proof (cases "(flags AND PAL_USER \<noteq> 0) = (flags' AND PAL_USER \<noteq> 0)")
    case True
    then have sel: "?q = ?p\<lparr>used_map := um\<rparr>"
      by (subst k(6)) (simp add: selected_pool_def with_pool_def)
    then have "is_group (fill (pool_used ?p) k n True) j m False" using j(2) k(5) by simp
    then have "k + n \<le> j \<or> j + m \<le> k" using groups_apart k(2,3) j(3) by blast
    moreover have "unat q = unat (pool_base ?p) + PGSIZE * j" using rq(1) j(1) sel by simp
    ultimately show ?thesis using rp(1) k(1) by (auto simp: PGSIZE_def)
  next
    case False
    then have sel: "?q = selected_pool s flags'"
      by (subst k(6)) (simp add: selected_pool_def with_pool_def)
    show ?thesis
      using rp rq inv False unfolding k(1) [symmetric] j(1) [symmetric] unfolding sel
      by (auto simp: palloc_inv_def selected_pool_def PGSIZE_def split: if_splits)
  qed
qed

text \<open>A machine with two free pages per pool.\<close>

definition demo_pool :: "u32 \<Rightarrow> pool" where
  "demo_pool base = \<lparr>used_map = \<lparr>bit_cnt = 2, bits = [0]\<rparr>, pool_base = base\<rparr>"

definition demo_palloc :: palloc where
  "demo_palloc = \<lparr>kernel_pool = demo_pool 0xc0101000, user_pool = demo_pool 0xc0104000, mem = (\<lambda>_. 7)\<rparr>"

lemma demo_palloc_inv: "palloc_inv demo_palloc"
  by (simp add: palloc_inv_def pool_inv_def demo_palloc_def demo_pool_def bm_inv_def BITMAP_ERROR_def
      pg_aligned_iff PGSIZE_def)

lemma demo_get:
  "palloc_get_multiple demo_palloc 0 1 = Some (0xc0101000,
     demo_palloc\<lparr>kernel_pool := \<lparr>used_map = \<lparr>bit_cnt = 2, bits = [1]\<rparr>, pool_base = 0xc0101000\<rparr>\<rparr>)"
  "palloc_get_multiple (demo_palloc\<lparr>kernel_pool :=
      \<lparr>used_map = \<lparr>bit_cnt = 2, bits = [1]\<rparr>, pool_base = 0xc0101000\<rparr>\<rparr>) 0 1 = Some (0xc0102000,
     demo_palloc\<lparr>kernel_pool := \<lparr>used_map = \<lparr>bit_cnt = 2, bits = [3]\<rparr>, pool_base = 0xc0101000\<rparr>\<rparr>)"
  by (simp_all add: palloc_get_multiple_def demo_palloc_def demo_pool_def Let_def PAL_USER_def
      PAL_ZERO_def bitmap_scan_and_flip_def bitmap_scan_def bitmap_contains_def bitmap_set_multiple_def
      bitmap_test_def bitmap_set_def bitmap_mark_def bitmap_reset_def upd_elem_def elem_idx_def bit_mask_def
      ELEM_BITS_def add32_def scan_loop_numeral bitmap_size_def BITMAP_ERROR_def PGSIZE_def)

theorem palloc_allocations_disjoint_witness:
  "unat (0xc0101000 :: u32) + PGSIZE * 1 \<le> unat (0xc0102000 :: u32) \<or>
   unat (0xc0102000 :: u32) + PGSIZE * 1 \<le> unat (0xc0101000 :: u32)"
  by (rule palloc_allocations_disjoint [OF demo_palloc_inv demo_get(1) _ demo_get(2)]) simp_all

text \<open>Allocation then release is the identity on the allocator: releasing the pages that
  \<open>palloc_get_multiple\<close> returned succeeds, gives both pools the free pages they had, and keeps the
  pools well formed.\<close>

theorem palloc_get_then_free:
  assumes "palloc_inv s" "palloc_get_multiple s flags n = Some (pages, s')" "pages \<noteq> 0"
  shows "\<exists>s''. palloc_free_multiple s' pages n = Some s'' \<and>
    pool_used (kernel_pool s'') = pool_used (kernel_pool s) \<and>
    pool_used (user_pool s'') = pool_used (user_pool s) \<and> palloc_inv s''"
  using assms by (rule get_free_used)

theorem palloc_get_then_free_witness:
  "\<exists>s''. palloc_free_multiple (demo_palloc\<lparr>kernel_pool :=
      \<lparr>used_map = \<lparr>bit_cnt = 2, bits = [1]\<rparr>, pool_base = 0xc0101000\<rparr>\<rparr>) 0xc0101000 1 = Some s'' \<and>
    pool_used (kernel_pool s'') = pool_used (kernel_pool demo_palloc) \<and>
    pool_used (user_pool s'') = pool_used (user_pool demo_palloc) \<and> palloc_inv s''"
  using palloc_get_then_free [OF demo_palloc_inv demo_get(1)] by simp

text \<open>Release of pages that are not all allocated panics: freeing a page twice, or a group that
  reaches into free pages, stops the kernel instead of corrupting the bitmap.\<close>

theorem palloc_double_free_panics:
  assumes "palloc_inv s" "0 < n" "k + n \<le> bit_cnt (used_map (selected_pool s flags))"
    "\<not> is_group (pool_used (selected_pool s flags)) k n True"
  shows "palloc_free_multiple s (pool_page (selected_pool s flags) k) n = None"
  using palloc_free_multiple_spec [OF assms(1-3)] assms(4) by simp

theorem palloc_double_free_panics_witness:
  "palloc_free_multiple demo_palloc (pool_page (selected_pool demo_palloc PAL_USER) 1) 1 = None"
  by (rule palloc_double_free_panics [OF demo_palloc_inv])
    (simp_all add: demo_palloc_def demo_pool_def selected_pool_def PAL_USER_def is_group_def bm_abs_def
      bm_bit_def elem_idx_def ELEM_BITS_def)

text \<open>\<open>palloc_init\<close> on a machine with between 1 MB and just under 1 GB of memory: half of the
  pages above 1 MB, at most the limit, go to the user pool and the rest to the kernel pool, each
  less the pages its own bitmap needs; the pools are well formed and disjoint and all their pages
  are free. It panics exactly when one of the pools cannot hold its own bitmap.\<close>

theorem palloc_init_pools:
  assumes "256 \<le> unat r" "unat r < 0x3ffff" "u = min ((unat r - 256) div 2) limit"
    "n = unat r - 256 - u"
  shows "if n < bitmap_pages n \<or> u < bitmap_pages u
    then palloc_init m r limit = None
    else \<exists>s. palloc_init m r limit = Some s \<and> palloc_inv s \<and>
      pool_used (kernel_pool s) = replicate (n - bitmap_pages n) False \<and>
      pool_used (user_pool s) = replicate (u - bitmap_pages u) False"
  using palloc_init_spec [OF assms(1,2), of limit m]
  unfolding assms(3) [symmetric] assms(4) [symmetric] .

theorem palloc_init_pools_witness:
  "\<exists>s. palloc_init (\<lambda>_. 0) 1024 0xffffffff = Some s \<and> palloc_inv s \<and>
    pool_used (kernel_pool s) = replicate 383 False \<and> pool_used (user_pool s) = replicate 383 False"
  using palloc_init_pools [of 1024 384 "0xffffffff" 384 "\<lambda>_. 0"] by (simp add: bitmap_pages_def)

end
