(* ===== verification/Kernel_Thread.thy ===== *)
theory Kernel_Thread
  imports Kernel_Memory Kernel_Queue
begin

text \<open>
  Interrupt state, threads and the scheduler: \<open>threads/interrupt.c\<close> and \<open>threads/thread.c\<close>.

  The machine has one processor. \<open>running\<close> is the thread whose page the stack pointer is in;
  \<open>switch_threads\<close> replaces it. The ready list and the list of all threads are sequences of
  thread addresses: \<open>Kernel_Queue\<close> shows that the pointer lists behave as such as long as no
  element is inserted while it is linked, and \<open>list_push\<close> is undefined otherwise.

  A function that calls \<open>schedule\<close> does not return in its caller's context; what the caller
  still has to do, restore the interrupt level, is kept per thread in \<open>saved_level\<close> and done by
  \<open>thread_resume\<close> when the thread runs again.

  \<open>sched_inv\<close> is the invariant of the scheduler. The lemmas show that every operation keeps
  it, never panics under it, and that the processor is handed over in first-in first-out order.
\<close>

section \<open>Threads and the processor\<close>

datatype thread_status = THREAD_RUNNING | THREAD_READY | THREAD_BLOCKED | THREAD_DYING

definition TID_ERROR :: int where "TID_ERROR = -1"
definition PRI_MIN :: int where "PRI_MIN = 0"
definition PRI_DEFAULT :: int where "PRI_DEFAULT = 31"
definition PRI_MAX :: int where "PRI_MAX = 63"
definition THREAD_MAGIC :: u32 where "THREAD_MAGIC = 0xcd6abf4b"
definition TIME_SLICE :: u32 where "TIME_SLICE = 4"

record kernel_thread_frame =
  kf_eip :: addr
  kf_function :: addr
  kf_aux :: addr

record thread =
  th_tid :: int
  th_status :: thread_status
  th_name :: string
  th_stack :: nat
  th_priority :: int
  th_pcb :: addr
  th_magic :: u32
  th_kf :: "kernel_thread_frame option"

datatype sched_policy = SCHED_FIFO | SCHED_PRIO | SCHED_FAIR | SCHED_MLFQS | SCHED_RESERVED

record kernel =
  ths :: "addr \<rightharpoonup> thread"
  running :: addr
  ready :: "addr list"
  all_list :: "addr list"
  idle_thread :: addr
  initial_thread :: addr
  next_tid :: int
  active_sched_policy :: sched_policy
  thread_ticks :: u32
  idle_ticks :: int
  kernel_ticks :: int
  user_ticks :: int
  intr_on :: bool
  in_external_intr :: bool
  yield_on_return :: bool
  unexpected_cnt :: "nat \<Rightarrow> u32"
  saved_level :: "addr \<Rightarrow> bool option"

section \<open>Interrupt level\<close>

definition intr_get_level :: "('a) kernel_scheme \<Rightarrow> bool" where
  "intr_get_level s = intr_on s"

definition intr_context :: "('a) kernel_scheme \<Rightarrow> bool" where
  "intr_context s = in_external_intr s"

definition intr_enable :: "('a) kernel_scheme \<Rightarrow> (bool \<times> ('a) kernel_scheme) option" where
  "intr_enable s = do {
     let old_level = intr_get_level s;
     ASSERT (\<not> intr_context s);
     Some (old_level, s\<lparr>intr_on := True\<rparr>) }"

definition intr_disable :: "('a) kernel_scheme \<Rightarrow> bool \<times> ('a) kernel_scheme" where
  "intr_disable s = (intr_get_level s, s\<lparr>intr_on := False\<rparr>)"

definition intr_set_level :: "('a) kernel_scheme \<Rightarrow> bool \<Rightarrow> (bool \<times> ('a) kernel_scheme) option" where
  "intr_set_level s level = (if level then intr_enable s else Some (intr_disable s))"

definition intr_yield_on_return :: "('a) kernel_scheme \<Rightarrow> ('a) kernel_scheme option" where
  "intr_yield_on_return s = do { ASSERT (intr_context s); Some (s\<lparr>yield_on_return := True\<rparr>) }"

section \<open>Thread structures\<close>

definition status :: "('a) kernel_scheme \<Rightarrow> addr \<Rightarrow> thread_status option" where
  "status s t = map_option th_status (ths s t)"

definition upd_thread :: "('a) kernel_scheme \<Rightarrow> addr \<Rightarrow> (thread \<Rightarrow> thread) \<Rightarrow> ('a) kernel_scheme" where
  "upd_thread s t f = s\<lparr>ths := (ths s)(t := map_option f (ths s t))\<rparr>"

definition set_status :: "('a) kernel_scheme \<Rightarrow> addr \<Rightarrow> thread_status \<Rightarrow> ('a) kernel_scheme" where
  "set_status s t st = upd_thread s t (\<lambda>th. th\<lparr>th_status := st\<rparr>)"

definition list_push :: "addr list \<Rightarrow> addr \<Rightarrow> addr list option" where
  "list_push xs e = (if e \<in> set xs then None else Some (xs @ [e]))"

definition is_thread :: "('a) kernel_scheme \<Rightarrow> addr \<Rightarrow> bool" where
  "is_thread s t = (t \<noteq> NULL \<and> (case ths s t of None \<Rightarrow> False | Some th \<Rightarrow> th_magic th = THREAD_MAGIC))"

definition running_thread :: "('a) kernel_scheme \<Rightarrow> addr" where
  "running_thread s = running s"

definition thread_current :: "('a) kernel_scheme \<Rightarrow> addr option" where
  "thread_current s = do {
     let t = running_thread s;
     ASSERT (is_thread s t);
     ASSERT (status s t = Some THREAD_RUNNING);
     Some t }"

definition thread_tid :: "('a) kernel_scheme \<Rightarrow> int option" where
  "thread_tid s = do { t \<leftarrow> thread_current s; th \<leftarrow> ths s t; Some (th_tid th) }"

definition thread_name :: "('a) kernel_scheme \<Rightarrow> string option" where
  "thread_name s = do { t \<leftarrow> thread_current s; th \<leftarrow> ths s t; Some (th_name th) }"

definition thread_get_priority :: "('a) kernel_scheme \<Rightarrow> int option" where
  "thread_get_priority s = do { t \<leftarrow> thread_current s; th \<leftarrow> ths s t; Some (th_priority th) }"

definition thread_set_priority :: "('a) kernel_scheme \<Rightarrow> int \<Rightarrow> ('a) kernel_scheme option" where
  "thread_set_priority s p = do {
     t \<leftarrow> thread_current s; Some (upd_thread s t (\<lambda>th. th\<lparr>th_priority := p\<rparr>)) }"

text \<open>The advanced scheduler's getters and setter are stubs in the code.\<close>

definition thread_set_nice :: "('a) kernel_scheme \<Rightarrow> int \<Rightarrow> ('a) kernel_scheme" where
  "thread_set_nice s nice = s"

definition thread_get_nice :: "('a) kernel_scheme \<Rightarrow> int" where "thread_get_nice s = 0"
definition thread_get_load_avg :: "('a) kernel_scheme \<Rightarrow> int" where "thread_get_load_avg s = 0"
definition thread_get_recent_cpu :: "('a) kernel_scheme \<Rightarrow> int" where "thread_get_recent_cpu s = 0"

definition init_thread :: "('a) kernel_scheme \<Rightarrow> addr \<Rightarrow> string option \<Rightarrow> int \<Rightarrow> ('a) kernel_scheme option" where
  "init_thread s t name priority = do {
     ASSERT (t \<noteq> NULL);
     ASSERT (PRI_MIN \<le> priority \<and> priority \<le> PRI_MAX);
     nm \<leftarrow> name;
     let th = \<lparr>th_tid = 0, th_status = THREAD_BLOCKED, th_name = take 15 nm, th_stack = t + PGSIZE,
               th_priority = priority, th_pcb = NULL, th_magic = THREAD_MAGIC, th_kf = None\<rparr>;
     let s = s\<lparr>ths := (ths s)(t \<mapsto> th)\<rparr>;
     let (old_level, s) = intr_disable s;
     al \<leftarrow> list_push (all_list s) t;
     (_, s) \<leftarrow> intr_set_level (s\<lparr>all_list := al\<rparr>) old_level;
     Some s }"

text \<open>The counter is protected by \<open>tid_lock\<close>; a step of this model runs with the lock held.\<close>

definition allocate_tid :: "('a) kernel_scheme \<Rightarrow> int \<times> ('a) kernel_scheme" where
  "allocate_tid s = (next_tid s, s\<lparr>next_tid := next_tid s + 1\<rparr>)"

definition alloc_frame :: "('a) kernel_scheme \<Rightarrow> addr \<Rightarrow> nat \<Rightarrow> (nat \<times> ('a) kernel_scheme) option" where
  "alloc_frame s t bytes = do {
     ASSERT (is_thread s t);
     ASSERT (bytes mod 4 = 0);
     th \<leftarrow> ths s t;
     Some (th_stack th - bytes, upd_thread s t (\<lambda>th. th\<lparr>th_stack := th_stack th - bytes\<rparr>)) }"

section \<open>The scheduler\<close>

definition thread_schedule_fifo :: "('a) kernel_scheme \<Rightarrow> (addr \<times> ('a) kernel_scheme) option" where
  "thread_schedule_fifo s = (case ready s of
     t # ts \<Rightarrow> Some (t, s\<lparr>ready := ts\<rparr>)
   | [] \<Rightarrow> Some (idle_thread s, s))"

definition thread_schedule_prio :: "('a) kernel_scheme \<Rightarrow> (addr \<times> ('a) kernel_scheme) option" where
  "thread_schedule_prio s = None"
definition thread_schedule_fair :: "('a) kernel_scheme \<Rightarrow> (addr \<times> ('a) kernel_scheme) option" where
  "thread_schedule_fair s = None"
definition thread_schedule_mlfqs :: "('a) kernel_scheme \<Rightarrow> (addr \<times> ('a) kernel_scheme) option" where
  "thread_schedule_mlfqs s = None"
definition thread_schedule_reserved :: "('a) kernel_scheme \<Rightarrow> (addr \<times> ('a) kernel_scheme) option" where
  "thread_schedule_reserved s = None"

definition next_thread_to_run :: "('a) kernel_scheme \<Rightarrow> (addr \<times> ('a) kernel_scheme) option" where
  "next_thread_to_run s = (case active_sched_policy s of
     SCHED_FIFO \<Rightarrow> thread_schedule_fifo s
   | SCHED_PRIO \<Rightarrow> thread_schedule_prio s
   | SCHED_FAIR \<Rightarrow> thread_schedule_fair s
   | SCHED_MLFQS \<Rightarrow> thread_schedule_mlfqs s
   | SCHED_RESERVED \<Rightarrow> thread_schedule_reserved s)"

text \<open>A destroyed thread's page goes back to the page allocator: the thread is gone.\<close>

definition thread_switch_tail :: "('a) kernel_scheme \<Rightarrow> addr \<Rightarrow> ('a) kernel_scheme option" where
  "thread_switch_tail s prev = do {
     let cur = running_thread s;
     ASSERT (\<not> intr_get_level s);
     let s = set_status s cur THREAD_RUNNING;
     let s = s\<lparr>thread_ticks := 0\<rparr>;
     if prev \<noteq> NULL \<and> status s prev = Some THREAD_DYING \<and> prev \<noteq> initial_thread s
     then do { ASSERT (prev \<noteq> cur); Some (s\<lparr>ths := (ths s)(prev := None)\<rparr>) }
     else Some s }"

definition schedule :: "('a) kernel_scheme \<Rightarrow> ('a) kernel_scheme option" where
  "schedule s = do {
     let cur = running_thread s;
     (nxt, s) \<leftarrow> next_thread_to_run s;
     ASSERT (\<not> intr_get_level s);
     ASSERT (status s cur \<noteq> Some THREAD_RUNNING);
     ASSERT (is_thread s nxt);
     if cur \<noteq> nxt then thread_switch_tail (s\<lparr>running := nxt\<rparr>) cur
     else thread_switch_tail s NULL }"

section \<open>Thread operations\<close>

definition thread_enqueue :: "('a) kernel_scheme \<Rightarrow> addr \<Rightarrow> ('a) kernel_scheme option" where
  "thread_enqueue s t = do {
     ASSERT (\<not> intr_get_level s);
     ASSERT (is_thread s t);
     if active_sched_policy s = SCHED_FIFO
     then do { r \<leftarrow> list_push (ready s) t; Some (s\<lparr>ready := r\<rparr>) }
     else None }"

definition thread_block :: "('a) kernel_scheme \<Rightarrow> ('a) kernel_scheme option" where
  "thread_block s = do {
     ASSERT (\<not> intr_context s);
     ASSERT (\<not> intr_get_level s);
     t \<leftarrow> thread_current s;
     schedule (set_status s t THREAD_BLOCKED) }"

definition thread_unblock :: "('a) kernel_scheme \<Rightarrow> addr \<Rightarrow> ('a) kernel_scheme option" where
  "thread_unblock s t = do {
     ASSERT (is_thread s t);
     let (old_level, s) = intr_disable s;
     ASSERT (status s t = Some THREAD_BLOCKED);
     s \<leftarrow> thread_enqueue s t;
     (_, s) \<leftarrow> intr_set_level (set_status s t THREAD_READY) old_level;
     Some s }"

definition thread_yield :: "('a) kernel_scheme \<Rightarrow> ('a) kernel_scheme option" where
  "thread_yield s = do {
     cur \<leftarrow> thread_current s;
     ASSERT (\<not> intr_context s);
     let (old_level, s) = intr_disable s;
     s \<leftarrow> (if cur \<noteq> idle_thread s then thread_enqueue s cur else Some s);
     let s = set_status s cur THREAD_READY;
     schedule (s\<lparr>saved_level := (saved_level s)(cur := Some old_level)\<rparr>) }"

definition thread_resume :: "('a) kernel_scheme \<Rightarrow> ('a) kernel_scheme option" where
  "thread_resume s = (case saved_level s (running s) of
     None \<Rightarrow> Some s
   | Some level \<Rightarrow> do {
       (_, s) \<leftarrow> intr_set_level (s\<lparr>saved_level := (saved_level s)(running s := None)\<rparr>) level;
       Some s })"

definition thread_exit :: "('a) kernel_scheme \<Rightarrow> ('a) kernel_scheme option" where
  "thread_exit s = do {
     ASSERT (\<not> intr_context s);
     let (_, s) = intr_disable s;
     t \<leftarrow> thread_current s;
     ASSERT (t \<in> set (all_list s));
     let s = s\<lparr>all_list := remove1 t (all_list s)\<rparr>;
     t \<leftarrow> thread_current s;
     schedule (set_status s t THREAD_DYING) }"

text \<open>
  \<open>page\<close> is the answer of \<open>palloc_get_page\<close>. The initial stack holds the frames of
  \<open>kernel_thread\<close> (12 bytes), \<open>switch_entry\<close> (4) and \<open>switch_threads\<close> (28); the new thread
  starts in \<open>kernel_thread\<close>, which enables interrupts.
\<close>

definition thread_create :: "('a) kernel_scheme \<Rightarrow> addr \<Rightarrow> string option \<Rightarrow> int \<Rightarrow> addr \<Rightarrow> addr \<Rightarrow>
    (int \<times> ('a) kernel_scheme) option" where
  "thread_create s page name priority function aux = do {
     ASSERT (function \<noteq> NULL);
     if page = NULL then Some (TID_ERROR, s)
     else do {
       s \<leftarrow> init_thread s page name priority;
       let (tid, s) = allocate_tid s;
       let s = upd_thread s page (\<lambda>th. th\<lparr>th_tid := tid\<rparr>);
       (kf, s) \<leftarrow> alloc_frame s page 12;
       let s = upd_thread s page
         (\<lambda>th. th\<lparr>th_kf := Some \<lparr>kf_eip = NULL, kf_function = function, kf_aux = aux\<rparr>\<rparr>);
       (ef, s) \<leftarrow> alloc_frame s page 4;
       (sf, s) \<leftarrow> alloc_frame s page 28;
       s \<leftarrow> thread_unblock s page;
       Some (tid, s\<lparr>saved_level := (saved_level s)(page := Some True)\<rparr>) } }"

definition thread_tick :: "('a) kernel_scheme \<Rightarrow> ('a) kernel_scheme option" where
  "thread_tick s = do {
     t \<leftarrow> thread_current s;
     th \<leftarrow> ths s t;
     let s = (if t = idle_thread s then s\<lparr>idle_ticks := idle_ticks s + 1\<rparr>
              else if th_pcb th \<noteq> NULL then s\<lparr>user_ticks := user_ticks s + 1\<rparr>
              else s\<lparr>kernel_ticks := kernel_ticks s + 1\<rparr>);
     let s = s\<lparr>thread_ticks := thread_ticks s + 1\<rparr>;
     if thread_ticks s \<ge> TIME_SLICE then intr_yield_on_return s else Some s }"

fun foreach_loop :: "(addr \<Rightarrow> ('a) kernel_scheme \<Rightarrow> ('a) kernel_scheme option) \<Rightarrow> addr list \<Rightarrow>
    ('a) kernel_scheme \<Rightarrow> ('a) kernel_scheme option" where
  "foreach_loop func [] s = Some s"
| "foreach_loop func (t # ts) s = do { s \<leftarrow> func t s; foreach_loop func ts s }"

definition thread_foreach :: "(addr \<Rightarrow> ('a) kernel_scheme \<Rightarrow> ('a) kernel_scheme option) \<Rightarrow>
    ('a) kernel_scheme \<Rightarrow> ('a) kernel_scheme option" where
  "thread_foreach func s = do { ASSERT (\<not> intr_get_level s); foreach_loop func (all_list s) s }"

text \<open>
  Boot: the code that is already running, on the page \<open>t\<close>, becomes the first thread.
\<close>

definition thread_init :: "('a) kernel_scheme \<Rightarrow> addr \<Rightarrow> ('a) kernel_scheme option" where
  "thread_init s t = do {
     ASSERT (\<not> intr_get_level s);
     let s = s\<lparr>ready := [], all_list := [], running := t\<rparr>;
     let s = s\<lparr>initial_thread := running_thread s\<rparr>;
     s \<leftarrow> init_thread s t (Some ''main'') PRI_DEFAULT;
     let s = set_status s t THREAD_RUNNING;
     let (tid, s) = allocate_tid s;
     Some (upd_thread s t (\<lambda>th. th\<lparr>th_tid := tid\<rparr>)) }"

section \<open>Interrupt dispatch\<close>

text \<open>
  Entry through an interrupt gate clears the interrupt flag; \<open>iret\<close> sets it again when the
  interrupted thread continues, possibly after other threads have run.
\<close>

definition unexpected_interrupt :: "('a) kernel_scheme \<Rightarrow> nat \<Rightarrow> ('a) kernel_scheme" where
  "unexpected_interrupt s vec = s\<lparr>unexpected_cnt := (unexpected_cnt s)(vec := unexpected_cnt s vec + 1)\<rparr>"

definition intr_handler :: "(nat \<Rightarrow> (('a) kernel_scheme \<Rightarrow> ('a) kernel_scheme option) option) \<Rightarrow>
    ('a) kernel_scheme \<Rightarrow> nat \<Rightarrow> ('a) kernel_scheme option" where
  "intr_handler handlers s vec = do {
     let external = (0x20 \<le> vec \<and> vec < 0x30);
     ASSERT (external \<longrightarrow> \<not> intr_get_level s);
     ASSERT (external \<longrightarrow> \<not> intr_context s);
     let s = (if external then s\<lparr>in_external_intr := True, yield_on_return := False\<rparr> else s);
     s \<leftarrow> (case handlers vec of
            Some handler \<Rightarrow> handler s
          | None \<Rightarrow> Some (if vec = 0x27 \<or> vec = 0x2f then s else unexpected_interrupt s vec));
     if external
     then do {
       ASSERT (\<not> intr_get_level s);
       ASSERT (intr_context s);
       let s = s\<lparr>in_external_intr := False\<rparr>;
       if yield_on_return s then thread_yield s else Some s }
     else Some s }"

definition external_interrupt :: "(nat \<Rightarrow> (('a) kernel_scheme \<Rightarrow> ('a) kernel_scheme option) option) \<Rightarrow>
    ('a) kernel_scheme \<Rightarrow> nat \<Rightarrow> ('a) kernel_scheme option" where
  "external_interrupt handlers s vec = do {
     let cur = running s;
     s \<leftarrow> intr_handler handlers (s\<lparr>intr_on := False\<rparr>) vec;
     Some (s\<lparr>saved_level := (saved_level s)(cur := Some True)\<rparr>) }"

section \<open>The scheduler's invariant\<close>

named_theorems sched_defs \<open>parts of the scheduler's invariant\<close>

definition threads_ok :: "('a) kernel_scheme \<Rightarrow> bool" where [sched_defs]:
  "threads_ok s \<longleftrightarrow> (\<forall>t th. ths s t = Some th \<longrightarrow> t \<noteq> NULL \<and> th_magic th = THREAD_MAGIC) \<and>
     status s (idle_thread s) \<notin> {None, Some THREAD_DYING} \<and> active_sched_policy s = SCHED_FIFO"

definition ready_ok :: "('a) kernel_scheme \<Rightarrow> bool" where [sched_defs]:
  "ready_ok s \<longleftrightarrow> distinct (ready s) \<and>
     (\<forall>t. t \<in> set (ready s) \<longleftrightarrow> status s t = Some THREAD_READY \<and> t \<noteq> idle_thread s)"

definition all_ok :: "('a) kernel_scheme \<Rightarrow> bool" where [sched_defs]:
  "all_ok s \<longleftrightarrow> distinct (all_list s) \<and>
     (\<forall>t. t \<in> set (all_list s) \<longleftrightarrow> status s t \<notin> {None, Some THREAD_DYING})"

text \<open>Between a change of the running thread's status and the switch, no thread runs.\<close>

definition sched_pre :: "('a) kernel_scheme \<Rightarrow> bool" where [sched_defs]:
  "sched_pre s \<longleftrightarrow> threads_ok s \<and> ready_ok s \<and> all_ok s \<and> \<not> intr_on s \<and>
     status s (running s) \<noteq> None \<and> (\<forall>t. status s t \<noteq> Some THREAD_RUNNING) \<and>
     (\<forall>t. status s t = Some THREAD_DYING \<longrightarrow> t = running s \<or> t = initial_thread s)"

definition sched_inv :: "('a) kernel_scheme \<Rightarrow> bool" where [sched_defs]:
  "sched_inv s \<longleftrightarrow> threads_ok s \<and> ready_ok s \<and> all_ok s \<and>
     (\<forall>t. status s t = Some THREAD_RUNNING \<longleftrightarrow> t = running s) \<and>
     (\<forall>t. status s t = Some THREAD_DYING \<longrightarrow> t = initial_thread s)"

definition next_up :: "('a) kernel_scheme \<Rightarrow> addr" where
  "next_up s = (case ready s of t # ts \<Rightarrow> t | [] \<Rightarrow> idle_thread s)"

lemma status_upd_thread:
  "status (upd_thread s t f) u = (if u = t then map_option (th_status \<circ> f) (ths s t) else status s u)"
  by (simp add: status_def upd_thread_def option.map_comp)

lemma status_set_status [simp]:
  "status (set_status s t st) u = (if u = t \<and> status s t \<noteq> None then Some st else status s u)"
  by (cases "ths s t") (auto simp: set_status_def status_upd_thread, auto simp: status_def)

lemma upd_thread_fields [simp]:
  "running (upd_thread s t f) = running s" "ready (upd_thread s t f) = ready s"
  "all_list (upd_thread s t f) = all_list s" "idle_thread (upd_thread s t f) = idle_thread s"
  "initial_thread (upd_thread s t f) = initial_thread s" "intr_on (upd_thread s t f) = intr_on s"
  "active_sched_policy (upd_thread s t f) = active_sched_policy s"
  "in_external_intr (upd_thread s t f) = in_external_intr s"
  "saved_level (upd_thread s t f) = saved_level s" "next_tid (upd_thread s t f) = next_tid s"
  "kernel.more (upd_thread s t f) = kernel.more s"
  by (simp_all add: upd_thread_def)

lemma set_status_fields [simp]:
  "running (set_status s t st) = running s" "ready (set_status s t st) = ready s"
  "all_list (set_status s t st) = all_list s" "idle_thread (set_status s t st) = idle_thread s"
  "initial_thread (set_status s t st) = initial_thread s" "intr_on (set_status s t st) = intr_on s"
  "active_sched_policy (set_status s t st) = active_sched_policy s"
  "in_external_intr (set_status s t st) = in_external_intr s"
  "saved_level (set_status s t st) = saved_level s" "next_tid (set_status s t st) = next_tid s"
  "kernel.more (set_status s t st) = kernel.more s"
  by (simp_all add: set_status_def)

lemma status_fields [simp]:
  "status (s\<lparr>running := r\<rparr>) = status s" "status (s\<lparr>ready := q\<rparr>) = status s"
  "status (s\<lparr>thread_ticks := n\<rparr>) = status s" "status (s\<lparr>intr_on := b\<rparr>) = status s"
  "status (s\<lparr>saved_level := f\<rparr>) = status s" "status (s\<lparr>all_list := q\<rparr>) = status s"
  "status (s\<lparr>in_external_intr := b\<rparr>) = status s" "status (s\<lparr>yield_on_return := b\<rparr>) = status s"
  "status (s\<lparr>next_tid := i\<rparr>) = status s" "status (s\<lparr>idle_ticks := i\<rparr>) = status s"
  "status (s\<lparr>kernel_ticks := i\<rparr>) = status s" "status (s\<lparr>user_ticks := i\<rparr>) = status s"
  "status (s\<lparr>unexpected_cnt := c\<rparr>) = status s" "status (s\<lparr>initial_thread := t\<rparr>) = status s"
  by (simp_all add: status_def fun_eq_iff)

lemma status_None: "status s t = None \<longleftrightarrow> ths s t = None"
  by (simp add: status_def)

lemma status_forget [simp]:
  "status (s\<lparr>ths := (ths s)(t := None)\<rparr>) u = (if u = t then None else status s u)"
  "status (s\<lparr>thread_ticks := n, ths := (ths s')(t := None)\<rparr>) u = (if u = t then None else status (s\<lparr>ths := ths s'\<rparr>) u)"
  by (simp_all add: status_def)

lemma threads_ok_set_status:
  "threads_ok s \<Longrightarrow> t \<noteq> idle_thread s \<or> st \<noteq> THREAD_DYING \<Longrightarrow> threads_ok (set_status s t st)"
  by (cases "ths s t") (auto simp: threads_ok_def set_status_def upd_thread_def status_def split: if_splits)

lemma is_thread_ok: "threads_ok s \<Longrightarrow> is_thread s t \<longleftrightarrow> status s t \<noteq> None"
  by (auto simp: is_thread_def threads_ok_def status_def split: option.splits)

lemma threads_ok_nonnull: "threads_ok s \<Longrightarrow> status s t \<noteq> None \<Longrightarrow> t \<noteq> NULL"
  by (auto simp: threads_ok_def status_def)

lemma thread_current_ok:
  assumes "sched_inv s"
  shows "thread_current s = Some (running s)"
proof -
  have st: "status s (running s) = Some THREAD_RUNNING" using assms by (simp add: sched_inv_def)
  moreover have "is_thread s (running s)"
    using assms st by (auto simp: sched_inv_def is_thread_ok)
  ultimately show ?thesis by (simp add: thread_current_def running_thread_def Let_def)
qed

section \<open>Switching\<close>

text \<open>Threads keep everything but their status.\<close>

definition same_threads :: "(addr \<rightharpoonup> thread) \<Rightarrow> (addr \<rightharpoonup> thread) \<Rightarrow> bool" where
  "same_threads m m' \<longleftrightarrow> (\<forall>t th'. m' t = Some th' \<longrightarrow>
     (\<exists>th. m t = Some th \<and> th' = th\<lparr>th_status := th_status th'\<rparr>))"

lemma same_threads_refl [simp]: "same_threads m m"
  by (simp add: same_threads_def)

lemma same_threads_forget: "same_threads m m' \<Longrightarrow> same_threads m (m'(t := None))"
  by (simp add: same_threads_def)

lemma same_threads_set_status [simp]: "same_threads (ths s) (ths (set_status s t st))"
  by (auto simp: same_threads_def set_status_def upd_thread_def)

lemma same_threads_trans: "same_threads m m' \<Longrightarrow> same_threads m' m'' \<Longrightarrow> same_threads m m''"
  unfolding same_threads_def
proof (intro allI impI)
  fix t th''
  assume a: "\<forall>t th'. m' t = Some th' \<longrightarrow> (\<exists>th. m t = Some th \<and> th' = th\<lparr>th_status := th_status th'\<rparr>)"
    "\<forall>t th'. m'' t = Some th' \<longrightarrow> (\<exists>th. m' t = Some th \<and> th' = th\<lparr>th_status := th_status th'\<rparr>)"
    "m'' t = Some th''"
  then obtain th' where th': "m' t = Some th'" "th'' = th'\<lparr>th_status := th_status th''\<rparr>" by blast
  with a(1) obtain th where "m t = Some th" "th' = th\<lparr>th_status := th_status th'\<rparr>" by blast
  with th'(2) show "\<exists>th. m t = Some th \<and> th'' = th\<lparr>th_status := th_status th''\<rparr>"
    by (metis thread.surjective thread.update_convs(2))
qed

lemma same_threads_magic:
  assumes "same_threads m m'" "\<forall>t th. m t = Some th \<longrightarrow> t \<noteq> NULL \<and> th_magic th = THREAD_MAGIC"
  shows "\<forall>t th. m' t = Some th \<longrightarrow> t \<noteq> NULL \<and> th_magic th = THREAD_MAGIC"
proof (intro allI impI)
  fix t th'
  assume "m' t = Some th'"
  then obtain th where th: "m t = Some th" "th' = th\<lparr>th_status := th_status th'\<rparr>"
    using assms(1) unfolding same_threads_def by blast
  then have "th_magic th' = th_magic th" by (metis thread.ext_inject thread.surjective thread.update_convs(2))
  then show "t \<noteq> NULL \<and> th_magic th' = THREAD_MAGIC" using assms(2) th(1) by auto
qed

text \<open>What a switch does to the threads: the next one runs, a dying one is gone.\<close>

definition switched :: "('a) kernel_scheme \<Rightarrow> ('a) kernel_scheme \<Rightarrow> bool" where
  "switched s s' \<longleftrightarrow> running s' = next_up s \<and> ready s' = tl (ready s) \<and>
     (\<forall>t. status s' t = (if t = next_up s then Some THREAD_RUNNING
        else if t = running s \<and> status s t = Some THREAD_DYING \<and> t \<noteq> initial_thread s then None
        else status s t)) \<and>
     same_threads (ths s) (ths s') \<and>
     s' = s\<lparr>ths := ths s', running := running s', ready := ready s', thread_ticks := 0\<rparr>"

lemma switchedI:
  assumes "running s' = next_up s" "ready s' = tl (ready s)"
    "\<And>t. status s' t = (if t = next_up s then Some THREAD_RUNNING
        else if t = running s \<and> status s t = Some THREAD_DYING \<and> t \<noteq> initial_thread s then None
        else status s t)"
    "same_threads (ths s) (ths s')"
    "s' = s\<lparr>ths := ths s', running := running s', ready := ready s', thread_ticks := 0\<rparr>"
  shows "switched s s'"
  unfolding switched_def using assms by blast

lemma switchedD:
  assumes "switched s s'"
  shows "running s' = next_up s" "ready s' = tl (ready s)"
    "status s' t = (if t = next_up s then Some THREAD_RUNNING
        else if t = running s \<and> status s t = Some THREAD_DYING \<and> t \<noteq> initial_thread s then None
        else status s t)"
    "all_list s' = all_list s" "idle_thread s' = idle_thread s" "initial_thread s' = initial_thread s"
    "intr_on s' = intr_on s" "in_external_intr s' = in_external_intr s"
    "saved_level s' = saved_level s" "active_sched_policy s' = active_sched_policy s"
    "kernel.more s' = kernel.more s" "same_threads (ths s) (ths s')"
proof -
  have s': "s' = s\<lparr>ths := ths s', running := running s', ready := ready s', thread_ticks := 0\<rparr>"
    using assms unfolding switched_def by blast
  show "running s' = next_up s" "ready s' = tl (ready s)" "same_threads (ths s) (ths s')"
    "status s' t = (if t = next_up s then Some THREAD_RUNNING
        else if t = running s \<and> status s t = Some THREAD_DYING \<and> t \<noteq> initial_thread s then None
        else status s t)"
    using assms by (simp_all add: switched_def)
  show "all_list s' = all_list s" "idle_thread s' = idle_thread s" "initial_thread s' = initial_thread s"
    "intr_on s' = intr_on s" "in_external_intr s' = in_external_intr s"
    "saved_level s' = saved_level s" "active_sched_policy s' = active_sched_policy s"
    "kernel.more s' = kernel.more s"
    by (subst s', simp)+
qed

lemma schedule_next:
  assumes "active_sched_policy s = SCHED_FIFO"
  shows "next_thread_to_run s = Some (next_up s, s\<lparr>ready := tl (ready s)\<rparr>)"
  using assms by (auto simp: next_thread_to_run_def thread_schedule_fifo_def next_up_def split: list.splits)

lemma next_up_status:
  assumes "threads_ok s" "ready_ok s"
  shows "status s (next_up s) \<notin> {None, Some THREAD_DYING}"
proof (cases "ready s")
  case (Cons t ts)
  then have "t \<in> set (ready s)" by simp
  then have "status s t = Some THREAD_READY" using assms(2) by (simp add: ready_ok_def)
  then show ?thesis using Cons by (simp add: next_up_def)
qed (use assms in \<open>auto simp: next_up_def threads_ok_def\<close>)

lemma schedule_switched:
  fixes s :: "('a) kernel_scheme"
  assumes pre: "sched_pre s"
  shows "\<exists>s'. schedule s = Some s' \<and> switched s s'"
proof -
  let ?n = "next_up s"
  have ok: "threads_ok s" "ready_ok s" "\<not> intr_on s" and run: "status s (running s) \<noteq> Some THREAD_RUNNING"
    using pre by (simp_all add: sched_pre_def)
  note n = next_up_status [OF ok(1,2)]
  have same_st: "ths s1 = ths s \<Longrightarrow> same_threads (ths s) (ths (set_status s1 t st))" for s1 :: "'a kernel_scheme" and t st
    by (metis same_threads_set_status)
  let ?s1 = "s\<lparr>ready := tl (ready s)\<rparr>"
  have "threads_ok ?s1" using ok(1) by (simp add: threads_ok_def)
  then have "is_thread ?s1 ?n" using n by (auto simp: is_thread_ok)
  then have sch: "schedule s = (if running s \<noteq> ?n then thread_switch_tail (?s1\<lparr>running := ?n\<rparr>) (running s)
      else thread_switch_tail ?s1 NULL)"
    using ok run by (simp add: schedule_def schedule_next threads_ok_def running_thread_def
        intr_get_level_def Let_def)
  show ?thesis
  proof (cases "running s = ?n")
    case True
    let ?s2 = "(set_status ?s1 ?n THREAD_RUNNING)\<lparr>thread_ticks := 0\<rparr>"
    have "schedule s = Some ?s2"
      using sch True ok(3) by (simp add: thread_switch_tail_def running_thread_def intr_get_level_def Let_def)
    moreover have "switched s ?s2"
      using n True by (intro switchedI) (auto intro: same_st, simp_all add: set_status_def upd_thread_def)
    ultimately show ?thesis by blast
  next
    case False
    let ?s2 = "(set_status (?s1\<lparr>running := ?n\<rparr>) ?n THREAD_RUNNING)\<lparr>thread_ticks := 0\<rparr>"
    have "running s \<noteq> NULL" using threads_ok_nonnull [OF ok(1)] pre by (auto simp: sched_pre_def)
    moreover have "status ?s2 (running s) = status s (running s)" using False by simp
    ultimately have "schedule s = Some (if status s (running s) = Some THREAD_DYING \<and> running s \<noteq> initial_thread s
        then ?s2\<lparr>ths := (ths ?s2)(running s := None)\<rparr> else ?s2)"
      using sch False ok(3)
      by (simp add: thread_switch_tail_def running_thread_def intr_get_level_def Let_def)
    moreover have "switched s ?s2" if "\<not> (status s (running s) = Some THREAD_DYING \<and> running s \<noteq> initial_thread s)"
      using n that False by (intro switchedI) (auto intro: same_st, simp_all add: set_status_def upd_thread_def)
    moreover have "switched s (?s2\<lparr>ths := (ths ?s2)(running s := None)\<rparr>)"
      if "status s (running s) = Some THREAD_DYING \<and> running s \<noteq> initial_thread s"
    proof (intro switchedI)
      have "same_threads (ths s) (ths ?s2)" using same_st [of ?s1] by (simp add: set_status_def upd_thread_def)
      then show "same_threads (ths s) (ths (?s2\<lparr>ths := (ths ?s2)(running s := None)\<rparr>))"
        by (simp add: same_threads_forget del: fun_upd_apply)
    qed (use n that False in \<open>auto, simp add: set_status_def upd_thread_def\<close>)
    ultimately show ?thesis by auto
  qed
qed

lemma switched_inv:
  assumes pre: "sched_pre s" and sw: "switched s s'"
  shows "sched_inv s' \<and> \<not> intr_on s'"
proof -
  note f = switchedD [OF sw]
  have ok: "threads_ok s" "ready_ok s" "all_ok s" "\<not> intr_on s" using pre by (simp_all add: sched_pre_def)
  note n = next_up_status [OF ok(1,2)]
  have idle: "next_up s = idle_thread s" if "ready s = []" using that by (simp add: next_up_def)
  have hd: "next_up s \<notin> set (tl (ready s))" "ready s \<noteq> [] \<Longrightarrow> set (ready s) = insert (next_up s) (set (tl (ready s)))"
    using ok(2) by (cases "ready s"; auto simp: ready_ok_def next_up_def)+
  have run: "\<forall>t. status s t \<noteq> Some THREAD_RUNNING" and dy: "\<forall>t. status s t = Some THREAD_DYING \<longrightarrow>
      t = running s \<or> t = initial_thread s" using pre by (simp_all add: sched_pre_def)
  have "\<forall>t th. ths s' t = Some th \<longrightarrow> t \<noteq> NULL \<and> th_magic th = THREAD_MAGIC"
    by (rule same_threads_magic [OF f(12)]) (use ok(1) in \<open>simp add: threads_ok_def\<close>)
  then have "threads_ok s'" using ok(1) n by (simp add: threads_ok_def f)
  moreover have "ready_ok s'"
    using ok(2) run hd idle by (cases "ready s = []") (auto simp: ready_ok_def f distinct_tl)
  moreover have "all_ok s'" using ok(3) n by (auto simp: all_ok_def f)
  moreover have "\<forall>t. status s' t = Some THREAD_RUNNING \<longleftrightarrow> t = running s'" using run by (auto simp: f)
  moreover have "\<forall>t. status s' t = Some THREAD_DYING \<longrightarrow> t = initial_thread s'" using dy by (auto simp: f)
  ultimately show ?thesis using ok(4) by (simp add: sched_inv_def f)
qed

section \<open>The operations keep the invariant and do not panic\<close>

lemma status_ths: "ths s = ths t \<Longrightarrow> status s = status t"
  by (simp add: status_def fun_eq_iff)

lemma sched_inv_cong:
  assumes "ths s = ths t" "running s = running t" "ready s = ready t" "all_list s = all_list t"
    "idle_thread s = idle_thread t" "initial_thread s = initial_thread t"
    "active_sched_policy s = active_sched_policy t"
  shows "sched_inv s = sched_inv t"
  using assms status_ths [OF assms(1)] by (simp add: sched_defs)

lemma sched_inv_fields [simp]:
  "sched_inv (s\<lparr>intr_on := b\<rparr>) = sched_inv s" "sched_inv (s\<lparr>saved_level := f\<rparr>) = sched_inv s"
  "sched_inv (s\<lparr>in_external_intr := b\<rparr>) = sched_inv s" "sched_inv (s\<lparr>yield_on_return := b\<rparr>) = sched_inv s"
  "sched_inv (s\<lparr>thread_ticks := n\<rparr>) = sched_inv s" "sched_inv (s\<lparr>next_tid := i\<rparr>) = sched_inv s"
  "sched_inv (s\<lparr>idle_ticks := i\<rparr>) = sched_inv s" "sched_inv (s\<lparr>kernel_ticks := i\<rparr>) = sched_inv s"
  "sched_inv (s\<lparr>user_ticks := i\<rparr>) = sched_inv s" "sched_inv (s\<lparr>unexpected_cnt := c\<rparr>) = sched_inv s"
  "sched_inv (kernel.more_update m s) = sched_inv s"
  by (rule sched_inv_cong; simp)+

lemma sched_inv_running:
  assumes "sched_inv s"
  shows "status s (running s) = Some THREAD_RUNNING" "running s \<notin> set (ready s)"
    "running s \<in> set (all_list s)" "status s (running s) \<noteq> Some THREAD_READY"
    "status s (running s) \<noteq> Some THREAD_BLOCKED" "status s (running s) \<noteq> Some THREAD_DYING"
    "status s (running s) \<noteq> None" "\<exists>st. status s (running s) = Some st" "\<exists>th. ths s (running s) = Some th"
proof -
  show st: "status s (running s) = Some THREAD_RUNNING" using assms by (simp add: sched_inv_def)
  have "running s \<in> set (ready s) \<longleftrightarrow> status s (running s) = Some THREAD_READY \<and> running s \<noteq> idle_thread s"
    "running s \<in> set (all_list s) \<longleftrightarrow> status s (running s) \<notin> {None, Some THREAD_DYING}"
    using assms unfolding sched_inv_def ready_ok_def all_ok_def by blast+
  then show "running s \<notin> set (ready s)" "running s \<in> set (all_list s)" by (simp_all add: st)
  show "status s (running s) \<noteq> Some THREAD_READY" "status s (running s) \<noteq> Some THREAD_BLOCKED"
    "status s (running s) \<noteq> Some THREAD_DYING" "status s (running s) \<noteq> None" "\<exists>st. status s (running s) = Some st"
    using st by simp_all
  show "\<exists>th. ths s (running s) = Some th" using st by (auto simp: status_def)
qed

text \<open>The running thread leaves the processor.\<close>

definition yielded :: "('a) kernel_scheme \<Rightarrow> bool \<Rightarrow> ('a) kernel_scheme" where
  "yielded s level = (set_status s (running s) THREAD_READY)\<lparr>intr_on := False,
     ready := ready s @ (if running s = idle_thread s then [] else [running s]),
     saved_level := (saved_level s)(running s := Some level)\<rparr>"

definition blocked :: "('a) kernel_scheme \<Rightarrow> ('a) kernel_scheme" where
  "blocked s = set_status s (running s) THREAD_BLOCKED"

definition exited :: "('a) kernel_scheme \<Rightarrow> ('a) kernel_scheme" where
  "exited s = (set_status s (running s) THREAD_DYING)\<lparr>intr_on := False,
     all_list := remove1 (running s) (all_list s)\<rparr>"

lemma blocked_pre:
  assumes "sched_inv s" "\<not> intr_on s"
  shows "sched_pre (blocked s)"
  using assms sched_inv_running [OF assms(1)] threads_ok_set_status [of s "running s" THREAD_BLOCKED]
  by (auto simp: blocked_def sched_pre_def sched_inv_def ready_ok_def all_ok_def)

lemma yielded_pre:
  assumes "sched_inv s"
  shows "sched_pre (yielded s level)"
proof -
  have "threads_ok (yielded s level)"
    using assms threads_ok_set_status [of s "running s" THREAD_READY]
    by (simp add: yielded_def sched_inv_def threads_ok_def)
  then show ?thesis
    using assms sched_inv_running [OF assms]
    by (auto simp: yielded_def sched_pre_def sched_inv_def ready_ok_def all_ok_def)
qed

lemma exited_pre:
  assumes "sched_inv s" "running s \<noteq> idle_thread s"
  shows "sched_pre (exited s)"
proof -
  have "threads_ok (exited s)"
    using assms threads_ok_set_status [of s "running s" THREAD_DYING]
    by (simp add: exited_def sched_inv_def threads_ok_def)
  moreover have "all_ok (exited s)"
    using assms(1) by (auto simp: exited_def sched_inv_def all_ok_def)
  ultimately show ?thesis
    using assms sched_inv_running [OF assms(1)]
    by (auto simp: exited_def sched_pre_def sched_inv_def ready_ok_def)
qed

lemma schedule_ok:
  assumes "sched_pre s"
  shows "\<exists>s'. schedule s = Some s' \<and> switched s s' \<and> sched_inv s' \<and> \<not> intr_on s'"
  using schedule_switched [OF assms] switched_inv [OF assms] by blast

lemma thread_block_ok:
  assumes "sched_inv s" "\<not> intr_on s" "\<not> in_external_intr s"
  shows "\<exists>s'. thread_block s = Some s' \<and> switched (blocked s) s' \<and> sched_inv s' \<and> \<not> intr_on s'"
  using schedule_ok [OF blocked_pre [OF assms(1,2)]] assms
  by (simp add: thread_block_def thread_current_ok intr_context_def intr_get_level_def blocked_def)

lemma is_thread_status: "is_thread s t \<Longrightarrow> ths s' = ths s \<Longrightarrow> is_thread s' t"
  by (simp add: is_thread_def)

lemma thread_enqueue_ok:
  assumes "threads_ok s" "\<not> intr_on s" "status s t \<noteq> None" "t \<notin> set (ready s)"
  shows "thread_enqueue s t = Some (s\<lparr>ready := ready s @ [t]\<rparr>)"
  using assms by (simp add: thread_enqueue_def is_thread_ok intr_get_level_def list_push_def threads_ok_def [of s])

lemma set_status_commute:
  "set_status (s\<lparr>intr_on := b\<rparr>) t st = (set_status s t st)\<lparr>intr_on := b\<rparr>"
  "set_status (s\<lparr>ready := q\<rparr>) t st = (set_status s t st)\<lparr>ready := q\<rparr>"
  "set_status (s\<lparr>all_list := q\<rparr>) t st = (set_status s t st)\<lparr>all_list := q\<rparr>"
  by (simp_all add: set_status_def upd_thread_def)

lemma thread_yield_ok:
  assumes inv: "sched_inv s" and "\<not> in_external_intr s"
  shows "\<exists>s'. thread_yield s = Some s' \<and> switched (yielded s (intr_on s)) s' \<and> sched_inv s' \<and> \<not> intr_on s'"
proof -
  have t: "threads_ok (s\<lparr>intr_on := False\<rparr>)" "status s (running s) \<noteq> None" "running s \<notin> set (ready s)"
    using inv sched_inv_running [OF inv] by (simp_all add: sched_inv_def threads_ok_def)
  have same: "set_status s t st\<lparr>intr_on := b, ready := ready s, saved_level := f\<rparr> =
      set_status s t st\<lparr>intr_on := b, saved_level := f\<rparr>" for t st b f
    by (simp add: set_status_def upd_thread_def)
  have "thread_yield s = schedule (yielded s (intr_on s))"
    using assms thread_enqueue_ok [OF t(1), of "running s"] t(2,3)
    by (simp add: thread_yield_def thread_current_ok intr_context_def intr_disable_def intr_get_level_def
        yielded_def set_status_commute same Let_def)
  then show ?thesis using schedule_ok [OF yielded_pre [OF inv]] by simp
qed

lemma thread_exit_ok:
  assumes inv: "sched_inv s" and "\<not> in_external_intr s" "running s \<noteq> idle_thread s"
  shows "\<exists>s'. thread_exit s = Some s' \<and> switched (exited s) s' \<and> sched_inv s' \<and> \<not> intr_on s'"
proof -
  have "running s \<in> set (all_list s)" by (rule sched_inv_running(3) [OF inv])
  moreover have "thread_current (s\<lparr>intr_on := False\<rparr>) = Some (running s)"
    using inv thread_current_ok [of "s\<lparr>intr_on := False\<rparr>"] by simp
  moreover have "thread_current (s\<lparr>intr_on := False, all_list := q\<rparr>) = thread_current s" for q
    by (simp add: thread_current_def running_thread_def is_thread_def)
  ultimately have "thread_exit s = schedule (exited s)"
    using assms
    by (simp add: thread_exit_def intr_context_def intr_disable_def thread_current_ok exited_def
        set_status_commute Let_def)
  then show ?thesis using schedule_ok [OF exited_pre [OF inv assms(3)]] by simp
qed

definition unblocked :: "('a) kernel_scheme \<Rightarrow> addr \<Rightarrow> ('a) kernel_scheme" where
  "unblocked s t = (set_status s t THREAD_READY)\<lparr>ready := ready s @ [t]\<rparr>"

lemma unblocked_inv:
  assumes "sched_inv s" "status s t = Some THREAD_BLOCKED" "t \<noteq> idle_thread s"
  shows "sched_inv (unblocked s t)"
proof -
  have "threads_ok (unblocked s t)"
    using assms threads_ok_set_status [of s t THREAD_READY]
    by (simp add: unblocked_def sched_inv_def threads_ok_def)
  then show ?thesis
    using assms sched_inv_running [OF assms(1)]
    by (auto simp: unblocked_def sched_inv_def ready_ok_def all_ok_def)
qed

lemma thread_unblock_ok:
  assumes inv: "sched_inv s" and t: "status s t = Some THREAD_BLOCKED"
    and "t \<noteq> idle_thread s" "in_external_intr s \<longrightarrow> \<not> intr_on s"
  shows "thread_unblock s t = Some (unblocked s t)" "sched_inv (unblocked s t)"
proof -
  have th: "threads_ok (s\<lparr>intr_on := False\<rparr>)" "threads_ok s" "t \<notin> set (ready s)"
    using inv t by (auto simp: sched_inv_def ready_ok_def threads_ok_def)
  have "is_thread s t" using th(2) t by (simp add: is_thread_ok)
  then have "thread_unblock s t = map_option snd (intr_set_level
      (set_status (s\<lparr>intr_on := False, ready := ready s @ [t]\<rparr>) t THREAD_READY) (intr_on s))"
    using thread_enqueue_ok [OF th(1), of t] t th(3)
    by (cases "intr_set_level (set_status (s\<lparr>intr_on := False, ready := ready s @ [t]\<rparr>) t THREAD_READY) (intr_on s)")
      (auto simp: thread_unblock_def intr_disable_def intr_get_level_def Let_def split: option.splits)
  also have "\<dots> = Some (unblocked s t)"
    using assms(4)
    by (auto simp: intr_set_level_def intr_enable_def intr_disable_def intr_context_def intr_get_level_def
        unblocked_def set_status_commute Let_def)
  finally show "thread_unblock s t = Some (unblocked s t)" .
  show "sched_inv (unblocked s t)" using unblocked_inv assms by blast
qed

section \<open>Creation\<close>

definition new_thread :: "addr \<Rightarrow> string \<Rightarrow> int \<Rightarrow> addr \<Rightarrow> addr \<Rightarrow> int \<Rightarrow> thread" where
  "new_thread page nm pri func aux tid =
     \<lparr>th_tid = tid, th_status = THREAD_READY, th_name = take 15 nm, th_stack = page + PGSIZE - 44,
      th_priority = pri, th_pcb = NULL, th_magic = THREAD_MAGIC,
      th_kf = Some \<lparr>kf_eip = NULL, kf_function = func, kf_aux = aux\<rparr>\<rparr>"

definition created :: "('a) kernel_scheme \<Rightarrow> addr \<Rightarrow> thread \<Rightarrow> ('a) kernel_scheme" where
  "created s page th = s\<lparr>ths := (ths s)(page \<mapsto> th), ready := ready s @ [page],
     all_list := all_list s @ [page], next_tid := next_tid s + 1,
     saved_level := (saved_level s)(page := Some True)\<rparr>"

lemma status_created:
  "status (created s page th) t = (if t = page then Some (th_status th) else status s t)"
  by (simp add: created_def status_def)

lemma created_inv:
  assumes inv: "sched_inv s" and p: "ths s page = None" "page \<noteq> NULL"
    and th: "th_status th = THREAD_READY" "th_magic th = THREAD_MAGIC"
  shows "sched_inv (created s page th)"
proof -
  have st: "status s page = None" using p(1) by (simp add: status_None)
  have ne: "page \<noteq> idle_thread s" "page \<noteq> running s"
    using inv st sched_inv_running(7) [OF inv] by (auto simp: sched_inv_def threads_ok_def)
  have "page \<notin> set (ready s)" "page \<notin> set (all_list s)"
    using inv st by (auto simp: sched_inv_def ready_ok_def all_ok_def)
  moreover have "threads_ok (created s page th)"
    using inv p th ne
    by (auto simp: sched_inv_def threads_ok_def status_created)
      (auto simp: created_def split: if_splits)
  ultimately show ?thesis
    using inv st ne th(1)
    by (auto simp: sched_inv_def ready_ok_def all_ok_def status_created, auto simp: created_def)
qed

lemma thread_create_ok:
  assumes inv: "sched_inv s" and p: "ths s page = None" "page \<noteq> NULL" and f: "func \<noteq> NULL"
    and pri: "PRI_MIN \<le> pri" "pri \<le> PRI_MAX" and ctx: "\<not> in_external_intr s"
  shows "thread_create s page (Some nm) pri func aux =
      Some (next_tid s, created s page (new_thread page nm pri func aux (next_tid s)))"
    "sched_inv (created s page (new_thread page nm pri func aux (next_tid s)))"
proof -
  have st: "status s page = None" using p(1) by (simp add: status_None)
  have new: "page \<notin> set (ready s)" "page \<notin> set (all_list s)" "active_sched_policy s = SCHED_FIFO"
    using inv st by (auto simp: sched_inv_def ready_ok_def all_ok_def threads_ok_def)
  have frames: "alloc_frame t page n = Some (th_stack th - n, upd_thread t page (\<lambda>th. th\<lparr>th_stack := th_stack th - n\<rparr>))"
    if "ths t page = Some th" "th_magic th = THREAD_MAGIC" "n \<in> {12, 4, 28}" for t :: "'a kernel_scheme" and th n
    using that p(2) by (auto simp: alloc_frame_def is_thread_def)
  show "thread_create s page (Some nm) pri func aux =
      Some (next_tid s, created s page (new_thread page nm pri func aux (next_tid s)))"
    using f p(2) pri new ctx
    by (cases "intr_on s")
      (simp_all add: thread_create_def init_thread_def intr_disable_def intr_get_level_def intr_set_level_def
        intr_enable_def intr_context_def list_push_def allocate_tid_def upd_thread_def frames
        thread_unblock_def is_thread_def status_def thread_enqueue_def set_status_def created_def
        new_thread_def PGSIZE_def Let_def)
  show "sched_inv (created s page (new_thread page nm pri func aux (next_tid s)))"
    using inv p by (intro created_inv) (simp_all add: new_thread_def)
qed

section \<open>Resumption and the timer\<close>

lemma thread_resume_ok:
  assumes "\<not> in_external_intr s"
  shows "\<exists>s'. thread_resume s = Some s' \<and> saved_level s' (running s) = None \<and>
    s' = s\<lparr>intr_on := (case saved_level s (running s) of None \<Rightarrow> intr_on s | Some l \<Rightarrow> l),
      saved_level := (saved_level s)(running s := None)\<rparr>"
  using assms
  by (cases "saved_level s (running s)")
    (auto simp: thread_resume_def intr_set_level_def intr_enable_def intr_disable_def intr_context_def
      fun_upd_idem)

text \<open>The timer interrupt: statistics, and a yield when the time slice is used up.\<close>

definition tick_handlers :: "nat \<Rightarrow> (('a) kernel_scheme \<Rightarrow> ('a) kernel_scheme option) option" where
  "tick_handlers vec = (if vec = 0x20 then Some thread_tick else None)"

lemma thread_tick_ok:
  assumes inv: "sched_inv s" and ctx: "in_external_intr s"
  shows "\<exists>s'. thread_tick s = Some s' \<and> sched_inv s' \<and>
    (yield_on_return s' \<longleftrightarrow> yield_on_return s \<or> thread_ticks s + 1 \<ge> TIME_SLICE) \<and>
    thread_ticks s' = thread_ticks s + 1 \<and>
    s' = s\<lparr>thread_ticks := thread_ticks s + 1, idle_ticks := idle_ticks s', kernel_ticks := kernel_ticks s',
      user_ticks := user_ticks s', yield_on_return := yield_on_return s'\<rparr> \<and>
    idle_ticks s' + kernel_ticks s' + user_ticks s' = idle_ticks s + kernel_ticks s + user_ticks s + 1"
proof -
  obtain th where th: "ths s (running s) = Some th" using sched_inv_running(9) [OF inv] by blast
  show ?thesis
    using inv ctx th by (simp add: thread_tick_def thread_current_ok intr_yield_on_return_def intr_context_def Let_def)
qed

section \<open>Properties\<close>

fun yields :: "nat \<Rightarrow> ('a) kernel_scheme \<Rightarrow> ('a) kernel_scheme option" where
  "yields 0 s = Some s"
| "yields (Suc n) s = do { s \<leftarrow> thread_yield s; s \<leftarrow> thread_resume s; yields n s }"

lemma yielded_queue:
  assumes "running s \<noteq> idle_thread s"
  shows "next_up (yielded s l) = hd (ready s @ [running s])" "tl (ready (yielded s l)) = tl (ready s @ [running s])"
  using assms by (cases "ready s"; simp add: yielded_def next_up_def)+

lemma yield_resume_step:
  assumes inv: "sched_inv s" and ctx: "\<not> in_external_intr s" and run: "running s \<noteq> idle_thread s"
  shows "\<exists>s1 s2. thread_yield s = Some s1 \<and> thread_resume s1 = Some s2 \<and> sched_inv s2 \<and>
    \<not> in_external_intr s2 \<and> idle_thread s2 = idle_thread s \<and>
    running s2 # ready s2 = rotate1 (running s # ready s) \<and>
    (running s2 = running s \<longrightarrow> intr_on s2 = intr_on s)"
proof -
  obtain s1 where s1: "thread_yield s = Some s1" "switched (yielded s (intr_on s)) s1" "sched_inv s1"
    using thread_yield_ok [OF inv ctx] by blast
  note f = switchedD [OF s1(2)]
  have ctx1: "\<not> in_external_intr s1" using ctx by (simp add: f yielded_def)
  obtain s2 where s2: "thread_resume s1 = Some s2"
    "s2 = s1\<lparr>intr_on := (case saved_level s1 (running s1) of None \<Rightarrow> intr_on s1 | Some l \<Rightarrow> l),
      saved_level := (saved_level s1)(running s1 := None)\<rparr>"
    using thread_resume_ok [OF ctx1] by blast
  have q: "running s1 = hd (ready s @ [running s])" "ready s1 = tl (ready s @ [running s])"
    using f(1,2) yielded_queue [OF run] by simp_all
  have "running s2 # ready s2 = rotate1 (running s # ready s)"
    unfolding s2(2) using q by simp
  moreover have "sched_inv s2" "\<not> in_external_intr s2" "idle_thread s2 = idle_thread s"
    "running s2 = running s \<longrightarrow> intr_on s2 = intr_on s"
    unfolding s2(2) using s1(3) ctx1 by (simp_all add: f yielded_def)
  ultimately show ?thesis using s1(1) s2(1) by blast
qed

text \<open>The scheduler is round robin: yielding \<open>n\<close> times rotates the queue of runnable threads, the
  running one in front, by \<open>n\<close> places, so each ready thread gets the processor after as many
  yields as it has threads before it; nothing panics and the scheduler's invariant is kept.\<close>

theorem thread_yield_round_robin:
  assumes "sched_inv s" "\<not> in_external_intr s" "running s \<noteq> idle_thread s"
  shows "\<exists>s'. yields n s = Some s' \<and> sched_inv s' \<and>
    running s' # ready s' = rotate n (running s # ready s)"
  using assms
proof (induction n arbitrary: s)
  case 0
  then show ?case by simp
next
  case (Suc n)
  obtain s1 s2 where s: "thread_yield s = Some s1" "thread_resume s1 = Some s2" "sched_inv s2"
    "\<not> in_external_intr s2" "idle_thread s2 = idle_thread s"
    "running s2 # ready s2 = rotate1 (running s # ready s)"
    using yield_resume_step [OF Suc.prems] by blast
  have "idle_thread s \<notin> set (running s # ready s)"
    using Suc.prems(1,3) by (auto simp: sched_inv_def ready_ok_def)
  then have "running s2 \<noteq> idle_thread s2"
    using s(5,6) by (metis list.set_intros(1) set_rotate1)
  then have "\<exists>s'. yields n s2 = Some s' \<and> sched_inv s' \<and>
      running s' # ready s' = rotate n (rotate1 (running s # ready s))"
    using Suc.IH [OF s(3,4)] s(6) by simp
  then show ?case using s(1,2) by (simp add: rotate1_rotate_swap del: rotate1.simps)
qed

text \<open>Three threads: thread 100 runs, 200 is ready, 300 is the idle thread.\<close>

definition demo_thread :: "thread_status \<Rightarrow> thread" where
  "demo_thread st = \<lparr>th_tid = 1, th_status = st, th_name = ''t'', th_stack = 0, th_priority = 31,
     th_pcb = 0, th_magic = THREAD_MAGIC, th_kf = None\<rparr>"

definition demo_kernel :: kernel where
  "demo_kernel = \<lparr>ths = [100 \<mapsto> demo_thread THREAD_RUNNING, 200 \<mapsto> demo_thread THREAD_READY,
       300 \<mapsto> demo_thread THREAD_BLOCKED],
     running = 100, ready = [200], all_list = [100, 300, 200], idle_thread = 300, initial_thread = 100,
     next_tid = 4, active_sched_policy = SCHED_FIFO, thread_ticks = 3, idle_ticks = 0, kernel_ticks = 0,
     user_ticks = 0, intr_on = True, in_external_intr = False, yield_on_return = False,
     unexpected_cnt = (\<lambda>_. 0), saved_level = (\<lambda>_. None)\<rparr>"

lemma demo_kernel_inv: "sched_inv demo_kernel"
  by (auto simp: sched_defs demo_kernel_def demo_thread_def status_def split: if_splits)

theorem thread_yield_round_robin_witness:
  "\<exists>s'. yields 3 demo_kernel = Some s' \<and> sched_inv s' \<and> running s' # ready s' = [200, 100]"
  using thread_yield_round_robin [OF demo_kernel_inv, of 3]
  by (simp add: demo_kernel_def numeral_eq_Suc)

text \<open>The timer enforces the time slice: a timer interrupt keeps the scheduler's invariant and does
  not panic, and the interrupted thread loses the processor to the head of the ready list, and
  goes to its end, exactly when it has used up \<open>TIME_SLICE\<close> ticks.\<close>

theorem timer_interrupt_preempts:
  assumes inv: "sched_inv s" and ctx: "\<not> in_external_intr s" and run: "running s \<noteq> idle_thread s"
  shows "\<exists>s'. external_interrupt tick_handlers s 0x20 = Some s' \<and> sched_inv s' \<and> \<not> in_external_intr s' \<and>
    \<not> intr_on s' \<and> saved_level s' (running s) = Some True \<and> idle_thread s' = idle_thread s \<and>
    running s' # ready s' = (if thread_ticks s + 1 \<ge> TIME_SLICE then rotate1 (running s # ready s)
      else running s # ready s)"
proof -
  let ?s0 = "s\<lparr>intr_on := False, in_external_intr := True, yield_on_return := False\<rparr>"
  obtain s1 where s1: "thread_tick ?s0 = Some s1" "sched_inv s1"
    "yield_on_return s1 \<longleftrightarrow> thread_ticks s + 1 \<ge> TIME_SLICE"
    "s1 = ?s0\<lparr>thread_ticks := thread_ticks s + 1, idle_ticks := idle_ticks s1, kernel_ticks := kernel_ticks s1,
      user_ticks := user_ticks s1, yield_on_return := yield_on_return s1\<rparr>"
    using thread_tick_ok [of ?s0] inv by auto
  have f: "intr_on s1 = False" "in_external_intr s1 = True" "running s1 = running s" "ready s1 = ready s"
    "idle_thread s1 = idle_thread s"
    by (subst s1(4); simp)+
  let ?s2 = "s1\<lparr>in_external_intr := False\<rparr>"
  have run2: "external_interrupt tick_handlers s 0x20 =
      map_option (\<lambda>s'. s'\<lparr>saved_level := (saved_level s')(running s := Some True)\<rparr>)
        (if yield_on_return s1 then thread_yield ?s2 else Some ?s2)"
    using s1(1) f(1,2) ctx
    by (simp add: external_interrupt_def intr_handler_def tick_handlers_def intr_get_level_def
        intr_context_def Let_def map_conv_bind_option comp_def)
  show ?thesis
  proof (cases "yield_on_return s1")
    case True
    have inv2: "sched_inv ?s2" "\<not> in_external_intr ?s2" "running ?s2 \<noteq> idle_thread ?s2"
      using s1(2) f run by simp_all
    obtain s3 where s3: "thread_yield ?s2 = Some s3" "switched (yielded ?s2 (intr_on ?s2)) s3" "sched_inv s3"
      "\<not> intr_on s3"
      using thread_yield_ok [OF inv2(1,2)] by blast
    note g = switchedD [OF s3(2)]
    have "running s3 # ready s3 = rotate1 (running s # ready s)"
      using g(1,2) yielded_queue [OF inv2(3)] f(3,4) by simp
    moreover have "\<not> in_external_intr s3" "idle_thread s3 = idle_thread s" by (simp_all add: g yielded_def f(5))
    ultimately show ?thesis using run2 True s3(1,3,4) s1(3) by simp
  next
    case False
    then show ?thesis using run2 s1(2,3) f by simp
  qed
qed

theorem timer_interrupt_preempts_witness:
  "\<exists>s'. external_interrupt tick_handlers demo_kernel 0x20 = Some s' \<and> sched_inv s' \<and>
    \<not> in_external_intr s' \<and> \<not> intr_on s' \<and> saved_level s' 100 = Some True \<and>
    running s' # ready s' = [200, 100]"
  using timer_interrupt_preempts [OF demo_kernel_inv]
  by (auto simp: demo_kernel_def TIME_SLICE_def)

text \<open>\<open>thread_create\<close> on a free page returns the next thread identifier, starts the thread ready
  to run at the end of the queue with its initial frames within its page, and keeps the
  scheduler's invariant; with no page it returns \<open>TID_ERROR\<close> and changes nothing.\<close>

theorem thread_create_correct:
  assumes "sched_inv s" "ths s page = None" "func \<noteq> NULL" "PRI_MIN \<le> pri" "pri \<le> PRI_MAX"
    "\<not> in_external_intr s"
  shows "if page = NULL then thread_create s page (Some nm) pri func aux = Some (TID_ERROR, s)
    else \<exists>s'. thread_create s page (Some nm) pri func aux = Some (next_tid s, s') \<and> sched_inv s' \<and>
      running s' = running s \<and> ready s' = ready s @ [page] \<and> next_tid s' = next_tid s + 1 \<and>
      (\<forall>t. t \<noteq> page \<longrightarrow> ths s' t = ths s t) \<and>
      (\<exists>th. ths s' page = Some th \<and> th_tid th = next_tid s \<and> length (th_name th) \<le> 15 \<and>
        page \<le> th_stack th \<and> th_stack th + 44 = page + PGSIZE)"
proof (cases "page = NULL")
  case True
  then show ?thesis using assms(3) by (simp add: thread_create_def)
next
  case False
  then show ?thesis
    using thread_create_ok [OF assms(1,2) False assms(3-6), of nm aux]
    by (simp add: created_def new_thread_def PGSIZE_def)
qed

theorem thread_create_correct_witness:
  "\<exists>s'. thread_create demo_kernel 400 (Some ''worker'') 31 7 8 = Some (4, s') \<and> sched_inv s' \<and>
    ready s' = [200, 400]"
  using thread_create_correct [OF demo_kernel_inv, of 400 7 31 "''worker''" 8]
  by (auto simp: demo_kernel_def PRI_MIN_def PRI_MAX_def)

end
