(* ===== verification/Kernel_Synch.thy ===== *)
theory Kernel_Synch
  imports Kernel_Thread
begin

text \<open>
  Semaphores, locks, condition variables and the readers-writers lock of \<open>threads/synch.c\<close>,
  running on the scheduler of \<open>Kernel_Thread\<close>, with interrupts that may preempt a thread.

  The code of a synchronisation operation is cut at the places where another thread can run: a
  thread sleeps in \<open>schedule\<close> inside \<open>sema_down\<close>, or is preempted while interrupts are on. What a
  thread still has to execute is its list of \<open>frames\<close>; \<open>exec\<close> runs the first one. Inside a frame
  the code runs with interrupts off (the semaphore operations), writes a single word
  (\<open>lock->holder\<close>), or works on data protected by a lock the thread holds (waiter lists of
  condition variables, the counters of the readers-writers lock). A counter is tested in one
  frame and changed in another, so that the guard lock is what makes the two one action.

  A semaphore is named by where it lives: \<open>Sem n\<close> is a semaphore of a client, \<open>LockSem l\<close> the
  member of the lock \<open>l\<close>, \<open>WaitSem t\<close> the one on the stack of the thread \<open>t\<close> in \<open>cond_wait\<close>.
\<close>

section \<open>State\<close>

datatype lock_id = Mutex nat | Guard nat
datatype cond_id = Cv nat | RwRead nat | RwWrite nat
datatype sem = Sem nat | LockSem lock_id | WaitSem addr

record semaphore =
  sem_value :: u32
  waiters :: "addr list"

record rw_counts =
  AR :: int
  WR :: int
  AW :: int
  WW :: int

datatype frame =
    Sema_down sem
  | Down_loop sem bool
  | Sema_up sem
  | Lock_acquire lock_id
  | Take lock_id
  | Lock_release lock_id
  | Cond_wait cond_id lock_id
  | Cond_signal cond_id lock_id
  | Cond_broadcast cond_id lock_id
  | Rw_acquire nat bool
  | Rw_test nat bool
  | Rw_woken nat bool
  | Rw_enter nat bool
  | Rw_release nat bool
  | Rw_leave nat bool
  | Rw_wake nat bool

record sync = kernel +
  semas :: "sem \<Rightarrow> semaphore"
  lock_holder :: "lock_id \<Rightarrow> addr"
  conds :: "cond_id \<Rightarrow> sem list"
  rws :: "nat \<Rightarrow> rw_counts"
  frames :: "addr \<Rightarrow> frame list"
  readers :: "nat \<Rightarrow> addr list"
  writers :: "nat \<Rightarrow> addr list"

text \<open>
  \<open>readers\<close> and \<open>writers\<close> record who is inside a readers-writers lock; no operation reads them.
\<close>

definition push :: "sync \<Rightarrow> frame list \<Rightarrow> sync" where
  "push s fs = s\<lparr>frames := (frames s)(running s := fs @ frames s (running s))\<rparr>"

definition set_sem :: "sync \<Rightarrow> sem \<Rightarrow> semaphore \<Rightarrow> sync" where
  "set_sem s m x = s\<lparr>semas := (semas s)(m := x)\<rparr>"

definition set_holder :: "sync \<Rightarrow> lock_id \<Rightarrow> addr \<Rightarrow> sync" where
  "set_holder s l t = s\<lparr>lock_holder := (lock_holder s)(l := t)\<rparr>"

definition set_cond :: "sync \<Rightarrow> cond_id \<Rightarrow> sem list \<Rightarrow> sync" where
  "set_cond s c ws = s\<lparr>conds := (conds s)(c := ws)\<rparr>"

definition upd_rw :: "sync \<Rightarrow> nat \<Rightarrow> (rw_counts \<Rightarrow> rw_counts) \<Rightarrow> sync" where
  "upd_rw s r f = s\<lparr>rws := (rws s)(r := f (rws s r))\<rparr>"

section \<open>Semaphores\<close>

definition sema_init :: "sync \<Rightarrow> sem \<Rightarrow> u32 \<Rightarrow> sync" where
  "sema_init s m v = set_sem s m \<lparr>sem_value = v, waiters = []\<rparr>"

text \<open>The loop of \<open>sema_down\<close>, from its test on; a thread that sleeps comes back to the test.\<close>

definition down_loop :: "sync \<Rightarrow> sem \<Rightarrow> bool \<Rightarrow> sync option" where
  "down_loop s m old_level =
     (let x = semas s m in
      if sem_value x = 0
      then do {
        t \<leftarrow> thread_current s;
        ws \<leftarrow> list_push (waiters x) t;
        thread_block (push (set_sem s m (x\<lparr>waiters := ws\<rparr>)) [Down_loop m old_level]) }
      else do {
        (_, s) \<leftarrow> intr_set_level (set_sem s m (x\<lparr>sem_value := sem_value x - 1\<rparr>)) old_level;
        Some s })"

definition sema_down :: "sync \<Rightarrow> sem \<Rightarrow> sync option" where
  "sema_down s m = do {
     ASSERT (\<not> intr_context s);
     let (old_level, s) = intr_disable s;
     down_loop s m old_level }"

definition sema_try_down :: "sync \<Rightarrow> sem \<Rightarrow> (bool \<times> sync) option" where
  "sema_try_down s m = do {
     let (old_level, s) = intr_disable s;
     let x = semas s m;
     let success = (sem_value x > 0);
     let s = (if success then set_sem s m (x\<lparr>sem_value := sem_value x - 1\<rparr>) else s);
     (_, s) \<leftarrow> intr_set_level s old_level;
     Some (success, s) }"

definition sema_up :: "sync \<Rightarrow> sem \<Rightarrow> sync option" where
  "sema_up s m = do {
     let (old_level, s) = intr_disable s;
     s \<leftarrow> (case waiters (semas s m) of
             [] \<Rightarrow> Some s
           | t # ts \<Rightarrow> thread_unblock (set_sem s m ((semas s m)\<lparr>waiters := ts\<rparr>)) t);
     let x = semas s m;
     let s = set_sem s m (x\<lparr>sem_value := sem_value x + 1\<rparr>);
     (_, s) \<leftarrow> intr_set_level s old_level;
     Some s }"

section \<open>Locks\<close>

definition lock_init :: "sync \<Rightarrow> lock_id \<Rightarrow> sync" where
  "lock_init s l = sema_init (set_holder s l NULL) (LockSem l) 1"

definition lock_held_by_current_thread :: "sync \<Rightarrow> lock_id \<Rightarrow> bool option" where
  "lock_held_by_current_thread s l = do { t \<leftarrow> thread_current s; Some (lock_holder s l = t) }"

definition lock_acquire :: "sync \<Rightarrow> lock_id \<Rightarrow> sync option" where
  "lock_acquire s l = do {
     ASSERT (\<not> intr_context s);
     h \<leftarrow> lock_held_by_current_thread s l;
     ASSERT (\<not> h);
     Some (push s [Sema_down (LockSem l), Take l]) }"

definition lock_take :: "sync \<Rightarrow> lock_id \<Rightarrow> sync option" where
  "lock_take s l = do { t \<leftarrow> thread_current s; Some (set_holder s l t) }"

definition lock_try_acquire :: "sync \<Rightarrow> lock_id \<Rightarrow> (bool \<times> sync) option" where
  "lock_try_acquire s l = do {
     h \<leftarrow> lock_held_by_current_thread s l;
     ASSERT (\<not> h);
     (success, s) \<leftarrow> sema_try_down s (LockSem l);
     Some (success, if success then push s [Take l] else s) }"

definition lock_release :: "sync \<Rightarrow> lock_id \<Rightarrow> sync option" where
  "lock_release s l = do {
     h \<leftarrow> lock_held_by_current_thread s l;
     ASSERT h;
     Some (push (set_holder s l NULL) [Sema_up (LockSem l)]) }"

section \<open>Condition variables\<close>

definition cond_init :: "sync \<Rightarrow> cond_id \<Rightarrow> sync" where
  "cond_init s c = set_cond s c []"

definition cond_wait :: "sync \<Rightarrow> cond_id \<Rightarrow> lock_id \<Rightarrow> sync option" where
  "cond_wait s c l = do {
     ASSERT (\<not> intr_context s);
     h \<leftarrow> lock_held_by_current_thread s l;
     ASSERT h;
     t \<leftarrow> thread_current s;
     let s = sema_init s (WaitSem t) 0;
     let s = set_cond s c (conds s c @ [WaitSem t]);
     Some (push s [Lock_release l, Sema_down (WaitSem t), Lock_acquire l]) }"

definition cond_signal :: "sync \<Rightarrow> cond_id \<Rightarrow> lock_id \<Rightarrow> sync option" where
  "cond_signal s c l = do {
     ASSERT (\<not> intr_context s);
     h \<leftarrow> lock_held_by_current_thread s l;
     ASSERT h;
     Some (case conds s c of [] \<Rightarrow> s | w # ws \<Rightarrow> push (set_cond s c ws) [Sema_up w]) }"

definition cond_broadcast :: "sync \<Rightarrow> cond_id \<Rightarrow> lock_id \<Rightarrow> sync" where
  "cond_broadcast s c l =
     (if conds s c \<noteq> [] then push s [Cond_signal c l, Cond_broadcast c l] else s)"

section \<open>Readers-writers lock\<close>

definition rw_lock_init :: "sync \<Rightarrow> nat \<Rightarrow> sync" where
  "rw_lock_init s r = upd_rw (cond_init (cond_init (lock_init s (Guard r)) (RwRead r)) (RwWrite r)) r
     (\<lambda>_. \<lparr>AR = 0, WR = 0, AW = 0, WW = 0\<rparr>)"

definition rw_lock_acquire :: "sync \<Rightarrow> nat \<Rightarrow> bool \<Rightarrow> sync" where
  "rw_lock_acquire s r reader =
     push s [Lock_acquire (Guard r), Rw_test r reader, Lock_release (Guard r)]"

definition rw_test :: "sync \<Rightarrow> nat \<Rightarrow> bool \<Rightarrow> sync" where
  "rw_test s r reader =
     (let n = rws s r in
      if reader
      then (if AW n + WW n > 0
            then push (upd_rw s r (\<lambda>n. n\<lparr>WR := WR n + 1\<rparr>)) [Cond_wait (RwRead r) (Guard r), Rw_woken r reader]
            else push s [Rw_enter r reader])
      else (if AR n + AW n > 0
            then push (upd_rw s r (\<lambda>n. n\<lparr>WW := WW n + 1\<rparr>)) [Cond_wait (RwWrite r) (Guard r), Rw_woken r reader]
            else push s [Rw_enter r reader]))"

definition rw_woken :: "sync \<Rightarrow> nat \<Rightarrow> bool \<Rightarrow> sync" where
  "rw_woken s r reader = push (upd_rw s r
     (if reader then (\<lambda>n. n\<lparr>WR := WR n - 1\<rparr>) else (\<lambda>n. n\<lparr>WW := WW n - 1\<rparr>))) [Rw_test r reader]"

definition rw_enter :: "sync \<Rightarrow> nat \<Rightarrow> bool \<Rightarrow> sync" where
  "rw_enter s r reader =
     (if reader
      then (upd_rw s r (\<lambda>n. n\<lparr>AR := AR n + 1\<rparr>))\<lparr>readers := (readers s)(r := running s # readers s r)\<rparr>
      else (upd_rw s r (\<lambda>n. n\<lparr>AW := AW n + 1\<rparr>))\<lparr>writers := (writers s)(r := running s # writers s r)\<rparr>)"

definition rw_lock_release :: "sync \<Rightarrow> nat \<Rightarrow> bool \<Rightarrow> sync" where
  "rw_lock_release s r reader =
     push s [Lock_acquire (Guard r), Rw_leave r reader, Lock_release (Guard r)]"

definition rw_leave :: "sync \<Rightarrow> nat \<Rightarrow> bool \<Rightarrow> sync" where
  "rw_leave s r reader = push
     (if reader
      then (upd_rw s r (\<lambda>n. n\<lparr>AR := AR n - 1\<rparr>))\<lparr>readers := (readers s)(r := remove1 (running s) (readers s r))\<rparr>
      else (upd_rw s r (\<lambda>n. n\<lparr>AW := AW n - 1\<rparr>))\<lparr>writers := (writers s)(r := remove1 (running s) (writers s r))\<rparr>)
     [Rw_wake r reader]"

definition rw_wake :: "sync \<Rightarrow> nat \<Rightarrow> bool \<Rightarrow> sync" where
  "rw_wake s r reader =
     (let n = rws s r in
      if reader
      then (if AR n = 0 \<and> WW n > 0 then push s [Cond_signal (RwWrite r) (Guard r)] else s)
      else (if WW n > 0 then push s [Cond_signal (RwWrite r) (Guard r)]
            else if WR n > 0 then push s [Cond_broadcast (RwRead r) (Guard r)] else s))"

section \<open>Execution\<close>

fun exec :: "frame \<Rightarrow> sync \<Rightarrow> sync option" where
  "exec (Sema_down m) s = sema_down s m"
| "exec (Down_loop m old) s = down_loop s m old"
| "exec (Sema_up m) s = sema_up s m"
| "exec (Lock_acquire l) s = lock_acquire s l"
| "exec (Take l) s = lock_take s l"
| "exec (Lock_release l) s = lock_release s l"
| "exec (Cond_wait c l) s = cond_wait s c l"
| "exec (Cond_signal c l) s = cond_signal s c l"
| "exec (Cond_broadcast c l) s = Some (cond_broadcast s c l)"
| "exec (Rw_acquire r rd) s = Some (rw_lock_acquire s r rd)"
| "exec (Rw_test r rd) s = Some (rw_test s r rd)"
| "exec (Rw_woken r rd) s = Some (rw_woken s r rd)"
| "exec (Rw_enter r rd) s = Some (rw_enter s r rd)"
| "exec (Rw_release r rd) s = Some (rw_lock_release s r rd)"
| "exec (Rw_leave r rd) s = Some (rw_leave s r rd)"
| "exec (Rw_wake r rd) s = Some (rw_wake s r rd)"

definition pop :: "sync \<Rightarrow> sync" where
  "pop s = s\<lparr>frames := (frames s)(running s := tl (frames s (running s)))\<rparr>"

text \<open>The next thing the running thread does: restore its interrupt level, or run a frame.\<close>

definition run_current :: "sync \<Rightarrow> sync option" where
  "run_current s = (if saved_level s (running s) \<noteq> None then thread_resume s
     else (case frames s (running s) of [] \<Rightarrow> Some s | f # fs \<Rightarrow> exec f (pop s)))"

text \<open>
  The body of the idle thread's loop: interrupts off, sleep; when it runs again \<open>sti; hlt\<close> turns
  interrupts on.
\<close>

definition idle_loop :: "sync \<Rightarrow> sync option" where
  "idle_loop s = (let (_, s) = intr_disable s
     in thread_block (s\<lparr>saved_level := (saved_level s)(running s := Some True)\<rparr>))"

end
