(* ===== verification/Kernel_Synch_Inv.thy ===== *)
theory Kernel_Synch_Inv
  imports Kernel_Synch
begin

text \<open>
  The kernel with its threads, interrupts and synchronisation objects as a step relation, and the
  invariant of its reachable states: the stack discipline of the frames, where sleeping threads
  are, who is inside a lock, that no wake-up is lost, that condition variables only point at
  waiting threads, and that the counters of a readers-writers lock count its users.
\<close>

section \<open>Steps\<close>

text \<open>
  What clients may call, with the discipline that the comments of \<open>synch.c\<close> ask for: no lock is
  acquired twice, a lock is released by its holder, condition variables are used with the lock
  held, and a readers-writers lock is released by a thread that is inside.
\<close>

definition client_op :: "sync \<Rightarrow> frame \<Rightarrow> bool" where
  "client_op s f = (case f of
     Sema_down m \<Rightarrow> (case m of Sem n \<Rightarrow> True | _ \<Rightarrow> False)
   | Sema_up m \<Rightarrow> (case m of Sem n \<Rightarrow> True | _ \<Rightarrow> False)
   | Lock_acquire l \<Rightarrow> (case l of Mutex n \<Rightarrow> lock_holder s l \<noteq> running s | _ \<Rightarrow> False)
   | Lock_release l \<Rightarrow> (case l of Mutex n \<Rightarrow> lock_holder s l = running s | _ \<Rightarrow> False)
   | Cond_wait c l \<Rightarrow> (case (c, l) of (Cv k, Mutex n) \<Rightarrow> lock_holder s l = running s | _ \<Rightarrow> False)
   | Cond_signal c l \<Rightarrow> (case (c, l) of (Cv k, Mutex n) \<Rightarrow> lock_holder s l = running s | _ \<Rightarrow> False)
   | Cond_broadcast c l \<Rightarrow> (case (c, l) of (Cv k, Mutex n) \<Rightarrow> lock_holder s l = running s | _ \<Rightarrow> False)
   | Rw_acquire r rd \<Rightarrow> True
   | Rw_release r rd \<Rightarrow> running s \<in> set (if rd then readers s r else writers s r)
   | _ \<Rightarrow> False)"

text \<open>A device whose interrupt handler ups a semaphore, as the disk driver does.\<close>

definition device_handlers :: "nat \<Rightarrow> nat \<Rightarrow> (sync \<Rightarrow> sync option) option" where
  "device_handlers n vec = (if vec = 0x2e then Some (\<lambda>s. sema_up s (Sem n)) else None)"

text \<open>The running thread is in its own code: no pending frame, no level to restore.\<close>

definition at_client :: "sync \<Rightarrow> bool" where
  "at_client s \<longleftrightarrow> saved_level s (running s) = None \<and> frames s (running s) = []"

definition unencumbered :: "sync \<Rightarrow> addr \<Rightarrow> bool" where
  "unencumbered s t \<longleftrightarrow> (\<forall>l. lock_holder s l \<noteq> t) \<and> (\<forall>r. t \<notin> set (readers s r) \<and> t \<notin> set (writers s r))"

inductive sync_step :: "sync \<Rightarrow> sync \<Rightarrow> bool" where
  run: "\<not> at_client s \<Longrightarrow> run_current s = Some s' \<Longrightarrow> sync_step s s'"
| call: "at_client s \<Longrightarrow> running s \<noteq> idle_thread s \<Longrightarrow> client_op s f \<Longrightarrow> sync_step s (push s [f])"
| idle: "at_client s \<Longrightarrow> running s = idle_thread s \<Longrightarrow> idle_loop s = Some s' \<Longrightarrow> sync_step s s'"
| yield: "at_client s \<Longrightarrow> running s \<noteq> idle_thread s \<Longrightarrow> thread_yield s = Some s' \<Longrightarrow> sync_step s s'"
| exit: "at_client s \<Longrightarrow> running s \<noteq> idle_thread s \<Longrightarrow> unencumbered s (running s) \<Longrightarrow>
    thread_exit s = Some s' \<Longrightarrow> sync_step s s'"
| create: "at_client s \<Longrightarrow> running s \<noteq> idle_thread s \<Longrightarrow> ths s page = None \<Longrightarrow> page \<noteq> NULL \<Longrightarrow>
    thread_create s page (Some nm) PRI_DEFAULT func aux = Some (tid, s') \<Longrightarrow>
    sync_step s (s'\<lparr>frames := (frames s')(page := [])\<rparr>)"
| timer: "intr_on s \<Longrightarrow> external_interrupt tick_handlers s 0x20 = Some s' \<Longrightarrow> sync_step s s'"
| device: "intr_on s \<Longrightarrow> external_interrupt (device_handlers n) s 0x2e = Some s' \<Longrightarrow> sync_step s s'"

text \<open>
  After boot: the main thread runs, the idle thread sleeps in its loop, all synchronisation
  objects are freshly initialised.
\<close>

definition booted :: "addr \<Rightarrow> addr \<Rightarrow> (nat \<Rightarrow> u32) \<Rightarrow> sync" where
  "booted main idl vals = \<lparr>
     ths = [main \<mapsto> \<lparr>th_tid = 1, th_status = THREAD_RUNNING, th_name = ''main'', th_stack = main + PGSIZE,
         th_priority = PRI_DEFAULT, th_pcb = NULL, th_magic = THREAD_MAGIC, th_kf = None\<rparr>,
       idl \<mapsto> \<lparr>th_tid = 2, th_status = THREAD_BLOCKED, th_name = ''idle'', th_stack = idl + PGSIZE - 44,
         th_priority = PRI_MIN, th_pcb = NULL, th_magic = THREAD_MAGIC, th_kf = None\<rparr>],
     running = main, ready = [], all_list = [main, idl], idle_thread = idl, initial_thread = main,
     next_tid = 3, active_sched_policy = SCHED_FIFO, thread_ticks = 0, idle_ticks = 0, kernel_ticks = 0,
     user_ticks = 0, intr_on = True, in_external_intr = False, yield_on_return = False,
     unexpected_cnt = (\<lambda>_. 0), saved_level = [idl \<mapsto> True],
     semas = (\<lambda>m. case m of Sem n \<Rightarrow> \<lparr>sem_value = vals n, waiters = []\<rparr>
       | LockSem l \<Rightarrow> \<lparr>sem_value = 1, waiters = []\<rparr> | WaitSem t \<Rightarrow> \<lparr>sem_value = 0, waiters = []\<rparr>),
     lock_holder = (\<lambda>_. NULL), conds = (\<lambda>_. []),
     rws = (\<lambda>_. \<lparr>AR = 0, WR = 0, AW = 0, WW = 0\<rparr>), frames = (\<lambda>_. []),
     readers = (\<lambda>_. []), writers = (\<lambda>_. [])\<rparr>"

inductive reachable :: "sync \<Rightarrow> bool" where
  boot: "main \<noteq> idl \<Longrightarrow> main \<noteq> NULL \<Longrightarrow> idl \<noteq> NULL \<Longrightarrow> reachable (booted main idl vals)"
| step: "reachable s \<Longrightarrow> sync_step s s' \<Longrightarrow> reachable s'"

section \<open>The invariant\<close>

named_theorems sync_defs \<open>parts of the invariant\<close>

abbreviation asleep :: "sync \<Rightarrow> addr \<Rightarrow> bool" where
  "asleep s t \<equiv> status s t = Some THREAD_BLOCKED"

definition alive :: "sync \<Rightarrow> addr \<Rightarrow> bool" where
  "alive s t \<longleftrightarrow> status s t \<notin> {None, Some THREAD_DYING}"

definition point :: "sync \<Rightarrow> addr \<Rightarrow> frame option" where
  "point s t = (case frames s t of [] \<Rightarrow> None | f # fs \<Rightarrow> Some f)"

definition held :: "sync \<Rightarrow> addr \<Rightarrow> lock_id set" where
  "held s t = {l. lock_holder s l = t}"

text \<open>
  \<open>stack_ok t H fs\<close>: run from a point where the thread holds exactly the locks \<open>H\<close>, the frames \<open>fs\<close>
  acquire no lock twice, release only what is held, keep the guards where they need them, and
  end without a guard.
\<close>

fun stack_ok :: "addr \<Rightarrow> lock_id set \<Rightarrow> frame list \<Rightarrow> bool" where
  "stack_ok t H [] = (\<forall>r. Guard r \<notin> H)"
| "stack_ok t H (f # fs) = (case f of
     Sema_down m \<Rightarrow> (case m of LockSem l \<Rightarrow> l \<notin> H | WaitSem u \<Rightarrow> u = t | Sem n \<Rightarrow> True) \<and> stack_ok t H fs
   | Down_loop m old \<Rightarrow> (case m of LockSem l \<Rightarrow> l \<notin> H | WaitSem u \<Rightarrow> u = t | Sem n \<Rightarrow> True) \<and> stack_ok t H fs
   | Sema_up m \<Rightarrow> (case m of LockSem l \<Rightarrow> l \<notin> H | _ \<Rightarrow> True) \<and> stack_ok t H fs
   | Lock_acquire l \<Rightarrow> l \<notin> H \<and> stack_ok t (insert l H) fs
   | Take l \<Rightarrow> l \<notin> H \<and> stack_ok t (insert l H) fs
   | Lock_release l \<Rightarrow> l \<in> H \<and> stack_ok t (H - {l}) fs
   | Cond_wait c l \<Rightarrow> l \<in> H \<and> stack_ok t H fs
   | Cond_signal c l \<Rightarrow> l \<in> H \<and> stack_ok t H fs
   | Cond_broadcast c l \<Rightarrow> l \<in> H \<and> stack_ok t H fs
   | Rw_acquire r rd \<Rightarrow> Guard r \<notin> H \<and> stack_ok t H fs
   | Rw_test r rd \<Rightarrow> Guard r \<in> H \<and> stack_ok t H fs
   | Rw_woken r rd \<Rightarrow> Guard r \<in> H \<and> stack_ok t H fs
   | Rw_enter r rd \<Rightarrow> Guard r \<in> H \<and> stack_ok t H fs
   | Rw_release r rd \<Rightarrow> Guard r \<notin> H \<and> stack_ok t H fs
   | Rw_leave r rd \<Rightarrow> Guard r \<in> H \<and> stack_ok t H fs
   | Rw_wake r rd \<Rightarrow> Guard r \<in> H \<and> stack_ok t H fs)"

text \<open>
  Which frames can be below the top: \<open>Take\<close> only under the down of its lock, the down on the
  thread's own semaphore only under the release in \<open>cond_wait\<close>.
\<close>

definition plain :: "frame \<Rightarrow> bool" where
  "plain f = (case f of Lock_acquire l \<Rightarrow> True | Lock_release l \<Rightarrow> True | Rw_test r rd \<Rightarrow> True
     | Rw_woken r rd \<Rightarrow> True | Rw_leave r rd \<Rightarrow> True | Cond_broadcast c l \<Rightarrow> True | _ \<Rightarrow> False)"

definition waiting_tail :: "addr \<Rightarrow> frame list \<Rightarrow> bool" where
  "waiting_tail t fs = (case fs of f # gs \<Rightarrow> f = Sema_down (WaitSem t) \<and> list_all plain gs | [] \<Rightarrow> False)"

definition down_tail :: "sem \<Rightarrow> frame list \<Rightarrow> bool" where
  "down_tail m fs = (case m of
     LockSem l \<Rightarrow> (case fs of f # gs \<Rightarrow> f = Take l \<and> list_all plain gs | [] \<Rightarrow> False)
   | _ \<Rightarrow> list_all plain fs)"

definition shape :: "addr \<Rightarrow> frame list \<Rightarrow> bool" where
  "shape t fs = (case fs of [] \<Rightarrow> True | f # gs \<Rightarrow> (case f of
       Sema_down m \<Rightarrow> down_tail m gs
     | Down_loop m old \<Rightarrow> down_tail m gs
     | Lock_release l \<Rightarrow> list_all plain gs \<or> waiting_tail t gs
     | Sema_up m \<Rightarrow> list_all plain gs \<or> waiting_tail t gs
     | _ \<Rightarrow> list_all plain gs))"

definition resume_inv :: "sync \<Rightarrow> bool" where
  "resume_inv s \<longleftrightarrow> (\<forall>t m old. alive s t \<longrightarrow> saved_level s t \<noteq> None \<longrightarrow> point s t \<noteq> Some (Down_loop m old))"

definition level_inv :: "sync \<Rightarrow> bool" where [sync_defs]:
  "level_inv s \<longleftrightarrow> \<not> in_external_intr s \<and> (intr_on s \<longrightarrow> saved_level s (running s) = None \<and>
     (\<forall>m old. point s (running s) \<noteq> Some (Down_loop m old))) \<and> resume_inv s"

definition stack_inv :: "sync \<Rightarrow> bool" where [sync_defs]:
  "stack_inv s \<longleftrightarrow> frames s (idle_thread s) = [] \<and>
     (\<forall>t. alive s t \<longrightarrow> stack_ok t (held s t) (frames s t) \<and> shape t (frames s t)) \<and>
     (\<forall>l. lock_holder s l \<noteq> NULL \<longrightarrow> alive s (lock_holder s l))"

definition wait_inv :: "sync \<Rightarrow> bool" where [sync_defs]:
  "wait_inv s \<longleftrightarrow> (\<forall>m. distinct (waiters (semas s m))) \<and>
     (\<forall>m t. t \<in> set (waiters (semas s m)) \<longleftrightarrow>
        t \<noteq> idle_thread s \<and> asleep s t \<and> (\<exists>old. point s t = Some (Down_loop m old))) \<and>
     (\<forall>t. t \<noteq> idle_thread s \<longrightarrow> asleep s t \<longrightarrow> (\<exists>m old. point s t = Some (Down_loop m old)))"

definition insider :: "sync \<Rightarrow> lock_id \<Rightarrow> addr \<Rightarrow> bool" where
  "insider s l t \<longleftrightarrow> alive s t \<and> (lock_holder s l = t \<or> point s t = Some (Take l) \<or>
     point s t = Some (Sema_up (LockSem l)))"

definition lock_inv :: "sync \<Rightarrow> bool" where [sync_defs]:
  "lock_inv s \<longleftrightarrow> (\<forall>l.
     (sem_value (semas s (LockSem l)) = 1 \<and> (\<forall>t. \<not> insider s l t)) \<or>
     (sem_value (semas s (LockSem l)) = 0 \<and> (\<exists>t. insider s l t \<and> (\<forall>u. insider s l u \<longrightarrow> u = t))))"

definition woken :: "sync \<Rightarrow> sem \<Rightarrow> addr set" where
  "woken s m = {t. alive s t \<and> \<not> asleep s t \<and> (\<exists>old. point s t = Some (Down_loop m old))}"

definition wake_inv :: "sync \<Rightarrow> bool" where [sync_defs]:
  "wake_inv s \<longleftrightarrow> (\<forall>m. waiters (semas s m) \<noteq> [] \<longrightarrow> unat (sem_value (semas s m)) \<le> card (woken s m))"

definition pending :: "sync \<Rightarrow> addr \<Rightarrow> bool" where
  "pending s t \<longleftrightarrow> Sema_down (WaitSem t) \<in> set (frames s t) \<or>
     (\<exists>old. Down_loop (WaitSem t) old \<in> set (frames s t))"

definition signalled :: "sync \<Rightarrow> addr \<Rightarrow> addr \<Rightarrow> bool" where
  "signalled s u t \<longleftrightarrow> alive s u \<and> point s u = Some (Sema_up (WaitSem t))"

definition cond_inv :: "sync \<Rightarrow> bool" where [sync_defs]:
  "cond_inv s \<longleftrightarrow> (\<forall>c. distinct (conds s c)) \<and>
     (\<forall>c d w. w \<in> set (conds s c) \<longrightarrow> w \<in> set (conds s d) \<longrightarrow> c = d) \<and>
     (\<forall>c w. w \<in> set (conds s c) \<longrightarrow> (\<exists>t. w = WaitSem t \<and> alive s t \<and> pending s t)) \<and>
     (\<forall>u t. signalled s u t \<longrightarrow> alive s t \<and> pending s t \<and> (\<forall>c. WaitSem t \<notin> set (conds s c)) \<and>
        (\<forall>v. signalled s v t \<longrightarrow> v = u)) \<and>
     (\<forall>t. alive s t \<and> pending s t \<longrightarrow>
        (sem_value (semas s (WaitSem t)) = 0 \<longleftrightarrow>
          (\<exists>c. WaitSem t \<in> set (conds s c)) \<or> (\<exists>u. signalled s u t)) \<and>
        sem_value (semas s (WaitSem t)) \<le> 1)"

definition leaving :: "sync \<Rightarrow> nat \<Rightarrow> bool \<Rightarrow> addr \<Rightarrow> nat" where
  "leaving s r rd t = length (filter (\<lambda>f. f = Rw_leave r rd \<or> f = Rw_release r rd) (frames s t))"

definition users :: "sync \<Rightarrow> nat \<Rightarrow> bool \<Rightarrow> addr list" where
  "users s r rd = (if rd then readers s r else writers s r)"

definition waiting :: "rw_counts \<Rightarrow> bool \<Rightarrow> int" where
  "waiting n rd = (if rd then WR n else WW n)"

definition sleepers :: "sync \<Rightarrow> nat \<Rightarrow> bool \<Rightarrow> nat" where
  "sleepers s r rd = (\<Sum>t | alive s t. count_list (frames s t) (Rw_woken r rd))"

definition rw_inv :: "sync \<Rightarrow> bool" where [sync_defs]:
  "rw_inv s \<longleftrightarrow> (\<forall>r rd. waiting (rws s r) rd = int (sleepers s r rd)) \<and> (\<forall>r. AR (rws s r) = int (length (users s r True)) \<and> AW (rws s r) = int (length (users s r False)) \<and>
     (users s r False = [] \<or> length (users s r False) = 1 \<and> users s r True = []) \<and>
     (\<forall>t rd. alive s t \<longrightarrow> point s t = Some (Rw_enter r rd) \<longrightarrow>
        users s r False = [] \<and> (\<not> rd \<longrightarrow> users s r True = [])) \<and>
     (\<forall>t rd. alive s t \<longrightarrow> leaving s r rd t \<le> count_list (users s r rd) t) \<and>
     (\<forall>t rd. t \<in> set (users s r rd) \<longrightarrow> alive s t))"

definition sync_inv :: "sync \<Rightarrow> bool" where
  "sync_inv s \<longleftrightarrow> sched_inv s \<and> level_inv s \<and> stack_inv s \<and> wait_inv s \<and> lock_inv s \<and> wake_inv s \<and>
     cond_inv s \<and> rw_inv s"

section \<open>What steps leave alone\<close>

lemma status_sync [simp]:
  "status (semas_update f s) = status s" "status (lock_holder_update g s) = status s"
  "status (conds_update h s) = status s" "status (rws_update i s) = status s"
  "status (frames_update j s) = status s" "status (readers_update k s) = status s"
  "status (writers_update k s) = status s"
  by (simp_all add: status_def fun_eq_iff)

lemma sched_inv_sync [simp]:
  "sched_inv (semas_update f s) = sched_inv s" "sched_inv (lock_holder_update g s) = sched_inv s"
  "sched_inv (conds_update h s) = sched_inv s" "sched_inv (rws_update i s) = sched_inv s"
  "sched_inv (frames_update j s) = sched_inv s" "sched_inv (readers_update k s) = sched_inv s"
  "sched_inv (writers_update k s) = sched_inv s"
  by (rule sched_inv_cong; simp)+

lemma more_sync:
  assumes "kernel.more s' = kernel.more (s :: sync)"
  shows "semas s' = semas s" "lock_holder s' = lock_holder s" "conds s' = conds s" "rws s' = rws s"
    "frames s' = frames s" "readers s' = readers s" "writers s' = writers s"
  using assms by (cases s; cases s'; simp)+

lemma pop_fields [simp]:
  "running (pop s) = running s" "idle_thread (pop s) = idle_thread s" "intr_on (pop s) = intr_on s"
  "in_external_intr (pop s) = in_external_intr s" "saved_level (pop s) = saved_level s"
  "semas (pop s) = semas s" "lock_holder (pop s) = lock_holder s" "conds (pop s) = conds s"
  "rws (pop s) = rws s" "readers (pop s) = readers s" "writers (pop s) = writers s"
  "status (pop s) = status s" "sched_inv (pop s) = sched_inv s"
  "frames (pop s) t = (if t = running s then tl (frames s t) else frames s t)"
  by (simp_all add: pop_def)

lemma push_fields [simp]:
  "running (push s fs) = running s" "idle_thread (push s fs) = idle_thread s" "intr_on (push s fs) = intr_on s"
  "in_external_intr (push s fs) = in_external_intr s" "saved_level (push s fs) = saved_level s"
  "semas (push s fs) = semas s" "lock_holder (push s fs) = lock_holder s" "conds (push s fs) = conds s"
  "rws (push s fs) = rws s" "readers (push s fs) = readers s" "writers (push s fs) = writers s"
  "status (push s fs) = status s" "sched_inv (push s fs) = sched_inv s"
  "frames (push s fs) t = (if t = running s then fs @ frames s t else frames s t)"
  by (simp_all add: push_def)

lemma set_sem_fields [simp]:
  "running (set_sem s m x) = running s" "idle_thread (set_sem s m x) = idle_thread s"
  "intr_on (set_sem s m x) = intr_on s" "in_external_intr (set_sem s m x) = in_external_intr s"
  "saved_level (set_sem s m x) = saved_level s" "semas (set_sem s m x) k = (if k = m then x else semas s k)"
  "lock_holder (set_sem s m x) = lock_holder s" "conds (set_sem s m x) = conds s"
  "rws (set_sem s m x) = rws s" "readers (set_sem s m x) = readers s" "writers (set_sem s m x) = writers s"
  "status (set_sem s m x) = status s" "sched_inv (set_sem s m x) = sched_inv s"
  "frames (set_sem s m x) = frames s"
  by (simp_all add: set_sem_def)

lemma set_holder_fields [simp]:
  "running (set_holder s l t) = running s" "idle_thread (set_holder s l t) = idle_thread s"
  "intr_on (set_holder s l t) = intr_on s" "in_external_intr (set_holder s l t) = in_external_intr s"
  "saved_level (set_holder s l t) = saved_level s" "semas (set_holder s l t) = semas s"
  "lock_holder (set_holder s l t) k = (if k = l then t else lock_holder s k)" "conds (set_holder s l t) = conds s"
  "rws (set_holder s l t) = rws s" "readers (set_holder s l t) = readers s" "writers (set_holder s l t) = writers s"
  "status (set_holder s l t) = status s" "sched_inv (set_holder s l t) = sched_inv s"
  "frames (set_holder s l t) = frames s"
  by (simp_all add: set_holder_def)

lemma set_cond_fields [simp]:
  "running (set_cond s c ws) = running s" "idle_thread (set_cond s c ws) = idle_thread s"
  "intr_on (set_cond s c ws) = intr_on s" "in_external_intr (set_cond s c ws) = in_external_intr s"
  "saved_level (set_cond s c ws) = saved_level s" "semas (set_cond s c ws) = semas s"
  "lock_holder (set_cond s c ws) = lock_holder s" "conds (set_cond s c ws) d = (if d = c then ws else conds s d)"
  "rws (set_cond s c ws) = rws s" "readers (set_cond s c ws) = readers s" "writers (set_cond s c ws) = writers s"
  "status (set_cond s c ws) = status s" "sched_inv (set_cond s c ws) = sched_inv s"
  "frames (set_cond s c ws) = frames s"
  by (simp_all add: set_cond_def)

lemma upd_rw_fields [simp]:
  "running (upd_rw s r f) = running s" "idle_thread (upd_rw s r f) = idle_thread s"
  "intr_on (upd_rw s r f) = intr_on s" "in_external_intr (upd_rw s r f) = in_external_intr s"
  "saved_level (upd_rw s r f) = saved_level s" "semas (upd_rw s r f) = semas s"
  "lock_holder (upd_rw s r f) = lock_holder s" "conds (upd_rw s r f) = conds s"
  "rws (upd_rw s r f) k = (if k = r then f (rws s r) else rws s k)" "readers (upd_rw s r f) = readers s"
  "writers (upd_rw s r f) = writers s" "status (upd_rw s r f) = status s"
  "sched_inv (upd_rw s r f) = sched_inv s" "frames (upd_rw s r f) = frames s"
  by (simp_all add: upd_rw_def)

definition sync_rest :: "sync \<Rightarrow> bool" where
  "sync_rest s \<longleftrightarrow> stack_inv s \<and> wait_inv s \<and> lock_inv s \<and> wake_inv s \<and> cond_inv s \<and> rw_inv s"

lemma sync_inv_parts: "sync_inv s \<longleftrightarrow> sched_inv s \<and> level_inv s \<and> sync_rest s"
  by (simp add: sync_inv_def sync_rest_def)

text \<open>
  A step that changes the sync state only at the running thread.
\<close>

definition elsewhere :: "sync \<Rightarrow> sync \<Rightarrow> bool" where
  "elsewhere s s' \<longleftrightarrow> running s' = running s \<and> idle_thread s' = idle_thread s \<and> status s' = status s \<and>
     (\<forall>t. t \<noteq> running s \<longrightarrow> frames s' t = frames s t)"

lemma elsewhereD:
  assumes "elsewhere s s'"
  shows "running s' = running s" "idle_thread s' = idle_thread s" "status s' = status s"
    "t \<noteq> running s \<Longrightarrow> frames s' t = frames s t" "alive s' = alive s"
    "t \<noteq> running s \<Longrightarrow> point s' t = point s t"
  using assms by (simp_all add: elsewhere_def alive_def fun_eq_iff point_def)

lemma wait_inv_keep:
  assumes "elsewhere s s'" "wait_inv s" "\<not> asleep s (running s)"
    "\<And>m. waiters (semas s' m) = waiters (semas s m)"
  shows "wait_inv s'"
proof -
  note e = elsewhereD [OF assms(1)]
  have "asleep s t \<Longrightarrow> point s' t = point s t" for t using assms(3) e(6) by metis
  then show ?thesis
    using assms(2,4) unfolding wait_inv_def e(2,3) by (metis (no_types, lifting))
qed

lemma finite_alive: "sched_inv s \<Longrightarrow> finite {t. alive s t}"
  by (rule finite_subset [of _ "set (all_list s)"]) (auto simp: sched_inv_def all_ok_def alive_def)

lemma finite_woken: "sched_inv s \<Longrightarrow> finite (woken s m)"
  using finite_alive [of s] by (rule rev_finite_subset) (auto simp: woken_def)

lemma wake_inv_keep:
  assumes "elsewhere s s'" "sched_inv s'" "wake_inv s"
    "\<And>m. semas s' m = semas s m \<or> waiters (semas s' m) = []"
    "\<And>m old. point s (running s) \<noteq> Some (Down_loop m old)"
  shows "wake_inv s'"
  unfolding wake_inv_def
proof (intro allI impI)
  fix m
  assume w: "waiters (semas s' m) \<noteq> []"
  note e = elsewhereD [OF assms(1)]
  have "point s' t = Some (Down_loop m old)" if "point s t = Some (Down_loop m old)" for t old
    using that assms(5) e(6) by metis
  then have "woken s m \<subseteq> woken s' m" unfolding woken_def e(3,5) by blast
  then have "card (woken s m) \<le> card (woken s' m)"
    using finite_woken [OF assms(2)] by (rule card_mono [rotated])
  moreover have "semas s' m = semas s m" using w assms(4) by blast
  ultimately show "unat (sem_value (semas s' m)) \<le> card (woken s' m)"
    using assms(3) w unfolding wake_inv_def by (metis le_trans)
qed

lemma lock_inv_keep:
  assumes "lock_inv s" "\<And>l t. insider s' l t = insider s l t"
    "\<And>l. sem_value (semas s' (LockSem l)) = sem_value (semas s (LockSem l))"
  shows "lock_inv s'"
  using assms by (simp add: lock_inv_def)

lemma alive_not_NULL: "sched_inv s \<Longrightarrow> alive s t \<Longrightarrow> t \<noteq> NULL"
  using threads_ok_nonnull [of s t] by (auto simp: sched_inv_def alive_def)

lemma stack_inv_keep:
  assumes "elsewhere s s'" "stack_inv s" "sched_inv s" "running s \<noteq> idle_thread s" "alive s (running s)"
    "\<And>l. lock_holder s' l \<noteq> lock_holder s l \<Longrightarrow>
      lock_holder s' l \<in> {NULL, running s} \<and> lock_holder s l \<in> {NULL, running s}"
    "stack_ok (running s) (held s' (running s)) (frames s' (running s))"
    "shape (running s) (frames s' (running s))"
  shows "stack_inv s'"
proof -
  note e = elsewhereD [OF assms(1)]
  have h: "held s' t = held s t" if "alive s t" "t \<noteq> running s" for t
  proof -
    have "(lock_holder s' l = t) = (lock_holder s l = t)" for l
      using assms(6) [of l] that(2) alive_not_NULL [OF assms(3) that(1)]
      by (cases "lock_holder s' l = lock_holder s l") auto
    then show ?thesis by (simp add: held_def)
  qed
  have "alive s (lock_holder s' l)" if "lock_holder s' l \<noteq> NULL" for l
    using assms(2,5,6) that unfolding stack_inv_def by (metis insertE singletonD)
  then show ?thesis
    using assms(2,4,7,8) h e(4) unfolding stack_inv_def e(2,5) by (metis (no_types, lifting))
qed

text \<open>The situation in which the running thread executes the frame \<open>f\<close>.\<close>

definition runs :: "sync \<Rightarrow> frame \<Rightarrow> frame list \<Rightarrow> bool" where
  "runs s f fs \<longleftrightarrow> sync_inv s \<and> saved_level s (running s) = None \<and> frames s (running s) = f # fs"

lemma runsD:
  assumes "runs s f fs"
  shows "sched_inv s" "level_inv s" "stack_inv s" "wait_inv s" "lock_inv s" "wake_inv s" "cond_inv s"
    "rw_inv s" "frames s (running s) = f # fs" "running s \<noteq> idle_thread s" "alive s (running s)"
    "\<not> asleep s (running s)" "stack_ok (running s) (held s (running s)) (f # fs)"
    "shape (running s) (f # fs)" "point s (running s) = Some f" "\<not> in_external_intr s"
    "thread_current (pop s) = Some (running s)" "thread_current s = Some (running s)"
    "running s \<noteq> NULL" "saved_level s (running s) = None"
proof -
  show "saved_level s (running s) = None" using assms by (simp add: runs_def)
  show inv: "sched_inv s" "level_inv s" "stack_inv s" "wait_inv s" "lock_inv s" "wake_inv s" "cond_inv s" "rw_inv s"
    and fr: "frames s (running s) = f # fs"
    using assms by (simp_all add: runs_def sync_inv_def)
  note r = sched_inv_running [OF inv(1)]
  show "running s \<noteq> idle_thread s" using inv(3) fr by (auto simp: stack_inv_def)
  show al: "alive s (running s)" using r by (simp add: alive_def)
  show "\<not> asleep s (running s)" using r by simp
  show "stack_ok (running s) (held s (running s)) (f # fs)" "shape (running s) (f # fs)"
    using inv(3) al fr unfolding stack_inv_def by metis+
  show "point s (running s) = Some f" using fr by (simp add: point_def)
  show "\<not> in_external_intr s" using inv(2) by (simp add: level_inv_def)
  show "thread_current (pop s) = Some (running s)" using thread_current_ok [of "pop s"] inv(1) by simp
  show "thread_current s = Some (running s)" using thread_current_ok inv(1) by blast
  show "running s \<noteq> NULL" using alive_not_NULL [OF inv(1) al] .
qed

lemma level_keep:
  assumes r: "runs s f fs" and e: "running s' = running s" "alive s' = alive s" "saved_level s' = saved_level s"
    "in_external_intr s' = in_external_intr s" "\<And>t. t \<noteq> running s \<Longrightarrow> point s' t = point s t"
    and pt: "\<And>m old. point s' (running s) \<noteq> Some (Down_loop m old)"
  shows "level_inv s'"
proof -
  note R = runsD [OF r]
  have "point s' t \<noteq> Some (Down_loop m old)" if "alive s t" "saved_level s t \<noteq> None" for t m old
  proof (cases "t = running s")
    case True
    then show ?thesis using that R(20) by simp
  next
    case False
    then show ?thesis using that R(2) e(5) by (simp add: level_inv_def resume_inv_def)
  qed
  then show ?thesis using R(16,20) pt by (simp add: level_inv_def resume_inv_def e)
qed

text \<open>Frames whose execution is visible to no invariant but that of the stack.\<close>

definition quiet :: "frame \<Rightarrow> bool" where
  "quiet f = (case f of Take l \<Rightarrow> False | Sema_up m \<Rightarrow> False | Down_loop m old \<Rightarrow> False | Sema_down m \<Rightarrow> False
     | Rw_enter r rd \<Rightarrow> False | Rw_leave r rd \<Rightarrow> False | Rw_release r rd \<Rightarrow> False | _ \<Rightarrow> True)"

lemma plain_facts:
  assumes "list_all plain fs"
  shows "Take l \<notin> set fs" "Sema_up m \<notin> set fs" "Down_loop m old \<notin> set fs" "Sema_down m \<notin> set fs"
    "Rw_enter r rd \<notin> set fs" "Cond_wait c l \<notin> set fs" "Cond_signal c l \<notin> set fs"
  using assms by (induction fs) (auto simp: plain_def)

lemma point_hd: "point s t = Some f \<Longrightarrow> f \<in> set (frames s t)"
  by (auto simp: point_def split: list.splits)

lemma insider_keep:
  assumes "elsewhere s s'" "lock_holder s' = lock_holder s"
    "point s (running s) \<noteq> Some (Take l)" "point s (running s) \<noteq> Some (Sema_up (LockSem l))"
    "point s' (running s) \<noteq> Some (Take l)" "point s' (running s) \<noteq> Some (Sema_up (LockSem l))"
  shows "insider s' l t = insider s l t"
  using assms(2-6) elsewhereD(4-6) [OF assms(1)] by (cases "t = running s") (simp_all add: insider_def)

lemma cond_inv_keep:
  assumes "conds s' = conds s" "\<And>t. sem_value (semas s' (WaitSem t)) = sem_value (semas s (WaitSem t))"
    "alive s' = alive s" "pending s' = pending s" "signalled s' = signalled s" "cond_inv s"
  shows "cond_inv s'"
  using assms(6) unfolding cond_inv_def assms(1-5) .

lemma signalled_keep:
  assumes "elsewhere s s'" "\<And>t. point s (running s) \<noteq> Some (Sema_up (WaitSem t))"
    "\<And>t. point s' (running s) \<noteq> Some (Sema_up (WaitSem t))"
  shows "signalled s' = signalled s"
  unfolding fun_eq_iff
proof (intro allI)
  fix u t
  show "signalled s' u t = signalled s u t"
    using assms(2,3) elsewhereD(5,6) [OF assms(1)] by (cases "u = running s") (simp_all add: signalled_def)
qed

lemma sleepers_step:
  assumes "elsewhere s s'" "finite {t. alive s t}" "alive s (running s)"
  shows "sleepers s' k rd + count_list (frames s (running s)) (Rw_woken k rd) =
    sleepers s k rd + count_list (frames s' (running s)) (Rw_woken k rd)"
proof -
  note E = elsewhereD [OF assms(1)]
  have "sleepers x k rd = count_list (frames x (running s)) (Rw_woken k rd) +
      (\<Sum>t \<in> {t. alive s t} - {running s}. count_list (frames x t) (Rw_woken k rd))"
    if "alive x = alive s" for x
    using assms(2,3) that by (simp add: sleepers_def sum.remove [of "{t. alive s t}" "running s"])
  note this [OF refl] this [OF E(5)]
  moreover have "(\<Sum>t \<in> {t. alive s t} - {running s}. count_list (frames s' t) (Rw_woken k rd)) =
      (\<Sum>t \<in> {t. alive s t} - {running s}. count_list (frames s t) (Rw_woken k rd))"
    using E(4) by (intro sum.cong) auto
  ultimately show ?thesis by simp
qed

lemma rw_inv_keep:
  assumes "\<And>r. AR (rws s' r) = AR (rws s r)" "\<And>r. AW (rws s' r) = AW (rws s r)"
    "readers s' = readers s" "writers s' = writers s" "alive s' = alive s"
    "\<And>r rd t. alive s t \<Longrightarrow> leaving s' r rd t \<le> leaving s r rd t"
    "\<And>r rd t. alive s t \<Longrightarrow> point s' t = Some (Rw_enter r rd) \<Longrightarrow>
      point s t = Some (Rw_enter r rd) \<or> (users s r False = [] \<and> (\<not> rd \<longrightarrow> users s r True = []))"
    "rw_inv s" "\<And>r rd. waiting (rws s' r) rd = int (sleepers s' r rd)"
  shows "rw_inv s'"
proof -
  have u: "users s' = users s" using assms(3,4) by (simp add: users_def fun_eq_iff)
  show ?thesis
    using assms(8) unfolding rw_inv_def u assms(1,2,5)
    using assms(6,7,9) by (metis (no_types, lifting) le_trans)
qed

lemma point_frames: "point s t = (if frames s t = [] then None else Some (hd (frames s t)))"
  by (simp add: point_def split: list.splits)

text \<open>Frames that are pushed by a frame without touching a semaphore or a lock.\<close>

definition pushable :: "frame \<Rightarrow> bool" where
  "pushable f = (case f of Take l \<Rightarrow> False | Sema_up m \<Rightarrow> False | Down_loop m old \<Rightarrow> False
     | Sema_down m \<Rightarrow> (case m of WaitSem t \<Rightarrow> False | _ \<Rightarrow> True) | _ \<Rightarrow> True)"

lemma frames_step:
  assumes r: "runs s f fs" and e: "elsewhere s s'" and fr: "frames s' (running s) = gs @ fs"
    and same: "semas s' = semas s" "lock_holder s' = lock_holder s" "conds s' = conds s"
      "readers s' = readers s" "writers s' = writers s"
      "\<And>r. AR (rws s' r) = AR (rws s r)" "\<And>r. AW (rws s' r) = AW (rws s r)"
    and f: "pushable f" "\<And>m. f \<noteq> Sema_down m" "\<And>l. f \<noteq> Lock_release l"
    and gs: "gs \<noteq> [] \<longrightarrow> pushable (hd gs)" "\<And>t. Sema_down (WaitSem t) \<notin> set gs"
      "\<And>t old. Down_loop (WaitSem t) old \<notin> set gs"
    and stk: "stack_ok (running s) (held s (running s)) (gs @ fs)" "shape (running s) (gs @ fs)"
    and lv: "\<And>k rd. leaving s' k rd (running s) \<le> leaving s k rd (running s)"
    and en: "\<And>k rd. gs \<noteq> [] \<Longrightarrow> hd gs = Rw_enter k rd \<Longrightarrow> users s k False = [] \<and> (\<not> rd \<longrightarrow> users s k True = [])"
    and lev: "intr_on s' = intr_on s" "saved_level s' = saved_level s" "in_external_intr s' = in_external_intr s"
    and sch: "sched_inv s'"
    and wc: "\<And>k rd. waiting (rws s' k) rd + int (count_list (f # fs) (Rw_woken k rd)) =
      waiting (rws s k) rd + int (count_list (gs @ fs) (Rw_woken k rd))"
  shows "sync_inv s'"
proof -
  note R = runsD [OF r] and E = elsewhereD [OF e]
  have fs: "list_all plain fs" using R(14) f by (cases f) (auto simp: shape_def pushable_def)
  note pl = plain_facts [OF fs]
  have pt: "point s' (running s) \<noteq> Some (Take l)" "point s' (running s) \<noteq> Some (Sema_up m)"
    "point s' (running s) \<noteq> Some (Down_loop m old)" for l m old
    using gs(1) pl fr by (auto simp: point_frames pushable_def hd_append dest!: hd_in_set split: if_splits)
  have pf: "point s (running s) \<noteq> Some (Take l)" "point s (running s) \<noteq> Some (Sema_up m)"
    "point s (running s) \<noteq> Some (Down_loop m old)" for l m old
    using R(15) f by (auto simp: pushable_def)
  have "stack_inv s'"
    by (rule stack_inv_keep [OF e R(3,1,10,11)]) (use stk in \<open>simp_all add: fr same held_def\<close>)
  moreover have "level_inv s'" by (rule level_keep [OF r E(1,5) lev(2,3) E(6) pt(3)])
  moreover have "wait_inv s'" by (rule wait_inv_keep [OF e R(4,12)]) (simp add: same)
  moreover have "lock_inv s'"
    by (rule lock_inv_keep [OF R(5) insider_keep [OF e same(2) pf(1,2) pt(1,2)]]) (simp add: same)
  moreover have "wake_inv s'"
  proof -
    have "woken s' m = woken s m" for m
    proof -
      have "(\<exists>old. point s' t = Some (Down_loop m old)) = (\<exists>old. point s t = Some (Down_loop m old))" for t
        using pt(3) pf(3) E(6) by (cases "t = running s") auto
      then show ?thesis by (simp add: woken_def E(3,5))
    qed
    then show ?thesis using R(6) by (simp add: wake_inv_def same)
  qed
  moreover have "cond_inv s'"
  proof (rule cond_inv_keep [OF same(3) _ E(5) _ signalled_keep [OF e pf(2) pt(2)] R(7)])
    show "pending s' = pending s"
      unfolding fun_eq_iff
    proof
      fix t
      show "pending s' t = pending s t"
        using E(4) [of t] R(9) fr gs(2,3) f pl by (cases "t = running s") (auto simp: pending_def pushable_def)
    qed
  qed (simp add: same)
  moreover have "rw_inv s'"
  proof (rule rw_inv_keep [OF same(6,7,4,5) E(5) _ _ R(8)])
    show "leaving s' k rd t \<le> leaving s k rd t" for k rd t
      using lv E(4) [of t] by (cases "t = running s") (simp_all add: leaving_def)
    show "point s t = Some (Rw_enter k rd) \<or> users s k False = [] \<and> (\<not> rd \<longrightarrow> users s k True = [])"
      if "point s' t = Some (Rw_enter k rd)" for k rd t
    proof (cases "t = running s")
      case True
      then have "gs \<noteq> [] \<and> hd gs = Rw_enter k rd"
        using that fr pl(5) by (cases gs) (auto simp: point_frames dest!: hd_in_set split: if_splits)
      then show ?thesis using en by blast
    qed (use that E(6) in auto)
    show "waiting (rws s' k) rd = int (sleepers s' k rd)" for k rd
    proof -
      have "waiting (rws s k) rd = int (sleepers s k rd)" using R(8) by (simp add: rw_inv_def)
      then show ?thesis
        using wc [of k rd] sleepers_step [OF e finite_alive [OF R(1)] R(11), of k rd] fr R(9) by simp
    qed
  qed
  ultimately show ?thesis using sch by (simp add: sync_inv_def)
qed

text \<open>The frames that only unfold into further frames or change a counter of waiters.\<close>

lemma push_id [simp]: "push s [] = s" "upd_rw s k (\<lambda>n. n) = s"
  by (simp_all add: push_def upd_rw_def)

lemma unfold_step:
  assumes r: "runs s f fs" and g: "\<And>n. AR (g n) = AR n" "\<And>n. AW (g n) = AW n"
    and f: "pushable f" "\<And>m. f \<noteq> Sema_down m" "\<And>l. f \<noteq> Lock_release l"
    and gs: "gs \<noteq> [] \<longrightarrow> pushable (hd gs)" "\<And>t. Sema_down (WaitSem t) \<notin> set gs"
      "\<And>t old. Down_loop (WaitSem t) old \<notin> set gs"
    and stk: "stack_ok (running s) (held s (running s)) (gs @ fs)" "shape (running s) (gs @ fs)"
    and lv: "\<And>k rd. filter (\<lambda>f. f = Rw_leave k rd \<or> f = Rw_release k rd) gs = [] \<or>
      (gs = [Lock_acquire (Guard k), Rw_leave k rd, Lock_release (Guard k)] \<and> f = Rw_release k rd)"
    and en: "\<And>k rd. gs \<noteq> [] \<Longrightarrow> hd gs = Rw_enter k rd \<Longrightarrow> users s k False = [] \<and> (\<not> rd \<longrightarrow> users s k True = [])"
    and wc: "\<And>j rd. waiting (if j = k then g (rws s k) else rws s j) rd + int (count_list (f # fs) (Rw_woken j rd)) =
      waiting (rws s j) rd + int (count_list (gs @ fs) (Rw_woken j rd))"
  shows "sync_inv (push (upd_rw (pop s) k g) gs)"
proof (rule frames_step [OF r, where gs = gs])
  note R = runsD [OF r]
  show "elsewhere s (push (upd_rw (pop s) k g) gs)" by (simp add: elsewhere_def)
  show "leaving (push (upd_rw (pop s) k g) gs) j rd (running s) \<le> leaving s j rd (running s)" for j rd
    using lv [of j rd] R(9) by (auto simp: leaving_def)
  show "waiting (rws (push (upd_rw (pop s) k g) gs) j) rd + int (count_list (f # fs) (Rw_woken j rd)) =
      waiting (rws s j) rd + int (count_list (gs @ fs) (Rw_woken j rd))" for j rd
    using wc [of j rd] by (cases "j = k") (simp_all del: count_list.simps count_list_append)
  show "AR (rws (push (upd_rw (pop s) k g) gs) j) = AR (rws s j)"
    "AW (rws (push (upd_rw (pop s) k g) gs) j) = AW (rws s j)" for j
    using g by simp_all
qed (use f gs stk en runsD(1,9) [OF r] in simp_all)

lemma unfold_push:
  assumes r: "runs s f fs" and f: "pushable f" "\<And>m. f \<noteq> Sema_down m" "\<And>l. f \<noteq> Lock_release l"
    and gs: "gs \<noteq> [] \<longrightarrow> pushable (hd gs)" "\<And>t. Sema_down (WaitSem t) \<notin> set gs"
      "\<And>t old. Down_loop (WaitSem t) old \<notin> set gs"
    and stk: "stack_ok (running s) (held s (running s)) (gs @ fs)" "shape (running s) (gs @ fs)"
    and lv: "\<And>k rd. filter (\<lambda>f. f = Rw_leave k rd \<or> f = Rw_release k rd) gs = [] \<or>
      (gs = [Lock_acquire (Guard k), Rw_leave k rd, Lock_release (Guard k)] \<and> f = Rw_release k rd)"
    and en: "\<And>k rd. gs \<noteq> [] \<Longrightarrow> hd gs = Rw_enter k rd \<Longrightarrow> users s k False = [] \<and> (\<not> rd \<longrightarrow> users s k True = [])"
    and wc: "\<And>j rd. f \<noteq> Rw_woken j rd" "\<And>j rd. Rw_woken j rd \<notin> set gs"
  shows "sync_inv (push (pop s) gs)"
proof -
  have "sync_inv (push (upd_rw (pop s) 0 (\<lambda>n. n)) gs)"
    by (rule unfold_step [OF r _ _ f gs stk lv en]) (use wc in \<open>simp_all add: count_notin\<close>)
  then show ?thesis by simp
qed

lemma unfold_nil:
  assumes r: "runs s f fs" and f: "pushable f" "\<And>m. f \<noteq> Sema_down m" "\<And>l. f \<noteq> Lock_release l"
    and stk: "stack_ok (running s) (held s (running s)) fs" "shape (running s) fs"
    and wc: "\<And>j rd. f \<noteq> Rw_woken j rd"
  shows "sync_inv (pop s)"
  using unfold_push [OF r f, of "[]"] stk wc by simp

lemma shape_plain: "list_all plain fs \<Longrightarrow> shape t fs"
  by (cases fs) (auto simp: shape_def plain_def split: frame.splits)

lemma run_Lock_acquire:
  assumes r: "runs s (Lock_acquire l) fs"
  shows "\<exists>s'. exec (Lock_acquire l) (pop s) = Some s' \<and> sync_inv s'"
proof -
  note R = runsD [OF r]
  have st: "l \<notin> held s (running s)" "stack_ok (running s) (insert l (held s (running s))) fs" "list_all plain fs"
    using R(13,14) by (simp_all add: shape_def)
  then have "lock_holder s l \<noteq> running s" by (simp add: held_def)
  then have "exec (Lock_acquire l) (pop s) = Some (push (pop s) [Sema_down (LockSem l), Take l])"
    using R(16,17) by (simp add: lock_acquire_def lock_held_by_current_thread_def intr_context_def)
  moreover have "sync_inv (push (pop s) [Sema_down (LockSem l), Take l])"
    by (rule unfold_push [OF r]) (use st in \<open>simp_all add: pushable_def shape_def down_tail_def\<close>)
  ultimately show ?thesis by simp
qed

lemma run_Cond_broadcast:
  assumes r: "runs s (Cond_broadcast c l) fs"
  shows "\<exists>s'. exec (Cond_broadcast c l) (pop s) = Some s' \<and> sync_inv s'"
proof -
  note R = runsD [OF r]
  have st: "l \<in> held s (running s)" "stack_ok (running s) (held s (running s)) fs" "list_all plain fs"
    using R(13,14) by (simp_all add: shape_def)
  have "sync_inv (push (pop s) [Cond_signal c l, Cond_broadcast c l])"
    by (rule unfold_push [OF r]) (use st in \<open>simp_all add: pushable_def shape_def plain_def\<close>)
  moreover have "sync_inv (pop s)"
    by (rule unfold_nil [OF r]) (use st in \<open>simp_all add: pushable_def shape_plain\<close>)
  ultimately show ?thesis by (simp add: cond_broadcast_def)
qed

lemma run_Rw_acquire:
  assumes r: "runs s (Rw_acquire k rd) fs"
  shows "\<exists>s'. exec (Rw_acquire k rd) (pop s) = Some s' \<and> sync_inv s'"
proof -
  note R = runsD [OF r]
  have st: "Guard k \<notin> held s (running s)" "stack_ok (running s) (held s (running s)) fs" "list_all plain fs"
    using R(13,14) by (simp_all add: shape_def)
  have "sync_inv (push (pop s) [Lock_acquire (Guard k), Rw_test k rd, Lock_release (Guard k)])"
    by (rule unfold_push [OF r]) (use st in \<open>simp_all add: pushable_def shape_def plain_def insert_Diff_if\<close>)
  then show ?thesis by (simp add: rw_lock_acquire_def)
qed

lemma run_Rw_release:
  assumes r: "runs s (Rw_release k rd) fs"
  shows "\<exists>s'. exec (Rw_release k rd) (pop s) = Some s' \<and> sync_inv s'"
proof -
  note R = runsD [OF r]
  have st: "Guard k \<notin> held s (running s)" "stack_ok (running s) (held s (running s)) fs" "list_all plain fs"
    using R(13,14) by (simp_all add: shape_def)
  have "sync_inv (push (pop s) [Lock_acquire (Guard k), Rw_leave k rd, Lock_release (Guard k)])"
    by (rule unfold_push [OF r]) (use st in \<open>auto simp: pushable_def shape_def plain_def insert_Diff_if\<close>)
  then show ?thesis by (simp add: rw_lock_release_def)
qed

lemma guard_stack:
  assumes r: "runs s f fs" and f: "f \<in> {Rw_test k rd, Rw_woken k rd, Rw_wake k rd}"
  shows "Guard k \<in> held s (running s)" "stack_ok (running s) (held s (running s)) fs" "list_all plain fs"
  using runsD(13,14) [OF r] f by (auto simp: shape_def)

lemma rw_counts_users:
  assumes "rw_inv s"
  shows "AR (rws s k) = int (length (users s k True))" "AW (rws s k) = int (length (users s k False))"
  using assms by (simp_all add: rw_inv_def)

lemma run_Rw_woken:
  assumes r: "runs s (Rw_woken k rd) fs"
  shows "\<exists>s'. exec (Rw_woken k rd) (pop s) = Some s' \<and> sync_inv s'"
proof -
  note st = guard_stack [OF r, of k rd, simplified]
  have "sync_inv (push (upd_rw (pop s) k (if rd then (\<lambda>n. n\<lparr>WR := WR n - 1\<rparr>) else (\<lambda>n. n\<lparr>WW := WW n - 1\<rparr>)))
      [Rw_test k rd])"
    by (rule unfold_step [OF r]) (use st in \<open>simp_all add: pushable_def shape_def plain_def waiting_def\<close>)
  then show ?thesis by (simp add: rw_woken_def)
qed

lemma run_Rw_wake:
  assumes r: "runs s (Rw_wake k rd) fs"
  shows "\<exists>s'. exec (Rw_wake k rd) (pop s) = Some s' \<and> sync_inv s'"
proof -
  note st = guard_stack [OF r, of k rd, simplified]
  have "sync_inv (push (pop s) [Cond_signal (RwWrite k) (Guard k)])"
    "sync_inv (push (pop s) [Cond_broadcast (RwRead k) (Guard k)])"
    by (rule unfold_push [OF r]; use st in \<open>simp add: pushable_def shape_def plain_def\<close>)+
  moreover have "sync_inv (pop s)"
    by (rule unfold_nil [OF r]) (use st in \<open>simp_all add: pushable_def shape_plain\<close>)
  ultimately show ?thesis by (simp add: rw_wake_def Let_def)
qed

lemma run_Rw_test:
  assumes r: "runs s (Rw_test k rd) fs"
  shows "\<exists>s'. exec (Rw_test k rd) (pop s) = Some s' \<and> sync_inv s'"
proof -
  note R = runsD [OF r] and st = guard_stack [OF r, of k rd, simplified]
  note n = rw_counts_users [OF R(8)]
  have "waiting (rws s k) False = int (sleepers s k False)" using R(8) unfolding rw_inv_def by blast
  then have w: "0 \<le> WW (rws s k)" by (simp add: waiting_def)
  have wait: "sync_inv (push (upd_rw (pop s) k g) [Cond_wait c (Guard k), Rw_woken k rd])"
    if "\<And>n. AR (g n) = AR n" "\<And>n. AW (g n) = AW n"
      "\<And>n b. waiting (g n) b = waiting n b + (if b = rd then 1 else 0)" for g c
    by (rule unfold_step [OF r]) (use st that in \<open>simp_all add: pushable_def shape_def plain_def\<close>)
  have enter: "sync_inv (push (pop s) [Rw_enter k rd])"
    if "users s k False = []" "\<not> rd \<longrightarrow> users s k True = []"
    by (rule unfold_push [OF r]) (use st that in \<open>auto simp: pushable_def shape_def plain_def\<close>)
  show ?thesis
  proof (cases rd)
    case True
    have "users s k False = []" if "\<not> 0 < AW (rws s k) + WW (rws s k)" using that n(2) [of k] w by (cases "users s k False") simp_all
    then show ?thesis
      using True wait [of "\<lambda>n. n\<lparr>WR := WR n + 1\<rparr>" "RwRead k"] enter
      by (simp add: rw_test_def Let_def waiting_def)
  next
    case False
    have "users s k False = [] \<and> users s k True = []" if "\<not> 0 < AR (rws s k) + AW (rws s k)"
      using that n [of k] by (cases "users s k False"; cases "users s k True") simp_all
    then show ?thesis
      using False wait [of "\<lambda>n. n\<lparr>WW := WW n + 1\<rparr>" "RwWrite k"] enter
      by (simp add: rw_test_def Let_def waiting_def)
  qed
qed

section \<open>Frames that change locks, conditions and counters\<close>

lemma step_keep:
  assumes r: "runs s f fs" and e: "elsewhere s s'" and sch: "sched_inv s'"
    and lev: "intr_on s' = intr_on s" "saved_level s' = saved_level s" "in_external_intr s' = in_external_intr s"
    and pt: "\<And>m old. f \<noteq> Down_loop m old" "\<And>m old. point s' (running s) \<noteq> Some (Down_loop m old)"
    and sem: "\<And>m. waiters (semas s' m) = waiters (semas s m)"
      "\<And>m. semas s' m = semas s m \<or> waiters (semas s' m) = []"
    and hol: "\<And>l. lock_holder s' l \<noteq> lock_holder s l \<Longrightarrow>
      lock_holder s' l \<in> {NULL, running s} \<and> lock_holder s l \<in> {NULL, running s}"
    and stk: "stack_ok (running s) (held s' (running s)) (frames s' (running s))"
      "shape (running s) (frames s' (running s))"
    and rest: "lock_inv s'" "cond_inv s'" "rw_inv s'"
  shows "sync_inv s'"
proof -
  note R = runsD [OF r]
  have "stack_inv s'" by (rule stack_inv_keep [OF e R(3,1,10,11) hol stk])
  moreover have "wait_inv s'" by (rule wait_inv_keep [OF e R(4,12) sem(1)])
  moreover have "wake_inv s'" by (rule wake_inv_keep [OF e sch R(6) sem(2)]) (use R(15) pt(1) in simp)
  moreover have "level_inv s'" by (rule level_keep [OF r elsewhereD(1,5) [OF e] lev(2,3) elsewhereD(6) [OF e] pt(2)])
  ultimately show ?thesis using sch rest by (simp add: sync_inv_def)
qed

definition rw_frame :: "frame \<Rightarrow> bool" where
  "rw_frame f = (case f of Rw_woken r rd \<Rightarrow> True | Rw_enter r rd \<Rightarrow> True | Rw_release r rd \<Rightarrow> True
     | Rw_leave r rd \<Rightarrow> True | _ \<Rightarrow> False)"

lemma rw_frame_none:
  assumes "\<not> list_ex rw_frame gs"
  shows "count_list gs (Rw_woken k rd) = 0" "filter (\<lambda>f. f = Rw_leave k rd \<or> f = Rw_release k rd) gs = []"
    "Rw_enter k rd \<notin> set gs"
  using assms by (induction gs) (auto simp: rw_frame_def)

lemma rw_unaffected:
  assumes r: "runs s f fs" and e: "elsewhere s s'" and fr: "frames s' (running s) = gs @ fs"
    and rw: "rws s' = rws s" "readers s' = readers s" "writers s' = writers s"
    and f: "\<not> rw_frame f" "\<not> list_ex rw_frame gs" "\<And>k rd. Rw_enter k rd \<notin> set fs"
  shows "rw_inv s'"
proof (rule rw_inv_keep)
  note R = runsD [OF r] and E = elsewhereD [OF e] and no = rw_frame_none [OF f(2)]
  show "leaving s' k rd t \<le> leaving s k rd t" for k rd t
    using E(4) [of t] R(9) fr no(2) by (cases "t = running s") (simp_all add: leaving_def)
  show "point s t = Some (Rw_enter k rd) \<or> users s k False = [] \<and> (\<not> rd \<longrightarrow> users s k True = [])"
    if "point s' t = Some (Rw_enter k rd)" for k rd t
    using that E(6) [of t] point_hd [OF that] fr no(3) f(3) by (cases "t = running s") auto
  show "waiting (rws s' k) rd = int (sleepers s' k rd)" for k rd
  proof -
    have "waiting (rws s k) rd = int (sleepers s k rd)" using R(8) by (simp add: rw_inv_def)
    moreover have "f \<noteq> Rw_woken k rd" using f(1) by (auto simp: rw_frame_def)
    ultimately show ?thesis
      using sleepers_step [OF e finite_alive [OF R(1)] R(11), of k rd] fr R(9) no(1) by (simp add: rw)
  qed
qed (use runsD(8) [OF r] elsewhereD(5) [OF e] rw in simp_all)

lemma run_Take:
  assumes r: "runs s (Take l) fs"
  shows "\<exists>s'. exec (Take l) (pop s) = Some s' \<and> sync_inv s'"
proof -
  note R = runsD [OF r]
  let ?s = "set_holder (pop s) l (running s)"
  have st: "l \<notin> held s (running s)" "stack_ok (running s) (insert l (held s (running s))) fs" "list_all plain fs"
    using R(13,14) by (simp_all add: shape_def)
  note pl = plain_facts [OF st(3)]
  have e: "elsewhere s ?s" by (simp add: elsewhere_def)
  have "insider s l (running s)" using R(11,15) by (simp add: insider_def)
  then have only: "\<forall>u. insider s l u \<longrightarrow> u = running s" using R(5) unfolding lock_inv_def by metis
  have none: "lock_holder s l = NULL"
  proof (rule ccontr)
    assume h: "lock_holder s l \<noteq> NULL"
    then have "insider s l (lock_holder s l)" using R(3) by (simp add: insider_def stack_inv_def)
    then have "lock_holder s l = running s" using only by simp
    then show False using st(1) by (simp add: held_def)
  qed
  have pt: "point ?s (running s) \<noteq> Some g" if "g \<notin> set fs" for g
    using point_hd [of ?s "running s" g] R(9) that by auto
  have ins: "insider ?s k t = insider s k t" for k t
  proof (cases "t = running s")
    case True
    then show ?thesis using pt pl(1,2) R(11,15) by (simp add: insider_def alive_def)
  next
    case False
    have "alive s t \<Longrightarrow> t \<noteq> NULL" by (rule alive_not_NULL [OF R(1)])
    then show ?thesis using False none by (auto simp: insider_def alive_def point_def)
  qed
  have "cond_inv ?s"
  proof (rule cond_inv_keep [OF _ _ elsewhereD(5) [OF e] _ signalled_keep [OF e] R(7)])
    show "pending ?s = pending s"
      unfolding fun_eq_iff
    proof
      fix t
      show "pending ?s t = pending s t" using R(9) by (cases "t = running s") (simp_all add: pending_def)
    qed
  qed (use R(15) pt pl in simp_all)
  moreover have "rw_inv ?s"
    by (rule rw_unaffected [OF r e, of "[]"]) (use R(9) pl in \<open>simp_all add: rw_frame_def\<close>)
  moreover have "lock_inv ?s" by (rule lock_inv_keep [OF R(5) ins]) simp
  moreover have "held ?s (running s) = insert l (held s (running s))" by (auto simp: held_def)
  ultimately have "sync_inv ?s"
    by (intro step_keep [OF r e]) (use R(1,9) pt pl st none in \<open>auto simp: shape_plain split: if_splits\<close>)
  then show ?thesis using R(17) by (simp add: lock_take_def)
qed

lemma run_Lock_release:
  assumes r: "runs s (Lock_release l) fs"
  shows "\<exists>s'. exec (Lock_release l) (pop s) = Some s' \<and> sync_inv s'"
proof -
  note R = runsD [OF r]
  let ?s = "push (set_holder (pop s) l NULL) [Sema_up (LockSem l)]"
  have st: "l \<in> held s (running s)" "stack_ok (running s) (held s (running s) - {l}) fs"
    "list_all plain fs \<or> waiting_tail (running s) fs"
    using R(13,14) by (simp_all add: shape_def)
  then have h: "lock_holder s l = running s" by (simp add: held_def)
  have e: "elsewhere s ?s" by (simp add: elsewhere_def)
  have pt: "point ?s (running s) = Some (Sema_up (LockSem l))" by (simp add: point_def)
  have ins: "insider ?s k t = insider s k t" for k t
  proof (cases "t = running s")
    case True
    then show ?thesis using pt R(11,15,19) h by (auto simp: insider_def alive_def)
  next
    case False
    have "alive s t \<Longrightarrow> t \<noteq> NULL" by (rule alive_not_NULL [OF R(1)])
    then show ?thesis using False h by (auto simp: insider_def alive_def point_def)
  qed
  have en: "Rw_enter k rd \<notin> set fs" for k rd
    using st(3) plain_facts(5) by (auto simp: waiting_tail_def plain_def split: list.splits)
  have "cond_inv ?s"
  proof (rule cond_inv_keep [OF _ _ elsewhereD(5) [OF e] _ signalled_keep [OF e] R(7)])
    show "pending ?s = pending s"
      unfolding fun_eq_iff
    proof
      fix t
      show "pending ?s t = pending s t" using R(9) by (cases "t = running s") (simp_all add: pending_def)
    qed
  qed (use R(15) pt in simp_all)
  moreover have "rw_inv ?s"
    by (rule rw_unaffected [OF r e, of "[Sema_up (LockSem l)]"]) (use R(9) en in \<open>simp_all add: rw_frame_def\<close>)
  moreover have "lock_inv ?s" by (rule lock_inv_keep [OF R(5) ins]) simp
  moreover have "held ?s (running s) = held s (running s) - {l}" using R(19) by (auto simp: held_def)
  ultimately have "sync_inv ?s"
    by (intro step_keep [OF r e]) (use R(1,9) pt st h in \<open>auto simp: shape_def split: if_splits\<close>)
  then show ?thesis
    using R(17) h by (simp add: lock_release_def lock_held_by_current_thread_def)
qed

lemma run_Cond_wait:
  assumes r: "runs s (Cond_wait c l) fs"
  shows "\<exists>s'. exec (Cond_wait c l) (pop s) = Some s' \<and> sync_inv s'"
proof -
  note R = runsD [OF r]
  let ?t = "running s"
  let ?s = "push (set_cond (set_sem (pop s) (WaitSem ?t) \<lparr>sem_value = 0, waiters = []\<rparr>) c
      (conds s c @ [WaitSem ?t])) [Lock_release l, Sema_down (WaitSem ?t), Lock_acquire l]"
  have st: "l \<in> held s ?t" "stack_ok ?t (held s ?t) fs" "list_all plain fs"
    using R(13,14) by (simp_all add: shape_def)
  then have h: "lock_holder s l = ?t" by (simp add: held_def)
  note pl = plain_facts [OF st(3)]
  have e: "elsewhere s ?s" by (simp add: elsewhere_def)
  note E = elsewhereD [OF e]
  have pt: "point ?s ?t = Some (Lock_release l)" by (simp add: point_def)
  have np: "\<not> pending s ?t" using R(9) pl by (auto simp: pending_def)
  have nobody: "waiters (semas s (WaitSem ?t)) = []"
  proof (rule ccontr)
    assume "waiters (semas s (WaitSem ?t)) \<noteq> []"
    then obtain u where "u \<in> set (waiters (semas s (WaitSem ?t)))" using hd_in_set by blast
    then obtain old where u: "asleep s u" "point s u = Some (Down_loop (WaitSem ?t) old)"
      using R(4) unfolding wait_inv_def by blast
    then have "stack_ok u (held s u) (frames s u)" using R(3) by (simp add: stack_inv_def alive_def)
    then have "?t = u" using u(2) by (auto simp: point_def split: list.splits)
    then show False using u(1) R(12) by simp
  qed
  have ins: "insider ?s k t = insider s k t" for k t
    by (rule insider_keep [OF e]) (use R(15) pt in simp_all)
  have sig: "signalled ?s = signalled s" by (rule signalled_keep [OF e]) (use R(15) pt in simp_all)
  have pen: "pending ?s u = (u = ?t \<or> pending s u)" for u
    using R(9) by (cases "u = ?t") (simp_all add: pending_def)
  note C = R(7) [unfolded cond_inv_def]
  have notin: "WaitSem ?t \<notin> set (conds s d)" for d using C np by blast
  have nosig: "\<not> signalled s u ?t" for u using C np by blast
  have al: "alive ?s = alive s" by (rule E(5))
  have "cond_inv ?s"
    unfolding cond_inv_def al sig pen
  proof (intro conjI)
    show "\<forall>d. distinct (conds ?s d)" using C notin by simp
    show "\<forall>d d' w. w \<in> set (conds ?s d) \<longrightarrow> w \<in> set (conds ?s d') \<longrightarrow> d = d'"
      using C notin by auto
    show "\<forall>d w. w \<in> set (conds ?s d) \<longrightarrow> (\<exists>t. w = WaitSem t \<and> alive s t \<and> (t = ?t \<or> pending s t))"
      using C R(11) by (auto split: if_splits) blast+
    show "\<forall>u t. signalled s u t \<longrightarrow> alive s t \<and> (t = ?t \<or> pending s t) \<and>
        (\<forall>d. WaitSem t \<notin> set (conds ?s d)) \<and> (\<forall>v. signalled s v t \<longrightarrow> v = u)"
      using C nosig by auto
    show "\<forall>t. alive s t \<and> (t = ?t \<or> pending s t) \<longrightarrow>
        (sem_value (semas ?s (WaitSem t)) = 0 \<longleftrightarrow>
          (\<exists>d. WaitSem t \<in> set (conds ?s d)) \<or> (\<exists>u. signalled s u t)) \<and>
        sem_value (semas ?s (WaitSem t)) \<le> 1"
    proof (intro allI impI)
      fix t
      assume t: "alive s t \<and> (t = ?t \<or> pending s t)"
      show "(sem_value (semas ?s (WaitSem t)) = 0 \<longleftrightarrow>
          (\<exists>d. WaitSem t \<in> set (conds ?s d)) \<or> (\<exists>u. signalled s u t)) \<and>
        sem_value (semas ?s (WaitSem t)) \<le> 1"
      proof (cases "t = ?t")
        case False
        then have "WaitSem t \<in> set (conds ?s d) \<longleftrightarrow> WaitSem t \<in> set (conds s d)" for d by simp
        then show ?thesis using C t False by simp
      qed auto
    qed
  qed
  moreover have "rw_inv ?s"
    by (rule rw_unaffected [OF r e, of "[Lock_release l, Sema_down (WaitSem ?t), Lock_acquire l]"])
      (use R(9) pl in \<open>simp_all add: rw_frame_def\<close>)
  moreover have "lock_inv ?s" by (rule lock_inv_keep [OF R(5) ins]) simp
  moreover have "held ?s ?t = held s ?t" by (simp add: held_def)
  ultimately have "sync_inv ?s"
    using nobody
    by (intro step_keep [OF r e])
      (use R(1,9) pt st h in \<open>auto simp: shape_def waiting_tail_def plain_def insert_absorb\<close>)
  then show ?thesis
    using R(16,17) h
    by (simp add: cond_wait_def lock_held_by_current_thread_def sema_init_def intr_context_def Let_def)
qed

lemma run_Cond_signal:
  assumes r: "runs s (Cond_signal c l) fs"
  shows "\<exists>s'. exec (Cond_signal c l) (pop s) = Some s' \<and> sync_inv s'"
proof -
  note R = runsD [OF r]
  let ?t = "running s"
  have st: "l \<in> held s ?t" "stack_ok ?t (held s ?t) fs" "list_all plain fs"
    using R(13,14) by (simp_all add: shape_def)
  then have h: "lock_holder s l = ?t" by (simp add: held_def)
  note pl = plain_facts [OF st(3)]
  have run: "exec (Cond_signal c l) (pop s) = Some (case conds s c of [] \<Rightarrow> pop s
      | w # ws \<Rightarrow> push (set_cond (pop s) c ws) [Sema_up w])"
    using R(16,17) h by (simp add: cond_signal_def lock_held_by_current_thread_def intr_context_def)
  show ?thesis
  proof (cases "conds s c")
    case Nil
    have "sync_inv (pop s)"
      by (rule unfold_nil [OF r]) (use st in \<open>simp_all add: pushable_def shape_plain\<close>)
    then show ?thesis using run Nil by simp
  next
    case (Cons w ws)
    note C = R(7) [unfolded cond_inv_def]
    have "w \<in> set (conds s c)" using Cons by simp
    then obtain u where u: "w = WaitSem u" "alive s u" "pending s u" using C by blast
    have inC: "WaitSem u \<in> set (conds s c)" using Cons u by simp
    let ?s = "push (set_cond (pop s) c ws) [Sema_up (WaitSem u)]"
    have e: "elsewhere s ?s" by (simp add: elsewhere_def)
    note E = elsewhereD [OF e]
    have pt: "point ?s ?t = Some (Sema_up (WaitSem u))" by (simp add: point_def)
    have ins: "insider ?s k t = insider s k t" for k t
      by (rule insider_keep [OF e]) (use R(15) pt in simp_all)
    have sig: "signalled ?s v x = (signalled s v x \<or> (v = ?t \<and> x = u))" for v x
      using R(11,15) pt E(6) [of v] by (cases "v = ?t") (auto simp: signalled_def E(5))
    have pen: "pending ?s = pending s"
      unfolding fun_eq_iff
    proof
      fix x
      show "pending ?s x = pending s x" using R(9) by (cases "x = ?t") (simp_all add: pending_def)
    qed
    have nosig: "\<not> signalled s v u" for v using C inC by blast
    have gone: "WaitSem u \<notin> set (conds ?s d)" for d
    proof (cases "d = c")
      case True
      have "distinct (w # ws)" using C Cons by metis
      then show ?thesis using True u(1) by simp
    next
      case False
      then show ?thesis using C inC by auto
    qed
    have sub: "x \<in> set (conds ?s d) \<longleftrightarrow> x \<in> set (conds s d) \<and> x \<noteq> WaitSem u" for x d
      using gone [of d] Cons u(1) by (cases "d = c") auto
    have "cond_inv ?s"
      unfolding cond_inv_def E(5) pen sig sub
    proof (intro conjI)
      show "\<forall>d. distinct (conds ?s d)" using C Cons by (auto dest!: spec [of _ c])
      show "\<forall>t. alive s t \<and> pending s t \<longrightarrow>
          (sem_value (semas ?s (WaitSem t)) = 0 \<longleftrightarrow>
            (\<exists>d. WaitSem t \<in> set (conds s d) \<and> WaitSem t \<noteq> WaitSem u) \<or> (\<exists>v. signalled s v t \<or> v = ?t \<and> t = u)) \<and>
          sem_value (semas ?s (WaitSem t)) \<le> 1"
      proof (intro allI impI)
        fix t
        assume t: "alive s t \<and> pending s t"
        then have "(sem_value (semas s (WaitSem t)) = 0 \<longleftrightarrow>
            (\<exists>d. WaitSem t \<in> set (conds s d)) \<or> (\<exists>v. signalled s v t)) \<and> sem_value (semas s (WaitSem t)) \<le> 1"
          using C by blast
        then show "(sem_value (semas ?s (WaitSem t)) = 0 \<longleftrightarrow>
            (\<exists>d. WaitSem t \<in> set (conds s d) \<and> WaitSem t \<noteq> WaitSem u) \<or> (\<exists>v. signalled s v t \<or> v = ?t \<and> t = u)) \<and>
          sem_value (semas ?s (WaitSem t)) \<le> 1"
          using inC by (cases "t = u") auto
      qed
    qed (use C u(2,3) nosig in blast)+
    moreover have "rw_inv ?s"
      by (rule rw_unaffected [OF r e, of "[Sema_up (WaitSem u)]"]) (use R(9) pl in \<open>simp_all add: rw_frame_def\<close>)
    moreover have "lock_inv ?s" by (rule lock_inv_keep [OF R(5) ins]) simp
    moreover have "held ?s ?t = held s ?t" by (simp add: held_def)
    ultimately have "sync_inv ?s"
      by (intro step_keep [OF r e]) (use R(1,9) pt st in \<open>auto simp: shape_def\<close>)
    then show ?thesis using run Cons u(1) by simp
  qed
qed

text \<open>The guard: only its holder is at a frame that needs it.\<close>

lemma guard_exclusive:
  assumes "stack_inv s" "lock_holder s (Guard k) = u" "alive s t" "point s t = Some f"
    "f \<in> {Rw_test k rd, Rw_woken k rd, Rw_enter k rd, Rw_leave k rd, Rw_wake k rd}"
  shows "t = u"
proof -
  have "stack_ok t (held s t) (frames s t)" using assms(1,3) by (simp add: stack_inv_def)
  then have "Guard k \<in> held s t" using assms(4,5) by (auto simp: point_def split: list.splits)
  then show ?thesis using assms(2) by (simp add: held_def)
qed

lemma quiet_frame_step:
  assumes r: "runs s f fs" and e: "elsewhere s s'" and fr: "frames s' (running s) = gs @ fs"
    and same: "semas s' = semas s" "lock_holder s' = lock_holder s" "conds s' = conds s"
    and lev: "intr_on s' = intr_on s" "saved_level s' = saved_level s" "in_external_intr s' = in_external_intr s"
    and sch: "sched_inv s'"
    and f: "list_all plain fs" "stack_ok (running s) (held s (running s)) (gs @ fs)" "shape (running s) (gs @ fs)"
      "f \<in> {Rw_enter k rd, Rw_leave k rd}" "gs \<in> {[], [Rw_wake k rd]}"
    and rw: "rw_inv s'"
  shows "sync_inv s'"
proof -
  note R = runsD [OF r] and E = elsewhereD [OF e] and pl = plain_facts [OF f(1)]
  have pt: "point s' (running s) \<noteq> Some (Take l)" "point s' (running s) \<noteq> Some (Sema_up m)"
    "point s' (running s) \<noteq> Some (Down_loop m old)" for l m old
    using f(5) fr pl point_hd [of s' "running s"] by auto
  have ins: "insider s' j t = insider s j t" for j t
    by (rule insider_keep [OF e same(2)]) (use R(15) f(4) pt in auto)
  have "cond_inv s'"
  proof (rule cond_inv_keep [OF same(3) _ E(5) _ signalled_keep [OF e] R(7)])
    show "pending s' = pending s"
      unfolding fun_eq_iff
    proof
      fix t
      show "pending s' t = pending s t"
        using R(9) f(4,5) fr E(4) [of t] by (cases "t = running s") (auto simp: pending_def)
    qed
  qed (use R(15) f(4) pt same in auto)
  moreover have "lock_inv s'" by (rule lock_inv_keep [OF R(5) ins]) (simp add: same)
  moreover have "held s' (running s) = held s (running s)" by (simp add: held_def same)
  ultimately show ?thesis
    by (intro step_keep [OF r e sch lev]) (use f(2-5) fr pt rw same in auto)
qed

lemma run_Rw_enter:
  assumes r: "runs s (Rw_enter k rd) fs"
  shows "\<exists>s'. exec (Rw_enter k rd) (pop s) = Some s' \<and> sync_inv s'"
proof -
  note R = runsD [OF r]
  let ?t = "running s" and ?s = "rw_enter (pop s) k rd"
  have st: "Guard k \<in> held s ?t" "stack_ok ?t (held s ?t) fs" "list_all plain fs"
    using R(13,14) by (simp_all add: shape_def)
  note pl = plain_facts [OF st(3)]
  have e: "elsewhere s ?s" by (simp add: elsewhere_def rw_enter_def)
  note E = elsewhereD [OF e]
  note W = R(8) [unfolded rw_inv_def]
  have free: "users s k False = []" "\<not> rd \<Longrightarrow> users s k True = []" using W R(11,15) by blast+
  have fr: "frames ?s ?t = fs" using R(9) by (simp add: rw_enter_def)
  have us: "users ?s j b = (if j = k \<and> b = rd then ?t # users s j b else users s j b)" for j b
    by (simp add: users_def rw_enter_def)
  have lv: "leaving ?s j b t \<le> leaving s j b t" for j b t
    using R(9) fr E(4) [of t] by (cases "t = ?t") (simp_all add: leaving_def)
  have ent: "t \<noteq> ?t \<and> j \<noteq> k" if "alive s t" "point ?s t = Some (Rw_enter j b)" for t j b
  proof -
    have t: "t \<noteq> ?t" using point_hd [OF that(2)] fr pl(5) by auto
    then have "point s t = Some (Rw_enter j b)" using that(2) E(6) by metis
    moreover have "lock_holder s (Guard k) = ?t" using st(1) by (simp add: held_def)
    ultimately show ?thesis using guard_exclusive [OF R(3) _ that(1)] t by blast
  qed
  have sl: "sleepers ?s j b = sleepers s j b" for j b
    using sleepers_step [OF e finite_alive [OF R(1)] R(11), of j b] fr R(9) by simp
  have cnt: "AR (rws ?s j) = int (length (users ?s j True))" "AW (rws ?s j) = int (length (users ?s j False))"
    for j using W by (simp_all add: us, simp_all add: rw_enter_def)
  have wt: "waiting (rws ?s j) b = waiting (rws s j) b" for j b by (simp add: rw_enter_def waiting_def)
  have "rw_inv ?s"
    unfolding rw_inv_def E(5) sl cnt wt
  proof (intro conjI allI impI)
    fix j b t
    show "waiting (rws s j) b = int (sleepers s j b)" using W by blast
    have "users s j False = [] \<or> length (users s j False) = 1 \<and> users s j True = []" using W by blast
    then show "users ?s j False = [] \<or> length (users ?s j False) = 1 \<and> users ?s j True = []"
      unfolding us using free by (cases rd; cases "j = k") auto
    show "leaving ?s j b t \<le> count_list (users ?s j b) t" if "alive s t"
      using lv [of j b t] W that by (auto simp: us intro: le_trans le_SucI)
    have "alive s t" if "t \<in> set (users s j b)" using that W by blast
    then show "alive s t" if "t \<in> set (users ?s j b)" using that R(11) unfolding us by (auto split: if_splits)
    assume a: "alive s t" "point ?s t = Some (Rw_enter j b)"
    have t: "t \<noteq> ?t" "j \<noteq> k" using ent [OF a] by blast+
    then have "point s t = Some (Rw_enter j b)" using a(2) E(6) by metis
    then have "users s j False = [] \<and> (\<not> b \<longrightarrow> users s j True = [])" using W a(1) by blast
    then show "users ?s j False = []" "\<not> b \<Longrightarrow> users ?s j True = []" using t(2) by (simp_all add: us)
  qed simp_all
  then have "sync_inv ?s"
    by (intro quiet_frame_step [OF r e, where gs = "[]" and k = k and rd = rd])
      (use R(1) fr st in \<open>simp_all add: rw_enter_def shape_plain\<close>)
  then show ?thesis by simp
qed

lemma run_Rw_leave:
  assumes r: "runs s (Rw_leave k rd) fs"
  shows "\<exists>s'. exec (Rw_leave k rd) (pop s) = Some s' \<and> sync_inv s'"
proof -
  note R = runsD [OF r]
  let ?t = "running s" and ?s = "rw_leave (pop s) k rd"
  have st: "Guard k \<in> held s ?t" "stack_ok ?t (held s ?t) fs" "list_all plain fs"
    using R(13,14) by (simp_all add: shape_def)
  note pl = plain_facts [OF st(3)]
  have e: "elsewhere s ?s" by (simp add: elsewhere_def rw_leave_def)
  note E = elsewhereD [OF e]
  note W = R(8) [unfolded rw_inv_def]
  have fr: "frames ?s ?t = Rw_wake k rd # fs" using R(9) by (simp add: rw_leave_def)
  have us: "users ?s j b = (if j = k \<and> b = rd then remove1 ?t (users s j b) else users s j b)" for j b
    by (simp add: users_def rw_leave_def)
  have "0 < leaving s k rd ?t" using R(9) by (simp add: leaving_def)
  then have "0 < count_list (users s k rd) ?t" using W R(11) by (meson less_le_trans)
  then have inn: "?t \<in> set (users s k rd)" by (rule contrapos_pp) (simp add: count_notin)
  then have r1: "length (users s k rd) = 1 \<Longrightarrow> remove1 ?t (users s k rd) = []"
    by (cases "users s k rd") auto
  have len: "length (users ?s k rd) + 1 = length (users s k rd)"
    using inn by (simp add: us length_remove1) (metis Suc_pred length_pos_if_in_set)
  have lv: "leaving ?s j b t \<le> (if t = ?t \<and> j = k \<and> b = rd then leaving s j b t - 1 else leaving s j b t)" for j b t
    using R(9) fr E(4) [of t] by (cases "t = ?t") (auto simp: leaving_def)
  have cl: "count_list (remove1 x xs) y = (if x = y then count_list xs y - 1 else count_list xs y)"
    for x y :: addr and xs by (induction xs) (auto simp: count_notin)
  have ent: "t \<noteq> ?t \<and> j \<noteq> k" if "alive s t" "point ?s t = Some (Rw_enter j b)" for t j b
  proof -
    have t: "t \<noteq> ?t" using point_hd [OF that(2)] fr pl(5) that(2) by (auto simp: point_def)
    then have "point s t = Some (Rw_enter j b)" using that(2) E(6) by metis
    moreover have "lock_holder s (Guard k) = ?t" using st(1) by (simp add: held_def)
    ultimately show ?thesis using guard_exclusive [OF R(3) _ that(1)] t by blast
  qed
  have sl: "sleepers ?s j b = sleepers s j b" for j b
    using sleepers_step [OF e finite_alive [OF R(1)] R(11), of j b] fr R(9) by simp
  have cnt: "AR (rws ?s j) = int (length (users ?s j True))" "AW (rws ?s j) = int (length (users ?s j False))"
    for j
  proof -
    have b: "AR (rws s j) = int (length (users s j True))" "AW (rws s j) = int (length (users s j False))"
      using W by blast+
    have c: "AR (rws ?s j) = (if j = k \<and> rd then AR (rws s j) - 1 else AR (rws s j))"
      "AW (rws ?s j) = (if j = k \<and> \<not> rd then AW (rws s j) - 1 else AW (rws s j))"
      by (simp_all add: rw_leave_def)
    have d: "int (length (users ?s k rd)) = int (length (users s k rd)) - 1" using len by linarith
    have same: "users ?s j b = users s j b" if "j \<noteq> k \<or> b \<noteq> rd" for b using that by (auto simp: us)
    show "AR (rws ?s j) = int (length (users ?s j True))"
    proof (cases "j = k \<and> rd")
      case True
      have "AR (rws ?s j) = AR (rws s j) - 1" using True c(1) by simp
      also have "\<dots> = int (length (users s k rd)) - 1" using True b(1) by simp
      also have "\<dots> = int (length (users ?s k rd))" using d by simp
      also have "\<dots> = int (length (users ?s j True))" using True by simp
      finally show ?thesis .
    next
      case False
      then show ?thesis using same [of True] b(1) c(1) by auto
    qed
    show "AW (rws ?s j) = int (length (users ?s j False))"
    proof (cases "j = k \<and> \<not> rd")
      case True
      have "AW (rws ?s j) = AW (rws s j) - 1" using True c(2) by simp
      also have "\<dots> = int (length (users s k rd)) - 1" using True b(2) by simp
      also have "\<dots> = int (length (users ?s k rd))" using d by simp
      also have "\<dots> = int (length (users ?s j False))" using True by simp
      finally show ?thesis .
    next
      case False
      then show ?thesis using same [of False] b(2) c(2) by auto
    qed
  qed
  have wt: "waiting (rws ?s j) b = waiting (rws s j) b" for j b by (simp add: rw_leave_def waiting_def)
  have "rw_inv ?s"
    unfolding rw_inv_def E(5) sl cnt wt
  proof (intro conjI allI impI)
    fix j b t
    show "waiting (rws s j) b = int (sleepers s j b)" using W by blast
    have "users s j False = [] \<or> length (users s j False) = 1 \<and> users s j True = []" using W by blast
    then show "users ?s j False = [] \<or> length (users ?s j False) = 1 \<and> users ?s j True = []"
      unfolding us using inn r1 by (cases rd; cases "j = k") auto
    show "leaving ?s j b t \<le> count_list (users ?s j b) t" if a: "alive s t"
    proof -
      have "leaving s j b t \<le> count_list (users s j b) t" using W a by blast
      then show ?thesis using lv [of j b t] by (auto simp: us cl split: if_splits)
    qed
    have "alive s t" if "t \<in> set (users s j b)" using that W by blast
    then show "alive s t" if "t \<in> set (users ?s j b)"
      using that notin_set_remove1 unfolding us by (metis (full_types))
    assume a: "alive s t" "point ?s t = Some (Rw_enter j b)"
    have t: "t \<noteq> ?t" "j \<noteq> k" using ent [OF a] by blast+
    then have "point s t = Some (Rw_enter j b)" using a(2) E(6) by metis
    then have "users s j False = [] \<and> (\<not> b \<longrightarrow> users s j True = [])" using W a(1) by blast
    then show "users ?s j False = []" "\<not> b \<Longrightarrow> users ?s j True = []" using t(2) by (simp_all add: us)
  qed simp_all
  then have "sync_inv ?s"
    by (intro quiet_frame_step [OF r e, where gs = "[Rw_wake k rd]" and k = k and rd = rd])
      (use R(1) fr st in \<open>simp_all add: rw_leave_def shape_def\<close>)
  then show ?thesis by simp
qed

section \<open>Changes of status only\<close>

definition same_sync :: "sync \<Rightarrow> sync \<Rightarrow> bool" where
  "same_sync s s' \<longleftrightarrow> alive s' = alive s \<and> idle_thread s' = idle_thread s \<and> frames s' = frames s \<and>
     lock_holder s' = lock_holder s \<and> semas s' = semas s \<and> conds s' = conds s \<and> rws s' = rws s \<and>
     readers s' = readers s \<and> writers s' = writers s"

lemma same_syncD:
  assumes "same_sync s s'"
  shows "point s' = point s" "held s' = held s" "insider s' = insider s" "pending s' = pending s"
    "signalled s' = signalled s" "users s' = users s" "leaving s' = leaving s" "sleepers s' = sleepers s"
  using assms
  by (simp_all add: same_sync_def fun_eq_iff point_def held_def insider_def pending_def signalled_def
      users_def leaving_def sleepers_def)

lemma same_sync_inv:
  assumes "same_sync s s'"
  shows "stack_inv s' = stack_inv s" "lock_inv s' = lock_inv s" "cond_inv s' = cond_inv s" "rw_inv s' = rw_inv s"
  using assms same_syncD [OF assms]
  by (simp_all add: same_sync_def stack_inv_def lock_inv_def cond_inv_def rw_inv_def)

lemma idle_quiet:
  assumes "stack_inv s"
  shows "point s (idle_thread s) = None"
  using assms by (simp add: stack_inv_def point_def)

lemma sleep_cong:
  assumes "same_sync s s'" "stack_inv s" "\<And>t. t \<noteq> idle_thread s \<Longrightarrow> asleep s' t = asleep s t"
  shows "wait_inv s' = wait_inv s" "wake_inv s' = wake_inv s"
proof -
  have e: "idle_thread s' = idle_thread s" "semas s' = semas s" "alive s' = alive s" "point s' = point s"
    using assms(1) same_syncD(1) [OF assms(1)] by (simp_all add: same_sync_def)
  have sl: "(t \<noteq> idle_thread s \<and> asleep s' t \<and> Q) = (t \<noteq> idle_thread s \<and> asleep s t \<and> Q)"
    "(t \<noteq> idle_thread s \<longrightarrow> asleep s' t \<longrightarrow> Q) = (t \<noteq> idle_thread s \<longrightarrow> asleep s t \<longrightarrow> Q)" for t Q
    using assms(3) by blast+
  show "wait_inv s' = wait_inv s" unfolding wait_inv_def e sl ..
  have "woken s' m = woken s m" for m
    using idle_quiet [OF assms(2)] assms(3) unfolding woken_def e(3,4)
    by (intro Collect_cong) (metis option.distinct(1))
  then show "wake_inv s' = wake_inv s" by (simp add: wake_inv_def e)
qed

lemma switch_rest:
  assumes pre: "sched_pre s" and sw: "switched s s'" and rest: "sync_rest s" and ctx: "\<not> in_external_intr s"
    and res: "resume_inv s"
  shows "sync_inv s'"
proof -
  note f = switchedD [OF sw] and m = more_sync [OF switchedD(11) [OF sw]]
  have ok: "threads_ok s" "ready_ok s" using pre by (simp_all add: sched_pre_def)
  note n = next_up_status [OF ok]
  have alive: "alive s' = alive s"
    unfolding fun_eq_iff
  proof
    fix t
    show "alive s' t = alive s t" using n f(3) [of t] by (auto simp: alive_def)
  qed
  have same: "same_sync s s'" using f(5) m alive by (simp add: same_sync_def)
  have sl: "asleep s' t = asleep s t" if "t \<noteq> idle_thread s" for t
  proof (cases "t = next_up s")
    case True
    then have "t \<in> set (ready s)" using that by (auto simp: next_up_def split: list.splits)
    then have "status s t = Some THREAD_READY" using ok(2) by (simp add: ready_ok_def)
    then show ?thesis using True by (simp add: f)
  next
    case False
    then show ?thesis by (auto simp: f)
  qed
  have "stack_inv s" using rest by (simp add: sync_rest_def)
  then have "sync_rest s'"
    using rest same_sync_inv [OF same] sleep_cong [OF same _ sl] by (simp add: sync_rest_def)
  moreover have "sched_inv s'" "\<not> intr_on s'" using switched_inv [OF pre sw] by simp_all
  moreover have "level_inv s'" using calculation(3) ctx f(8,9) res alive same_syncD(1) [OF same]
    by (simp add: level_inv_def resume_inv_def)
  ultimately show ?thesis by (simp add: sync_inv_parts)
qed

text \<open>The running thread goes to sleep at the end of a waiters list.\<close>

lemma run_sleep:
  assumes r: "runs s f fs" and f: "f = Sema_down m \<or> f = Down_loop m old'"
    and v: "sem_value (semas s m) = 0"
  shows "\<exists>s'. down_loop ((pop s)\<lparr>intr_on := False\<rparr>) m old = Some s' \<and> sync_inv s'"
proof -
  note R = runsD [OF r]
  let ?t = "running s" and ?x = "semas s m"
  let ?s1 = "push (set_sem ((pop s)\<lparr>intr_on := False\<rparr>) m (?x\<lparr>waiters := waiters ?x @ [?t]\<rparr>)) [Down_loop m old]"
  let ?s2 = "blocked ?s1"
  have nw: "?t \<notin> set (waiters ?x)" using R(4,12) by (auto simp: wait_inv_def)
  have inv1: "sched_inv ?s1" using R(1) by simp
  have "thread_current ((pop s)\<lparr>intr_on := False\<rparr>) = Some ?t"
    using thread_current_ok [of "(pop s)\<lparr>intr_on := False\<rparr>"] R(1) by simp
  then have run: "down_loop ((pop s)\<lparr>intr_on := False\<rparr>) m old = thread_block ?s1"
    using v nw by (simp add: down_loop_def list_push_def Let_def)
  obtain s' where s': "thread_block ?s1 = Some s'" "switched ?s2 s'" "sched_inv s'"
    using thread_block_ok [OF inv1] R(16) by auto
  have pre: "sched_pre ?s2" by (rule blocked_pre [OF inv1]) simp
  have st2: "status ?s2 u = (if u = ?t then Some THREAD_BLOCKED else status s u)" for u
    using sched_inv_running(1) [OF R(1)] by (auto simp: blocked_def)
  have al: "alive ?s2 = alive s"
    using R(11) by (auto simp: fun_eq_iff alive_def st2)
  have e1: "elsewhere s ?s1" by (simp add: elsewhere_def)
  note E = elsewhereD [OF e1]
  have same: "same_sync ?s1 ?s2"
    using al E(5) more_sync [of ?s2 ?s1] by (simp add: same_sync_def blocked_def)
  note S = same_syncD [OF same]
  have fr: "frames ?s1 ?t = Down_loop m old # fs" using R(9) by simp
  have tail: "down_tail m fs" "stack_ok ?t (held s ?t) (Down_loop m old # fs)"
    using R(13,14) f by (auto simp: shape_def)
  have noenter: "Rw_enter k rd \<notin> set fs" "\<not> pending_frame" if "pending_frame = (Sema_down (WaitSem ?t) \<in> set fs)"
    for k rd pending_frame
    using tail(1) plain_facts [of fs] plain_facts [of "tl fs"] that
    by (cases fs; auto simp: down_tail_def plain_def split: sem.splits)+
  have pt: "point ?s1 ?t = Some (Down_loop m old)" by (simp add: point_def)
  have "stack_inv ?s1"
    by (rule stack_inv_keep [OF e1 R(3,1,10,11)]) (use tail fr in \<open>simp_all add: shape_def held_def\<close>)
  moreover have "lock_inv ?s1"
    by (rule lock_inv_keep [OF R(5) insider_keep [OF e1]]) (use R(15) pt f in auto)
  moreover have "cond_inv ?s1"
  proof (rule cond_inv_keep [OF _ _ E(5) _ signalled_keep [OF e1] R(7)])
    show "pending ?s1 = pending s"
      unfolding fun_eq_iff
    proof
      fix u
      show "pending ?s1 u = pending s u" using R(9) f by (cases "u = ?t") (auto simp: pending_def)
    qed
  qed (use R(15) pt f in auto)
  moreover have "rw_inv ?s1"
    by (rule rw_unaffected [OF r e1, of "[Down_loop m old]"])
      (use R(9) noenter f in \<open>auto simp: rw_frame_def\<close>)
  moreover have "wait_inv ?s2"
    unfolding wait_inv_def
  proof (intro conjI allI)
    have w2: "waiters (semas ?s2 k) = (if k = m then waiters ?x @ [?t] else waiters (semas s k))" for k
      using same by (simp add: same_sync_def)
    have id2: "idle_thread ?s2 = idle_thread s" by (simp add: blocked_def)
    have p2: "point ?s2 u = (if u = ?t then Some (Down_loop m old) else point s u)" for u
      using S(1) pt E(6) [of u] by simp
    fix k u
    show "distinct (waiters (semas ?s2 k))" using R(4) nw by (simp add: w2 wait_inv_def)
    show "u \<in> set (waiters (semas ?s2 k)) \<longleftrightarrow> u \<noteq> idle_thread ?s2 \<and> asleep ?s2 u \<and>
        (\<exists>old. point ?s2 u = Some (Down_loop k old))"
    proof (cases "u = ?t")
      case True
      have "?t \<notin> set (waiters (semas s k))" using R(4,12) by (auto simp: wait_inv_def)
      then show ?thesis using True R(10) by (auto simp: w2 id2 p2 st2)
    next
      case False
      then have "u \<in> set (waiters (semas ?s2 k)) \<longleftrightarrow> u \<in> set (waiters (semas s k))" by (simp add: w2)
      then show ?thesis using R(4) False unfolding wait_inv_def id2 p2 st2 by simp
    qed
    show "u \<noteq> idle_thread ?s2 \<longrightarrow> asleep ?s2 u \<longrightarrow> (\<exists>m old. point ?s2 u = Some (Down_loop m old))"
      using R(4) unfolding wait_inv_def id2 p2 st2 by simp
  qed
  moreover have "wake_inv ?s2"
    unfolding wake_inv_def
  proof (intro allI impI)
    fix k
    assume w: "waiters (semas ?s2 k) \<noteq> []"
    show "unat (sem_value (semas ?s2 k)) \<le> card (woken ?s2 k)"
    proof (cases "k = m")
      case True
      then show ?thesis using same v by (simp add: same_sync_def)
    next
      case False
      have "woken ?s2 k = woken s k"
      proof (rule set_eqI)
        fix u
        show "u \<in> woken ?s2 k \<longleftrightarrow> u \<in> woken s k"
          using False R(15) f S(1) pt E(6) [of u] by (cases "u = ?t") (auto simp: woken_def al st2)
      qed
      moreover have "semas ?s2 k = semas s k" using False same by (simp add: same_sync_def)
      ultimately show ?thesis using R(6) w by (simp add: wake_inv_def)
    qed
  qed
  moreover have res: "resume_inv ?s2"
    unfolding resume_inv_def
  proof (intro allI impI)
    fix u k b
    assume u: "alive ?s2 u" "saved_level ?s2 u \<noteq> None"
    then have "saved_level s u \<noteq> None" by (simp add: blocked_def)
    then show "point ?s2 u \<noteq> Some (Down_loop k b)"
      using R(2,20) u(1) E(6) [of u] S(1) by (cases "u = ?t") (simp_all add: level_inv_def resume_inv_def al)
  qed
  ultimately have "sync_rest ?s2" using same_sync_inv [OF same] by (simp add: sync_rest_def)
  then have "sync_inv s'" using switch_rest [OF pre s'(2)] R(16) res by (simp add: blocked_def)
  then show ?thesis using run s'(1) by simp
qed

lemma intr_set_level_value:
  "\<not> in_external_intr s \<Longrightarrow> intr_set_level s b = Some (intr_on s, s\<lparr>intr_on := b\<rparr>)"
  by (simp add: intr_set_level_def intr_enable_def intr_disable_def intr_context_def intr_get_level_def)

lemma word_pred_le: "v \<noteq> 0 \<Longrightarrow> unat (v - 1 :: u32) = unat v - 1"
  by (metis One_nat_def unat_1 unat_sub word_le_nat_alt word_gt_0 Suc_leI unat_gt_0)

lemma down_tail_facts:
  assumes "down_tail m fs"
  shows "shape t fs" "Rw_enter k rd \<notin> set fs" "Sema_down (WaitSem u) \<notin> set fs" "Down_loop n old \<notin> set fs"
    "Sema_up n \<notin> set fs" "Take l \<in> set fs \<Longrightarrow> m = LockSem l \<and> (\<exists>gs. fs = Take l # gs \<and> list_all plain gs)"
  using assms plain_facts [of fs] plain_facts [of "tl fs"]
  by (cases m; cases fs; auto simp: down_tail_def plain_def shape_def split: frame.splits)+

text \<open>The running thread takes a unit of a semaphore.\<close>

lemma run_take_unit:
  assumes r: "runs s f fs" and f: "f = Sema_down m \<or> f = Down_loop m old'"
    and v: "sem_value (semas s m) \<noteq> 0"
  shows "\<exists>s'. down_loop ((pop s)\<lparr>intr_on := False\<rparr>) m old = Some s' \<and> sync_inv s'"
proof -
  note R = runsD [OF r]
  let ?t = "running s" and ?x = "semas s m"
  let ?s = "(set_sem ((pop s)\<lparr>intr_on := False\<rparr>) m (?x\<lparr>sem_value := sem_value ?x - 1\<rparr>))\<lparr>intr_on := old\<rparr>"
  have run: "down_loop ((pop s)\<lparr>intr_on := False\<rparr>) m old = Some ?s"
    using v R(16) by (simp add: down_loop_def intr_set_level_value Let_def)
  have tail: "down_tail m fs" "stack_ok ?t (held s ?t) fs"
    "case m of LockSem l \<Rightarrow> l \<notin> held s ?t | WaitSem u \<Rightarrow> u = ?t | Sem n \<Rightarrow> True"
    using R(13,14) f by (auto simp: shape_def)
  note T = down_tail_facts [OF tail(1)]
  have e: "elsewhere s ?s" by (simp add: elsewhere_def)
  note E = elsewhereD [OF e]
  have fr: "frames ?s ?t = fs" using R(9) by simp
  have pt: "point ?s ?t = Some g \<Longrightarrow> g \<in> set fs" for g using point_hd [of ?s ?t g] fr by simp
  have ptl: "point ?s ?t = Some (Take l) \<longleftrightarrow> m = LockSem l" for l
  proof
    assume "point ?s ?t = Some (Take l)"
    then have "Take l \<in> set fs" by (rule pt)
    then show "m = LockSem l" using T(6) by blast
  next
    assume "m = LockSem l"
    then obtain gs where "fs = Take l # gs" using tail(1) by (auto simp: down_tail_def split: list.splits)
    then show "point ?s ?t = Some (Take l)" by (simp add: point_def R(9))
  qed
  have sched: "sched_inv ?s" using R(1) by simp
  have "stack_inv ?s"
    by (rule stack_inv_keep [OF e R(3,1,10,11)]) (use tail fr T(1) in \<open>simp_all add: held_def\<close>)
  moreover have "wait_inv ?s" by (rule wait_inv_keep [OF e R(4,12)]) simp
  moreover have "level_inv ?s"
    by (rule level_keep [OF r E(1,5) _ _ E(6)]) (use pt T(4) in auto)
  moreover have "rw_inv ?s"
    by (rule rw_unaffected [OF r e, of "[]"]) (use fr f T(2) in \<open>auto simp: rw_frame_def\<close>)
  moreover have "lock_inv ?s"
    unfolding lock_inv_def
  proof
    fix l
    have ins: "insider ?s l u = insider s l u" if "u \<noteq> ?t" for u
      using that E(6) [of u] by (simp add: insider_def E(5))
    have insr: "insider ?s l ?t \<longleftrightarrow> lock_holder s l = ?t \<or> m = LockSem l"
      using R(11) ptl [of l] pt [of "Sema_up (LockSem l)"] T(5) by (auto simp: insider_def E(5))
    have insr0: "insider s l ?t \<longleftrightarrow> lock_holder s l = ?t" using R(11,15) f by (auto simp: insider_def)
    show "(sem_value (semas ?s (LockSem l)) = 1 \<and> (\<forall>u. \<not> insider ?s l u)) \<or>
        (sem_value (semas ?s (LockSem l)) = 0 \<and> (\<exists>u. insider ?s l u \<and> (\<forall>u'. insider ?s l u' \<longrightarrow> u' = u)))"
    proof (cases "m = LockSem l")
      case True
      then have "sem_value ?x = 1" "\<forall>u. \<not> insider s l u" using R(5) v unfolding lock_inv_def by blast+
      then show ?thesis using True ins insr by auto
    next
      case False
      then have "insider ?s l u = insider s l u" for u using ins insr insr0 by (cases "u = ?t") auto
      then show ?thesis using R(5) False by (auto simp: lock_inv_def)
    qed
  qed
  moreover have "wake_inv ?s"
    unfolding wake_inv_def
  proof (intro allI impI)
    fix k
    assume w: "waiters (semas ?s k) \<noteq> []"
    have wk: "u \<in> woken ?s k \<longleftrightarrow> u \<in> woken s k \<and> u \<noteq> ?t" for u
      using E(6) [of u] pt T(4) by (cases "u = ?t") (auto simp: woken_def E(3,5))
    show "unat (sem_value (semas ?s k)) \<le> card (woken ?s k)"
    proof (cases "k = m")
      case True
      have "unat (sem_value ?x) \<le> card (woken s m)" using R(6) w True by (auto simp: wake_inv_def)
      moreover have "card (woken s m) \<le> card (woken ?s m) + 1"
      proof -
        have "woken s m \<subseteq> insert ?t (woken ?s m)" using wk True by auto
        then have "card (woken s m) \<le> card (insert ?t (woken ?s m))"
          by (rule card_mono [rotated]) (simp add: finite_woken [OF sched])
        then show ?thesis using card_insert_le_m1 [of "card (woken ?s m) + 1" "woken ?s m" ?t] by simp
      qed
      ultimately show ?thesis using True word_pred_le [OF v] by simp
    next
      case False
      then have "?t \<notin> woken s k" using R(15) f by (auto simp: woken_def)
      then have "woken ?s k = woken s k" using wk by auto
      then show ?thesis using R(6) w False by (simp add: wake_inv_def)
    qed
  qed
  moreover have "cond_inv ?s"
  proof -
    note C = R(7) [unfolded cond_inv_def]
    have sig: "signalled ?s = signalled s"
      by (rule signalled_keep [OF e]) (use R(15) f pt T(5) in auto)
    have pen: "pending ?s u \<longleftrightarrow> pending s u \<and> \<not> (u = ?t \<and> m = WaitSem ?t)" for u
      using R(9) f E(4) [of u] T(3,4) tail(3)
      by (cases "u = ?t"; cases m) (auto simp: pending_def)
    have mine: "pending s ?t" if "m = WaitSem u" for u
      using that tail(3) R(9) f by (auto simp: pending_def)
    have free: "WaitSem ?t \<notin> set (conds s c)" "\<not> signalled s u ?t" if "m = WaitSem ?t" for c u
      using C v mine [OF that] R(11) that by blast+
    show ?thesis
      unfolding cond_inv_def E(5) sig pen
    proof (intro conjI)
      show "\<forall>c w. w \<in> set (conds ?s c) \<longrightarrow>
          (\<exists>t. w = WaitSem t \<and> alive s t \<and> pending s t \<and> \<not> (t = ?t \<and> m = WaitSem ?t))"
        using C free by simp blast
      show "\<forall>u t. signalled s u t \<longrightarrow> alive s t \<and> (pending s t \<and> \<not> (t = ?t \<and> m = WaitSem ?t)) \<and>
          (\<forall>c. WaitSem t \<notin> set (conds ?s c)) \<and> (\<forall>v. signalled s v t \<longrightarrow> v = u)"
        using C free by simp blast
      show "\<forall>t. alive s t \<and> pending s t \<and> \<not> (t = ?t \<and> m = WaitSem ?t) \<longrightarrow>
          (sem_value (semas ?s (WaitSem t)) = 0 \<longleftrightarrow>
            (\<exists>c. WaitSem t \<in> set (conds ?s c)) \<or> (\<exists>u. signalled s u t)) \<and>
          sem_value (semas ?s (WaitSem t)) \<le> 1"
      proof (intro allI impI)
        fix t
        assume t: "alive s t \<and> pending s t \<and> \<not> (t = ?t \<and> m = WaitSem ?t)"
        then have "m \<noteq> WaitSem t" using tail(3) by auto
        then show "(sem_value (semas ?s (WaitSem t)) = 0 \<longleftrightarrow>
            (\<exists>c. WaitSem t \<in> set (conds ?s c)) \<or> (\<exists>u. signalled s u t)) \<and>
          sem_value (semas ?s (WaitSem t)) \<le> 1" using C t by auto
      qed
    qed (use C in simp_all)
  qed
  ultimately have "sync_inv ?s" using sched by (simp add: sync_inv_def)
  then show ?thesis using run by blast
qed

lemma run_Sema_down:
  assumes r: "runs s (Sema_down m) fs"
  shows "\<exists>s'. exec (Sema_down m) (pop s) = Some s' \<and> sync_inv s'"
proof -
  have "exec (Sema_down m) (pop s) = down_loop ((pop s)\<lparr>intr_on := False\<rparr>) m (intr_on s)"
    using runsD(16) [OF r] by (simp add: sema_down_def intr_context_def intr_disable_def intr_get_level_def)
  then show ?thesis
    using run_sleep [OF r, of m] run_take_unit [OF r, of m] by (cases "sem_value (semas s m) = 0") auto
qed

lemma run_Down_loop:
  assumes r: "runs s (Down_loop m old) fs"
  shows "\<exists>s'. exec (Down_loop m old) (pop s) = Some s' \<and> sync_inv s'"
proof -
  have "\<not> intr_on s" using runsD(2,15) [OF r] by (auto simp: level_inv_def)
  then have "(pop s)\<lparr>intr_on := False\<rparr> = pop s" by (simp add: pop_def)
  then have "exec (Down_loop m old) (pop s) = down_loop ((pop s)\<lparr>intr_on := False\<rparr>) m old" by simp
  then show ?thesis
    using run_sleep [OF r, of m] run_take_unit [OF r, of m] by (cases "sem_value (semas s m) = 0") auto
qed

section \<open>Up\<close>

definition upped :: "sync \<Rightarrow> sem \<Rightarrow> sync" where
  "upped s m = (let x = semas s m;
       s1 = (case waiters x of [] \<Rightarrow> s | t # ts \<Rightarrow> unblocked s t)
     in set_sem s1 m \<lparr>sem_value = sem_value x + 1, waiters = tl (waiters x)\<rparr>)"

lemma unblocked_fields [simp]:
  fixes s :: sync
  shows "semas (unblocked s t) = semas s" "frames (unblocked s t) = frames s" "lock_holder (unblocked s t) = lock_holder s"
  "conds (unblocked s t) = conds s" "rws (unblocked s t) = rws s" "readers (unblocked s t) = readers s"
  "writers (unblocked s t) = writers s" "running (unblocked s t) = running s"
  "idle_thread (unblocked s t) = idle_thread s" "intr_on (unblocked s t) = intr_on s"
  "saved_level (unblocked s t) = saved_level s" "in_external_intr (unblocked s t) = in_external_intr s"
  "yield_on_return (unblocked s t) = yield_on_return s"
  by (simp_all add: unblocked_def set_status_def upd_thread_def)

lemma upped_fields [simp]:
  "semas (upped s m) k = (if k = m then \<lparr>sem_value = sem_value (semas s m) + 1, waiters = tl (waiters (semas s m))\<rparr>
     else semas s k)"
  "frames (upped s m) = frames s" "lock_holder (upped s m) = lock_holder s"
  "conds (upped s m) = conds s" "rws (upped s m) = rws s" "readers (upped s m) = readers s"
  "writers (upped s m) = writers s" "running (upped s m) = running s"
  "idle_thread (upped s m) = idle_thread s" "intr_on (upped s m) = intr_on s"
  "saved_level (upped s m) = saved_level s" "in_external_intr (upped s m) = in_external_intr s"
  "yield_on_return (upped s m) = yield_on_return s"
  by (cases "waiters (semas s m)"; simp add: upped_def set_sem_def)+

lemma sema_up_ok:
  assumes inv: "sched_inv s" and w: "wait_inv s" and lev: "in_external_intr s \<longrightarrow> \<not> intr_on s"
  shows "sema_up s m = Some (upped s m)" "sched_inv (upped s m)"
    "status (upped s m) u = (if waiters (semas s m) \<noteq> [] \<and> u = hd (waiters (semas s m)) then Some THREAD_READY
      else status s u)" "alive (upped s m) = alive s"
proof -
  let ?x = "semas s m"
  have bl: "asleep s t \<and> t \<noteq> idle_thread s" if "waiters ?x = t # ts" for t ts
    using w that unfolding wait_inv_def by (metis list.set_intros(1))
  have rst: "intr_set_level (set_sem (s1\<lparr>intr_on := False\<rparr>) m y) (intr_on s) =
      Some (False, set_sem s1 m y)" if "intr_on s1 = intr_on s" "in_external_intr s1 = in_external_intr s" for s1 y
    using lev that
    by (cases "intr_on s") (auto simp: intr_set_level_def intr_enable_def intr_disable_def intr_get_level_def
        intr_context_def set_sem_def)
  show up: "sema_up s m = Some (upped s m)"
  proof (cases "waiters ?x")
    case Nil
    then have x: "?x\<lparr>sem_value := sem_value ?x + 1\<rparr> = \<lparr>sem_value = sem_value ?x + 1, waiters = []\<rparr>"
      by simp
    show ?thesis
      using Nil rst [of s "?x\<lparr>sem_value := sem_value ?x + 1\<rparr>"]
      by (simp add: sema_up_def intr_disable_def intr_get_level_def upped_def x Let_def)
  next
    case (Cons t ts)
    let ?s0 = "set_sem (s\<lparr>intr_on := False\<rparr>) m (?x\<lparr>waiters := ts\<rparr>)"
    have "status ?s0 t = Some THREAD_BLOCKED" using bl [OF Cons] by simp
    then have ub: "thread_unblock ?s0 t = Some (unblocked ?s0 t)"
      using inv bl [OF Cons] by (intro thread_unblock_ok) simp_all
    have both: "?x\<lparr>waiters := w, sem_value := v\<rparr> = \<lparr>sem_value = v, waiters = w\<rparr>" for v w by simp
    have shift: "set_sem (unblocked ?s0 t) m y = set_sem ((unblocked s t)\<lparr>intr_on := False\<rparr>) m y" for y
      by (simp add: set_sem_def unblocked_def set_status_def upd_thread_def)
    show ?thesis
      using Cons ub rst [of "unblocked s t"]
      by (simp add: sema_up_def intr_disable_def intr_get_level_def upped_def shift both Let_def)
  qed
  show st: "status (upped s m) u = (if waiters ?x \<noteq> [] \<and> u = hd (waiters ?x) then Some THREAD_READY
      else status s u)" for u
    using bl by (cases "waiters ?x") (auto simp: upped_def unblocked_def)
  show "sched_inv (upped s m)"
    using inv unblocked_inv [OF inv] bl by (cases "waiters ?x") (auto simp: upped_def)
  show "alive (upped s m) = alive s"
    unfolding fun_eq_iff
  proof
    fix t
    show "alive (upped s m) t = alive s t"
      using st [of t] bl by (cases "waiters ?x") (auto simp: alive_def)
  qed
qed

text \<open>What an up does to the sleepers.\<close>

lemma up_wait:
  assumes inv: "sched_inv s" and w: "wait_inv s" and lev: "in_external_intr s \<longrightarrow> \<not> intr_on s"
  shows "wait_inv (upped s m)"
proof -
  let ?x = "semas s m" and ?s = "upped s m"
  have pt: "point ?s = point s" by (simp add: fun_eq_iff point_def)
  note st = sema_up_ok(3) [OF inv w lev, of m]
  have dist: "distinct (waiters ?x)" using w by (simp add: wait_inv_def)
  have only: "u \<in> set (waiters (semas s k)) \<Longrightarrow> u \<in> set (waiters (semas s j)) \<Longrightarrow> k = j" for u k j
    using w unfolding wait_inv_def by (metis frame.inject(2) option.inject)
  show ?thesis
    unfolding wait_inv_def pt upped_fields(9)
  proof (intro conjI allI)
    fix k u
    show "distinct (waiters (semas ?s k))" using w dist by (simp add: wait_inv_def distinct_tl)
    show "u \<noteq> idle_thread s \<longrightarrow> asleep ?s u \<longrightarrow> (\<exists>m old. point s u = Some (Down_loop m old))"
      using w by (auto simp: st wait_inv_def)
    have base: "u \<in> set (waiters (semas s k)) \<longleftrightarrow>
        u \<noteq> idle_thread s \<and> asleep s u \<and> (\<exists>old. point s u = Some (Down_loop k old))"
      using w unfolding wait_inv_def by blast
    show "u \<in> set (waiters (semas ?s k)) \<longleftrightarrow>
        u \<noteq> idle_thread s \<and> asleep ?s u \<and> (\<exists>old. point s u = Some (Down_loop k old))"
    proof (cases "waiters ?x")
      case Nil
      then show ?thesis using base by (auto simp: st)
    next
      case (Cons t ts)
      have "t \<notin> set ts" using dist Cons by simp
      moreover have "t \<in> set (waiters (semas s k)) \<Longrightarrow> k = m" using only [of t k m] Cons by simp
      ultimately have b: "u \<in> set (waiters (semas ?s k)) \<longleftrightarrow> u \<in> set (waiters (semas s k)) \<and> u \<noteq> t"
        using Cons by (cases "k = m") auto
      have a: "asleep ?s u \<longleftrightarrow> asleep s u \<and> u \<noteq> t" using Cons by (simp add: st)
      show ?thesis unfolding a b using base by blast
    qed
  qed
qed

lemma up_wake:
  assumes inv: "sched_inv s" and w: "wait_inv s" and lev: "in_external_intr s \<longrightarrow> \<not> intr_on s"
    and k: "wake_inv s" and st: "stack_inv s"
  shows "wake_inv (upped s m)"
  unfolding wake_inv_def
proof (intro allI impI)
  fix k
  assume ne: "waiters (semas (upped s m) k) \<noteq> []"
  let ?x = "semas s m" and ?s = "upped s m"
  have pt: "point ?s = point s" by (simp add: fun_eq_iff point_def)
  note sts = sema_up_ok(3) [OF inv w lev, of m]
  have sub: "woken s j \<subseteq> woken ?s j" for j
    by (auto simp: woken_def pt sema_up_ok(4) [OF inv w lev] sts)
  have fin: "finite (woken ?s j)" for j by (rule finite_woken) (rule sema_up_ok(2) [OF inv w lev])
  show "unat (sem_value (semas ?s k)) \<le> card (woken ?s k)"
  proof (cases "k = m")
    case False
    then have "unat (sem_value (semas s k)) \<le> card (woken s k)" using k ne by (simp add: wake_inv_def)
    then show ?thesis using card_mono [OF fin sub, of k] False by simp
  next
    case True
    then obtain t ts where x: "waiters ?x = t # ts" using ne by (cases "waiters ?x") auto
    have t: "asleep s t" "\<exists>old. point s t = Some (Down_loop m old)"
      using w x unfolding wait_inv_def by (metis list.set_intros(1))+
    then have "t \<in> woken ?s m" "t \<notin> woken s m"
      using x by (auto simp: woken_def pt sts alive_def sema_up_ok(4) [OF inv w lev])
    then have "insert t (woken s m) \<subseteq> woken ?s m" using sub by blast
    then have "card (insert t (woken s m)) \<le> card (woken ?s m)" by (rule card_mono [OF fin])
    then have "card (woken s m) + 1 \<le> card (woken ?s m)"
      using \<open>t \<notin> woken s m\<close> finite_woken [OF inv] by simp
    moreover have "unat (sem_value ?x) \<le> card (woken s m)" using k x by (simp add: wake_inv_def)
    moreover have "unat (sem_value ?x + 1) \<le> unat (sem_value ?x) + 1"
      by (simp add: unat_word_ariths(1) mod_less_eq_dividend)
    ultimately show ?thesis using True by simp
  qed
qed

lemma run_Sema_up:
  assumes r: "runs s (Sema_up m) fs"
  shows "\<exists>s'. exec (Sema_up m) (pop s) = Some s' \<and> sync_inv s'"
proof -
  note R = runsD [OF r]
  let ?t = "running s" and ?p = "pop s" and ?s = "upped (pop s) m"
  have st: "stack_ok ?t (held s ?t) fs" "list_all plain fs \<or> waiting_tail ?t fs"
    "case m of LockSem l \<Rightarrow> l \<notin> held s ?t | _ \<Rightarrow> True"
    using R(13,14) by (auto simp: shape_def)
  have nof: "Take l \<notin> set fs" "Sema_up n \<notin> set fs" "Down_loop n old \<notin> set fs" "Rw_enter k rd \<notin> set fs" for l n old k rd
    using st(2) plain_facts [of fs] plain_facts [of "tl fs"]
    by (cases fs; auto simp: waiting_tail_def plain_def)+
  have shp: "shape ?t fs"
    using st(2)
  proof
    assume "waiting_tail ?t fs"
    then show "shape ?t fs" by (cases fs) (auto simp: waiting_tail_def shape_def down_tail_def)
  qed (rule shape_plain)
  have ep: "elsewhere s ?p" by (simp add: elsewhere_def)
  note E = elsewhereD [OF ep]
  have fr: "frames ?p ?t = fs" using R(9) by simp
  have pt: "point ?p ?t = Some g \<Longrightarrow> g \<in> set fs" for g using point_hd [of ?p ?t g] fr by simp
  have invp: "sched_inv ?p" using R(1) by simp
  have waitp: "wait_inv ?p" by (rule wait_inv_keep [OF ep R(4,12)]) simp
  have lev: "in_external_intr ?p \<longrightarrow> \<not> intr_on ?p" using R(16) by simp
  note U = sema_up_ok [OF invp waitp lev]
  have stackp: "stack_inv ?p"
    by (rule stack_inv_keep [OF ep R(3,1,10,11)]) (use st(1) fr shp in \<open>simp_all add: held_def\<close>)
  have wakep: "wake_inv ?p" by (rule wake_inv_keep [OF ep invp R(6)]) (use R(15) in auto)
  have rwp: "rw_inv ?p"
    by (rule rw_unaffected [OF r ep, of "[]"]) (use fr nof in \<open>auto simp: rw_frame_def\<close>)
  have al: "alive ?s = alive s" using U(4) E(5) by simp
  have pts: "point ?s u = (if u = ?t then point ?p u else point s u)" for u
    using E(6) [of u] by (simp add: point_def)
  have view: "held ?s = held ?p" "users ?s = users ?p" "leaving ?s = leaving ?p" "sleepers ?s = sleepers ?p"
    "pending ?s = pending ?p" "point ?s = point ?p"
    using U(4) by (simp_all add: fun_eq_iff held_def users_def leaving_def sleepers_def pending_def point_def)
  have "stack_inv ?s" using stackp unfolding stack_inv_def by (simp add: view U(4))
  moreover have "wait_inv ?s" by (rule up_wait [OF invp waitp lev])
  moreover have "wake_inv ?s" by (rule up_wake [OF invp waitp lev wakep stackp])
  moreover have "rw_inv ?s" using rwp unfolding rw_inv_def by (simp add: view U(4))
  moreover have "level_inv ?s" by (rule level_keep [OF r _ al]) (use pt nof in \<open>auto simp: pts\<close>)
  moreover have "lock_inv ?s"
    unfolding lock_inv_def
  proof
    fix l
    have ins: "insider ?s l u = insider s l u" if "u \<noteq> ?t" for u
      using that by (simp add: insider_def al pts)
    have insr: "insider ?s l ?t \<longleftrightarrow> lock_holder s l = ?t"
      using R(11) pt nof by (auto simp: insider_def al pts)
    have insr0: "insider s l ?t \<longleftrightarrow> lock_holder s l = ?t \<or> m = LockSem l"
      using R(11,15) by (auto simp: insider_def)
    show "(sem_value (semas ?s (LockSem l)) = 1 \<and> (\<forall>u. \<not> insider ?s l u)) \<or>
        (sem_value (semas ?s (LockSem l)) = 0 \<and> (\<exists>u. insider ?s l u \<and> (\<forall>u'. insider ?s l u' \<longrightarrow> u' = u)))"
    proof (cases "m = LockSem l")
      case True
      have "insider s l ?t" using insr0 True by simp
      then have v: "sem_value (semas s (LockSem l)) = 0" "\<And>u. insider s l u \<Longrightarrow> u = ?t"
        using R(5) unfolding lock_inv_def by metis+
      have "lock_holder s l \<noteq> ?t" using st(3) True by (simp add: held_def)
      then have "\<not> insider ?s l u" for u using ins insr v(2) by (cases "u = ?t") auto
      then show ?thesis using True v(1) by simp
    next
      case False
      then have "insider ?s l u = insider s l u" for u using ins insr insr0 by (cases "u = ?t") auto
      then show ?thesis using R(5) False by (auto simp: lock_inv_def)
    qed
  qed
  moreover have "cond_inv ?s"
  proof -
    note C = R(7) [unfolded cond_inv_def]
    have sig: "signalled ?s u t \<longleftrightarrow> signalled s u t \<and> \<not> (u = ?t \<and> m = WaitSem t)" for u t
      using R(11,15) pt nof by (cases "u = ?t") (auto simp: signalled_def al pts)
    have pen: "pending ?s = pending s"
      unfolding fun_eq_iff
    proof
      fix u
      show "pending ?s u = pending s u" using R(9) by (cases "u = ?t") (auto simp: pending_def)
    qed
    have mine: "signalled s ?t t" if "m = WaitSem t" for t using that R(11,15) by (simp add: signalled_def)
    show ?thesis
      unfolding cond_inv_def al sig pen
    proof (intro conjI)
      show "\<forall>u t. signalled s u t \<and> \<not> (u = ?t \<and> m = WaitSem t) \<longrightarrow> alive s t \<and> pending s t \<and>
          (\<forall>c. WaitSem t \<notin> set (conds ?s c)) \<and>
          (\<forall>v. signalled s v t \<and> \<not> (v = ?t \<and> m = WaitSem t) \<longrightarrow> v = u)"
        using C by simp blast
      show "\<forall>t. alive s t \<and> pending s t \<longrightarrow>
          (sem_value (semas ?s (WaitSem t)) = 0 \<longleftrightarrow> (\<exists>c. WaitSem t \<in> set (conds ?s c)) \<or>
            (\<exists>u. signalled s u t \<and> \<not> (u = ?t \<and> m = WaitSem t))) \<and>
          sem_value (semas ?s (WaitSem t)) \<le> 1"
      proof (intro allI impI)
        fix t
        assume t: "alive s t \<and> pending s t"
        then have c: "(sem_value (semas s (WaitSem t)) = 0 \<longleftrightarrow> (\<exists>c. WaitSem t \<in> set (conds s c)) \<or>
            (\<exists>u. signalled s u t))" "sem_value (semas s (WaitSem t)) \<le> 1"
          using C by blast+
        show "(sem_value (semas ?s (WaitSem t)) = 0 \<longleftrightarrow> (\<exists>c. WaitSem t \<in> set (conds ?s c)) \<or>
            (\<exists>u. signalled s u t \<and> \<not> (u = ?t \<and> m = WaitSem t))) \<and>
          sem_value (semas ?s (WaitSem t)) \<le> 1"
        proof (cases "m = WaitSem t")
          case True
          note sg = mine [OF True]
          then have "sem_value (semas s (WaitSem t)) = 0" using c(1) by blast
          moreover have "\<forall>c. WaitSem t \<notin> set (conds s c)" "\<forall>v. signalled s v t \<longrightarrow> v = ?t"
            using C sg by blast+
          ultimately show ?thesis using True by auto
        next
          case False
          then show ?thesis using c by auto
        qed
      qed
    qed (use C in simp_all)
  qed
  ultimately have "sync_inv ?s" using U(2) by (simp add: sync_inv_def)
  then show ?thesis using U(1) by simp
qed

lemma run_frame:
  assumes "runs s f fs"
  shows "\<exists>s'. exec f (pop s) = Some s' \<and> sync_inv s'"
proof (cases f)
  case (Sema_down m)
  then show ?thesis using assms run_Sema_down by (simp only:)
next
  case (Down_loop m old)
  then show ?thesis using assms run_Down_loop by (simp only:)
next
  case (Sema_up m)
  then show ?thesis using assms run_Sema_up by (simp only:)
next
  case (Lock_acquire l)
  then show ?thesis using assms run_Lock_acquire by (simp only:)
next
  case (Take l)
  then show ?thesis using assms run_Take by (simp only:)
next
  case (Lock_release l)
  then show ?thesis using assms run_Lock_release by (simp only:)
next
  case (Cond_wait c l)
  then show ?thesis using assms run_Cond_wait by (simp only:)
next
  case (Cond_signal c l)
  then show ?thesis using assms run_Cond_signal by (simp only:)
next
  case (Cond_broadcast c l)
  then show ?thesis using assms run_Cond_broadcast by (simp only:)
next
  case (Rw_acquire k rd)
  then show ?thesis using assms run_Rw_acquire by (simp only:)
next
  case (Rw_test k rd)
  then show ?thesis using assms run_Rw_test by (simp only:)
next
  case (Rw_woken k rd)
  then show ?thesis using assms run_Rw_woken by (simp only:)
next
  case (Rw_enter k rd)
  then show ?thesis using assms run_Rw_enter by (simp only:)
next
  case (Rw_release k rd)
  then show ?thesis using assms run_Rw_release by (simp only:)
next
  case (Rw_leave k rd)
  then show ?thesis using assms run_Rw_leave by (simp only:)
next
  case (Rw_wake k rd)
  then show ?thesis using assms run_Rw_wake by (simp only:)
qed

end
