(* ===== verification/Kernel_Synch_Reach.thy ===== *)
theory Kernel_Synch_Reach
  imports Kernel_Synch_Inv
begin

text \<open>
  Every step of the kernel keeps the invariant of \<open>Kernel_Synch_Inv\<close>, so every reachable state
  has it; and what follows from it: no panic, mutual exclusion of locks, exclusion of readers
  and writers, no lost wake-up, and no dangling waiter of a condition variable.
\<close>

section \<open>Steps outside frames\<close>

lemma at_clientD:
  assumes "at_client s" "sync_inv s"
  shows "saved_level s (running s) = None" "frames s (running s) = []" "point s (running s) = None"
    "\<And>r. Guard r \<notin> held s (running s)" "alive s (running s)" "\<not> asleep s (running s)"
    "thread_current s = Some (running s)" "\<not> in_external_intr s" "resume_inv s" "sync_rest s" "sched_inv s"
    "stack_inv s"
proof -
  show s: "saved_level s (running s) = None" "frames s (running s) = []"
    using assms(1) by (simp_all add: at_client_def)
  then show "point s (running s) = None" by (simp add: point_def)
  show inv: "sched_inv s" "stack_inv s" and "sync_rest s" "\<not> in_external_intr s" "resume_inv s"
    using assms(2) by (simp_all add: sync_inv_def sync_rest_def level_inv_def)
  note r = sched_inv_running [OF inv(1)]
  show al: "alive s (running s)" using r by (simp add: alive_def)
  show "\<not> asleep s (running s)" using r by simp
  have "stack_ok (running s) (held s (running s)) []" using inv(2) al s(2) unfolding stack_inv_def by metis
  then show "Guard r \<notin> held s (running s)" for r by simp
  show "thread_current s = Some (running s)" using thread_current_ok inv(1) by blast
qed

lemma sync_inv_same:
  assumes "same_sync s s'" "sync_rest s" "\<And>t. t \<noteq> idle_thread s \<Longrightarrow> asleep s' t = asleep s t"
  shows "sync_rest s'"
proof -
  have "stack_inv s" using assms(2) by (simp add: sync_rest_def)
  then show ?thesis
    using assms(2) same_sync_inv [OF assms(1)] sleep_cong [OF assms(1) _ assms(3)] by (simp add: sync_rest_def)
qed

lemma step_resume:
  assumes inv: "sync_inv s" and sv: "saved_level s (running s) \<noteq> None"
  shows "\<exists>s'. thread_resume s = Some s' \<and> sync_inv s'"
proof -
  have I: "sched_inv s" "level_inv s" "sync_rest s" using inv by (simp_all add: sync_inv_parts)
  have ctx: "\<not> in_external_intr s" using I(2) by (simp add: level_inv_def)
  obtain s' where s': "thread_resume s = Some s'"
    "s' = s\<lparr>intr_on := (case saved_level s (running s) of None \<Rightarrow> intr_on s | Some l \<Rightarrow> l),
      saved_level := (saved_level s)(running s := None)\<rparr>"
    using thread_resume_ok [OF ctx] by blast
  have same: "same_sync s s'" by (simp add: s'(2) same_sync_def alive_def fun_eq_iff)
  have "sync_rest s'" by (rule sync_inv_same [OF same I(3)]) (simp add: s'(2))
  moreover have "alive s (running s)" using sched_inv_running [OF I(1)] by (simp add: alive_def)
  then have "level_inv s'"
    using I(2) sv same_syncD(1) [OF same] unfolding level_inv_def resume_inv_def
    by (auto simp: s'(2) alive_def)
  moreover have "sched_inv s'" using I(1) by (simp add: s'(2))
  ultimately show ?thesis using s'(1) by (simp add: sync_inv_parts)
qed

lemma step_call:
  assumes inv: "sync_inv s" and ac: "at_client s" and ni: "running s \<noteq> idle_thread s" and op: "client_op s f"
  shows "sync_inv (push s [f])"
proof -
  note A = at_clientD [OF ac inv]
  let ?s = "push s [f]" and ?t = "running s"
  have I: "level_inv s" "stack_inv s" "wait_inv s" "lock_inv s" "wake_inv s" "cond_inv s" "rw_inv s"
    using inv by (simp_all add: sync_inv_def)
  have e: "elsewhere s ?s" by (simp add: elsewhere_def)
  note E = elsewhereD [OF e]
  have fr: "frames ?s ?t = [f]" using A(2) by simp
  have pt: "point ?s ?t = Some f" using fr by (simp add: point_def)
  have f: "\<And>l. f \<noteq> Take l" "\<And>m old. f \<noteq> Down_loop m old" "\<And>l. f \<noteq> Sema_up (LockSem l)"
    "\<And>t. f \<noteq> Sema_up (WaitSem t)" "\<And>t. f \<noteq> Sema_down (WaitSem t)" "\<And>k rd. f \<noteq> Rw_enter k rd"
    "\<And>k rd. f \<noteq> Rw_leave k rd" "\<And>k rd. f \<noteq> Rw_woken k rd"
    using op by (auto simp: client_op_def)
  have "stack_ok ?t (held s ?t) [f]" "shape ?t [f]"
    using op A(4) by (auto simp: client_op_def shape_def down_tail_def held_def split: frame.splits sem.splits
        lock_id.splits cond_id.splits)
  then have "stack_inv ?s"
    by (intro stack_inv_keep [OF e I(2) A(11) ni A(5)]) (simp_all add: A(2) held_def)
  moreover have "wait_inv ?s" by (rule wait_inv_keep [OF e I(3) A(6)]) simp
  moreover have "lock_inv ?s"
    by (rule lock_inv_keep [OF I(4) insider_keep [OF e]]) (use A(3) pt f in auto)
  moreover have "wake_inv ?s" by (rule wake_inv_keep [OF e _ I(5)]) (use A(3,11) in auto)
  moreover have "cond_inv ?s"
  proof (rule cond_inv_keep [OF _ _ E(5) _ signalled_keep [OF e] I(6)])
    show "pending ?s = pending s"
      unfolding fun_eq_iff
    proof
      fix u
      have "f \<noteq> Sema_down (WaitSem ?t)" "\<And>old. f \<noteq> Down_loop (WaitSem ?t) old"
        using f(5) [of ?t] f(2) by blast+
      then show "pending ?s u = pending s u" using A(2) by (cases "u = ?t") (auto simp: pending_def)
    qed
  qed (use A(3) pt f in auto)
  moreover have "rw_inv ?s"
  proof -
    note W = I(7) [unfolded rw_inv_def]
    have us: "users ?s = users s" by (simp add: users_def fun_eq_iff)
    have sl: "sleepers ?s k rd = sleepers s k rd" for k rd
      using sleepers_step [OF e finite_alive [OF A(11)] A(5), of k rd] fr A(2) f(8) by simp
    have lv: "leaving ?s k rd t \<le> count_list (users s k rd) t" if "alive s t" for k rd t
    proof (cases "t = ?t \<and> f = Rw_release k rd")
      case True
      then have "t \<in> set (users s k rd)" using op by (auto simp: client_op_def users_def)
      then have "count_list (users s k rd) t \<noteq> 0" by (simp add: count_list_0_iff)
      then show ?thesis using True A(2) by (simp add: leaving_def)
    next
      case False
      then have "leaving ?s k rd t \<le> leaving s k rd t"
        using A(2) f by (cases "t = ?t") (auto simp: leaving_def)
      then show ?thesis using W that by (meson le_trans)
    qed
    have "point s t = Some (Rw_enter k rd)" if "point ?s t = Some (Rw_enter k rd)" for t k rd
      by (use that pt f(6) [of k rd] E(6) [of t] in \<open>cases "t = ?t"\<close>; auto)
    then show ?thesis
      unfolding rw_inv_def us E(5) sl using W lv by simp
  qed
  moreover have "level_inv ?s"
  proof -
    have "point ?s t \<noteq> Some (Down_loop m old)" if "alive s t" "saved_level s t \<noteq> None" for t m old
      using that A(9) E(6) [of t] pt f(2) by (cases "t = ?t") (auto simp: resume_inv_def)
    then show ?thesis using A(1,8) pt f(2) by (simp add: level_inv_def resume_inv_def E(5))
  qed
  ultimately show ?thesis using A(11) by (simp add: sync_inv_def)
qed

lemma step_idle:
  assumes inv: "sync_inv s" and ac: "at_client s" and id: "running s = idle_thread s"
  shows "\<exists>s'. idle_loop s = Some s' \<and> sync_inv s'"
proof -
  note A = at_clientD [OF ac inv]
  let ?s0 = "s\<lparr>intr_on := False, saved_level := (saved_level s)(running s := Some True)\<rparr>"
  have i0: "sched_inv ?s0" using A(11) by simp
  obtain s' where s': "thread_block ?s0 = Some s'" "switched (blocked ?s0) s'"
    using thread_block_ok [OF i0] A(8) by auto
  have pre: "sched_pre (blocked ?s0)" by (rule blocked_pre [OF i0]) simp
  have st: "status (blocked ?s0) u = (if u = running s then Some THREAD_BLOCKED else status s u)" for u
    using sched_inv_running(1) [OF A(11)] by (auto simp: blocked_def)
  have al: "alive (blocked ?s0) = alive s" using A(5) by (auto simp: fun_eq_iff alive_def st)
  have same: "same_sync s (blocked ?s0)"
    using al more_sync [of "blocked ?s0" s] by (simp add: same_sync_def blocked_def)
  have "sync_rest (blocked ?s0)" by (rule sync_inv_same [OF same A(10)]) (unfold st, use id in auto)
  moreover have "resume_inv (blocked ?s0)"
    using A(3,9) by (auto simp: resume_inv_def al same_syncD(1) [OF same], auto simp: blocked_def split: if_splits)
  ultimately have "sync_inv s'" using switch_rest [OF pre s'(2)] A(8) by (simp add: blocked_def)
  then show ?thesis using s'(1) by (simp add: idle_loop_def intr_disable_def)
qed

lemma yielded_rest:
  assumes inv: "sched_inv s" and rest: "sync_rest s"
  shows "same_sync s (yielded s l)" "sync_rest (yielded s l)"
proof -
  note r = sched_inv_running [OF inv]
  have st: "status (yielded s l) u = (if u = running s then Some THREAD_READY else status s u)" for u
    using r(1) by (auto simp: yielded_def)
  have al: "alive (yielded s l) = alive s" using r(1) by (auto simp: fun_eq_iff alive_def st)
  show same: "same_sync s (yielded s l)"
    using al more_sync [of "yielded s l" s] by (simp add: same_sync_def yielded_def)
  show "sync_rest (yielded s l)" by (rule sync_inv_same [OF same rest]) (use r(1) in \<open>auto simp: st\<close>)
qed

lemma step_yield:
  assumes inv: "sync_inv s" and pt: "\<And>m old. point s (running s) \<noteq> Some (Down_loop m old)"
  shows "\<exists>s'. thread_yield s = Some s' \<and> sync_inv s' \<and> \<not> intr_on s' \<and> \<not> in_external_intr s' \<and> frames s' = frames s"
proof -
  have I: "sched_inv s" "\<not> in_external_intr s" "resume_inv s" "sync_rest s"
    using inv by (simp_all add: sync_inv_parts level_inv_def)
  obtain s' where s': "thread_yield s = Some s'" "switched (yielded s (intr_on s)) s'" "\<not> intr_on s'"
    using thread_yield_ok [OF I(1,2)] by blast
  note Y = yielded_rest [OF I(1,4), of "intr_on s"]
  have "resume_inv (yielded s (intr_on s))"
    unfolding resume_inv_def
  proof (intro allI impI)
    fix t m old
    assume t: "alive (yielded s (intr_on s)) t" "saved_level (yielded s (intr_on s)) t \<noteq> None"
    have p: "point (yielded s (intr_on s)) = point s" by (rule same_syncD(1) [OF Y(1)])
    have a: "alive s t" using t(1) Y(1) by (simp add: same_sync_def)
    have sv: "t = running s \<or> saved_level s t \<noteq> None" using t(2) by (auto simp: yielded_def split: if_splits)
    show "point (yielded s (intr_on s)) t \<noteq> Some (Down_loop m old)"
      unfolding p using sv
    proof
      assume "saved_level s t \<noteq> None"
      then show "point s t \<noteq> Some (Down_loop m old)" using I(3) a unfolding resume_inv_def by blast
    qed (use pt in blast)
  qed
  then have "sync_inv s'"
    using switch_rest [OF yielded_pre [OF I(1)] s'(2) Y(2)] I(2) by (simp add: yielded_def)
  moreover have "frames s' = frames s"
    using more_sync(5) [OF switchedD(11) [OF s'(2)]] Y(1) by (simp add: same_sync_def)
  moreover have "\<not> in_external_intr s'" using switchedD(8) [OF s'(2)] I(2) by (simp add: yielded_def)
  ultimately show ?thesis using s'(1,3) by blast
qed

section \<open>Threads come and go\<close>

text \<open>A thread without frames, locks or readers-writers locks appears or disappears.\<close>

lemma sync_rest_change:
  assumes rest: "sync_rest s" and inv: "sched_inv s" "sched_inv s' \<or> sched_pre s'"
    and other: "\<And>u. u \<noteq> t \<Longrightarrow> alive s' u = alive s u" "\<And>u. u \<noteq> t \<Longrightarrow> frames s' u = frames s u"
    and t: "frames s' t = []" "alive s t \<Longrightarrow> frames s t = []" "t \<noteq> idle_thread s" "unencumbered s t"
      "\<not> asleep s t" "\<And>u. asleep s' u = asleep s u"
    and same: "idle_thread s' = idle_thread s" "lock_holder s' = lock_holder s" "semas s' = semas s"
      "conds s' = conds s" "rws s' = rws s" "readers s' = readers s" "writers s' = writers s"
  shows "sync_rest s'"
proof -
  have I: "stack_inv s" "wait_inv s" "lock_inv s" "wake_inv s" "cond_inv s" "rw_inv s"
    using rest by (simp_all add: sync_rest_def)
  have hs: "held s' = held s" and us: "users s' = users s"
    using same by (simp_all add: fun_eq_iff held_def users_def)
  have pt: "point s' u = (if u = t then None else point s u)" for u
    using t(1) other(2) [of u] by (simp add: point_def)
  have ptt: "alive s t \<Longrightarrow> point s t = None" using t(2) by (simp add: point_def)
  have ap: "alive s' u \<and> point s' u = Some f \<longleftrightarrow> alive s u \<and> point s u = Some f" for u f
    using pt [of u] ptt other(1) [of u] by (cases "u = t") auto
  have ht: "held s t = {}" using t(4) by (auto simp: held_def unencumbered_def)
  have "stack_inv s'"
    unfolding stack_inv_def same hs
  proof (intro conjI allI impI)
    show "frames s' (idle_thread s) = []" using I(1) other(2) t(3) by (simp add: stack_inv_def)
    show "stack_ok u (held s u) (frames s' u)" "shape u (frames s' u)" if "alive s' u" for u
      using that I(1) other [of u] t(1) ht by (cases "u = t"; simp add: stack_inv_def shape_def)+
    show "alive s' (lock_holder s l)" if "lock_holder s l \<noteq> NULL" for l
      using that I(1) other(1) t(4) by (simp add: stack_inv_def unencumbered_def)
  qed
  moreover have "wait_inv s'"
  proof -
    have "asleep s u \<Longrightarrow> point s' u = point s u" for u using pt t(5) by metis
    then show ?thesis using I(2) unfolding wait_inv_def same t(6) by (metis (no_types, lifting))
  qed
  moreover have ins: "insider s' l u = insider s l u" for l u
    using ap [of u] t(4) other(1) [of u] ptt pt [of u] same(2)
    by (cases "u = t") (auto simp: insider_def unencumbered_def)
  then have "lock_inv s'" using I(3) by (simp add: lock_inv_def same)
  moreover have "woken s' m = woken s m" for m
    using ap unfolding woken_def t(6) by (intro Collect_cong) blast
  then have "wake_inv s'" using I(4) by (simp add: wake_inv_def same)
  moreover have "cond_inv s'"
  proof -
    have pen: "pending s' u = (u \<noteq> t \<and> pending s u)" for u using t(1) other(2) [of u] by (cases "u = t") (auto simp: pending_def)
    have sig: "signalled s' u v = signalled s u v" for u v using ap by (simp add: signalled_def)
    have both: "alive s' u \<and> pending s' u \<longleftrightarrow> alive s u \<and> pending s u" for u
      using pen [of u] t(2) other(1) [of u] by (cases "u = t") (auto simp: pending_def)
    have rw: "(alive s' v \<and> pending s' v \<and> Q) = (alive s v \<and> pending s v \<and> Q)" for v Q
      using both by blast
    have rw1: "(\<exists>v. w = WaitSem v \<and> alive s' v \<and> pending s' v) = (\<exists>v. w = WaitSem v \<and> alive s v \<and> pending s v)" for w
      using both by blast
    show ?thesis using I(5) unfolding cond_inv_def sig same rw rw1 both .
  qed
  moreover have "rw_inv s'"
  proof -
    have fin: "finite {u. alive s u}" by (rule finite_alive [OF inv(1)])
    have sl: "sleepers s' k rd = sleepers s k rd" for k rd
    proof -
      let ?c = "\<lambda>u. count_list (frames s' u) (Rw_woken k rd)"
      have sub: "{u. alive s' u} \<subseteq> insert t {u. alive s u}" using other(1) by auto
      have "sum ?c {u. alive s' u} = sum ?c ({u. alive s u} - {t})"
      proof (rule sum.mono_neutral_right [OF finite_subset [OF sub]])
        have gone: "?c u = 0" if "alive s' u" "\<not> (alive s u \<and> u \<noteq> t)" for u
          using that other(1) [of u] t(1) by (cases "u = t") auto
        show "\<forall>u \<in> {u. alive s' u} - ({u. alive s u} - {t}). ?c u = 0"
        proof
          fix u
          assume "u \<in> {u. alive s' u} - ({u. alive s u} - {t})"
          then have "alive s' u" "\<not> (alive s u \<and> u \<noteq> t)" by simp_all
          then show "?c u = 0" by (rule gone)
        qed
        show "{u. alive s u} - {t} \<subseteq> {u. alive s' u}" using other(1) by blast
        show "finite (insert t {u. alive s u})" using fin by simp
      qed
      also have "\<dots> = sum (\<lambda>u. count_list (frames s u) (Rw_woken k rd)) ({u. alive s u} - {t})"
        by (rule sum.cong) (simp_all add: other(2))
      also have "\<dots> = sleepers s k rd"
        unfolding sleepers_def
      proof (rule sum.mono_neutral_left [OF fin])
        show "\<forall>u \<in> {u. alive s u} - ({u. alive s u} - {t}). count_list (frames s u) (Rw_woken k rd) = 0"
          by (intro ballI) (use t(2) in auto)
      qed blast
      finally show ?thesis by (simp add: sleepers_def)
    qed
    have lv: "leaving s' k rd u \<le> leaving s k rd u" for k rd u
      using t(1) other(2) [of u] by (cases "u = t") (simp_all add: leaving_def)
    have nt: "t \<notin> set (users s k rd)" for k rd using t(4) by (simp add: users_def unencumbered_def)
    have W: "\<And>r rd. waiting (rws s r) rd = int (sleepers s r rd)"
      "\<And>r. AR (rws s r) = int (length (users s r True)) \<and> AW (rws s r) = int (length (users s r False)) \<and>
       (users s r False = [] \<or> length (users s r False) = 1 \<and> users s r True = [])"
      "\<And>r u rd. alive s u \<Longrightarrow> point s u = Some (Rw_enter r rd) \<Longrightarrow>
        users s r False = [] \<and> (\<not> rd \<longrightarrow> users s r True = [])"
      "\<And>r u rd. alive s u \<Longrightarrow> leaving s r rd u \<le> count_list (users s r rd) u"
      "\<And>r u rd. u \<in> set (users s r rd) \<Longrightarrow> alive s u"
      using I(6) unfolding rw_inv_def by blast+
    have L: "leaving s' r rd u \<le> count_list (users s r rd) u" if "alive s' u" for r u rd
      using that W(4) [of u r rd] lv [of r rd u] other(1) [of u] t(1)
      by (cases "u = t") (auto simp: leaving_def)
    have M: "alive s' u" if "u \<in> set (users s r rd)" for r u rd using that W(5) nt other(1) by metis
    show ?thesis
      unfolding rw_inv_def same us sl
    proof (intro conjI allI impI)
      show "users s r False = []" if "alive s' u" "point s' u = Some (Rw_enter r rd)" for r u rd
        using W(3) ap that by blast
      show "users s r True = []" if "alive s' u" "point s' u = Some (Rw_enter r rd)" "\<not> rd" for r u rd
        using W(3) ap that by blast
    qed (use W(1,2) L M in \<open>blast+\<close>)
  qed
  ultimately show ?thesis by (simp add: sync_rest_def)
qed

lemma step_exit:
  assumes inv: "sync_inv s" and ac: "at_client s" and ni: "running s \<noteq> idle_thread s"
    and un: "unencumbered s (running s)"
  shows "\<exists>s'. thread_exit s = Some s' \<and> sync_inv s'"
proof -
  note A = at_clientD [OF ac inv]
  obtain s' where s': "thread_exit s = Some s'" "switched (exited s) s'"
    using thread_exit_ok [OF A(11,8) ni] by blast
  note pre = exited_pre [OF A(11) ni]
  have st: "status (exited s) u = (if u = running s then Some THREAD_DYING else status s u)" for u
    using sched_inv_running(1) [OF A(11)] by (auto simp: exited_def)
  have al: "alive (exited s) u = (alive s u \<and> u \<noteq> running s)" for u by (simp add: alive_def st)
  have m: "semas (exited s) = semas s" "lock_holder (exited s) = lock_holder s" "conds (exited s) = conds s"
    "rws (exited s) = rws s" "frames (exited s) = frames s" "readers (exited s) = readers s"
    "writers (exited s) = writers s" "idle_thread (exited s) = idle_thread s"
    "saved_level (exited s) = saved_level s" "in_external_intr (exited s) = in_external_intr s"
    by (simp_all add: exited_def set_status_def upd_thread_def)
  have "sync_rest (exited s)"
    by (rule sync_rest_change [OF A(10,11), where t = "running s"]) (use pre A ni un in \<open>auto simp: al st m\<close>)
  moreover have "resume_inv (exited s)" using A(9) by (auto simp: resume_inv_def al m point_def)
  ultimately show ?thesis using s'(1) switch_rest [OF pre s'(2)] A(8) by (auto simp: m)
qed

lemma step_create:
  assumes inv: "sync_inv s" and new: "ths s page = None" "page \<noteq> NULL"
    and cr: "thread_create s page (Some nm) PRI_DEFAULT func aux = Some (tid, s')"
  shows "sync_inv (s'\<lparr>frames := (frames s')(page := [])\<rparr>)"
proof -
  have I: "sched_inv s" "\<not> in_external_intr s" "resume_inv s" "sync_rest s" "stack_inv s" "rw_inv s" "level_inv s"
    using inv by (simp_all add: sync_inv_parts level_inv_def sync_rest_def)
  have pri: "PRI_MIN \<le> PRI_DEFAULT" "PRI_DEFAULT \<le> PRI_MAX" by (simp_all add: PRI_MIN_def PRI_DEFAULT_def PRI_MAX_def)
  have f: "func \<noteq> NULL" using cr by (cases "func = NULL") (simp_all add: thread_create_def)
  let ?th = "new_thread page nm PRI_DEFAULT func aux (next_tid s)"
  let ?s = "s'\<lparr>frames := (frames s')(page := [])\<rparr>"
  note C = thread_create_ok [OF I(1) new f pri I(2), of nm aux]
  have s': "s' = created s page ?th" using cr C(1) by auto
  have iv: "sched_inv ?s" using C(2) s' by simp
  have st: "status ?s u = (if u = page then Some THREAD_READY else status s u)" for u
    using status_created [of s page ?th u] by (simp add: s' new_thread_def)
  have np: "\<not> alive s page" "status s page = None" using new(1) by (simp_all add: alive_def status_None)
  have nr: "page \<noteq> running s" "page \<noteq> idle_thread s"
    using sched_inv_running(7) [OF I(1)] np(2) I(1) by (auto simp: sched_inv_def threads_ok_def)
  have un: "unencumbered s page"
    unfolding unencumbered_def
  proof (intro conjI allI)
    show "lock_holder s l \<noteq> page" for l using I(5) np(1) new(2) unfolding stack_inv_def by metis
    have "page \<notin> set (users s r rd)" for r rd using I(6) np(1) unfolding rw_inv_def by blast
    from this [of _ True] this [of _ False]
    show "page \<notin> set (readers s r)" "page \<notin> set (writers s r)" for r by (simp_all add: users_def)
  qed
  have m: "semas ?s = semas s" "lock_holder ?s = lock_holder s" "conds ?s = conds s"
    "rws ?s = rws s" "frames ?s u = (if u = page then [] else frames s u)" "readers ?s = readers s"
    "writers ?s = writers s" "idle_thread ?s = idle_thread s" "running ?s = running s" "intr_on ?s = intr_on s"
    "saved_level ?s u = (if u = page then Some True else saved_level s u)"
    "in_external_intr ?s = in_external_intr s" for u
    by (simp_all add: s' created_def)
  have al: "u \<noteq> page \<Longrightarrow> alive ?s u = alive s u" for u using st [of u] by (simp add: alive_def)
  have fs: "frames s' = frames s" by (simp add: s' created_def)
  have rest: "sync_rest ?s"
    by (rule sync_rest_change [OF I(4,1), where t = page])
      (use iv np nr un al st fs m in simp_all)
  have pt: "point ?s u = (if u = page then None else point s u)" for u by (simp add: point_def fs)
  have "level_inv ?s"
    unfolding level_inv_def resume_inv_def m pt
  proof (intro conjI allI impI)
    show "(if t = page then None else point s t) \<noteq> Some (Down_loop m old)"
      if "alive ?s t" "(if t = page then Some True else saved_level s t) \<noteq> None" for t m old
      using that I(3) al [of t] by (cases "t = page") (simp_all add: resume_inv_def)
  qed (use I(2,7) nr in \<open>auto simp: level_inv_def\<close>)
  then show ?thesis using iv rest by (simp add: sync_inv_parts)
qed

section \<open>Interrupts\<close>

lemma step_timer:
  assumes inv: "sync_inv s" and on: "intr_on s"
  shows "\<exists>s'. external_interrupt tick_handlers s 0x20 = Some s' \<and> sync_inv s'"
proof -
  let ?cur = "running s" and ?s1 = "s\<lparr>intr_on := False, in_external_intr := True, yield_on_return := False\<rparr>"
  have I: "sched_inv s" "\<not> in_external_intr s" "resume_inv s" "sync_rest s" "level_inv s"
    using inv by (simp_all add: sync_inv_parts level_inv_def)
  have pt: "point s ?cur \<noteq> Some (Down_loop m old)" for m old using I(5) on by (simp add: level_inv_def)
  have "sched_inv ?s1" using I(1) by simp
  then obtain s2 where s2: "thread_tick ?s1 = Some s2" "sched_inv s2"
    "s2 = ?s1\<lparr>thread_ticks := thread_ticks ?s1 + 1, idle_ticks := idle_ticks s2, kernel_ticks := kernel_ticks s2,
      user_ticks := user_ticks s2, yield_on_return := yield_on_return s2\<rparr>"
    using thread_tick_ok [of ?s1] by auto
  let ?s3 = "s2\<lparr>in_external_intr := False\<rparr>"
  have th: "ths ?s3 = ths s" and c: "intr_on s2 = False" "in_external_intr s2 = True"
    "yield_on_return ?s3 = yield_on_return s2" "running s2 = ?cur" "saved_level s2 = saved_level s"
    by (subst s2(3), simp)+
  have st: "status ?s3 = status s" by (rule status_ths [OF th])
  then have same: "same_sync s ?s3"
    unfolding same_sync_def fun_eq_iff alive_def st by (subst (1 2 3 4 5 6 7 8) s2(3)) simp
  have r3: "sync_rest ?s3" by (rule sync_inv_same [OF same I(4)]) (simp only: st)
  have p3: "point ?s3 = point s" "alive ?s3 = alive s" "frames ?s3 = frames s"
    using same_syncD(1) [OF same] same by (simp_all add: same_sync_def)
  have res3: "resume_inv ?s3" using I(3) c(5) unfolding resume_inv_def p3 by simp
  have inv3: "sync_inv ?s3" using s2(2) r3 res3 c by (simp add: sync_inv_parts level_inv_def)
  have "external_interrupt tick_handlers s 0x20 = map_option
      (\<lambda>s'. s'\<lparr>saved_level := (saved_level s')(?cur := Some True)\<rparr>)
      (if yield_on_return s2 then thread_yield ?s3 else Some ?s3)"
    using I(2) c s2(1)
    by (simp add: external_interrupt_def intr_handler_def intr_get_level_def intr_context_def tick_handlers_def
        Let_def map_option_case split: option.splits)
  moreover obtain s4 where s4: "(if yield_on_return s2 then thread_yield ?s3 else Some ?s3) = Some s4"
      "sync_inv s4" "\<not> intr_on s4" "\<not> in_external_intr s4" "frames s4 = frames s"
    using step_yield [OF inv3] pt inv3 c p3 by (cases "yield_on_return s2") auto
  moreover have "sync_inv (s4\<lparr>saved_level := (saved_level s4)(?cur := Some True)\<rparr>)"
  proof -
    let ?s5 = "s4\<lparr>saved_level := (saved_level s4)(?cur := Some True)\<rparr>"
    have S: "sched_inv s4" "sync_rest s4" "resume_inv s4" using s4(2) by (simp_all add: sync_inv_parts level_inv_def)
    have same5: "same_sync s4 ?s5" by (simp add: same_sync_def alive_def fun_eq_iff)
    have "sync_rest ?s5" by (rule sync_inv_same [OF same5 S(2)]) simp
    moreover have "point s4 = point s" using s4(5) by (simp add: point_def fun_eq_iff)
    then have "resume_inv ?s5"
      using S(3) pt same_syncD(1) [OF same5] by (auto simp: resume_inv_def alive_def)
    ultimately show ?thesis using S(1) s4(3,4) by (simp add: sync_inv_parts level_inv_def)
  qed
  ultimately show ?thesis by auto
qed

lemma step_device:
  assumes inv: "sync_inv s" and on: "intr_on s"
  shows "\<exists>s'. external_interrupt (device_handlers n) s 0x2e = Some s' \<and> sync_inv s'"
proof -
  let ?cur = "running s" and ?s1 = "s\<lparr>intr_on := False, in_external_intr := True, yield_on_return := False\<rparr>"
  let ?u = "upped ?s1 (Sem n)" and ?sv = "(saved_level s)(running s := Some True)"
  let ?s5 = "?u\<lparr>in_external_intr := False, saved_level := ?sv\<rparr>"
  have I: "sched_inv s" "\<not> in_external_intr s" "resume_inv s" "sync_rest s" "level_inv s"
    using inv by (simp_all add: sync_inv_parts level_inv_def)
  have pt: "point s ?cur \<noteq> Some (Down_loop m old)" for m old using I(5) on by (simp add: level_inv_def)
  have same1: "same_sync s ?s1" by (simp add: same_sync_def alive_def fun_eq_iff)
  have r1: "sync_rest ?s1" by (rule sync_inv_same [OF same1 I(4)]) simp
  have i1: "sched_inv ?s1" using I(1) by simp
  have P: "stack_inv ?s1" "wait_inv ?s1" "lock_inv ?s1" "wake_inv ?s1" "cond_inv ?s1" "rw_inv ?s1"
    using r1 by (simp_all add: sync_rest_def)
  have lev: "in_external_intr ?s1 \<longrightarrow> \<not> intr_on ?s1" by simp
  note U = sema_up_ok [OF i1 P(2) lev, of "Sem n"]
  have view: "held ?u = held ?s1" "users ?u = users ?s1" "leaving ?u = leaving ?s1" "sleepers ?u = sleepers ?s1"
    "pending ?u = pending ?s1" "point ?u = point ?s1" "insider ?u = insider ?s1" "signalled ?u = signalled ?s1"
    using U(4) by (simp_all add: fun_eq_iff held_def users_def leaving_def sleepers_def pending_def point_def
        insider_def signalled_def)
  have "stack_inv ?u" using P(1) unfolding stack_inv_def by (simp add: view U(4))
  moreover have "wait_inv ?u" by (rule up_wait [OF i1 P(2) lev])
  moreover have "wake_inv ?u" by (rule up_wake [OF i1 P(2) lev P(4,1)])
  moreover have "lock_inv ?u" using P(3) unfolding lock_inv_def by (simp add: view)
  moreover have "cond_inv ?u" using P(5) unfolding cond_inv_def by (simp add: view U(4))
  moreover have "rw_inv ?u" using P(6) unfolding rw_inv_def by (simp add: view U(4))
  ultimately have "sync_rest ?u" by (simp add: sync_rest_def)
  moreover have st: "status ?s5 = status ?u" by (rule status_ths) simp
  have same5: "same_sync ?u ?s5" unfolding same_sync_def fun_eq_iff alive_def st by simp
  ultimately have "sync_rest ?s5" by (rule_tac sync_inv_same [OF same5]) (simp_all only: st)
  moreover have "point ?s5 = point s" by (simp add: point_def fun_eq_iff)
  then have "resume_inv ?s5"
    using I(3) pt U(4) same5 same1 unfolding resume_inv_def by (auto simp: same_sync_def)
  then have "level_inv ?s5" by (simp add: level_inv_def)
  moreover have "sched_inv ?s5" using U(2) by simp
  ultimately have "sync_inv ?s5" by (simp add: sync_inv_parts)
  moreover have "external_interrupt (device_handlers n) s 0x2e = Some ?s5"
    using I(2) U(1) by (simp add: external_interrupt_def intr_handler_def intr_get_level_def intr_context_def
        device_handlers_def Let_def)
  ultimately show ?thesis by blast
qed

section \<open>Reachable states\<close>

lemma sync_step_inv:
  assumes "sync_step s s'" "sync_inv s"
  shows "sync_inv s'"
  using assms
proof cases
  case run
  then have "saved_level s (running s) \<noteq> None \<or> frames s (running s) \<noteq> []" by (simp add: at_client_def)
  then show ?thesis
  proof (cases "saved_level s (running s) = None")
    case True
    then obtain f fs where fr: "frames s (running s) = f # fs"
      using run(1) by (cases "frames s (running s)") (auto simp: at_client_def)
    then have "runs s f fs" using assms(2) True by (simp add: runs_def)
    then show ?thesis using run_frame [of s f fs] run(2) True fr by (auto simp: run_current_def)
  next
    case False
    then show ?thesis using step_resume [OF assms(2) False] run(2) by (auto simp: run_current_def)
  qed
next
  case (call f)
  then show ?thesis using step_call assms(2) by blast
next
  case idle
  then show ?thesis using step_idle assms(2) by force
next
  case yield
  have "point s (running s) = None" using yield(1) by (simp add: at_client_def point_def)
  then show ?thesis using step_yield [OF assms(2)] yield by auto
next
  case exit
  then show ?thesis using step_exit assms(2) by force
next
  case create
  then show ?thesis using step_create assms(2) by blast
next
  case timer
  then show ?thesis using step_timer [OF assms(2)] by auto
next
  case (device n)
  then show ?thesis using step_device [OF assms(2), of n] by auto
qed

lemma booted_inv:
  assumes "main \<noteq> idl" "main \<noteq> NULL" "idl \<noteq> NULL"
  shows "sync_inv (booted main idl vals)"
proof -
  let ?s = "booted main idl vals"
  have st: "status ?s t = (if t = main then Some THREAD_RUNNING else if t = idl then Some THREAD_BLOCKED else None)" for t
    using assms by (simp add: status_def booted_def)
  have f: "running ?s = main" "ready ?s = []" "all_list ?s = [main, idl]" "idle_thread ?s = idl"
    "active_sched_policy ?s = SCHED_FIFO" "frames ?s = (\<lambda>_. [])" "lock_holder ?s = (\<lambda>_. NULL)"
    "waiters (semas ?s m) = []" "conds ?s = (\<lambda>_. [])" "in_external_intr ?s = False"
    "saved_level ?s = [idl \<mapsto> True]" "readers ?s = (\<lambda>_. [])" "writers ?s = (\<lambda>_. [])"
    "rws ?s = (\<lambda>_. \<lparr>AR = 0, WR = 0, AW = 0, WW = 0\<rparr>)" "sem_value (semas ?s (LockSem l)) = 1" for m l
    by (simp_all add: booted_def split: sem.splits)
  have th: "th_magic x = THREAD_MAGIC \<and> t \<in> {main, idl}" if "ths ?s t = Some x" for t x
    using that assms by (auto simp: booted_def split: if_splits)
  have al: "alive ?s t \<longleftrightarrow> t \<in> {main, idl}" for t by (simp add: alive_def st)
  have pt: "point ?s = (\<lambda>_. None)" by (simp add: fun_eq_iff point_def f)
  have us: "users ?s r rd = []" for r rd by (simp add: users_def f)
  have "sched_inv ?s"
    using assms th by (auto simp: sched_inv_def threads_ok_def ready_ok_def all_ok_def st f)
  moreover have "level_inv ?s" using assms by (simp add: level_inv_def resume_inv_def pt f)
  moreover have "held ?s main = {}" "held ?s idl = {}" using assms by (simp_all add: held_def f)
  then have "stack_inv ?s" using assms by (auto simp: stack_inv_def f al shape_def)
  moreover have "wait_inv ?s" using assms by (simp add: wait_inv_def f st)
  moreover have "insider ?s l t = False" for l t using assms by (auto simp: insider_def pt f al)
  then have "lock_inv ?s" by (simp add: lock_inv_def f)
  moreover have "wake_inv ?s" by (simp add: wake_inv_def f)
  moreover have "cond_inv ?s" by (simp add: cond_inv_def f signalled_def pt pending_def)
  moreover have "rw_inv ?s"
    by (simp add: rw_inv_def f us pt waiting_def sleepers_def leaving_def)
  ultimately show ?thesis by (simp add: sync_inv_def)
qed

theorem reachable_inv: "reachable s \<Longrightarrow> sync_inv s"
  by (induction rule: reachable.induct) (blast intro: booted_inv sync_step_inv)+

section \<open>Properties\<close>

text \<open>
  Short runs for the witnesses: the main thread downs a semaphore with value 0 and sleeps, the
  idle thread runs; the main thread acquires a lock; it reads under a readers-writers lock; it
  waits on a condition variable.
\<close>

primrec run_steps :: "nat \<Rightarrow> sync \<Rightarrow> sync option" where
  "run_steps 0 s = Some s"
| "run_steps (Suc n) s = (if at_client s then None
     else (case run_current s of None \<Rightarrow> None | Some s' \<Rightarrow> run_steps n s'))"

lemma run_steps_reachable: "run_steps n s = Some s' \<Longrightarrow> reachable s \<Longrightarrow> reachable s'"
proof (induction n arbitrary: s)
  case (Suc n)
  then obtain s1 where "\<not> at_client s" "run_current s = Some s1" "run_steps n s1 = Some s'"
    by (auto split: if_splits option.splits)
  then show ?case using Suc reachable.step sync_step.run by blast
qed simp

definition demo_boot :: sync where
  "demo_boot = booted 100 200 (\<lambda>_. 0)"

definition demo_call :: "frame \<Rightarrow> nat \<Rightarrow> sync \<Rightarrow> sync" where
  "demo_call f n s = (if at_client s \<and> running s \<noteq> idle_thread s \<and> client_op s f
     then (case run_steps n (push s [f]) of None \<Rightarrow> s | Some s' \<Rightarrow> s') else s)"

lemma demo_boot_reachable: "reachable demo_boot"
  unfolding demo_boot_def by (rule reachable.boot) simp_all

lemma demo_call_reachable: "reachable s \<Longrightarrow> reachable (demo_call f n s)"
  using reachable.step [OF _ sync_step.call] run_steps_reachable
  by (auto simp: demo_call_def split: option.splits)

text \<open>C1:
  A kernel whose threads follow the rules of \<open>synch.c\<close> never panics: in every reachable state the
  running thread's next action, a voluntary yield, the idle loop, the exit of a thread that holds
  nothing, the timer interrupt and a device interrupt that ups a semaphore all complete without a
  failing assertion.
\<close>

theorem kernel_never_panics:
  assumes "reachable s"
  shows "(if at_client s then (if running s = idle_thread s then idle_loop s \<noteq> None
        else thread_yield s \<noteq> None \<and> (unencumbered s (running s) \<longrightarrow> thread_exit s \<noteq> None))
      else run_current s \<noteq> None) \<and>
    (intr_on s \<longrightarrow> external_interrupt tick_handlers s 0x20 \<noteq> None \<and>
      external_interrupt (device_handlers n) s 0x2e \<noteq> None)"
proof -
  note inv = reachable_inv [OF assms]
  have "run_current s \<noteq> None" if nc: "\<not> at_client s"
  proof (cases "saved_level s (running s) = None")
    case True
    then obtain f fs where fr: "frames s (running s) = f # fs"
      using nc by (cases "frames s (running s)") (auto simp: at_client_def)
    then have "runs s f fs" using inv True by (simp add: runs_def)
    then show ?thesis using run_frame [of s f fs] True fr by (auto simp: run_current_def)
  next
    case False
    then show ?thesis using step_resume [OF inv False] by (auto simp: run_current_def)
  qed
  moreover have "idle_loop s \<noteq> None" if "at_client s" "running s = idle_thread s"
    using step_idle [OF inv that] by auto
  moreover have "thread_yield s \<noteq> None" if "at_client s"
    using step_yield [OF inv] that by (force simp: at_client_def point_def)
  moreover have "thread_exit s \<noteq> None"
    if "at_client s" "running s \<noteq> idle_thread s" "unencumbered s (running s)"
    using step_exit [OF inv that] by auto
  moreover have "external_interrupt tick_handlers s 0x20 \<noteq> None"
    "external_interrupt (device_handlers n) s 0x2e \<noteq> None" if "intr_on s"
    using step_timer [OF inv that] step_device [OF inv that, of n] by auto
  ultimately show ?thesis by simp
qed

lemma kernel_never_panics_witness:
  "run_current (demo_call (Sema_down (Sem 0)) 1 demo_boot) \<noteq> None"
proof -
  have "\<not> at_client (demo_call (Sema_down (Sem 0)) 1 demo_boot)" by code_simp
  then show ?thesis
    using kernel_never_panics [OF demo_call_reachable [OF demo_boot_reachable], of "Sema_down (Sem 0)" 1] by simp
qed

text \<open>C2:
  Mutual exclusion: in every reachable state a lock is free, with the value 1 in its semaphore and
  no holder, or exactly one living thread is inside, as the holder, on its way in after the down
  or on its way out before the up, and the semaphore's value is 0.
\<close>

theorem lock_mutual_exclusion:
  assumes "reachable s"
  shows "(sem_value (semas s (LockSem l)) = 1 \<and> lock_holder s l = NULL \<and> (\<forall>t. \<not> insider s l t)) \<or>
    (sem_value (semas s (LockSem l)) = 0 \<and> (\<exists>!t. insider s l t))"
proof -
  have "lock_inv s" "stack_inv s" using reachable_inv [OF assms] by (simp_all add: sync_inv_def)
  moreover have "lock_holder s l = NULL" if "\<forall>t. \<not> insider s l t"
    using that \<open>stack_inv s\<close> unfolding stack_inv_def insider_def by metis
  ultimately show ?thesis unfolding lock_inv_def by metis
qed

lemma lock_mutual_exclusion_witness:
  "\<exists>!t. insider (demo_call (Lock_acquire (Mutex 3)) 3 demo_boot) (Mutex 3) t"
proof -
  have "sem_value (semas (demo_call (Lock_acquire (Mutex 3)) 3 demo_boot) (LockSem (Mutex 3))) = 0"
    by code_simp
  then show ?thesis
    using lock_mutual_exclusion [OF demo_call_reachable [OF demo_boot_reachable], of "Lock_acquire (Mutex 3)" 3 "Mutex 3"]
    by simp
qed

text \<open>C13:
  No lost wake-up: in every reachable state a semaphore that has waiting threads has no more units
  than threads that were woken for it and have not run yet. So when no such thread exists, a
  semaphore with waiters has the value 0: nobody sleeps on a unit that is free.
\<close>

theorem semaphore_no_lost_wakeup:
  assumes "reachable s"
  shows "waiters (semas s m) = [] \<or> unat (sem_value (semas s m)) \<le> card (woken s m)"
  using reachable_inv [OF assms] by (auto simp: sync_inv_def wake_inv_def)

lemma semaphore_no_lost_wakeup_witness:
  "waiters (semas (demo_call (Sema_down (Sem 0)) 2 demo_boot) (Sem 0)) = [100] \<and>
   unat (sem_value (semas (demo_call (Sema_down (Sem 0)) 2 demo_boot) (Sem 0)))
     \<le> card (woken (demo_call (Sema_down (Sem 0)) 2 demo_boot) (Sem 0))"
proof -
  have "waiters (semas (demo_call (Sema_down (Sem 0)) 2 demo_boot) (Sem 0)) = [100]" by code_simp
  then show ?thesis
    using semaphore_no_lost_wakeup [OF demo_call_reachable [OF demo_boot_reachable], of "Sema_down (Sem 0)" 2 "Sem 0"]
    by simp
qed

text \<open>C30:
  The waiters of a semaphore are exactly the threads that sleep in its \<open>sema_down\<close>: in every reachable
  state, and for every semaphore, also those of locks and condition variables, a thread stands in its
  list of waiters if and only if it is blocked and the first thing it does when it runs again is the
  test of the loop of \<open>sema_down\<close> for this semaphore. No thread stands there twice, or in the list of
  two semaphores. (Threads that are blocked elsewhere, such as a new thread before \<open>thread_unblock\<close>
  or one in \<open>wait\<close> of \<open>intq.c\<close>, are in no list of waiters and are not the subject.)
\<close>

theorem waiters_are_sleepers:
  assumes "reachable s"
  shows "(t \<in> set (waiters (semas s m)) \<longleftrightarrow>
      status s t = Some THREAD_BLOCKED \<and> (\<exists>old fs. frames s t = Down_loop m old # fs)) \<and>
    distinct (waiters (semas s m)) \<and>
    (t \<in> set (waiters (semas s m)) \<and> t \<in> set (waiters (semas s m')) \<longrightarrow> m = m')"
proof -
  have inv: "wait_inv s" "frames s (idle_thread s) = []"
    using reachable_inv [OF assms(1)] by (simp_all add: sync_inv_def stack_inv_def)
  have "point s t = Some f \<longleftrightarrow> (\<exists>fs. frames s t = f # fs)" for f
    by (cases "frames s t") (auto simp: point_def)
  then have a: "t \<in> set (waiters (semas s k)) \<longleftrightarrow> asleep s t \<and> (\<exists>old fs. frames s t = Down_loop k old # fs)" for k
    using inv unfolding wait_inv_def by (cases "t = idle_thread s") auto
  moreover have "distinct (waiters (semas s m))" using inv(1) unfolding wait_inv_def by blast
  ultimately show ?thesis unfolding a by auto
qed

lemma waiters_are_sleepers_witness:
  "100 \<in> set (waiters (semas (demo_call (Sema_down (Sem 0)) 2 demo_boot) (Sem 0))) \<and>
    100 \<notin> set (waiters (semas (demo_call (Sema_down (Sem 0)) 2 demo_boot) (Sem 1)))"
proof -
  let ?s = "demo_call (Sema_down (Sem 0)) 2 demo_boot"
  have r: "reachable ?s" by (rule demo_call_reachable [OF demo_boot_reachable])
  have "status ?s 100 = Some THREAD_BLOCKED" "frames ?s 100 = [Down_loop (Sem 0) True]" by code_simp+
  then show ?thesis using waiters_are_sleepers [OF r, of 100 "Sem 0" "Sem 1"] by auto
qed

text \<open>C12:
  A readers-writers lock: in every reachable state the counters \<open>AR\<close> and \<open>AW\<close> count the threads
  inside, \<open>WR\<close> and \<open>WW\<close> the threads that wait, and a writer is inside alone.
\<close>

theorem rw_lock_exclusion:
  assumes "reachable s"
  shows "AR (rws s r) = int (length (readers s r)) \<and> AW (rws s r) = int (length (writers s r)) \<and>
    (writers s r = [] \<or> length (writers s r) = 1 \<and> readers s r = []) \<and>
    WR (rws s r) = (\<Sum>t | alive s t. int (count_list (frames s t) (Rw_woken r True))) \<and>
    WW (rws s r) = (\<Sum>t | alive s t. int (count_list (frames s t) (Rw_woken r False)))"
proof -
  have w: "rw_inv s" using reachable_inv [OF assms] by (simp add: sync_inv_def)
  have "waiting (rws s r) rd = int (sleepers s r rd)" for rd using w unfolding rw_inv_def by blast
  from this [of True] this [of False]
  have "WR (rws s r) = (\<Sum>t | alive s t. int (count_list (frames s t) (Rw_woken r True)))"
    "WW (rws s r) = (\<Sum>t | alive s t. int (count_list (frames s t) (Rw_woken r False)))"
    by (simp_all add: waiting_def sleepers_def)
  moreover have "AR (rws s r) = int (length (users s r True)) \<and> AW (rws s r) = int (length (users s r False)) \<and>
     (users s r False = [] \<or> length (users s r False) = 1 \<and> users s r True = [])"
    using w unfolding rw_inv_def by blast
  ultimately show ?thesis by (simp add: users_def)
qed

lemma rw_lock_exclusion_witness:
  "readers (demo_call (Rw_acquire 7 True) 8 demo_boot) 7 = [100] \<and>
   AR (rws (demo_call (Rw_acquire 7 True) 8 demo_boot) 7) = 1 \<and> AW (rws (demo_call (Rw_acquire 7 True) 8 demo_boot) 7) = 0"
proof -
  have "readers (demo_call (Rw_acquire 7 True) 8 demo_boot) 7 = [100]" by code_simp
  then show ?thesis
    using rw_lock_exclusion [OF demo_call_reachable [OF demo_boot_reachable], of "Rw_acquire 7 True" 8 7] by simp
qed

text \<open>C29:
  Condition variables never point at a thread that has gone: in every reachable state the
  semaphores in the waiters of a condition variable are distinct, belong to living threads that
  are inside \<open>cond_wait\<close>, and have the value 0, so a signal wakes a thread that is still waiting.
\<close>

theorem condition_waiters_alive:
  assumes "reachable s" and "w \<in> set (conds s c)"
  shows "\<exists>t. w = WaitSem t \<and> status s t \<notin> {None, Some THREAD_DYING} \<and> pending s t \<and>
    sem_value (semas s w) = 0 \<and> distinct (conds s c) \<and> (\<forall>d. w \<in> set (conds s d) \<longrightarrow> d = c)"
proof -
  have c: "cond_inv s" using reachable_inv [OF assms(1)] by (simp add: sync_inv_def)
  then obtain t where t: "w = WaitSem t" "alive s t" "pending s t"
    using assms(2) unfolding cond_inv_def by blast
  have "sem_value (semas s (WaitSem t)) = 0 \<longleftrightarrow> (\<exists>c. WaitSem t \<in> set (conds s c)) \<or> (\<exists>u. signalled s u t)"
    using c t(2,3) unfolding cond_inv_def by blast
  then have v: "sem_value (semas s w) = 0" using assms(2) t(1) by auto
  have "distinct (conds s c)" using c by (simp add: cond_inv_def)
  moreover have "\<forall>d. w \<in> set (conds s d) \<longrightarrow> d = c" using c assms(2) unfolding cond_inv_def by blast
  ultimately show ?thesis using t v by (auto simp: alive_def)
qed

definition demo_waiting :: sync where
  "demo_waiting = demo_call (Cond_wait (Cv 5) (Mutex 3)) 2 (demo_call (Lock_acquire (Mutex 3)) 3 demo_boot)"

lemma condition_waiters_alive_witness:
  "conds demo_waiting (Cv 5) = [WaitSem 100] \<and> pending demo_waiting 100"
proof -
  have c: "conds demo_waiting (Cv 5) = [WaitSem 100]" by code_simp
  have "reachable demo_waiting"
    unfolding demo_waiting_def by (intro demo_call_reachable demo_boot_reachable)
  then have "\<exists>t. WaitSem 100 = WaitSem t \<and> pending demo_waiting t"
    using condition_waiters_alive [of demo_waiting "WaitSem 100" "Cv 5"] c by auto
  then show ?thesis using c by simp
qed

text \<open>C33:
  An interrupt wakes the thread that waits longest: when a device interrupt ups a semaphore with
  waiting threads, the first of them leaves the waiters and stands at the end of the ready list,
  the unit it was woken for is in the semaphore, and the interrupted thread goes on.
\<close>

theorem device_interrupt_wakes_first:
  assumes "reachable s" and "intr_on s" and "waiters (semas s (Sem n)) = t # ts"
  shows "\<exists>s'. external_interrupt (device_handlers n) s 0x2e = Some s' \<and> ready s' = ready s @ [t] \<and>
    status s' t = Some THREAD_READY \<and> waiters (semas s' (Sem n)) = ts \<and>
    sem_value (semas s' (Sem n)) = sem_value (semas s (Sem n)) + 1 \<and> running s' = running s \<and>
    (\<exists>old. hd (frames s' t) = Down_loop (Sem n) old)"
proof -
  have I: "sched_inv s" "wait_inv s" "\<not> in_external_intr s"
    using reachable_inv [OF assms(1)] by (simp_all add: sync_inv_def level_inv_def)
  let ?s1 = "s\<lparr>intr_on := False, in_external_intr := True, yield_on_return := False\<rparr>"
  have w1: "wait_inv ?s1" using I(2) by (simp add: wait_inv_def point_def)
  have lev: "in_external_intr ?s1 \<longrightarrow> \<not> intr_on ?s1" by simp
  have i1: "sched_inv ?s1" using I(1) by simp
  note U = sema_up_ok [OF i1 w1 lev, of "Sem n"]
  let ?u = "upped ?s1 (Sem n)"
  let ?s' = "?u\<lparr>in_external_intr := False, saved_level := (saved_level s)(running s := Some True)\<rparr>"
  have "external_interrupt (device_handlers n) s 0x2e = Some ?s'"
    using I(3) U(1) by (simp add: external_interrupt_def intr_handler_def intr_get_level_def intr_context_def
        device_handlers_def Let_def)
  moreover have "ready ?s' = ready s @ [t]"
    using assms(3) by (simp add: upped_def unblocked_def set_sem_def)
  moreover have "status ?s' t = Some THREAD_READY" using U(3) [of t] assms(3) by (simp add: status_def)
  moreover have "\<exists>old. point s t = Some (Down_loop (Sem n) old)"
    using I(2) assms(3) unfolding wait_inv_def by (metis list.set_intros(1))
  then have "\<exists>old. hd (frames s t) = Down_loop (Sem n) old"
    by (cases "frames s t") (auto simp: point_def)
  ultimately show ?thesis using assms(3) by auto
qed

lemma device_interrupt_wakes_first_witness:
  "\<exists>s'. external_interrupt (device_handlers 0) (demo_call (Sema_down (Sem 0)) 2 demo_boot) 0x2e = Some s' \<and>
     status s' 100 = Some THREAD_READY \<and> sem_value (semas s' (Sem 0)) = 1"
proof -
  let ?s = "demo_call (Sema_down (Sem 0)) 2 demo_boot"
  have "intr_on ?s" "waiters (semas ?s (Sem 0)) = [100]" "sem_value (semas ?s (Sem 0)) = 0" by code_simp+
  then show ?thesis
    using device_interrupt_wakes_first [OF demo_call_reachable [OF demo_boot_reachable], of "Sema_down (Sem 0)" 2 0 100 "[]"]
    by auto
qed

end
