(* ===== verification/Kernel_Random.thy ===== *)
theory Kernel_Random
  imports Kernel_Memory "HOL-Library.Multiset"
begin

text \<open>
  The pseudo-random number generator \<open>lib/random.c\<close>: the RC4 permutation with its two indices.
  The invariant is that \<open>S\<close> stays a permutation of all bytes.
\<close>

record rng =
  rng_s :: "u8 list"
  rng_i :: u8
  rng_j :: u8
  rng_inited :: bool

definition swap_byte :: "u8 list \<Rightarrow> u8 \<Rightarrow> u8 \<Rightarrow> u8 list" where
  "swap_byte xs a b = xs[unat a := xs ! unat b, unat b := xs ! unat a]"

fun random_init_loop :: "nat \<Rightarrow> u32 \<Rightarrow> u8 list \<Rightarrow> nat \<Rightarrow> u8 \<Rightarrow> u8 list" where
  "random_init_loop 0 seed s i j = s"
| "random_init_loop (Suc left) seed s i j =
     (let j = j + (s ! i + le_byte (i mod 4) seed)
      in random_init_loop left seed (swap_byte s (of_nat i) j) (i + 1) j)"

definition random_init :: "u32 \<Rightarrow> rng" where
  "random_init seed = \<lparr>rng_s = random_init_loop 256 seed (map of_nat [0..<256]) 0 0,
     rng_i = 0, rng_j = 0, rng_inited = True\<rparr>"

text \<open>The bytes written to the buffer, in order.\<close>

fun random_bytes_loop :: "nat \<Rightarrow> rng \<Rightarrow> u8 list \<times> rng" where
  "random_bytes_loop 0 r = ([], r)"
| "random_bytes_loop (Suc n) r =
     (let i = rng_i r + 1;
          j = rng_j r + rng_s r ! unat i;
          s = swap_byte (rng_s r) i j;
          k = s ! unat i + s ! unat j;
          (bs, r) = random_bytes_loop n (r\<lparr>rng_s := s, rng_i := i, rng_j := j\<rparr>)
      in (s ! unat k # bs, r))"

definition random_bytes :: "rng \<Rightarrow> nat \<Rightarrow> u8 list \<times> rng" where
  "random_bytes r n = random_bytes_loop n (if \<not> rng_inited r then random_init 0 else r)"

definition random_ulong :: "rng \<Rightarrow> u32 \<times> rng" where
  "random_ulong r = (let (bs, r) = random_bytes r 4 in (le_word (bs ! 0) (bs ! 1) (bs ! 2) (bs ! 3), r))"

definition rng_inv :: "rng \<Rightarrow> bool" where
  "rng_inv r \<longleftrightarrow> rng_inited r \<longrightarrow> mset (rng_s r) = mset (map of_nat [0..<256])"

lemma swap_byte_mset: "length xs = 256 \<Longrightarrow> mset (swap_byte xs a b) = mset xs"
  unfolding swap_byte_def by (rule mset_swap) simp_all

lemma swap_byte_length [simp]: "length (swap_byte xs a b) = length xs"
  by (simp add: swap_byte_def)

lemma random_init_loop_mset: "length s = 256 \<Longrightarrow> mset (random_init_loop left seed s i j) = mset s"
  by (induction left seed s i j rule: random_init_loop.induct) (simp_all add: Let_def swap_byte_mset)

lemma random_init_inv: "rng_inv (random_init seed)"
  by (simp only: random_init_def rng_inv_def rng.simps) (simp add: random_init_loop_mset del: upt_rec_numeral)

lemma random_bytes_loop_inv:
  "length (rng_s r) = 256 \<Longrightarrow> random_bytes_loop n r = (bs, r') \<Longrightarrow>
    length bs = n \<and> mset (rng_s r') = mset (rng_s r) \<and> rng_inited r' = rng_inited r"
proof (induction n arbitrary: r bs r')
  case (Suc n)
  define i where "i = rng_i r + 1"
  define j where "j = rng_j r + rng_s r ! unat i"
  define r1 where "r1 = r\<lparr>rng_s := swap_byte (rng_s r) i j, rng_i := i, rng_j := j\<rparr>"
  obtain cs r2 where rec: "random_bytes_loop n r1 = (cs, r2)" by (cases "random_bytes_loop n r1")
  then have "length bs = Suc (length cs)" "r' = r2"
    using Suc.prems(2) by (auto simp: i_def j_def r1_def Let_def)
  moreover have "length (rng_s r1) = 256" "mset (rng_s r1) = mset (rng_s r)" "rng_inited r1 = rng_inited r"
    using Suc.prems(1) by (simp_all add: r1_def swap_byte_mset)
  ultimately show ?case using Suc.IH [OF _ rec] by simp
qed simp

text \<open>The generator's table is a permutation of the 256 byte values after initialisation and after
  every request, whatever the seed, and a request yields as many bytes as it asks for.
\<close>

theorem random_table_permutation:
  assumes "rng_inv r" and "random_bytes r n = (bs, r')"
  shows "rng_inited r' \<and> mset (rng_s r') = mset (map of_nat [0..<256]) \<and> length bs = n \<and>
    rng_inv (random_init seed)"
proof -
  let ?r = "if \<not> rng_inited r then random_init 0 else r"
  have i: "rng_inited ?r" by (simp add: random_init_def)
  moreover have "rng_inv ?r" using assms(1) random_init_inv by simp
  ultimately have m: "mset (rng_s ?r) = mset (map of_nat [0..<256])" unfolding rng_inv_def by blast
  then have "size (mset (rng_s ?r)) = 256" by (simp only: size_mset length_map length_upt)
  then have "length (rng_s ?r) = 256" by (simp only: size_mset)
  from random_bytes_loop_inv [OF this] show ?thesis
    using assms(2) m i random_init_inv unfolding random_bytes_def by metis
qed

lemma random_table_permutation_witness:
  "length (fst (random_bytes (random_init 42) 3)) = 3"
proof -
  obtain bs r where b: "random_bytes (random_init 42) 3 = (bs, r)" by (cases "random_bytes (random_init 42) 3")
  then show ?thesis using random_table_permutation [OF random_init_inv b, of 0] by simp
qed

end
