(* ===== verification/Kernel_String.thy ===== *)
theory Kernel_String
  imports Kernel_Memory
begin

text \<open>
  The string library \<open>lib/string.c\<close> on the byte memory. A pointer is a 32-bit address, \<open>size_t\<close> a
  natural number, a loop that counts \<open>size\<close> down is a recursion on it, and a loop that looks for a
  terminator is a \<^theory_text>\<open>partial_function\<close>: it need not return. Every address can be read here; what
  the page tables map is the business of \<open>Kernel_Pagedir\<close>.

  \<open>cstring m p xs\<close> says that the null-terminated string at \<open>p\<close> is the list of bytes \<open>xs\<close>; the
  lemmas describe every routine on such lists.
\<close>

section \<open>Blocks\<close>

fun memcpy_loop :: "nat \<Rightarrow> memory \<Rightarrow> u32 \<Rightarrow> u32 \<Rightarrow> memory" where
  "memcpy_loop 0 m dst src = m"
| "memcpy_loop (Suc len) m dst src = memcpy_loop len (m(dst := m src)) (dst + 1) (src + 1)"

definition memcpy :: "memory \<Rightarrow> u32 \<Rightarrow> u32 \<Rightarrow> nat \<Rightarrow> (u32 \<times> memory) option" where
  "memcpy m dst src len = do {
     ASSERT (dst \<noteq> 0 \<or> len = 0);
     ASSERT (src \<noteq> 0 \<or> len = 0);
     Some (dst, memcpy_loop len m dst src) }"

fun memmove_back :: "nat \<Rightarrow> memory \<Rightarrow> u32 \<Rightarrow> u32 \<Rightarrow> memory" where
  "memmove_back 0 m dst src = m"
| "memmove_back (Suc len) m dst src =
     memmove_back len (m(dst - 1 := m (src - 1))) (dst - 1) (src - 1)"

definition memmove :: "memory \<Rightarrow> u32 \<Rightarrow> u32 \<Rightarrow> nat \<Rightarrow> (u32 \<times> memory) option" where
  "memmove m dst src len = do {
     ASSERT (dst \<noteq> 0 \<or> len = 0);
     ASSERT (src \<noteq> 0 \<or> len = 0);
     if dst < src
     then Some (dst + of_nat len, memcpy_loop len m dst src)
     else Some (dst + of_nat len - of_nat len,
       memmove_back len m (dst + of_nat len) (src + of_nat len)) }"

fun memcmp_loop :: "nat \<Rightarrow> memory \<Rightarrow> u32 \<Rightarrow> u32 \<Rightarrow> int" where
  "memcmp_loop 0 m a b = 0"
| "memcmp_loop (Suc len) m a b =
     (if m a \<noteq> m b then (if m a > m b then 1 else -1) else memcmp_loop len m (a + 1) (b + 1))"

definition memcmp :: "memory \<Rightarrow> u32 \<Rightarrow> u32 \<Rightarrow> nat \<Rightarrow> int option" where
  "memcmp m a b len = do {
     ASSERT (a \<noteq> 0 \<or> len = 0);
     ASSERT (b \<noteq> 0 \<or> len = 0);
     Some (memcmp_loop len m a b) }"

fun memchr_loop :: "nat \<Rightarrow> memory \<Rightarrow> u32 \<Rightarrow> u8 \<Rightarrow> u32" where
  "memchr_loop 0 m block ch = 0"
| "memchr_loop (Suc len) m block ch = (if m block = ch then block else memchr_loop len m (block + 1) ch)"

definition memchr :: "memory \<Rightarrow> u32 \<Rightarrow> u32 \<Rightarrow> nat \<Rightarrow> u32 option" where
  "memchr m block ch len = do {
     ASSERT (block \<noteq> 0 \<or> len = 0);
     Some (memchr_loop len m block (ucast ch)) }"

fun memset_loop :: "nat \<Rightarrow> memory \<Rightarrow> u32 \<Rightarrow> u8 \<Rightarrow> memory" where
  "memset_loop 0 m dst v = m"
| "memset_loop (Suc len) m dst v = memset_loop len (m(dst := v)) (dst + 1) v"

definition memset :: "memory \<Rightarrow> u32 \<Rightarrow> u32 \<Rightarrow> nat \<Rightarrow> (u32 \<times> memory) option" where
  "memset m dst v len = do {
     ASSERT (dst \<noteq> 0 \<or> len = 0);
     Some (dst, memset_loop len m dst (ucast v)) }"

section \<open>Strings\<close>

partial_function (option) strcmp_loop :: "memory \<Rightarrow> u32 \<Rightarrow> u32 \<Rightarrow> int option" where
  "strcmp_loop m a b =
     (if m a \<noteq> 0 \<and> m a = m b then strcmp_loop m (a + 1) (b + 1)
      else Some (if m a < m b then -1 else if m a > m b then 1 else 0))"

definition strcmp :: "memory \<Rightarrow> u32 \<Rightarrow> u32 \<Rightarrow> int option" where
  "strcmp m a b = do { ASSERT (a \<noteq> 0); ASSERT (b \<noteq> 0); strcmp_loop m a b }"

partial_function (option) strchr_loop :: "memory \<Rightarrow> u32 \<Rightarrow> u8 \<Rightarrow> u32 option" where
  "strchr_loop m string c =
     (if m string = c then Some string
      else if m string = 0 then Some 0
      else strchr_loop m (string + 1) c)"

definition strchr :: "memory \<Rightarrow> u32 \<Rightarrow> u8 \<Rightarrow> u32 option" where
  "strchr m string c = do { ASSERT (string \<noteq> 0); strchr_loop m string c }"

text \<open>\<open>strspn\<close> stops at a character that is not in the set, \<open>strcspn\<close> at one that is.\<close>

partial_function (option) strcspn_loop :: "memory \<Rightarrow> u32 \<Rightarrow> u32 \<Rightarrow> nat \<Rightarrow> nat option" where
  "strcspn_loop m string stop n =
     (if m (string + of_nat n) = 0 then Some n
      else do {
        r \<leftarrow> strchr m stop (m (string + of_nat n));
        if r \<noteq> 0 then Some n else strcspn_loop m string stop (n + 1) })"

definition strcspn :: "memory \<Rightarrow> u32 \<Rightarrow> u32 \<Rightarrow> nat option" where
  "strcspn m string stop = strcspn_loop m string stop 0"

partial_function (option) strspn_loop :: "memory \<Rightarrow> u32 \<Rightarrow> u32 \<Rightarrow> nat \<Rightarrow> nat option" where
  "strspn_loop m string skip n =
     (if m (string + of_nat n) = 0 then Some n
      else do {
        r \<leftarrow> strchr m skip (m (string + of_nat n));
        if r = 0 then Some n else strspn_loop m string skip (n + 1) })"

definition strspn :: "memory \<Rightarrow> u32 \<Rightarrow> u32 \<Rightarrow> nat option" where
  "strspn m string skip = strspn_loop m string skip 0"

partial_function (option) strpbrk :: "memory \<Rightarrow> u32 \<Rightarrow> u32 \<Rightarrow> u32 option" where
  "strpbrk m string stop =
     (if m string = 0 then Some 0
      else do {
        r \<leftarrow> strchr m stop (m string);
        if r \<noteq> 0 then Some string else strpbrk m (string + 1) stop })"

partial_function (option) strrchr_loop :: "memory \<Rightarrow> u32 \<Rightarrow> u8 \<Rightarrow> u32 \<Rightarrow> u32 option" where
  "strrchr_loop m string c p =
     (if m string = 0 then Some p
      else strrchr_loop m (string + 1) c (if m string = c then string else p))"

definition strrchr :: "memory \<Rightarrow> u32 \<Rightarrow> u8 \<Rightarrow> u32 option" where
  "strrchr m string c = strrchr_loop m string c 0"

partial_function (option) strlen_loop :: "memory \<Rightarrow> u32 \<Rightarrow> u32 option" where
  "strlen_loop m p = (if m p = 0 then Some p else strlen_loop m (p + 1))"

definition strlen :: "memory \<Rightarrow> u32 \<Rightarrow> nat option" where
  "strlen m string = do {
     ASSERT (string \<noteq> 0);
     p \<leftarrow> strlen_loop m string;
     Some (unat (p - string)) }"

fun strnlen_loop :: "nat \<Rightarrow> memory \<Rightarrow> u32 \<Rightarrow> nat \<Rightarrow> nat" where
  "strnlen_loop 0 m string n = n"
| "strnlen_loop (Suc left) m string n =
     (if m (string + of_nat n) \<noteq> 0 then strnlen_loop left m string (n + 1) else n)"

definition strnlen :: "memory \<Rightarrow> u32 \<Rightarrow> nat \<Rightarrow> nat" where
  "strnlen m string maxlen = strnlen_loop maxlen m string 0"

fun strstr_loop :: "nat \<Rightarrow> memory \<Rightarrow> u32 \<Rightarrow> u32 \<Rightarrow> nat \<Rightarrow> nat \<Rightarrow> u32 option" where
  "strstr_loop 0 m haystack needle needle_len i = Some 0"
| "strstr_loop (Suc left) m haystack needle needle_len i = do {
     r \<leftarrow> memcmp m (haystack + of_nat i) needle needle_len;
     if r = 0 then Some (haystack + of_nat i)
     else strstr_loop left m haystack needle needle_len (i + 1) }"

definition strstr :: "memory \<Rightarrow> u32 \<Rightarrow> u32 \<Rightarrow> u32 option" where
  "strstr m haystack needle = do {
     haystack_len \<leftarrow> strlen m haystack;
     needle_len \<leftarrow> strlen m needle;
     if haystack_len \<ge> needle_len
     then strstr_loop (haystack_len - needle_len + 1) m haystack needle needle_len 0
     else Some 0 }"

partial_function (option) skip_delimiters :: "memory \<Rightarrow> u32 \<Rightarrow> u32 \<Rightarrow> (u32 \<times> bool) option" where
  "skip_delimiters m delimiters s = do {
     r \<leftarrow> strchr m delimiters (m s);
     if r \<noteq> 0
     then (if m s = 0 then Some (s, False) else skip_delimiters m delimiters (s + 1))
     else Some (s, True) }"

partial_function (option) skip_token :: "memory \<Rightarrow> u32 \<Rightarrow> u32 \<Rightarrow> u32 option" where
  "skip_token m delimiters s = do {
     r \<leftarrow> strchr m delimiters (m s);
     if r = 0 then skip_token m delimiters (s + 1) else Some s }"

definition strtok_r :: "memory \<Rightarrow> u32 \<Rightarrow> u32 \<Rightarrow> u32 \<Rightarrow> (u32 \<times> memory) option" where
  "strtok_r m s delimiters save_ptr = do {
     ASSERT (delimiters \<noteq> 0);
     ASSERT (save_ptr \<noteq> 0);
     let s = (if s = 0 then load32 m save_ptr else s);
     ASSERT (s \<noteq> 0);
     (token, found) \<leftarrow> skip_delimiters m delimiters s;
     if \<not> found then Some (0, store32 m save_ptr token)
     else do {
       s \<leftarrow> skip_token m delimiters token;
       if m s \<noteq> 0 then Some (token, store32 (m(s := 0)) save_ptr (s + 1))
       else Some (token, store32 m save_ptr s) } }"

definition strlcpy :: "memory \<Rightarrow> u32 \<Rightarrow> u32 \<Rightarrow> nat \<Rightarrow> (nat \<times> memory) option" where
  "strlcpy m dst src len = do {
     ASSERT (dst \<noteq> 0);
     ASSERT (src \<noteq> 0);
     src_len \<leftarrow> strlen m src;
     if len > 0
     then do {
       let dst_len = (if src_len < len - 1 then src_len else len - 1);
       (_, m) \<leftarrow> memcpy m dst src dst_len;
       Some (src_len, m(dst + of_nat dst_len := 0)) }
     else Some (src_len, m) }"

definition strlcat :: "memory \<Rightarrow> u32 \<Rightarrow> u32 \<Rightarrow> nat \<Rightarrow> (nat \<times> memory) option" where
  "strlcat m dst src len = do {
     ASSERT (dst \<noteq> 0);
     ASSERT (src \<noteq> 0);
     src_len \<leftarrow> strlen m src;
     dst_len \<leftarrow> strlen m dst;
     if len > 0 \<and> dst_len < len
     then do {
       let copy_cnt = (if src_len < len - dst_len - 1 then src_len else len - dst_len - 1);
       (_, m) \<leftarrow> memcpy m (dst + of_nat dst_len) src copy_cnt;
       Some (src_len + dst_len, m(dst + of_nat (dst_len + copy_cnt) := 0)) }
     else Some (src_len + dst_len, m) }"

section \<open>Blocks copied\<close>

lemma unat_pred: "x \<noteq> 0 \<Longrightarrow> unat (x - 1 :: u32) = unat x - 1"
  by (rule unat_minus_one)

lemma in_range_front:
  assumes "n < 2 ^ 32"
  shows "in_range d (Suc n) a \<longleftrightarrow> a = d \<or> in_range (d + 1) n a"
proof (cases "a = d")
  case False
  then have "unat (a - d - 1) = unat (a - d) - 1" "unat (a - d) \<noteq> 0" by (simp_all add: unat_pred unat_eq_0)
  then show ?thesis using False by (auto simp: in_range_def diff_diff_eq)
qed (simp add: in_range_def)

lemma in_range_back:
  assumes "n < 2 ^ 32"
  shows "in_range d (Suc n) a \<longleftrightarrow> in_range d n a \<or> a = d + of_nat n"
proof -
  have "unat (a - d) = n \<longleftrightarrow> a = d + of_nat n"
    using assms by (metis add_diff_cancel_left' add.commute diff_add_cancel unat_of_nat_small word_unat_eq_iff)
  then show ?thesis by (auto simp: in_range_def less_Suc_eq)
qed

lemma memcpy_loop_copy:
  assumes "n \<le> 2 ^ 32" and "d = s \<or> n \<le> unat (d - s)"
  shows "memcpy_loop n m d s = mem_copy m d s n"
  using assms
proof (induction n arbitrary: m d s)
  case 0
  show ?case by (simp add: mem_copy_def in_range_def fun_eq_iff)
next
  case (Suc n)
  have n: "n < 2 ^ 32" using Suc.prems(1) by simp
  have "memcpy_loop (Suc n) m d s = mem_copy (m(d := m s)) (d + 1) (s + 1) n"
    using Suc by auto
  also have "\<dots> = mem_copy m d s (Suc n)"
    unfolding fun_eq_iff
  proof
    fix a
    have "(m(d := m s)) (s + 1 + (a - (d + 1))) = m (s + (a - d))" if "in_range (d + 1) n a" "a \<noteq> d"
    proof -
      have e: "s + 1 + (a - (d + 1)) = s + (a - d)" by simp
      have "s + (a - d) \<noteq> d \<or> d = s"
      proof (rule ccontr)
        assume "\<not> ?thesis"
        then have "a - d = d - s" "d \<noteq> s" by (simp_all add: algebra_simps)
        moreover have "unat (a - d) < Suc n" using that(1) n in_range_front [of n d a] by (simp add: in_range_def)
        ultimately show False using Suc.prems(2) by simp
      qed
      then show ?thesis unfolding e by auto
    qed
    then show "mem_copy (m(d := m s)) (d + 1) (s + 1) n a = mem_copy m d s (Suc n) a"
      using n in_range_front [OF n, of d a] by (cases "a = d") (auto simp: mem_copy_def in_range_def unat_minus_one)
  qed
  finally show ?case .
qed

lemma memmove_back_copy:
  assumes "n \<le> 2 ^ 32" and "d = s \<or> n \<le> unat (s - d)"
  shows "memmove_back n m d s = mem_copy m (d - of_nat n) (s - of_nat n) n"
  using assms
proof (induction n arbitrary: m d s)
  case 0
  show ?case by (simp add: mem_copy_def in_range_def fun_eq_iff)
next
  case (Suc n)
  have n: "n < 2 ^ 32" using Suc.prems(1) by simp
  let ?p = "d - of_nat (Suc n)" and ?q = "s - of_nat (Suc n)"
  have "memmove_back (Suc n) m d s = mem_copy (m(d - 1 := m (s - 1))) (d - 1 - of_nat n) (s - 1 - of_nat n) n"
    using Suc by auto
  also have "\<dots> = mem_copy (m(d - 1 := m (s - 1))) ?p ?q n" by (simp add: diff_diff_eq)
  also have "\<dots> = mem_copy m ?p ?q (Suc n)"
    unfolding fun_eq_iff
  proof
    fix a
    have last: "?p + of_nat n = d - 1" "?q + of_nat n = s - 1" by (simp_all add: algebra_simps)
    have new: "a = d - 1 \<longleftrightarrow> a = ?p + of_nat n" by (simp only: last)
    have "?q + (a - ?p) \<noteq> d - 1 \<or> d = s" if "in_range ?p n a"
    proof (rule ccontr)
      assume "\<not> ?thesis"
      then have e: "s - d = of_nat n - (a - ?p)" and ne: "d \<noteq> s" by (simp_all add: algebra_simps)
      have "unat (s - d) \<le> n"
        unfolding e using that n by (subst unat_sub) (simp_all add: in_range_def word_le_nat_alt unat_of_nat)
      then show False using Suc.prems(2) ne by simp
    qed
    then have inner: "(m(d - 1 := m (s - 1))) (?q + (a - ?p)) = m (?q + (a - ?p))" if "in_range ?p n a"
      using that by auto
    have outer: "?q + (a - ?p) = s - 1" if "a = d - 1" using that by (simp add: algebra_simps)
    have off: "\<not> in_range ?p n (d - 1)"
      unfolding last(1) [symmetric] in_range_def using n by (simp add: unat_of_nat)
    show "mem_copy (m(d - 1 := m (s - 1))) ?p ?q n a = mem_copy m ?p ?q (Suc n) a"
    proof (cases "a = d - 1")
      case True
      then have "in_range ?p (Suc n) a" using in_range_back [OF n, of ?p a] new by blast
      then show ?thesis unfolding mem_copy_def outer [OF True] using off True by simp
    next
      case False
      then have r: "in_range ?p (Suc n) a = in_range ?p n a" using in_range_back [OF n, of ?p a] new by blast
      show ?thesis
      proof (cases "in_range ?p n a")
        case True
        show ?thesis unfolding mem_copy_def r using inner [OF True] True by (simp only: if_True)
      next
        case out: False
        show ?thesis unfolding mem_copy_def r using out False by (simp only: if_False) simp
      qed
    qed
  qed
  finally show ?case .
qed

lemma memset_loop_set:
  assumes "n \<le> 2 ^ 32"
  shows "memset_loop n m d v = mem_set m d v n"
  using assms
proof (induction n arbitrary: m d)
  case 0
  show ?case by (simp add: mem_set_def in_range_def fun_eq_iff)
next
  case (Suc n)
  have n: "n < 2 ^ 32" using Suc.prems by simp
  have "memset_loop (Suc n) m d v = mem_set (m(d := v)) (d + 1) v n" using Suc by simp
  also have "\<dots> = mem_set m d v (Suc n)"
    using in_range_front [OF n, of d] by (auto simp: mem_set_def fun_eq_iff)
  finally show ?case .
qed

section \<open>Strings as lists of bytes\<close>

fun cstr :: "memory \<Rightarrow> u32 \<Rightarrow> u8 list \<Rightarrow> bool" where
  "cstr m p [] \<longleftrightarrow> m p = 0"
| "cstr m p (x # xs) \<longleftrightarrow> x \<noteq> 0 \<and> m p = x \<and> cstr m (p + 1) xs"

definition cstring :: "memory \<Rightarrow> u32 \<Rightarrow> u8 list \<Rightarrow> bool" where
  "cstring m p xs \<longleftrightarrow> p \<noteq> 0 \<and> unat p + length xs < 2 ^ 32 \<and> cstr m p xs"

lemma cstringD:
  assumes "cstring m p xs"
  shows "p \<noteq> 0" "unat p + length xs < 2 ^ 32" "cstr m p xs" "length xs < 2 ^ 32"
  using assms by (auto simp: cstring_def)

lemma cstr_nonzero: "cstr m p xs \<Longrightarrow> 0 \<notin> set xs"
  by (induction xs arbitrary: p) auto

lemma cstr_nth:
  "cstr m p xs \<longleftrightarrow> 0 \<notin> set xs \<and> (\<forall>i < length xs. m (p + of_nat i) = xs ! i) \<and> m (p + of_nat (length xs)) = 0"
proof (induction xs arbitrary: p)
  case (Cons x xs)
  have "(\<forall>i < length (x # xs). m (p + of_nat i) = (x # xs) ! i) \<longleftrightarrow>
      m p = x \<and> (\<forall>i < length xs. m (p + 1 + of_nat i) = xs ! i)"
    by (auto simp: less_Suc_eq_0_disj algebra_simps)
  then show ?case using Cons by (auto simp: algebra_simps)
qed simp

lemma cstr_tail:
  assumes "cstr m p (xs @ ys)"
  shows "cstr m (p + of_nat (length xs)) ys"
  using assms
proof (induction xs arbitrary: p)
  case (Cons x xs)
  then have "cstr m (p + 1 + of_nat (length xs)) ys" by simp
  then show ?case by (simp add: algebra_simps)
qed simp

lemma cstr_frame:
  assumes "\<And>i. i \<le> length xs \<Longrightarrow> m' (p + of_nat i) = m (p + of_nat i)"
  shows "cstr m' p xs \<longleftrightarrow> cstr m p xs"
  using assms by (auto simp: cstr_nth)

lemma cstring_tl:
  assumes "cstring m p (x # xs)"
  shows "cstring m (p + 1) xs" "m p = x" "x \<noteq> 0"
proof -
  have "unat (p + 1) = unat p + 1"
    using cstringD(2) [OF assms] by (subst unat_add_small) simp_all
  then show "cstring m (p + 1) xs" "m p = x" "x \<noteq> 0"
    using assms by (auto simp: cstring_def unat_eq_0 simp flip: unat_eq_0)
qed

lemma cstring_drop:
  assumes "cstring m p (xs @ ys)"
  shows "cstring m (p + of_nat (length xs)) ys"
  using assms
proof (induction xs arbitrary: p)
  case (Cons x xs)
  then have "cstring m (p + 1 + of_nat (length xs)) ys" using cstring_tl(1) [of m p x "xs @ ys"] by simp
  then show ?case by (simp add: algebra_simps)
qed simp

lemma cstring_nonnull: "cstring m p xs \<Longrightarrow> i \<le> length xs \<Longrightarrow> p + of_nat i \<noteq> 0"
  using cstring_drop [of m p "take i xs" "drop i xs"] by (simp add: cstring_def)

lemma cstring_at:
  assumes "cstring m p xs" "i < length xs"
  shows "m (p + of_nat i) = xs ! i" "xs ! i \<noteq> 0"
  using assms nth_mem [OF assms(2)] by (auto simp: cstring_def cstr_nth simp del: nth_mem)

section \<open>What the routines compute\<close>

lemma strlen_loop_ok: "cstr m p xs \<Longrightarrow> strlen_loop m p = Some (p + of_nat (length xs))"
  by (induction xs arbitrary: p) (subst strlen_loop.simps; auto simp: algebra_simps)+

lemma strlen_ok: "cstring m p xs \<Longrightarrow> strlen m p = Some (length xs)"
  using strlen_loop_ok [OF cstringD(3)] cstringD [of m p xs] by (simp add: strlen_def unat_of_nat_small)

lemma strchr_loop_ok:
  assumes "cstring m p xs"
  shows "strchr_loop m p c = Some (if c \<in> set xs then p + of_nat (length (takeWhile (\<lambda>x. x \<noteq> c) xs))
    else if c = 0 then p + of_nat (length xs) else 0)"
  using assms
proof (induction xs arbitrary: p)
  case Nil
  then show ?case by (subst strchr_loop.simps) (auto simp: cstring_def)
next
  case (Cons x xs)
  note t = cstring_tl [OF Cons.prems]
  show ?case
    by (subst strchr_loop.simps) (use t Cons.IH [OF t(1)] in \<open>auto simp: algebra_simps\<close>)
qed

lemma strchr_ok:
  assumes "cstring m p xs"
  shows "strchr m p c = Some (if c \<in> set xs then p + of_nat (length (takeWhile (\<lambda>x. x \<noteq> c) xs))
    else if c = 0 then p + of_nat (length xs) else 0)"
  using strchr_loop_ok [OF assms] cstringD(1) [OF assms] by (simp add: strchr_def)

text \<open>The test that the other routines make: is the character in the set, or the terminator?\<close>

lemma strchr_found:
  assumes "cstring m p xs"
  shows "\<exists>r. strchr m p c = Some r \<and> (r = 0 \<longleftrightarrow> c \<noteq> 0 \<and> c \<notin> set xs)"
proof -
  have "p + of_nat (length (takeWhile (\<lambda>x. x \<noteq> c) xs)) \<noteq> 0" "p + of_nat (length xs) \<noteq> 0"
    by (rule cstring_nonnull [OF assms]; simp add: length_takeWhile_le)+
  then show ?thesis using strchr_ok [OF assms, of c] cstr_nonzero [OF cstringD(3) [OF assms]] by auto
qed

lemma strcspn_loop_ok:
  assumes "cstring m p xs" "cstring m stop zs" "n \<le> length xs"
  shows "strcspn_loop m p stop n = Some (n + length (takeWhile (\<lambda>x. x \<notin> set zs) (drop n xs)))"
  using assms(3)
proof (induction "length xs - n" arbitrary: n)
  case 0
  then have "m (p + of_nat n) = 0" using assms(1) by (simp add: cstring_def cstr_nth)
  then show ?case using 0 by (subst strcspn_loop.simps) simp
next
  case (Suc k)
  then have n: "n < length xs" by simp
  note at = cstring_at [OF assms(1) n]
  obtain r where r: "strchr m stop (m (p + of_nat n)) = Some r" "r = 0 \<longleftrightarrow> xs ! n \<notin> set zs"
    using strchr_found [OF assms(2), of "xs ! n"] at by auto
  have "drop n xs = xs ! n # drop (Suc n) xs" using n by (simp add: Cons_nth_drop_Suc)
  then show ?case using Suc(1) [of "n + 1"] Suc(2) n r at by (subst strcspn_loop.simps) simp
qed

lemma strcspn_ok:
  assumes "cstring m p xs" "cstring m stop zs"
  shows "strcspn m p stop = Some (length (takeWhile (\<lambda>x. x \<notin> set zs) xs))"
  using strcspn_loop_ok [OF assms, of 0] by (simp add: strcspn_def)

lemma strspn_loop_ok:
  assumes "cstring m p xs" "cstring m skip zs" "n \<le> length xs"
  shows "strspn_loop m p skip n = Some (n + length (takeWhile (\<lambda>x. x \<in> set zs) (drop n xs)))"
  using assms(3)
proof (induction "length xs - n" arbitrary: n)
  case 0
  then have "m (p + of_nat n) = 0" using assms(1) by (simp add: cstring_def cstr_nth)
  then show ?case using 0 by (subst strspn_loop.simps) simp
next
  case (Suc k)
  then have n: "n < length xs" by simp
  note at = cstring_at [OF assms(1) n]
  obtain r where r: "strchr m skip (m (p + of_nat n)) = Some r" "r = 0 \<longleftrightarrow> xs ! n \<notin> set zs"
    using strchr_found [OF assms(2), of "xs ! n"] at by auto
  have "drop n xs = xs ! n # drop (Suc n) xs" using n by (simp add: Cons_nth_drop_Suc)
  then show ?case using Suc(1) [of "n + 1"] Suc(2) n r at by (subst strspn_loop.simps) simp
qed

lemma strspn_ok:
  assumes "cstring m p xs" "cstring m skip zs"
  shows "strspn m p skip = Some (length (takeWhile (\<lambda>x. x \<in> set zs) xs))"
  using strspn_loop_ok [OF assms, of 0] by (simp add: strspn_def)

lemma strpbrk_ok:
  assumes "cstring m p xs" "cstring m stop zs"
  shows "strpbrk m p stop = Some (if set xs \<inter> set zs = {} then 0
    else p + of_nat (length (takeWhile (\<lambda>x. x \<notin> set zs) xs)))"
  using assms(1)
proof (induction xs arbitrary: p)
  case Nil
  then show ?case by (subst strpbrk.simps) (simp add: cstring_def)
next
  case (Cons x xs)
  note t = cstring_tl [OF Cons.prems]
  obtain r where r: "strchr m stop (m p) = Some r" "r = 0 \<longleftrightarrow> x \<notin> set zs"
    using strchr_found [OF assms(2), of x] t by auto
  show ?case
    by (subst strpbrk.simps) (use t r Cons.IH [OF t(1)] in \<open>auto simp: algebra_simps\<close>)
qed

lemma strrchr_loop_ok:
  assumes "cstring m p xs" "c \<noteq> 0"
  shows "strrchr_loop m p c q = Some (if c \<in> set xs
    then p + of_nat (length xs - 1 - length (takeWhile (\<lambda>x. x \<noteq> c) (rev xs))) else q)"
  using assms(1)
proof (induction xs arbitrary: p q)
  case Nil
  then show ?case by (subst strrchr_loop.simps) (simp add: cstring_def)
next
  case (Cons x xs)
  note t = cstring_tl [OF Cons.prems]
  show ?case
  proof (cases "c \<in> set xs")
    case True
    then have l: "length (takeWhile (\<lambda>x. x \<noteq> c) (rev xs)) < length xs"
      by (metis (mono_tags, lifting) length_rev length_takeWhile_le nat_less_le set_rev takeWhile_eq_all_conv
          takeWhile_eq_take take_all)
    have "takeWhile (\<lambda>x. x \<noteq> c) (rev xs @ [x]) = takeWhile (\<lambda>x. x \<noteq> c) (rev xs)"
      using True by (metis (mono_tags, lifting) set_rev takeWhile_append1)
    moreover have "p + 1 + of_nat (length xs - 1 - k) = p + of_nat (length xs - k)" if "k < length xs" for k
      using that by (simp add: of_nat_diff algebra_simps)
    ultimately show ?thesis
      using t Cons.IH [OF t(1)] True l by (subst strrchr_loop.simps) simp
  next
    case False
    then have "takeWhile (\<lambda>x. x \<noteq> c) (rev xs @ [x]) = rev xs @ takeWhile (\<lambda>x. x \<noteq> c) [x]"
      by (intro takeWhile_append2) auto
    then show ?thesis using t Cons.IH [OF t(1)] False by (cases "x = c"; subst strrchr_loop.simps; simp)
  qed
qed

lemma skip_delimiters_ok:
  assumes "cstring m p xs" "cstring m delims zs"
  shows "skip_delimiters m delims p = Some (p + of_nat (length (takeWhile (\<lambda>x. x \<in> set zs) xs)),
    dropWhile (\<lambda>x. x \<in> set zs) xs \<noteq> [])"
  using assms(1)
proof (induction xs arbitrary: p)
  case Nil
  then show ?case
    using strchr_found [OF assms(2), of 0] by (subst skip_delimiters.simps) (auto simp: cstring_def)
next
  case (Cons x xs)
  note t = cstring_tl [OF Cons.prems]
  obtain r where r: "strchr m delims (m p) = Some r" "r = 0 \<longleftrightarrow> x \<notin> set zs"
    using strchr_found [OF assms(2), of x] t by auto
  show ?case
    by (subst skip_delimiters.simps) (use t r Cons.IH [OF t(1)] in \<open>auto simp: algebra_simps\<close>)
qed

lemma skip_token_ok:
  assumes "cstring m p xs" "cstring m delims zs"
  shows "skip_token m delims p = Some (p + of_nat (length (takeWhile (\<lambda>x. x \<notin> set zs) xs)))"
  using assms(1)
proof (induction xs arbitrary: p)
  case Nil
  then show ?case
    using strchr_found [OF assms(2), of 0] by (subst skip_token.simps) (auto simp: cstring_def)
next
  case (Cons x xs)
  note t = cstring_tl [OF Cons.prems]
  obtain r where r: "strchr m delims (m p) = Some r" "r = 0 \<longleftrightarrow> x \<notin> set zs"
    using strchr_found [OF assms(2), of x] t by auto
  show ?case
    by (subst skip_token.simps) (use t r Cons.IH [OF t(1)] in \<open>auto simp: algebra_simps\<close>)
qed

lemma in_range_offset: "n \<le> 2 ^ 32 \<Longrightarrow> in_range p n a \<longleftrightarrow> (\<exists>i < n. a = p + of_nat i)"
proof
  assume "n \<le> 2 ^ 32" and "in_range p n a"
  then show "\<exists>i < n. a = p + of_nat i"
    by (intro exI [of _ "unat (a - p)"]) (simp add: in_range_def)
next
  assume "n \<le> 2 ^ 32" and "\<exists>i < n. a = p + of_nat i"
  then show "in_range p n a" by (auto simp: in_range_def unat_of_nat_small)
qed

lemma cstring_frame:
  assumes "cstring m p xs" "\<And>a. in_range p (length xs + 1) a \<Longrightarrow> m' a = m a"
  shows "cstring m' p xs"
proof -
  have "in_range p (length xs + 1) (p + of_nat i)" if "i \<le> length xs" for i
    using that cstringD(4) [OF assms(1)] by (subst in_range_offset) (auto simp: less_Suc_eq_le)
  then have "cstr m' p xs \<longleftrightarrow> cstr m p xs" by (intro cstr_frame assms(2))
  then show ?thesis using assms(1) by (simp add: cstring_def)
qed

lemma memcmp_loop_eq:
  assumes "\<And>i. i < n \<Longrightarrow> m (b + of_nat i) = ys ! i" "length ys = n"
  shows "memcmp_loop n m a b = 0 \<longleftrightarrow> (\<forall>i < n. m (a + of_nat i) = ys ! i)"
  using assms
proof (induction n arbitrary: a b ys)
  case (Suc n)
  obtain y ys' where ys: "ys = y # ys'" using Suc.prems(2) by (cases ys) auto
  have "m (b + 1 + of_nat i) = ys' ! i" if "i < n" for i
    using Suc.prems(1) [of "Suc i"] that ys by (simp add: algebra_simps)
  then have "memcmp_loop n m (a + 1) (b + 1) = 0 \<longleftrightarrow> (\<forall>i < n. m (a + 1 + of_nat i) = ys' ! i)"
    using Suc.prems(2) ys by (intro Suc.IH) auto
  moreover have "m b = y" using Suc.prems(1) [of 0] ys by simp
  ultimately show ?case by (auto simp: ys less_Suc_eq_0_disj algebra_simps)
qed simp

section \<open>Properties\<close>

text \<open>C40:
  \<open>memmove\<close> moves a block as if through a temporary buffer, also when the blocks overlap, in both
  of its directions. It returns the destination only in the backward direction: when the
  destination is below the source it returns a pointer behind the moved block.
\<close>

theorem memmove_correct:
  assumes "dst \<noteq> 0" "src \<noteq> 0" "unat dst + n \<le> 2 ^ 32" "unat src + n \<le> 2 ^ 32"
  shows "memmove m dst src n = Some (if dst < src then dst + of_nat n else dst, mem_copy m dst src n)"
proof (cases "dst < src")
  case True
  then have "n \<le> unat (dst - src)" using assms(4) by (simp add: word_less_nat_alt unat_sub_if')
  then show ?thesis using assms True memcpy_loop_copy [of n dst src m] by (simp add: memmove_def)
next
  case False
  have "dst = src \<or> n \<le> unat (src + of_nat n - (dst + of_nat n))"
  proof (cases "dst = src")
    case ne: False
    then have "src < dst" using False by simp
    then have "n \<le> unat (src - dst)" using assms(3) by (simp add: word_less_nat_alt unat_sub_if')
    then show ?thesis by simp
  qed simp
  moreover have "n \<le> 2 ^ 32" using assms(3) by simp
  ultimately show ?thesis
    using assms False memmove_back_copy [of n "dst + of_nat n" "src + of_nat n" m] by (auto simp: memmove_def)
qed

text \<open>A memory that holds some bytes at \<open>p\<close> and is zero elsewhere, for the witnesses.\<close>

definition mem_of :: "u32 \<Rightarrow> u8 list \<Rightarrow> memory" where
  "mem_of p xs = (\<lambda>a. if in_range p (length xs) a then xs ! unat (a - p) else 0)"

lemma memmove_correct_witness:
  "memmove (mem_of 0x1000 [1, 2, 3]) 0x1001 0x1000 3 = Some (0x1001, mem_copy (mem_of 0x1000 [1, 2, 3]) 0x1001 0x1000 3) \<and>
   memmove (mem_of 0x1000 [1, 2, 3]) 0x0fff 0x1000 3 = Some (0x1002, mem_copy (mem_of 0x1000 [1, 2, 3]) 0x0fff 0x1000 3)"
  using memmove_correct [of "0x1001" "0x1000" 3 "mem_of 0x1000 [1, 2, 3]"]
    memmove_correct [of "0x0fff" "0x1000" 3 "mem_of 0x1000 [1, 2, 3]"] by simp

lemma memcpy_disjoint:
  assumes "n \<le> 2 ^ 32" "\<And>a. in_range dst n a \<Longrightarrow> \<not> in_range src n a"
  shows "memcpy_loop n m dst src = mem_copy m dst src n"
proof (cases "n = 0")
  case False
  have "\<not> in_range src n dst"
    using assms(2) [of dst] False by (auto simp: in_range_def)
  then have "n \<le> unat (dst - src)" by (simp add: in_range_def)
  then show ?thesis using assms(1) by (intro memcpy_loop_copy) simp_all
qed (simp add: mem_copy_def in_range_def fun_eq_iff)

lemma mem_copy_at:
  "n \<le> 2 ^ 32 \<Longrightarrow> i < n \<Longrightarrow> mem_copy m dst src n (dst + of_nat i) = m (src + of_nat i)"
  by (auto simp: mem_copy_def in_range_def unat_of_nat_small)

text \<open>\<open>strlcpy\<close> writes a null-terminated prefix of the source, as much as fits into the buffer, never
  touches a byte outside the buffer, and returns the length of the source, so that the caller can
  see a truncation.
\<close>

theorem strlcpy_bounded:
  assumes "cstring m src xs" and "dst \<noteq> 0" and "0 < n" and "unat dst + n \<le> 2 ^ 32"
    and "\<And>a. in_range dst n a \<Longrightarrow> \<not> in_range src (length xs + 1) a"
  shows "\<exists>m'. strlcpy m dst src n = Some (length xs, m') \<and> cstring m' dst (take (n - 1) xs) \<and>
    (\<forall>a. \<not> in_range dst n a \<longrightarrow> m' a = m a) \<and> cstring m' src xs"
proof -
  note S = cstringD [OF assms(1)]
  let ?k = "min (length xs) (n - 1)"
  have n: "n \<le> 2 ^ 32" "?k < n" "?k \<le> 2 ^ 32" using assms(3,4) by auto
  let ?m = "(mem_copy m dst src ?k)(dst + of_nat ?k := 0)"
  have "memcpy_loop ?k m dst src = mem_copy m dst src ?k"
  proof (rule memcpy_disjoint [OF n(3)])
    fix a
    assume "in_range dst ?k a"
    then have "in_range dst n a" using n(2) unfolding in_range_def by linarith
    from assms(5) [OF this] show "\<not> in_range src ?k a" unfolding in_range_def by linarith
  qed
  moreover have "(if length xs < n - 1 then length xs else n - 1) = ?k" by simp
  ultimately have "strlcpy m dst src n = Some (length xs, ?m)"
    using assms(2,3) S(1) by (simp add: strlcpy_def strlen_ok [OF assms(1)] memcpy_def Let_def)
  moreover have out: "?m a = m a" if "\<not> in_range dst n a" for a
  proof -
    have "in_range dst n (dst + of_nat ?k)" using n by (simp add: in_range_def unat_of_nat_small)
    then have "a \<noteq> dst + of_nat ?k" using that by auto
    moreover have "\<not> in_range dst ?k a" using that n(2) by (auto simp: in_range_def)
    ultimately show ?thesis by (simp add: mem_copy_def)
  qed
  moreover have "cstring ?m dst (take (n - 1) xs)"
  proof -
    have l: "length (take (n - 1) xs) = ?k" by simp
    have "?m (dst + of_nat i) = xs ! i" if "i < ?k" for i
    proof -
      have "of_nat i \<noteq> (of_nat ?k :: u32)"
        using that n(2) assms(4) unat_of_nat_small [of i] unat_of_nat_small [of ?k] by (metis (no_types, lifting)
            add_leD2 le_less_trans less_le_trans nat_less_le)
      then have "?m (dst + of_nat i) = mem_copy m dst src ?k (dst + of_nat i)" by simp
      also have "\<dots> = m (src + of_nat i)" by (rule mem_copy_at [OF n(3) that])
      also have "\<dots> = xs ! i" using cstring_at(1) [OF assms(1), of i] that by simp
      finally show ?thesis .
    qed
    moreover have "0 \<notin> set (take (n - 1) xs)" using cstr_nonzero [OF S(3)] in_set_takeD by fastforce
    ultimately have "cstr ?m dst (take (n - 1) xs)" unfolding cstr_nth l by simp
    then show ?thesis using assms(2,4) n(2) by (simp add: cstring_def)
  qed
  moreover have "cstring ?m src xs"
    by (rule cstring_frame [OF assms(1)]) (use out assms(5) in blast)
  ultimately show ?thesis by blast
qed

lemma strlcpy_bounded_witness:
  "\<exists>m'. strlcpy (mem_of 0x1000 [65, 66, 67]) 0x2000 0x1000 3 = Some (3, m') \<and> cstring m' 0x2000 [65, 66]"
proof -
  let ?m = "mem_of 0x1000 [65, 66, 67]"
  have "cstring ?m 0x1000 [65, 66, 67]" by (simp add: cstring_def mem_of_def in_range_def)
  moreover have "\<not> in_range 0x1000 (length [65, 66, 67 :: u8] + 1) a" if "in_range 0x2000 3 a" for a
  proof -
    have "a = 0x2000 + of_nat 0 \<or> a = 0x2000 + of_nat 1 \<or> a = 0x2000 + of_nat 2"
      using that by (subst (asm) in_range_offset) (auto simp: less_Suc_eq numeral_3_eq_3)
    then show ?thesis by (auto simp: in_range_def)
  qed
  ultimately show ?thesis using strlcpy_bounded [of ?m "0x1000" "[65, 66, 67]" "0x2000" 3] by auto
qed

lemma store32_outside: "\<not> in_range p 4 a \<Longrightarrow> store32 m p v a = m a"
proof -
  assume "\<not> in_range p 4 a"
  then have "a \<noteq> p" "a \<noteq> p + 1" "a \<noteq> p + 2" "a \<noteq> p + 3" by (auto simp: in_range_def)
  then show ?thesis by (simp add: store32_def)
qed

lemma in_range_4: "in_range p 4 a \<longleftrightarrow> a \<in> {p, p + 1, p + 2, p + 3}"
proof -
  have "in_range p 1 a \<longleftrightarrow> a = p" using in_range_back [of 0 p a] by (simp add: in_range_def)
  then show ?thesis
    using in_range_back [of 1 p a, simplified Suc_1] in_range_back [of 2 p a] in_range_back [of 3 p a]
    by (simp add: Suc_1 del: One_nat_def)
qed

lemma in_range_part:
  assumes "in_range (s + of_nat i) k a" "i + k \<le> n" "n \<le> 2 ^ 32"
  shows "in_range s n a"
proof -
  obtain j where "j < k" "a = s + of_nat i + of_nat j" using assms by (auto simp: in_range_offset)
  then have "i + j < n" "a = s + of_nat (i + j)" using assms(2) by simp_all
  then show ?thesis unfolding in_range_offset [OF assms(3)] by blast
qed

lemma cstring_store32:
  assumes "cstring m (s + of_nat i) us" "i + length us \<le> n" "n < 2 ^ 32"
    and apart: "\<And>a. in_range save 4 a \<Longrightarrow> \<not> in_range s (n + 1) a"
  shows "cstring (store32 m save v) (s + of_nat i) us"
proof (rule cstring_frame [OF assms(1)], rule store32_outside, rule notI)
  fix a
  assume "in_range (s + of_nat i) (length us + 1) a" "in_range save 4 a"
  then show False using in_range_part [of s i "length us + 1" a "n + 1"] assms(2,3) apart by auto
qed

lemma cstring_cut:
  assumes "cstring m p (tok @ d # us)"
  defines "e \<equiv> p + of_nat (length tok)"
  shows "cstring (m(e := 0)) p tok" "cstring (m(e := 0)) (e + 1) us" "m e = d" "d \<noteq> 0"
proof -
  note C = cstringD [OF assms(1)]
  have de: "cstring m e (d # us)" unfolding e_def by (rule cstring_drop [OF assms(1)])
  show "m e = d" "d \<noteq> 0" using cstring_tl [OF de] by simp_all
  have "p + of_nat i \<noteq> e" if "i < length tok" for i
    using that C(4) unat_of_nat_small [of i] unat_of_nat_small [of "length tok"] by (auto simp: e_def)
  then have "cstr (m(e := 0)) p tok"
    using C(3) unfolding cstr_nth by (auto simp: nth_append e_def)
  then show "cstring (m(e := 0)) p tok" using C(1,2) by (simp add: cstring_def)
  have "cstring m (e + 1) us" by (rule cstring_tl(1) [OF de])
  then show "cstring (m(e := 0)) (e + 1) us"
  proof (rule cstring_frame)
    have "\<not> in_range (e + 1) (length us + 1) e"
    proof -
      have "e - (e + 1) = -1" by simp
      moreover have "unat (-1 :: u32) = 4294967295" by (simp add: unsigned_minus_1_eq_mask mask_eq_exp_minus_1)
      ultimately have "unat (e - (e + 1)) = 4294967295" by (simp only:)
      moreover have "length us + 1 \<le> 4294967295" using C(4) by simp
      ultimately show ?thesis unfolding in_range_def by linarith
    qed
    then show "(m(e := 0)) a = m a" if "in_range (e + 1) (length us + 1) a" for a using that by (metis fun_upd_other)
  qed
qed

text \<open>\<open>strtok_r\<close> cuts off one token: it skips the delimiters at the front, and if anything is left
  returns a pointer to the longest stretch without delimiters, terminated by a null byte, and
  saves the position behind it, so that the next call goes on with the rest of the string. When
  only delimiters are left it returns a null pointer and leaves the saved position at the end.
\<close>

theorem strtok_r_next_token:
  assumes "cstring m s xs" and "cstring m delims zs" and "save \<noteq> 0"
    and apart: "\<And>a. in_range save 4 a \<Longrightarrow> \<not> in_range s (length xs + 1) a"
    and "ys = dropWhile (\<lambda>x. x \<in> set zs) xs"
  shows "\<exists>r m'. strtok_r m s delims save = Some (r, m') \<and>
    (if ys = [] then r = 0 else cstring m' r (takeWhile (\<lambda>x. x \<notin> set zs) ys) \<and>
       r = s + of_nat (length xs - length ys)) \<and>
    cstring m' (load32 m' save) (tl (dropWhile (\<lambda>x. x \<notin> set zs) ys)) \<and>
    (\<forall>a. \<not> in_range save 4 a \<longrightarrow> \<not> in_range s (length xs) a \<longrightarrow> m' a = m a)"
proof -
  let ?ds = "takeWhile (\<lambda>x. x \<in> set zs) xs" and ?tok = "takeWhile (\<lambda>x. x \<notin> set zs) ys"
  let ?rest = "dropWhile (\<lambda>x. x \<notin> set zs) ys"
  let ?t = "s + of_nat (length ?ds)" and ?e = "s + of_nat (length ?ds + length ?tok)"
  have xs: "xs = ?ds @ ys" and ys: "ys = ?tok @ ?rest" by (simp_all add: assms(5))
  have len: "length ?ds + length ?tok + length ?rest = length xs" "length xs - length ys = length ?ds"
    using xs ys by (metis length_append add.assoc, metis length_append add_diff_cancel_right')
  have S: "s \<noteq> 0" "delims \<noteq> 0" "length xs < 2 ^ 32" using assms(1,2) cstringD by blast+
  have kept: "cstring (store32 m' save v) (s + of_nat i) us"
    if "cstring m' (s + of_nat i) us" "i + length us \<le> length xs" for m' v i us
    by (rule cstring_store32 [OF that S(3) apart])
  have skip: "skip_delimiters m delims s = Some (?t, ys \<noteq> [])"
    using skip_delimiters_ok [OF assms(1,2)] by (simp add: assms(5))
  have atys: "cstring m ?t ys" using cstring_drop [of m s ?ds ys] assms(1) xs by simp
  have tok: "skip_token m delims ?t = Some ?e"
    using skip_token_ok [OF atys assms(2)] by (simp add: algebra_simps)
  show ?thesis
  proof (cases ?rest)
    case Nil
    then have all: "?tok = ys" using ys by (metis append_Nil2)
    have "cstring m (?t + of_nat (length ?tok)) []" unfolding all using cstring_drop [of m ?t ys "[]"] atys by simp
    then have e: "cstring m ?e []" by (simp add: add.assoc)
    then have e0: "m ?e = 0" by (simp add: cstring_def)
    have "cstring (store32 m save v) ?e []" "cstring (store32 m save v) ?t []" if "ys = []" for v
      using kept [OF e] kept [OF atys] that len by simp_all
    moreover have "cstring (store32 m save v) ?e []" "cstring (store32 m save v) ?t ?tok" for v
      by (rule kept [OF e], use len in simp, unfold all, rule kept [OF atys], use len all in simp)
    moreover have "strtok_r m s delims save =
        Some (if ys = [] then (0, store32 m save ?t) else (?t, store32 m save ?e))"
      using S skip tok assms(3) e0 by (simp add: strtok_r_def Let_def)
    moreover have "tl ?rest = []" by (simp only: Nil list.sel)
    ultimately show ?thesis using len(2) by (cases "ys = []") (simp_all add: load_store_same store32_outside)
  next
    case (Cons d us)
    then have ne: "ys \<noteq> []" by auto
    have cut: "cstring (m(?e := 0)) ?t ?tok" "cstring (m(?e := 0)) (?e + 1) us" "m ?e \<noteq> 0"
      using cstring_cut [of m ?t ?tok d us] atys ys Cons by (simp_all add: add.assoc)
    have "in_range s (length xs) ?e"
      unfolding in_range_offset [OF less_imp_le [OF S(3)]] using len Cons
      by (intro exI [of _ "length ?ds + length ?tok"]) simp
    then have "store32 (m(?e := 0)) save v a = m a" if "\<not> in_range save 4 a" "\<not> in_range s (length xs) a" for v a
      using store32_outside [OF that(1)] that(2) by auto
    moreover have "strtok_r m s delims save = Some (?t, store32 (m(?e := 0)) save (?e + 1))"
      using S assms(3) skip ne tok cut(3) by (simp add: strtok_r_def Let_def)
    moreover have "cstring (store32 (m(?e := 0)) save (?e + 1)) ?t ?tok"
      by (rule kept [OF cut(1)]) (use len in simp_all)
    moreover have "cstring (store32 (m(?e := 0)) save (?e + 1)) (?e + 1) us"
      using kept [of "m(?e := 0)" "length ?ds + length ?tok + 1" us] cut(2) len Cons by (simp add: algebra_simps)
    ultimately show ?thesis using ne len(2) Cons by (auto simp: load_store_same)
  qed
qed

lemma strtok_r_next_token_witness:
  "\<exists>r m'. strtok_r (mem_of 0x1000 [32, 65, 66, 32, 67, 0, 32]) 0x1000 0x1006 0x2000 = Some (r, m') \<and>
     r = 0x1001 \<and> cstring m' r [65, 66] \<and> cstring m' (load32 m' 0x2000) [67]"
proof -
  let ?m = "mem_of 0x1000 [32, 65, 66, 32, 67, 0, 32]"
  have "cstring ?m 0x1000 [32, 65, 66, 32, 67]" "cstring ?m 0x1006 [32]"
    by (simp_all add: cstring_def mem_of_def in_range_def)
  moreover have "\<not> in_range 0x1000 (length [32, 65, 66, 32, 67 :: u8] + 1) a" if "in_range 0x2000 4 a" for a
  proof -
    have "a = 0x2000 \<or> a = 0x2001 \<or> a = 0x2002 \<or> a = 0x2003" using that by (simp add: in_range_4)
    then show ?thesis by (auto simp: in_range_def)
  qed
  ultimately show ?thesis
    using strtok_r_next_token [of ?m "0x1000" "[32, 65, 66, 32, 67]" "0x1006" "[32]" "0x2000" "[65, 66, 32, 67]"]
    by auto
qed

end
