(* ===== verification/Kernel_Hash.thy ===== *)
theory Kernel_Hash
  imports Kernel_String "HOL-Library.Multiset"
begin

text \<open>
  The hash table \<open>lib/kernel/hash.c\<close>. An element is identified by its address; the buckets are the
  sequences of elements that their lists hold (\<open>Kernel_Queue\<close> relates sequences to the linked
  structure). The hash and comparison functions are fields of the table, as in C, with their
  auxiliary data applied. Whether \<open>malloc\<close> succeeds is an argument of the operations that call it.

  The locale \<open>dictionary\<close> states what a client may rely on; the table is an instance.
\<close>

record 'e hash_table =
  elem_cnt_of :: nat
  bucket_cnt :: nat
  buckets :: "'e list list"
  hash_fn :: "'e \<Rightarrow> u32"
  less_fn :: "'e \<Rightarrow> 'e \<Rightarrow> bool"

record hash_iterator =
  it_bucket :: nat
  it_pos :: nat

section \<open>Operations\<close>

definition turn_off_least_1bit :: "u32 \<Rightarrow> u32" where
  "turn_off_least_1bit x = x AND (x - 1)"

definition is_power_of_2 :: "u32 \<Rightarrow> bool" where
  "is_power_of_2 x \<longleftrightarrow> x \<noteq> 0 \<and> turn_off_least_1bit x = 0"

definition find_bucket :: "'e hash_table \<Rightarrow> 'e \<Rightarrow> nat" where
  "find_bucket h e = unat (hash_fn h e AND (of_nat (bucket_cnt h) - 1))"

fun find_elem_loop :: "'e hash_table \<Rightarrow> 'e list \<Rightarrow> 'e \<Rightarrow> 'e option" where
  "find_elem_loop h [] e = None"
| "find_elem_loop h (hi # rest) e =
     (if \<not> less_fn h hi e \<and> \<not> less_fn h e hi then Some hi else find_elem_loop h rest e)"

definition find_elem :: "'e hash_table \<Rightarrow> nat \<Rightarrow> 'e \<Rightarrow> 'e option" where
  "find_elem h bucket e = find_elem_loop h (buckets h ! bucket) e"

definition insert_elem :: "'e hash_table \<Rightarrow> nat \<Rightarrow> 'e \<Rightarrow> 'e hash_table" where
  "insert_elem h bucket e = h\<lparr>elem_cnt_of := elem_cnt_of h + 1,
     buckets := (buckets h)[bucket := e # buckets h ! bucket]\<rparr>"

text \<open>\<open>list_remove\<close> unlinks the element from the list it is in.\<close>

definition remove_elem :: "'e hash_table \<Rightarrow> 'e \<Rightarrow> 'e hash_table" where
  "remove_elem h e = h\<lparr>elem_cnt_of := elem_cnt_of h - 1, buckets := map (remove1 e) (buckets h)\<rparr>"

function power_of_2_loop :: "u32 \<Rightarrow> u32" where
  "power_of_2_loop x = (if x = 0 \<or> is_power_of_2 x then x else power_of_2_loop (turn_off_least_1bit x))"
  by auto
termination
proof (relation "measure unat")
  fix x :: u32
  assume "\<not> (x = 0 \<or> is_power_of_2 x)"
  then have "turn_off_least_1bit x \<le> x - 1" "x - 1 < x"
    by (auto simp: turn_off_least_1bit_def word_and_le1 word_less_nat_alt unat_minus_one unat_gt_0)
  then show "(turn_off_least_1bit x, x) \<in> measure unat" by (simp add: word_less_nat_alt word_le_nat_alt)
qed simp

definition new_bucket_cnt :: "nat \<Rightarrow> nat" where
  "new_bucket_cnt elems = (let n = elems div 2; n = (if n < 4 then 4 else n)
     in unat (power_of_2_loop (of_nat n)))"

definition rehash_move :: "'e hash_table \<Rightarrow> 'e \<Rightarrow> 'e hash_table" where
  "rehash_move h e = h\<lparr>buckets := (buckets h)[find_bucket h e := e # buckets h ! find_bucket h e]\<rparr>"

definition rehash :: "'e hash_table \<Rightarrow> bool \<Rightarrow> 'e hash_table" where
  "rehash h mem_ok =
     (let new = new_bucket_cnt (elem_cnt_of h) in
      if new = bucket_cnt h \<or> \<not> mem_ok then h
      else fold (\<lambda>e h. rehash_move h e) (concat (buckets h))
        (h\<lparr>buckets := replicate new [], bucket_cnt := new\<rparr>))"

definition hash_clear :: "'e hash_table \<Rightarrow> 'e list \<times> 'e hash_table" where
  "hash_clear h = (concat (buckets h), h\<lparr>elem_cnt_of := 0, buckets := replicate (bucket_cnt h) []\<rparr>)"

definition hash_init :: "('e \<Rightarrow> u32) \<Rightarrow> ('e \<Rightarrow> 'e \<Rightarrow> bool) \<Rightarrow> bool \<Rightarrow> bool \<times> 'e hash_table" where
  "hash_init hash lt mem_ok =
     (let h = \<lparr>elem_cnt_of = 0, bucket_cnt = 4, buckets = replicate 4 [], hash_fn = hash, less_fn = lt\<rparr>
      in if mem_ok then (True, snd (hash_clear h)) else (False, h))"

definition hash_insert :: "bool \<Rightarrow> 'e hash_table \<Rightarrow> 'e \<Rightarrow> 'e option \<times> 'e hash_table" where
  "hash_insert mem_ok h new =
     (let bucket = find_bucket h new;
          old = find_elem h bucket new;
          h = (if old = None then insert_elem h bucket new else h)
      in (old, rehash h mem_ok))"

definition hash_replace :: "bool \<Rightarrow> 'e hash_table \<Rightarrow> 'e \<Rightarrow> 'e option \<times> 'e hash_table" where
  "hash_replace mem_ok h new =
     (let bucket = find_bucket h new;
          old = find_elem h bucket new;
          h = (case old of Some x \<Rightarrow> remove_elem h x | None \<Rightarrow> h);
          h = insert_elem h bucket new
      in (old, rehash h mem_ok))"

definition hash_find :: "'e hash_table \<Rightarrow> 'e \<Rightarrow> 'e option" where
  "hash_find h e = find_elem h (find_bucket h e) e"

definition hash_delete :: "bool \<Rightarrow> 'e hash_table \<Rightarrow> 'e \<Rightarrow> 'e option \<times> 'e hash_table" where
  "hash_delete mem_ok h e =
     (let found = find_elem h (find_bucket h e) e
      in (found, case found of Some x \<Rightarrow> rehash (remove_elem h x) mem_ok | None \<Rightarrow> h))"

text \<open>The action sees the elements in this order.\<close>

definition hash_apply :: "'e hash_table \<Rightarrow> ('e \<Rightarrow> 's \<Rightarrow> 's) \<Rightarrow> 's \<Rightarrow> 's" where
  "hash_apply h action s = fold (\<lambda>bucket s. fold action bucket s) (buckets h) s"

text \<open>
  An iterator stands at a position of a bucket: 0 is the head of the list, \<open>k + 1\<close> the element
  \<open>k\<close>, and one more than the length its end.
\<close>

definition hash_first :: "'e hash_table \<Rightarrow> hash_iterator" where
  "hash_first h = \<lparr>it_bucket = 0, it_pos = 0\<rparr>"

fun next_bucket :: "nat \<Rightarrow> 'e hash_table \<Rightarrow> hash_iterator \<Rightarrow> 'e option \<times> hash_iterator" where
  "next_bucket 0 h i = (None, i)"
| "next_bucket (Suc left) h i =
     (if it_pos i \<le> length (buckets h ! it_bucket i)
      then (Some (buckets h ! it_bucket i ! (it_pos i - 1)), i)
      else if it_bucket i + 1 \<ge> bucket_cnt h then (None, i\<lparr>it_bucket := it_bucket i + 1\<rparr>)
      else next_bucket left h \<lparr>it_bucket = it_bucket i + 1, it_pos = 1\<rparr>)"

definition hash_next :: "'e hash_table \<Rightarrow> hash_iterator \<Rightarrow> 'e option \<times> hash_iterator" where
  "hash_next h i = next_bucket (bucket_cnt h - it_bucket i) h (i\<lparr>it_pos := it_pos i + 1\<rparr>)"

definition hash_size :: "'e hash_table \<Rightarrow> nat" where "hash_size h = elem_cnt_of h"
definition hash_empty :: "'e hash_table \<Rightarrow> bool" where "hash_empty h \<longleftrightarrow> elem_cnt_of h = 0"

definition FNV_32_PRIME :: u32 where "FNV_32_PRIME = 16777619"
definition FNV_32_BASIS :: u32 where "FNV_32_BASIS = 2166136261"

fun hash_bytes_loop :: "nat \<Rightarrow> memory \<Rightarrow> u32 \<Rightarrow> u32 \<Rightarrow> u32" where
  "hash_bytes_loop 0 m buf hash = hash"
| "hash_bytes_loop (Suc n) m buf hash =
     hash_bytes_loop n m (buf + 1) ((hash * FNV_32_PRIME) XOR ucast (m buf))"

definition hash_bytes :: "memory \<Rightarrow> u32 \<Rightarrow> nat \<Rightarrow> u32 option" where
  "hash_bytes m buf n = do { ASSERT (buf \<noteq> 0); Some (hash_bytes_loop n m buf FNV_32_BASIS) }"

partial_function (option) hash_string_loop :: "memory \<Rightarrow> u32 \<Rightarrow> u32 \<Rightarrow> u32 option" where
  "hash_string_loop m s hash =
     (if m s \<noteq> 0 then hash_string_loop m (s + 1) ((hash * FNV_32_PRIME) XOR ucast (m s)) else Some hash)"

definition hash_string :: "memory \<Rightarrow> u32 \<Rightarrow> u32 option" where
  "hash_string m s = do { ASSERT (s \<noteq> 0); hash_string_loop m s FNV_32_BASIS }"

text \<open>The bytes of the integer stand at its address on the stack.\<close>

definition hash_int :: "memory \<Rightarrow> u32 \<Rightarrow> u32 \<Rightarrow> u32 option" where
  "hash_int m addr i = hash_bytes (store32 m addr i) addr 4"

section \<open>The table as a dictionary\<close>

text \<open>
  What a client of a dictionary of elements relies on: \<open>find\<close> looks for an element that is the
  same as a given one, \<open>put\<close> adds unless there is one already, \<open>del\<close> removes it.
\<close>

locale dictionary =
  fixes inv :: "'s \<Rightarrow> bool"
    and contents :: "'s \<Rightarrow> 'e set"
    and same :: "'s \<Rightarrow> 'e \<Rightarrow> 'e \<Rightarrow> bool"
    and find :: "'s \<Rightarrow> 'e \<Rightarrow> 'e option"
    and put :: "'s \<Rightarrow> 'e \<Rightarrow> 'e option \<times> 's"
    and del :: "'s \<Rightarrow> 'e \<Rightarrow> 'e option \<times> 's"
  assumes same_equiv: "inv s \<Longrightarrow> equivp (same s)"
    and unique: "inv s \<Longrightarrow> x \<in> contents s \<Longrightarrow> y \<in> contents s \<Longrightarrow> same s x y \<Longrightarrow> x = y"
    and find_some: "inv s \<Longrightarrow> find s e = Some x \<Longrightarrow> x \<in> contents s \<and> same s x e"
    and find_none: "inv s \<Longrightarrow> find s e = None \<Longrightarrow> x \<in> contents s \<Longrightarrow> \<not> same s x e"
    and put_ok: "inv s \<Longrightarrow> put s e = (old, s') \<Longrightarrow> inv s' \<and> same s' = same s \<and> old = find s e \<and>
        contents s' = (if old = None then insert e (contents s) else contents s)"
    and del_ok: "inv s \<Longrightarrow> del s e = (old, s') \<Longrightarrow> inv s' \<and> same s' = same s \<and> old = find s e \<and>
        contents s' = contents s - {x. old = Some x}"
begin

lemma same_refl: "inv s \<Longrightarrow> same s x x"
  using same_equiv equivp_reflp by metis

lemma find_unique:
  assumes "inv s" "x \<in> contents s" "same s x e"
  shows "find s e = Some x"
proof (cases "find s e")
  case None
  then show ?thesis using find_none assms by blast
next
  case (Some y)
  then have y: "y \<in> contents s" "same s y e" using find_some assms(1) by blast+
  then have "same s y x" using same_equiv [OF assms(1)] assms(3) by (metis equivp_symp equivp_transp)
  then show ?thesis using unique assms y Some by blast
qed

lemma find_after_put:
  assumes "inv s" "put s e = (old, s')"
  shows "find s' f = (if old = None \<and> same s e f then Some e else find s f)"
proof -
  note P = put_ok [OF assms]
  show ?thesis
  proof (cases "old = None \<and> same s e f")
    case True
    then show ?thesis using P find_unique [of s' e f] by auto
  next
    case False
    show ?thesis
    proof (cases "find s f")
      case None
      have "\<not> same s x f" if "x \<in> contents s'" for x
        using that P False find_none [OF assms(1) None] by (auto split: if_splits)
      then have "find s' f = None" using P find_some [of s' f] by (cases "find s' f") auto
      then show ?thesis using None False by auto
    next
      case (Some x)
      then have "find s' f = Some x" using P find_some [OF assms(1)] by (intro find_unique) auto
      then show ?thesis using Some False by auto
    qed
  qed
qed

lemma find_after_del:
  assumes "inv s" "del s e = (old, s')"
  shows "find s' f = (if same s e f then None else find s f)"
proof -
  note P = del_ok [OF assms]
  have eq: "equivp (same s)" by (rule same_equiv [OF assms(1)])
  show ?thesis
  proof (cases "same s e f")
    case True
    have "\<not> same s x f" if "x \<in> contents s'" for x
    proof
      assume "same s x f"
      then have "same s x e" using True eq by (metis equivp_symp equivp_transp)
      then have "find s e = Some x" using find_unique assms(1) that P by auto
      then show False using that P by auto
    qed
    then show ?thesis using P True find_some [of s' f] by (cases "find s' f") auto
  next
    case False
    show ?thesis
    proof (cases "find s f")
      case None
      then have "\<not> same s x f" if "x \<in> contents s'" for x using that P find_none [OF assms(1)] by auto
      then have "find s' f = None" using P find_some [of s' f] by (cases "find s' f") auto
      then show ?thesis using None by simp
    next
      case (Some x)
      then have x: "x \<in> contents s" "same s x f" using find_some assms(1) by blast+
      have "old \<noteq> Some x"
        using P x False find_some [OF assms(1), of e x] eq by (metis equivp_symp equivp_transp)
      then have "find s' f = Some x" using P x by (intro find_unique) auto
      then show ?thesis using Some False by simp
    qed
  qed
qed

end

section \<open>The invariant\<close>

definition same_elem :: "'e hash_table \<Rightarrow> 'e \<Rightarrow> 'e \<Rightarrow> bool" where
  "same_elem h x y \<longleftrightarrow> \<not> less_fn h x y \<and> \<not> less_fn h y x"

definition hash_contents :: "'e hash_table \<Rightarrow> 'e set" where
  "hash_contents h = set (concat (buckets h))"

definition placed :: "'e hash_table \<Rightarrow> bool" where
  "placed h \<longleftrightarrow> length (buckets h) = bucket_cnt h \<and> is_power_of_2 (of_nat (bucket_cnt h)) \<and>
     bucket_cnt h < 2 ^ 32 \<and> (\<forall>i < bucket_cnt h. \<forall>e \<in> set (buckets h ! i). find_bucket h e = i)"

text \<open>
  The functions fit together, every element is in its bucket, no two are the same, and the count
  is right.
\<close>

definition hash_inv :: "'e hash_table \<Rightarrow> bool" where
  "hash_inv h \<longleftrightarrow> equivp (same_elem h) \<and> (\<forall>x y. same_elem h x y \<longrightarrow> hash_fn h x = hash_fn h y) \<and>
     placed h \<and> elem_cnt_of h = length (concat (buckets h)) \<and> distinct (concat (buckets h)) \<and>
     (\<forall>x \<in> hash_contents h. \<forall>y \<in> hash_contents h. same_elem h x y \<longrightarrow> x = y)"

lemma find_bucket_less:
  assumes "is_power_of_2 (of_nat (bucket_cnt h))" "bucket_cnt h < 2 ^ 32"
  shows "find_bucket h e < bucket_cnt h"
proof -
  have n: "unat (of_nat (bucket_cnt h) :: u32) = bucket_cnt h" using assms(2) by (rule unat_of_nat_small)
  have "(of_nat (bucket_cnt h) :: u32) \<noteq> 0" using assms(1) by (simp add: is_power_of_2_def)
  moreover have "hash_fn h e AND (of_nat (bucket_cnt h) - 1) \<le> of_nat (bucket_cnt h) - 1" by (rule word_and_le1)
  ultimately show ?thesis
    using n by (auto simp: find_bucket_def word_le_nat_alt unat_minus_one simp flip: unat_eq_0)
qed

lemma mset_update_bucket:
  "i < length bs \<Longrightarrow> mset (concat (bs[i := e # bs ! i])) = add_mset e (mset (concat bs))"
proof (induction bs arbitrary: i)
  case (Cons b bs)
  then show ?case by (cases i) simp_all
qed simp

lemma mset_eq_facts:
  assumes "mset xs = mset ys"
  shows "set xs = set ys" "length xs = length ys" "distinct xs = distinct ys"
  using assms mset_eq_setD mset_eq_length mset_eq_imp_distinct_iff by blast+

lemma power_of_2_loop_ok: "x \<noteq> 0 \<Longrightarrow> is_power_of_2 (power_of_2_loop x)"
proof (induction x rule: power_of_2_loop.induct)
  case (1 x)
  show ?case
  proof (cases "is_power_of_2 x")
    case False
    then have "turn_off_least_1bit x \<noteq> 0" using 1(2) by (simp add: is_power_of_2_def)
    then show ?thesis using 1 False by (subst power_of_2_loop.simps) auto
  qed (use 1(2) in \<open>subst power_of_2_loop.simps, simp\<close>)
qed

lemma new_bucket_cnt_ok:
  assumes "elems < 2 ^ 33"
  shows "is_power_of_2 (of_nat (new_bucket_cnt elems))" "new_bucket_cnt elems < 2 ^ 32"
proof -
  define n where "n = (if elems div 2 < 4 then 4 else elems div 2)"
  have "n \<noteq> 0" "n < 2 ^ 32" using assms by (auto simp: n_def)
  then have "(of_nat n :: u32) \<noteq> 0" using unat_of_nat_small [of n] by auto
  moreover have "new_bucket_cnt elems = unat (power_of_2_loop (of_nat n))"
    by (simp only: new_bucket_cnt_def Let_def n_def)
  ultimately show "is_power_of_2 (of_nat (new_bucket_cnt elems))"
    using power_of_2_loop_ok by (simp only: of_nat_unat ucast_id)
  show "new_bucket_cnt elems < 2 ^ 32" by (simp add: new_bucket_cnt_def Let_def)
qed

lemma rehash_move_fields [simp]:
  "elem_cnt_of (rehash_move h e) = elem_cnt_of h" "bucket_cnt (rehash_move h e) = bucket_cnt h"
  "hash_fn (rehash_move h e) = hash_fn h" "less_fn (rehash_move h e) = less_fn h"
  "find_bucket (rehash_move h e) = find_bucket h"
  by (simp_all add: rehash_move_def find_bucket_def fun_eq_iff)

lemma rehash_move_placed:
  assumes "placed h"
  shows "placed (rehash_move h e)"
    "mset (concat (buckets (rehash_move h e))) = add_mset e (mset (concat (buckets h)))"
proof -
  have i: "find_bucket h e < bucket_cnt h" using assms find_bucket_less [of h e] by (simp add: placed_def)
  then show "mset (concat (buckets (rehash_move h e))) = add_mset e (mset (concat (buckets h)))"
    using assms unfolding rehash_move_def placed_def by (simp add: mset_update_bucket del: mset_concat)
  show "placed (rehash_move h e)"
    using assms i unfolding placed_def rehash_move_fields
    by (auto simp: rehash_move_def nth_list_update split: if_splits)
qed

lemma rehash_fold:
  "placed h \<Longrightarrow> placed (fold (\<lambda>e h. rehash_move h e) es h) \<and>
    mset (concat (buckets (fold (\<lambda>e h. rehash_move h e) es h))) = mset es + mset (concat (buckets h)) \<and>
    elem_cnt_of (fold (\<lambda>e h. rehash_move h e) es h) = elem_cnt_of h \<and>
    hash_fn (fold (\<lambda>e h. rehash_move h e) es h) = hash_fn h \<and>
    less_fn (fold (\<lambda>e h. rehash_move h e) es h) = less_fn h"
  by (induction es arbitrary: h) (simp_all add: rehash_move_placed del: mset_concat)

lemma rehash_ok:
  assumes "placed h" "elem_cnt_of h < 2 ^ 33"
  shows "placed (rehash h b)" "mset (concat (buckets (rehash h b))) = mset (concat (buckets h))"
    "elem_cnt_of (rehash h b) = elem_cnt_of h" "hash_fn (rehash h b) = hash_fn h" "less_fn (rehash h b) = less_fn h"
proof -
  let ?new = "new_bucket_cnt (elem_cnt_of h)"
  let ?h = "h\<lparr>buckets := replicate ?new [], bucket_cnt := ?new\<rparr>"
  have "placed ?h" using new_bucket_cnt_ok [OF assms(2)] by (simp add: placed_def)
  note F = rehash_fold [OF this, of "concat (buckets h)"]
  have "concat (replicate n []) = []" for n by (induction n) simp_all
  then have "mset (concat (buckets ?h)) = {#}" by simp
  then show "placed (rehash h b)" "mset (concat (buckets (rehash h b))) = mset (concat (buckets h))"
    "elem_cnt_of (rehash h b) = elem_cnt_of h" "hash_fn (rehash h b) = hash_fn h" "less_fn (rehash h b) = less_fn h"
    using F assms(1) by (simp_all add: rehash_def Let_def del: mset_concat)
qed

lemma same_elem_cong: "less_fn h' = less_fn h \<Longrightarrow> same_elem h' = same_elem h"
  by (simp add: same_elem_def fun_eq_iff)

lemma hash_inv_rehash:
  assumes "hash_inv h" "elem_cnt_of h < 2 ^ 33"
  shows "hash_inv (rehash h b)" "hash_contents (rehash h b) = hash_contents h"
    "same_elem (rehash h b) = same_elem h"
proof -
  have p: "placed h" using assms(1) by (simp add: hash_inv_def)
  note R = rehash_ok [OF p assms(2), of b] and M = mset_eq_facts [OF rehash_ok(2) [OF p assms(2), of b]]
  show same: "same_elem (rehash h b) = same_elem h" by (rule same_elem_cong) (rule R(5))
  show c: "hash_contents (rehash h b) = hash_contents h" unfolding hash_contents_def by (rule M(1))
  show "hash_inv (rehash h b)" using assms(1) R M unfolding hash_inv_def same c by simp
qed

lemma find_elem_loop_ok:
  "find_elem_loop h b e = Some x \<Longrightarrow> x \<in> set b \<and> same_elem h x e"
  "find_elem_loop h b e = None \<Longrightarrow> x \<in> set b \<Longrightarrow> \<not> same_elem h x e"
  by (induction h b e rule: find_elem_loop.induct) (auto simp: same_elem_def split: if_splits)

lemma in_contents:
  assumes "hash_inv h"
  shows "x \<in> hash_contents h \<longleftrightarrow> x \<in> set (buckets h ! find_bucket h x)"
proof -
  have p: "placed h" using assms by (simp add: hash_inv_def)
  then have "find_bucket h x < length (buckets h)" using find_bucket_less [of h x] by (simp add: placed_def)
  then have "buckets h ! find_bucket h x \<in> set (buckets h)" by (rule nth_mem)
  moreover have "b = buckets h ! find_bucket h x" if "b \<in> set (buckets h)" "x \<in> set b" for b
  proof -
    obtain i where "i < length (buckets h)" "b = buckets h ! i" using \<open>b \<in> _\<close> by (metis in_set_conv_nth)
    then show ?thesis using p \<open>x \<in> set b\<close> unfolding placed_def by metis
  qed
  ultimately show ?thesis unfolding hash_contents_def set_concat by blast
qed

lemma hash_find_ok:
  assumes "hash_inv h"
  shows "hash_find h e = Some x \<Longrightarrow> x \<in> hash_contents h \<and> same_elem h x e"
    "hash_find h e = None \<Longrightarrow> x \<in> hash_contents h \<Longrightarrow> \<not> same_elem h x e"
proof -
  have fb: "find_bucket h x = find_bucket h e" if "same_elem h x e" for x
    using assms that by (simp add: hash_inv_def find_bucket_def)
  show "x \<in> hash_contents h \<and> same_elem h x e" if "hash_find h e = Some x"
    using find_elem_loop_ok(1) [of h _ e x] that fb [of x] in_contents [OF assms, of x]
    by (auto simp: hash_find_def find_elem_def)
  show "\<not> same_elem h x e" if "hash_find h e = None" "x \<in> hash_contents h"
    using find_elem_loop_ok(2) [of h _ e x] that fb [of x] in_contents [OF assms, of x]
    by (auto simp: hash_find_def find_elem_def)
qed

lemma insert_elem_inv:
  assumes "hash_inv h" "\<forall>x \<in> hash_contents h. \<not> same_elem h x e"
  defines "h' \<equiv> insert_elem h (find_bucket h e) e"
  shows "hash_inv h'" "hash_contents h' = insert e (hash_contents h)" "same_elem h' = same_elem h"
    "elem_cnt_of h' = elem_cnt_of h + 1"
proof -
  have p: "placed h" and eq: "equivp (same_elem h)" using assms(1) by (simp_all add: hash_inv_def)
  have i: "find_bucket h e < length (buckets h)" using p find_bucket_less [of h e] by (simp add: placed_def)
  have f: "hash_fn h' = hash_fn h" "less_fn h' = less_fn h" "bucket_cnt h' = bucket_cnt h"
    "buckets h' = (buckets h)[find_bucket h e := e # buckets h ! find_bucket h e]"
    by (simp_all add: h'_def insert_elem_def)
  then have fb: "find_bucket h' = find_bucket h" by (simp add: fun_eq_iff find_bucket_def)
  show same: "same_elem h' = same_elem h" by (rule same_elem_cong) (rule f(2))
  show cnt: "elem_cnt_of h' = elem_cnt_of h + 1" by (simp add: h'_def insert_elem_def)
  have m: "mset (concat (buckets h')) = mset (e # concat (buckets h))"
    unfolding f(4) using mset_update_bucket [OF i] by (simp del: mset_concat)
  note M = mset_eq_facts [OF m]
  show c: "hash_contents h' = insert e (hash_contents h)" using M(1) by (simp only: hash_contents_def list.set)
  have "placed h'"
    using p i unfolding placed_def fb f(3) by (auto simp: f(4) nth_list_update split: if_splits)
  moreover have "e \<notin> hash_contents h" using assms(2) eq equivp_reflp by metis
  then have "distinct (concat (buckets h'))"
    using M(3) assms(1) by (simp only: distinct.simps) (simp add: hash_inv_def hash_contents_def)
  moreover have "same_elem h x y \<longrightarrow> x = y" if "x \<in> insert e (hash_contents h)" "y \<in> insert e (hash_contents h)" for x y
    using that assms(1,2) eq unfolding hash_inv_def by (metis equivp_symp insertE)
  ultimately show "hash_inv h'"
    using assms(1) M(2) cnt unfolding hash_inv_def same c f(1) by simp
qed

lemma remove_elem_inv:
  assumes "hash_inv h" "x \<in> hash_contents h"
  defines "h' \<equiv> remove_elem h x"
  shows "hash_inv h'" "hash_contents h' = hash_contents h - {x}" "same_elem h' = same_elem h"
    "elem_cnt_of h' \<le> elem_cnt_of h"
proof -
  have p: "placed h" and d: "distinct (concat (buckets h))" using assms(1) by (simp_all add: hash_inv_def)
  have f: "hash_fn h' = hash_fn h" "less_fn h' = less_fn h" "bucket_cnt h' = bucket_cnt h"
    "buckets h' = map (remove1 x) (buckets h)"
    by (simp_all add: h'_def remove_elem_def)
  then have fb: "find_bucket h' = find_bucket h" by (simp add: fun_eq_iff find_bucket_def)
  show same: "same_elem h' = same_elem h" by (rule same_elem_cong) (rule f(2))
  have "concat (map (remove1 x) bs) = remove1 x (concat bs)" if "distinct (concat bs)" for bs
    using that
  proof (induction bs)
    case (Cons b bs)
    then show ?case
      by (cases "x \<in> set b") (auto simp: remove1_append remove1_idem, metis UN_I disjoint_iff remove1_idem set_concat)
  qed simp
  then have m: "concat (buckets h') = remove1 x (concat (buckets h))" using d f(4) by simp
  show cnt: "elem_cnt_of h' \<le> elem_cnt_of h" by (simp add: h'_def remove_elem_def)
  show c: "hash_contents h' = hash_contents h - {x}"
    unfolding hash_contents_def m using d by (rule set_remove1_eq)
  have "x \<in> set (concat (buckets h))" using assms(2) by (simp add: hash_contents_def)
  then have "length (concat (buckets h')) = length (concat (buckets h)) - 1"
    unfolding m by (simp add: length_remove1 del: set_concat)
  moreover have "elem_cnt_of h' = elem_cnt_of h - 1" by (simp add: h'_def remove_elem_def)
  moreover have "placed h'"
    using p unfolding placed_def fb f(3) by (auto simp: f(4) dest: subsetD [OF set_remove1_subset])
  moreover have "distinct (concat (buckets h'))" unfolding m using d by (rule distinct_remove1)
  ultimately show "hash_inv h'"
    using assms(1) unfolding hash_inv_def same c f(1) by auto
qed

text \<open>Elements are addresses, so there are at most 2 to the 32 of them.\<close>

lemma elem_cnt_bound:
  fixes h :: "u32 hash_table"
  assumes "hash_inv h"
  shows "elem_cnt_of h < 2 ^ 33"
proof -
  have "elem_cnt_of h = card (set (concat (buckets h)))"
    using assms unfolding hash_inv_def by (metis distinct_card)
  also have "\<dots> \<le> card (UNIV :: u32 set)" by (rule card_mono) simp_all
  finally show ?thesis by (simp add: card_word)
qed

lemma hash_insert_ok:
  fixes h :: "u32 hash_table"
  assumes "hash_inv h" "hash_insert b h e = (old, h')"
  shows "hash_inv h' \<and> same_elem h' = same_elem h \<and> old = hash_find h e \<and>
    hash_contents h' = (if old = None then insert e (hash_contents h) else hash_contents h)"
proof (cases "hash_find h e")
  case None
  let ?h = "insert_elem h (find_bucket h e) e"
  have no: "\<forall>x \<in> hash_contents h. \<not> same_elem h x e" using hash_find_ok(2) [OF assms(1) None] by blast
  note I = insert_elem_inv [OF assms(1) no]
  note R = hash_inv_rehash [OF I(1) elem_cnt_bound [OF I(1)], of b]
  have "old = None" "h' = rehash ?h b"
    using assms(2) None by (auto simp: hash_insert_def hash_find_def Let_def)
  then show ?thesis using None I R by simp
next
  case (Some x)
  note R = hash_inv_rehash [OF assms(1) elem_cnt_bound [OF assms(1)], of b]
  have "old = Some x" "h' = rehash h b"
    using assms(2) Some by (auto simp: hash_insert_def hash_find_def Let_def)
  then show ?thesis using Some R by simp
qed

lemma hash_delete_ok:
  fixes h :: "u32 hash_table"
  assumes "hash_inv h" "hash_delete b h e = (old, h')"
  shows "hash_inv h' \<and> same_elem h' = same_elem h \<and> old = hash_find h e \<and>
    hash_contents h' = hash_contents h - {x. old = Some x}"
proof (cases "hash_find h e")
  case None
  then show ?thesis using assms by (simp add: hash_delete_def hash_find_def Let_def)
next
  case (Some x)
  then have "x \<in> hash_contents h" using hash_find_ok(1) [OF assms(1)] by blast
  note I = remove_elem_inv [OF assms(1) this]
  note R = hash_inv_rehash [OF I(1) elem_cnt_bound [OF I(1)], of b]
  have "old = Some x" "h' = rehash (remove_elem h x) b"
    using assms(2) Some by (auto simp: hash_delete_def hash_find_def Let_def)
  then show ?thesis using Some I R by auto
qed

lemma hash_replace_ok:
  fixes h :: "u32 hash_table"
  assumes "hash_inv h" "hash_replace b h e = (old, h')"
  shows "hash_inv h' \<and> old = hash_find h e \<and>
    hash_contents h' = insert e (hash_contents h - {x. old = Some x})"
proof -
  have eq: "equivp (same_elem h)" using assms(1) by (simp add: hash_inv_def)
  let ?h = "case hash_find h e of Some x \<Rightarrow> remove_elem h x | None \<Rightarrow> h"
  have I: "hash_inv ?h" "hash_contents ?h = hash_contents h - {x. hash_find h e = Some x}" "same_elem ?h = same_elem h"
    using assms(1) remove_elem_inv [OF assms(1)] hash_find_ok(1) [OF assms(1), of e]
    by (auto split: option.splits)
  have "\<not> same_elem ?h x e" if x: "x \<in> hash_contents ?h" for x
  proof
    assume s: "same_elem ?h x e"
    then obtain y where y: "hash_find h e = Some y"
      using hash_find_ok(2) [OF assms(1), of e x] x I(2,3) by (cases "hash_find h e") auto
    then have "y \<in> hash_contents h" "same_elem h y e" using hash_find_ok(1) [OF assms(1)] by blast+
    then have "x = y" using s x I(2,3) assms(1) eq unfolding hash_inv_def by (metis DiffD1 equivp_symp equivp_transp)
    then show False using x y I(2) by simp
  qed
  then have no: "\<forall>x \<in> hash_contents ?h. \<not> same_elem ?h x e" by blast
  note J = insert_elem_inv [OF I(1) no]
  note R = hash_inv_rehash [OF J(1) elem_cnt_bound [OF J(1)], of b]
  have fb: "find_bucket ?h e = find_bucket h e"
    by (simp add: find_bucket_def remove_elem_def split: option.split)
  have "old = hash_find h e" "h' = rehash (insert_elem ?h (find_bucket ?h e) e) b"
    using assms(2) unfolding fb by (auto simp: hash_replace_def hash_find_def Let_def)
  then show ?thesis using J R I by simp
qed

interpretation table: dictionary hash_inv hash_contents same_elem hash_find
    "hash_insert b :: u32 hash_table \<Rightarrow> u32 \<Rightarrow> u32 option \<times> u32 hash_table" "hash_delete b"
  for b
proof
  fix h :: "u32 hash_table" and h' old e x y
  show "hash_inv h \<Longrightarrow> equivp (same_elem h)" by (simp add: hash_inv_def)
  show "hash_inv h \<Longrightarrow> x \<in> hash_contents h \<Longrightarrow> y \<in> hash_contents h \<Longrightarrow> same_elem h x y \<Longrightarrow> x = y"
    by (simp add: hash_inv_def)
  show "hash_inv h \<Longrightarrow> hash_find h e = Some x \<Longrightarrow> x \<in> hash_contents h \<and> same_elem h x e"
    by (rule hash_find_ok)
  show "hash_inv h \<Longrightarrow> hash_find h e = None \<Longrightarrow> x \<in> hash_contents h \<Longrightarrow> \<not> same_elem h x e"
    by (rule hash_find_ok)
  show "hash_inv h \<Longrightarrow> hash_insert b h e = (old, h') \<Longrightarrow> hash_inv h' \<and> same_elem h' = same_elem h \<and>
      old = hash_find h e \<and> hash_contents h' = (if old = None then insert e (hash_contents h) else hash_contents h)"
    by (rule hash_insert_ok)
  show "hash_inv h \<Longrightarrow> hash_delete b h e = (old, h') \<Longrightarrow> hash_inv h' \<and> same_elem h' = same_elem h \<and>
      old = hash_find h e \<and> hash_contents h' = hash_contents h - {x. old = Some x}"
    by (rule hash_delete_ok)
qed

lemma hash_init_inv:
  fixes f :: "'e \<Rightarrow> u32"
  assumes "equivp (\<lambda>x y. \<not> lt x y \<and> \<not> lt y x)" "\<And>x y. \<not> lt x y \<Longrightarrow> \<not> lt y x \<Longrightarrow> f x = f y"
  shows "hash_inv (snd (hash_init f lt True))" "hash_contents (snd (hash_init f lt True)) = {}"
proof -
  have s: "same_elem (snd (hash_init f lt True)) = (\<lambda>x y. \<not> lt x y \<and> \<not> lt y x)"
    by (simp add: hash_init_def hash_clear_def same_elem_def fun_eq_iff)
  have h: "snd (hash_init f lt True) =
      \<lparr>elem_cnt_of = 0, bucket_cnt = 4, buckets = replicate 4 [], hash_fn = f, less_fn = lt\<rparr>"
    by (simp add: hash_init_def hash_clear_def)
  have e: "concat (replicate 4 []) = ([] :: 'e list)" by (simp add: concat_replicate_trivial)
  show c: "hash_contents (snd (hash_init f lt True)) = {}" unfolding hash_contents_def h hash_table.simps e by simp
  have "is_power_of_2 4" by (simp add: is_power_of_2_def turn_off_least_1bit_def)
  then have "placed (snd (hash_init f lt True))" unfolding placed_def h by simp
  then show "hash_inv (snd (hash_init f lt True))"
    unfolding hash_inv_def s c using assms e by (simp add: h)
qed

section \<open>Properties\<close>

text \<open>C9:
  The hash table is a set of elements up to sameness: after an insertion a search finds the new
  element, or the one that was there before, and every other search answers as before; after a
  deletion a search for the same element fails and every other search answers as before. This
  holds whether or not the table could allocate memory to grow or shrink.
\<close>

theorem hash_table_dictionary:
  fixes h :: "u32 hash_table"
  assumes "hash_inv h" and "hash_insert b h e = (old, h')" and "hash_delete c h e = (gone, h'')"
  shows "hash_inv h' \<and> old = hash_find h e \<and>
      hash_find h' f = (if old = None \<and> same_elem h e f then Some e else hash_find h f) \<and>
    hash_inv h'' \<and> gone = hash_find h e \<and>
      hash_find h'' f = (if same_elem h e f then None else hash_find h f)"
  using table.find_after_put [OF assms(1,2)] table.find_after_del [OF assms(1,3)]
    table.put_ok [OF assms(1,2)] table.del_ok [OF assms(1,3)] by blast

definition demo_table :: "u32 hash_table" where
  "demo_table = snd (hash_init (\<lambda>x. x) (<) True)"

lemma hash_table_dictionary_witness:
  "hash_find (snd (hash_insert True demo_table 5)) 5 = Some 5 \<and>
   hash_find (snd (hash_delete False (snd (hash_insert True demo_table 5)) 5)) 5 = None"
proof -
  have "equivp (\<lambda>x y :: u32. \<not> x < y \<and> \<not> y < x)" by (rule equivpI) (auto intro!: reflpI sympI transpI)
  then have inv: "hash_inv demo_table" and c: "hash_contents demo_table = {}"
    using hash_init_inv [of "(<)" "\<lambda>x :: u32. x"] by (auto simp: demo_table_def)
  have n: "hash_find demo_table 5 = None" using hash_find_ok(1) [OF inv] c by (cases "hash_find demo_table 5") auto
  obtain old h' where i: "hash_insert True demo_table 5 = (old, h')" by (cases "hash_insert True demo_table 5")
  obtain g k where d: "hash_delete False demo_table 5 = (g, k)" by (cases "hash_delete False demo_table 5")
  obtain g' h'' where d': "hash_delete False h' 5 = (g', h'')" by (cases "hash_delete False h' 5")
  obtain o2 k2 where i2: "hash_insert True h' 5 = (o2, k2)" by (cases "hash_insert True h' 5")
  have r: "same_elem t 5 5" if "hash_inv t" for t :: "u32 hash_table"
    using table.same_refl [OF that] .
  note H = hash_table_dictionary [OF inv i d, of 5]
  then have H': "hash_find h' 5 = Some 5" "hash_inv h'" using n r [OF inv] by auto
  have "hash_find h'' 5 = None" using hash_table_dictionary [OF H'(2) i2 d', of 5] r [OF H'(2)] by simp
  then show ?thesis using H' i d' by simp
qed

end
