(* ===== verification/Kernel_Stdlib.thy ===== *)
theory Kernel_Stdlib
  imports Kernel_String "HOL-Library.Multiset"
begin

text \<open>
  \<open>lib/stdlib.c\<close> and \<open>lib/ctype.h\<close>: number parsing, heap sort and binary search. An array of
  \<open>cnt\<close> elements of \<open>size\<close> bytes is the list of its bytes, and the comparison function is a
  parameter on the bytes of two elements. The lemmas lift the byte swaps to the elements, show
  that \<open>heapify\<close> restores the heap order, and that both loops of \<open>sort\<close> return.
\<close>

section \<open>Characters\<close>

definition islower :: "int \<Rightarrow> bool" where "islower c \<longleftrightarrow> 97 \<le> c \<and> c \<le> 122"
definition isupper :: "int \<Rightarrow> bool" where "isupper c \<longleftrightarrow> 65 \<le> c \<and> c \<le> 90"
definition isalpha :: "int \<Rightarrow> bool" where "isalpha c \<longleftrightarrow> islower c \<or> isupper c"
definition isdigit :: "int \<Rightarrow> bool" where "isdigit c \<longleftrightarrow> 48 \<le> c \<and> c \<le> 57"
definition isalnum :: "int \<Rightarrow> bool" where "isalnum c \<longleftrightarrow> isalpha c \<or> isdigit c"
definition isxdigit :: "int \<Rightarrow> bool" where
  "isxdigit c \<longleftrightarrow> isdigit c \<or> (97 \<le> c \<and> c \<le> 102) \<or> (65 \<le> c \<and> c \<le> 70)"
definition isspace :: "int \<Rightarrow> bool" where
  "isspace c \<longleftrightarrow> c = 32 \<or> c = 12 \<or> c = 10 \<or> c = 13 \<or> c = 9 \<or> c = 11"
definition isblank :: "int \<Rightarrow> bool" where "isblank c \<longleftrightarrow> c = 32 \<or> c = 9"
definition isgraph :: "int \<Rightarrow> bool" where "isgraph c \<longleftrightarrow> c > 32 \<and> c < 127"
definition isprint :: "int \<Rightarrow> bool" where "isprint c \<longleftrightarrow> c \<ge> 32 \<and> c < 127"
definition iscntrl :: "int \<Rightarrow> bool" where "iscntrl c \<longleftrightarrow> (c \<ge> 0 \<and> c < 32) \<or> c = 127"
definition isascii :: "int \<Rightarrow> bool" where "isascii c \<longleftrightarrow> c \<ge> 0 \<and> c < 128"
definition ispunct :: "int \<Rightarrow> bool" where "ispunct c \<longleftrightarrow> isprint c \<and> \<not> isalnum c \<and> \<not> isspace c"
definition c_tolower :: "int \<Rightarrow> int" where "c_tolower c = (if isupper c then c - 65 + 97 else c)"
definition c_toupper :: "int \<Rightarrow> int" where "c_toupper c = (if islower c then c - 97 + 65 else c)"

section \<open>Numbers\<close>

text \<open>The loops of \<open>atoi\<close>; the value is kept in 32 bits.\<close>

partial_function (option) skip_space :: "memory \<Rightarrow> u32 \<Rightarrow> u32 option" where
  "skip_space m s = (if isspace (uint (m s)) then skip_space m (s + 1) else Some s)"

partial_function (option) parse_digits :: "memory \<Rightarrow> u32 \<Rightarrow> u32 \<Rightarrow> u32 option" where
  "parse_digits m s v =
     (if isdigit (sint (m s)) then parse_digits m (s + 1) (v * 10 - (scast (m s) - 48)) else Some v)"

definition atoi :: "memory \<Rightarrow> u32 \<Rightarrow> u32 option" where
  "atoi m s = do {
     ASSERT (s \<noteq> 0);
     s \<leftarrow> skip_space m s;
     let negative = (m s \<noteq> 43 \<and> m s = 45);
     let s = (if m s = 43 \<or> m s = 45 then s + 1 else s);
     v \<leftarrow> parse_digits m s 0;
     Some (if \<not> negative then - v else v) }"

section \<open>Sorting\<close>

definition array_elem :: "u8 list \<Rightarrow> nat \<Rightarrow> nat \<Rightarrow> u8 list" where
  "array_elem xs sz idx = take sz (drop ((idx - 1) * sz) xs)"

fun do_swap_loop :: "nat \<Rightarrow> u8 list \<Rightarrow> nat \<Rightarrow> nat \<Rightarrow> nat \<Rightarrow> u8 list" where
  "do_swap_loop 0 xs a b i = xs"
| "do_swap_loop (Suc left) xs a b i =
     do_swap_loop left (xs[a + i := xs ! (b + i), b + i := xs ! (a + i)]) a b (i + 1)"

definition do_swap :: "u8 list \<Rightarrow> nat \<Rightarrow> nat \<Rightarrow> nat \<Rightarrow> u8 list" where
  "do_swap xs a_idx b_idx sz = do_swap_loop sz xs ((a_idx - 1) * sz) ((b_idx - 1) * sz) 0"

definition do_compare :: "(u8 list \<Rightarrow> u8 list \<Rightarrow> int) \<Rightarrow> u8 list \<Rightarrow> nat \<Rightarrow> nat \<Rightarrow> nat \<Rightarrow> int" where
  "do_compare cmp xs a_idx b_idx sz = cmp (array_elem xs sz a_idx) (array_elem xs sz b_idx)"

definition max_child :: "(u8 list \<Rightarrow> u8 list \<Rightarrow> int) \<Rightarrow> u8 list \<Rightarrow> nat \<Rightarrow> nat \<Rightarrow> nat \<Rightarrow> nat" where
  "max_child cmp xs i cnt sz =
     (let left = 2 * i;
          right = 2 * i + 1;
          mx = i;
          mx = (if left \<le> cnt \<and> do_compare cmp xs left mx sz > 0 then left else mx)
      in if right \<le> cnt \<and> do_compare cmp xs right mx sz > 0 then right else mx)"

partial_function (option) heapify ::
    "(u8 list \<Rightarrow> u8 list \<Rightarrow> int) \<Rightarrow> u8 list \<Rightarrow> nat \<Rightarrow> nat \<Rightarrow> nat \<Rightarrow> u8 list option" where
  "heapify cmp xs i cnt sz =
     (let mx = max_child cmp xs i cnt sz
      in if mx = i then Some xs else heapify cmp (do_swap xs i mx sz) mx cnt sz)"

primrec build_heap :: "(u8 list \<Rightarrow> u8 list \<Rightarrow> int) \<Rightarrow> nat \<Rightarrow> u8 list \<Rightarrow> nat \<Rightarrow> nat \<Rightarrow> u8 list option" where
  "build_heap cmp 0 xs cnt sz = Some xs"
| "build_heap cmp (Suc i) xs cnt sz = do {
     xs \<leftarrow> heapify cmp xs (Suc i) cnt sz;
     build_heap cmp i xs cnt sz }"

primrec sort_heap :: "(u8 list \<Rightarrow> u8 list \<Rightarrow> int) \<Rightarrow> nat \<Rightarrow> u8 list \<Rightarrow> nat \<Rightarrow> u8 list option" where
  "sort_heap cmp 0 xs sz = Some xs"
| "sort_heap cmp (Suc i) xs sz =
     (if Suc i > 1
      then do {
        xs \<leftarrow> heapify cmp (do_swap xs 1 (Suc i) sz) 1 i sz;
        sort_heap cmp i xs sz }
      else Some xs)"

definition sort_array :: "(u8 list \<Rightarrow> u8 list \<Rightarrow> int) \<Rightarrow> u8 list \<Rightarrow> nat \<Rightarrow> nat \<Rightarrow> u8 list option" where
  "sort_array cmp xs cnt sz = do {
     ASSERT (sz > 0);
     xs \<leftarrow> build_heap cmp (cnt div 2) xs cnt sz;
     sort_heap cmp cnt xs sz }"

definition qsort :: "u8 list \<Rightarrow> nat \<Rightarrow> nat \<Rightarrow> (u8 list \<Rightarrow> u8 list \<Rightarrow> int) \<Rightarrow> u8 list option" where
  "qsort xs cnt sz compare = sort_array compare xs cnt sz"

section \<open>Searching\<close>

text \<open>
  \<open>lo\<close> and \<open>hi\<close> (\<open>first\<close> and \<open>last\<close> in C) are offsets from the start of the array. With elements of size 0 the
  division traps.
\<close>

partial_function (option) search_loop ::
    "(u8 list \<Rightarrow> u8 list \<Rightarrow> int) \<Rightarrow> u8 list \<Rightarrow> u8 list \<Rightarrow> nat \<Rightarrow> nat \<Rightarrow> nat \<Rightarrow> nat option option" where
  "search_loop cmp key xs sz lo hi =
     (if lo < hi
      then do {
        ASSERT (sz > 0);
        let range = (hi - lo) div sz;
        let middle = lo + range div 2 * sz;
        let c = cmp key (take sz (drop middle xs));
        if c < 0 then search_loop cmp key xs sz lo middle
        else if c > 0 then search_loop cmp key xs sz (middle + sz) hi
        else Some (Some middle) }
      else Some None)"

definition binary_search ::
    "u8 list \<Rightarrow> u8 list \<Rightarrow> nat \<Rightarrow> nat \<Rightarrow> (u8 list \<Rightarrow> u8 list \<Rightarrow> int) \<Rightarrow> nat option option" where
  "binary_search key xs cnt sz compare = search_loop compare key xs sz 0 (sz * cnt)"

definition bsearch ::
    "u8 list \<Rightarrow> u8 list \<Rightarrow> nat \<Rightarrow> nat \<Rightarrow> (u8 list \<Rightarrow> u8 list \<Rightarrow> int) \<Rightarrow> nat option option" where
  "bsearch key xs cnt sz compare = binary_search key xs cnt sz compare"

section \<open>Swaps move whole elements\<close>

lemma do_swap_loop_length [simp]: "length (do_swap_loop left xs a b i) = length xs"
  by (induction left xs a b i rule: do_swap_loop.induct) simp_all

lemma do_swap_length [simp]: "length (do_swap xs i j sz) = length xs"
  by (simp add: do_swap_def)

lemma do_swap_loop_nth:
  assumes "a + (i + left) \<le> length xs" "b + (i + left) \<le> length xs"
    "a + (i + left) \<le> b \<or> b + (i + left) \<le> a" "x < length xs"
  shows "do_swap_loop left xs a b i ! x =
    (if a + i \<le> x \<and> x < a + (i + left) then xs ! (b + (x - a))
     else if b + i \<le> x \<and> x < b + (i + left) then xs ! (a + (x - b)) else xs ! x)"
  using assms
proof (induction left arbitrary: xs i)
  case (Suc left)
  let ?ys = "xs[a + i := xs ! (b + i), b + i := xs ! (a + i)]"
  have ne: "a + i \<noteq> b + i" using Suc.prems(3) by auto
  have ys: "?ys ! y = (if y = b + i then xs ! (a + i) else if y = a + i then xs ! (b + i) else xs ! y)"
    if "y < length xs" for y
    using that ne by (simp add: nth_list_update)
  have "do_swap_loop (Suc left) xs a b i ! x =
      (if a + (i + 1) \<le> x \<and> x < a + (i + Suc left) then ?ys ! (b + (x - a))
       else if b + (i + 1) \<le> x \<and> x < b + (i + Suc left) then ?ys ! (a + (x - b)) else ?ys ! x)"
    using Suc.IH [of "i + 1" ?ys] Suc.prems by simp
  then show ?case using ys Suc.prems ne by (auto split: if_splits)
qed auto

lemma block_end: "1 \<le> j \<Longrightarrow> (j - 1) * sz + sz = j * (sz :: nat)"
  by (cases j) simp_all

lemma array_elem_nth:
  "k < sz \<Longrightarrow> 1 \<le> j \<Longrightarrow> j * sz \<le> length xs \<Longrightarrow> array_elem xs sz j ! k = xs ! ((j - 1) * sz + k)"
  using block_end [of j sz] by (simp add: array_elem_def)

lemma block_disjoint:
  assumes "1 \<le> i" "1 \<le> j" "i \<noteq> j"
  shows "(i - 1) * sz + sz \<le> (j - 1) * sz \<or> (j - 1) * sz + sz \<le> (i - 1) * (sz :: nat)"
proof -
  have mono: "p < q \<Longrightarrow> p * sz \<le> (q - 1) * sz" for p q :: nat by (cases q) auto
  show ?thesis
    using assms mono [of i j] mono [of j i] block_end [OF assms(1), of sz] block_end [OF assms(2), of sz] by linarith
qed

lemma array_elem_length: "1 \<le> j \<Longrightarrow> j * sz \<le> length xs \<Longrightarrow> length (array_elem xs sz j) = sz"
  using block_end [of j sz] by (simp add: array_elem_def min_absorb2)

lemma array_elem_swap:
  assumes "1 \<le> i" "1 \<le> j" "1 \<le> k" "i * sz \<le> length xs" "j * sz \<le> length xs" "k * sz \<le> length xs" "i \<noteq> j"
  shows "array_elem (do_swap xs i j sz) sz k =
    (if k = i then array_elem xs sz j else if k = j then array_elem xs sz i else array_elem xs sz k)"
proof (rule nth_equalityI)
  show "length (array_elem (do_swap xs i j sz) sz k) = length (if k = i then array_elem xs sz j
      else if k = j then array_elem xs sz i else array_elem xs sz k)"
    using assms by (simp add: array_elem_length)
next
  fix x
  assume "x < length (array_elem (do_swap xs i j sz) sz k)"
  then have x: "x < sz" using assms by (simp add: array_elem_length)
  define p q r where "p = (i - 1) * sz" and "q = (j - 1) * sz" and "r = (k - 1) * sz"
  have fits: "p + sz \<le> length xs" "q + sz \<le> length xs" "r + sz \<le> length xs"
    using assms block_end by (simp_all add: p_def q_def r_def)
  have pq: "p + sz \<le> q \<or> q + sz \<le> p" using block_disjoint [OF assms(1,2,7)] by (simp add: p_def q_def)
  have rp: "r + sz \<le> p \<or> p + sz \<le> r" if "k \<noteq> i" using block_disjoint [OF assms(3,1) that] by (simp add: p_def r_def)
  have rq: "r + sz \<le> q \<or> q + sz \<le> r" if "k \<noteq> j" using block_disjoint [OF assms(3,2) that] by (simp add: q_def r_def)
  have same: "k = i \<Longrightarrow> r = p" "k = j \<Longrightarrow> r = q" by (simp_all add: p_def q_def r_def)
  have nth: "do_swap xs i j sz ! (r + x) = (if p \<le> r + x \<and> r + x < p + sz then xs ! (q + (r + x - p))
     else if q \<le> r + x \<and> r + x < q + sz then xs ! (p + (r + x - q)) else xs ! (r + x))"
    unfolding do_swap_def p_def [symmetric] q_def [symmetric]
    using do_swap_loop_nth [of p 0 sz xs q "r + x"] fits pq x by simp
  have "do_swap xs i j sz ! (r + x) = (if k = i then xs ! (q + x) else if k = j then xs ! (p + x) else xs ! (r + x))"
  proof (cases "k = i")
    case True
    then show ?thesis unfolding nth using same x by simp
  next
    case False
    note rp = rp [OF False]
    show ?thesis
    proof (cases "k = j")
      case True
      then show ?thesis unfolding nth using False same pq x by auto
    next
      case neq: False
      show ?thesis unfolding nth using False neq rp rq [OF neq] x by auto
    qed
  qed
  then show "array_elem (do_swap xs i j sz) sz k ! x = (if k = i then array_elem xs sz j
      else if k = j then array_elem xs sz i else array_elem xs sz k) ! x"
    using assms x by (simp add: array_elem_nth p_def q_def r_def)
qed

section \<open>The heap\<close>

definition total_compare :: "('e \<Rightarrow> 'e \<Rightarrow> int) \<Rightarrow> bool" where
  "total_compare cmp \<longleftrightarrow> (\<forall>x y. 0 < cmp x y \<longrightarrow> cmp y x \<le> 0) \<and>
     (\<forall>x y z. cmp x y \<le> 0 \<longrightarrow> cmp y z \<le> 0 \<longrightarrow> cmp x z \<le> 0)"

definition elems :: "u8 list \<Rightarrow> nat \<Rightarrow> nat \<Rightarrow> u8 list list" where
  "elems xs sz n = map (array_elem xs sz) [1..<Suc n]"

definition heap_from :: "(u8 list \<Rightarrow> u8 list \<Rightarrow> int) \<Rightarrow> u8 list \<Rightarrow> nat \<Rightarrow> nat \<Rightarrow> nat \<Rightarrow> bool" where
  "heap_from cmp xs sz cnt lo \<longleftrightarrow> (\<forall>j. 2 \<le> j \<longrightarrow> j \<le> cnt \<longrightarrow> lo \<le> j div 2 \<longrightarrow>
     cmp (array_elem xs sz j) (array_elem xs sz (j div 2)) \<le> 0)"

text \<open>The order may be violated below \<open>i\<close> only, and everything below \<open>i\<close> fits under its parent.\<close>

definition heap_hole :: "(u8 list \<Rightarrow> u8 list \<Rightarrow> int) \<Rightarrow> u8 list \<Rightarrow> nat \<Rightarrow> nat \<Rightarrow> nat \<Rightarrow> nat \<Rightarrow> bool" where
  "heap_hole cmp xs sz cnt lo i \<longleftrightarrow>
     (\<forall>j. 2 \<le> j \<longrightarrow> j \<le> cnt \<longrightarrow> lo \<le> j div 2 \<longrightarrow> j div 2 \<noteq> i \<longrightarrow>
       cmp (array_elem xs sz j) (array_elem xs sz (j div 2)) \<le> 0) \<and>
     (lo \<le> i div 2 \<longrightarrow> (\<forall>j. 2 \<le> j \<longrightarrow> j \<le> cnt \<longrightarrow> j div 2 = i \<longrightarrow>
       cmp (array_elem xs sz j) (array_elem xs sz (i div 2)) \<le> 0))"

lemma total_compareD:
  assumes "total_compare cmp"
  shows "0 < cmp x y \<Longrightarrow> cmp y x \<le> 0" "cmp x y \<le> 0 \<Longrightarrow> cmp y z \<le> 0 \<Longrightarrow> cmp x z \<le> 0" "cmp x x \<le> 0"
  using assms unfolding total_compare_def by (metis linorder_not_le)+

lemma elems_length [simp]: "length (elems xs sz n) = n"
  by (simp add: elems_def)

lemma elems_nth: "k < n \<Longrightarrow> elems xs sz n ! k = array_elem xs sz (k + 1)"
  by (simp add: elems_def del: upt_Suc)

lemma elem_fits: "k \<le> n \<Longrightarrow> length xs = n * sz \<Longrightarrow> k * sz \<le> length (xs :: u8 list)"
  by simp

lemma elems_swap:
  assumes "1 \<le> i" "i \<le> n" "1 \<le> j" "j \<le> n" "i \<noteq> j" "length xs = n * sz"
  shows "mset (elems (do_swap xs i j sz) sz n) = mset (elems xs sz n)"
proof -
  let ?L = "elems xs sz n"
  have "elems (do_swap xs i j sz) sz n = ?L[j - 1 := ?L ! (i - 1), i - 1 := ?L ! (j - 1)]"
  proof (rule nth_equalityI)
    fix k
    assume "k < length (elems (do_swap xs i j sz) sz n)"
    then have k: "k < n" by simp
    have fits: "i * sz \<le> length xs" "j * sz \<le> length xs" "(k + 1) * sz \<le> length xs"
      using k assms elem_fits [of _ n xs sz] by (simp_all only: le_add2 Suc_leI Suc_eq_plus1 [symmetric])
    have "elems (do_swap xs i j sz) sz n ! k = (if k + 1 = i then array_elem xs sz j
        else if k + 1 = j then array_elem xs sz i else array_elem xs sz (k + 1))"
      unfolding elems_nth [OF k] by (rule array_elem_swap [OF assms(1,3) _ fits assms(5)]) simp
    then show "elems (do_swap xs i j sz) sz n ! k = ?L[j - 1 := ?L ! (i - 1), i - 1 := ?L ! (j - 1)] ! k"
      using k assms by (auto simp: nth_list_update elems_nth)
  qed simp
  then show ?thesis using assms by (simp add: mset_swap)
qed

lemma max_child_facts:
  assumes "total_compare cmp" "1 \<le> i" and mx_def: "mx = max_child cmp xs i cnt sz"
  shows "mx = i \<or> (mx div 2 = i \<and> 2 \<le> mx \<and> mx \<le> cnt \<and> i < mx \<and>
      cmp (array_elem xs sz i) (array_elem xs sz mx) \<le> 0)"
    "2 \<le> j \<Longrightarrow> j \<le> cnt \<Longrightarrow> j div 2 = i \<Longrightarrow> cmp (array_elem xs sz j) (array_elem xs sz mx) \<le> 0"
proof -
  let ?e = "array_elem xs sz"
  note T = total_compareD [OF assms(1)]
  define ml where "ml = (if 2 * i \<le> cnt \<and> cmp (?e (2 * i)) (?e i) > 0 then 2 * i else i)"
  have mx: "mx = (if 2 * i + 1 \<le> cnt \<and> cmp (?e (2 * i + 1)) (?e ml) > 0 then 2 * i + 1 else ml)"
    by (simp add: mx_def max_child_def ml_def do_compare_def Let_def)
  have l1: "cmp (?e i) (?e ml) \<le> 0" using T(1) T(3) by (simp add: ml_def)
  have l2: "cmp (?e (2 * i)) (?e ml) \<le> 0" if "2 * i \<le> cnt" using that T(3) by (auto simp: ml_def)
  have l3: "cmp (?e ml) (?e mx) \<le> 0" using T(1) T(3) by (simp add: mx)
  have l4: "cmp (?e (2 * i + 1)) (?e mx) \<le> 0" if "2 * i + 1 \<le> cnt"
    using that T(3) by (cases "cmp (?e (2 * i + 1)) (?e ml) > 0") (auto simp: mx)
  have "mx = i \<or> (mx div 2 = i \<and> 2 \<le> mx \<and> mx \<le> cnt \<and> i < mx)"
    using assms(2) by (auto simp: mx ml_def)
  then show "mx = i \<or> (mx div 2 = i \<and> 2 \<le> mx \<and> mx \<le> cnt \<and> i < mx \<and> cmp (?e i) (?e mx) \<le> 0)"
    using T(2) [OF l1 l3] by blast
  assume j: "2 \<le> j" "j \<le> cnt" "j div 2 = i"
  then have "j = 2 * i \<or> j = 2 * i + 1" by linarith
  then show "cmp (?e j) (?e mx) \<le> 0" using j T(2) [OF l2 l3] l4 by auto
qed

lemma heap_sift:
  assumes T: "total_compare cmp" and i: "1 \<le> i" "1 \<le> lo" "lo \<le> i" "cnt \<le> n" "length xs = n * sz"
    and hole: "heap_hole cmp xs sz cnt lo i" and mx: "max_child cmp xs i cnt sz = mx" "mx \<noteq> i"
  shows "heap_hole cmp (do_swap xs i mx sz) sz cnt lo mx"
proof -
  note D = total_compareD [OF T]
  note M = max_child_facts [OF T i(1) mx(1) [symmetric]]
  let ?e = "array_elem xs sz" and ?f = "array_elem (do_swap xs i mx sz) sz"
  have m: "mx div 2 = i" "2 \<le> mx" "mx \<le> cnt" "i < mx" "cmp (?e i) (?e mx) \<le> 0" using M(1) mx(2) by auto
  have f: "?f k = (if k = i then ?e mx else if k = mx then ?e i else ?e k)" if "1 \<le> k" "k \<le> cnt" for k
    using that m i by (intro array_elem_swap elem_fits [of _ n]) auto
  have H1: "cmp (?e j) (?e (j div 2)) \<le> 0" if "2 \<le> j" "j \<le> cnt" "lo \<le> j div 2" "j div 2 \<noteq> i" for j
    using hole that unfolding heap_hole_def by blast
  have H2: "cmp (?e j) (?e (i div 2)) \<le> 0" if "2 \<le> j" "j \<le> cnt" "j div 2 = i" "lo \<le> i div 2" for j
    using hole that unfolding heap_hole_def by blast
  show ?thesis
    unfolding heap_hole_def
  proof (intro conjI allI impI)
    fix j
    assume j: "2 \<le> j" "j \<le> cnt" "lo \<le> j div 2" "j div 2 \<noteq> mx"
    have "1 \<le> j div 2" "j div 2 \<le> cnt" "j div 2 < j" using j by auto
    then have ff: "?f j = (if j = i then ?e mx else if j = mx then ?e i else ?e j)"
      "?f (j div 2) = (if j div 2 = i then ?e mx else ?e (j div 2))"
      using f [of j] f [of "j div 2"] j by auto
    consider "j div 2 = i" "j = mx" | "j div 2 = i" "j \<noteq> mx" "j \<noteq> i" | "j = i" "j div 2 \<noteq> i" | "j \<noteq> i" "j div 2 \<noteq> i" "j \<noteq> mx"
      using m \<open>j div 2 < j\<close> by auto
    then show "cmp (?f j) (?f (j div 2)) \<le> 0"
    proof cases
      case 1
      then show ?thesis using ff m by auto
    next
      case 2
      then show ?thesis using ff M(2) [of j] j by auto
    next
      case 3
      then show ?thesis using ff H2 [of mx] m j by auto
    next
      case 4
      then show ?thesis using ff H1 [of j] j by auto
    qed
  next
    fix j
    assume lo: "lo \<le> mx div 2" and j: "2 \<le> j" "j \<le> cnt" "j div 2 = mx"
    have "j \<noteq> mx" "j \<noteq> i" using j m by auto
    then show "cmp (?f j) (?f (mx div 2)) \<le> 0"
      using f [of j] f [of i] j m i H1 [of j] by auto
  qed
qed

lemma heapify_ok:
  assumes T: "total_compare cmp" and n: "1 \<le> lo" "cnt \<le> n"
  shows "lo \<le> i \<Longrightarrow> i \<le> cnt \<Longrightarrow> length xs = n * sz \<Longrightarrow> heap_hole cmp xs sz cnt lo i \<Longrightarrow>
    \<exists>ys. heapify cmp xs i cnt sz = Some ys \<and> length ys = n * sz \<and> heap_from cmp ys sz cnt lo \<and>
      mset (elems ys sz n) = mset (elems xs sz n) \<and>
      (\<forall>k. cnt < k \<longrightarrow> k \<le> n \<longrightarrow> array_elem ys sz k = array_elem xs sz k)"
proof (induction "cnt - i" arbitrary: i xs rule: less_induct)
  case less
  let ?mx = "max_child cmp xs i cnt sz"
  have i: "1 \<le> i" using less.prems n by simp
  note M = max_child_facts [OF T i refl]
  show ?case
  proof (cases "?mx = i")
    case True
    have "heap_from cmp xs sz cnt lo"
      using less.prems(4) M(2) True unfolding heap_from_def heap_hole_def by metis
    then show ?thesis using True less.prems by (subst heapify.simps) simp
  next
    case False
    then have m: "i < ?mx" "?mx \<le> cnt" using M(1) by auto
    let ?ys = "do_swap xs i ?mx sz"
    have "heap_hole cmp ?ys sz cnt lo ?mx"
      using less.prems by (intro heap_sift [OF T i n(1) _ n(2)] False) auto
    moreover have dec: "cnt - ?mx < cnt - i" using m by linarith
    ultimately obtain zs where zs: "heapify cmp ?ys ?mx cnt sz = Some zs" "length zs = n * sz"
      "heap_from cmp zs sz cnt lo" "mset (elems zs sz n) = mset (elems ?ys sz n)"
      "\<forall>k. cnt < k \<longrightarrow> k \<le> n \<longrightarrow> array_elem zs sz k = array_elem ?ys sz k"
      using less.hyps [OF dec, of ?ys] m less.prems by auto
    have "array_elem ?ys sz k = array_elem xs sz k" if "cnt < k" "k \<le> n" for k
      using that m i n less.prems array_elem_swap [of i ?mx k sz xs] elem_fits [of _ n xs sz] by auto
    moreover have "mset (elems ?ys sz n) = mset (elems xs sz n)"
      using i m n less.prems by (intro elems_swap) auto
    ultimately show ?thesis using zs False by (subst heapify.simps) (simp add: Let_def)
  qed
qed

section \<open>Both loops\<close>

lemma heap_hole_start: "1 \<le> lo \<Longrightarrow> heap_from cmp xs sz cnt (lo + 1) \<Longrightarrow> heap_hole cmp xs sz cnt lo lo"
  by (auto simp: heap_from_def heap_hole_def)

lemma build_heap_ok:
  assumes T: "total_compare cmp"
  shows "i \<le> cnt \<Longrightarrow> length xs = cnt * sz \<Longrightarrow> heap_from cmp xs sz cnt (i + 1) \<Longrightarrow>
    \<exists>ys. build_heap cmp i xs cnt sz = Some ys \<and> length ys = cnt * sz \<and> heap_from cmp ys sz cnt 1 \<and>
      mset (elems ys sz cnt) = mset (elems xs sz cnt)"
proof (induction i arbitrary: xs)
  case (Suc i)
  then obtain ys where ys: "heapify cmp xs (Suc i) cnt sz = Some ys" "length ys = cnt * sz"
    "heap_from cmp ys sz cnt (i + 1)" "mset (elems ys sz cnt) = mset (elems xs sz cnt)"
    using heapify_ok [OF T _ le_refl, where lo = "Suc i" and i = "Suc i" and cnt = cnt and xs = xs and sz = sz] heap_hole_start [of "Suc i" cmp xs sz cnt]
    by auto
  then show ?case using Suc.IH [of ys] Suc.prems by auto
qed simp

lemma heap_root:
  assumes T: "total_compare cmp" and h: "heap_from cmp xs sz cnt 1" and j: "1 \<le> j" "j \<le> cnt"
  shows "cmp (array_elem xs sz j) (array_elem xs sz 1) \<le> 0"
  using j
proof (induction j rule: less_induct)
  case (less j)
  note D = total_compareD [OF T]
  show ?case
  proof (cases "j = 1")
    case False
    then have "cmp (array_elem xs sz j) (array_elem xs sz (j div 2)) \<le> 0"
      using h less.prems unfolding heap_from_def by auto
    moreover have "cmp (array_elem xs sz (j div 2)) (array_elem xs sz 1) \<le> 0"
      using less.IH [of "j div 2"] less.prems False by auto
    ultimately show ?thesis by (rule D(2))
  qed (use D(3) in simp)
qed

text \<open>The elements from \<open>i\<close> on are in order, and none before them is greater.\<close>

definition sorted_tail :: "(u8 list \<Rightarrow> u8 list \<Rightarrow> int) \<Rightarrow> u8 list \<Rightarrow> nat \<Rightarrow> nat \<Rightarrow> nat \<Rightarrow> bool" where
  "sorted_tail cmp xs sz n i \<longleftrightarrow> (\<forall>j k. 1 \<le> j \<longrightarrow> j \<le> k \<longrightarrow> i < k \<longrightarrow> k \<le> n \<longrightarrow>
     cmp (array_elem xs sz j) (array_elem xs sz k) \<le> 0)"

lemma elems_upto:
  assumes "mset (elems ys sz n) = mset (elems xs sz n)" "i \<le> n"
    "\<forall>k. i < k \<longrightarrow> k \<le> n \<longrightarrow> array_elem ys sz k = array_elem xs sz k" "1 \<le> j" "j \<le> i"
  shows "\<exists>k. 1 \<le> k \<and> k \<le> i \<and> array_elem ys sz j = array_elem xs sz k"
proof -
  have parts: "elems zs sz n = elems zs sz i @ map (array_elem zs sz) [Suc i..<Suc n]" for zs
  proof -
    have "[1..<Suc n] = [1..<Suc i] @ [Suc i..<Suc n]" using assms(2) upt_add_eq_append [of 1 "Suc i" "n - i"] by simp
    then show ?thesis unfolding elems_def by (simp only: map_append)
  qed
  have m: "map (array_elem ys sz) [Suc i..<Suc n] = map (array_elem xs sz) [Suc i..<Suc n]"
    using assms(3) by (intro map_cong refl) auto
  then have "mset (elems ys sz i) = mset (elems xs sz i)"
    using assms(1) unfolding parts mset_append m by (simp only: add_right_cancel)
  then have "set (elems ys sz i) = set (elems xs sz i)" by (rule mset_eq_setD)
  moreover have "array_elem ys sz j \<in> set (elems ys sz i)"
    unfolding elems_def set_map using assms(4,5) by (intro imageI) auto
  ultimately have "array_elem ys sz j \<in> array_elem xs sz ` set [1..<Suc i]" unfolding elems_def set_map by (simp only:)
  then show ?thesis by auto
qed

lemma sort_heap_ok:
  assumes T: "total_compare cmp"
  shows "i \<le> n \<Longrightarrow> length xs = n * sz \<Longrightarrow> heap_from cmp xs sz i 1 \<Longrightarrow> sorted_tail cmp xs sz n i \<Longrightarrow>
    \<exists>ys. sort_heap cmp i xs sz = Some ys \<and> length ys = n * sz \<and> sorted_tail cmp ys sz n 0 \<and>
      mset (elems ys sz n) = mset (elems xs sz n)"
proof (induction i arbitrary: xs)
  case (Suc i)
  note D = total_compareD [OF T]
  show ?case
  proof (cases "i = 0")
    case True
    have "cmp (array_elem xs sz j) (array_elem xs sz k) \<le> 0" if "1 \<le> j" "j \<le> k" "0 < k" "k \<le> n" for j k
      using that Suc.prems(4) True D(3) unfolding sorted_tail_def by (cases "k = 1") auto
    then show ?thesis using True Suc.prems by (simp add: sorted_tail_def)
  next
    case False
    let ?e = "array_elem xs sz" and ?ys = "do_swap xs 1 (Suc i) sz"
    have f: "array_elem ?ys sz k = (if k = 1 then ?e (Suc i) else if k = Suc i then ?e 1 else ?e k)"
      if "1 \<le> k" "k \<le> n" for k
      using that Suc.prems False by (intro array_elem_swap elem_fits [of _ n]) auto
    have "heap_hole cmp ?ys sz i 1 1"
      using Suc.prems(1,3) f unfolding heap_hole_def heap_from_def by auto
    then obtain zs where zs: "heapify cmp ?ys 1 i sz = Some zs" "length zs = n * sz" "heap_from cmp zs sz i 1"
      "mset (elems zs sz n) = mset (elems ?ys sz n)"
      "\<forall>k. i < k \<longrightarrow> k \<le> n \<longrightarrow> array_elem zs sz k = array_elem ?ys sz k"
      using heapify_ok [OF T, where lo = 1 and i = 1 and cnt = i and n = n and xs = ?ys and sz = sz] Suc.prems False by auto
    have ms: "mset (elems ?ys sz n) = mset (elems xs sz n)"
      using Suc.prems False by (intro elems_swap) auto
    have top: "cmp (?e k) (?e 1) \<le> 0" if "1 \<le> k" "k \<le> Suc i" for k
      using heap_root [OF T Suc.prems(3)] that by simp
    have rest: "cmp (?e j) (?e k) \<le> 0" if "1 \<le> j" "j \<le> k" "Suc i < k" "k \<le> n" for j k
      using Suc.prems(4) that unfolding sorted_tail_def by blast
    have "sorted_tail cmp zs sz n i"
      unfolding sorted_tail_def
    proof (intro allI impI)
      fix j k
      assume jk: "1 \<le> j" "j \<le> k" "i < k" "k \<le> n"
      have zk: "array_elem zs sz k = (if k = Suc i then ?e 1 else ?e k)" using zs(5) f [of k] jk False by auto
      show "cmp (array_elem zs sz j) (array_elem zs sz k) \<le> 0"
      proof (cases "j \<le> i")
        case True
        then obtain l where l: "1 \<le> l" "l \<le> i" "array_elem zs sz j = array_elem ?ys sz l"
          using elems_upto [OF zs(4) _ zs(5), of j] jk Suc.prems(1) by auto
        define l' where "l' = (if l = 1 then Suc i else l)"
        have "array_elem zs sz j = ?e l'" "1 \<le> l'" "l' \<le> Suc i"
          using l f [of l] Suc.prems(1) by (auto simp: l'_def)
        then show ?thesis using zk top [of l'] rest [of l' k] jk by auto
      next
        case False
        then have "array_elem zs sz j = (if j = Suc i then ?e 1 else ?e j)"
          using zs(5) f [of j] jk by auto
        then show ?thesis using zk rest [of j k] rest [of 1 k] D(3) jk False by auto
      qed
    qed
    then show ?thesis using Suc.IH [of zs] Suc.prems zs ms False by auto
  qed
qed (simp add: sorted_tail_def)

section \<open>Binary search\<close>

text \<open>Where the key belongs grows with the index: the array is sorted as the key sees it.\<close>

definition search_sorted :: "(u8 list \<Rightarrow> u8 list \<Rightarrow> int) \<Rightarrow> u8 list \<Rightarrow> u8 list \<Rightarrow> nat \<Rightarrow> nat \<Rightarrow> bool" where
  "search_sorted cmp key xs cnt sz \<longleftrightarrow> (\<forall>j < cnt. \<forall>k < cnt. j \<le> k \<longrightarrow>
     (cmp key (take sz (drop (j * sz) xs)) < 0 \<longrightarrow> cmp key (take sz (drop (k * sz) xs)) < 0) \<and>
     (cmp key (take sz (drop (k * sz) xs)) > 0 \<longrightarrow> cmp key (take sz (drop (j * sz) xs)) > 0))"

lemma search_loop_ok:
  assumes "0 < sz" and sorted: "search_sorted cmp key xs cnt sz"
  shows "a \<le> b \<Longrightarrow> b \<le> cnt \<Longrightarrow> (\<forall>k < a. cmp key (take sz (drop (k * sz) xs)) \<noteq> 0) \<Longrightarrow>
    (\<forall>k < cnt. b \<le> k \<longrightarrow> cmp key (take sz (drop (k * sz) xs)) \<noteq> 0) \<Longrightarrow>
    \<exists>r. search_loop cmp key xs sz (a * sz) (b * sz) = Some r \<and>
      (case r of None \<Rightarrow> (\<forall>k < cnt. cmp key (take sz (drop (k * sz) xs)) \<noteq> 0)
       | Some p \<Rightarrow> \<exists>k < cnt. p = k * sz \<and> cmp key (take sz (drop p xs)) = 0)"
proof (induction "b - a" arbitrary: a b rule: less_induct)
  case less
  let ?c = "\<lambda>k. cmp key (take sz (drop (k * sz) xs))"
  show ?case
  proof (cases "a < b")
    case False
    then have "?c k \<noteq> 0" if "k < cnt" for k using less.prems that by (cases "k < a") auto
    then show ?thesis using False less.prems(1) by (subst search_loop.simps) simp
  next
    case True
    let ?k = "a + (b - a) div 2"
    have k: "a \<le> ?k" "?k < b" using True by auto
    have rng: "(b * sz - a * sz) div sz = b - a" using assms(1) by (simp flip: diff_mult_distrib)
    have mid: "a * sz + (b - a) div 2 * sz = ?k * sz" by (simp add: add_mult_distrib)
    have step: "search_loop cmp key xs sz (a * sz) (b * sz) =
        (if ?c ?k < 0 then search_loop cmp key xs sz (a * sz) (?k * sz)
         else if ?c ?k > 0 then search_loop cmp key xs sz ((?k + 1) * sz) (b * sz) else Some (Some (?k * sz)))"
      using True assms(1) by (subst search_loop.simps) (simp add: rng mid Let_def add.commute)
    have srt: "?c j < 0 \<Longrightarrow> j \<le> k \<Longrightarrow> k < cnt \<Longrightarrow> ?c k < 0" "?c k > 0 \<Longrightarrow> j \<le> k \<Longrightarrow> k < cnt \<Longrightarrow> ?c j > 0" for j k
      using sorted unfolding search_sorted_def by (meson le_less_trans)+
    have kc: "?k < cnt" using k less.prems by simp
    consider "?c ?k < 0" | "?c ?k > 0" | "?c ?k = 0" by linarith
    then show ?thesis
    proof cases
      case 1
      have "\<forall>k < cnt. ?k \<le> k \<longrightarrow> ?c k \<noteq> 0" using srt(1) [OF 1] by fastforce
      then show ?thesis using less.hyps [of ?k a] step 1 k less.prems by (simp only:) auto
    next
      case 2
      have "\<forall>k < ?k + 1. ?c k \<noteq> 0"
      proof (intro allI impI)
        fix k
        assume "k < ?k + 1"
        then have "?c k > 0" by (intro srt(2) [OF 2 _ kc]) simp
        then show "?c k \<noteq> 0" by simp
      qed
      moreover have "b - (?k + 1) < b - a" using k by linarith
      ultimately have "\<exists>r. search_loop cmp key xs sz ((?k + 1) * sz) (b * sz) = Some r \<and>
          (case r of None \<Rightarrow> (\<forall>k < cnt. ?c k \<noteq> 0)
           | Some p \<Rightarrow> \<exists>k < cnt. p = k * sz \<and> cmp key (take sz (drop p xs)) = 0)"
        using less.hyps [of b "?k + 1"] k less.prems by auto
      then show ?thesis using step 2 by simp
    next
      case 3
      then show ?thesis using step kc by auto
    qed
  qed
qed

section \<open>Properties\<close>

text \<open>C34:
  \<open>sort\<close> returns, and its result is the elements of the array, each still in one piece, in
  ascending order of the comparison function.
\<close>

theorem sort_array_correct:
  assumes "total_compare cmp" and "0 < sz" and "length xs = cnt * sz"
  shows "\<exists>ys. sort_array cmp xs cnt sz = Some ys \<and> length ys = length xs \<and>
    mset (elems ys sz cnt) = mset (elems xs sz cnt) \<and>
    sorted_wrt (\<lambda>x y. cmp x y \<le> 0) (elems ys sz cnt)"
proof -
  have "heap_from cmp xs sz cnt (cnt div 2 + 1)"
    by (auto simp: heap_from_def dest!: div_le_mono [of _ cnt 2])
  then obtain ys where ys: "build_heap cmp (cnt div 2) xs cnt sz = Some ys" "length ys = cnt * sz"
    "heap_from cmp ys sz cnt 1" "mset (elems ys sz cnt) = mset (elems xs sz cnt)"
    using build_heap_ok [OF assms(1), of "cnt div 2" cnt xs sz] assms(3) by auto
  then obtain zs where zs: "sort_heap cmp cnt ys sz = Some zs" "length zs = cnt * sz"
    "sorted_tail cmp zs sz cnt 0" "mset (elems zs sz cnt) = mset (elems ys sz cnt)"
    using sort_heap_ok [OF assms(1), of cnt cnt ys sz] by (auto simp: sorted_tail_def)
  have "sorted_wrt (\<lambda>x y. cmp x y \<le> 0) (elems zs sz cnt)"
    using zs(3) by (auto simp: sorted_wrt_iff_nth_less elems_nth sorted_tail_def)
  then show ?thesis using ys zs assms by (simp add: sort_array_def)
qed

text \<open>A comparison of single bytes, for the witnesses.\<close>

definition byte_compare :: "u8 list \<Rightarrow> u8 list \<Rightarrow> int" where
  "byte_compare a b = uint (hd a) - uint (hd b)"

lemma sort_array_correct_witness:
  "\<exists>ys. sort_array byte_compare [3, 9, 1, 8, 2, 7] 3 2 = Some ys \<and>
     sorted_wrt (\<lambda>x y. byte_compare x y \<le> 0) (elems ys 2 3)"
proof -
  have "total_compare byte_compare" by (simp add: total_compare_def byte_compare_def)
  then show ?thesis using sort_array_correct [of byte_compare 2 "[3, 9, 1, 8, 2, 7]" 3] by auto
qed

text \<open>C35:
  \<open>bsearch\<close> terminates on an array that is sorted for the key: it returns an element that compares
  equal to the key if there is one, and a null pointer otherwise.
\<close>

theorem bsearch_correct:
  assumes "search_sorted cmp key xs cnt sz" and "0 < sz"
  shows "\<exists>r. bsearch key xs cnt sz cmp = Some r \<and>
    (case r of None \<Rightarrow> (\<forall>k < cnt. cmp key (take sz (drop (k * sz) xs)) \<noteq> 0)
     | Some p \<Rightarrow> \<exists>k < cnt. p = k * sz \<and> cmp key (take sz (drop p xs)) = 0)"
  using search_loop_ok [OF assms(2,1), of 0 cnt] by (simp add: bsearch_def binary_search_def mult.commute)

lemma bsearch_correct_witness:
  "\<exists>r. bsearch [7] [1, 9, 4, 8, 7, 3] 3 2 byte_compare = Some r \<and> r \<noteq> None"
proof -
  have e: "take 2 (drop (k * 2) [1, 9, 4, 8, 7, 3 :: u8]) = [[1, 9], [4, 8], [7, 3]] ! k" if "k < 3" for k
    using that by (auto simp: less_Suc_eq numeral_3_eq_3)
  have "search_sorted byte_compare [7] [1, 9, 4, 8, 7, 3] 3 2"
    unfolding search_sorted_def by (auto simp: e byte_compare_def less_Suc_eq numeral_3_eq_3)
  then obtain r where r: "bsearch [7] [1, 9, 4, 8, 7, 3] 3 2 byte_compare = Some r"
    "case r of None \<Rightarrow> (\<forall>k < 3. byte_compare [7] (take 2 (drop (k * 2) [1, 9, 4, 8, 7, 3])) \<noteq> 0)
     | Some p \<Rightarrow> \<exists>k < 3. p = k * 2 \<and> byte_compare [7] (take 2 (drop p [1, 9, 4, 8, 7, 3])) = 0"
    using bsearch_correct [of byte_compare "[7]" "[1, 9, 4, 8, 7, 3]" 3 2] by auto
  have "byte_compare [7] (take 2 (drop (2 * 2) [1, 9, 4, 8, 7, 3])) = 0" by (simp add: byte_compare_def)
  then show ?thesis using r by (cases r) (auto dest: spec [of _ 2])
qed

end
