(* ===== verification/Kernel_Arithmetic.thy ===== *)
theory Kernel_Arithmetic
  imports Kernel_Prelude
begin

text \<open>
  \<open>lib/arithmetic.c\<close>, the 64-bit division routines that the compiler calls.
  The processor's \<open>divl\<close> traps when the divisor is zero or the quotient does not fit into 32 bits;
  a trap in the kernel stops it, so it is \<^const>\<open>None\<close>.
\<close>

section \<open>Operations\<close>

definition divl :: "u64 \<Rightarrow> u32 \<Rightarrow> u32 option" where
  "divl n d = (if d = 0 \<or> 2 ^ 32 \<le> unat n div unat d then None else Some (of_nat (unat n div unat d)))"

definition nlz :: "u32 \<Rightarrow> nat" where
  "nlz x =
     (let (n, x) = (if x \<le> 0x0000FFFF then (16, push_bit 16 x) else (0, x));
          (n, x) = (if x \<le> 0x00FFFFFF then (n + 8, push_bit 8 x) else (n, x));
          (n, x) = (if x \<le> 0x0FFFFFFF then (n + 4, push_bit 4 x) else (n, x));
          (n, x) = (if x \<le> 0x3FFFFFFF then (n + 2, push_bit 2 x) else (n, x))
      in if x \<le> 0x7FFFFFFF then n + 1 else n)"

definition udiv64 :: "u64 \<Rightarrow> u64 \<Rightarrow> u64 option" where
  "udiv64 n d =
     (if drop_bit 32 d = 0
      then do {
        let b = push_bit 32 1;
        let n1 = (ucast (drop_bit 32 n) :: u32);
        let n0 = (ucast n :: u32);
        let d0 = (ucast d :: u32);
        q \<leftarrow> divl (b * ucast (n1 mod d0) + ucast n0) d0;
        Some (ucast q + b * ucast (n1 div d0)) }
      else if n < d then Some 0
      else do {
        let d1 = (ucast (drop_bit 32 d) :: u32);
        let s = nlz d1;
        q \<leftarrow> divl (drop_bit 1 n) (ucast (drop_bit 32 (push_bit s d)));
        let q = ucast (drop_bit (31 - s) q);
        Some (if n - (q - 1) * d < d then q - 1 else q) })"

definition umod64 :: "u64 \<Rightarrow> u64 \<Rightarrow> u32 option" where
  "umod64 n d = do { q \<leftarrow> udiv64 n d; Some (ucast (n - d * q)) }"

definition sdiv64 :: "u64 \<Rightarrow> u64 \<Rightarrow> u64 option" where
  "sdiv64 n d = do {
     let n_abs = (if 0 \<le>s n then n else - n);
     let d_abs = (if 0 \<le>s d then d else - d);
     q_abs \<leftarrow> udiv64 n_abs d_abs;
     Some (if (n <s 0) = (d <s 0) then q_abs else - q_abs) }"

definition smod64 :: "u64 \<Rightarrow> u64 \<Rightarrow> u32 option" where
  "smod64 n d = do { q \<leftarrow> sdiv64 n d; Some (ucast (n - d * q)) }"

text \<open>The routines that GCC calls; the results of \<open>umod64\<close> and \<open>smod64\<close> are widened again.\<close>

definition divdi3 :: "u64 \<Rightarrow> u64 \<Rightarrow> u64 option" where "divdi3 n d = sdiv64 n d"
definition moddi3 :: "u64 \<Rightarrow> u64 \<Rightarrow> u64 option" where "moddi3 n d = map_option scast (smod64 n d)"
definition udivdi3 :: "u64 \<Rightarrow> u64 \<Rightarrow> u64 option" where "udivdi3 n d = udiv64 n d"
definition umoddi3 :: "u64 \<Rightarrow> u64 \<Rightarrow> u64 option" where "umoddi3 n d = map_option ucast (umod64 n d)"

section \<open>Leading zeros\<close>

lemma unat_u64_lt [simp]: "unat (w :: u64) < 18446744073709551616"
  using unsigned_less [of w, where ?'a = nat] by simp

lemma unat_push_bit:
  "unat (x :: 'a :: len word) * 2 ^ k < 2 ^ LENGTH('a) \<Longrightarrow> unat (push_bit k x) = unat x * 2 ^ k"
  by (simp only: unsigned_push_bit_eq push_bit_eq_mult [of _ "unat x"] take_bit_nat_eq_self)

lemma nlz_step:
  fixes x y :: u32
  assumes "unat y = unat x * 2 ^ n" "2 ^ (32 - 2 * k) \<le> unat y" "lim = 2 ^ (32 - k) - 1" "2 * k \<le> 32" "0 < k"
  defines "r \<equiv> (if y \<le> of_nat lim then (n + k, push_bit k y) else (n, y))"
  shows "unat (snd r) = unat x * 2 ^ fst r \<and> 2 ^ (32 - k) \<le> unat (snd r)"
proof -
  have "(2::nat) ^ (32 - k) \<le> 2 ^ 32" by (rule power_increasing) simp_all
  moreover have one: "(1::nat) \<le> 2 ^ (32 - k)" by simp
  ultimately have lim: "lim < 2 ^ 32" using assms(3) by linarith
  show ?thesis
  proof (cases "y \<le> of_nat lim")
    case True
    have p: "(2::nat) ^ (32 - k) * 2 ^ k = 2 ^ 32" "(2::nat) ^ (32 - 2 * k) * 2 ^ k = 2 ^ (32 - k)"
      using assms(4) by (simp_all flip: power_add)
    from lim have "unat y \<le> lim" using True by (simp add: word_le_nat_alt unat_of_nat)
    then have "unat y < 2 ^ (32 - k)" using assms(3) one by linarith
    then have "unat y * 2 ^ k < 2 ^ (32 - k) * 2 ^ k" by (intro mult_strict_right_mono) simp_all
    then have "unat y * 2 ^ k < 2 ^ 32" unfolding p(1) .
    then have "unat (push_bit k y) = unat y * 2 ^ k" by (intro unat_push_bit) simp
    moreover have "2 ^ (32 - k) \<le> unat y * 2 ^ k" unfolding p(2) [symmetric] by (rule mult_le_mono1 [OF assms(2)])
    ultimately show ?thesis using True assms(1) by (simp add: r_def power_add)
  next
    case False
    from lim have "lim < unat y" using False by (simp add: word_le_nat_alt unat_of_nat)
    then show ?thesis using False assms(1,3) by (simp add: r_def)
  qed
qed

lemma nlz_ok:
  assumes "x \<noteq> 0"
  shows "2 ^ 31 \<le> unat x * 2 ^ nlz x \<and> unat x * 2 ^ nlz x < 2 ^ 32"
proof -
  define r1 where "r1 = (if x \<le> of_nat 65535 then (0 + 16 :: nat, push_bit 16 x) else (0, x))"
  define r2 where "r2 = (if snd r1 \<le> of_nat 16777215 then (fst r1 + 8, push_bit 8 (snd r1)) else (fst r1, snd r1))"
  define r3 where "r3 = (if snd r2 \<le> of_nat 268435455 then (fst r2 + 4, push_bit 4 (snd r2)) else (fst r2, snd r2))"
  define r4 where "r4 = (if snd r3 \<le> of_nat 1073741823 then (fst r3 + 2, push_bit 2 (snd r3)) else (fst r3, snd r3))"
  define r5 where "r5 = (if snd r4 \<le> of_nat 2147483647 then (fst r4 + 1, push_bit 1 (snd r4)) else (fst r4, snd r4))"
  have "1 \<le> unat x" using assms by (simp add: Suc_le_eq unat_gt_0)
  then have 1: "unat (snd r1) = unat x * 2 ^ fst r1 \<and> 2 ^ 16 \<le> unat (snd r1)"
    using nlz_step [of x x 0 16 65535] by (simp add: r1_def)
  then have 2: "unat (snd r2) = unat x * 2 ^ fst r2 \<and> 2 ^ 24 \<le> unat (snd r2)"
    using nlz_step [of "snd r1" x "fst r1" 8 16777215] by (simp add: r2_def)
  then have 3: "unat (snd r3) = unat x * 2 ^ fst r3 \<and> 2 ^ 28 \<le> unat (snd r3)"
    using nlz_step [of "snd r2" x "fst r2" 4 268435455] by (simp add: r3_def)
  then have 4: "unat (snd r4) = unat x * 2 ^ fst r4 \<and> 2 ^ 30 \<le> unat (snd r4)"
    using nlz_step [of "snd r3" x "fst r3" 2 1073741823] by (simp add: r4_def)
  then have 5: "unat (snd r5) = unat x * 2 ^ fst r5 \<and> 2 ^ 31 \<le> unat (snd r5)"
    using nlz_step [of "snd r4" x "fst r4" 1 2147483647] by (simp add: r5_def)
  have "nlz x = fst r5"
    by (simp add: nlz_def r5_def r4_def r3_def r2_def r1_def Let_def split del: if_split cong: if_cong)
      (auto simp: case_prod_beta)
  then show ?thesis using 5 unat_u32_lt [of "snd r5"] by simp
qed

section \<open>The quotient\<close>

text \<open>The estimate of the second branch is the quotient or one more.\<close>

lemma estimate_close:
  fixes n d D :: nat
  assumes "0 < D" "D \<le> d" "n * (d - D) < D * d"
  shows "n div d \<le> n div D" "n div D \<le> n div d + 1"
proof -
  show "n div d \<le> n div D" using assms by (intro div_le_mono2) auto
  have "n < (n div d + 2) * D"
  proof (rule ccontr)
    assume "\<not> ?thesis"
    then have "(n div d + 2) * D * d \<le> n * d" by (simp add: mult_le_mono1)
    moreover have "n < (n div d + 1) * d" using assms(1,2) by (simp add: dividend_less_div_times)
    then have "n * D < (n div d + 1) * d * D" using assms(1) by simp
    moreover have "n * d = n * (d - D) + n * D" using assms(2) by (simp flip: distrib_left)
    ultimately show False using assms(3) by (simp add: algebra_simps)
  qed
  then show "n div D \<le> n div d + 1"
    using assms(1) by (metis add_2_eq_Suc' less_Suc_eq_le less_mult_imp_div_less Suc_eq_plus1)
qed

lemma estimate_bound:
  fixes n d v :: nat
  assumes "2 ^ 31 \<le> v" "v * 2 ^ k \<le> d" "d - v * 2 ^ k < 2 ^ k" "n < 2 ^ 64" "1 \<le> k"
  shows "n * (d - v * 2 ^ k) < v * 2 ^ k * d"
proof (cases "d = v * 2 ^ k")
  case False
  have D: "(2::nat) ^ (31 + k) \<le> v * 2 ^ k" using assms(1) by (simp add: power_add)
  then have low: "2 ^ (31 + k) * 2 ^ (31 + k) \<le> v * 2 ^ k * d" using assms(2) by (meson le_trans mult_le_mono)
  have "n * (d - v * 2 ^ k) < 2 ^ (31 + k) * 2 ^ (31 + k)"
  proof (cases "k = 1")
    case True
    then have "n * (d - v * 2 ^ k) \<le> n * 1" using assms(3) by (intro mult_le_mono2) simp
    then have "n * (d - v * 2 ^ k) < 2 ^ 64" using assms(4) by linarith
    then show ?thesis using True by simp
  next
    case k: False
    have "n * (d - v * 2 ^ k) < 2 ^ 64 * 2 ^ k" using assms(3,4) False assms(2) by (intro mult_strict_mono) auto
    also have "\<dots> = 2 ^ (64 + k)" by (simp add: power_add)
    also have "(2::nat) ^ (64 + k) \<le> 2 ^ ((31 + k) + (31 + k))" using assms(5) k by (intro power_increasing) auto
    also have "\<dots> = 2 ^ (31 + k) * 2 ^ (31 + k)" by (rule power_add)
    finally show ?thesis .
  qed
  then show ?thesis using low by (rule less_le_trans)
qed (use assms in auto)

lemma unat_of_nat_word: "of_nat (unat w) = (w :: 'a :: len word)"
  by simp

lemma unat_drop_bit: "unat (drop_bit j (w :: 'a :: len word)) = unat w div 2 ^ j"
  by (simp only: unsigned_drop_bit_eq take_bit_nat_eq_self [OF unsigned_less] drop_bit_eq_div [of _ "unat w"])

lemma unat_widen: "unat (ucast (w :: u32) :: u64) = unat w"
  by (simp add: unsigned_ucast_eq take_bit_nat_eq_self less_trans [OF unat_u32_lt])

lemma div_by_digits:
  fixes N b D :: nat
  assumes "0 < D"
  shows "N div D = (b * (N div b mod D) + N mod b) div D + b * (N div b div D)"
proof -
  define A where "A = N div b"
  define R where "R = N mod b"
  have N: "N = b * A + R" by (simp add: A_def R_def)
  have "A = A mod D + A div D * D" by simp
  then have "b * A = b * (A mod D) + b * (A div D) * D" by (metis distrib_left mult.assoc)
  then have "N = b * (A mod D) + R + b * (A div D) * D" using N by simp
  then have "N div D = (b * (A mod D) + R + b * (A div D) * D) div D" by (rule arg_cong)
  also have "\<dots> = b * (A div D) + (b * (A mod D) + R) div D" by (rule div_mult_self1) (use assms in simp)
  finally show ?thesis by (simp add: A_def R_def)
qed

lemma udiv64_small:
  assumes "d \<noteq> 0" "unat d < 2 ^ 32"
  shows "udiv64 n d = Some (of_nat (unat n div unat d))"
proof -
  let ?N = "unat n" and ?D = "unat d" and ?b = "(2::nat) ^ 32"
  let ?n1 = "ucast (drop_bit 32 n) :: u32" and ?n0 = "ucast n :: u32" and ?d0 = "ucast d :: u32"
  have D: "0 < ?D" using assms(1) by (simp add: unat_gt_0)
  have l: "?N div ?b < ?b" using unat_u64_lt [of n] by (intro less_mult_imp_div_less) simp
  have n1: "unat ?n1 = ?N div ?b" and n0: "unat ?n0 = ?N mod ?b" and d0: "unat ?d0 = ?D"
    using assms(2) l
    by (simp_all add: unsigned_ucast_eq unsigned_drop_bit_eq take_bit_eq_mod drop_bit_eq_div unat_div)
  have hi: "drop_bit 32 d = 0"
    using assms(2) by (simp flip: unat_eq_0 add: unsigned_drop_bit_eq drop_bit_eq_div unat_div)
  let ?m = "?b * (?N div ?b mod ?D) + ?N mod ?b"
  have "?N div ?b mod ?D + 1 \<le> ?D" using D by (simp add: Suc_leI)
  then have "?b * (?N div ?b mod ?D + 1) \<le> ?b * ?D" by (rule mult_le_mono2)
  then have mb: "?m < ?b * ?D" using mod_less_divisor [of ?b ?N] by (simp add: algebra_simps)
  then have m64: "?m < 2 ^ 64" using assms(2) by simp
  have "unat (ucast (?n1 mod ?d0) :: u64) = ?N div ?b mod ?D"
    by (simp only: unat_widen unat_mod n1 d0)
  moreover have "unat (ucast ?n0 :: u64) = ?N mod ?b"
    by (simp only: unat_widen n0)
  ultimately have m: "unat (push_bit 32 1 * ucast (?n1 mod ?d0) + ucast ?n0 :: u64) = ?m"
    using m64 by (simp add: unat_word_ariths push_bit_eq_mult)
  have q: "?m div ?D < ?b" using mb D by (simp add: less_mult_imp_div_less)
  then have "divl (push_bit 32 1 * ucast (?n1 mod ?d0) + ucast ?n0) ?d0 = Some (of_nat (?m div ?D))"
    using D d0 m assms(1) by (auto simp: divl_def simp flip: unat_eq_0)
  then have u: "udiv64 n d = Some (ucast (of_nat (?m div ?D) :: u32) + push_bit 32 1 * ucast (?n1 div ?d0))"
    using hi by (simp add: udiv64_def Let_def)
  have eq: "?N div ?D = ?m div ?D + ?b * (?N div ?b div ?D)"
    by (rule div_by_digits [OF D])
  have "(ucast (of_nat (?m div ?D) :: u32) :: u64) = of_nat (?m div ?D)"
    using q by (simp add: unsigned_of_nat take_bit_nat_eq_self)
  moreover have "(ucast (?n1 div ?d0) :: u64) = of_nat (?N div ?b div ?D)"
  proof (simp only: word_unat_eq_iff unat_widen unat_div n1 d0)
    have "?N div ?b div ?D < 2 ^ 64" by (rule le_less_trans [OF div_le_dividend less_trans [OF l]]) simp
    then show "?N div ?b div ?D = unat (of_nat (?N div ?b div ?D) :: u64)"
      by (simp add: unat_of_nat)
  qed
  ultimately show ?thesis using u eq by (simp add: push_bit_eq_mult)
qed

text \<open>The divisor shifted until its highest bit is set.\<close>

lemma normalise:
  fixes d :: u64
  assumes "2 ^ 32 \<le> unat d"
  defines "d1 \<equiv> ucast (drop_bit 32 d) :: u32"
  defines "s \<equiv> nlz d1"
  defines "k \<equiv> 32 - s"
  shows "d1 \<noteq> 0" "s \<le> 31" "unat (ucast (drop_bit 32 (push_bit s d)) :: u32) = unat d div 2 ^ k"
    "2 ^ 31 \<le> unat d div 2 ^ k"
proof -
  let ?D = "unat d"
  define v where "v = ?D div 2 ^ k"
  have d1: "unat d1 = ?D div 2 ^ 32"
  proof -
    have "?D div 2 ^ 32 < 2 ^ 32" using unat_u64_lt [of d] by (intro less_mult_imp_div_less) simp
    then show ?thesis by (simp add: d1_def unsigned_ucast_eq take_bit_nat_eq_self unat_div drop_bit_eq_div)
  qed
  have "1 \<le> ?D div 2 ^ 32" using div_le_mono [OF assms(1), of "2 ^ 32"] by simp
  then show d0: "d1 \<noteq> 0" using d1 by auto
  from nlz_ok [OF this] have s: "2 ^ 31 \<le> ?D div 2 ^ 32 * 2 ^ s" "?D div 2 ^ 32 * 2 ^ s < 2 ^ 32"
    by (simp_all add: s_def d1)
  show s31: "s \<le> 31"
  proof (rule ccontr)
    assume "\<not> s \<le> 31"
    then have "(2::nat) ^ 32 \<le> 2 ^ s" by (intro power_increasing) simp_all
    then show False using s(2) mult_le_mono [OF \<open>1 \<le> ?D div 2 ^ 32\<close>, of "2 ^ 32" "2 ^ s"] by simp
  qed
  have p: "(2::nat) ^ 32 = 2 ^ k * 2 ^ s" using s31 by (simp add: k_def flip: power_add)
  have "(?D div 2 ^ 32 + 1) * 2 ^ s \<le> 2 ^ 32"
  proof -
    have "?D div 2 ^ 32 * 2 ^ s < 2 ^ k * 2 ^ s" using s(2) p by simp
    then have "?D div 2 ^ 32 + 1 \<le> 2 ^ k" by simp
    then show ?thesis unfolding p by (rule mult_le_mono1)
  qed
  moreover have "?D < (?D div 2 ^ 32 + 1) * 2 ^ 32" using dividend_less_div_times [of "2 ^ 32" ?D] by simp
  then have "?D * 2 ^ s < (?D div 2 ^ 32 + 1) * 2 ^ 32 * 2 ^ s" by simp
  ultimately have fit: "?D * 2 ^ s < 2 ^ 64" by (simp add: algebra_simps)
  have "unat (drop_bit 32 (push_bit s d)) = ?D * 2 ^ s div 2 ^ 32"
    using fit by (simp add: unat_div drop_bit_eq_div unat_push_bit)
  also have "\<dots> = v" unfolding v_def p by simp
  finally have vs: "unat (drop_bit 32 (push_bit s d)) = v" .
  show vb: "2 ^ 31 \<le> ?D div 2 ^ k"
  proof -
    have "?D div 2 ^ 32 * 2 ^ s = ?D div 2 ^ 32 * 2 ^ 32 div 2 ^ k" unfolding p by simp
    also have "\<dots> \<le> ?D div 2 ^ k" by (rule div_le_mono) simp
    finally show ?thesis using s(1) by linarith
  qed
  show "unat (ucast (drop_bit 32 (push_bit s d)) :: u32) = ?D div 2 ^ k"
  proof -
    have "v < 2 ^ 32" unfolding vs [symmetric] using unat_u64_lt [of "push_bit s d"]
      by (simp add: unat_div drop_bit_eq_div less_mult_imp_div_less)
    then show ?thesis unfolding v_def [symmetric] using vs by (simp only: unsigned_ucast_eq take_bit_nat_eq_self) (simp add: take_bit_nat_eq_self)
  qed
qed

lemma udiv64_large:
  assumes "2 ^ 32 \<le> unat d" "unat d \<le> unat n"
  shows "udiv64 n d = Some (of_nat (unat n div unat d))"
proof -
  let ?N = "unat n" and ?D = "unat d"
  define d1 where "d1 = (ucast (drop_bit 32 d) :: u32)"
  define s where "s = nlz d1"
  define k where "k = 32 - s"
  define v where "v = ?D div 2 ^ k"
  note norm = normalise [OF assms(1), folded d1_def, folded s_def, folded k_def, folded v_def]
  note d1 = norm(1) and s31 = norm(2) and vu = norm(3) and vb = norm(4)
  have p: "(2::nat) ^ k = 2 * 2 ^ (31 - s)" using s31 by (simp add: k_def flip: power_Suc)
  let ?Q = "?N div ?D" and ?v = "v * 2 ^ k"
  have vD: "?v \<le> ?D" "?D - ?v < 2 ^ k"
    unfolding v_def by (simp_all add: minus_div_mult_eq_mod)
  have close: "?Q \<le> ?N div ?v" "?N div ?v \<le> ?Q + 1"
  proof -
    have "0 < ?v" using vb by simp
    moreover have "?N * (?D - ?v) < ?v * ?D" by (rule estimate_bound [OF vb vD, of ?N]) (use s31 k_def in simp_all)
    ultimately show "?Q \<le> ?N div ?v" "?N div ?v \<le> ?Q + 1" using estimate_close vD(1) by blast+
  qed
  have "?N div 2 div v < 2 ^ 32"
  proof (rule less_mult_imp_div_less)
    have "2 ^ 32 * 2 ^ 31 \<le> 2 ^ 32 * v" using vb by (rule mult_le_mono2)
    moreover have "?N div 2 < 2 ^ 63" using unat_u64_lt [of n] by (intro less_mult_imp_div_less) simp
    ultimately show "?N div 2 < 2 ^ 32 * v" by simp
  qed
  then have q: "divl (drop_bit 1 n) (ucast (drop_bit 32 (push_bit s d))) = Some (of_nat (?N div 2 div v))"
    using vb vu by (auto simp: divl_def unat_div drop_bit_eq_div simp flip: unat_eq_0)
  let ?q = "ucast (drop_bit (31 - s) (of_nat (?N div 2 div v) :: u32)) :: u64"
  have qu: "unat ?q = ?N div ?v"
  proof -
    have "unat ?q = ?N div 2 div v div 2 ^ (31 - s)"
      using \<open>?N div 2 div v < 2 ^ 32\<close> by (simp only: unat_widen unat_drop_bit unat_of_nat_small)
    also have "\<dots> = ?N div ?v" unfolding p by (simp only: div_mult2_eq [symmetric] ac_simps)
    finally show ?thesis .
  qed
  have "1 \<le> ?Q" using div_le_mono [OF assms(2), of ?D] assms(1) by simp
  then have q1: "unat (?q - 1) = ?N div ?v - 1" using close(1) qu by (subst unat_minus_one) auto
  let ?r = "?N div ?v - 1"
  have "?r * ?D \<le> ?Q * ?D" using close(2) by (intro mult_le_mono1) simp
  then have rD: "?r * ?D \<le> ?N" using div_times_less_eq_dividend [of ?N ?D] by linarith
  then have "?r * ?D < 2 ^ 64" by (rule le_less_trans) simp
  then have "unat ((?q - 1) * d) = ?r * ?D" by (simp only: unat_word_ariths q1) simp
  then have rem: "unat (n - (?q - 1) * d) = ?N - ?r * ?D"
    using rD by (subst unat_sub) (simp_all only: word_le_nat_alt)
  have "(if n - (?q - 1) * d < d then ?q - 1 else ?q) = of_nat ?Q"
  proof (cases "?N div ?v = ?Q")
    case True
    have "?N - ?r * ?D = ?N mod ?D + ?D" using True \<open>1 \<le> ?Q\<close>
      by (simp add: diff_mult_distrib minus_div_mult_eq_mod [symmetric] div_times_less_eq_dividend) 
    then have "\<not> n - (?q - 1) * d < d" using rem by (simp only: word_less_nat_alt)
    then show ?thesis using qu True by (simp only: if_False) (metis unat_of_nat_word)
  next
    case False
    then have "?N div ?v = ?Q + 1" using close by simp
    then have r: "?r = ?Q" by simp
    then have "n - (?q - 1) * d < d"
      using rem assms(1) by (simp only: word_less_nat_alt) (simp add: minus_div_mult_eq_mod)
    moreover have "?q - 1 = of_nat ?Q" using q1 r by (metis unat_of_nat_word)
    ultimately show ?thesis by (simp only: if_True)
  qed
  moreover have "drop_bit 32 d \<noteq> 0" using d1 by (auto simp: d1_def)
  moreover have "\<not> n < d" using assms(2) by (simp add: word_less_nat_alt)
  ultimately show ?thesis using q by (simp only: udiv64_def Let_def d1_def s_def if_False) (simp flip: d1_def s_def)
qed

lemma udiv64_ok: "d \<noteq> 0 \<Longrightarrow> udiv64 n d = Some (n div d)"
proof -
  assume d: "d \<noteq> 0"
  have "udiv64 n d = Some (of_nat (unat n div unat d))"
  proof (cases "unat d < 2 ^ 32")
    case True
    then show ?thesis by (rule udiv64_small [OF d])
  next
    case False
    then have big: "2 ^ 32 \<le> unat d" by simp
    show ?thesis
    proof (cases "unat d \<le> unat n")
      case True
      then show ?thesis by (rule udiv64_large [OF big])
    next
      case less: False
      have "drop_bit 32 d \<noteq> 0" using normalise(1) [OF big] by auto
      then show ?thesis using less by (simp add: udiv64_def word_less_nat_alt)
    qed
  qed
  then show ?thesis by (simp add: word_arith_nat_div)
qed

section \<open>Properties\<close>

text \<open>C14:
  The unsigned 64-bit division, pieced together from the processor's 64-by-32-bit division, never
  traps for a nonzero divisor and returns the exact quotient.
\<close>

theorem udivdi3_correct:
  assumes "d \<noteq> 0"
  shows "\<exists>q. udivdi3 n d = Some q \<and> unat q = unat n div unat d"
  using udiv64_ok [OF assms, of n] by (simp add: udivdi3_def unat_div)

lemma udivdi3_correct_witness:
  "\<exists>q. udivdi3 0xffffffffffffffff 0x123456789 = Some q \<and> unat q = 18446744073709551615 div 4886718345"
  using udivdi3_correct [of "0x123456789" "0xffffffffffffffff"] by simp

text \<open>The unsigned 64-bit remainder is cut to 32 bits on its way out, so it is right exactly when the
  remainder fits into 32 bits, which fails for divisors above 2 to the 32.
\<close>

theorem umoddi3_truncates:
  assumes "d \<noteq> 0"
  shows "\<exists>r. umoddi3 n d = Some r \<and> unat r = unat n mod unat d mod 2 ^ 32 \<and>
    (unat r = unat n mod unat d \<longleftrightarrow> unat n mod unat d < 2 ^ 32)"
proof -
  have "n - d * (n div d) = n mod d" by (metis add_diff_cancel_left' mult_div_mod_eq)
  then have r: "umoddi3 n d = Some (ucast (ucast (n mod d) :: u32))"
    using udiv64_ok [OF assms, of n] by (simp add: umoddi3_def umod64_def)
  have "unat (ucast (ucast (n mod d) :: u32) :: u64) = unat n mod unat d mod 2 ^ 32"
    by (simp only: unat_widen) (simp add: unsigned_ucast_eq take_bit_eq_mod unat_mod)
  then show ?thesis using r by (metis (no_types, lifting) mod_less mod_less_divisor zero_less_numeral zero_less_power)
qed

lemma umoddi3_truncates_witness:
  "\<exists>r. umoddi3 0x100000000 0x200000000 = Some r \<and> unat r = 0"
  using umoddi3_truncates [of "0x200000000" "0x100000000"] by auto

end
