(* ===== verification/Kernel_Printf.thy ===== *)
theory Kernel_Printf
  imports Kernel_Stdlib Kernel_Arithmetic
begin

text \<open>
  Formatted output, \<open>lib/stdio.c\<close>. The format is the list of characters of a C string, the
  characters that are handed to the output function are the result. The variable arguments are a
  list of \<open>arg\<close>s; reading one at a type it does not have is undefined behaviour, and so is reading
  behind the end of the format, and both are \<^const>\<open>None\<close>. A \<open>double\<close> stands for what the
  floating-point unit computes from it: its integer part, its sign, and its scaled fraction.
  Widths and precisions are unbounded integers.
\<close>

datatype arg =
    Arg32 u32
  | Arg64 u64
  | ArgString "string option"
  | ArgDouble int bool "nat \<Rightarrow> int"

datatype conversion_type = T_CHAR | T_SHORT | T_INT | T_INTMAX | T_LONG | T_LONGLONG | T_PTRDIFFT | T_SIZET

record printf_conversion =
  flags :: u8
  width :: int
  precision :: int
  conv_type :: conversion_type

record integer_base =
  ib_base :: nat
  ib_digits :: string
  ib_x :: "char option"
  ib_group :: nat

definition MINUS :: u8 where "MINUS = 1"
definition PLUS :: u8 where "PLUS = 2"
definition SPACE :: u8 where "SPACE = 4"
definition POUND :: u8 where "POUND = 8"
definition ZERO :: u8 where "ZERO = 16"
definition GROUP :: u8 where "GROUP = 32"

definition DEFAULT_FLOAT_PRECISION :: int where "DEFAULT_FLOAT_PRECISION = 6"
definition MAX_FLOAT_PRECISION :: int where "MAX_FLOAT_PRECISION = 9"

definition base_d :: integer_base where
  "base_d = \<lparr>ib_base = 10, ib_digits = ''0123456789'', ib_x = None, ib_group = 3\<rparr>"
definition base_o :: integer_base where
  "base_o = \<lparr>ib_base = 8, ib_digits = ''01234567'', ib_x = None, ib_group = 3\<rparr>"
definition base_x :: integer_base where
  "base_x = \<lparr>ib_base = 16, ib_digits = ''0123456789abcdef'', ib_x = Some (CHR ''x''), ib_group = 4\<rparr>"
definition base_X :: integer_base where
  "base_X = \<lparr>ib_base = 16, ib_digits = ''0123456789ABCDEF'', ib_x = Some (CHR ''X''), ib_group = 4\<rparr>"

section \<open>Conversion specifications\<close>

definition flag_of :: "char \<Rightarrow> u8" where
  "flag_of ch = (if ch = CHR ''-'' then MINUS else if ch = CHR ''+'' then PLUS
     else if ch = CHR '' '' then SPACE else if ch = CHR ''#'' then POUND
     else if ch = CHR ''0'' then ZERO else if ch = CHR 0x27 then GROUP else 0)"

fun parse_flags :: "string \<Rightarrow> u8 \<Rightarrow> string \<times> u8" where
  "parse_flags [] fl = ([], fl)"
| "parse_flags (ch # rest) fl = (if flag_of ch = 0 then (ch # rest, fl) else parse_flags rest (fl OR flag_of ch))"

fun parse_number :: "string \<Rightarrow> int \<Rightarrow> string \<times> int" where
  "parse_number [] n = ([], n)"
| "parse_number (ch # rest) n = (if isdigit (of_char ch) then parse_number rest (n * 10 + of_char ch - 48) else (ch # rest, n))"

definition int_arg :: "arg list \<Rightarrow> (u32 \<times> arg list) option" where
  "int_arg args = (case args of Arg32 w # rest \<Rightarrow> Some (w, rest) | _ \<Rightarrow> None)"

definition long_arg :: "arg list \<Rightarrow> (u64 \<times> arg list) option" where
  "long_arg args = (case args of Arg64 w # rest \<Rightarrow> Some (w, rest) | _ \<Rightarrow> None)"

text \<open>A width or a precision: a star takes it from the arguments.\<close>

definition parse_star :: "string \<Rightarrow> arg list \<Rightarrow> (string \<times> int \<times> arg list) option" where
  "parse_star format args =
     (case format of
        ch # rest \<Rightarrow> (if ch = CHR ''*'' then do { (w, args) \<leftarrow> int_arg args; Some (rest, sint w, args) }
          else (let (format, n) = parse_number format 0 in Some (format, n, args)))
      | [] \<Rightarrow> Some ([], 0, args))"

definition parse_precision :: "string \<Rightarrow> arg list \<Rightarrow> (string \<times> int \<times> arg list) option" where
  "parse_precision format args =
     (case format of
        ch # rest \<Rightarrow> (if ch = CHR ''.'' then do {
             (format, p, args) \<leftarrow> parse_star rest args;
             Some (format, if p < 0 then -1 else p, args) }
           else Some (format, -1, args))
      | [] \<Rightarrow> Some ([], -1, args))"

definition parse_type :: "string \<Rightarrow> string \<times> conversion_type" where
  "parse_type format =
     (case format of [] \<Rightarrow> ([], T_INT)
      | ch # rest \<Rightarrow>
        if ch = CHR ''h'' then (case rest of ch2 # rest2 \<Rightarrow> if ch2 = CHR ''h'' then (rest2, T_CHAR) else (rest, T_SHORT)
          | [] \<Rightarrow> (rest, T_SHORT))
        else if ch = CHR ''j'' then (rest, T_INTMAX)
        else if ch = CHR ''l'' then (case rest of ch2 # rest2 \<Rightarrow> if ch2 = CHR ''l'' then (rest2, T_LONGLONG) else (rest, T_LONG)
          | [] \<Rightarrow> (rest, T_LONG))
        else if ch = CHR ''t'' then (rest, T_PTRDIFFT)
        else if ch = CHR ''z'' then (rest, T_SIZET)
        else (format, T_INT))"

definition parse_conversion :: "string \<Rightarrow> arg list \<Rightarrow> (string \<times> printf_conversion \<times> arg list) option" where
  "parse_conversion format args = do {
     let (format, fl) = parse_flags format 0;
     let fl = (if fl AND MINUS \<noteq> 0 then fl AND NOT ZERO else fl);
     let fl = (if fl AND PLUS \<noteq> 0 then fl AND NOT SPACE else fl);
     (format, w, args) \<leftarrow> parse_star format args;
     let (fl, w) = (if w < 0 then (fl OR MINUS, - w) else (fl, w));
     (format, prec, args) \<leftarrow> parse_precision format args;
     let fl = (if prec \<ge> 0 then fl AND NOT ZERO else fl);
     let (format, ty) = parse_type format;
     Some (format, \<lparr>flags = fl, width = w, precision = prec, conv_type = ty\<rparr>, args) }"

section \<open>Integers and strings\<close>

text \<open>The buffer is filled from the last digit on.\<close>

function digits_loop :: "integer_base \<Rightarrow> bool \<Rightarrow> nat \<Rightarrow> nat \<Rightarrow> string \<Rightarrow> string" where
  "digits_loop b grouping v digit_cnt buf =
     (if v = 0 \<or> ib_base b < 2 then buf
      else digits_loop b grouping (v div ib_base b) (digit_cnt + 1)
        (buf @ (if grouping \<and> digit_cnt > 0 \<and> digit_cnt mod ib_group b = 0 then '','' else [])
           @ [ib_digits b ! (v mod ib_base b)]))"
  by auto
termination
  by (relation "measure (\<lambda>(b, g, v, n, buf). v)") auto

definition output_dup :: "char \<Rightarrow> int \<Rightarrow> string" where
  "output_dup ch cnt = replicate (nat cnt) ch"

definition format_integer :: "nat \<Rightarrow> bool \<Rightarrow> bool \<Rightarrow> integer_base \<Rightarrow> printf_conversion \<Rightarrow> string" where
  "format_integer v is_signed negative b c =
     (let has = (\<lambda>f. flags c AND f \<noteq> 0);
          sign = (if is_signed
             then (if has PLUS then (if negative then ''-'' else ''+'')
                   else if has SPACE then (if negative then ''-'' else '' '')
                   else if negative then ''-'' else [])
             else []);
          x = (if has POUND \<and> v \<noteq> 0 then ib_x b else None);
          buf = digits_loop b (has GROUP) v 0 [];
          prec = (if precision c < 0 then 1 else precision c);
          buf = buf @ replicate (min (nat prec) 63 - length buf) (CHR ''0'');
          buf = (if has POUND \<and> ib_base b = 8 \<and> (buf = [] \<or> last buf \<noteq> CHR ''0'') then buf @ ''0'' else buf);
          pad_cnt = width c - int (length buf) - (if x \<noteq> None then 2 else 0) - int (length sign);
          pad_cnt = (if pad_cnt < 0 then 0 else pad_cnt)
      in (if flags c AND (MINUS OR ZERO) = 0 then output_dup (CHR '' '') pad_cnt else []) @
         sign @
         (case x of Some ch \<Rightarrow> [CHR ''0'', ch] | None \<Rightarrow> []) @
         (if has ZERO then output_dup (CHR ''0'') pad_cnt else []) @
         rev buf @
         (if has MINUS then output_dup (CHR '' '') pad_cnt else []))"

definition format_string :: "string \<Rightarrow> printf_conversion \<Rightarrow> string" where
  "format_string s c =
     (let n = int (length s) in
      (if width c > n \<and> flags c AND MINUS = 0 then output_dup (CHR '' '') (width c - n) else []) @
      s @
      (if width c > n \<and> flags c AND MINUS \<noteq> 0 then output_dup (CHR '' '') (width c - n) else []))"

section \<open>The conversions\<close>

definition signed_arg :: "conversion_type \<Rightarrow> arg list \<Rightarrow> (int \<times> arg list) option" where
  "signed_arg ty args =
     (case ty of
        T_CHAR \<Rightarrow> map_option (\<lambda>(w, r). (sint (ucast w :: u8), r)) (int_arg args)
      | T_SHORT \<Rightarrow> map_option (\<lambda>(w, r). (sint (ucast w :: u16), r)) (int_arg args)
      | T_INT \<Rightarrow> map_option (\<lambda>(w, r). (sint w, r)) (int_arg args)
      | T_INTMAX \<Rightarrow> map_option (\<lambda>(w, r). (sint w, r)) (long_arg args)
      | T_LONG \<Rightarrow> map_option (\<lambda>(w, r). (sint w, r)) (int_arg args)
      | T_LONGLONG \<Rightarrow> map_option (\<lambda>(w, r). (sint w, r)) (long_arg args)
      | T_PTRDIFFT \<Rightarrow> map_option (\<lambda>(w, r). (sint w, r)) (int_arg args)
      | T_SIZET \<Rightarrow> map_option (\<lambda>(w, r). (if uint w > 0xffffffff div 2 then uint w - 0xffffffff - 1 else uint w, r))
          (int_arg args))"

definition unsigned_arg :: "conversion_type \<Rightarrow> arg list \<Rightarrow> (nat \<times> arg list) option" where
  "unsigned_arg ty args =
     (case ty of
        T_CHAR \<Rightarrow> map_option (\<lambda>(w, r). (unat (ucast w :: u8), r)) (int_arg args)
      | T_SHORT \<Rightarrow> map_option (\<lambda>(w, r). (unat (ucast w :: u16), r)) (int_arg args)
      | T_INT \<Rightarrow> map_option (\<lambda>(w, r). (unat w, r)) (int_arg args)
      | T_INTMAX \<Rightarrow> map_option (\<lambda>(w, r). (unat w, r)) (long_arg args)
      | T_LONG \<Rightarrow> map_option (\<lambda>(w, r). (unat w, r)) (int_arg args)
      | T_LONGLONG \<Rightarrow> map_option (\<lambda>(w, r). (unat w, r)) (long_arg args)
      | T_PTRDIFFT \<Rightarrow> map_option (\<lambda>(w, r). (unat ((scast w :: u64) AND 0xffffffff), r)) (int_arg args)
      | T_SIZET \<Rightarrow> map_option (\<lambda>(w, r). (unat w, r)) (int_arg args))"

definition format_float :: "int \<Rightarrow> bool \<Rightarrow> (nat \<Rightarrow> int) \<Rightarrow> printf_conversion \<Rightarrow> string" where
  "format_float whole negative fraction c =
     (let prec = (if precision c < 0 then DEFAULT_FLOAT_PRECISION else precision c);
          prec = (if prec > MAX_FLOAT_PRECISION then MAX_FLOAT_PRECISION else prec);
          rest = fraction (nat prec)
      in format_integer (nat \<bar>whole\<bar>) True negative base_d (c\<lparr>precision := -1\<rparr>) @ ''.'' @
         format_integer (nat \<bar>rest\<bar>) False False base_d (c\<lparr>precision := (if prec = 0 then 1 else prec)\<rparr>))"

definition limit_precision :: "int \<Rightarrow> string \<Rightarrow> string" where
  "limit_precision prec s = (if prec < 0 then s else take (nat prec) s)"

definition convert :: "char \<Rightarrow> printf_conversion \<Rightarrow> arg list \<Rightarrow> (string \<times> arg list) option" where
  "convert ch c args =
     (if ch = CHR ''d'' \<or> ch = CHR ''i'' then do {
        (v, args) \<leftarrow> signed_arg (conv_type c) args;
        Some (format_integer (nat \<bar>v\<bar>) True (v < 0) base_d c, args) }
      else if ch = CHR ''o'' \<or> ch = CHR ''u'' \<or> ch = CHR ''x'' \<or> ch = CHR ''X'' then do {
        (v, args) \<leftarrow> unsigned_arg (conv_type c) args;
        let b = (if ch = CHR ''o'' then base_o else if ch = CHR ''u'' then base_d
                 else if ch = CHR ''x'' then base_x else base_X);
        Some (format_integer v False False b c, args) }
      else if ch = CHR ''c'' then do {
        (w, args) \<leftarrow> int_arg args;
        Some (format_string [char_of (unat w)] c, args) }
      else if ch = CHR ''s'' then
        (case args of ArgString s # args \<Rightarrow>
             Some (format_string (limit_precision (precision c) (case s of None \<Rightarrow> ''(null)'' | Some s \<Rightarrow> s)) c, args)
         | _ \<Rightarrow> None)
      else if ch = CHR ''p'' then do {
        (w, args) \<leftarrow> int_arg args;
        Some (format_integer (unat w) False False base_x (c\<lparr>flags := POUND\<rparr>), args) }
      else if ch = CHR ''f'' then
        (case args of ArgDouble whole negative fraction # args \<Rightarrow>
             Some (format_float whole negative fraction c, args)
         | _ \<Rightarrow> None)
      else if ch = CHR ''e'' \<or> ch = CHR ''E'' \<or> ch = CHR ''g'' \<or> ch = CHR ''G'' \<or> ch = CHR ''n''
        then Some (''<<no %'' @ [ch] @ '' in kernel>>'', args)
      else Some (''<<no %'' @ [ch] @ '' conversion>>'', args))"

lemma parse_flags_length: "length (fst (parse_flags f fl)) \<le> length f"
  by (induction f fl rule: parse_flags.induct) (auto simp: le_SucI)

lemma parse_number_length: "length (fst (parse_number f n)) \<le> length f"
  by (induction f n rule: parse_number.induct) (auto simp: le_SucI)

lemma parse_star_length: "parse_star f args = Some (f', n, args') \<Longrightarrow> length f' \<le> length f"
  using parse_number_length [of f 0]
  by (auto simp: parse_star_def kbind case_prod_beta split: list.splits if_splits)

lemma parse_type_length: "length (fst (parse_type f)) \<le> length f"
  by (auto simp: parse_type_def split: list.splits)

lemma parse_precision_length: "parse_precision f args = Some (f', n, args') \<Longrightarrow> length f' \<le> length f"
  by (auto simp: parse_precision_def kbind split: list.splits if_splits dest!: parse_star_length)

lemma parse_conversion_length:
  assumes "parse_conversion f args = Some (f', c, args')"
  shows "length f' \<le> length f"
proof -
  obtain f1 fl where f1: "parse_flags f 0 = (f1, fl)" by (cases "parse_flags f 0")
  obtain f2 w a2 f3 p a3 where f2: "parse_star f1 args = Some (f2, w, a2)"
    and f3: "parse_precision f2 a2 = Some (f3, p, a3)" and f': "f' = fst (parse_type f3)"
    using assms f1 by (auto simp: parse_conversion_def kbind Let_def case_prod_beta)
  show ?thesis
    using parse_flags_length [of f 0] parse_star_length [OF f2] parse_precision_length [OF f3]
      parse_type_length [of f3] f1 f' by simp
qed

function vprintf_helper :: "string \<Rightarrow> arg list \<Rightarrow> string option" where
  "vprintf_helper [] args = Some []"
| "vprintf_helper (ch # rest) args =
     (if ch \<noteq> CHR ''%'' then map_option ((#) ch) (vprintf_helper rest args)
      else (case rest of
          [] \<Rightarrow> None
        | ch2 # rest2 \<Rightarrow>
          if ch2 = CHR ''%'' then map_option ((#) ch2) (vprintf_helper rest2 args)
          else (case parse_conversion rest args of
              None \<Rightarrow> None
            | Some (format, c, args) \<Rightarrow> (case format of
                [] \<Rightarrow> None
              | ch3 # rest3 \<Rightarrow> (case convert ch3 c args of
                  None \<Rightarrow> None
                | Some (out, args) \<Rightarrow> map_option ((@) out) (vprintf_helper rest3 args))))))"
  by pat_completeness auto
termination
  by (relation "measure (length \<circ> fst)") (auto dest: parse_conversion_length)

section \<open>Output into a buffer\<close>

record vsnprintf_aux =
  aux_p :: u32
  aux_length :: int
  aux_max_length :: int

definition vsnprintf_helper :: "char \<Rightarrow> memory \<times> vsnprintf_aux \<Rightarrow> memory \<times> vsnprintf_aux" where
  "vsnprintf_helper ch = (\<lambda>(m, aux).
     let aux' = aux\<lparr>aux_length := aux_length aux + 1\<rparr>
     in if aux_length aux < aux_max_length aux
        then (m(aux_p aux := of_char ch), aux'\<lparr>aux_p := aux_p aux + 1\<rparr>)
        else (m, aux'))"

definition vsnprintf :: "memory \<Rightarrow> u32 \<Rightarrow> nat \<Rightarrow> string \<Rightarrow> arg list \<Rightarrow> (int \<times> memory) option" where
  "vsnprintf m buffer buf_size format args = do {
     out \<leftarrow> vprintf_helper format args;
     let (m, aux) = fold vsnprintf_helper out (m, \<lparr>aux_p = buffer, aux_length = 0,
       aux_max_length = (if buf_size > 0 then sint (of_nat (buf_size - 1) :: u32) else 0)\<rparr>);
     let m = (if buf_size > 0 then m(aux_p aux := 0) else m);
     Some (aux_length aux, m) }"

definition snprintf :: "memory \<Rightarrow> u32 \<Rightarrow> nat \<Rightarrow> string \<Rightarrow> arg list \<Rightarrow> (int \<times> memory) option" where
  "snprintf m buffer buf_size format args = vsnprintf m buffer buf_size format args"

section \<open>Dumps\<close>

text \<open>A sequence of calls of \<open>printf\<close>, each its format and its arguments.\<close>

fun printf_calls :: "(string \<times> arg list) list \<Rightarrow> string option" where
  "printf_calls [] = Some []"
| "printf_calls ((format, args) # calls) = do {
     out \<leftarrow> vprintf_helper format args;
     rest \<leftarrow> printf_calls calls;
     Some (out @ rest) }"

definition hex_line :: "u32 \<Rightarrow> u8 list \<Rightarrow> bool \<Rightarrow> (string \<times> arg list) list" where
  "hex_line ofs bytes ascii =
     (let start = unat ofs mod 16;
          stop = start + length bytes
      in [(''%08jx  '', [Arg64 (of_nat (ROUND_DOWN (unat ofs) 16))])] @
         replicate start (''   '', []) @
         map (\<lambda>i. (''%02hhx%c'', [Arg32 (ucast (bytes ! (i - start))),
           Arg32 (if i = 16 div 2 - 1 then 45 else 32)])) [start..<stop] @
         (if ascii then
            replicate (16 - stop) (''   '', []) @ [(''|'', [])] @
            replicate start ('' '', []) @
            map (\<lambda>i. (''%c'', [Arg32 (if isprint (uint (bytes ! (i - start)))
              then ucast (bytes ! (i - start)) else 46)])) [start..<stop] @
            replicate (16 - stop) ('' '', []) @ [(''|'', [])]
          else []) @
         [([CHR 0x0a], [])])"

function hex_lines :: "u32 \<Rightarrow> u8 list \<Rightarrow> bool \<Rightarrow> (string \<times> arg list) list" where
  "hex_lines ofs buf ascii =
     (if buf = [] then []
      else (let n = min (16 - unat ofs mod 16) (length buf)
            in hex_line ofs (take n buf) ascii @ hex_lines (ofs + of_nat n) (drop n buf) ascii))"
  by auto
termination
  by (relation "measure (\<lambda>(ofs, buf, ascii). length buf)") (auto simp: min_def)

definition hex_dump :: "u32 \<Rightarrow> u8 list \<Rightarrow> bool \<Rightarrow> string option" where
  "hex_dump ofs buf ascii = printf_calls (hex_lines ofs buf ascii)"

fun scale_size :: "u64 \<Rightarrow> string list \<Rightarrow> u64 \<times> string" where
  "scale_size sz (f # g # fs) = (if sz \<ge> 1024 then scale_size (sz div 1024) (g # fs) else (sz, f))"
| "scale_size sz [f] = (sz, f)"
| "scale_size sz [] = (sz, [])"

definition print_human_readable_size :: "u64 \<Rightarrow> string option" where
  "print_human_readable_size sz =
     (if sz = 1 then printf_calls [(''1 byte'', [])]
      else (let (sz, unit) = scale_size sz [''bytes'', ''kB'', ''MB'', ''GB'', ''TB'']
            in printf_calls [(''%llu %s'', [Arg64 sz, ArgString (Some unit)])]))"

section \<open>What arrives in the buffer\<close>

definition mem_write :: "memory \<Rightarrow> u32 \<Rightarrow> u8 list \<Rightarrow> memory" where
  "mem_write m p bs = (\<lambda>a. if in_range p (length bs) a then bs ! unat (a - p) else m a)"

lemma mem_write_Nil [simp]: "mem_write m p [] = m"
  by (simp add: mem_write_def in_range_def)

lemma mem_write_Cons:
  assumes "length bs < 2 ^ 32"
  shows "mem_write m p (b # bs) = mem_write (m(p := b)) (p + 1) bs"
proof
  fix a
  have "\<not> in_range (p + 1) (length bs) p"
    using assms by (simp add: in_range_def unsigned_minus_1_eq_mask mask_eq_exp_minus_1)
  moreover have "unat (a - p) = Suc (unat (a - (p + 1)))" if "a \<noteq> p"
    using that unat_pred [of "a - p"] by (simp add: algebra_simps unat_gt_0)
  ultimately show "mem_write m p (b # bs) a = mem_write (m(p := b)) (p + 1) bs a"
    using in_range_front [OF assms, of p a] by (cases "a = p") (auto simp: mem_write_def)
qed

lemma mem_write_at:
  "length bs \<le> 2 ^ 32 \<Longrightarrow> i < length bs \<Longrightarrow> mem_write m p bs (p + of_nat i) = bs ! i"
  by (auto simp: mem_write_def in_range_def unat_of_nat_small)

lemma vsnprintf_helper_step:
  "vsnprintf_helper ch (m, \<lparr>aux_p = p, aux_length = l, aux_max_length = mx\<rparr>) =
    (if l < mx then (m(p := of_char ch), \<lparr>aux_p = p + 1, aux_length = l + 1, aux_max_length = mx\<rparr>)
     else (m, \<lparr>aux_p = p, aux_length = l + 1, aux_max_length = mx\<rparr>))"
  by (simp add: vsnprintf_helper_def Let_def)

lemma fold_vsnprintf_helper:
  assumes "0 \<le> l" "mx < 2 ^ 32"
  shows "fold vsnprintf_helper out (m, \<lparr>aux_p = p, aux_length = l, aux_max_length = mx\<rparr>) =
    (let bs = take (nat (mx - l)) (map of_char out)
     in (mem_write m p bs, \<lparr>aux_p = p + of_nat (length bs), aux_length = l + int (length out), aux_max_length = mx\<rparr>))"
  using assms(1)
proof (induction out arbitrary: m p l)
  case (Cons ch out)
  show ?case
  proof (cases "l < mx")
    case True
    then have "nat (mx - l) = Suc (nat (mx - (l + 1)))" by simp
    moreover have "length (take (nat (mx - (l + 1))) (map of_char out :: u8 list)) < 2 ^ 32"
      using assms(2) Cons.prems True by simp
    ultimately show ?thesis
      using Cons.IH [of "l + 1" "m(p := of_char ch)" "p + 1"] Cons.prems True
      by (simp add: vsnprintf_helper_step Let_def mem_write_Cons algebra_simps del: fun_upd_apply)
  next
    case False
    then show ?thesis
      using Cons.IH [of "l + 1" m p] Cons.prems by (simp add: vsnprintf_helper_step Let_def algebra_simps)
  qed
qed simp

lemma vsnprintf_eq:
  assumes "vprintf_helper format args = Some out" "0 < n" "n \<le> 2 ^ 31"
  shows "vsnprintf m buffer n format args =
    (let bs = take (n - 1) (map of_char out)
     in Some (int (length out), (mem_write m buffer bs)(buffer + of_nat (length bs) := 0)))"
proof -
  have "sint (of_nat (n - 1) :: u32) = int (n - 1)"
    using assms(2,3) by (intro sint_of_nat_small) simp
  moreover have "nat (int n - 1) = n - Suc 0" by simp
  ultimately show ?thesis
    using assms fold_vsnprintf_helper [of 0 "int (n - 1)" out m buffer]
    by (simp add: vsnprintf_def Let_def)
qed

lemma unat_of_char: "unat (of_char c :: u8) = of_char c"
proof -
  have "(of_char c :: u8) = of_nat (of_char c)" by (rule of_nat_of_char [symmetric])
  then show ?thesis by (simp only: unat_of_nat) simp
qed

lemma of_char_u8_0: "(of_char c :: u8) = 0 \<longleftrightarrow> c = CHR 0x00"
proof
  assume "(of_char c :: u8) = 0"
  then have "of_char c = (0 :: nat)" using unat_of_char [of c] by simp
  then show "c = CHR 0x00" using of_char_eq_iff [of c "CHR 0x00", where ?'a = nat] by simp
qed simp

lemma vsnprintf_cstring:
  assumes "vprintf_helper format args = Some out" "0 < n" "n \<le> 2 ^ 31" "buffer \<noteq> 0" "unat buffer + n \<le> 2 ^ 32"
    and "CHR 0x00 \<notin> set out"
  shows "\<exists>m'. vsnprintf m buffer n format args = Some (int (length out), m') \<and>
    cstring m' buffer (take (n - 1) (map of_char out)) \<and> (\<forall>a. \<not> in_range buffer n a \<longrightarrow> m' a = m a)"
proof -
  define bs :: "u8 list" where "bs = take (n - 1) (map of_char out)"
  define m' where "m' = (mem_write m buffer bs)(buffer + of_nat (length bs) := 0)"
  have l: "length bs < n" using assms(2) by (simp add: bs_def)
  then have l32: "length bs < 2 ^ 32" using assms(3) by simp
  have "m' (buffer + of_nat i) = bs ! i" if "i < length bs" for i
  proof -
    have "of_nat i \<noteq> (of_nat (length bs) :: u32)"
      using that l32 unat_of_nat_small [of i] unat_of_nat_small [of "length bs"] by (metis less_trans nat_neq_iff)
    then show ?thesis using mem_write_at [of bs i m buffer] that l32 unfolding m'_def by simp
  qed
  moreover have "0 \<notin> set bs"
  proof
    assume "0 \<in> set bs"
    moreover have "set bs \<subseteq> of_char ` set out" unfolding bs_def set_map [symmetric] by (rule set_take_subset)
    ultimately obtain c where "c \<in> set out" "of_char c = (0 :: u8)" by auto
    then have "c = CHR 0x00" using of_char_u8_0 by blast
    then show False using \<open>c \<in> set out\<close> assms(6) by simp
  qed
  moreover have "m' (buffer + of_nat (length bs)) = 0" by (simp add: m'_def)
  ultimately have "cstr m' buffer bs" by (simp add: cstr_nth)
  moreover have "m' a = m a" if "\<not> in_range buffer n a" for a
  proof -
    have "in_range buffer n (buffer + of_nat (length bs))"
      using l l32 by (simp add: in_range_def unat_of_nat_small)
    then have "a \<noteq> buffer + of_nat (length bs)" using that by auto
    moreover have "\<not> in_range buffer (length bs) a" using that l by (simp add: in_range_def)
    ultimately show ?thesis by (simp add: m'_def mem_write_def)
  qed
  moreover have "vsnprintf m buffer n format args = Some (int (length out), m')"
    using vsnprintf_eq [OF assms(1-3)] by (simp only: Let_def bs_def m'_def)
  ultimately show ?thesis using assms(4,5) l unfolding cstring_def bs_def [symmetric] by auto
qed

section \<open>Decimal numbers\<close>

fun decimal :: "nat \<Rightarrow> string" where
  "decimal v = (if v = 0 then [] else decimal (v div 10) @ [ib_digits base_d ! (v mod 10)])"

declare decimal.simps [simp del]

lemma digits_loop_decimal: "digits_loop base_d False v k buf = buf @ rev (decimal v)"
proof (induction v arbitrary: k buf rule: decimal.induct)
  case (1 v)
  then show ?case
    by (subst digits_loop.simps, subst decimal.simps) (simp add: base_d_def del: digits_loop.simps)
qed

lemma decimal_0 [simp]: "decimal 0 = []"
  by (simp add: decimal.simps)

lemma decimal_eq_Nil [simp]: "decimal v = [] \<longleftrightarrow> v = 0"
  by (subst decimal.simps) simp

definition digit_byte :: "u8 \<Rightarrow> bool" where
  "digit_byte b \<longleftrightarrow> (\<exists>d < 10. b = 48 + of_nat d)"

lemma digit_chars_10:
  "\<forall>d \<in> set [0..<10]. (of_char (ib_digits base_d ! d) :: u8) = 48 + of_nat d \<and> ib_digits base_d ! d \<noteq> CHR 0x00"
  by code_simp

lemma digit_bytes_10:
  "\<forall>d \<in> set [0..<10]. (48 + of_nat d :: u8) \<noteq> 0 \<and> (48 + of_nat d :: u8) \<noteq> 43 \<and> (48 + of_nat d :: u8) \<noteq> 45 \<and>
     (scast (48 + of_nat d :: u8) :: u32) = 48 + of_nat d \<and>
     isdigit (sint (48 + of_nat d :: u8)) \<and> \<not> isspace (uint (48 + of_nat d :: u8))"
  by code_simp

lemma digit_char:
  assumes "d < 10"
  shows "(of_char (ib_digits base_d ! d) :: u8) = 48 + of_nat d" "ib_digits base_d ! d \<noteq> CHR 0x00"
proof -
  have "d \<in> set [0..<10]" using assms by simp
  from bspec [OF digit_chars_10 this]
  show "(of_char (ib_digits base_d ! d) :: u8) = 48 + of_nat d" "ib_digits base_d ! d \<noteq> CHR 0x00" by blast+
qed

lemma digit_byte_simps:
  assumes "d < 10"
  shows "isdigit (sint (48 + of_nat d :: u8))" "(scast (48 + of_nat d :: u8) :: u32) = 48 + of_nat d"
    "(48 + of_nat d :: u8) \<noteq> 0" "(48 + of_nat d :: u8) \<noteq> 43" "(48 + of_nat d :: u8) \<noteq> 45"
    "\<not> isspace (uint (48 + of_nat d :: u8))"
proof -
  have "d \<in> set [0..<10]" using assms by simp
  note * = bspec [OF digit_bytes_10 this]
  show "isdigit (sint (48 + of_nat d :: u8))" "(scast (48 + of_nat d :: u8) :: u32) = 48 + of_nat d"
    "(48 + of_nat d :: u8) \<noteq> 0" "(48 + of_nat d :: u8) \<noteq> 43" "(48 + of_nat d :: u8) \<noteq> 45"
    "\<not> isspace (uint (48 + of_nat d :: u8))"
    using * by blast+
qed

lemma digit_byte_char: "d < 10 \<Longrightarrow> digit_byte (of_char (ib_digits base_d ! d))"
  unfolding digit_byte_def using digit_char(1) by blast

lemma decimal_bytes: "\<forall>c \<in> set (decimal v). c \<noteq> CHR 0x00 \<and> digit_byte (of_char c)"
proof (induction v rule: decimal.induct)
  case (1 v)
  show ?case
  proof (cases "v = 0")
    case False
    have d: "v mod 10 < 10" by simp
    have "decimal v = decimal (v div 10) @ [ib_digits base_d ! (v mod 10)]"
      using False by (simp add: decimal.simps)
    then show ?thesis using 1 False digit_char(2) [OF d] digit_byte_char [OF d] by auto
  qed simp
qed

definition digits_val :: "u32 \<Rightarrow> u8 list \<Rightarrow> u32" where
  "digits_val = foldl (\<lambda>v b. v * 10 - (scast b - 48))"

lemma digits_val_decimal: "digits_val 0 (map of_char (decimal v)) = - of_nat v"
proof (induction v rule: decimal.induct)
  case (1 v)
  show ?case
  proof (cases "v = 0")
    case False
    have v: "of_nat v = (of_nat (v div 10) * 10 + of_nat (v mod 10) :: u32)"
      by (metis div_mult_mod_eq of_nat_add of_nat_mult of_nat_numeral)
    have "digits_val 0 (map of_char (decimal v)) =
        digits_val 0 (map of_char (decimal (v div 10))) * 10 - (scast (of_char (ib_digits base_d ! (v mod 10)) :: u8) - 48)"
      using False by (subst decimal.simps) (simp add: digits_val_def)
    also have "\<dots> = - of_nat v"
      using 1 False digit_char(1) [of "v mod 10"] digit_byte_simps(2) [of "v mod 10"] v by (simp add: algebra_simps)
    finally show ?thesis .
  qed (simp add: digits_val_def decimal.simps)
qed

lemma parse_digits_ok:
  assumes "cstr m s bs" "\<forall>b \<in> set bs. digit_byte b"
  shows "parse_digits m s v = Some (digits_val v bs)"
  using assms
proof (induction bs arbitrary: s v)
  case Nil
  then show ?case by (subst parse_digits.simps) (simp add: isdigit_def digits_val_def)
next
  case (Cons b bs)
  then have "isdigit (sint b)" using digit_byte_simps(1) by (auto simp: digit_byte_def)
  then show ?case
    using Cons by (subst parse_digits.simps) (simp add: digits_val_def)
qed

text \<open>The bytes of a number as \<open>printf\<close> writes it with \<open>%d\<close>.\<close>

definition decimal_bytes_of :: "int \<Rightarrow> string" where
  "decimal_bytes_of v = (if v < 0 then ''-'' else []) @ (if v = 0 then ''0'' else decimal (nat \<bar>v\<bar>))"

lemma vprintf_helper_d: "vprintf_helper ''%d'' [Arg32 w] = Some (decimal_bytes_of (sint w))"
  by (simp add: parse_conversion_def flag_of_def parse_star_def parse_precision_def parse_type_def
      convert_def signed_arg_def int_arg_def isdigit_def Let_def format_integer_def
      digits_loop_decimal decimal_bytes_of_def output_dup_def base_d_def [THEN arg_cong [of _ _ ib_base]]
      Suc_le_eq del: digits_loop.simps)

lemma length_decimal: "v < 10 ^ k \<Longrightarrow> length (decimal v) \<le> k"
proof (induction k arbitrary: v)
  case (Suc k)
  then have "length (decimal (v div 10)) \<le> k" by (intro Suc.IH) (simp add: less_mult_imp_div_less mult.commute)
  then show ?case by (subst decimal.simps) simp
qed simp

lemma atoi_digits:
  assumes "cstring m s (map of_char (if v = 0 then ''0'' else decimal v))"
  shows "atoi m s = Some (of_nat v)"
proof -
  let ?ds = "if v = 0 then ''0'' else decimal v"
  have ds: "\<forall>b \<in> set (map of_char ?ds). digit_byte b"
    using decimal_bytes [of v] digit_byte_char [of 0] by (auto simp: base_d_def)
  obtain b :: u8 and bs where b: "map of_char ?ds = b # bs" by (cases "v = 0"; cases "map of_char (decimal v)") auto
  then have "digit_byte b" using ds by (metis list.set_intros(1))
  moreover have "m s = b" using cstringD(3) [OF assms] unfolding b by simp
  ultimately have "digit_byte (m s)" by simp
  then obtain d where "d < 10" "m s = 48 + of_nat d" by (auto simp: digit_byte_def)
  then have h: "\<not> isspace (uint (m s))" "m s \<noteq> 43" "m s \<noteq> 45" using digit_byte_simps [of d] by auto
  have val: "digits_val 0 (map of_char ?ds) = - of_nat v"
    using digits_val_decimal [of v] by (simp add: digits_val_def)
  have "parse_digits m s 0 = Some (- of_nat v)"
    using parse_digits_ok [OF cstringD(3) [OF assms] ds, of 0] unfolding val .
  then show ?thesis
    using h cstringD(1) [OF assms] by (simp add: atoi_def skip_space.simps [of m s])
qed

lemma atoi_negative:
  assumes "cstring m s (of_char (CHR ''-'') # map of_char (decimal v))"
  shows "atoi m s = Some (- of_nat v)"
proof -
  have s: "m s = 45" "cstr m (s + 1) (map of_char (decimal v))" "s \<noteq> 0"
    using assms by (auto simp: cstring_def)
  have "parse_digits m (s + 1) 0 = Some (- of_nat v)"
    using parse_digits_ok [OF s(2)] decimal_bytes [of v] digits_val_decimal [of v] by simp
  then show ?thesis using s by (simp add: atoi_def skip_space.simps [of m s] isspace_def)
qed

text \<open>C17:
  What \<open>snprintf\<close> writes for \<open>%d\<close> is read back by \<open>atoi\<close>: for every 32-bit integer the decimal
  representation fits into twelve bytes, \<open>atoi\<close> of the buffer returns the integer, the result is the
  number of characters, and nothing outside the buffer is written.
\<close>

theorem printf_atoi_roundtrip:
  assumes "buffer \<noteq> 0" "12 \<le> n" "n \<le> 2 ^ 31" "unat buffer + n \<le> 2 ^ 32"
  shows "\<exists>m' len. snprintf m buffer n ''%d'' [Arg32 w] = Some (int len, m') \<and> strlen m' buffer = Some len \<and>
    atoi m' buffer = Some w \<and> (\<forall>a. \<not> in_range buffer n a \<longrightarrow> m' a = m a)"
proof -
  let ?v = "sint w" and ?out = "decimal_bytes_of (sint w)"
  have "\<bar>?v\<bar> \<le> 2147483648" using sint_range_size [of w] by (simp add: word_size abs_le_iff)
  then have "length (decimal (nat \<bar>?v\<bar>)) \<le> 10" by (intro length_decimal) simp
  then have len: "length ?out \<le> 11"
    by (cases "?v < 0"; cases "?v = 0"; simp add: decimal_bytes_of_def)
  have "CHR 0x00 \<notin> set ?out" using decimal_bytes [of "nat \<bar>?v\<bar>"] by (auto simp: decimal_bytes_of_def)
  then obtain m' where m': "snprintf m buffer n ''%d'' [Arg32 w] = Some (int (length ?out), m')"
    "cstring m' buffer (take (n - 1) (map of_char ?out))" "\<forall>a. \<not> in_range buffer n a \<longrightarrow> m' a = m a"
    using vsnprintf_cstring [OF vprintf_helper_d, of n buffer w m] assms unfolding snprintf_def by auto
  have c: "cstring m' buffer (map of_char ?out)" using m'(2) len assms(2) by simp
  have "atoi m' buffer = Some (of_int ?v)"
  proof (cases "?v < 0")
    case True
    then have "of_int ?v = (- of_nat (nat \<bar>?v\<bar>) :: u32)" by simp
    then show ?thesis using atoi_negative [of m' buffer "nat \<bar>?v\<bar>"] c True by (simp add: decimal_bytes_of_def)
  next
    case False
    then have "of_int ?v = (of_nat (nat \<bar>?v\<bar>) :: u32)" by simp
    then show ?thesis
      using atoi_digits [of m' buffer "nat \<bar>?v\<bar>"] c False by (simp add: decimal_bytes_of_def split: if_splits)
  qed
  then show ?thesis using m' strlen_ok [OF c] by auto
qed

lemma printf_atoi_roundtrip_witness:
  "\<exists>m' len. snprintf (\<lambda>a. 7) 0x1000 12 ''%d'' [Arg32 (- 2147483648)] = Some (int len, m') \<and>
     strlen m' 0x1000 = Some len \<and> atoi m' 0x1000 = Some (- 2147483648) \<and> m' 0x100c = 7"
  using printf_atoi_roundtrip [of "0x1000" 12 "\<lambda>a. 7" "- 2147483648"]
  by (auto simp: in_range_def)

end
