(* ===== verification/Kernel_Malloc.thy ===== *)
theory Kernel_Malloc
  imports Kernel_Palloc Kernel_String
begin

text \<open>
  The block allocator \<open>threads/malloc.c\<close> on top of the page allocator. An arena header is an entry of
  the map \<open>arenas\<close>, keyed by the address of its page; a page that has no entry has no valid magic
  number, so \<open>block_to_arena\<close> stops the kernel there. A descriptor pointer is an index into \<open>descs\<close>,
  a free list the sequence of the addresses of its blocks, and the contents of blocks are the
  bytes of the page allocator's memory. The descriptor's lock is held throughout the part of
  \<open>malloc\<close> and \<open>free\<close> that reads or writes a descriptor, so each is one step here.
\<close>

section \<open>State and operations\<close>

record desc =
  desc_block_size :: nat
  blocks_per_arena :: nat
  free_list :: "u32 list"

definition ARENA_MAGIC :: u32 where "ARENA_MAGIC = 0x9a548eed"

text \<open>The size of an arena header.\<close>

definition ARENA_SIZE :: nat where "ARENA_SIZE = 12"

record arena =
  arena_magic :: u32
  arena_desc :: "nat option"
  free_cnt :: nat

record malloc_state =
  page_alloc :: palloc
  descs :: "desc list"
  arenas :: "u32 \<Rightarrow> arena option"

function malloc_init_loop :: "nat \<Rightarrow> desc list \<Rightarrow> desc list option" where
  "malloc_init_loop bs ds =
     (if bs < PGSIZE div 2
      then (if length ds + 1 \<le> 10
        then malloc_init_loop (bs * 2) (ds @ [\<lparr>desc_block_size = bs,
          blocks_per_arena = (PGSIZE - ARENA_SIZE) div bs, free_list = []\<rparr>])
        else None)
      else Some ds)"
  by auto
termination
  by (relation "measure (\<lambda>(bs, ds). 10 - length ds)") auto

definition malloc_init :: "palloc \<Rightarrow> malloc_state option" where
  "malloc_init p = map_option (\<lambda>ds. \<lparr>page_alloc = p, descs = ds, arenas = Map.empty\<rparr>) (malloc_init_loop 16 [])"

definition desc_at :: "malloc_state \<Rightarrow> nat \<Rightarrow> desc option" where
  "desc_at s d = (if d < length (descs s) then Some (descs s ! d) else None)"

definition block_to_arena :: "malloc_state \<Rightarrow> u32 \<Rightarrow> u32 option" where
  "block_to_arena s b = do {
     let a = pg_round_down b;
     ASSERT (a \<noteq> 0);
     ar \<leftarrow> arenas s a;
     ASSERT (arena_magic ar = ARENA_MAGIC);
     case arena_desc ar of
       Some d \<Rightarrow> do {
         dd \<leftarrow> desc_at s d;
         ASSERT (unat (pg_ofs b - of_nat ARENA_SIZE) mod desc_block_size dd = 0);
         Some a }
     | None \<Rightarrow> do { ASSERT (pg_ofs b = of_nat ARENA_SIZE); Some a } }"

definition arena_to_block :: "malloc_state \<Rightarrow> u32 \<Rightarrow> nat \<Rightarrow> u32 option" where
  "arena_to_block s a idx = do {
     ASSERT (a \<noteq> 0);
     ar \<leftarrow> arenas s a;
     ASSERT (arena_magic ar = ARENA_MAGIC);
     d \<leftarrow> arena_desc ar;
     dd \<leftarrow> desc_at s d;
     ASSERT (idx < blocks_per_arena dd);
     Some (a + of_nat (ARENA_SIZE + idx * desc_block_size dd)) }"

definition set_free_list :: "malloc_state \<Rightarrow> nat \<Rightarrow> u32 list \<Rightarrow> malloc_state" where
  "set_free_list s d fl = s\<lparr>descs := (descs s)[d := (descs s ! d)\<lparr>free_list := fl\<rparr>]\<rparr>"

text \<open>The loop that puts the blocks of a new arena on the free list.\<close>

fun add_blocks :: "nat \<Rightarrow> u32 \<Rightarrow> nat \<Rightarrow> nat \<Rightarrow> malloc_state \<Rightarrow> malloc_state option" where
  "add_blocks 0 a d i s = Some s"
| "add_blocks (Suc n) a d i s = do {
     b \<leftarrow> arena_to_block s a i;
     add_blocks n a d (i + 1) (set_free_list s d (free_list (descs s ! d) @ [b])) }"

fun find_desc :: "desc list \<Rightarrow> nat \<Rightarrow> nat \<Rightarrow> nat" where
  "find_desc [] sz i = i"
| "find_desc (d # ds) sz i = (if desc_block_size d \<ge> sz then i else find_desc ds sz (i + 1))"

definition new_arena :: "malloc_state \<Rightarrow> nat \<Rightarrow> (bool \<times> malloc_state) option" where
  "new_arena s d = do {
     (a, p) \<leftarrow> palloc_get_page (page_alloc s) 0;
     if a = 0 then Some (False, s\<lparr>page_alloc := p\<rparr>)
     else do {
       let ar = \<lparr>arena_magic = ARENA_MAGIC, arena_desc = Some d, free_cnt = blocks_per_arena (descs s ! d)\<rparr>;
       s \<leftarrow> add_blocks (blocks_per_arena (descs s ! d)) a d 0 (s\<lparr>page_alloc := p, arenas := (arenas s)(a \<mapsto> ar)\<rparr>);
       Some (True, s) } }"

text \<open>The end of \<open>malloc\<close>: \<open>list_pop_front\<close> of an empty list stops the kernel.\<close>

definition take_block :: "malloc_state \<Rightarrow> nat \<Rightarrow> (u32 \<times> malloc_state) option" where
  "take_block s d = (case free_list (descs s ! d) of
       [] \<Rightarrow> None
     | b # bs \<Rightarrow> do {
         let s = set_free_list s d bs;
         a \<leftarrow> block_to_arena s b;
         ar \<leftarrow> arenas s a;
         Some (b, s\<lparr>arenas := (arenas s)(a \<mapsto> ar\<lparr>free_cnt := free_cnt ar - 1\<rparr>)\<rparr>) })"

definition malloc :: "malloc_state \<Rightarrow> nat \<Rightarrow> (u32 \<times> malloc_state) option" where
  "malloc s sz =
     (if sz = 0 then Some (0, s)
      else (let d = find_desc (descs s) sz 0
        in if d = length (descs s)
        then do {
          let page_cnt = DIV_ROUND_UP (add32 sz ARENA_SIZE) PGSIZE;
          (a, p) \<leftarrow> palloc_get_multiple (page_alloc s) 0 page_cnt;
          let s = s\<lparr>page_alloc := p\<rparr>;
          if a = 0 then Some (0, s)
          else Some (a + of_nat ARENA_SIZE,
            s\<lparr>arenas := (arenas s)(a \<mapsto> \<lparr>arena_magic = ARENA_MAGIC, arena_desc = None, free_cnt = page_cnt\<rparr>)\<rparr>) }
        else if free_list (descs s ! d) = []
        then do {
          (ok, s) \<leftarrow> new_arena s d;
          if ok then take_block s d else Some (0, s) }
        else take_block s d))"

definition set_mem :: "malloc_state \<Rightarrow> memory \<Rightarrow> malloc_state" where
  "set_mem s m = s\<lparr>page_alloc := (page_alloc s)\<lparr>mem := m\<rparr>\<rparr>"

definition calloc :: "malloc_state \<Rightarrow> nat \<Rightarrow> nat \<Rightarrow> (u32 \<times> malloc_state) option" where
  "calloc s a b =
     (let sz = a * b mod 2 ^ 32
      in if sz < a \<or> sz < b then Some (0, s)
      else do {
        (p, s) \<leftarrow> malloc s sz;
        if p \<noteq> 0
        then do { (_, m) \<leftarrow> memset (mem (page_alloc s)) p 0 sz; Some (p, set_mem s m) }
        else Some (p, s) })"

definition block_size :: "malloc_state \<Rightarrow> u32 \<Rightarrow> nat option" where
  "block_size s b = do {
     a \<leftarrow> block_to_arena s b;
     ar \<leftarrow> arenas s a;
     case arena_desc ar of
       Some d \<Rightarrow> map_option desc_block_size (desc_at s d)
     | None \<Rightarrow> Some (PGSIZE * free_cnt ar - unat (pg_ofs b)) }"

text \<open>The loop that takes the blocks of an unused arena off the free list. Removing an element that
  is not on the list would corrupt it: undefined behaviour.\<close>

fun remove_blocks :: "nat \<Rightarrow> u32 \<Rightarrow> nat \<Rightarrow> nat \<Rightarrow> malloc_state \<Rightarrow> malloc_state option" where
  "remove_blocks 0 a d i s = Some s"
| "remove_blocks (Suc n) a d i s = do {
     b \<leftarrow> arena_to_block s a i;
     ASSERT (b \<in> set (free_list (descs s ! d)));
     remove_blocks n a d (i + 1) (set_free_list s d (remove1 b (free_list (descs s ! d)))) }"

definition free_block :: "malloc_state \<Rightarrow> u32 \<Rightarrow> u32 \<Rightarrow> arena \<Rightarrow> nat \<Rightarrow> malloc_state option" where
  "free_block s b a ar d = do {
     dd \<leftarrow> desc_at s d;
     (_, m) \<leftarrow> memset (mem (page_alloc s)) b 0xcc (desc_block_size dd);
     let s = set_free_list (set_mem s m) d (b # free_list dd);
     let n = free_cnt ar + 1;
     let s = s\<lparr>arenas := (arenas s)(a \<mapsto> ar\<lparr>free_cnt := n\<rparr>)\<rparr>;
     if n \<ge> blocks_per_arena dd
     then do {
       ASSERT (n = blocks_per_arena dd);
       s \<leftarrow> remove_blocks (blocks_per_arena dd) a d 0 s;
       p \<leftarrow> palloc_free_page (page_alloc s) a;
       Some (s\<lparr>page_alloc := p, arenas := (arenas s)(a := None)\<rparr>) }
     else Some s }"

definition free :: "malloc_state \<Rightarrow> u32 \<Rightarrow> malloc_state option" where
  "free s p =
     (if p = 0 then Some s
      else do {
        a \<leftarrow> block_to_arena s p;
        ar \<leftarrow> arenas s a;
        case arena_desc ar of
          Some d \<Rightarrow> free_block s p a ar d
        | None \<Rightarrow> do {
            q \<leftarrow> palloc_free_multiple (page_alloc s) a (free_cnt ar);
            Some (s\<lparr>page_alloc := q, arenas := (arenas s)(a := None)\<rparr>) } })"

definition realloc :: "malloc_state \<Rightarrow> u32 \<Rightarrow> nat \<Rightarrow> (u32 \<times> malloc_state) option" where
  "realloc s old_block new_size =
     (if new_size = 0 then do { s \<leftarrow> free s old_block; Some (0, s) }
      else do {
        (new_block, s) \<leftarrow> malloc s new_size;
        if old_block \<noteq> 0 \<and> new_block \<noteq> 0
        then do {
          old_size \<leftarrow> block_size s old_block;
          let min_size = (if new_size < old_size then new_size else old_size);
          (_, m) \<leftarrow> memcpy (mem (page_alloc s)) new_block old_block min_size;
          s \<leftarrow> free (set_mem s m) old_block;
          Some (new_block, s) }
        else Some (new_block, s) })"

declare malloc_init_loop.simps [simp del]

section \<open>The heap invariant\<close>

abbreviation bsz :: "malloc_state \<Rightarrow> nat \<Rightarrow> nat" where "bsz s d \<equiv> desc_block_size (descs s ! d)"
abbreviation bpa :: "malloc_state \<Rightarrow> nat \<Rightarrow> nat" where "bpa s d \<equiv> blocks_per_arena (descs s ! d)"
abbreviation fl :: "malloc_state \<Rightarrow> nat \<Rightarrow> u32 list" where "fl s d \<equiv> free_list (descs s ! d)"
abbreviation kpool :: "malloc_state \<Rightarrow> pool" where "kpool s \<equiv> kernel_pool (page_alloc s)"

definition blk :: "malloc_state \<Rightarrow> u32 \<Rightarrow> nat \<Rightarrow> nat \<Rightarrow> u32" where
  "blk s a d k = a + of_nat (ARENA_SIZE + k * bsz s d)"

definition arena_len :: "arena \<Rightarrow> nat" where
  "arena_len ar = (case arena_desc ar of None \<Rightarrow> free_cnt ar | Some _ \<Rightarrow> 1)"

definition page_group :: "malloc_state \<Rightarrow> u32 \<Rightarrow> nat \<Rightarrow> bool" where
  "page_group s a n \<longleftrightarrow> 0 < n \<and> (\<exists>i. a = pool_page (kpool s) i \<and> is_group (pool_used (kpool s)) i n True)"

definition descs_ok :: "desc list \<Rightarrow> bool" where
  "descs_ok ds \<longleftrightarrow> (\<forall>d \<in> set ds. 0 < desc_block_size d \<and> 0 < blocks_per_arena d \<and>
     ARENA_SIZE + blocks_per_arena d * desc_block_size d \<le> PGSIZE)"

definition arena_ok :: "malloc_state \<Rightarrow> u32 \<Rightarrow> arena \<Rightarrow> bool" where
  "arena_ok s a ar \<longleftrightarrow> arena_magic ar = ARENA_MAGIC \<and> page_group s a (arena_len ar) \<and>
     (\<forall>d. arena_desc ar = Some d \<longrightarrow>
        d < length (descs s) \<and> free_cnt ar = card {k. k < bpa s d \<and> blk s a d k \<in> set (fl s d)})"

definition apart :: "u32 \<Rightarrow> nat \<Rightarrow> u32 \<Rightarrow> nat \<Rightarrow> bool" where
  "apart a n b m \<longleftrightarrow> unat a + PGSIZE * n \<le> unat b \<or> unat b + PGSIZE * m \<le> unat a"

definition free_ok :: "malloc_state \<Rightarrow> nat \<Rightarrow> bool" where
  "free_ok s d \<longleftrightarrow> distinct (fl s d) \<and> (\<forall>b \<in> set (fl s d).
     \<exists>a ar k. arenas s a = Some ar \<and> arena_desc ar = Some d \<and> k < bpa s d \<and> b = blk s a d k)"

definition heap_inv :: "malloc_state \<Rightarrow> bool" where
  "heap_inv s \<longleftrightarrow> palloc_inv (page_alloc s) \<and> descs_ok (descs s) \<and>
     (\<forall>a ar. arenas s a = Some ar \<longrightarrow> arena_ok s a ar) \<and>
     (\<forall>a ar b br. arenas s a = Some ar \<longrightarrow> arenas s b = Some br \<longrightarrow> a \<noteq> b \<longrightarrow>
        apart a (arena_len ar) b (arena_len br)) \<and>
     (\<forall>d < length (descs s). free_ok s d)"

text \<open>No arena of small blocks is entirely unused.\<close>

definition no_idle :: "malloc_state \<Rightarrow> bool" where
  "no_idle s \<longleftrightarrow> (\<forall>a ar d. arenas s a = Some ar \<longrightarrow> arena_desc ar = Some d \<longrightarrow> free_cnt ar < bpa s d)"

definition malloc_inv :: "malloc_state \<Rightarrow> bool" where
  "malloc_inv s \<longleftrightarrow> heap_inv s \<and> no_idle s"

text \<open>The blocks that are handed out.\<close>

definition arena_live :: "malloc_state \<Rightarrow> u32 \<Rightarrow> arena \<Rightarrow> u32 set" where
  "arena_live s a ar = (case arena_desc ar of
       None \<Rightarrow> {a + of_nat ARENA_SIZE}
     | Some d \<Rightarrow> {blk s a d k | k. k < bpa s d} - set (fl s d))"

definition live :: "malloc_state \<Rightarrow> u32 set" where
  "live s = {b. \<exists>a ar. arenas s a = Some ar \<and> b \<in> arena_live s a ar}"

section \<open>Addresses in an arena\<close>

lemma page_offset:
  assumes "pg_ofs a = 0" "j < PGSIZE"
  shows "pg_round_down (a + of_nat j) = a" "pg_ofs (a + of_nat j) = of_nat j" "unat (a + of_nat j) = unat a + j"
proof -
  obtain q where q: "unat a = PGSIZE * q" using assms(1) by (auto simp: pg_aligned_iff)
  have j: "unat (of_nat j :: u32) = j" using assms(2) by (intro unat_of_nat_small) (simp add: PGSIZE_def)
  have "q * PGSIZE < 1048576 * PGSIZE" using unat_u32_lt [of a] q by (simp add: PGSIZE_def)
  then have "q < 1048576" by (simp add: PGSIZE_def)
  then have "unat a + j < 2 ^ 32" using q assms(2) by (simp add: PGSIZE_def)
  then show u: "unat (a + of_nat j) = unat a + j" using unat_add_small [of a "of_nat j"] j by simp
  have "unat (pg_ofs (a + of_nat j)) = j" using u q assms(2) by (simp add: unat_pg_ofs)
  then show ofs: "pg_ofs (a + of_nat j) = of_nat j" by (metis j word_unat_eq_iff)
  show "pg_round_down (a + of_nat j) = a" by (simp add: pg_round_down_eq ofs)
qed

lemma page_group_addr:
  assumes "palloc_inv (page_alloc s)" "page_group s a n"
  shows "a \<noteq> 0" "pg_ofs a = 0" "unat a + PGSIZE * n \<le> 2 ^ 32 - PGSIZE"
proof -
  have p: "pool_inv (kpool s)" using assms(1) by (simp add: palloc_inv_def)
  obtain i where i: "0 < n" "a = pool_page (kpool s) i" "is_group (pool_used (kpool s)) i n True"
    using assms(2) by (auto simp: page_group_def)
  then have "i < bit_cnt (used_map (kpool s))" by (simp add: is_group_def)
  from pool_page_facts [OF p this] show "a \<noteq> 0" "pg_ofs a = 0" by (simp_all add: i(2))
  show "unat a + PGSIZE * n \<le> 2 ^ 32 - PGSIZE"
    using group_range [OF p i(3,1)] p by (simp add: i(2) pool_inv_def)
qed

lemma heap_inv_arena:
  assumes "heap_inv s" "arenas s a = Some ar"
  shows "arena_ok s a ar" "a \<noteq> 0" "pg_ofs a = 0" "unat a + PGSIZE * arena_len ar \<le> 2 ^ 32 - PGSIZE"
    "arena_magic ar = ARENA_MAGIC" "0 < arena_len ar"
proof -
  show ok: "arena_ok s a ar" using assms by (simp add: heap_inv_def)
  then show "arena_magic ar = ARENA_MAGIC" "0 < arena_len ar" by (simp_all add: arena_ok_def page_group_def)
  have p: "palloc_inv (page_alloc s)" using assms(1) by (simp add: heap_inv_def)
  have "page_group s a (arena_len ar)" using ok by (simp add: arena_ok_def)
  from page_group_addr [OF p this] show "a \<noteq> 0" "pg_ofs a = 0" "unat a + PGSIZE * arena_len ar \<le> 2 ^ 32 - PGSIZE" .
qed

lemma heap_inv_apart:
  assumes "heap_inv s" "arenas s a = Some ar" "arenas s b = Some br" "a \<noteq> b"
  shows "apart a (arena_len ar) b (arena_len br)"
  using assms unfolding heap_inv_def by blast

lemma descs_ok_at:
  assumes "descs_ok (descs s)" "d < length (descs s)" "k < bpa s d"
  shows "0 < bsz s d" "ARENA_SIZE + k * bsz s d < PGSIZE" "ARENA_SIZE + k * bsz s d + bsz s d \<le> PGSIZE"
proof -
  have "descs s ! d \<in> set (descs s)" using assms(2) by simp
  then have ok: "0 < bsz s d" "ARENA_SIZE + bpa s d * bsz s d \<le> PGSIZE" using assms(1) by (auto simp: descs_ok_def)
  show "0 < bsz s d" by fact
  have "Suc k * bsz s d \<le> bpa s d * bsz s d" using assms(3) by (intro mult_le_mono1) simp
  then show "ARENA_SIZE + k * bsz s d + bsz s d \<le> PGSIZE" using ok by simp
  then show "ARENA_SIZE + k * bsz s d < PGSIZE" using ok by simp
qed

lemma blk_addr:
  assumes "heap_inv s" "arenas s a = Some ar" "arena_desc ar = Some d" "k < bpa s d"
  shows "pg_round_down (blk s a d k) = a" "unat (blk s a d k) = unat a + (ARENA_SIZE + k * bsz s d)"
    "pg_ofs (blk s a d k) = of_nat (ARENA_SIZE + k * bsz s d)" "d < length (descs s)" "0 < bsz s d"
    "ARENA_SIZE + k * bsz s d + bsz s d \<le> PGSIZE"
proof -
  show d: "d < length (descs s)" using heap_inv_arena(1) [OF assms(1,2)] assms(3) by (simp add: arena_ok_def)
  have "descs_ok (descs s)" using assms(1) by (simp add: heap_inv_def)
  note D = descs_ok_at [OF this d assms(4)]
  note P = page_offset [OF heap_inv_arena(3) [OF assms(1,2)] D(2), folded blk_def]
  show "pg_round_down (blk s a d k) = a" "pg_ofs (blk s a d k) = of_nat (ARENA_SIZE + k * bsz s d)"
    "unat (blk s a d k) = unat a + (ARENA_SIZE + k * bsz s d)" by (rule P)+
  show "0 < bsz s d" "ARENA_SIZE + k * bsz s d + bsz s d \<le> PGSIZE" by (rule D)+
qed

lemma blk_inj:
  assumes "heap_inv s" "arenas s a = Some ar" "arena_desc ar = Some d" "k < bpa s d"
    and "arenas s b = Some br" "arena_desc br = Some e" "l < bpa s e"
  shows "blk s a d k = blk s b e l \<longleftrightarrow> a = b \<and> k = l"
proof
  assume e: "blk s a d k = blk s b e l"
  then have ab: "a = b" using blk_addr(1) [OF assms(1-4)] blk_addr(1) [OF assms(1,5-7)] by metis
  then have de: "d = e" using assms by simp
  have "unat (blk s a d k) = unat (blk s b e l)" by (simp only: e)
  then have "k * bsz s d = l * bsz s d"
    unfolding blk_addr(2) [OF assms(1-4)] blk_addr(2) [OF assms(1,5-7)] by (simp add: ab de)
  then show "a = b \<and> k = l" using blk_addr(5) [OF assms(1-4)] ab by simp
qed (use assms in auto)

lemma block_to_arena_blk:
  assumes "heap_inv s" "arenas s a = Some ar" "arena_desc ar = Some d" "k < bpa s d"
  shows "block_to_arena s (blk s a d k) = Some a"
proof -
  note B = blk_addr [OF assms] and A = heap_inv_arena [OF assms(1,2)]
  have "of_nat (ARENA_SIZE + k * bsz s d) - of_nat ARENA_SIZE = (of_nat (k * bsz s d) :: u32)"
    by (simp only: of_nat_add add_diff_cancel_left')
  moreover have "unat (of_nat (k * bsz s d) :: u32) = k * bsz s d"
    using B(6) by (intro unat_of_nat_small) (simp add: PGSIZE_def)
  ultimately have "unat (pg_ofs (blk s a d k) - of_nat ARENA_SIZE) mod bsz s d = 0" unfolding B(3) by simp
  then show ?thesis
    using B(1,4) A(2,5) assms(2,3) by (simp add: block_to_arena_def desc_at_def)
qed

lemma block_to_arena_big:
  assumes "heap_inv s" "arenas s a = Some ar" "arena_desc ar = None"
  shows "block_to_arena s (a + of_nat ARENA_SIZE) = Some a"
proof -
  note A = heap_inv_arena [OF assms(1,2)]
  have "ARENA_SIZE < PGSIZE" by (simp add: ARENA_SIZE_def PGSIZE_def)
  from page_offset [OF A(3) this] show ?thesis using A assms by (simp add: block_to_arena_def Let_def)
qed

section \<open>Changing one arena and one free list\<close>

lemma set_free_list_simps [simp]:
  "page_alloc (set_free_list s d f) = page_alloc s" "arenas (set_free_list s d f) = arenas s"
  "length (descs (set_free_list s d f)) = length (descs s)"
  by (simp_all add: set_free_list_def)

lemma set_free_list_desc [simp]:
  "bsz (set_free_list s d f) e = bsz s e" "bpa (set_free_list s d f) e = bpa s e"
  by (cases "d < length (descs s)"; cases "e = d"; simp add: set_free_list_def list_update_beyond)+

lemma set_free_list_fl [simp]:
  "d < length (descs s) \<Longrightarrow> fl (set_free_list s d f) e = (if e = d then f else fl s e)"
  by (simp add: set_free_list_def)

lemma set_free_list_same: "set_free_list s d (fl s d) = s"
  by (simp add: set_free_list_def)

lemma set_free_list_twice [simp]: "set_free_list (set_free_list s d f) d g = set_free_list s d g"
  by (cases "d < length (descs s)") (simp_all add: set_free_list_def list_update_beyond)

lemma set_free_list_arenas:
  "set_free_list (s\<lparr>arenas := A\<rparr>) d f = (set_free_list s d f)\<lparr>arenas := A\<rparr>"
  by (simp add: set_free_list_def)

lemma blk_cong: "bsz s' d = bsz s d \<Longrightarrow> blk s' a d k = blk s a d k"
  by (simp add: blk_def)

lemma descs_ok_cong:
  assumes "length ds' = length ds"
    "\<And>d. desc_block_size (ds' ! d) = desc_block_size (ds ! d)" "\<And>d. blocks_per_arena (ds' ! d) = blocks_per_arena (ds ! d)"
  shows "descs_ok ds' = descs_ok ds"
  using assms by (simp add: descs_ok_def all_set_conv_all_nth)

lemma page_group_cong: "page_alloc s' = page_alloc s \<Longrightarrow> page_group s' a n = page_group s a n"
  by (simp add: page_group_def)

lemma apart_sym: "apart a n b m \<longleftrightarrow> apart b m a n"
  by (auto simp: apart_def)

definition arena_blocks :: "malloc_state \<Rightarrow> u32 \<Rightarrow> nat \<Rightarrow> u32 set" where
  "arena_blocks s a d = {blk s a d k | k. k < bpa s d}"

lemma heap_inv_change:
  fixes s :: malloc_state and f :: "u32 list"
  assumes inv: "heap_inv s" and d: "d < length (descs s)"
    and ar: "arena_magic ar = ARENA_MAGIC" "arena_desc ar = Some d"
      "free_cnt ar = card {k. k < bpa s d \<and> blk s a d k \<in> set f}"
    and page: "page_group s a 1" "\<And>b br. arenas s b = Some br \<Longrightarrow> b \<noteq> a \<Longrightarrow> apart b (arena_len br) a 1"
    and old: "\<And>ar'. arenas s a = Some ar' \<Longrightarrow> arena_desc ar' = Some d"
    and f: "distinct f" "\<And>b. b \<notin> arena_blocks s a d \<Longrightarrow> b \<in> set f \<longleftrightarrow> b \<in> set (fl s d)"
  defines "s' \<equiv> (set_free_list s d f)\<lparr>arenas := (arenas s)(a \<mapsto> ar)\<rparr>"
  shows "heap_inv s'" "live s' = (live s - arena_blocks s a d) \<union> (arena_blocks s a d - set f)"
proof -
  have same: "bsz s' e = bsz s e" "bpa s' e = bpa s e" "fl s' e = (if e = d then f else fl s e)"
    "length (descs s') = length (descs s)" "page_alloc s' = page_alloc s" "blk s' b e k = blk s b e k" for e b k
    using d by (simp_all add: s'_def blk_def)
  have len: "arena_len ar = 1" using ar(2) by (simp add: arena_len_def)
  have a0: "pg_ofs a = 0" using page_group_addr(2) [OF _ page(1)] inv by (simp add: heap_inv_def)
  have other: "blk s b e k \<notin> arena_blocks s a d"
    if "arenas s b = Some br" "arena_desc br = Some e" "b \<noteq> a" "k < bpa s e" for b br e k
  proof
    assume "blk s b e k \<in> arena_blocks s a d"
    then obtain l where l: "l < bpa s d" "blk s b e k = blk s a d l" by (auto simp: arena_blocks_def)
    note a0
    moreover have "ARENA_SIZE + l * bsz s d < PGSIZE" using descs_ok_at(2) d l(1) inv by (simp add: heap_inv_def)
    ultimately have "pg_round_down (blk s a d l) = a" unfolding blk_def by (rule page_offset(1))
    then show False using blk_addr(1) [OF inv that(1,2,4)] l(2) that(3) by simp
  qed
  have ok: "arena_ok s' b br" if "arenas s' b = Some br" for b br
  proof (cases "b = a")
    case True
    then have "br = ar" using that by (simp add: s'_def)
    then show ?thesis using ar page(1) d len True by (simp add: arena_ok_def same page_group_def)
  next
    case False
    then have br: "arenas s b = Some br" using that by (simp add: s'_def)
    then have o: "arena_ok s b br" using inv by (simp add: heap_inv_def)
    have "free_cnt br = card {k. k < bpa s e \<and> blk s b e k \<in> set (fl s' e)}" if e: "arena_desc br = Some e" for e
    proof -
      have "{k. k < bpa s e \<and> blk s b e k \<in> set (fl s' e)} = {k. k < bpa s e \<and> blk s b e k \<in> set (fl s e)}"
        using f(2) other [OF br e False] by (auto simp: same)
      then show ?thesis using o e by (simp add: arena_ok_def)
    qed
    then show ?thesis using o by (simp add: arena_ok_def same page_group_def)
  qed
  have free: "free_ok s' e" if e: "e < length (descs s)" for e
  proof -
    have o: "free_ok s e" using inv e by (simp add: heap_inv_def)
    have "\<exists>c cr k. arenas s' c = Some cr \<and> arena_desc cr = Some e \<and> k < bpa s e \<and> b = blk s c e k"
      if b: "b \<in> set (fl s' e)" for b
    proof (cases "e = d \<and> b \<in> arena_blocks s a d")
      case True
      then show ?thesis using ar by (auto simp: arena_blocks_def s'_def)
    next
      case False
      then have "b \<in> set (fl s e)" using b f(2) by (auto simp: same split: if_splits)
      then obtain c cr k where c: "arenas s c = Some cr" "arena_desc cr = Some e" "k < bpa s e" "b = blk s c e k"
        using o by (auto simp: free_ok_def)
      have "c \<noteq> a" using False c old by (auto simp: arena_blocks_def)
      then show ?thesis using c by (auto simp: s'_def)
    qed
    moreover have "distinct (fl s' e)" using o f(1) by (simp add: same free_ok_def)
    ultimately show ?thesis by (simp add: free_ok_def same)
  qed
  have ap: "apart b (arena_len br) c (arena_len cr)"
    if "arenas s' b = Some br" "arenas s' c = Some cr" "b \<noteq> c" for b br c cr
  proof (cases "b = a \<or> c = a")
    case True
    then show ?thesis using that page(2) len by (auto simp: s'_def apart_sym [of a] split: if_splits)
  next
    case False
    then show ?thesis using that inv by (simp add: s'_def heap_inv_def)
  qed
  have "descs_ok (descs s')"
    using inv by (subst descs_ok_cong [of _ "descs s"]) (simp_all add: same heap_inv_def)
  then show "heap_inv s'" using ok free ap inv by (simp add: heap_inv_def same)
  have live': "arena_live s' b br = arena_live s b br - arena_blocks s a d"
    if "arenas s b = Some br" "b \<noteq> a" for b br
  proof (cases "arena_desc br")
    case None
    have "b + of_nat ARENA_SIZE \<notin> arena_blocks s a d"
    proof
      assume "b + of_nat ARENA_SIZE \<in> arena_blocks s a d"
      then obtain l where l: "l < bpa s d" "b + of_nat ARENA_SIZE = blk s a d l" by (auto simp: arena_blocks_def)
      note a0
      moreover have "ARENA_SIZE + l * bsz s d < PGSIZE" using descs_ok_at(2) d l(1) inv by (simp add: heap_inv_def)
      ultimately have "pg_round_down (blk s a d l) = a" unfolding blk_def by (rule page_offset(1))
      moreover have "pg_round_down (b + of_nat ARENA_SIZE) = b"
        using heap_inv_arena(3) [OF inv that(1)] by (intro page_offset(1)) (simp_all add: ARENA_SIZE_def PGSIZE_def)
      ultimately show False using l(2) that(2) by simp
    qed
    then show ?thesis using None by (auto simp: arena_live_def)
  next
    case (Some e)
    then show ?thesis using other [OF that(1) Some that(2)] f(2) by (auto simp: arena_live_def same)
  qed
  have "arena_live s' a ar = arena_blocks s a d - set f"
    using ar(2) by (simp add: arena_live_def same arena_blocks_def)
  moreover have "arena_live s a ar' \<subseteq> arena_blocks s a d" if "arenas s a = Some ar'" for ar'
    using old [OF that] by (auto simp: arena_live_def arena_blocks_def)
  ultimately show "live s' = (live s - arena_blocks s a d) \<union> (arena_blocks s a d - set f)"
    using live' unfolding live_def s'_def by (fastforce split: if_splits)
qed

section \<open>Pages for the heap\<close>

lemma groups_disjoint:
  assumes "is_group xs j m True" "is_group xs k n False" "0 < m" "0 < n"
  shows "j + m \<le> k \<or> k + n \<le> j"
proof (rule ccontr)
  assume "\<not> ?thesis"
  then have "max k j < k + n" "k \<le> max k j" "j \<le> max k j" "max k j < j + m" using assms(3,4) by auto
  then show False using is_group_nth [OF assms(1)] is_group_nth [OF assms(2)] by metis
qed

lemma page_group_fill:
  assumes "is_group xs j m v" "k + n \<le> length xs" "j + m \<le> k \<or> k + n \<le> j \<or> w = v"
  shows "is_group (fill xs k n w) j m v"
  using assms by (auto simp: is_group_def nth_fill)

lemma selected_kernel [simp]: "selected_pool p 0 = kernel_pool p" "with_pool p 0 q = p\<lparr>kernel_pool := q\<rparr>"
  by (simp_all add: selected_pool_def with_pool_def)

lemma live_page_alloc [simp]: "live (s\<lparr>page_alloc := p\<rparr>) = live s"
  by (simp add: live_def arena_live_def blk_def cong: option.case_cong)

lemma live_page:
  assumes "heap_inv s" "b \<in> live s"
  obtains a ar where "arenas s a = Some ar" "pg_round_down b = a" "b \<in> arena_live s a ar"
proof -
  obtain a ar where a: "arenas s a = Some ar" "b \<in> arena_live s a ar" using assms(2) by (auto simp: live_def)
  moreover have "pg_round_down b = a"
  proof (cases "arena_desc ar")
    case None
    then have "b = a + of_nat ARENA_SIZE" using a(2) by (simp add: arena_live_def)
    then show ?thesis
      using page_offset(1) [OF heap_inv_arena(3) [OF assms(1) a(1)], of ARENA_SIZE] by (simp add: ARENA_SIZE_def PGSIZE_def)
  next
    case (Some d)
    then show ?thesis using a(2) blk_addr(1) [OF assms(1) a(1) Some] by (auto simp: arena_live_def)
  qed
  ultimately show ?thesis using that by blast
qed

lemma heap_pages:
  assumes inv: "heap_inv s" and n: "0 < n"
  obtains a p where "palloc_get_multiple (page_alloc s) 0 n = Some (a, p)" "a = 0 \<Longrightarrow> p = page_alloc s"
    "a \<noteq> 0 \<Longrightarrow> heap_inv (s\<lparr>page_alloc := p\<rparr>)" "a \<noteq> 0 \<Longrightarrow> page_group (s\<lparr>page_alloc := p\<rparr>) a n"
    "\<And>b br. a \<noteq> 0 \<Longrightarrow> arenas s b = Some br \<Longrightarrow> apart b (arena_len br) a n"
proof -
  have pinv: "palloc_inv (page_alloc s)" using inv by (simp add: heap_inv_def)
  then have kinv: "pool_inv (kpool s)" by (simp add: palloc_inv_def)
  obtain a p where get: "palloc_get_multiple (page_alloc s) 0 n = Some (a, p)" and zero: "a = 0 \<Longrightarrow> p = page_alloc s"
    using palloc_get_multiple_spec [OF pinv n, of 0] kinv pool_page_facts(1) [OF kinv] n
    by (fastforce simp: is_group_def split: if_splits)
  show ?thesis
  proof (cases "a = 0")
    case True
    then show ?thesis using that get zero by blast
  next
    case False
    obtain k um where k: "a = pool_page (kpool s) k" "is_group (pool_used (kpool s)) k n False"
      "bit_cnt um = bit_cnt (used_map (kpool s))" "bm_abs um = fill (pool_used (kpool s)) k n True"
      and p: "p = (page_alloc s)\<lparr>kernel_pool := (kpool s)\<lparr>used_map := um\<rparr>\<rparr>"
      using get_group [OF pinv get False] by (auto simp: PAL_ZERO_def)
    let ?s = "s\<lparr>page_alloc := p\<rparr>"
    have kb: "k + n \<le> length (pool_used (kpool s))" using k(2) by (simp add: is_group_def)
    have pool_page: "pool_page (kpool ?s) i = pool_page (kpool s) i" for i by (simp add: p pool_page_def)
    have group: "page_group ?s b m" if "page_group s b m" for b m
      using that page_group_fill [OF _ kb, of _ m True True] by (auto simp: page_group_def p k(4) pool_page_def)
    have new: "page_group ?s a n"
      using k kb n by (auto simp: page_group_def p pool_page_def is_group_def nth_fill)
    have apart: "apart b (arena_len br) a n" if b: "arenas s b = Some br" for b br
    proof -
      have "page_group s b (arena_len br)" using heap_inv_arena(1) [OF inv b] by (simp add: arena_ok_def)
      then obtain j where j: "0 < arena_len br" "b = pool_page (kpool s) j"
        "is_group (pool_used (kpool s)) j (arena_len br) True" by (auto simp: page_group_def)
      have "j + arena_len br \<le> k \<or> k + n \<le> j" by (rule groups_disjoint [OF j(3) k(2) j(1) n])
      then show ?thesis
        using group_range(1) [OF kinv j(3,1)] group_range(1) [OF kinv k(2) n] unfolding apart_def j(2) k(1)
        by (auto simp: PGSIZE_def)
    qed
    have "palloc_inv p" using palloc_get_multiple_inv [OF pinv get] .
    moreover have "arena_ok ?s b br" if "arenas s b = Some br" for b br
      using heap_inv_arena(1) [OF inv that] group by (simp add: arena_ok_def blk_def)
    moreover have "free_ok ?s d" if "d < length (descs s)" for d
      using inv that by (simp add: heap_inv_def free_ok_def blk_def)
    ultimately have "heap_inv ?s" using inv by (simp add: heap_inv_def)
    then show ?thesis using that [OF get] False new apart by blast
  qed
qed

lemma heap_pages_fresh:
  assumes "heap_inv s" "page_group s' a n" "\<And>b br. arenas s b = Some br \<Longrightarrow> apart b (arena_len br) a n"
  shows "arenas s a = None"
proof (rule ccontr)
  assume "arenas s a \<noteq> None"
  then obtain ar where "arenas s a = Some ar" by auto
  from assms(3) [OF this] heap_inv_arena(6) [OF assms(1) this] assms(2)
  show False by (auto simp: apart_def page_group_def PGSIZE_def)
qed

end
