(* ===== verification/Kernel_Malloc_Safe.thy ===== *)
theory Kernel_Malloc_Safe
  imports Kernel_Malloc
begin

text \<open>
  \<open>malloc\<close> and \<open>free\<close> keep the heap invariant and do to the set of blocks in use what they
  promise; blocks in use are disjoint; the client that releases only what it holds.
\<close>

section \<open>Allocation\<close>

lemma arena_to_block_ok:
  assumes "arenas s a = Some ar" "arena_magic ar = ARENA_MAGIC" "arena_desc ar = Some d" "a \<noteq> 0"
    and "d < length (descs s)" "i < bpa s d"
  shows "arena_to_block s a i = Some (blk s a d i)"
  using assms by (simp add: arena_to_block_def desc_at_def blk_def)

lemma add_blocks_ok:
  assumes "arenas s a = Some ar" "arena_magic ar = ARENA_MAGIC" "arena_desc ar = Some d" "a \<noteq> 0"
    and "d < length (descs s)" "i + n \<le> bpa s d"
  shows "add_blocks n a d i s = Some (set_free_list s d (fl s d @ map (blk s a d) [i..<i + n]))"
  using assms
proof (induction n arbitrary: i s)
  case 0
  then show ?case by (simp add: set_free_list_same)
next
  case (Suc n)
  let ?s = "set_free_list s d (fl s d @ [blk s a d i])"
  have "blk ?s a d = blk s a d" by (rule ext) (simp add: blk_def)
  then have "add_blocks n a d (i + 1) ?s =
      Some (set_free_list s d ((fl s d @ [blk s a d i]) @ map (blk s a d) [i + 1..<i + 1 + n]))"
    using Suc.IH [of ?s "i + 1"] Suc.prems by simp
  moreover have "[i..<i + Suc n] = i # [i + 1..<i + 1 + n]" by (simp add: upt_conv_Cons del: upt_Suc)
  ultimately show ?case using arena_to_block_ok [OF Suc.prems(1-5), of i] Suc.prems(6) by simp
qed

lemma live_small:
  assumes "heap_inv s" "arenas s a = Some ar" "arena_desc ar = Some d"
  shows "live s \<inter> arena_blocks s a d = arena_blocks s a d - set (fl s d)"
proof -
  have "b \<in> arena_live s a ar" if bl: "b \<in> live s" "b \<in> arena_blocks s a d" for b
  proof -
    obtain a' ar' where "arenas s a' = Some ar'" "pg_round_down b = a'" "b \<in> arena_live s a' ar'"
      using live_page [OF assms(1) bl(1)] by blast
    moreover have "pg_round_down b = a" using bl(2) blk_addr(1) [OF assms] by (auto simp: arena_blocks_def)
    ultimately show ?thesis using assms(2) by simp
  qed
  moreover have "arena_live s a ar = arena_blocks s a d - set (fl s d)"
    using assms(3) by (simp add: arena_live_def arena_blocks_def)
  moreover have "arena_live s a ar \<subseteq> live s" using assms(2) by (auto simp: live_def)
  ultimately show ?thesis by blast
qed

lemma block_to_arena_cong:
  assumes "arenas s' a = Some ar'" "arenas s a = Some ar" "a = pg_round_down b"
    "arena_magic ar' = arena_magic ar" "arena_desc ar' = arena_desc ar"
    "length (descs s') = length (descs s)" "\<And>e. bsz s' e = bsz s e"
  shows "block_to_arena s' b = block_to_arena s b"
  using assms by (cases "arena_desc ar") (simp_all add: block_to_arena_def desc_at_def)

lemma block_size_cong:
  assumes "arenas s' a = Some ar'" "arenas s a = Some ar" "a = pg_round_down b"
    "arena_magic ar' = arena_magic ar" "arena_desc ar' = arena_desc ar" "arena_desc ar = None \<Longrightarrow> free_cnt ar' = free_cnt ar"
    "length (descs s') = length (descs s)" "\<And>e. bsz s' e = bsz s e"
  shows "block_size s' b = block_size s b"
proof (cases "block_to_arena s b")
  case None
  then show ?thesis using block_to_arena_cong [OF assms(1-5,7,8)] by (simp add: block_size_def)
next
  case (Some c)
  then have "c = a" using assms(3) by (auto simp: block_to_arena_def Let_def kbind split: option.splits)
  then show ?thesis
    using Some block_to_arena_cong [OF assms(1-5,7,8)] assms
    by (cases "arena_desc ar") (simp_all add: block_size_def desc_at_def)
qed

lemma block_size_small:
  assumes "heap_inv s" "arenas s a = Some ar" "arena_desc ar = Some d" "k < bpa s d"
  shows "block_size s (blk s a d k) = Some (bsz s d)"
  using block_to_arena_blk [OF assms] blk_addr(4) [OF assms] assms(2,3) by (simp add: block_size_def desc_at_def)

lemma block_size_big:
  assumes "heap_inv s" "arenas s a = Some ar" "arena_desc ar = None"
  shows "block_size s (a + of_nat ARENA_SIZE) = Some (PGSIZE * free_cnt ar - ARENA_SIZE)"
proof -
  have "ARENA_SIZE < PGSIZE" by (simp add: ARENA_SIZE_def PGSIZE_def)
  from page_offset(2) [OF heap_inv_arena(3) [OF assms(1,2)] this]
  have "unat (pg_ofs (a + of_nat ARENA_SIZE)) = ARENA_SIZE" by (simp add: ARENA_SIZE_def)
  then show ?thesis using block_to_arena_big [OF assms] assms by (simp add: block_size_def)
qed

text \<open>What an operation leaves of the blocks it is not about.\<close>

definition keeps_sizes :: "malloc_state \<Rightarrow> malloc_state \<Rightarrow> bool" where
  "keeps_sizes s s' \<longleftrightarrow> (\<forall>b \<in> live s \<inter> live s'. block_size s' b = block_size s b)"

lemma keeps_sizesI:
  assumes inv: "heap_inv s" and same: "length (descs s') = length (descs s)" "\<And>e. bsz s' e = bsz s e"
    and A: "\<And>b a ar. b \<in> live s \<Longrightarrow> b \<in> live s' \<Longrightarrow> a = pg_round_down b \<Longrightarrow> arenas s a = Some ar \<Longrightarrow>
      \<exists>ar'. arenas s' a = Some ar' \<and> arena_magic ar' = arena_magic ar \<and> arena_desc ar' = arena_desc ar \<and>
        (arena_desc ar = None \<longrightarrow> free_cnt ar' = free_cnt ar)"
  shows "keeps_sizes s s'"
  unfolding keeps_sizes_def
proof
  fix b assume b: "b \<in> live s \<inter> live s'"
  then obtain a ar where a: "arenas s a = Some ar" "pg_round_down b = a" using live_page [OF inv] by blast
  with A b obtain ar' where ar': "arenas s' a = Some ar'" "arena_magic ar' = arena_magic ar" "arena_desc ar' = arena_desc ar"
    "arena_desc ar = None \<longrightarrow> free_cnt ar' = free_cnt ar" by blast
  show "block_size s' b = block_size s b"
    by (rule block_size_cong [OF ar'(1) a(1) a(2) [symmetric] ar'(2,3) _ same]) (use ar'(4) in blast)
qed

lemma keeps_sizes_refl: "keeps_sizes s s"
  by (simp add: keeps_sizes_def)

lemma keeps_sizes_trans:
  "keeps_sizes s s1 \<Longrightarrow> keeps_sizes s1 s2 \<Longrightarrow> live s \<inter> live s2 \<subseteq> live s1 \<Longrightarrow> keeps_sizes s s2"
  unfolding keeps_sizes_def by (metis IntD1 IntD2 IntI subsetD)

definition arena_result :: "malloc_state \<Rightarrow> nat \<Rightarrow> bool \<Rightarrow> malloc_state \<Rightarrow> bool" where
  "arena_result s d ok s' \<longleftrightarrow> heap_inv s' \<and> live s' = live s \<and> length (descs s') = length (descs s) \<and>
     (\<forall>e. bsz s' e = bsz s e \<and> bpa s' e = bpa s e) \<and> keeps_sizes s s' \<and>
     (if ok then fl s' d \<noteq> [] \<and> (\<forall>b br. arenas s' b = Some br \<longrightarrow>
        arenas s b = Some br \<or> arena_desc br = Some d \<and> set (fl s' d) = arena_blocks s' b d)
      else s' = s)"

lemma new_arena_ok:
  assumes inv: "heap_inv s" and d: "d < length (descs s)" and empty: "fl s d = []"
  shows "\<exists>ok s'. new_arena s d = Some (ok, s') \<and> arena_result s d ok s'"
proof -
  obtain a p where get: "palloc_get_multiple (page_alloc s) 0 1 = Some (a, p)" "a = 0 \<Longrightarrow> p = page_alloc s"
    and hp: "a \<noteq> 0 \<Longrightarrow> heap_inv (s\<lparr>page_alloc := p\<rparr>)" "a \<noteq> 0 \<Longrightarrow> page_group (s\<lparr>page_alloc := p\<rparr>) a 1"
    "\<And>b br. a \<noteq> 0 \<Longrightarrow> arenas s b = Some br \<Longrightarrow> apart b (arena_len br) a 1"
    using heap_pages [OF inv, of 1] by auto
  show ?thesis
  proof (cases "a = 0")
    case True
    then have "new_arena s d = Some (False, s)"
      using get by (simp add: new_arena_def palloc_get_page_def)
    then show ?thesis using inv keeps_sizes_refl by (auto simp: arena_result_def)
  next
    case False
    let ?s = "s\<lparr>page_alloc := p\<rparr>"
    let ?ar = "\<lparr>arena_magic = ARENA_MAGIC, arena_desc = Some d, free_cnt = bpa s d\<rparr>"
    let ?f = "map (blk ?s a d) [0..<bpa s d]"
    let ?s' = "(set_free_list ?s d ?f)\<lparr>arenas := (arenas ?s)(a \<mapsto> ?ar)\<rparr>"
    have fresh: "arenas s a = None" by (rule heap_pages_fresh [OF inv hp(2) [OF False] hp(3) [OF False]])
    have D: "0 < bpa s d" using inv d by (simp add: heap_inv_def descs_ok_def)
    have f: "set ?f = arena_blocks ?s a d" by (auto simp: arena_blocks_def)
    have inj: "inj_on (blk ?s a d) {0..<bpa s d}"
    proof (rule inj_onI)
      fix k l
      assume kl: "k \<in> {0..<bpa s d}" "l \<in> {0..<bpa s d}" "blk ?s a d k = blk ?s a d l"
      have ok: "descs_ok (descs s)" using inv by (simp add: heap_inv_def)
      have "pg_ofs a = 0" using page_group_addr(2) [OF _ hp(2) [OF False]] hp(1) [OF False] by (simp add: heap_inv_def)
      then have "ARENA_SIZE + k * bsz s d = ARENA_SIZE + l * bsz s d"
        using page_offset(3) [of a "ARENA_SIZE + k * bsz s d"] page_offset(3) [of a "ARENA_SIZE + l * bsz s d"] kl
          descs_ok_at(2) [OF ok d, of k] descs_ok_at(2) [OF ok d, of l] by (auto simp: blk_def)
      then show "k = l" using descs_ok_at(1) [OF ok d, of k] kl(1) by simp
    qed
    have "(?s\<lparr>arenas := (arenas s)(a \<mapsto> ?ar)\<rparr>) = (s\<lparr>page_alloc := p, arenas := (arenas s)(a \<mapsto> ?ar)\<rparr>)" by simp
    moreover have "blk (?s\<lparr>arenas := (arenas s)(a \<mapsto> ?ar)\<rparr>) a d = blk ?s a d" by (rule ext) (simp add: blk_def)
    ultimately have add: "add_blocks (bpa s d) a d 0 (s\<lparr>page_alloc := p, arenas := (arenas s)(a \<mapsto> ?ar)\<rparr>) = Some ?s'"
      using add_blocks_ok [of "?s\<lparr>arenas := (arenas s)(a \<mapsto> ?ar)\<rparr>" a ?ar d 0 "bpa s d"] False d empty
      by (simp add: set_free_list_arenas)
    have P1: "d < length (descs ?s)" using d by simp
    have "{k. k < bpa ?s d \<and> blk ?s a d k \<in> set ?f} = {..<bpa s d}" unfolding f by (auto simp: arena_blocks_def)
    then have P2: "free_cnt ?ar = card {k. k < bpa ?s d \<and> blk ?s a d k \<in> set ?f}" by simp
    have P3: "apart b (arena_len br) a 1" if "arenas ?s b = Some br" "b \<noteq> a" for b br
      using hp(3) [OF False] that by simp
    have P4: "arena_desc ar' = Some d" if "arenas ?s a = Some ar'" for ar' using that fresh by simp
    have P5: "distinct ?f" using inj by (simp add: distinct_map)
    have P6: "b \<in> set ?f \<longleftrightarrow> b \<in> set (fl ?s d)" if "b \<notin> arena_blocks ?s a d" for b using that f empty by simp
    have "heap_inv ?s'" "live ?s' = (live ?s - arena_blocks ?s a d) \<union> (arena_blocks ?s a d - set ?f)"
      by (rule heap_inv_change [OF hp(1) [OF False] P1 _ _ P2 hp(2) [OF False] P3 P4 P5 P6]; simp)+
    moreover have "live s \<inter> arena_blocks ?s a d = {}"
    proof -
      have "b \<notin> arena_blocks ?s a d" if bl: "b \<in> live s" for b
      proof
        assume "b \<in> arena_blocks ?s a d"
        then obtain k where k: "k < bpa s d" "b = a + of_nat (ARENA_SIZE + k * bsz s d)"
          by (auto simp: arena_blocks_def blk_def)
        have ok: "descs_ok (descs s)" using inv by (simp add: heap_inv_def)
        have "pg_ofs a = 0" using page_group_addr(2) [OF _ hp(2) [OF False]] hp(1) [OF False] by (simp add: heap_inv_def)
        then have "pg_round_down b = a" using descs_ok_at(2) [OF ok d k(1)] unfolding k(2) by (rule page_offset(1))
        moreover obtain a' ar where "arenas s a' = Some ar" "pg_round_down b = a'" using live_page [OF inv bl] by blast
        ultimately show False using fresh by simp
      qed
      then show ?thesis by blast
    qed
    ultimately have I: "heap_inv ?s'" "live ?s' = live s" using f by auto
    have new: "new_arena s d = Some (True, ?s')"
      using get(1) False add by (simp add: new_arena_def palloc_get_page_def)
    have "arenas s b = Some br \<or> arena_desc br = Some d \<and> set (fl ?s' d) = arena_blocks ?s' b d" if "arenas ?s' b = Some br" for b br
      using that d f by (auto simp: arena_blocks_def blk_def split: if_splits)
    moreover have "keeps_sizes s ?s'"
      by (rule keeps_sizesI [OF inv]) (use fresh in auto)
    moreover have "fl ?s' d \<noteq> []" using d D by simp
    ultimately have "arena_result s d True ?s'" using I unfolding arena_result_def by simp
    then show ?thesis using new by blast
  qed
qed

lemma free_list_entry:
  assumes "heap_inv s" "d < length (descs s)" "b \<in> set (fl s d)"
  obtains a ar k where "arenas s a = Some ar" "arena_desc ar = Some d" "k < bpa s d" "b = blk s a d k"
proof -
  have "free_ok s d" using assms(1,2) by (simp add: heap_inv_def)
  then show ?thesis using assms(3) that unfolding free_ok_def by blast
qed

lemma block_indices:
  assumes "heap_inv s" "arenas s a = Some ar" "arena_desc ar = Some d" "k < bpa s d" "b = blk s a d k" "b \<notin> set f"
  shows "card {k. k < bpa s d \<and> blk s a d k \<in> set (b # f)} = Suc (card {k. k < bpa s d \<and> blk s a d k \<in> set f})"
proof -
  have "{k. k < bpa s d \<and> blk s a d k \<in> set (b # f)} = insert k {k. k < bpa s d \<and> blk s a d k \<in> set f}"
  proof -
    have "blk s a d l \<in> set (b # f) \<longleftrightarrow> l = k \<or> blk s a d l \<in> set f" if "l < bpa s d" for l
      using blk_inj [OF assms(1-3) that assms(2-4)] assms(5) by simp
    then show ?thesis using assms(4) by auto
  qed
  moreover have "k \<notin> {k. k < bpa s d \<and> blk s a d k \<in> set f}" using assms(5,6) by simp
  ultimately show ?thesis by simp
qed

lemma take_block_ok:
  assumes inv: "heap_inv s" and d: "d < length (descs s)" and fl: "fl s d = b # bs"
    and idle: "\<And>a ar e. arenas s a = Some ar \<Longrightarrow> arena_desc ar = Some e \<Longrightarrow> free_cnt ar < bpa s e \<or> b \<in> arena_blocks s a e"
  obtains s' where "take_block s d = Some (b, s')" "heap_inv s'" "no_idle s'" "b \<noteq> 0" "b \<notin> live s" "live s' = insert b (live s)"
    "block_size s' b = Some (bsz s d)" "keeps_sizes s s'"
proof -
  have dist: "distinct (b # bs)" using inv d fl by (auto simp: heap_inv_def free_ok_def)
  obtain a ar k where a: "arenas s a = Some ar" "arena_desc ar = Some d" "k < bpa s d" "b = blk s a d k"
    using free_list_entry [OF inv d, of b] fl by auto
  let ?ar = "ar\<lparr>free_cnt := free_cnt ar - 1\<rparr>"
  let ?s = "(set_free_list s d bs)\<lparr>arenas := (arenas s)(a \<mapsto> ?ar)\<rparr>"
  have b: "b \<in> arena_blocks s a d" using a(3,4) by (auto simp: arena_blocks_def)
  have cnt: "free_cnt ar = Suc (card {k. k < bpa s d \<and> blk s a d k \<in> set bs})"
    using heap_inv_arena(1) [OF inv a(1)] a(2) block_indices [OF inv a, of bs] dist fl by (simp add: arena_ok_def)
  have page: "page_group s a 1" using heap_inv_arena(1) [OF inv a(1)] a(2) by (simp add: arena_ok_def arena_len_def)
  have rb: "pg_round_down b = a" "block_to_arena s b = Some a"
    using blk_addr(1) [OF inv a(1-3)] block_to_arena_blk [OF inv a(1-3)] by (simp_all only: a(4))
  have "block_to_arena (set_free_list s d bs) b = block_to_arena s b"
    by (rule block_to_arena_cong [OF _ a(1) rb(1) [symmetric] refl refl]) (simp_all add: a(1))
  then have "block_to_arena (set_free_list s d bs) b = Some a" by (simp only: rb(2))
  then have take: "take_block s d = Some (b, ?s)"
    using a(1) fl by (simp add: take_block_def Let_def)
  have apart: "apart c (arena_len cr) a 1" if "arenas s c = Some cr" "c \<noteq> a" for c cr
    using heap_inv_apart [OF inv that(1) a(1) that(2)] a(2) by (simp add: arena_len_def)
  have P: "arena_magic ?ar = ARENA_MAGIC" "arena_desc ?ar = Some d"
    "free_cnt ?ar = card {k. k < bpa s d \<and> blk s a d k \<in> set bs}"
    using heap_inv_arena(5) [OF inv a(1)] a(2) cnt by simp_all
  have Q: "distinct bs" "\<And>c. c \<notin> arena_blocks s a d \<Longrightarrow> c \<in> set bs \<longleftrightarrow> c \<in> set (fl s d)"
    using dist b fl by auto
  have old: "\<And>ar'. arenas s a = Some ar' \<Longrightarrow> arena_desc ar' = Some d" using a(1,2) by simp
  have C: "heap_inv ?s" "live ?s = (live s - arena_blocks s a d) \<union> (arena_blocks s a d - set bs)"
    by (rule heap_inv_change [OF inv d P page apart old Q]; assumption)+
  have live: "live s \<inter> arena_blocks s a d = arena_blocks s a d - set (b # bs)"
    using live_small [OF inv a(1,2)] fl by simp
  have l: "b \<notin> live s" "live ?s = insert b (live s)"
    using live b dist C(2) by auto
  have "free_cnt ?ar < bpa s d"
  proof -
    have "card {k. k < bpa s d \<and> blk s a d k \<in> set (b # bs)} \<le> card {..<bpa s d}" by (intro card_mono) auto
    then show ?thesis using cnt block_indices [OF inv a, of bs] dist by simp
  qed
  moreover have "free_cnt cr < bpa s e" if "c \<noteq> a" "arenas s c = Some cr" "arena_desc cr = Some e" for c cr e
  proof -
    have "b \<notin> arena_blocks s c e"
      using that blk_inj [OF inv a(1-3) that(2,3)] a(4) by (auto simp: arena_blocks_def)
    then show ?thesis using idle [OF that(2,3)] by blast
  qed
  ultimately have no_idle: "no_idle ?s"
    using a(2) unfolding no_idle_def by (auto split: if_splits)
  have "unat b \<noteq> 0" using blk_addr(2) [OF inv a(1-3)] a(4) by (simp add: ARENA_SIZE_def)
  then have nz: "b \<noteq> 0" by auto
  have "block_size ?s (blk ?s a d k) = Some (bsz ?s d)"
    by (rule block_size_small [OF C(1), of a ?ar]) (use a in simp_all)
  then have "block_size ?s b = Some (bsz s d)" using a(4) by (simp add: blk_def)
  moreover have "keeps_sizes s ?s"
    by (rule keeps_sizesI [OF inv]) (use a in auto)
  ultimately show ?thesis using that [OF take C(1) no_idle nz l] by blast
qed

lemma find_desc_bounds:
  "i \<le> find_desc ds sz i \<and> find_desc ds sz i \<le> i + length ds \<and>
    (find_desc ds sz i < i + length ds \<longrightarrow> sz \<le> desc_block_size (ds ! (find_desc ds sz i - i)))"
proof (induction ds arbitrary: i)
  case (Cons d ds)
  show ?case using Cons [of "i + 1"] by (auto simp: nth_Cons')
qed simp

lemma heap_inv_add_big:
  assumes inv: "heap_inv s" and page: "page_group s a n" and ap: "\<And>b br. arenas s b = Some br \<Longrightarrow> apart b (arena_len br) a n"
  defines "s' \<equiv> s\<lparr>arenas := (arenas s)(a \<mapsto> \<lparr>arena_magic = ARENA_MAGIC, arena_desc = None, free_cnt = n\<rparr>)\<rparr>"
  shows "heap_inv s'" "live s' = insert (a + of_nat ARENA_SIZE) (live s)" "a + of_nat ARENA_SIZE \<notin> live s" "arenas s a = None"
proof -
  let ?ar = "\<lparr>arena_magic = ARENA_MAGIC, arena_desc = None, free_cnt = n\<rparr>"
  show fresh: "arenas s a = None" by (rule heap_pages_fresh [OF inv page ap])
  have same: "page_alloc s' = page_alloc s" "descs s' = descs s" by (simp_all add: s'_def)
  have ok: "arena_ok s' b br" if "arenas s' b = Some br" for b br
  proof (cases "b = a")
    case True
    then have br: "br = ?ar" using that by (auto simp: s'_def)
    show ?thesis unfolding br using page True by (simp add: s'_def arena_ok_def arena_len_def page_group_def)
  next
    case False
    then show ?thesis using that heap_inv_arena(1) [OF inv, of b br] by (simp add: s'_def arena_ok_def page_group_def blk_def)
  qed
  moreover have "apart b (arena_len br) c (arena_len cr)" if bc: "arenas s' b = Some br" "arenas s' c = Some cr" "b \<noteq> c" for b br c cr
  proof -
    have len: "arena_len ?ar = n" by (simp add: arena_len_def)
    consider "b = a" "br = ?ar" "arenas s c = Some cr" | "c = a" "cr = ?ar" "arenas s b = Some br"
      | "arenas s b = Some br" "arenas s c = Some cr"
      using bc by (cases "b = a"; cases "c = a") (auto simp: s'_def)
    then show ?thesis
    proof cases
      case 1
      then show ?thesis using ap [OF 1(3)] len by (simp add: apart_sym [of a])
    next
      case 2
      then show ?thesis using ap [OF 2(3)] len by simp
    next
      case 3
      then show ?thesis using heap_inv_apart [OF inv 3 bc(3)] by simp
    qed
  qed
  moreover have "free_ok s' d" if d: "d < length (descs s)" for d
  proof -
    have o: "free_ok s d" using inv d by (simp add: heap_inv_def)
    have "\<exists>c cr k. arenas s' c = Some cr \<and> arena_desc cr = Some d \<and> k < bpa s d \<and> b = blk s c d k" if bf: "b \<in> set (fl s d)" for b
    proof -
      obtain c cr k where "arenas s c = Some cr" "arena_desc cr = Some d" "k < bpa s d" "b = blk s c d k"
        using free_list_entry [OF inv d bf] .
      then show ?thesis using fresh by (intro exI [of _ c] exI [of _ cr] exI [of _ k]) (auto simp: s'_def)
    qed
    then show ?thesis using o by (simp add: free_ok_def same blk_def)
  qed
  ultimately show "heap_inv s'" using inv by (simp add: heap_inv_def same)
  have al: "arena_live s' b br = arena_live s b br" for b br
    by (simp add: arena_live_def same blk_def cong: option.case_cong)
  have "x \<in> live s' \<longleftrightarrow> x = a + of_nat ARENA_SIZE \<or> x \<in> live s" for x
  proof
    assume "x \<in> live s'"
    then show "x = a + of_nat ARENA_SIZE \<or> x \<in> live s"
      unfolding live_def mem_Collect_eq al by (auto simp: s'_def arena_live_def [of _ a ?ar] split: if_splits)
  next
    assume "x = a + of_nat ARENA_SIZE \<or> x \<in> live s"
    then show "x \<in> live s'"
    proof
      assume "x = a + of_nat ARENA_SIZE"
      then have "arenas s' a = Some ?ar" "x \<in> arena_live s a ?ar" by (simp_all add: s'_def arena_live_def)
      then show ?thesis unfolding live_def mem_Collect_eq al by blast
    next
      assume "x \<in> live s"
      then obtain b br where b: "arenas s b = Some br" "x \<in> arena_live s b br" by (auto simp: live_def)
      then have "arenas s' b = Some br" using fresh by (auto simp: s'_def)
      then show ?thesis using b(2) unfolding live_def mem_Collect_eq al by blast
    qed
  qed
  then show "live s' = insert (a + of_nat ARENA_SIZE) (live s)" by blast
  show "a + of_nat ARENA_SIZE \<notin> live s"
  proof
    assume l: "a + of_nat ARENA_SIZE \<in> live s"
    have "pg_ofs a = 0" using page_group_addr(2) [OF _ page] inv by (simp add: heap_inv_def)
    then have "pg_round_down (a + of_nat ARENA_SIZE) = a" by (rule page_offset(1)) (simp add: ARENA_SIZE_def PGSIZE_def)
    moreover obtain c cr where "arenas s c = Some cr" "pg_round_down (a + of_nat ARENA_SIZE) = c"
      using live_page [OF inv l] by blast
    ultimately show False using fresh by simp
  qed
qed

text \<open>What \<open>malloc\<close> promises: a null pointer and no change for the client, or a new block that is large
  enough.\<close>

definition malloc_result :: "malloc_state \<Rightarrow> nat \<Rightarrow> u32 \<Rightarrow> malloc_state \<Rightarrow> bool" where
  "malloc_result s sz r s' \<longleftrightarrow> malloc_inv s' \<and> keeps_sizes s s' \<and>
     (if r = 0 then live s' = live s
      else r \<notin> live s \<and> live s' = insert r (live s) \<and> (\<exists>n. block_size s' r = Some n \<and> sz \<le> n))"

lemma malloc_big:
  assumes inv: "malloc_inv s" and d: "find_desc (descs s) sz 0 = length (descs s)"
    and sz: "0 < sz" "sz + ARENA_SIZE + PGSIZE \<le> 2 ^ 32"
  shows "\<exists>r s'. malloc s sz = Some (r, s') \<and> malloc_result s sz r s'"
proof -
  let ?n = "(sz + ARENA_SIZE + (PGSIZE - 1)) div PGSIZE"
  have heap: "heap_inv s" using inv by (simp add: malloc_inv_def)
  have n: "DIV_ROUND_UP (add32 sz ARENA_SIZE) PGSIZE = ?n"
    using sz(2) by (simp add: DIV_ROUND_UP_def add32_def PGSIZE_def ARENA_SIZE_def)
  have n0: "0 < ?n" by (simp add: PGSIZE_def ARENA_SIZE_def)
  obtain a p where get: "palloc_get_multiple (page_alloc s) 0 ?n = Some (a, p)" "a = 0 \<Longrightarrow> p = page_alloc s"
    and hp: "a \<noteq> 0 \<Longrightarrow> heap_inv (s\<lparr>page_alloc := p\<rparr>)" "a \<noteq> 0 \<Longrightarrow> page_group (s\<lparr>page_alloc := p\<rparr>) a ?n"
    "\<And>b br. a \<noteq> 0 \<Longrightarrow> arenas s b = Some br \<Longrightarrow> apart b (arena_len br) a ?n"
    using heap_pages [OF heap n0] by metis
  show ?thesis
  proof (cases "a = 0")
    case True
    then have "malloc s sz = Some (0, s)" using get n d sz(1) by (simp add: malloc_def)
    then show ?thesis using inv keeps_sizes_refl by (simp add: malloc_result_def)
  next
    case False
    let ?s = "s\<lparr>page_alloc := p\<rparr>"
    let ?s' = "?s\<lparr>arenas := (arenas ?s)(a \<mapsto> \<lparr>arena_magic = ARENA_MAGIC, arena_desc = None, free_cnt = ?n\<rparr>)\<rparr>"
    let ?r = "a + of_nat ARENA_SIZE"
    have ap: "apart b (arena_len br) a ?n" if "arenas ?s b = Some br" for b br using hp(3) [OF False] that by simp
    note B = heap_inv_add_big [OF hp(1) [OF False] hp(2) [OF False] ap]
    have m: "malloc s sz = Some (?r, ?s')" using get False n d sz(1) by (simp add: malloc_def)
    have "no_idle ?s'" using inv by (auto simp: malloc_inv_def no_idle_def)
    then have i: "malloc_inv ?s'" using B(1) by (simp add: malloc_inv_def)
    have "block_size ?s' ?r = Some (PGSIZE * ?n - ARENA_SIZE)"
      using block_size_big [OF B(1), of a] by simp
    moreover have "sz \<le> PGSIZE * ?n - ARENA_SIZE" by (simp add: PGSIZE_def ARENA_SIZE_def)
    moreover have "keeps_sizes s ?s'" by (rule keeps_sizesI [OF heap]) (use B(4) in auto)
    moreover have "?r \<noteq> 0"
    proof -
      have "unat ?r = unat a + ARENA_SIZE"
        using heap_inv_arena(3) [OF B(1), of a] by (intro page_offset(3)) (simp_all add: ARENA_SIZE_def PGSIZE_def)
      then have "unat ?r \<noteq> 0" by (simp add: ARENA_SIZE_def)
      then show ?thesis by (metis unat_0)
    qed
    ultimately show ?thesis using m i B(2,3) by (simp add: malloc_result_def)
  qed
qed

lemma malloc_small:
  assumes inv: "malloc_inv s" and d: "find_desc (descs s) sz 0 < length (descs s)" and sz: "0 < sz"
  shows "\<exists>r s'. malloc s sz = Some (r, s') \<and> malloc_result s sz r s'"
proof -
  let ?d = "find_desc (descs s) sz 0"
  have heap: "heap_inv s" and idle: "no_idle s" using inv by (simp_all add: malloc_inv_def)
  have fits: "sz \<le> bsz s ?d" using find_desc_bounds [of 0 "descs s" sz] d by simp
  have take: ?thesis if s1: "heap_inv s1" "?d < length (descs s1)" "fl s1 ?d \<noteq> []" "bsz s1 ?d = bsz s ?d"
      "live s1 = live s" "keeps_sizes s s1" "malloc s sz = take_block s1 ?d"
    and i: "\<And>a ar e. arenas s1 a = Some ar \<Longrightarrow> arena_desc ar = Some e \<Longrightarrow>
      free_cnt ar < bpa s1 e \<or> set (fl s1 ?d) = arena_blocks s1 a e" for s1
  proof -
    obtain b bs where b: "fl s1 ?d = b # bs" using s1(3) by (cases "fl s1 ?d") auto
    have "free_cnt ar < bpa s1 e \<or> b \<in> arena_blocks s1 a e" if "arenas s1 a = Some ar" "arena_desc ar = Some e" for a ar e
      using i [OF that] b by auto
    then obtain s' where s': "take_block s1 ?d = Some (b, s')" "heap_inv s'" "no_idle s'" "b \<noteq> 0" "b \<notin> live s1"
      "live s' = insert b (live s1)" "block_size s' b = Some (bsz s1 ?d)" "keeps_sizes s1 s'"
      using take_block_ok [OF s1(1,2) b] by blast
    have "keeps_sizes s s'" by (rule keeps_sizes_trans [OF s1(6) s'(8)]) (use s1(5) in auto)
    then show ?thesis using s' s1(4,5,7) fits by (simp add: malloc_inv_def malloc_result_def)
  qed
  show ?thesis
  proof (cases "fl s ?d = []")
    case False
    then have "malloc s sz = take_block s ?d" using sz d by (simp add: malloc_def Let_def)
    then show ?thesis using take [OF heap d False] idle keeps_sizes_refl by (auto simp: no_idle_def)
  next
    case True
    obtain ok s1 where n: "new_arena s ?d = Some (ok, s1)" and res: "arena_result s ?d ok s1"
      using new_arena_ok [OF heap d True] by blast
    have s1: "heap_inv s1" "live s1 = live s" "length (descs s1) = length (descs s)" "\<And>e. bsz s1 e = bsz s e"
      "\<And>e. bpa s1 e = bpa s e" "keeps_sizes s s1" using res by (simp_all add: arena_result_def)
    show ?thesis
    proof (cases ok)
      case False
      then have "malloc s sz = Some (0, s)" using n res sz d True by (simp add: malloc_def Let_def arena_result_def)
      then show ?thesis using inv keeps_sizes_refl by (simp add: malloc_result_def)
    next
      case ok: True
      have m: "malloc s sz = take_block s1 ?d" using n ok sz d True by (simp add: malloc_def Let_def)
      have new: "fl s1 ?d \<noteq> []" "\<And>b br. arenas s1 b = Some br \<Longrightarrow>
          arenas s b = Some br \<or> arena_desc br = Some ?d \<and> set (fl s1 ?d) = arena_blocks s1 b ?d"
        using res ok by (simp_all add: arena_result_def)
      have "free_cnt ar < bpa s1 e \<or> set (fl s1 ?d) = arena_blocks s1 a e"
        if "arenas s1 a = Some ar" "arena_desc ar = Some e" for a ar e
        using new(2) [OF that(1)] idle that(2) s1(5) by (auto simp: no_idle_def)
      then show ?thesis using take [OF s1(1) _ new(1) s1(4,2,6) m] d s1(3) by simp
    qed
  qed
qed

lemma malloc_ok:
  assumes inv: "malloc_inv s" and sz: "0 < sz" "sz + ARENA_SIZE + PGSIZE \<le> 2 ^ 32"
  shows "\<exists>r s'. malloc s sz = Some (r, s') \<and> malloc_result s sz r s'"
proof (cases "find_desc (descs s) sz 0 = length (descs s)")
  case True
  then show ?thesis by (rule malloc_big [OF inv _ sz])
next
  case False
  then have "find_desc (descs s) sz 0 < length (descs s)" using find_desc_bounds [of 0 "descs s" sz] by simp
  then show ?thesis by (rule malloc_small [OF inv _ sz(1)])
qed

section \<open>Release\<close>

lemma heap_inv_release:
  assumes inv: "heap_inv s" and a: "arenas s a = Some ar"
    and free: "palloc_free_multiple (page_alloc s) a (arena_len ar) = Some q"
    and s': "arenas s' = (arenas s)(a := None)" "page_alloc s' = q" "length (descs s') = length (descs s)"
      "\<And>e. bsz s' e = bsz s e" "\<And>e. bpa s' e = bpa s e"
    and fl': "\<And>e. e < length (descs s) \<Longrightarrow> distinct (fl s' e) \<and> set (fl s' e) = {b \<in> set (fl s e). pg_round_down b \<noteq> a}"
  shows "heap_inv s'" "live s' = {b \<in> live s. pg_round_down b \<noteq> a}"
proof -
  have pinv: "palloc_inv (page_alloc s)" using inv by (simp add: heap_inv_def)
  then have kinv: "pool_inv (kpool s)" by (simp add: palloc_inv_def)
  have n0: "0 < arena_len ar" by (rule heap_inv_arena(6) [OF inv a])
  have "page_group s a (arena_len ar)" using heap_inv_arena(1) [OF inv a] by (simp add: arena_ok_def)
  then obtain i where i: "a = pool_page (kpool s) i" "is_group (pool_used (kpool s)) i (arena_len ar) True"
    by (auto simp: page_group_def)
  have ib: "i + arena_len ar \<le> bit_cnt (used_map (kpool s))" using i(2) by (simp add: is_group_def)
  obtain um where um: "q = (page_alloc s)\<lparr>kernel_pool := (kpool s)\<lparr>used_map := um\<rparr>,
      mem := mem_set (mem (page_alloc s)) a 0xcc (PGSIZE * arena_len ar)\<rparr>" "bm_inv um"
    "bit_cnt um = bit_cnt (used_map (kpool s))" "bm_abs um = fill (pool_used (kpool s)) i (arena_len ar) False"
    using palloc_free_multiple_spec [OF pinv n0, of i 0] ib i free by auto
  have "palloc_inv q"
    using palloc_inv_with_pool [OF pinv, of "(kpool s)\<lparr>used_map := um\<rparr>" 0] kinv um(2,3)
    by (simp add: um(1) pool_inv_def)
  have blk: "blk s' b d k = blk s b d k" for b d k by (simp add: blk_def s')
  have group: "page_group s' b (arena_len br)" if b: "arenas s b = Some br" "b \<noteq> a" for b br
  proof -
    have "page_group s b (arena_len br)" using heap_inv_arena(1) [OF inv b(1)] by (simp add: arena_ok_def)
    then obtain j where j: "0 < arena_len br" "b = pool_page (kpool s) j"
      "is_group (pool_used (kpool s)) j (arena_len br) True" by (auto simp: page_group_def)
    have "apart b (arena_len br) a (arena_len ar)" by (rule heap_inv_apart [OF inv b(1) a b(2)])
    then have "j + arena_len br \<le> i \<or> i + arena_len ar \<le> j"
      unfolding apart_def j(2) i(1) group_range(1) [OF kinv j(3,1)] group_range(1) [OF kinv i(2) n0]
      by (auto simp: PGSIZE_def)
    then have "is_group (bm_abs um) j (arena_len br) True"
      unfolding um(4) using ib by (intro page_group_fill [OF j(3)]) auto
    then show ?thesis using j(1,2) by (auto simp: page_group_def s'(2) um(1) pool_page_def)
  qed
  have ok: "arena_ok s' b br" if "arenas s' b = Some br" for b br
  proof -
    have b: "arenas s b = Some br" "b \<noteq> a" using that by (auto simp: s'(1) split: if_splits)
    have o: "arena_ok s b br" by (rule heap_inv_arena(1) [OF inv b(1)])
    have "free_cnt br = card {k. k < bpa s d \<and> blk s b d k \<in> set (fl s' d)}" if d: "arena_desc br = Some d" for d
    proof -
      have "d < length (descs s)" using o d by (simp add: arena_ok_def)
      then have "{k. k < bpa s d \<and> blk s b d k \<in> set (fl s' d)} = {k. k < bpa s d \<and> blk s b d k \<in> set (fl s d)}"
        using fl' [of d] blk_addr(1) [OF inv b(1) d] b(2) by auto
      then show ?thesis using o d by (simp add: arena_ok_def)
    qed
    then show ?thesis using o group [OF b] by (simp add: arena_ok_def s' blk)
  qed
  have "free_ok s' d" if d: "d < length (descs s)" for d
  proof -
    have "\<exists>c cr k. arenas s' c = Some cr \<and> arena_desc cr = Some d \<and> k < bpa s d \<and> b = blk s c d k"
      if b: "b \<in> set (fl s' d)" for b
    proof -
      have "b \<in> set (fl s d)" "pg_round_down b \<noteq> a" using b fl' [OF d] by auto
      then obtain c cr k where c: "arenas s c = Some cr" "arena_desc cr = Some d" "k < bpa s d" "b = blk s c d k"
        using free_list_entry [OF inv d] by blast
      then have "c \<noteq> a" using blk_addr(1) [OF inv c(1-3)] \<open>pg_round_down b \<noteq> a\<close> by auto
      then show ?thesis using c by (auto simp: s'(1))
    qed
    then show ?thesis using fl' [OF d] by (simp add: free_ok_def s' blk)
  qed
  moreover have "apart b (arena_len br) c (arena_len cr)" if "arenas s' b = Some br" "arenas s' c = Some cr" "b \<noteq> c" for b br c cr
    using that heap_inv_apart [OF inv, of b br c cr] by (auto simp: s'(1) split: if_splits)
  moreover have "descs_ok (descs s')"
    using inv s' by (subst descs_ok_cong [of _ "descs s"]) (simp_all add: heap_inv_def)
  ultimately show "heap_inv s'" using ok \<open>palloc_inv q\<close> by (simp add: heap_inv_def s')
  have al: "arena_live s' b br = arena_live s b br" if b: "arenas s b = Some br" "b \<noteq> a" for b br
  proof (cases "arena_desc br")
    case (Some d)
    then have "d < length (descs s)" using heap_inv_arena(1) [OF inv b(1)] by (simp add: arena_ok_def)
    then show ?thesis using Some fl' [of d] blk_addr(1) [OF inv b(1) Some] b(2) by (auto simp: arena_live_def s' blk)
  qed (simp add: arena_live_def)
  show "live s' = {b \<in> live s. pg_round_down b \<noteq> a}"
  proof (intro set_eqI iffI)
    fix x assume "x \<in> live s'"
    then obtain b br where b: "arenas s b = Some br" "b \<noteq> a" "x \<in> arena_live s b br"
      using al by (auto simp: live_def s'(1) split: if_splits)
    then have x: "x \<in> live s" by (auto simp: live_def)
    moreover have "pg_round_down x = b"
    proof (cases "arena_desc br")
      case None
      have "pg_round_down (b + of_nat ARENA_SIZE) = b"
        using heap_inv_arena(3) [OF inv b(1)] by (intro page_offset(1)) (simp_all add: ARENA_SIZE_def PGSIZE_def)
      then show ?thesis using b(3) None by (simp add: arena_live_def)
    next
      case (Some d)
      then show ?thesis using b(3) blk_addr(1) [OF inv b(1) Some] by (auto simp: arena_live_def)
    qed
    ultimately show "x \<in> {b \<in> live s. pg_round_down b \<noteq> a}" using b(2) by simp
  next
    fix x assume x: "x \<in> {b \<in> live s. pg_round_down b \<noteq> a}"
    then obtain b br where b: "arenas s b = Some br" "pg_round_down x = b" "x \<in> arena_live s b br"
      using live_page [OF inv] by blast
    then have "b \<noteq> a" using x by auto
    then have "arenas s' b = Some br" "x \<in> arena_live s' b br" using b al by (simp_all add: s'(1))
    then show "x \<in> live s'" by (auto simp: live_def)
  qed
qed

lemma release_pages:
  assumes inv: "heap_inv s" and a: "arenas s a = Some ar"
  obtains q where "palloc_free_multiple (page_alloc s) a (arena_len ar) = Some q"
proof -
  have pinv: "palloc_inv (page_alloc s)" using inv by (simp add: heap_inv_def)
  have "page_group s a (arena_len ar)" using heap_inv_arena(1) [OF inv a] by (simp add: arena_ok_def)
  then obtain i where i: "0 < arena_len ar" "a = pool_page (kpool s) i" "is_group (pool_used (kpool s)) i (arena_len ar) True"
    by (auto simp: page_group_def)
  then have "i + arena_len ar \<le> bit_cnt (used_map (kpool s))" by (simp add: is_group_def)
  then show ?thesis using palloc_free_multiple_spec [OF pinv i(1), of i 0] i that by auto
qed

lemma remove_blocks_ok:
  assumes "arenas s a = Some ar" "arena_magic ar = ARENA_MAGIC" "arena_desc ar = Some d" "a \<noteq> 0"
    and "d < length (descs s)" "i + n \<le> bpa s d" "distinct (fl s d)" "inj_on (blk s a d) {..<bpa s d}"
    and "\<And>k. i \<le> k \<Longrightarrow> k < i + n \<Longrightarrow> blk s a d k \<in> set (fl s d)"
  shows "remove_blocks n a d i s = Some (set_free_list s d (filter (\<lambda>b. b \<notin> blk s a d ` {i..<i + n}) (fl s d)))"
  using assms
proof (induction n arbitrary: i s)
  case 0
  then show ?case by (simp add: set_free_list_same)
next
  case (Suc n)
  let ?b = "blk s a d i"
  let ?s = "set_free_list s d (remove1 ?b (fl s d))"
  have blk: "blk ?s a d = blk s a d" by (rule ext) (simp add: blk_def)
  have "blk s a d k \<noteq> ?b" if "i + 1 \<le> k" "k < i + 1 + n" for k
    using inj_onD [OF Suc.prems(8), of k i] that Suc.prems(6) by auto
  then have IH: "remove_blocks n a d (i + 1) ?s =
      Some (set_free_list ?s d (filter (\<lambda>b. b \<notin> blk s a d ` {i + 1..<i + 1 + n}) (remove1 ?b (fl s d))))"
    using Suc.IH [of ?s "i + 1"] Suc.prems by (simp add: blk)
  have "filter (\<lambda>b. b \<notin> blk s a d ` {i + 1..<i + 1 + n}) (remove1 ?b (fl s d)) =
      filter (\<lambda>b. b \<notin> blk s a d ` {i..<i + Suc n}) (fl s d)"
  proof -
    have "{i..<i + Suc n} = insert i {i + 1..<i + 1 + n}" by auto
    then show ?thesis
      using Suc.prems(7) by (auto simp: distinct_remove1_removeAll removeAll_filter_not_eq intro!: filter_cong)
  qed
  then show ?case
    using IH arena_to_block_ok [OF Suc.prems(1-5), of i] Suc.prems(6,9) by simp
qed

lemma set_mem_simps [simp]:
  "descs (set_mem s m) = descs s" "arenas (set_mem s m) = arenas s" "kpool (set_mem s m) = kpool s"
  "live (set_mem s m) = live s" "blk (set_mem s m) = blk s" "arena_blocks (set_mem s m) = arena_blocks s"
  by (simp_all add: set_mem_def blk_def arena_blocks_def fun_eq_iff)

lemma heap_inv_set_mem [simp]: "heap_inv (set_mem s m) = heap_inv s"
proof -
  have "palloc_inv (page_alloc (set_mem s m)) = palloc_inv (page_alloc s)" by (simp add: set_mem_def)
  then show ?thesis by (simp add: heap_inv_def arena_ok_def page_group_def free_ok_def)
qed

lemma blk_inj_on:
  assumes "heap_inv s" "arenas s a = Some ar" "arena_desc ar = Some d"
  shows "inj_on (blk s a d) {..<bpa s d}"
  using blk_inj [OF assms _ assms(2,3)] by (auto intro: inj_onI)

lemma all_blocks_free:
  assumes "card {k. k < n \<and> P k} = n" "k < n"
  shows "P (k :: nat)"
proof -
  have "{k. k < n \<and> P k} = {..<n}" using assms(1) by (intro card_subset_eq) auto
  then show ?thesis using assms(2) by blast
qed

text \<open>What \<open>free\<close> promises for a block that is handed out.\<close>

definition free_result :: "malloc_state \<Rightarrow> u32 \<Rightarrow> malloc_state \<Rightarrow> bool" where
  "free_result s b s' \<longleftrightarrow> malloc_inv s' \<and> live s' = live s - {b} \<and> keeps_sizes s s'"

text \<open>An arena without a block in use is given back to the page allocator.\<close>

lemma release_arena:
  assumes inv: "heap_inv s" and a: "arenas s a = Some ar" "arena_desc ar = Some d" and full: "free_cnt ar = bpa s d"
    and idle: "\<And>b br e. arenas s b = Some br \<Longrightarrow> b \<noteq> a \<Longrightarrow> arena_desc br = Some e \<Longrightarrow> free_cnt br < bpa s e"
  obtains s1 p where "remove_blocks (bpa s d) a d 0 s = Some s1" "palloc_free_page (page_alloc s1) a = Some p"
    "arenas s1 = arenas s" "malloc_inv (s1\<lparr>page_alloc := p, arenas := (arenas s)(a := None)\<rparr>)"
    "live (s1\<lparr>page_alloc := p, arenas := (arenas s)(a := None)\<rparr>) = live s"
    "keeps_sizes s (s1\<lparr>page_alloc := p, arenas := (arenas s)(a := None)\<rparr>)"
proof -
  note A = heap_inv_arena [OF inv a(1)]
  have d: "d < length (descs s)" using A(1) a(2) by (simp add: arena_ok_def)
  have dist: "distinct (fl s e)" if "e < length (descs s)" for e using inv that by (simp add: heap_inv_def free_ok_def)
  have all: "blk s a d k \<in> set (fl s d)" if "k < bpa s d" for k
  proof (rule all_blocks_free [OF _ that])
    show "card {k. k < bpa s d \<and> blk s a d k \<in> set (fl s d)} = bpa s d"
      using A(1) a(2) full by (simp add: arena_ok_def)
  qed
  let ?f = "filter (\<lambda>b. b \<notin> blk s a d ` {0..<0 + bpa s d}) (fl s d)"
  let ?s1 = "set_free_list s d ?f"
  have r: "remove_blocks (bpa s d) a d 0 s = Some ?s1"
    by (rule remove_blocks_ok [OF a(1) A(5) a(2) A(2) d _ dist [OF d] blk_inj_on [OF inv a]]) (use all in auto)
  obtain p where p: "palloc_free_multiple (page_alloc s) a (arena_len ar) = Some p"
    using release_pages [OF inv a(1)] .
  let ?s' = "?s1\<lparr>page_alloc := p, arenas := (arenas s)(a := None)\<rparr>"
  have page: "pg_round_down b \<noteq> a \<longleftrightarrow> b \<notin> blk s a d ` {0..<0 + bpa s d}" if bf: "b \<in> set (fl s e)" "e < length (descs s)" for b e
  proof -
    obtain c cr k where c: "arenas s c = Some cr" "arena_desc cr = Some e" "k < bpa s e" "b = blk s c e k"
      using free_list_entry [OF inv bf(2,1)] .
    have "pg_round_down b = c" using blk_addr(1) [OF inv c(1-3)] c(4) by simp
    moreover have "c = a" if l: "l < bpa s d" "b = blk s a d l" for l
      using blk_addr(1) [OF inv a l(1)] l(2) \<open>pg_round_down b = c\<close> by simp
    moreover have "b \<in> blk s a d ` {0..<0 + bpa s d}" if "c = a"
      using that c a by auto
    ultimately show ?thesis by auto
  qed
  have same: "length (descs ?s') = length (descs s)" "bsz ?s' e = bsz s e" "bpa ?s' e = bpa s e"
    "fl ?s' e = (if e = d then ?f else fl s e)" for e using d by simp_all
  have fl': "distinct (fl ?s' e) \<and> set (fl ?s' e) = {b \<in> set (fl s e). pg_round_down b \<noteq> a}" if e: "e < length (descs s)" for e
  proof (cases "e = d")
    case True
    then show ?thesis using dist [OF e] page [OF _ e] unfolding same by auto
  next
    case False
    have "b \<notin> blk s a d ` {0..<0 + bpa s d}" if b: "b \<in> set (fl s e)" for b
    proof
      assume "b \<in> blk s a d ` {0..<0 + bpa s d}"
      then obtain l where l: "l < bpa s d" "b = blk s a d l" by auto
      obtain c cr k where c: "arenas s c = Some cr" "arena_desc cr = Some e" "k < bpa s e" "b = blk s c e k"
        using free_list_entry [OF inv e b] .
      have "c = a" using blk_addr(1) [OF inv c(1-3)] blk_addr(1) [OF inv a l(1)] c(4) l(2) by simp
      then show False using c(1,2) a False by simp
    qed
    then show ?thesis using False dist [OF e] page [OF _ e] unfolding same by auto
  qed
  have "palloc_free_page (page_alloc ?s1) a = Some p"
    using p a(2) by (simp add: palloc_free_page_def arena_len_def)
  moreover have R: "heap_inv ?s'" "live ?s' = {b \<in> live s. pg_round_down b \<noteq> a}"
    by (rule heap_inv_release [OF inv a(1) p _ _ same(1-3) fl']; simp)+
  moreover have "live s \<subseteq> {b. pg_round_down b \<noteq> a}"
  proof
    fix x assume x: "x \<in> live s"
    then obtain c cr where c: "arenas s c = Some cr" "pg_round_down x = c" "x \<in> arena_live s c cr"
      using live_page [OF inv] by blast
    have "c \<noteq> a"
    proof
      assume "c = a"
      then have "x \<in> arena_live s a ar" using c a(1) by simp
      then show False using all a(2) by (auto simp: arena_live_def)
    qed
    then show "x \<in> {b. pg_round_down b \<noteq> a}" using c(2) by simp
  qed
  moreover have "no_idle ?s'" using idle unfolding no_idle_def by (auto simp: same split: if_splits)
  moreover have "keeps_sizes s ?s'"
  proof (rule keeps_sizesI [OF inv])
    fix b c cr
    assume "b \<in> live s" "b \<in> live ?s'" "c = pg_round_down b" "arenas s c = Some cr"
    moreover from this have "c \<noteq> a" using R(2) by auto
    ultimately show "\<exists>ar'. arenas ?s' c = Some ar' \<and> arena_magic ar' = arena_magic cr \<and> arena_desc ar' = arena_desc cr \<and>
        (arena_desc cr = None \<longrightarrow> free_cnt ar' = free_cnt cr)" by simp
  qed (simp_all add: same)
  ultimately show ?thesis using that [OF r] by (auto simp: malloc_inv_def)
qed

lemma free_small:
  assumes inv: "malloc_inv s" and a: "arenas s a = Some ar" "arena_desc ar = Some d"
    and k: "k < bpa s d" "blk s a d k \<notin> set (fl s d)"
  shows "\<exists>s'. free s (blk s a d k) = Some s' \<and> free_result s (blk s a d k) s'"
proof -
  have heap: "heap_inv s" and idle: "no_idle s" using inv by (simp_all add: malloc_inv_def)
  note A = heap_inv_arena [OF heap a(1)] and B = blk_addr [OF heap a k(1)]
  define b where "b = blk s a d k"
  have d: "d < length (descs s)" by (rule B(4))
  have b: "b \<in> arena_blocks s a d" "pg_round_down b = a" "block_to_arena s b = Some a" "b \<notin> set (fl s d)"
    using k B(1) block_to_arena_blk [OF heap a k(1)] by (auto simp: b_def arena_blocks_def)
  have "unat b \<noteq> 0" using B(2) by (simp add: b_def ARENA_SIZE_def)
  then have nz: "b \<noteq> 0" by (metis unat_0)
  let ?m = "memset_loop (bsz s d) (mem (page_alloc s)) b (ucast (0xcc :: u32))"
  let ?s0 = "set_mem s ?m" and ?ar = "ar\<lparr>free_cnt := free_cnt ar + 1\<rparr>"
  let ?f = "b # fl s d"
  let ?s1 = "(set_free_list ?s0 d ?f)\<lparr>arenas := (arenas ?s0)(a \<mapsto> ?ar)\<rparr>"
  have cnt: "free_cnt ?ar = card {k. k < bpa s d \<and> blk s a d k \<in> set ?f}"
    using A(1) a(2) block_indices [OF heap a k(1) b_def b(4)] by (simp add: arena_ok_def)
  have P: "heap_inv ?s0" "d < length (descs ?s0)" "arena_magic ?ar = ARENA_MAGIC" "arena_desc ?ar = Some d"
    "free_cnt ?ar = card {k. k < bpa ?s0 d \<and> blk ?s0 a d k \<in> set ?f}"
    using heap d A(5) a(2) cnt by simp_all
  have Q: "page_group ?s0 a 1" using A(1) a(2) by (simp add: arena_ok_def arena_len_def page_group_def)
  have R: "apart c (arena_len cr) a 1" if "arenas ?s0 c = Some cr" "c \<noteq> a" for c cr
    using heap_inv_apart [OF heap _ a(1) that(2)] that(1) a(2) by (simp add: arena_len_def)
  have S: "arena_desc ar' = Some d" if "arenas ?s0 a = Some ar'" for ar' using that a by simp
  have T: "distinct ?f" using b(4) heap d by (simp add: heap_inv_def free_ok_def)
  have U: "c \<in> set ?f \<longleftrightarrow> c \<in> set (fl ?s0 d)" if "c \<notin> arena_blocks ?s0 a d" for c using that b(1) by auto
  have C: "heap_inv ?s1" "live ?s1 = (live ?s0 - arena_blocks ?s0 a d) \<union> (arena_blocks ?s0 a d - set ?f)"
    by (rule heap_inv_change [OF P Q R S T U]; assumption)+
  have live: "live ?s1 = live s - {b}"
    using C(2) live_small [OF heap a] b(1) by auto
  have keeps: "keeps_sizes s ?s1"
    by (rule keeps_sizesI [OF heap]) (use d a in auto)
  have idle1: "free_cnt cr < bpa ?s1 e" if "arenas ?s1 c = Some cr" "c \<noteq> a" "arena_desc cr = Some e" for c cr e
    using idle that by (simp add: no_idle_def)
  have le: "free_cnt ?ar \<le> bpa s d"
  proof -
    have "card {k. k < bpa s d \<and> blk s a d k \<in> set ?f} \<le> card {..<bpa s d}" by (intro card_mono) auto
    then show ?thesis using cnt by simp
  qed
  have "?s1 = (set_free_list (set_mem s ?m) d ?f)\<lparr>arenas := (arenas s)(a \<mapsto> ?ar)\<rparr>" by simp
  then have free: "free s b = (if free_cnt ?ar \<ge> bpa s d
      then do {
        s' \<leftarrow> remove_blocks (bpa s d) a d 0 ?s1;
        p \<leftarrow> palloc_free_page (page_alloc s') a;
        Some (s'\<lparr>page_alloc := p, arenas := (arenas s')(a := None)\<rparr>) }
      else Some ?s1)"
    using nz b(3) a le d by (simp add: free_def free_block_def desc_at_def memset_def Let_def)
  show ?thesis unfolding b_def [symmetric]
  proof (cases "free_cnt ?ar \<ge> bpa s d")
    case False
    have "no_idle ?s1" unfolding no_idle_def using idle1 False a(2) by auto
    then show "\<exists>s'. free s b = Some s' \<and> free_result s b s'"
      using free False C(1) live keeps by (simp add: free_result_def malloc_inv_def)
  next
    case True
    then have full: "free_cnt ?ar = bpa ?s1 d" using le by simp
    have ar1: "arenas ?s1 a = Some ?ar" "arena_desc ?ar = Some d" using a(2) by simp_all
    obtain s2 p where s2: "remove_blocks (bpa ?s1 d) a d 0 ?s1 = Some s2" "palloc_free_page (page_alloc s2) a = Some p"
      "arenas s2 = arenas ?s1" "malloc_inv (s2\<lparr>page_alloc := p, arenas := (arenas ?s1)(a := None)\<rparr>)"
      "live (s2\<lparr>page_alloc := p, arenas := (arenas ?s1)(a := None)\<rparr>) = live ?s1"
      "keeps_sizes ?s1 (s2\<lparr>page_alloc := p, arenas := (arenas ?s1)(a := None)\<rparr>)"
      using release_arena [OF C(1) ar1 full idle1] .
    let ?s' = "s2\<lparr>page_alloc := p, arenas := (arenas ?s1)(a := None)\<rparr>"
    have "keeps_sizes s ?s'" by (rule keeps_sizes_trans [OF keeps s2(6)]) (use s2(5) in auto)
    moreover have "free s b = Some ?s'" using free True s2(1-3) by simp
    ultimately show "\<exists>s'. free s b = Some s' \<and> free_result s b s'"
      using s2(4,5) live by (auto simp: free_result_def)
  qed
qed

lemma free_big:
  assumes inv: "malloc_inv s" and a: "arenas s a = Some ar" "arena_desc ar = None"
  shows "\<exists>s'. free s (a + of_nat ARENA_SIZE) = Some s' \<and> free_result s (a + of_nat ARENA_SIZE) s'"
proof -
  have heap: "heap_inv s" and idle: "no_idle s" using inv by (simp_all add: malloc_inv_def)
  note A = heap_inv_arena [OF heap a(1)]
  obtain p where p: "palloc_free_multiple (page_alloc s) a (arena_len ar) = Some p"
    using release_pages [OF heap a(1)] .
  let ?b = "a + of_nat ARENA_SIZE" and ?s' = "s\<lparr>page_alloc := p, arenas := (arenas s)(a := None)\<rparr>"
  have O: "unat ?b = unat a + ARENA_SIZE" "pg_round_down ?b = a"
    by (rule page_offset [OF A(3)]; simp add: ARENA_SIZE_def PGSIZE_def)+
  have "unat ?b \<noteq> 0" using O(1) by (simp add: ARENA_SIZE_def)
  then have nz: "?b \<noteq> 0" by (metis unat_0)
  have free: "free s ?b = Some ?s'"
    using nz block_to_arena_big [OF heap a] a p by (simp add: free_def arena_len_def)
  have "distinct (fl ?s' e) \<and> set (fl ?s' e) = {b \<in> set (fl s e). pg_round_down b \<noteq> a}" if e: "e < length (descs s)" for e
  proof -
    have "pg_round_down b \<noteq> a" if bf: "b \<in> set (fl s e)" for b
    proof -
      obtain c cr k where c: "arenas s c = Some cr" "arena_desc cr = Some e" "k < bpa s e" "b = blk s c e k"
        using free_list_entry [OF heap e bf] .
      then show ?thesis using blk_addr(1) [OF heap c(1-3)] a by auto
    qed
    then show ?thesis using heap e by (auto simp: heap_inv_def free_ok_def)
  qed
  then have R: "heap_inv ?s'" "live ?s' = {b \<in> live s. pg_round_down b \<noteq> a}"
    using heap_inv_release [OF heap a(1) p, of ?s'] by simp_all
  have "{b \<in> live s. pg_round_down b \<noteq> a} = live s - {?b}"
  proof -
    have "x = ?b" if x: "x \<in> live s" "pg_round_down x = a" for x
    proof -
      obtain c cr where "arenas s c = Some cr" "pg_round_down x = c" "x \<in> arena_live s c cr"
        using live_page [OF heap x(1)] by blast
      then show ?thesis using x(2) a by (simp add: arena_live_def)
    qed
    then show ?thesis using O(2) by auto
  qed
  moreover have "keeps_sizes s ?s'"
    by (rule keeps_sizesI [OF heap]) (use R(2) in auto)
  moreover have "no_idle ?s'" using idle by (auto simp: no_idle_def split: if_splits)
  ultimately have "free_result s ?b ?s'" using R by (simp add: free_result_def malloc_inv_def)
  then show ?thesis using free by blast
qed

lemma free_live_ok:
  assumes inv: "malloc_inv s" and b: "b \<in> live s"
  shows "\<exists>s'. free s b = Some s' \<and> free_result s b s'"
proof -
  obtain a ar where a: "arenas s a = Some ar" "b \<in> arena_live s a ar" using b by (auto simp: live_def)
  show ?thesis
  proof (cases "arena_desc ar")
    case None
    then show ?thesis using free_big [OF inv a(1)] a(2) by (simp add: arena_live_def)
  next
    case (Some d)
    then show ?thesis using free_small [OF inv a(1) Some] a(2) by (auto simp: arena_live_def)
  qed
qed

section \<open>Blocks in use do not overlap\<close>

lemma live_cases:
  assumes "heap_inv s" "b \<in> live s"
  obtains (small) a ar d k where "arenas s a = Some ar" "arena_desc ar = Some d" "k < bpa s d" "b = blk s a d k"
      "unat b = unat a + (ARENA_SIZE + k * bsz s d)" "block_size s b = Some (bsz s d)"
  | (big) a ar where "arenas s a = Some ar" "arena_desc ar = None" "b = a + of_nat ARENA_SIZE"
      "unat b = unat a + ARENA_SIZE" "block_size s b = Some (PGSIZE * arena_len ar - ARENA_SIZE)"
proof -
  obtain a ar where a: "arenas s a = Some ar" "b \<in> arena_live s a ar" using assms(2) by (auto simp: live_def)
  show ?thesis
  proof (cases "arena_desc ar")
    case None
    then have b: "b = a + of_nat ARENA_SIZE" using a(2) by (simp add: arena_live_def)
    moreover have "unat b = unat a + ARENA_SIZE"
      unfolding b using heap_inv_arena(3) [OF assms(1) a(1)] by (rule page_offset(3)) (simp add: ARENA_SIZE_def PGSIZE_def)
    ultimately show ?thesis using big [OF a(1) None] block_size_big [OF assms(1) a(1) None] None by (simp add: arena_len_def)
  next
    case (Some d)
    then obtain k where k: "k < bpa s d" "b = blk s a d k" using a(2) by (auto simp: arena_live_def)
    show ?thesis
      using small [OF a(1) Some k] blk_addr(2) [OF assms(1) a(1) Some k(1)] block_size_small [OF assms(1) a(1) Some k(1)] k(2)
      by simp
  qed
qed

lemma live_extent:
  assumes "heap_inv s" "b \<in> live s" "block_size s b = Some n"
  obtains a ar where "arenas s a = Some ar" "b \<in> arena_live s a ar" "unat a \<le> unat b" "unat b + n \<le> unat a + PGSIZE * arena_len ar"
proof -
  obtain a ar where a: "arenas s a = Some ar" "pg_round_down b = a" "b \<in> arena_live s a ar"
    using live_page [OF assms(1,2)] by blast
  show ?thesis
    using assms(1,2)
  proof (cases rule: live_cases)
    case (small a' ar' d k)
    have "a' = a" using blk_addr(1) [OF assms(1) small(1-3)] a(2) small(4) by simp
    then show ?thesis
      using that [OF a(1,3)] small a(1) blk_addr(6) [OF assms(1) small(1-3)] assms(3) by (simp add: arena_len_def)
  next
    case (big a' ar')
    have "pg_round_down b = a'"
      unfolding big(3) by (rule page_offset(1) [OF heap_inv_arena(3) [OF assms(1) big(1)]]) (simp add: ARENA_SIZE_def PGSIZE_def)
    then have "a' = a" using a(2) by simp
    moreover have "ARENA_SIZE \<le> PGSIZE * arena_len ar'"
      using heap_inv_arena(6) [OF assms(1) big(1)] by (simp add: ARENA_SIZE_def PGSIZE_def)
    ultimately show ?thesis using that [OF a(1,3)] big a(1) assms(3) by simp
  qed
qed

lemma live_disjoint:
  assumes inv: "heap_inv s" and b: "b \<in> live s" "block_size s b = Some n" and c: "c \<in> live s" "block_size s c = Some m"
    and ne: "b \<noteq> c"
  shows "unat b + n \<le> unat c \<or> unat c + m \<le> unat b"
proof -
  obtain a ar where a: "arenas s a = Some ar" "b \<in> arena_live s a ar" "unat a \<le> unat b" "unat b + n \<le> unat a + PGSIZE * arena_len ar"
    using live_extent [OF inv b] .
  obtain e er where e: "arenas s e = Some er" "c \<in> arena_live s e er" "unat e \<le> unat c" "unat c + m \<le> unat e + PGSIZE * arena_len er"
    using live_extent [OF inv c] .
  show ?thesis
  proof (cases "a = e")
    case False
    then show ?thesis using heap_inv_apart [OF inv a(1) e(1)] a(3,4) e(3,4) by (auto simp: apart_def)
  next
    case True
    then have er: "er = ar" using a(1) e(1) by simp
    show ?thesis
    proof (cases "arena_desc ar")
      case None
      then show ?thesis using a(2) e(2) True er ne by (simp add: arena_live_def)
    next
      case (Some d)
      obtain k l where kl: "k < bpa s d" "b = blk s a d k" "l < bpa s d" "c = blk s a d l"
        using a(2) e(2) True er Some by (auto simp: arena_live_def)
      have "k \<noteq> l" using ne kl by auto
      then have "Suc k * bsz s d \<le> l * bsz s d \<or> Suc l * bsz s d \<le> k * bsz s d"
        by (meson Suc_leI linorder_neqE_nat mult_le_mono1)
      moreover have "n = bsz s d" "m = bsz s d"
        using block_size_small [OF inv a(1) Some kl(1)] block_size_small [OF inv a(1) Some kl(3)] b(2) c(2) kl by simp_all
      ultimately show ?thesis
        using blk_addr(2) [OF inv a(1) Some kl(1)] blk_addr(2) [OF inv a(1) Some kl(3)] kl by auto
    qed
  qed
qed

section \<open>Clients\<close>

lemma malloc_init_loop_eq:
  "malloc_init_loop 16 [] = Some (map (\<lambda>(b, n). \<lparr>desc_block_size = b, blocks_per_arena = n, free_list = []\<rparr>)
     [(16, 255), (32, 127), (64, 63), (128, 31), (256, 15), (512, 7), (1024, 3)])"
  by (simp add: malloc_init_loop.simps PGSIZE_def ARENA_SIZE_def)

lemma malloc_init_inv:
  assumes "palloc_inv p" "malloc_init p = Some s"
  shows "malloc_inv s" "live s = {}"
proof -
  have s: "page_alloc s = p" "arenas s = Map.empty"
    "descs s = map (\<lambda>(b, n). \<lparr>desc_block_size = b, blocks_per_arena = n, free_list = []\<rparr>)
     [(16, 255), (32, 127), (64, 63), (128, 31), (256, 15), (512, 7), (1024, 3)]"
    using assms(2) by (auto simp: malloc_init_def malloc_init_loop_eq)
  have "descs_ok (descs s)" by (simp add: s descs_ok_def ARENA_SIZE_def PGSIZE_def)
  moreover have "free_list x = []" if "x \<in> set (descs s)" for x using that by (auto simp: s)
  then have "free_ok s d" if "d < length (descs s)" for d using that by (simp add: free_ok_def)
  ultimately show "malloc_inv s" using assms(1) by (simp add: malloc_inv_def heap_inv_def no_idle_def s(1,2))
  show "live s = {}" by (simp add: live_def s)
qed

text \<open>A client that asks for blocks of a size for which \<open>malloc\<close> does not wrap round, and releases only blocks it holds; \<open>held\<close> maps the
  blocks it holds to the sizes it asked for.\<close>

inductive client :: "malloc_state \<Rightarrow> (u32 \<Rightarrow> nat option) \<Rightarrow> bool" where
  client_init: "palloc_inv p \<Longrightarrow> malloc_init p = Some s \<Longrightarrow> client s Map.empty"
| client_malloc: "client s held \<Longrightarrow> 0 < sz \<Longrightarrow> sz + ARENA_SIZE + PGSIZE \<le> 2 ^ 32 \<Longrightarrow> malloc s sz = Some (b, s') \<Longrightarrow>
    client s' (if b = 0 then held else held(b \<mapsto> sz))"
| client_free: "client s held \<Longrightarrow> held b = Some sz \<Longrightarrow> free s b = Some s' \<Longrightarrow> client s' (held(b := None))"

lemma client_inv:
  assumes "client s held"
  shows "malloc_inv s \<and> dom held = live s \<and> (\<forall>b sz. held b = Some sz \<longrightarrow> (\<exists>n. block_size s b = Some n \<and> sz \<le> n))"
  using assms
proof induction
  case (client_init p s)
  then show ?case using malloc_init_inv by simp
next
  case (client_malloc s held sz b s')
  then have "malloc_inv s" by simp
  from malloc_ok [OF this client_malloc.hyps(2,3)] client_malloc.hyps(4)
  have r: "malloc_inv s'" "keeps_sizes s s'" "if b = 0 then live s' = live s
      else b \<notin> live s \<and> live s' = insert b (live s) \<and> (\<exists>n. block_size s' b = Some n \<and> sz \<le> n)"
    by (auto simp: malloc_result_def)
  have "\<exists>n. block_size s' c = Some n \<and> z \<le> n" if "held c = Some z" for c z
  proof -
    have "c \<in> live s \<inter> live s'" using that client_malloc.IH r(3) by (auto split: if_splits)
    then show ?thesis using that client_malloc.IH r(2) by (auto simp: keeps_sizes_def)
  qed
  then show ?case using r client_malloc.IH by (auto split: if_splits)
next
  case (client_free s held b sz s')
  have "b \<in> live s" using client_free by auto
  with free_live_ok client_free have r: "free_result s b s'" by fastforce
  have keep: "\<exists>n. block_size s' c = Some n \<and> z \<le> n" if "held c = Some z" "c \<noteq> b" for c z
  proof -
    have "c \<in> live s \<inter> live s'" using that client_free.IH r by (auto simp: free_result_def)
    then show ?thesis using that client_free.IH r by (auto simp: free_result_def keeps_sizes_def)
  qed
  have "\<forall>c z. (held(b := None)) c = Some z \<longrightarrow> (\<exists>n. block_size s' c = Some n \<and> z \<le> n)"
    using keep by (auto split: if_splits)
  moreover have "dom (held(b := None)) = live s'" using r client_free.IH by (simp add: free_result_def)
  ultimately show ?case using r by (simp add: free_result_def del: fun_upd_apply)
qed

text \<open>C4:
  The heap is safe for every client that releases only what it holds and asks for blocks of at least 1
  and at most \<open>2 ^ 32 - PGSIZE - ARENA_SIZE\<close> bytes, that is, up to 4108 bytes below 4 gigabytes (close
  to \<open>2 ^ 32\<close> the number of pages that \<open>malloc\<close> computes wraps round, and the block is too small):
  whatever it did before, neither a \<open>malloc\<close> of such a size nor \<open>free\<close> of a block it holds stops the
  kernel, a successful \<open>malloc\<close> returns a block it does not hold, and the blocks it holds never overlap,
  each with all the bytes that were asked for.
\<close>

theorem malloc_blocks_disjoint:
  assumes "client s held"
  shows "(0 < sz \<and> sz + ARENA_SIZE + PGSIZE \<le> 2 ^ 32 \<longrightarrow>
      (\<exists>b s'. malloc s sz = Some (b, s') \<and> held b = None)) \<and>
    (held b \<noteq> None \<longrightarrow> (\<exists>s'. free s b = Some s')) \<and>
    (held b = Some n \<and> held c = Some m \<and> b \<noteq> c \<longrightarrow> unat b + n \<le> unat c \<or> unat c + m \<le> unat b)"
proof (intro conjI impI)
  have I: "malloc_inv s" "dom held = live s" "\<And>b sz. held b = Some sz \<Longrightarrow> \<exists>n. block_size s b = Some n \<and> sz \<le> n"
    using client_inv [OF assms] by auto
  have heap: "heap_inv s" using I(1) by (simp add: malloc_inv_def)
  have nz: "x \<noteq> 0" if "x \<in> live s" for x
    using live_cases [OF heap that] by (metis ARENA_SIZE_def add_is_0 unat_0 zero_neq_numeral)
  {
    assume "0 < sz \<and> sz + ARENA_SIZE + PGSIZE \<le> 2 ^ 32"
    then obtain r s' where "malloc s sz = Some (r, s')" "malloc_result s sz r s'" using malloc_ok [OF I(1)] by blast
    then show "\<exists>b s'. malloc s sz = Some (b, s') \<and> held b = None"
      using I(2) nz by (auto simp: malloc_result_def split: if_splits)
  next
    assume "held b \<noteq> None"
    then show "\<exists>s'. free s b = Some s'" using free_live_ok [OF I(1), of b] I(2) by auto
  next
    assume *: "held b = Some n \<and> held c = Some m \<and> b \<noteq> c"
    obtain n' m' where "block_size s b = Some n'" "n \<le> n'" "block_size s c = Some m'" "m \<le> m'"
      using I(3) * by blast
    moreover have "b \<in> live s" "c \<in> live s" using * I(2) by auto
    ultimately show "unat b + n \<le> unat c \<or> unat c + m \<le> unat b" using live_disjoint [OF heap] * by fastforce
  }
qed

text \<open>Two blocks of 1000 bytes from a machine with two free pages.\<close>

definition demo_heap :: malloc_state where
  "demo_heap = the (malloc_init demo_palloc)"

definition demo_heap1 :: malloc_state where
  "demo_heap1 = snd (the (malloc demo_heap 1000))"

lemma demo_malloc: "malloc demo_heap 1000 = Some (0xc010100c, demo_heap1)"
  "malloc demo_heap1 1000 = Some (0xc010140c, snd (the (malloc demo_heap1 1000)))"
proof -
  let ?ds = "map (\<lambda>(b, n). \<lparr>desc_block_size = b, blocks_per_arena = n, free_list = []\<rparr>)
     [(16, 255), (32, 127), (64, 63), (128, 31), (256, 15), (512, 7)]"
  let ?p = "demo_palloc\<lparr>kernel_pool := \<lparr>used_map = \<lparr>bit_cnt = 2, bits = [1]\<rparr>, pool_base = 0xc0101000\<rparr>\<rparr>"
  let ?s = "\<lambda>f n. \<lparr>page_alloc = ?p, descs = ?ds @ [\<lparr>desc_block_size = 1024, blocks_per_arena = 3, free_list = f\<rparr>],
     arenas = [0xc0101000 \<mapsto> \<lparr>arena_magic = ARENA_MAGIC, arena_desc = Some (Suc (Suc (Suc (Suc (Suc (Suc 0)))))), free_cnt = n\<rparr>]\<rparr>"
  have h: "demo_heap = \<lparr>page_alloc = demo_palloc, descs = ?ds @ [\<lparr>desc_block_size = 1024, blocks_per_arena = 3, free_list = []\<rparr>],
     arenas = Map.empty\<rparr>"
    by (simp add: demo_heap_def malloc_init_def malloc_init_loop_eq)
  note defs = malloc_def new_arena_def take_block_def palloc_get_page_def set_free_list_def arena_to_block_def desc_at_def
    block_to_arena_def pg_round_down_eq pg_ofs_def PGMASK_def BITMASK_def PGBITS_def ARENA_SIZE_def Let_def
  have add3: "add_blocks 3 a d i s = do {
      b \<leftarrow> arena_to_block s a i;
      add_blocks 2 a d (i + 1) (set_free_list s d (free_list (descs s ! d) @ [b])) }" for a d i s
    by (simp add: numeral_3_eq_3 numeral_2_eq_2)
  have add2: "add_blocks 2 a d i s = do {
      b \<leftarrow> arena_to_block s a i;
      add_blocks 1 a d (i + 1) (set_free_list s d (free_list (descs s ! d) @ [b])) }" for a d i s
    by (simp add: numeral_2_eq_2)
  have 1: "malloc demo_heap 1000 = Some (0xc010100c, ?s [0xc010140c, 0xc010180c] 2)"
    by (simp add: h defs demo_get [unfolded One_nat_def] add3 add2)
  then show "malloc demo_heap 1000 = Some (0xc010100c, demo_heap1)" by (simp add: demo_heap1_def)
  have d1: "demo_heap1 = ?s [0xc010140c, 0xc010180c] 2" by (simp only: demo_heap1_def 1 option.sel snd_conv)
  have "malloc demo_heap1 1000 = Some (0xc010140c, ?s [0xc010180c] 1)"
    by (simp add: d1 defs)
  then show "malloc demo_heap1 1000 = Some (0xc010140c, snd (the (malloc demo_heap1 1000)))" by simp
qed

lemma malloc_blocks_disjoint_witness:
  "unat (0xc010100c :: u32) + 1000 \<le> unat (0xc010140c :: u32) \<or> unat (0xc010140c :: u32) + 1000 \<le> unat (0xc010100c :: u32)"
proof -
  have sz: "(0 :: nat) < 1000" "1000 + ARENA_SIZE + PGSIZE \<le> 2 ^ 32" by (simp_all add: ARENA_SIZE_def PGSIZE_def)
  have "client demo_heap Map.empty"
    by (rule client_init [OF demo_palloc_inv]) (simp add: demo_heap_def malloc_init_def malloc_init_loop_eq)
  from client_malloc [OF client_malloc [OF this sz demo_malloc(1)] sz demo_malloc(2)]
  have "client (snd (the (malloc demo_heap1 1000))) [0xc010100c \<mapsto> 1000, 0xc010140c \<mapsto> 1000]" by simp
  from malloc_blocks_disjoint [OF this, of _ "0xc010100c" 1000 "0xc010140c" 1000] show ?thesis by simp
qed

section \<open>Sizes that wrap round\<close>

text \<open>A request of nearly four gigabytes takes a single page, and \<open>calloc\<close> does not notice that its product
  wraps round.\<close>

lemma malloc_size_wraps:
  assumes "malloc_init p = Some s"
  shows "malloc s 0xfffffff8 = (do {
    (a, q) \<leftarrow> palloc_get_multiple p 0 1;
    if a = 0 then Some (0, s\<lparr>page_alloc := q\<rparr>)
    else Some (a + of_nat ARENA_SIZE,
      s\<lparr>page_alloc := q, arenas := [a \<mapsto> \<lparr>arena_magic = ARENA_MAGIC, arena_desc = None, free_cnt = 1\<rparr>]\<rparr>) })"
proof -
  have "DIV_ROUND_UP (add32 0xfffffff8 ARENA_SIZE) PGSIZE = 1"
    by (simp add: DIV_ROUND_UP_def add32_def ARENA_SIZE_def PGSIZE_def)
  moreover have "page_alloc s = p" "arenas s = Map.empty" "find_desc (descs s) 0xfffffff8 0 = length (descs s)"
    using assms by (auto simp: malloc_init_def malloc_init_loop_eq)
  ultimately show ?thesis
    by (cases "palloc_get_multiple p 0 1") (auto simp: malloc_def Let_def)
qed

lemma calloc_size_wraps:
  "calloc s 0x10001 0x10001 = do {
     (p, s) \<leftarrow> malloc s 0x20001;
     if p \<noteq> 0 then do { (_, m) \<leftarrow> memset (mem (page_alloc s)) p 0 0x20001; Some (p, set_mem s m) } else Some (p, s) }"
  by (simp add: calloc_def Let_def)

end
