(* ===== verification/Kernel_Store.thy ===== *)
theory Kernel_Store
  imports Kernel_Prelude
begin

text \<open>
  What the kernel relies on where it keeps a finite map in memory or on a disk: the directories of the
  file system and the page directories. The locale \<open>map_store\<close> is the contract of lookup and insertion,
  which may fail for lack of room; \<open>removable_store\<close> adds removal. The providers interpret them in
  \<open>Kernel_Dir_Safe\<close> and \<open>Kernel_Pagedir\<close>.
\<close>

datatype ('k, 'v) store_op = Find 'k | Put 'k 'v

datatype 'v answer = Found "'v option" | Added bool

fun put_keys :: "('k, 'v) store_op list \<Rightarrow> 'k list" where
  "put_keys [] = []"
| "put_keys (Find k # ops) = put_keys ops"
| "put_keys (Put k v # ops) = k # put_keys ops"

text \<open>The answers that a finite map explains; an insertion may have failed.\<close>

fun explains :: "('k \<rightharpoonup> 'v) \<Rightarrow> ('k, 'v) store_op list \<Rightarrow> 'v answer list \<Rightarrow> ('k \<rightharpoonup> 'v) \<Rightarrow> bool" where
  "explains m [] [] m' \<longleftrightarrow> m' = m"
| "explains m (Find k # ops) (Found r # as) m' \<longleftrightarrow> r = m k \<and> explains m ops as m'"
| "explains m (Put k v # ops) (Added ok # as) m' \<longleftrightarrow> explains (if ok then m(k \<mapsto> v) else m) ops as m'"
| "explains m _ _ m' \<longleftrightarrow> False"

fun run_store :: "('s \<Rightarrow> 'k \<Rightarrow> ('v option \<times> 's) option) \<Rightarrow> ('s \<Rightarrow> 'k \<Rightarrow> 'v \<Rightarrow> (bool \<times> 's) option) \<Rightarrow>
    's \<Rightarrow> ('k, 'v) store_op list \<Rightarrow> ('v answer list \<times> 's) option" where
  "run_store get put s [] = Some ([], s)"
| "run_store get put s (Find k # ops) = do {
     (r, s) \<leftarrow> get s k; (as, s) \<leftarrow> run_store get put s ops; Some (Found r # as, s) }"
| "run_store get put s (Put k v # ops) = do {
     (ok, s) \<leftarrow> put s k v; (as, s) \<leftarrow> run_store get put s ops; Some (Added ok # as, s) }"

locale map_store =
  fixes inv :: "'s \<Rightarrow> bool"
    and contents :: "'s \<Rightarrow> 'k \<Rightarrow> 'v option"
    and known :: "'k \<Rightarrow> bool"
    and fits :: "'s \<Rightarrow> 'k \<Rightarrow> 'v \<Rightarrow> bool"
    and get :: "'s \<Rightarrow> 'k \<Rightarrow> ('v option \<times> 's) option"
    and put :: "'s \<Rightarrow> 'k \<Rightarrow> 'v \<Rightarrow> (bool \<times> 's) option"
  assumes get_ok: "inv s \<Longrightarrow> known k \<Longrightarrow>
      \<exists>s'. get s k = Some (contents s k, s') \<and> inv s' \<and> contents s' = contents s \<and> fits s' = fits s"
    and put_ok: "inv s \<Longrightarrow> fits s k v \<Longrightarrow> contents s k = None \<Longrightarrow>
      \<exists>ok s'. put s k v = Some (ok, s') \<and> inv s' \<and> fits s' = fits s \<and>
        contents s' = (if ok then (contents s)(k \<mapsto> v) else contents s)"
begin

lemma get_after_put:
  assumes "inv s" "fits s k v" "contents s k = None" "put s k v = Some (ok, s')" "known j"
  shows "\<exists>s''. get s' j = Some (if ok \<and> j = k then Some v else contents s j, s'')"
proof -
  have "inv s'" "contents s' = (if ok then (contents s)(k \<mapsto> v) else contents s)"
    using put_ok [OF assms(1-3)] assms(4) by auto
  then show ?thesis using get_ok [of s' j] assms(5) by auto
qed

text \<open>Every history is one of the finite map.\<close>

lemma run_explained:
  assumes "inv s" "distinct (put_keys ops)" "\<forall>k \<in> set (put_keys ops). contents s k = None"
    "\<forall>k v. Put k v \<in> set ops \<longrightarrow> fits s k v" "\<forall>k. Find k \<in> set ops \<longrightarrow> known k"
  shows "\<exists>as s'. run_store get put s ops = Some (as, s') \<and> inv s' \<and> explains (contents s) ops as (contents s')"
  using assms
proof (induction ops arbitrary: s)
  case (Cons a ops)
  show ?case
  proof (cases a)
    case (Find k)
    obtain s1 where s1: "get s k = Some (contents s k, s1)" "inv s1" "contents s1 = contents s" "fits s1 = fits s"
      using get_ok [OF Cons.prems(1), of k] Cons.prems(5) Find by auto
    then show ?thesis using Cons.IH [OF s1(2)] Cons.prems Find by (fastforce simp: s1(3,4))
  next
    case (Put k v)
    obtain ok s1 where s1: "put s k v = Some (ok, s1)" "inv s1" "fits s1 = fits s"
      "contents s1 = (if ok then (contents s)(k \<mapsto> v) else contents s)"
      using put_ok [OF Cons.prems(1), of k v] Cons.prems(3,4) Put by auto
    have "\<forall>j \<in> set (put_keys ops). contents s1 j = None" using Cons.prems(2,3) Put s1(4) by auto
    then show ?thesis using Cons.IH [OF s1(2)] Cons.prems Put s1 by fastforce
  qed
qed simp

end

locale removable_store = map_store +
  fixes del :: "'s \<Rightarrow> 'k \<Rightarrow> 's option"
  assumes del_ok: "inv s \<Longrightarrow> known k \<Longrightarrow>
      \<exists>s'. del s k = Some s' \<and> inv s' \<and> fits s' = fits s \<and> contents s' = (contents s)(k := None)"
begin

lemma del_after_put:
  assumes "inv s" "fits s k v" "contents s k = None" "put s k v = Some (ok, s')" "known k"
  shows "\<exists>s''. del s' k = Some s'' \<and> inv s'' \<and> contents s'' = contents s"
proof -
  have s': "inv s'" "contents s' = (if ok then (contents s)(k \<mapsto> v) else contents s)"
    using put_ok [OF assms(1-3)] assms(4) by auto
  then have "(contents s')(k := None) = contents s" using assms(3) by auto
  then show ?thesis using del_ok [OF s'(1) assms(5)] by auto
qed

end

end
