(* ===== verification/Kernel_Pagedir.thy ===== *)
theory Kernel_Pagedir
  imports Kernel_Malloc Kernel_Store
begin

text \<open>
  Page directories and page tables, \<open>userprog/pagedir.c\<close> and \<open>threads/pte.h\<close>, as words in the byte
  memory that the page allocator hands out. The control register and the flush of the translation
  lookaside buffer are fields of the state; every write to the register flushes.

  \<open>pd_mapping\<close> reads a page directory as the processor does; \<open>pd_inv\<close> says that a directory and
  its tables are pages of their own. The lemmas show that \<open>pagedir_set_page\<close>, \<open>pagedir_clear_page\<close>
  and \<open>pagedir_get_page\<close> are update, deletion and lookup on that map, and when an update fails; the
  interpretation \<open>pages\<close> states this as the contract \<open>removable_store\<close>.
\<close>

section \<open>pte.h\<close>

definition PTSHIFT :: nat where "PTSHIFT = PGBITS"
definition PTBITS :: nat where "PTBITS = 10"
definition PTSPAN :: nat where "PTSPAN = 2 ^ PTBITS * 2 ^ PGBITS"
definition PTMASK :: u32 where "PTMASK = BITMASK PTSHIFT PTBITS"
definition PDSHIFT :: nat where "PDSHIFT = PTSHIFT + PTBITS"
definition PDBITS :: nat where "PDBITS = 10"
definition PDMASK :: u32 where "PDMASK = BITMASK PDSHIFT PDBITS"

definition pt_no :: "u32 \<Rightarrow> u32" where "pt_no va = drop_bit PTSHIFT (va AND PTMASK)"
definition pd_no :: "u32 \<Rightarrow> u32" where "pd_no va = drop_bit PDSHIFT va"

definition PTE_FLAGS :: u32 where "PTE_FLAGS = 0x00000fff"
definition PTE_ADDR :: u32 where "PTE_ADDR = 0xfffff000"
definition PTE_AVL :: u32 where "PTE_AVL = 0x00000e00"
definition PTE_P :: u32 where "PTE_P = 0x1"
definition PTE_W :: u32 where "PTE_W = 0x2"
definition PTE_U :: u32 where "PTE_U = 0x4"
definition PTE_A :: u32 where "PTE_A = 0x20"
definition PTE_D :: u32 where "PTE_D = 0x40"

definition pde_create :: "u32 \<Rightarrow> u32 option" where
  "pde_create pt = do {
     ASSERT (pg_ofs pt = 0);
     p \<leftarrow> vtop pt;
     Some (p OR PTE_U OR PTE_P OR PTE_W) }"

definition pde_get_pt :: "u32 \<Rightarrow> u32 option" where
  "pde_get_pt pde = do { ASSERT (pde AND PTE_P \<noteq> 0); ptov (pde AND PTE_ADDR) }"

definition pte_create_kernel :: "u32 \<Rightarrow> bool \<Rightarrow> u32 option" where
  "pte_create_kernel page writable = do {
     ASSERT (pg_ofs page = 0);
     p \<leftarrow> vtop page;
     Some (p OR PTE_P OR (if writable then PTE_W else 0)) }"

definition pte_create_user :: "u32 \<Rightarrow> bool \<Rightarrow> u32 option" where
  "pte_create_user page writable = map_option (\<lambda>p. p OR PTE_U) (pte_create_kernel page writable)"

definition pte_get_page :: "u32 \<Rightarrow> u32 option" where
  "pte_get_page pte = ptov (pte AND PTE_ADDR)"

section \<open>pagedir.c\<close>

record vm =
  frames :: palloc
  init_page_dir :: u32
  init_ram_pages :: u32
  cr3 :: u32
  tlb_flushes :: nat

definition vm_load :: "vm \<Rightarrow> u32 \<Rightarrow> u32" where
  "vm_load s p = load32 (mem (frames s)) p"

definition vm_store :: "vm \<Rightarrow> u32 \<Rightarrow> u32 \<Rightarrow> vm" where
  "vm_store s p v = s\<lparr>frames := (frames s)\<lparr>mem := store32 (mem (frames s)) p v\<rparr>\<rparr>"

definition pagedir_create :: "vm \<Rightarrow> (u32 \<times> vm) option" where
  "pagedir_create s = do {
     (pd, fr) \<leftarrow> palloc_get_page (frames s) 0;
     if pd \<noteq> 0
     then do {
       (_, m) \<leftarrow> memcpy (mem fr) pd (init_page_dir s) PGSIZE;
       Some (pd, s\<lparr>frames := fr\<lparr>mem := m\<rparr>\<rparr>) }
     else Some (pd, s\<lparr>frames := fr\<rparr>) }"

fun destroy_ptes :: "nat \<Rightarrow> u32 \<Rightarrow> vm \<Rightarrow> vm option" where
  "destroy_ptes 0 pte s = Some s"
| "destroy_ptes (Suc n) pte s =
     (if vm_load s pte AND PTE_P \<noteq> 0
      then do {
        page \<leftarrow> pte_get_page (vm_load s pte);
        fr \<leftarrow> palloc_free_page (frames s) page;
        destroy_ptes n (pte + 4) (s\<lparr>frames := fr\<rparr>) }
      else destroy_ptes n (pte + 4) s)"

fun destroy_pdes :: "nat \<Rightarrow> u32 \<Rightarrow> vm \<Rightarrow> vm option" where
  "destroy_pdes 0 pde s = Some s"
| "destroy_pdes (Suc n) pde s =
     (if vm_load s pde AND PTE_P \<noteq> 0
      then do {
        pt \<leftarrow> pde_get_pt (vm_load s pde);
        s \<leftarrow> destroy_ptes (PGSIZE div 4) pt s;
        fr \<leftarrow> palloc_free_page (frames s) pt;
        destroy_pdes n (pde + 4) (s\<lparr>frames := fr\<rparr>) }
      else destroy_pdes n (pde + 4) s)"

definition pagedir_destroy :: "vm \<Rightarrow> u32 \<Rightarrow> vm option" where
  "pagedir_destroy s pd =
     (if pd = 0 then Some s
      else do {
        ASSERT (pd \<noteq> init_page_dir s);
        s \<leftarrow> destroy_pdes (unat (pd_no PHYS_BASE)) pd s;
        fr \<leftarrow> palloc_free_page (frames s) pd;
        Some (s\<lparr>frames := fr\<rparr>) })"

text \<open>The result is the address of the entry, or null.\<close>

definition lookup_page :: "vm \<Rightarrow> u32 \<Rightarrow> u32 \<Rightarrow> bool \<Rightarrow> (u32 \<times> vm) option" where
  "lookup_page s pd vaddr create = do {
     ASSERT (pd \<noteq> 0);
     ASSERT (\<not> create \<or> is_user_vaddr vaddr);
     let pde = pd + 4 * pd_no vaddr;
     (ok, s) \<leftarrow>
       (if vm_load s pde = 0
        then (if create
          then do {
            (pt, fr) \<leftarrow> palloc_get_page (frames s) PAL_ZERO;
            let s = s\<lparr>frames := fr\<rparr>;
            if pt = 0 then Some (False, s)
            else do { e \<leftarrow> pde_create pt; Some (True, vm_store s pde e) } }
          else Some (False, s))
        else Some (True, s));
     if ok
     then do { pt \<leftarrow> pde_get_pt (vm_load s pde); Some (pt + 4 * pt_no vaddr, s) }
     else Some (0, s) }"

definition pagedir_set_page :: "vm \<Rightarrow> u32 \<Rightarrow> u32 \<Rightarrow> u32 \<Rightarrow> bool \<Rightarrow> (bool \<times> vm) option" where
  "pagedir_set_page s pd upage kpage writable = do {
     ASSERT (pg_ofs upage = 0);
     ASSERT (pg_ofs kpage = 0);
     ASSERT (is_user_vaddr upage);
     p \<leftarrow> vtop kpage;
     ASSERT (drop_bit PTSHIFT p < init_ram_pages s);
     ASSERT (pd \<noteq> init_page_dir s);
     (pte, s) \<leftarrow> lookup_page s pd upage True;
     if pte \<noteq> 0
     then do {
       ASSERT (vm_load s pte AND PTE_P = 0);
       e \<leftarrow> pte_create_user kpage writable;
       Some (True, vm_store s pte e) }
     else Some (False, s) }"

definition pagedir_get_page :: "vm \<Rightarrow> u32 \<Rightarrow> u32 \<Rightarrow> u32 option" where
  "pagedir_get_page s pd uaddr = do {
     ASSERT (is_user_vaddr uaddr);
     (pte, s) \<leftarrow> lookup_page s pd uaddr False;
     if pte \<noteq> 0 \<and> vm_load s pte AND PTE_P \<noteq> 0
     then map_option (\<lambda>p. p + pg_ofs uaddr) (pte_get_page (vm_load s pte))
     else Some 0 }"

definition pagedir_activate :: "vm \<Rightarrow> u32 \<Rightarrow> vm option" where
  "pagedir_activate s pd = do {
     p \<leftarrow> vtop (if pd = 0 then init_page_dir s else pd);
     Some (s\<lparr>cr3 := p, tlb_flushes := tlb_flushes s + 1\<rparr>) }"

definition active_pd :: "vm \<Rightarrow> u32 option" where
  "active_pd s = ptov (cr3 s)"

definition invalidate_pagedir :: "vm \<Rightarrow> u32 \<Rightarrow> vm option" where
  "invalidate_pagedir s pd = do {
     a \<leftarrow> active_pd s;
     if a = pd then pagedir_activate s pd else Some s }"

definition pagedir_clear_page :: "vm \<Rightarrow> u32 \<Rightarrow> u32 \<Rightarrow> vm option" where
  "pagedir_clear_page s pd upage = do {
     ASSERT (pg_ofs upage = 0);
     ASSERT (is_user_vaddr upage);
     (pte, s) \<leftarrow> lookup_page s pd upage False;
     if pte \<noteq> 0 \<and> vm_load s pte AND PTE_P \<noteq> 0
     then invalidate_pagedir (vm_store s pte (vm_load s pte AND NOT PTE_P)) pd
     else Some s }"

definition pagedir_is_dirty :: "vm \<Rightarrow> u32 \<Rightarrow> u32 \<Rightarrow> bool option" where
  "pagedir_is_dirty s pd vpage = do {
     (pte, s) \<leftarrow> lookup_page s pd vpage False;
     Some (pte \<noteq> 0 \<and> vm_load s pte AND PTE_D \<noteq> 0) }"

definition set_pte_bit :: "vm \<Rightarrow> u32 \<Rightarrow> u32 \<Rightarrow> u32 \<Rightarrow> bool \<Rightarrow> vm option" where
  "set_pte_bit s pd vpage flag v = do {
     (pte, s) \<leftarrow> lookup_page s pd vpage False;
     if pte \<noteq> 0
     then (if v then Some (vm_store s pte (vm_load s pte OR flag))
           else invalidate_pagedir (vm_store s pte (vm_load s pte AND NOT flag)) pd)
     else Some s }"

definition pagedir_set_dirty :: "vm \<Rightarrow> u32 \<Rightarrow> u32 \<Rightarrow> bool \<Rightarrow> vm option" where
  "pagedir_set_dirty s pd vpage dirty = set_pte_bit s pd vpage PTE_D dirty"

definition pagedir_is_accessed :: "vm \<Rightarrow> u32 \<Rightarrow> u32 \<Rightarrow> bool option" where
  "pagedir_is_accessed s pd vpage = do {
     (pte, s) \<leftarrow> lookup_page s pd vpage False;
     Some (pte \<noteq> 0 \<and> vm_load s pte AND PTE_A \<noteq> 0) }"

definition pagedir_set_accessed :: "vm \<Rightarrow> u32 \<Rightarrow> u32 \<Rightarrow> bool \<Rightarrow> vm option" where
  "pagedir_set_accessed s pd vpage accessed = set_pte_bit s pd vpage PTE_A accessed"

section \<open>Words in pages\<close>

lemma PTMASK_eq: "PTMASK = push_bit 12 (mask 10)"
  by (simp add: PTMASK_def BITMASK_def PTSHIFT_def PGBITS_def PTBITS_def mask_eq_exp_minus_1)

lemma pt_no_eq: "pt_no va = take_bit 10 (drop_bit 12 va)"
  by (rule bit_eqI) (auto simp: pt_no_def PTMASK_eq PTSHIFT_def PGBITS_def bit_simps dest: bit_imp_le_length)

lemma pt_no_less: "unat (pt_no va) < 1024"
proof -
  have "unat (pt_no va) = take_bit 10 (unat (drop_bit 12 va))" by (simp add: pt_no_eq unsigned_take_bit_eq)
  then show ?thesis by (simp add: take_bit_eq_mod)
qed

lemma unat_pd_no: "unat (pd_no va) = unat va div 4194304"
  by (simp add: pd_no_def PDSHIFT_def PTSHIFT_def PGBITS_def PTBITS_def drop_bit_eq_div unat_div)

lemma unat_pt_no: "unat (pt_no va) = unat va div 4096 mod 1024"
  by (simp add: pt_no_eq unsigned_take_bit_eq take_bit_eq_mod drop_bit_eq_div unat_div unat_mod)

lemma pd_no_user: "is_user_vaddr va \<Longrightarrow> unat (pd_no va) < 768"
  unfolding unat_pd_no by (simp add: is_user_vaddr_def PHYS_BASE_def word_less_nat_alt less_mult_imp_div_less)

lemma same_page_iff: "pg_no v = pg_no w \<longleftrightarrow> pd_no v = pd_no w \<and> pt_no v = pt_no w"
proof -
  have "unat v div 4096 = unat w div 4096 \<longleftrightarrow>
      unat v div 4194304 = unat w div 4194304 \<and> unat v div 4096 mod 1024 = unat w div 4096 mod 1024"
  proof -
    have d: "x div 4194304 = x div 4096 div 1024" for x :: nat by (simp add: div_mult2_eq [symmetric])
    show ?thesis unfolding d by (metis div_mult_mod_eq)
  qed
  then show ?thesis by (simp add: word_unat_eq_iff unat_pg_no unat_pd_no unat_pt_no PGSIZE_def)
qed

definition word_at :: "u32 \<Rightarrow> u32 \<Rightarrow> u32" where
  "word_at page i = page + 4 * i"

lemma dvd4_diff:
  assumes "4 dvd unat x" "4 dvd unat y" "x \<noteq> (y :: u32)"
  shows "4 \<le> unat (x - y)"
proof -
  have d: "4 dvd unat w \<longleftrightarrow> take_bit 2 w = 0" for w :: u32
  proof -
    have "unat (take_bit 2 w) = unat w mod 4" by (simp add: take_bit_eq_mod unat_mod)
    then show ?thesis by (metis dvd_eq_mod_eq_0 unat_0 unat_eq_zero)
  qed
  obtain a b where "unat x = 4 * a" "unat y = 4 * b" using assms(1,2) by (auto elim!: dvdE)
  then have "x = of_nat (4 * a)" "y = of_nat (4 * b)" by (metis of_nat_unat ucast_id)+
  then have "x - y = push_bit 2 (of_nat a - of_nat b)" by (simp add: push_bit_eq_mult algebra_simps)
  then have "take_bit 2 (x - y) = 0" by (simp only:) (rule bit_eqI, auto simp: bit_simps)
  then have "4 dvd unat (x - y)" by (simp only: d)
  moreover have "unat (x - y) \<noteq> 0" using assms(3) by (simp add: unat_eq_zero)
  ultimately show ?thesis by (auto dest: dvd_imp_le)
qed

lemma unat_word_at:
  assumes "pg_ofs p = 0" "unat i < 1024"
  shows "unat (word_at p i) = unat p + 4 * unat i"
proof -
  obtain q where q: "unat p = PGSIZE * q" using assms(1) by (auto simp: pg_aligned_iff)
  have i: "unat (4 * i) = 4 * unat i" using assms(2) by (simp add: unat_mult_lem [THEN iffD1] unat_word_ariths)
  have "q * 4096 < 1048576 * 4096" using unat_u32_lt [of p] q by (simp add: PGSIZE_def)
  then have "q < 1048576" by simp
  then have "unat p + unat (4 * i) < 2 ^ 32" using q assms(2) i by (simp add: PGSIZE_def)
  then show ?thesis unfolding word_at_def using unat_add_small [of p "4 * i"] i by simp
qed

lemma word_at_inj:
  assumes "pg_ofs p = 0" "pg_ofs q = 0" "unat i < 1024" "unat j < 1024"
  shows "word_at p i = word_at q j \<longleftrightarrow> p = q \<and> i = j"
proof
  assume "word_at p i = word_at q j"
  then have e: "unat p + 4 * unat i = unat q + 4 * unat j" using unat_word_at assms by metis
  obtain a b where ab: "unat p = 4096 * a" "unat q = 4096 * b" using assms(1,2) by (auto simp: pg_aligned_iff PGSIZE_def elim!: dvdE)
  then have "a = b" using e assms(3,4) by simp
  then show "p = q \<and> i = j" using e ab by (simp add: word_unat_eq_iff)
qed auto

lemma word_at_apart:
  assumes "pg_ofs p = 0" "pg_ofs q = 0" "unat i < 1024" "unat j < 1024" "p \<noteq> q \<or> i \<noteq> j"
  shows "4 \<le> unat (word_at p i - word_at q j)"
proof (rule dvd4_diff)
  show "4 dvd unat (word_at p i)" "4 dvd unat (word_at q j)"
    using assms by (auto simp: unat_word_at pg_aligned_iff PGSIZE_def)
  show "word_at p i \<noteq> word_at q j" using assms by (auto simp: word_at_inj)
qed

lemma load_store_word_at:
  assumes "pg_ofs p = 0" "pg_ofs q = 0" "unat i < 1024" "unat j < 1024"
  shows "load32 (store32 m (word_at p i) v) (word_at q j) = (if p = q \<and> i = j then v else load32 m (word_at q j))"
  using load_store_other [of "word_at q j" "word_at p i" m v] word_at_apart [OF assms] word_at_apart [OF assms(2,1,4,3)]
  by (auto simp: load_store_same)

lemma word_at_bytes:
  assumes "pg_ofs p = 0" "unat i < 1024" "k < 4"
  shows "word_at p i + of_nat k = p + of_nat (4 * unat i + k)" "4 * unat i + k < PGSIZE"
  using assms by (simp_all add: word_at_def PGSIZE_def)

lemma page_bytes_apart:
  assumes "pg_ofs p = 0" "pg_ofs q = 0" "p \<noteq> q" "k < PGSIZE"
  shows "\<not> in_range p PGSIZE (q + of_nat k)"
proof
  assume "in_range p PGSIZE (q + of_nat k)"
  then obtain j where j: "j < PGSIZE" "q + of_nat k = p + of_nat j"
    using in_range_offset [of PGSIZE p] by (auto simp: PGSIZE_def)
  then show False using page_offset(1) [OF assms(2,4)] page_offset(1) [OF assms(1) j(1)] assms(3) by simp
qed

lemma load_mem_set_page:
  assumes "pg_ofs p = 0" "pg_ofs q = 0" "unat i < 1024"
  shows "load32 (mem_set m p 0 PGSIZE) (word_at q i) = (if p = q then 0 else load32 m (word_at q i))"
proof -
  have b: "in_range p PGSIZE (word_at q i + of_nat k) \<longleftrightarrow> p = q" if "k < 4" for k
  proof -
    note w = word_at_bytes [OF assms(2,3) that]
    have "in_range p PGSIZE (p + of_nat (4 * unat i + k))" using w(2) by (simp add: in_range_def unat_of_nat_small PGSIZE_def del: of_nat_add)
    then show ?thesis using page_bytes_apart [OF assms(1,2) _ w(2)] unfolding w(1) by blast
  qed
  have "load32 (mem_set m p 0 PGSIZE) (word_at q i) =
      (if p = q then le_word 0 0 0 0 else load32 m (word_at q i))"
    using b [of 0] b [of 1] b [of 2] b [of 3] by (simp add: load32_def mem_set_def)
  then show ?thesis by (simp add: le_word_def)
qed

section \<open>The mapping of a page directory\<close>

definition pde_at :: "vm \<Rightarrow> u32 \<Rightarrow> u32 \<Rightarrow> u32" where
  "pde_at s pd v = vm_load s (word_at pd (pd_no v))"

definition pt_of :: "u32 \<Rightarrow> u32" where
  "pt_of e = (e AND PTE_ADDR) + PHYS_BASE"

definition pte_at :: "vm \<Rightarrow> u32 \<Rightarrow> u32 \<Rightarrow> u32" where
  "pte_at s pd v = vm_load s (word_at (pt_of (pde_at s pd v)) (pt_no v))"

definition pte_decode :: "u32 \<Rightarrow> (u32 \<times> bool) option" where
  "pte_decode e = (if e AND PTE_P = 0 then None else Some (e AND PTE_ADDR, e AND PTE_W \<noteq> 0))"

definition pd_mapping :: "vm \<Rightarrow> u32 \<Rightarrow> u32 \<Rightarrow> (u32 \<times> bool) option" where
  "pd_mapping s pd v = (if pde_at s pd v = 0 then None else pte_decode (pte_at s pd v))"

abbreviation kernel_frames :: "vm \<Rightarrow> pool" where
  "kernel_frames s \<equiv> kernel_pool (frames s)"

definition used_page :: "vm \<Rightarrow> u32 \<Rightarrow> bool" where
  "used_page s p \<longleftrightarrow> (\<exists>i < bit_cnt (used_map (kernel_frames s)).
     p = pool_page (kernel_frames s) i \<and> pool_used (kernel_frames s) ! i)"

definition pde_ok :: "vm \<Rightarrow> u32 \<Rightarrow> u32 \<Rightarrow> bool" where
  "pde_ok s pd e \<longleftrightarrow> e = 0 \<or>
     e AND PTE_P \<noteq> 0 \<and> e AND PTE_ADDR < PHYS_BASE \<and> used_page s (pt_of e) \<and> pt_of e \<noteq> pd"

definition pd_inv :: "vm \<Rightarrow> u32 \<Rightarrow> bool" where
  "pd_inv s pd \<longleftrightarrow> palloc_inv (frames s) \<and> PHYS_BASE \<le> pool_base (kernel_frames s) \<and> used_page s pd \<and>
     cr3 s < PHYS_BASE \<and>
     (\<forall>v. is_user_vaddr v \<longrightarrow> pde_ok s pd (pde_at s pd v)) \<and>
     (\<forall>v w. is_user_vaddr v \<longrightarrow> is_user_vaddr w \<longrightarrow> pd_no v \<noteq> pd_no w \<longrightarrow> pde_at s pd v \<noteq> 0 \<longrightarrow> pde_at s pd w \<noteq> 0 \<longrightarrow>
        pt_of (pde_at s pd v) \<noteq> pt_of (pde_at s pd w))"

lemma used_page_facts:
  assumes "palloc_inv (frames s)" "used_page s p"
  shows "p \<noteq> 0" "pg_ofs p = 0" "PHYS_BASE \<le> pool_base (kernel_frames s) \<Longrightarrow> PHYS_BASE \<le> p"
proof -
  have k: "pool_inv (kernel_frames s)" using assms(1) by (simp add: palloc_inv_def)
  obtain i where i: "i < bit_cnt (used_map (kernel_frames s))" "p = pool_page (kernel_frames s) i"
    using assms(2) by (auto simp: used_page_def)
  show "p \<noteq> 0" "pg_ofs p = 0" using pool_page_facts [OF k i(1)] i(2) by simp_all
  show "PHYS_BASE \<le> p" if "PHYS_BASE \<le> pool_base (kernel_frames s)"
    using that unat_pool_page [OF k, of i] i by (simp add: word_le_nat_alt)
qed

text \<open>
  A zeroed page \<open>pt\<close> from the kernel pool, and the allocator \<open>fr\<close> afterwards: the page was not in use,
  nothing else has changed.
\<close>

definition kernel_free :: "vm \<Rightarrow> nat" where
  "kernel_free s = length (filter Not (pool_used (kernel_frames s)))"

definition zero_page :: "vm \<Rightarrow> u32 \<Rightarrow> palloc \<Rightarrow> bool" where
  "zero_page s pt fr \<longleftrightarrow> palloc_inv fr \<and> user_pool fr = user_pool (frames s) \<and> mem fr = mem_set (mem (frames s)) pt 0 PGSIZE \<and>
     pool_base (kernel_pool fr) = pool_base (kernel_frames s) \<and>
     bit_cnt (used_map (kernel_pool fr)) = bit_cnt (used_map (kernel_frames s)) \<and>
     pt \<noteq> 0 \<and> pg_ofs pt = 0 \<and> (\<exists>k < bit_cnt (used_map (kernel_frames s)). pt = pool_page (kernel_frames s) k) \<and>
     \<not> used_page s pt \<and> (\<forall>q. used_page (s\<lparr>frames := fr\<rparr>) q \<longleftrightarrow> used_page s q \<or> q = pt) \<and>
     Suc (kernel_free (s\<lparr>frames := fr\<rparr>)) = kernel_free s"

lemma zero_pageD:
  assumes "zero_page s pt fr"
  shows "palloc_inv fr" "user_pool fr = user_pool (frames s)" "mem fr = mem_set (mem (frames s)) pt 0 PGSIZE"
    "pool_base (kernel_pool fr) = pool_base (kernel_frames s)"
    "bit_cnt (used_map (kernel_pool fr)) = bit_cnt (used_map (kernel_frames s))" "pt \<noteq> 0" "pg_ofs pt = 0"
    "\<not> used_page s pt" "used_page (s\<lparr>frames := fr\<rparr>) q \<longleftrightarrow> used_page s q \<or> q = pt"
    "Suc (kernel_free (s\<lparr>frames := fr\<rparr>)) = kernel_free s"
  using assms by (simp_all add: zero_page_def)

lemma filter_fill:
  assumes "k < length xs" "\<not> xs ! k"
  shows "Suc (length (filter Not (fill xs k 1 True))) = length (filter Not xs)"
proof -
  have "xs = take k xs @ xs ! k # drop (Suc k) xs" using assms(1) by (rule id_take_nth_drop)
  then have "length (filter Not xs) = length (filter Not (take k xs @ xs ! k # drop (Suc k) xs))" by (rule arg_cong)
  then show ?thesis using assms(2) by (simp add: fill_def)
qed

lemma group_zero_page:
  fixes s :: vm
  assumes inv: "palloc_inv (frames s)" "palloc_inv fr" and k: "is_group (pool_used (kernel_frames s)) k 1 False"
    and um: "bit_cnt um = bit_cnt (used_map (kernel_frames s))" "bm_abs um = fill (pool_used (kernel_frames s)) k 1 True"
    and fr: "fr = (frames s)\<lparr>kernel_pool := (kernel_frames s)\<lparr>used_map := um\<rparr>,
      mem := mem_set (mem (frames s)) (pool_page (kernel_frames s) k) 0 PGSIZE\<rparr>"
  shows "zero_page s (pool_page (kernel_frames s) k) fr"
proof -
  let ?pt = "pool_page (kernel_frames s) k" and ?s = "s\<lparr>frames := fr\<rparr>"
  have kinv: "pool_inv (kernel_frames s)" using inv(1) by (simp add: palloc_inv_def)
  have kb: "k < bit_cnt (used_map (kernel_frames s))" "\<not> pool_used (kernel_frames s) ! k"
    using k by (simp_all add: is_group_def)
  have pp: "pool_page (kernel_frames ?s) i = pool_page (kernel_frames s) i" for i by (simp add: fr pool_page_def)
  have nth: "pool_used (kernel_frames ?s) ! i \<longleftrightarrow> pool_used (kernel_frames s) ! i \<or> i = k"
    if "i < bit_cnt (used_map (kernel_frames s))" for i
    using that kb(1) by (auto simp: fr um(2) nth_fill)
  have "used_page ?s q \<longleftrightarrow> used_page s q \<or> q = ?pt" for q
    unfolding used_page_def pp using nth kb(1) by (auto simp: fr um(1))
  moreover have "\<not> used_page s ?pt"
  proof
    assume "used_page s ?pt"
    then obtain i where i: "i < bit_cnt (used_map (kernel_frames s))" "?pt = pool_page (kernel_frames s) i"
      "pool_used (kernel_frames s) ! i" by (auto simp: used_page_def)
    have "i = k"
      using pool_page_facts(5) [OF kinv i(1), folded i(2)] pool_page_facts(5) [OF kinv kb(1)] by simp
    then show False using i(3) kb(2) by simp
  qed
  moreover have "Suc (kernel_free ?s) = kernel_free s"
    using filter_fill [of k "pool_used (kernel_frames s)"] kb by (simp add: kernel_free_def fr um(2))
  ultimately show ?thesis
    using inv(2) pool_page_facts(1,2) [OF kinv kb(1)] kb(1) um(1) unfolding zero_page_def by (auto simp: fr)
qed

lemma get_zero_page:
  fixes s :: vm and flags :: u32
  assumes inv: "palloc_inv (frames s)" and f: "flags AND PAL_USER = 0" "flags AND PAL_ZERO \<noteq> 0"
  obtains "kernel_free s = 0" "palloc_get_page (frames s) flags = (if flags AND PAL_ASSERT = 0 then Some (0, frames s) else None)"
  | pt fr where "palloc_get_page (frames s) flags = Some (pt, fr)" "zero_page s pt fr"
proof -
  have sel: "selected_pool (frames s) flags = kernel_frames s" using f(1) by (simp add: selected_pool_def)
  note spec = palloc_get_multiple_spec [OF inv zero_less_one, of flags, unfolded sel if_P [OF f(2)]]
  show ?thesis
  proof (cases "\<exists>k. is_group (pool_used (kernel_frames s)) k 1 False")
    case True
    obtain k um where get: "palloc_get_multiple (frames s) flags 1 = Some (pool_page (kernel_frames s) k,
        (with_pool (frames s) flags ((kernel_frames s)\<lparr>used_map := um\<rparr>))\<lparr>mem :=
          mem_set (mem (frames s)) (pool_page (kernel_frames s) k) 0 (PGSIZE * 1)\<rparr>)"
      "is_group (pool_used (kernel_frames s)) k 1 False" "bit_cnt um = bit_cnt (used_map (kernel_frames s))"
      "bm_abs um = fill (pool_used (kernel_frames s)) k 1 True"
      using spec unfolding if_P [OF True] by blast
    define fr where "fr = (frames s)\<lparr>kernel_pool := (kernel_frames s)\<lparr>used_map := um\<rparr>,
      mem := mem_set (mem (frames s)) (pool_page (kernel_frames s) k) 0 PGSIZE\<rparr>"
    have g: "palloc_get_multiple (frames s) flags 1 = Some (pool_page (kernel_frames s) k, fr)"
      using get(1) f(1) by (simp add: fr_def with_pool_def)
    show ?thesis
      by (rule that(2) [OF g [folded palloc_get_page_def] group_zero_page [OF inv palloc_get_multiple_inv [OF inv g] get(2-4) fr_def]])
  next
    case False
    then have "x" if "x \<in> set (pool_used (kernel_frames s))" for x
      using that by (auto simp: in_set_conv_nth is_group_def)
    then have "kernel_free s = 0" by (auto simp: kernel_free_def filter_empty_conv)
    moreover have "palloc_get_page (frames s) flags = (if flags AND PAL_ASSERT = 0 then Some (0, frames s) else None)"
      using spec unfolding if_not_P [OF False] palloc_get_page_def .
    ultimately show ?thesis by (rule that(1))
  qed
qed

lemma entry_bits:
  assumes "pg_ofs a = 0" "f AND PTE_ADDR = 0"
  shows "(a OR f) AND PTE_ADDR = a"
proof -
  have "PTE_ADDR = NOT PGMASK" by (simp add: PTE_ADDR_def PGMASK_eq mask_eq_exp_minus_1)
  then have "a AND PTE_ADDR = a" using pg_round_down_id [OF assms(1)] by (simp add: pg_round_down_def)
  moreover have "(a OR f) AND PTE_ADDR = (a AND PTE_ADDR) OR (f AND PTE_ADDR)" by (rule bit_eqI) (auto simp: bit_simps)
  ultimately show ?thesis using assms(2) by simp
qed

lemma flag_of_or: "(a OR f) AND PTE_P \<noteq> 0" if "f AND PTE_P \<noteq> 0" for a :: u32
proof -
  have "(a OR f) AND PTE_P = (a AND PTE_P) OR (f AND PTE_P)" by (rule bit_eqI) (auto simp: bit_simps)
  then show ?thesis using that by (metis or_eq_0_iff)
qed

lemma vtop_page:
  assumes "pg_ofs p = 0" "PHYS_BASE \<le> p"
  shows "vtop p = Some (p - PHYS_BASE)" "pg_ofs (p - PHYS_BASE) = 0" "p - PHYS_BASE < PHYS_BASE"
proof -
  show "vtop p = Some (p - PHYS_BASE)" using assms(2) by (simp add: vtop_def is_kernel_vaddr_def)
  have u: "unat (p - PHYS_BASE) = unat p - 0xc0000000" using assms(2) by (simp add: unat_sub PHYS_BASE_def)
  show "pg_ofs (p - PHYS_BASE) = 0" using assms(1) by (simp add: pg_aligned_iff u PGSIZE_def)
  have "unat p - 0xc0000000 < 0xc0000000" using unat_u32_lt [of p] by linarith
  then show "p - PHYS_BASE < PHYS_BASE" by (simp add: word_less_nat_alt u) (simp add: PHYS_BASE_def)
qed

lemma pde_create_ok:
  assumes "pg_ofs p = 0" "PHYS_BASE \<le> p"
  obtains e where "pde_create p = Some e" "pt_of e = p" "e AND PTE_P \<noteq> 0" "e AND PTE_ADDR < PHYS_BASE" "e \<noteq> 0"
proof -
  let ?f = "PTE_U OR PTE_P OR PTE_W"
  have f: "?f AND PTE_ADDR = 0" "?f AND PTE_P \<noteq> 0" by (simp_all add: PTE_U_def PTE_P_def PTE_W_def PTE_ADDR_def)
  note V = vtop_page [OF assms]
  let ?e = "(p - PHYS_BASE) OR ?f"
  have "pde_create p = Some ?e" using V(1) assms(1) by (simp add: pde_create_def or.assoc)
  moreover have "?e AND PTE_ADDR = p - PHYS_BASE" by (rule entry_bits [OF V(2) f(1)])
  moreover have "?e AND PTE_P \<noteq> 0" by (rule flag_of_or [OF f(2)])
  moreover from this have "?e \<noteq> 0" by auto
  ultimately show ?thesis using that V(3) by (simp add: pt_of_def)
qed

lemma pte_create_user_ok:
  assumes "pg_ofs p = 0" "PHYS_BASE \<le> p"
  obtains e where "pte_create_user p w = Some e" "pte_decode e = Some (p - PHYS_BASE, w)"
proof -
  let ?f = "PTE_P OR (if w then PTE_W else 0) OR PTE_U"
  have f: "?f AND PTE_ADDR = 0" "?f AND PTE_P \<noteq> 0" "(?f AND PTE_W \<noteq> 0) = w"
    by (simp_all add: PTE_U_def PTE_P_def PTE_W_def PTE_ADDR_def)
  note V = vtop_page [OF assms]
  let ?e = "(p - PHYS_BASE) OR ?f"
  have "pte_create_user p w = Some ?e"
    using V(1) assms(1) by (simp add: pte_create_user_def pte_create_kernel_def or.assoc)
  moreover have "?e AND PTE_ADDR = p - PHYS_BASE" by (rule entry_bits [OF V(2) f(1)])
  moreover have "?e AND PTE_P \<noteq> 0" by (rule flag_of_or [OF f(2)])
  moreover have "?e AND PTE_W = ?f AND PTE_W"
  proof -
    let ?a = "p - PHYS_BASE"
    have "?a AND PTE_ADDR = ?a" using entry_bits [OF V(2), of 0] by simp
    then have "?a AND PTE_W = ?a AND (PTE_ADDR AND PTE_W)" by (metis and.assoc)
    then have "?a AND PTE_W = 0" by (simp add: PTE_ADDR_def PTE_W_def)
    moreover have "?e AND PTE_W = (?a AND PTE_W) OR (?f AND PTE_W)" by (rule bit_eqI) (auto simp: bit_simps)
    ultimately show ?thesis by simp
  qed
  ultimately show ?thesis using that f(3) by (simp add: pte_decode_def)
qed

section \<open>Entries\<close>

lemma pd_invD:
  assumes "pd_inv s pd" "is_user_vaddr v"
  shows "pde_ok s pd (pde_at s pd v)" "palloc_inv (frames s)" "used_page s pd" "pg_ofs pd = 0" "pd \<noteq> 0"
    "PHYS_BASE \<le> pool_base (kernel_frames s)"
  using assms used_page_facts [of s pd] by (auto simp: pd_inv_def)

lemma table_facts:
  assumes "pd_inv s pd" "is_user_vaddr v" "pde_at s pd v \<noteq> 0"
  shows "pde_at s pd v AND PTE_P \<noteq> 0" "pde_at s pd v AND PTE_ADDR < PHYS_BASE" "pt_of (pde_at s pd v) \<noteq> pd"
    "pg_ofs (pt_of (pde_at s pd v)) = 0" "used_page s (pt_of (pde_at s pd v))" "PHYS_BASE \<le> pt_of (pde_at s pd v)"
  using pd_invD [OF assms(1,2)] assms(3) used_page_facts [of s "pt_of (pde_at s pd v)"] by (auto simp: pde_ok_def)

lemma unat_pd_no_less: "unat (pd_no v) < 1024"
  unfolding unat_pd_no using unat_u32_lt [of v] by (simp add: less_mult_imp_div_less)

lemma pte_address_nonzero:
  assumes "pd_inv s pd" "is_user_vaddr v" "pde_at s pd v \<noteq> 0"
  shows "word_at (pt_of (pde_at s pd v)) (pt_no v) \<noteq> 0"
proof -
  note T = table_facts [OF assms]
  have "unat (pt_of (pde_at s pd v)) \<noteq> 0" using T(6) by (simp add: word_le_nat_alt PHYS_BASE_def)
  then have "unat (word_at (pt_of (pde_at s pd v)) (pt_no v)) \<noteq> 0"
    using unat_word_at [OF T(4) pt_no_less [of v]] by simp
  then show ?thesis by (metis unat_0)
qed

lemma lookup_page_existing:
  assumes "pd_inv s pd" "is_user_vaddr v" "pde_at s pd v \<noteq> 0"
  shows "lookup_page s pd v create = Some (word_at (pt_of (pde_at s pd v)) (pt_no v), s)"
proof -
  note T = table_facts [OF assms] and D = pd_invD [OF assms(1,2)]
  have "pde_get_pt (pde_at s pd v) = Some (pt_of (pde_at s pd v))"
    using T(1,2) by (simp add: pde_get_pt_def ptov_def pt_of_def)
  then show ?thesis
    using assms(2,3) D(5) by (simp add: lookup_page_def pde_at_def word_at_def Let_def)
qed

lemma lookup_page_missing:
  assumes "pd_inv s pd" "is_user_vaddr v" "pde_at s pd v = 0"
  shows "lookup_page s pd v False = Some (0, s)"
  using assms pd_invD(5) [OF assms(1,2)] by (simp add: lookup_page_def pde_at_def word_at_def Let_def)

lemma vm_store_simps [simp]:
  "kernel_frames (vm_store s p v) = kernel_frames s" "cr3 (vm_store s p v) = cr3 s"
  "init_page_dir (vm_store s p v) = init_page_dir s" "init_ram_pages (vm_store s p v) = init_ram_pages s"
  "palloc_inv (frames (vm_store s p v)) = palloc_inv (frames s)" "used_page (vm_store s p v) q = used_page s q"
  by (simp_all add: vm_store_def used_page_def)

lemma vm_load_store:
  assumes "pg_ofs p = 0" "pg_ofs q = 0" "unat i < 1024" "unat j < 1024"
  shows "vm_load (vm_store s (word_at p i) v) (word_at q j) = (if p = q \<and> i = j then v else vm_load s (word_at q j))"
  using load_store_word_at [OF assms] by (simp add: vm_load_def vm_store_def)

text \<open>Writing an entry of a page table.\<close>

lemma store_pte:
  fixes s :: vm and pd u v x :: u32
  assumes inv: "pd_inv s pd" and u: "is_user_vaddr u" and e: "pde_at s pd u \<noteq> 0"
  defines "s' \<equiv> vm_store s (word_at (pt_of (pde_at s pd u)) (pt_no u)) x"
  shows "pd_inv s' pd" "is_user_vaddr v \<Longrightarrow> pd_mapping s' pd v = (if pg_no v = pg_no u then pte_decode x else pd_mapping s pd v)"
proof -
  note T = table_facts [OF inv u e] and D = pd_invD [OF inv u]
  have pde: "pde_at s' pd v = pde_at s pd v" for v
    unfolding pde_at_def s'_def
    using vm_load_store [OF T(4) D(4) pt_no_less unat_pd_no_less] T(3) by (simp add: pde_at_def)
  have ok: "pde_ok s' pd e = pde_ok s pd e" for e by (simp add: pde_ok_def s'_def)
  show "pd_inv s' pd"
    using inv unfolding pd_inv_def pde ok by (simp add: s'_def)
  show "pd_mapping s' pd v = (if pg_no v = pg_no u then pte_decode x else pd_mapping s pd v)" if v: "is_user_vaddr v"
  proof (cases "pde_at s pd v = 0")
    case True
    then have "pg_no v \<noteq> pg_no u" using e by (auto simp: same_page_iff pde_at_def)
    then show ?thesis using True by (simp add: pd_mapping_def pde)
  next
    case False
    have "pte_at s' pd v = (if pg_no v = pg_no u then x else pte_at s pd v)"
    proof (cases "pd_no v = pd_no u")
      case True
      then have "pde_at s pd v = pde_at s pd u" by (simp add: pde_at_def)
      then show ?thesis
        unfolding pte_at_def pde unfolding s'_def
        using vm_load_store [OF T(4) T(4) pt_no_less pt_no_less] True by (auto simp: same_page_iff)
    next
      case other: False
      then have "pt_of (pde_at s pd v) \<noteq> pt_of (pde_at s pd u)" using inv u v e False by (simp add: pd_inv_def)
      then show ?thesis
        unfolding pte_at_def pde unfolding s'_def
        using vm_load_store [OF T(4) table_facts(4) [OF inv v False] pt_no_less pt_no_less] other
        by (auto simp: same_page_iff)
    qed
    then show ?thesis using False by (simp add: pd_mapping_def pde)
  qed
qed

text \<open>A new page table: a zeroed page that was not in use.\<close>

lemma add_table:
  fixes s :: vm and pd u e pt :: u32
  assumes inv: "pd_inv s pd" and u: "is_user_vaddr u" and none: "pde_at s pd u = 0" and z: "zero_page s pt fr"
    and pe: "pt_of e = pt" "e AND PTE_P \<noteq> 0" "e AND PTE_ADDR < PHYS_BASE" "e \<noteq> 0"
  defines "s' \<equiv> vm_store (s\<lparr>frames := fr\<rparr>) (word_at pd (pd_no u)) e"
  shows "pd_inv s' pd" "pde_at s' pd u = e" "is_user_vaddr v \<Longrightarrow> pd_mapping s' pd v = pd_mapping s pd v"
proof -
  note D = pd_invD [OF inv u] and Z = zero_pageD [OF z]
  let ?s = "s\<lparr>frames := fr\<rparr>"
  have load: "vm_load s' (word_at q j) = (if q = pd \<and> j = pd_no u then e else if q = pt then 0 else vm_load s (word_at q j))"
    if "pg_ofs q = 0" "unat j < 1024" for q j
  proof -
    have "vm_load ?s (word_at q j) = (if q = pt then 0 else vm_load s (word_at q j))"
      using load_mem_set_page [OF Z(7) that] by (simp add: vm_load_def Z(3))
    then show ?thesis unfolding s'_def using vm_load_store [OF D(4) that(1) unat_pd_no_less that(2), of ?s] by auto
  qed
  have pdpt: "pd \<noteq> pt" using Z(8) D(3) by auto
  have pde: "pde_at s' pd v = (if pd_no v = pd_no u then e else pde_at s pd v)" for v
    unfolding pde_at_def load [OF D(4) unat_pd_no_less] using pdpt by simp
  then show "pde_at s' pd u = e" by simp
  have used: "used_page s' q \<longleftrightarrow> used_page s q \<or> q = pt" for q using Z(9) by (simp add: s'_def)
  have other: "pt_of (pde_at s pd v) \<noteq> pt" if "is_user_vaddr v" "pde_at s pd v \<noteq> 0" for v
    using table_facts(5) [OF inv that] Z(8) by auto
  show "pd_inv s' pd"
    unfolding pd_inv_def
  proof (intro conjI allI impI)
    show "palloc_inv (frames s')" "PHYS_BASE \<le> pool_base (kernel_frames s')" "cr3 s' < PHYS_BASE"
      using Z(1,4) D(6) inv by (simp_all add: s'_def pd_inv_def)
    show "used_page s' pd" using D(3) used by simp
    show "pde_ok s' pd (pde_at s' pd v)" if "is_user_vaddr v" for v
      using pd_invD(1) [OF inv that] pe pdpt used unfolding pde by (auto simp: pde_ok_def)
    show "pt_of (pde_at s' pd v) \<noteq> pt_of (pde_at s' pd w)"
      if "is_user_vaddr v" "is_user_vaddr w" "pd_no v \<noteq> pd_no w" "pde_at s' pd v \<noteq> 0" "pde_at s' pd w \<noteq> 0" for v w
      using that other [of v] other [of w] inv pe(1) unfolding pde by (auto simp: pd_inv_def split: if_splits)
  qed
  show "pd_mapping s' pd v = pd_mapping s pd v" if v: "is_user_vaddr v"
  proof (cases "pd_no v = pd_no u")
    case True
    have "pte_at s' pd v = 0"
      unfolding pte_at_def pde using True load [OF Z(7) pt_no_less] pe(1) pdpt by simp
    moreover have "pde_at s pd v = 0" using none True by (simp add: pde_at_def)
    ultimately show ?thesis by (simp add: pd_mapping_def pte_decode_def)
  next
    case False
    then show ?thesis
      using other [OF v] load [OF table_facts(4) [OF inv v] pt_no_less] table_facts(3) [OF inv v]
      by (auto simp: pd_mapping_def pde pte_at_def)
  qed
qed

lemma lookup_page_new:
  assumes inv: "pd_inv s pd" and u: "is_user_vaddr u" and none: "pde_at s pd u = 0"
  obtains "kernel_free s = 0" "lookup_page s pd u True = Some (0, s)"
  | pt fr e where "zero_page s pt fr" "pt_of e = pt" "e AND PTE_P \<noteq> 0" "e AND PTE_ADDR < PHYS_BASE" "e \<noteq> 0"
      "lookup_page s pd u True = Some (word_at pt (pt_no u), vm_store (s\<lparr>frames := fr\<rparr>) (word_at pd (pd_no u)) e)"
proof -
  note D = pd_invD [OF inv u]
  have z: "PAL_ZERO AND PAL_USER = 0" "PAL_ZERO AND PAL_ZERO \<noteq> 0" "PAL_ZERO AND PAL_ASSERT = 0"
    by (simp_all add: PAL_ZERO_def PAL_USER_def PAL_ASSERT_def)
  have pde0: "vm_load s (pd + 4 * pd_no u) = 0" using none by (simp add: pde_at_def word_at_def)
  show ?thesis
  proof (rule get_zero_page [OF D(2) z(1,2)])
    assume free: "kernel_free s = 0"
      and "palloc_get_page (frames s) PAL_ZERO = (if PAL_ZERO AND PAL_ASSERT = 0 then Some (0, frames s) else None)"
    then have "lookup_page s pd u True = Some (0, s)"
      using u D(5) pde0 z(3) by (simp add: lookup_page_def Let_def)
    with free show ?thesis by (rule that(1))
  next
    fix pt fr
    assume get: "palloc_get_page (frames s) PAL_ZERO = Some (pt, fr)" and zp: "zero_page s pt fr"
    note Z = zero_pageD [OF zp]
    have "PHYS_BASE \<le> pt" using used_page_facts(3) [of "s\<lparr>frames := fr\<rparr>" pt] Z(1,4,9) D(6) by simp
    then obtain e where pe: "pde_create pt = Some e" "pt_of e = pt" "e AND PTE_P \<noteq> 0" "e AND PTE_ADDR < PHYS_BASE" "e \<noteq> 0"
      using pde_create_ok [OF Z(7)] by blast
    let ?s' = "vm_store (s\<lparr>frames := fr\<rparr>) (word_at pd (pd_no u)) e"
    have "vm_load ?s' (pd + 4 * pd_no u) = e"
      using add_table(2) [OF inv u none zp pe(2-5)] by (simp add: pde_at_def word_at_def)
    moreover have "pde_get_pt e = Some pt" using pe(2-4) by (simp add: pde_get_pt_def ptov_def pt_of_def)
    ultimately have "lookup_page s pd u True = Some (word_at pt (pt_no u), ?s')"
      using get u D(5) pde0 Z(6) pe(1) by (simp add: lookup_page_def Let_def word_at_def)
    then show ?thesis by (rule that(2) [OF zp pe(2-5)])
  qed
qed

lemma lookup_page_create:
  assumes inv: "pd_inv s pd" and u: "is_user_vaddr u" and e: "pde_at s pd u = 0"
  obtains "kernel_free s = 0" "lookup_page s pd u True = Some (0, s)"
  | s' where "0 < kernel_free s" "lookup_page s pd u True = Some (word_at (pt_of (pde_at s' pd u)) (pt_no u), s')" "pd_inv s' pd"
      "pde_at s' pd u \<noteq> 0" "\<And>v. is_user_vaddr v \<Longrightarrow> pd_mapping s' pd v = pd_mapping s pd v"
      "init_page_dir s' = init_page_dir s" "init_ram_pages s' = init_ram_pages s"
proof (rule lookup_page_new [OF inv u e])
  fix pt fr e
  assume z: "zero_page s pt fr" and pe: "pt_of e = pt" "e AND PTE_P \<noteq> 0" "e AND PTE_ADDR < PHYS_BASE" "e \<noteq> 0"
    and look: "lookup_page s pd u True = Some (word_at pt (pt_no u), vm_store (s\<lparr>frames := fr\<rparr>) (word_at pd (pd_no u)) e)"
  note A = add_table [OF inv u \<open>pde_at s pd u = 0\<close> z pe]
  show thesis
    by (rule that(2) [of "vm_store (s\<lparr>frames := fr\<rparr>) (word_at pd (pd_no u)) e"])
      (use look A pe(1,4) zero_pageD(10) [OF z] in simp_all)
qed (rule that(1))

lemma get_page_mapping:
  assumes "pd_inv s pd" "is_user_vaddr v"
  shows "pagedir_get_page s pd v = (case pd_mapping s pd v of None \<Rightarrow> Some 0
    | Some (f, w) \<Rightarrow> map_option (\<lambda>p. p + pg_ofs v) (ptov f))"
proof (cases "pde_at s pd v = 0")
  case True
  then show ?thesis using lookup_page_missing [OF assms True] assms(2) by (simp add: pagedir_get_page_def pd_mapping_def)
next
  case False
  then show ?thesis
    using lookup_page_existing [OF assms False, of False] assms(2) pte_address_nonzero [OF assms False]
    by (simp add: pagedir_get_page_def pd_mapping_def pte_decode_def pte_at_def pte_get_page_def)
qed

lemma set_page_mapping:
  assumes inv: "pd_inv s pd" and u: "is_user_vaddr u" "pg_ofs u = 0" and k: "pg_ofs k = 0" "PHYS_BASE \<le> k"
      "drop_bit PTSHIFT (k - PHYS_BASE) < init_ram_pages s"
    and pd: "pd \<noteq> init_page_dir s" and free: "pd_mapping s pd u = None"
  shows "\<exists>ok s'. pagedir_set_page s pd u k w = Some (ok, s') \<and> (ok \<longleftrightarrow> pde_at s pd u \<noteq> 0 \<or> 0 < kernel_free s) \<and>
    pd_inv s' pd \<and> init_page_dir s' = init_page_dir s \<and> init_ram_pages s' = init_ram_pages s \<and>
    (\<forall>v. is_user_vaddr v \<longrightarrow>
      pd_mapping s' pd v = (if ok \<and> pg_no v = pg_no u then Some (k - PHYS_BASE, w) else pd_mapping s pd v))"
proof -
  obtain e where e: "pte_create_user k w = Some e" "pte_decode e = Some (k - PHYS_BASE, w)"
    using pte_create_user_ok [OF k(1,2)] .
  have store: ?thesis if s1: "lookup_page s pd u True = Some (word_at (pt_of (pde_at s1 pd u)) (pt_no u), s1)" "pd_inv s1 pd"
      "pde_at s1 pd u \<noteq> 0" "\<And>v. is_user_vaddr v \<Longrightarrow> pd_mapping s1 pd v = pd_mapping s pd v"
      "init_page_dir s1 = init_page_dir s" "init_ram_pages s1 = init_ram_pages s" "pde_at s pd u \<noteq> 0 \<or> 0 < kernel_free s" for s1
  proof -
    let ?p = "word_at (pt_of (pde_at s1 pd u)) (pt_no u)"
    have "vm_load s1 ?p AND PTE_P = 0"
      using free s1(3) s1(4) [OF u(1)] by (simp add: pd_mapping_def pte_decode_def pte_at_def split: if_splits)
    then have "pagedir_set_page s pd u k w = Some (True, vm_store s1 ?p e)"
      using u k pd e(1) s1(1) pte_address_nonzero [OF s1(2) u(1) s1(3)] vtop_page(1) [OF k(1,2)]
      by (simp add: pagedir_set_page_def)
    then show ?thesis using store_pte [OF s1(2) u(1) s1(3), where x = e] e(2) s1(4-7) by auto
  qed
  show ?thesis
  proof (cases "pde_at s pd u = 0")
    case False
    show ?thesis by (rule store [OF lookup_page_existing [OF inv u(1) False] inv False]) (simp_all add: False)
  next
    case True
    show ?thesis
      using inv u(1) True
    proof (cases rule: lookup_page_create)
      case 1
      then have "pagedir_set_page s pd u k w = Some (False, s)"
        using u k pd vtop_page(1) [OF k(1,2)] by (simp add: pagedir_set_page_def)
      then show ?thesis using inv True 1(1) by auto
    next
      case (2 s1)
      then show ?thesis using store by blast
    qed
  qed
qed

lemma clear_page_mapping:
  assumes inv: "pd_inv s pd" and u: "is_user_vaddr u" "pg_ofs u = 0"
  shows "\<exists>s'. pagedir_clear_page s pd u = Some s' \<and> pd_inv s' pd \<and>
    init_page_dir s' = init_page_dir s \<and> init_ram_pages s' = init_ram_pages s \<and> (\<forall>v. is_user_vaddr v \<longrightarrow>
    pd_mapping s' pd v = (if pg_no v = pg_no u then None else pd_mapping s pd v))"
proof (cases "pd_mapping s pd u = None")
  case True
  have same: "pd_mapping s pd v = None" if "pg_no v = pg_no u" for v
    using True that by (auto simp: pd_mapping_def pte_at_def pde_at_def same_page_iff)
  have "pagedir_clear_page s pd u = Some s"
  proof (cases "pde_at s pd u = 0")
    case True
    then show ?thesis using lookup_page_missing [OF inv u(1) True] u by (simp add: pagedir_clear_page_def)
  next
    case False
    then show ?thesis
      using lookup_page_existing [OF inv u(1) False, of False] u True
      by (simp add: pagedir_clear_page_def pd_mapping_def pte_decode_def pte_at_def split: if_splits)
  qed
  then show ?thesis using inv same by auto
next
  case False
  then have e: "pde_at s pd u \<noteq> 0" "pte_at s pd u AND PTE_P \<noteq> 0"
    by (auto simp: pd_mapping_def pte_decode_def split: if_splits)
  let ?p = "word_at (pt_of (pde_at s pd u)) (pt_no u)" and ?x = "pte_at s pd u AND NOT PTE_P"
  let ?s = "vm_store s ?p ?x"
  have x: "pte_decode ?x = None"
  proof -
    have "?x AND PTE_P = 0" by (rule bit_eqI) (auto simp: bit_simps)
    then show ?thesis by (simp add: pte_decode_def)
  qed
  have inv': "pd_inv ?s pd" by (rule store_pte(1) [OF inv u(1) e(1)])
  have step: "pagedir_clear_page s pd u = invalidate_pagedir ?s pd"
    using lookup_page_existing [OF inv u(1) e(1), of False] u e(2) pte_address_nonzero [OF inv u(1) e(1)]
    by (simp add: pagedir_clear_page_def pte_at_def)
  have pdk: "PHYS_BASE \<le> pd" "pg_ofs pd = 0"
    using used_page_facts [OF pd_invD(2,3) [OF inv u(1)]] pd_invD(6) [OF inv u(1)] by auto
  have "\<exists>c n. invalidate_pagedir ?s pd = Some (?s\<lparr>cr3 := c, tlb_flushes := n\<rparr>) \<and> c < PHYS_BASE"
  proof (cases "cr3 s + PHYS_BASE = pd")
    case True
    then show ?thesis
      using inv vtop_page [OF pdk(2,1)] pd_invD(5) [OF inv u(1)]
      by (auto simp: invalidate_pagedir_def active_pd_def ptov_def pd_inv_def pagedir_activate_def)
  next
    case False
    have "?s = ?s\<lparr>cr3 := cr3 ?s, tlb_flushes := tlb_flushes ?s\<rparr>" by simp
    then show ?thesis
      by (intro exI [of _ "cr3 s"] exI [of _ "tlb_flushes ?s"])
        (use False inv in \<open>simp add: invalidate_pagedir_def active_pd_def ptov_def pd_inv_def\<close>)
  qed
  then obtain c n where c: "invalidate_pagedir ?s pd = Some (?s\<lparr>cr3 := c, tlb_flushes := n\<rparr>)" "c < PHYS_BASE" by blast
  let ?t = "?s\<lparr>cr3 := c, tlb_flushes := n\<rparr>"
  have same: "pde_at ?t pd v = pde_at ?s pd v" "pd_mapping ?t pd v = pd_mapping ?s pd v" for v
    by (simp_all add: pde_at_def vm_load_def pd_mapping_def pte_at_def)
  have "pd_inv ?t pd"
    using inv' c(2) unfolding pd_inv_def same by (simp add: pde_ok_def used_page_def)
  then show ?thesis
    using step c(1) store_pte(2) [OF inv u(1) e(1), where x = ?x] x by (simp add: same)
qed

lemma pd_mapping_page: "pg_no v = pg_no u \<Longrightarrow> pd_mapping s pd v = pd_mapping s pd u"
  by (simp add: pd_mapping_def pte_at_def pde_at_def same_page_iff)

lemma get_page_cong:
  assumes "pd_inv s pd" "pd_inv s' pd" "is_user_vaddr v" "pd_mapping s' pd v = pd_mapping s pd v"
  shows "pagedir_get_page s' pd v = pagedir_get_page s pd v"
  using assms by (simp add: get_page_mapping)

section \<open>The contract of a page directory\<close>

text \<open>The pages a user program can have, and the kernel pages a directory maps them to.\<close>

definition page_start :: "u32 \<Rightarrow> bool" where
  "page_start u \<longleftrightarrow> is_user_vaddr u \<and> pg_ofs u = 0"

definition mapped_pages :: "u32 \<Rightarrow> vm \<Rightarrow> u32 \<Rightarrow> u32 option" where
  "mapped_pages pd s u = (if page_start u then map_option (\<lambda>(f, w). f + PHYS_BASE) (pd_mapping s pd u) else None)"

definition page_fits :: "vm \<Rightarrow> u32 \<Rightarrow> u32 \<Rightarrow> bool" where
  "page_fits s u k \<longleftrightarrow> page_start u \<and> pg_ofs k = 0 \<and> PHYS_BASE \<le> k \<and> drop_bit PTSHIFT (k - PHYS_BASE) < init_ram_pages s"

definition pages_inv :: "u32 \<Rightarrow> vm \<Rightarrow> bool" where
  "pages_inv pd s \<longleftrightarrow> pd_inv s pd \<and> pd \<noteq> init_page_dir s \<and>
     (\<forall>v f w. is_user_vaddr v \<longrightarrow> pd_mapping s pd v = Some (f, w) \<longrightarrow> f < 0x40000000)"

definition find_page :: "u32 \<Rightarrow> vm \<Rightarrow> u32 \<Rightarrow> (u32 option \<times> vm) option" where
  "find_page pd s u = do { p \<leftarrow> pagedir_get_page s pd u; Some (if p = 0 then None else Some p, s) }"

lemma pg_no_page_start:
  assumes "page_start u" "page_start v"
  shows "pg_no u = pg_no v \<longleftrightarrow> u = v"
proof -
  have "PGSIZE dvd unat u" "PGSIZE dvd unat v" using assms by (simp_all add: page_start_def pg_aligned_iff)
  then have "unat u div PGSIZE = unat v div PGSIZE \<longleftrightarrow> unat u = unat v" by (metis dvd_div_mult_self)
  then show ?thesis by (simp only: word_unat_eq_iff unat_pg_no)
qed

lemma kernel_frame:
  assumes "f < 0x40000000"
  shows "ptov f = Some (f + PHYS_BASE)" "f + PHYS_BASE \<noteq> 0"
proof -
  have f: "unat f < 0x40000000" using assms by (simp add: word_less_nat_alt)
  then have "unat (f + PHYS_BASE) = unat f + 0xc0000000"
    using unat_add_small [of f PHYS_BASE] by (simp add: PHYS_BASE_def)
  then show "f + PHYS_BASE \<noteq> 0" by (metis add_is_0 unat_0 zero_neq_numeral)
  show "ptov f = Some (f + PHYS_BASE)" using f by (simp add: ptov_def word_less_nat_alt PHYS_BASE_def)
qed

lemma find_page_ok:
  assumes "pages_inv pd s" "page_start u"
  shows "find_page pd s u = Some (mapped_pages pd s u, s)"
proof -
  have u: "is_user_vaddr u" "pg_ofs u = 0" using assms(2) by (simp_all add: page_start_def)
  have "f < 0x40000000" if "pd_mapping s pd u = Some (f, w)" for f w
    using assms(1) u(1) that unfolding pages_inv_def by blast
  then show ?thesis
    using assms get_page_mapping [of s pd u] u kernel_frame
    by (cases "pd_mapping s pd u") (auto simp: find_page_def mapped_pages_def pages_inv_def)
qed

lemma put_page_ok:
  assumes inv: "pages_inv pd s" and fits: "page_fits s u k" and free: "mapped_pages pd s u = None"
  shows "\<exists>ok s'. pagedir_set_page s pd u k w = Some (ok, s') \<and> pages_inv pd s' \<and> page_fits s' = page_fits s \<and>
    mapped_pages pd s' = (if ok then (mapped_pages pd s)(u \<mapsto> k) else mapped_pages pd s)"
proof -
  have k: "page_start u" "is_user_vaddr u" "pg_ofs u = 0" "pg_ofs k = 0" "PHYS_BASE \<le> k"
    "drop_bit PTSHIFT (k - PHYS_BASE) < init_ram_pages s"
    using fits by (simp_all add: page_fits_def page_start_def)
  have none: "pd_mapping s pd u = None" using free k(1) by (simp add: mapped_pages_def)
  have d: "pd_inv s pd" "pd \<noteq> init_page_dir s" using inv by (simp_all add: pages_inv_def)
  obtain ok s' where s': "pagedir_set_page s pd u k w = Some (ok, s')" "pd_inv s' pd"
      "init_page_dir s' = init_page_dir s" "init_ram_pages s' = init_ram_pages s"
    and m: "\<And>v. is_user_vaddr v \<Longrightarrow>
      pd_mapping s' pd v = (if ok \<and> pg_no v = pg_no u then Some (k - PHYS_BASE, w) else pd_mapping s pd v)"
    using set_page_mapping [OF d(1) k(2-6) d(2) none, of w] by blast
  have "unat (k - PHYS_BASE) = unat k - 0xc0000000" using k(5) by (simp add: unat_sub PHYS_BASE_def)
  then have "unat (k - PHYS_BASE) < 0x40000000" using unat_u32_lt [of k] by linarith
  then have "pages_inv pd s'"
    using inv s'(2,3) m by (auto simp: pages_inv_def word_less_nat_alt split: if_splits)
  moreover have "page_fits s' = page_fits s" using s'(4) by (simp add: fun_eq_iff page_fits_def)
  moreover have "mapped_pages pd s' v = (if ok then (mapped_pages pd s)(u \<mapsto> k) else mapped_pages pd s) v" for v
    using m [of v] pg_no_page_start [of v u] k(1) by (auto simp: mapped_pages_def page_start_def)
  ultimately show ?thesis using s'(1) by blast
qed

lemma clear_page_ok:
  assumes inv: "pages_inv pd s" and u: "page_start u"
  shows "\<exists>s'. pagedir_clear_page s pd u = Some s' \<and> pages_inv pd s' \<and> page_fits s' = page_fits s \<and>
    mapped_pages pd s' = (mapped_pages pd s)(u := None)"
proof -
  have d: "pd_inv s pd" "is_user_vaddr u" "pg_ofs u = 0" using inv u by (simp_all add: pages_inv_def page_start_def)
  obtain s' where s': "pagedir_clear_page s pd u = Some s'" "pd_inv s' pd"
      "init_page_dir s' = init_page_dir s" "init_ram_pages s' = init_ram_pages s"
    and m: "\<And>v. is_user_vaddr v \<Longrightarrow> pd_mapping s' pd v = (if pg_no v = pg_no u then None else pd_mapping s pd v)"
    using clear_page_mapping [OF d] by blast
  have "pages_inv pd s'" using inv s'(2,3) m by (auto simp: pages_inv_def split: if_splits)
  moreover have "page_fits s' = page_fits s" using s'(4) by (simp add: fun_eq_iff page_fits_def)
  moreover have "mapped_pages pd s' v = ((mapped_pages pd s)(u := None)) v" for v
    using m [of v] pg_no_page_start [of v u] u by (auto simp: mapped_pages_def page_start_def)
  ultimately show ?thesis using s'(1) by blast
qed

interpretation pages: removable_store "pages_inv pd" "mapped_pages pd" page_start page_fits "find_page pd"
    "\<lambda>s u k. pagedir_set_page s pd u k w" "\<lambda>s u. pagedir_clear_page s pd u"
  for pd :: u32 and w :: bool
proof
  show "\<exists>s'. find_page pd s u = Some (mapped_pages pd s u, s') \<and> pages_inv pd s' \<and>
      mapped_pages pd s' = mapped_pages pd s \<and> page_fits s' = page_fits s"
    if "pages_inv pd s" "page_start u" for s u
    using find_page_ok [OF that] that(1) by blast
qed (use put_page_ok clear_page_ok in blast)+

text \<open>Every history of insertions and lookups in a page directory is one of a finite map.\<close>

lemma page_history:
  assumes "pages_inv pd s" "distinct (put_keys ops)" "\<forall>u \<in> set (put_keys ops). mapped_pages pd s u = None"
    "\<forall>u k. Put u k \<in> set ops \<longrightarrow> page_fits s u k" "\<forall>u. Find u \<in> set ops \<longrightarrow> page_start u"
  shows "\<exists>as s'. run_store (find_page pd) (\<lambda>s u k. pagedir_set_page s pd u k w) s ops = Some (as, s') \<and>
    pages_inv pd s' \<and> explains (mapped_pages pd s) ops as (mapped_pages pd s')"
  using assms by (rule pages.run_explained)

text \<open>C8:
  A page directory other than the base one behaves as a map from user pages to frames. For page-aligned
  arguments, a user page and a kernel page within the memory, as the code asserts,
  \<open>pagedir_set_page\<close> of an unmapped page returns; it fails exactly when the page has no page table yet and no page of the kernel pool is free for one;
  then it changes no translation. Otherwise it adds exactly that one: \<open>pagedir_get_page\<close> translates
  every address of the page and all others as before. After either, \<open>pagedir_clear_page\<close> gives back the
  translations of before. The invariant that the directory and its tables are pages of their own is
  kept throughout.
\<close>

theorem pagedir_refines_map:
  assumes inv: "pd_inv s pd" and u: "is_user_vaddr u" "pg_ofs u = 0" and k: "pg_ofs k = 0" "PHYS_BASE \<le> k"
      "drop_bit PTSHIFT (k - PHYS_BASE) < init_ram_pages s"
    and pd: "pd \<noteq> init_page_dir s" and free: "pd_mapping s pd u = None"
  shows "\<exists>ok s'. pagedir_set_page s pd u k w = Some (ok, s') \<and> pd_inv s' pd \<and>
    (ok \<longleftrightarrow> pde_at s pd u \<noteq> 0 \<or> 0 < kernel_free s) \<and>
    (\<forall>v. is_user_vaddr v \<longrightarrow> pagedir_get_page s' pd v =
       (if ok \<and> pg_no v = pg_no u then Some (k + pg_ofs v) else pagedir_get_page s pd v)) \<and>
    (\<exists>s''. pagedir_clear_page s' pd u = Some s'' \<and> pd_inv s'' pd \<and>
       (\<forall>v. is_user_vaddr v \<longrightarrow> pagedir_get_page s'' pd v = pagedir_get_page s pd v))"
proof -
  obtain ok s' where s': "pagedir_set_page s pd u k w = Some (ok, s')" "pd_inv s' pd"
      "ok \<longleftrightarrow> pde_at s pd u \<noteq> 0 \<or> 0 < kernel_free s"
    and m': "\<And>v. is_user_vaddr v \<Longrightarrow>
      pd_mapping s' pd v = (if ok \<and> pg_no v = pg_no u then Some (k - PHYS_BASE, w) else pd_mapping s pd v)"
    using set_page_mapping [OF inv u k pd free, of w] by blast
  obtain s'' where s'': "pagedir_clear_page s' pd u = Some s''" "pd_inv s'' pd"
    and m'': "\<And>v. is_user_vaddr v \<Longrightarrow> pd_mapping s'' pd v = (if pg_no v = pg_no u then None else pd_mapping s' pd v)"
    using clear_page_mapping [OF s'(2) u] by blast
  have "pagedir_get_page s' pd v = (if ok \<and> pg_no v = pg_no u then Some (k + pg_ofs v) else pagedir_get_page s pd v)"
    if v: "is_user_vaddr v" for v
    using m' [OF v] get_page_mapping [OF s'(2) v] get_page_cong [OF inv s'(2) v] vtop_page(3) [OF k(1,2)]
    by (auto simp: ptov_def)
  moreover have "pagedir_get_page s'' pd v = pagedir_get_page s pd v" if v: "is_user_vaddr v" for v
    using m' [OF v] m'' [OF v] free pd_mapping_page [of v u] by (intro get_page_cong [OF inv s''(2) v]) auto
  ultimately show ?thesis using s' s'' by blast
qed

text \<open>An empty page directory in the first of two kernel pages.\<close>

definition demo_vm :: vm where
  "demo_vm = \<lparr>frames = \<lparr>kernel_pool = \<lparr>used_map = \<lparr>bit_cnt = 2, bits = [1]\<rparr>, pool_base = 0xc0101000\<rparr>,
       user_pool = demo_pool 0xc0104000, mem = (\<lambda>_. 0)\<rparr>,
     init_page_dir = 0xc0100000, init_ram_pages = 0x400, cr3 = 0x100000, tlb_flushes = 0\<rparr>"

lemma demo_vm_inv: "pd_inv demo_vm 0xc0101000" "pd_mapping demo_vm 0xc0101000 u = None"
proof -
  have "vm_load demo_vm p = 0" for p by (simp add: vm_load_def demo_vm_def load32_def le_word_def)
  then have "pde_at demo_vm 0xc0101000 v = 0" for v by (simp add: pde_at_def)
  moreover have "palloc_inv (frames demo_vm)"
    by (simp add: palloc_inv_def pool_inv_def demo_vm_def demo_pool_def bm_inv_def BITMAP_ERROR_def pg_aligned_iff PGSIZE_def)
  moreover have "used_page demo_vm 0xc0101000"
    unfolding used_page_def
    by (rule exI [of _ 0]) (simp add: demo_vm_def pool_page_def bm_abs_def bm_bit_def elem_idx_def ELEM_BITS_def)
  ultimately show "pd_inv demo_vm 0xc0101000" "pd_mapping demo_vm 0xc0101000 u = None"
    by (simp_all add: pd_inv_def pde_ok_def pd_mapping_def) (simp_all add: demo_vm_def PHYS_BASE_def)
qed

lemma pagedir_refines_map_witness:
  "\<exists>s'. pagedir_set_page demo_vm 0xc0101000 0x8048000 0xc0104000 True = Some (True, s') \<and>
     pagedir_get_page s' 0xc0101000 0x8048123 = Some 0xc0104123 \<and>
     (\<exists>s''. pagedir_clear_page s' 0xc0101000 0x8048000 = Some s'')"
proof -
  have k: "is_user_vaddr 0x8048000" "pg_ofs 0x8048000 = 0" "pg_ofs 0xc0104000 = 0" "PHYS_BASE \<le> 0xc0104000"
    "drop_bit PTSHIFT (0xc0104000 - PHYS_BASE) < init_ram_pages demo_vm" "0xc0101000 \<noteq> init_page_dir demo_vm"
    by (simp_all add: is_user_vaddr_def pg_aligned_iff PGSIZE_def PHYS_BASE_def PTSHIFT_def PGBITS_def demo_vm_def)
  have v: "is_user_vaddr 0x8048123" "pg_no 0x8048123 = pg_no 0x8048000" "pg_ofs 0x8048123 = 0x123"
    by (simp_all add: is_user_vaddr_def PHYS_BASE_def pg_no_def pg_ofs_def PGMASK_def BITMASK_def PGBITS_def)
  have free: "0 < kernel_free demo_vm" by code_simp
  obtain s' s'' where s: "pagedir_set_page demo_vm 0xc0101000 0x8048000 0xc0104000 True = Some (True, s')"
    "pagedir_get_page s' 0xc0101000 0x8048123 = Some (0xc0104000 + pg_ofs 0x8048123)"
    "pagedir_clear_page s' 0xc0101000 0x8048000 = Some s''"
    using pagedir_refines_map [OF demo_vm_inv(1) k(1-6) demo_vm_inv(2), of True] free v(1,2) by fastforce
  then show ?thesis by (auto simp: v(3))
qed

end
