(* ===== verification/Kernel_Block.thy ===== *)
theory Kernel_Block
  imports Kernel_Printf Kernel_Memory
begin

text \<open>
  Block devices and their partitions: \<open>devices/block.c\<close> and \<open>devices/partition.c\<close>.

  A \<open>struct block *\<close> is the position of the device in \<open>all_blocks\<close>, to which registration only
  appends. A driver is either a disk, whose sectors are the field \<open>media\<close> (the driver itself,
  \<open>devices/ide.c\<close>, is below this interface), or \<open>partition_operations\<close> with the
  \<open>struct partition\<close> it passes on. A sector number is a natural number below \<open>2 ^ 32\<close>; sums of
  sector numbers are \<open>add32\<close>. What the kernel prints is appended to \<open>console\<close>. The answers of
  the allocator to come are \<open>mallocs\<close>; when they are used up every allocation succeeds.
\<close>

section \<open>Devices\<close>

datatype block_type =
    BLOCK_KERNEL
  | BLOCK_FILESYS
  | BLOCK_SCRATCH
  | BLOCK_SWAP
  | BLOCK_RAW
  | BLOCK_FOREIGN

definition is_role :: "block_type \<Rightarrow> bool" where
  "is_role t \<longleftrightarrow> t \<noteq> BLOCK_RAW \<and> t \<noteq> BLOCK_FOREIGN"

definition BLOCK_SECTOR_SIZE :: nat where "BLOCK_SECTOR_SIZE = 512"

record partition =
  part_block :: nat
  part_start :: nat

datatype block_operations = Disk nat | partition_operations partition

record block =
  blk_name :: string
  blk_type :: block_type
  blk_size :: nat
  blk_ops :: block_operations
  read_cnt :: u64
  write_cnt :: u64

record block_state =
  all_blocks :: "block list"
  block_by_role :: "block_type \<Rightarrow> nat option"
  media :: "nat \<Rightarrow> nat \<Rightarrow> u8 list"
  console :: string
  mallocs :: "bool list"

fun block_type_name :: "block_type \<Rightarrow> string" where
  "block_type_name BLOCK_KERNEL = ''kernel''"
| "block_type_name BLOCK_FILESYS = ''filesys''"
| "block_type_name BLOCK_SCRATCH = ''scratch''"
| "block_type_name BLOCK_SWAP = ''swap''"
| "block_type_name BLOCK_RAW = ''raw''"
| "block_type_name BLOCK_FOREIGN = ''foreign''"

definition newline :: string where "newline = [CHR 0x0a]"

definition kprintf :: "string \<Rightarrow> arg list \<Rightarrow> ('a block_state_scheme) \<Rightarrow> ('a block_state_scheme) option" where
  "kprintf format args s = do {
     out \<leftarrow> vprintf_helper format args;
     Some (s\<lparr>console := console s @ out\<rparr>) }"

text \<open>\<open>snprintf\<close> into a buffer of \<open>n\<close> bytes that is used as a string.\<close>

definition string_printf :: "nat \<Rightarrow> string \<Rightarrow> arg list \<Rightarrow> string option" where
  "string_printf n format args = map_option (take (n - 1)) (vprintf_helper format args)"

definition ask_malloc :: "'a block_state_scheme \<Rightarrow> bool \<times> 'a block_state_scheme" where
  "ask_malloc s = (case mallocs s of [] \<Rightarrow> (True, s) | a # rest \<Rightarrow> (a, s\<lparr>mallocs := rest\<rparr>))"

definition block_at :: "'a block_state_scheme \<Rightarrow> nat \<Rightarrow> block option" where
  "block_at s blk = (if blk < length (all_blocks s) then Some (all_blocks s ! blk) else None)"

definition block_get_role :: "block_type \<Rightarrow> 'a block_state_scheme \<Rightarrow> nat option option" where
  "block_get_role role s = do { ASSERT (is_role role); Some (block_by_role s role) }"

definition block_set_role :: "block_type \<Rightarrow> nat option \<Rightarrow> 'a block_state_scheme \<Rightarrow> 'a block_state_scheme option" where
  "block_set_role role blk s = do {
     ASSERT (is_role role);
     Some (s\<lparr>block_by_role := (block_by_role s)(role := blk)\<rparr>) }"

definition list_elem_to_block :: "'a block_state_scheme \<Rightarrow> nat \<Rightarrow> nat option" where
  "list_elem_to_block s e = (if e \<noteq> length (all_blocks s) then Some e else None)"

definition block_first :: "'a block_state_scheme \<Rightarrow> nat option" where
  "block_first s = list_elem_to_block s 0"

definition block_next :: "nat \<Rightarrow> 'a block_state_scheme \<Rightarrow> nat option option" where
  "block_next blk s = do { _ \<leftarrow> block_at s blk; Some (list_elem_to_block s (blk + 1)) }"

fun by_name_loop :: "string \<Rightarrow> block list \<Rightarrow> nat \<Rightarrow> nat option" where
  "by_name_loop nm [] i = None"
| "by_name_loop nm (b # bs) i = (if nm = blk_name b then Some i else by_name_loop nm bs (i + 1))"

definition block_get_by_name :: "string \<Rightarrow> 'a block_state_scheme \<Rightarrow> nat option" where
  "block_get_by_name nm s = by_name_loop nm (all_blocks s) 0"

definition get_block_size :: "nat \<Rightarrow> 'a block_state_scheme \<Rightarrow> nat option" where
  "get_block_size blk s = map_option blk_size (block_at s blk)"

definition block_name :: "nat \<Rightarrow> 'a block_state_scheme \<Rightarrow> string option" where
  "block_name blk s = map_option blk_name (block_at s blk)"

definition get_block_type :: "nat \<Rightarrow> 'a block_state_scheme \<Rightarrow> block_type option" where
  "get_block_type blk s = map_option blk_type (block_at s blk)"

section \<open>Transfers\<close>

text \<open>The panic of \<open>check_sector\<close> is \<^const>\<open>None\<close>.\<close>

definition check_sector :: "'a block_state_scheme \<Rightarrow> nat \<Rightarrow> nat \<Rightarrow> unit option" where
  "check_sector s blk sector = do {
     sz \<leftarrow> get_block_size blk s;
     if sector \<ge> sz then None else Some () }"

definition count_read :: "nat \<Rightarrow> 'a block_state_scheme \<Rightarrow> 'a block_state_scheme" where
  "count_read blk s = s\<lparr>all_blocks := (all_blocks s)[blk := (all_blocks s ! blk)
     \<lparr>read_cnt := read_cnt (all_blocks s ! blk) + 1\<rparr>]\<rparr>"

definition count_write :: "nat \<Rightarrow> 'a block_state_scheme \<Rightarrow> 'a block_state_scheme" where
  "count_write blk s = s\<lparr>all_blocks := (all_blocks s)[blk := (all_blocks s ! blk)
     \<lparr>write_cnt := write_cnt (all_blocks s ! blk) + 1\<rparr>]\<rparr>"

partial_function (option) block_read ::
    "nat \<Rightarrow> nat \<Rightarrow> 'a block_state_scheme \<Rightarrow> (u8 list \<times> 'a block_state_scheme) option" where
  "block_read blk sector s = do {
     check_sector s blk sector;
     (buffer, s) \<leftarrow> (case blk_ops (all_blocks s ! blk) of
        Disk d \<Rightarrow> Some (media s d sector, s)
      | partition_operations p \<Rightarrow> block_read (part_block p) (add32 (part_start p) sector) s);
     Some (buffer, count_read blk s) }"

partial_function (option) block_write ::
    "nat \<Rightarrow> nat \<Rightarrow> u8 list \<Rightarrow> 'a block_state_scheme \<Rightarrow> 'a block_state_scheme option" where
  "block_write blk sector buffer s = do {
     check_sector s blk sector;
     ASSERT (blk_type (all_blocks s ! blk) \<noteq> BLOCK_FOREIGN);
     s \<leftarrow> (case blk_ops (all_blocks s ! blk) of
        Disk d \<Rightarrow> Some (s\<lparr>media := (media s)(d := (media s d)(sector := buffer))\<rparr>)
      | partition_operations p \<Rightarrow> block_write (part_block p) (add32 (part_start p) sector) buffer s);
     Some (count_write blk s) }"

definition partition_read :: "partition \<Rightarrow> nat \<Rightarrow> 'a block_state_scheme \<Rightarrow> (u8 list \<times> 'a block_state_scheme) option" where
  "partition_read p sector s = block_read (part_block p) (add32 (part_start p) sector) s"

definition partition_write :: "partition \<Rightarrow> nat \<Rightarrow> u8 list \<Rightarrow> 'a block_state_scheme \<Rightarrow> 'a block_state_scheme option" where
  "partition_write p sector buffer s = block_write (part_block p) (add32 (part_start p) sector) buffer s"

lemma block_read_partition:
  "blk_ops (all_blocks s ! blk) = partition_operations p \<Longrightarrow>
   block_read blk sector s = do {
     check_sector s blk sector;
     (buffer, s) \<leftarrow> partition_read p sector s;
     Some (buffer, count_read blk s) }"
  by (subst block_read.simps) (simp add: partition_read_def)

lemma block_write_partition:
  "blk_ops (all_blocks s ! blk) = partition_operations p \<Longrightarrow>
   block_write blk sector buffer s = do {
     check_sector s blk sector;
     ASSERT (blk_type (all_blocks s ! blk) \<noteq> BLOCK_FOREIGN);
     s \<leftarrow> partition_write p sector buffer s;
     Some (count_write blk s) }"
  by (subst block_write.simps) (simp add: partition_write_def)

section \<open>Statistics and registration\<close>

fun print_stats_loop :: "block_type list \<Rightarrow> 'a block_state_scheme \<Rightarrow> 'a block_state_scheme option" where
  "print_stats_loop [] s = Some s"
| "print_stats_loop (role # roles) s = do {
     s \<leftarrow> (case block_by_role s role of
        None \<Rightarrow> Some s
      | Some blk \<Rightarrow> do {
          b \<leftarrow> block_at s blk;
          kprintf (''%s (%s): %llu reads, %llu writes'' @ newline)
            [ArgString (Some (blk_name b)), ArgString (Some (block_type_name (blk_type b))),
             Arg64 (read_cnt b), Arg64 (write_cnt b)] s });
     print_stats_loop roles s }"

definition block_print_stats :: "'a block_state_scheme \<Rightarrow> 'a block_state_scheme option" where
  "block_print_stats s = print_stats_loop [BLOCK_KERNEL, BLOCK_FILESYS, BLOCK_SCRATCH, BLOCK_SWAP] s"

definition block_register ::
    "string \<Rightarrow> block_type \<Rightarrow> string option \<Rightarrow> nat \<Rightarrow> block_operations \<Rightarrow> 'a block_state_scheme
     \<Rightarrow> (nat \<times> 'a block_state_scheme) option" where
  "block_register nm type extra_info sz ops s =
     (let (ok, s) = ask_malloc s in
      if \<not> ok then None
      else let blk = length (all_blocks s);
               s = s\<lparr>all_blocks := all_blocks s @ [\<lparr>blk_name = take 15 nm, blk_type = type, blk_size = sz,
                    blk_ops = ops, read_cnt = 0, write_cnt = 0\<rparr>]\<rparr>
           in do {
             s \<leftarrow> kprintf (''%s: %'' @ [CHR 0x27] @ ''u sectors ('')
                   [ArgString (Some (take 15 nm)), Arg32 (of_nat sz)] s;
             out \<leftarrow> print_human_readable_size (of_nat sz * of_nat BLOCK_SECTOR_SIZE);
             s \<leftarrow> kprintf '')'' [] (s\<lparr>console := console s @ out\<rparr>);
             s \<leftarrow> (case extra_info of
                None \<Rightarrow> Some s
              | Some info \<Rightarrow> kprintf '', %s'' [ArgString (Some info)] s);
             s \<leftarrow> kprintf newline [] s;
             Some (blk, s) })"

section \<open>Partitions stay inside their devices\<close>

text \<open>
  The invariant of \<open>all_blocks\<close>: the device below a partition was registered before it, is not of
  type foreign, and the partition lies inside it.
\<close>

definition block_ok :: "block list \<Rightarrow> nat \<Rightarrow> bool" where
  "block_ok bs i \<longleftrightarrow> blk_size (bs ! i) < 2 ^ 32 \<and>
     (case blk_ops (bs ! i) of
        Disk d \<Rightarrow> True
      | partition_operations p \<Rightarrow> part_block p < i \<and>
          part_start p + blk_size (bs ! i) \<le> blk_size (bs ! part_block p) \<and>
          blk_type (bs ! part_block p) \<noteq> BLOCK_FOREIGN)"

definition blocks_ok :: "block list \<Rightarrow> bool" where
  "blocks_ok bs \<longleftrightarrow> (\<forall>i < length bs. block_ok bs i)"

text \<open>The disk and the sector on it where a sector of a device is kept.\<close>

function locate :: "block list \<Rightarrow> nat \<Rightarrow> nat \<Rightarrow> nat \<times> nat" where
  "locate bs i sector = (case blk_ops (bs ! i) of
     Disk d \<Rightarrow> (d, sector)
   | partition_operations p \<Rightarrow>
       if part_block p < i then locate bs (part_block p) (part_start p + sector) else (0, sector))"
  by pat_completeness auto
termination
  by (relation "measure (fst \<circ> snd)") auto

declare locate.simps [simp del]

text \<open>The device without its counters.\<close>

definition uncount :: "block list \<Rightarrow> block list" where
  "uncount bs = map (\<lambda>b. b\<lparr>read_cnt := 0, write_cnt := 0\<rparr>) bs"

lemma uncount_length: "uncount bs = uncount bs' \<Longrightarrow> length bs = length bs'"
  unfolding uncount_def by (metis length_map)

lemma uncount_nth:
  assumes "uncount bs = uncount bs'" "i < length bs"
  shows "blk_name (bs ! i) = blk_name (bs' ! i)" "blk_type (bs ! i) = blk_type (bs' ! i)"
    "blk_size (bs ! i) = blk_size (bs' ! i)" "blk_ops (bs ! i) = blk_ops (bs' ! i)"
proof -
  have "uncount bs ! i = uncount bs' ! i" using assms(1) by simp
  then have "(bs ! i)\<lparr>read_cnt := 0, write_cnt := 0\<rparr> = (bs' ! i)\<lparr>read_cnt := 0, write_cnt := 0\<rparr>"
    using assms(2) uncount_length [OF assms(1)] by (simp add: uncount_def)
  then show "blk_name (bs ! i) = blk_name (bs' ! i)" "blk_type (bs ! i) = blk_type (bs' ! i)"
    "blk_size (bs ! i) = blk_size (bs' ! i)" "blk_ops (bs ! i) = blk_ops (bs' ! i)"
    by (cases "bs ! i"; cases "bs' ! i"; simp)+
qed

lemma blocks_ok_uncount:
  assumes "uncount bs = uncount bs'" "blocks_ok bs"
  shows "blocks_ok bs'"
  unfolding blocks_ok_def
proof (intro allI impI)
  fix i assume "i < length bs'"
  then have i: "i < length bs" using uncount_length [OF assms(1)] by simp
  have ok: "block_ok bs i" using assms(2) i by (simp add: blocks_ok_def)
  show "block_ok bs' i"
  proof (cases "blk_ops (bs ! i)")
    case (partition_operations p)
    then have "part_block p < length bs" using ok i by (auto simp: block_ok_def)
    then show ?thesis
      using ok uncount_nth [OF assms(1)] i partition_operations by (auto simp: block_ok_def)
  qed (use ok uncount_nth [OF assms(1) i] in \<open>auto simp: block_ok_def\<close>)
qed

lemma locate_uncount:
  assumes "uncount bs = uncount bs'" "i < length bs"
  shows "locate bs i sector = locate bs' i sector"
  using assms(2)
proof (induction i arbitrary: sector rule: less_induct)
  case (less i)
  then show ?case
    using uncount_nth(4) [OF assms(1) less.prems]
    by (subst (1 2) locate.simps) (auto split: block_operations.splits)
qed

lemma uncount_count_read [simp]: "uncount (all_blocks (count_read blk s)) = uncount (all_blocks s)"
  unfolding uncount_def count_read_def
  by (rule nth_equalityI; cases "blk < length (all_blocks s)") (auto simp: nth_list_update)

lemma uncount_count_write [simp]: "uncount (all_blocks (count_write blk s)) = uncount (all_blocks s)"
  unfolding uncount_def count_write_def
  by (rule nth_equalityI; cases "blk < length (all_blocks s)") (auto simp: nth_list_update)

lemma count_fields [simp]:
  "media (count_read blk s) = media s" "media (count_write blk s) = media s"
  "block_by_role (count_read blk s) = block_by_role s" "block_by_role (count_write blk s) = block_by_role s"
  "console (count_read blk s) = console s" "console (count_write blk s) = console s"
  "mallocs (count_read blk s) = mallocs s" "mallocs (count_write blk s) = mallocs s"
  by (simp_all add: count_read_def count_write_def)

text \<open>Two states that differ in the counters of devices only.\<close>

definition same_but_counts :: "'a block_state_scheme \<Rightarrow> 'a block_state_scheme \<Rightarrow> bool" where
  "same_but_counts s s' \<longleftrightarrow> uncount (all_blocks s') = uncount (all_blocks s) \<and>
     s' = s\<lparr>all_blocks := all_blocks s'\<rparr>"

lemma same_but_countsD:
  assumes "same_but_counts s s'"
  shows "uncount (all_blocks s') = uncount (all_blocks s)" "media s' = media s"
    "block_by_role s' = block_by_role s" "console s' = console s" "mallocs s' = mallocs s"
    "block_state.more s' = block_state.more s"
proof -
  have e: "s' = s\<lparr>all_blocks := all_blocks s'\<rparr>" and u: "uncount (all_blocks s') = uncount (all_blocks s)"
    using assms unfolding same_but_counts_def by blast+
  show "uncount (all_blocks s') = uncount (all_blocks s)" by (rule u)
  show "media s' = media s" using arg_cong [OF e, of media] by simp
  show "block_by_role s' = block_by_role s" using arg_cong [OF e, of block_by_role] by simp
  show "console s' = console s" using arg_cong [OF e, of console] by simp
  show "mallocs s' = mallocs s" using arg_cong [OF e, of mallocs] by simp
  show "block_state.more s' = block_state.more s" using arg_cong [OF e, of block_state.more] by simp
qed

lemma same_but_counts_refl [simp]: "same_but_counts s s"
  by (simp add: same_but_counts_def)

lemma same_but_counts_trans:
  "same_but_counts s s' \<Longrightarrow> same_but_counts s' s'' \<Longrightarrow> same_but_counts s s''"
  unfolding same_but_counts_def by (metis block_state.surjective block_state.update_convs(1))

lemma same_but_counts_count_read: "same_but_counts s s' \<Longrightarrow> same_but_counts s (count_read blk s')"
  by (rule same_but_counts_trans) (auto simp: same_but_counts_def, simp add: count_read_def)

lemma same_but_counts_count_write: "same_but_counts s s' \<Longrightarrow> same_but_counts s (count_write blk s')"
  by (rule same_but_counts_trans) (auto simp: same_but_counts_def, simp add: count_write_def)

lemma check_sector_ok: "i < length (all_blocks s) \<Longrightarrow> sector < blk_size (all_blocks s ! i) \<Longrightarrow> check_sector s i sector = Some ()"
  by (simp add: check_sector_def get_block_size_def block_at_def)

lemma partition_sector:
  assumes "blocks_ok bs" "i < length bs" "blk_ops (bs ! i) = partition_operations p" "sector < blk_size (bs ! i)"
  shows "part_block p < i" "part_block p < length bs" "add32 (part_start p) sector = part_start p + sector"
    "part_start p + sector < blk_size (bs ! part_block p)" "blk_type (bs ! part_block p) \<noteq> BLOCK_FOREIGN"
proof -
  have ok: "block_ok bs i" using assms(1,2) by (simp add: blocks_ok_def)
  then show *: "part_block p < i" "part_block p < length bs" "blk_type (bs ! part_block p) \<noteq> BLOCK_FOREIGN"
    "part_start p + sector < blk_size (bs ! part_block p)"
    using assms by (auto simp: block_ok_def)
  have "blk_size (bs ! part_block p) < 2 ^ 32"
    using assms(1) *(2) by (auto simp: blocks_ok_def block_ok_def)
  then show "add32 (part_start p) sector = part_start p + sector" using *(4) by (simp add: add32_def)
qed

lemma block_read_ok:
  assumes "blocks_ok (all_blocks s)" "i < length (all_blocks s)" "sector < blk_size (all_blocks s ! i)"
  shows "\<exists>s'. block_read i sector s = Some (case locate (all_blocks s) i sector of (d, t) \<Rightarrow> media s d t, s') \<and>
    same_but_counts s s'"
  using assms(2,3)
proof (induction i arbitrary: sector rule: less_induct)
  case (less i)
  note chk = check_sector_ok [OF less.prems]
  show ?case
  proof (cases "blk_ops (all_blocks s ! i)")
    case (Disk d)
    then show ?thesis
      by (subst block_read.simps, subst locate.simps) (simp add: chk same_but_counts_count_read)
  next
    case (partition_operations p)
    note p = partition_sector [OF assms(1) less.prems(1) partition_operations less.prems(2)]
    obtain s' where s': "block_read (part_block p) (part_start p + sector) s =
        Some (case locate (all_blocks s) (part_block p) (part_start p + sector) of (d, t) \<Rightarrow> media s d t, s')"
        "same_but_counts s s'"
      using less.IH [OF p(1,2,4)] by blast
    show ?thesis
      using p(1) s' partition_operations
      by (subst block_read.simps, subst locate.simps) (simp add: chk p(3) same_but_counts_count_read)
  qed
qed

definition write_media :: "(nat \<Rightarrow> nat \<Rightarrow> u8 list) \<Rightarrow> nat \<times> nat \<Rightarrow> u8 list \<Rightarrow> nat \<Rightarrow> nat \<Rightarrow> u8 list" where
  "write_media m a buffer = m(fst a := (m (fst a))(snd a := buffer))"

lemma block_write_ok:
  assumes "blocks_ok (all_blocks s)" "i < length (all_blocks s)" "sector < blk_size (all_blocks s ! i)"
    "blk_type (all_blocks s ! i) \<noteq> BLOCK_FOREIGN"
  shows "\<exists>s'. block_write i sector buffer s = Some s' \<and>
    same_but_counts (s\<lparr>media := write_media (media s) (locate (all_blocks s) i sector) buffer\<rparr>) s'"
  using assms(2-)
proof (induction i arbitrary: sector rule: less_induct)
  case (less i)
  note chk = check_sector_ok [OF less.prems(1,2)]
  show ?case
  proof (cases "blk_ops (all_blocks s ! i)")
    case (Disk d)
    then show ?thesis using less.prems(3)
      by (subst block_write.simps, subst locate.simps)
        (simp add: chk same_but_counts_count_write write_media_def)
  next
    case (partition_operations p)
    note p = partition_sector [OF assms(1) less.prems(1) partition_operations less.prems(2)]
    obtain s' where s': "block_write (part_block p) (part_start p + sector) buffer s = Some s'"
        "same_but_counts (s\<lparr>media := write_media (media s) (locate (all_blocks s) (part_block p) (part_start p + sector)) buffer\<rparr>) s'"
      using less.IH [OF p(1,2,4,5)] by blast
    show ?thesis
      using p(1) s' partition_operations less.prems(3)
      by (subst block_write.simps, subst locate.simps) (simp add: chk p(3) same_but_counts_count_write)
  qed
qed

lemma block_read_past_end: "blk < length (all_blocks s) \<Longrightarrow> blk_size (all_blocks s ! blk) \<le> sector \<Longrightarrow> block_read blk sector s = None"
  by (subst block_read.simps) (simp add: check_sector_def get_block_size_def block_at_def)

lemma block_write_past_end: "blk < length (all_blocks s) \<Longrightarrow> blk_size (all_blocks s ! blk) \<le> sector \<Longrightarrow> block_write blk sector buffer s = None"
  by (subst block_write.simps) (simp add: check_sector_def get_block_size_def block_at_def)

text \<open>The locations that a partition reaches on its disk.\<close>

lemma locate_partition:
  assumes "blocks_ok bs" "i < length bs" "blk_ops (bs ! i) = partition_operations p"
    "blk_ops (bs ! part_block p) = Disk d"
  shows "locate bs i sector = (d, part_start p + sector)"
proof -
  have "block_ok bs i" using assms(1,2) by (simp add: blocks_ok_def)
  then have "part_block p < i" using assms(3) by (simp add: block_ok_def)
  then show ?thesis using assms(3,4) by (subst locate.simps, simp, subst locate.simps) simp
qed

lemma locate_disk: "blk_ops (bs ! i) = Disk d \<Longrightarrow> locate bs i sector = (d, sector)"
  by (subst locate.simps) simp

text \<open>C11:
  Sectors are written through to the disk and read back through any device that shows them. For a
  registered device that is not of type foreign and a sector it has, \<open>block_write\<close> returns; the disk
  then holds the buffer at the location of that sector and is otherwise unchanged, nothing but
  statistics changes beside it, and a later \<open>block_read\<close> of any sector of any device gives the
  buffer when the two sectors have the same location and what it gave before when they have not.
  When the device is a partition of a disk the location lies between the first sector of the
  partition and its end, so a partition never touches the sectors outside it.\<close>

theorem block_write_then_read:
  assumes ok: "blocks_ok (all_blocks s)"
    and i: "i < length (all_blocks s)" "sector < blk_size (all_blocks s ! i)" "blk_type (all_blocks s ! i) \<noteq> BLOCK_FOREIGN"
    and j: "j < length (all_blocks s)" "t < blk_size (all_blocks s ! j)"
  shows "\<exists>s1 s2 s3 old.
    block_write i sector buffer s = Some s1 \<and>
    same_but_counts (s\<lparr>media := write_media (media s) (locate (all_blocks s) i sector) buffer\<rparr>) s1 \<and>
    block_read j t s = Some (old, s2) \<and>
    block_read j t s1 = Some (if locate (all_blocks s) j t = locate (all_blocks s) i sector then buffer else old, s3) \<and>
    (\<forall>p d. blk_ops (all_blocks s ! i) = partition_operations p \<and> blk_ops (all_blocks s ! part_block p) = Disk d \<longrightarrow>
       (\<exists>t'. locate (all_blocks s) i sector = (d, t') \<and> part_start p \<le> t' \<and>
         t' < part_start p + blk_size (all_blocks s ! i)))"
proof -
  obtain s1 where s1: "block_write i sector buffer s = Some s1"
    "same_but_counts (s\<lparr>media := write_media (media s) (locate (all_blocks s) i sector) buffer\<rparr>) s1"
    using block_write_ok [OF ok i] by blast
  obtain s2 where s2: "block_read j t s = Some (case locate (all_blocks s) j t of (d, t) \<Rightarrow> media s d t, s2)"
    using block_read_ok [OF ok j] by blast
  have u: "uncount (all_blocks s) = uncount (all_blocks s1)" and
    m: "media s1 = write_media (media s) (locate (all_blocks s) i sector) buffer"
    using same_but_countsD(1,2) [OF s1(2)] by simp_all
  have j1: "j < length (all_blocks s1)" "t < blk_size (all_blocks s1 ! j)"
    using j uncount_length [OF u] uncount_nth(3) [OF u j(1)] by auto
  obtain s3 where s3: "block_read j t s1 = Some (case locate (all_blocks s1) j t of (d, t) \<Rightarrow> media s1 d t, s3)"
    using block_read_ok [OF blocks_ok_uncount [OF u ok] j1] by blast
  have "(case locate (all_blocks s1) j t of (d, t) \<Rightarrow> media s1 d t) =
    (if locate (all_blocks s) j t = locate (all_blocks s) i sector then buffer
     else case locate (all_blocks s) j t of (d, t) \<Rightarrow> media s d t)"
    unfolding m locate_uncount [OF u j(1), symmetric] by (auto simp: write_media_def split: prod.splits)
  then have "block_read j t s1 = Some (if locate (all_blocks s) j t = locate (all_blocks s) i sector then buffer
     else case locate (all_blocks s) j t of (d, t) \<Rightarrow> media s d t, s3)" using s3 by simp
  moreover have "\<forall>p d. blk_ops (all_blocks s ! i) = partition_operations p \<and> blk_ops (all_blocks s ! part_block p) = Disk d \<longrightarrow>
       (\<exists>t'. locate (all_blocks s) i sector = (d, t') \<and> part_start p \<le> t' \<and> t' < part_start p + blk_size (all_blocks s ! i))"
    using i(2) locate_partition [OF ok i(1)] by simp
  ultimately show ?thesis using s1 s2 by blast
qed

definition demo_blocks :: block_state where
  "demo_blocks = \<lparr>all_blocks =
     [\<lparr>blk_name = ''hda'', blk_type = BLOCK_RAW, blk_size = 100, blk_ops = Disk 0, read_cnt = 0, write_cnt = 0\<rparr>,
      \<lparr>blk_name = ''hda1'', blk_type = BLOCK_FILESYS, blk_size = 40,
        blk_ops = partition_operations \<lparr>part_block = 0, part_start = 60\<rparr>, read_cnt = 0, write_cnt = 0\<rparr>],
     block_by_role = (\<lambda>_. None)(BLOCK_FILESYS := Some 1), media = (\<lambda>_ _. replicate 512 0), console = [], mallocs = []\<rparr>"

lemma demo_blocks_ok: "blocks_ok (all_blocks demo_blocks)"
  by (simp add: blocks_ok_def block_ok_def demo_blocks_def less_Suc_eq)

lemma block_write_then_read_witness:
  "\<exists>s1 s3. block_write 1 39 [7] demo_blocks = Some s1 \<and> block_read 0 99 s1 = Some ([7], s3)"
  using block_write_then_read [of demo_blocks 1 39 0 99 "[7]", OF demo_blocks_ok]
  by (simp add: demo_blocks_def locate.simps less_Suc_eq) blast

end
