(* ===== verification/Kernel_Partition.thy ===== *)
theory Kernel_Partition
  imports Kernel_Block
begin

text \<open>
  The partition tables of \<open>devices/partition.c\<close>. A partition table is the list of the 512 bytes
  of its sector; the accessors below read the packed structures. The recursion through extended
  partitions is a \<^theory_text>\<open>partial_function\<close>, because the code does not bound it.
\<close>

section \<open>Tables\<close>

definition type_names :: "(u8 \<times> string) list" where
  "type_names = [
    (0x00, ''Empty''), (0x01, ''FAT12''), (0x02, ''XENIX root''), (0x03, ''XENIX usr''),
    (0x04, ''FAT16 <32M''), (0x05, ''Extended''), (0x06, ''FAT16''), (0x07, ''HPFS/NTFS''),
    (0x08, ''AIX''), (0x09, ''AIX bootable''), (0x0a, ''OS/2 Boot Manager''),
    (0x0b, ''W95 FAT32''), (0x0c, ''W95 FAT32 (LBA)''), (0x0e, ''W95 FAT16 (LBA)''),
    (0x0f, ''W95 Ext'' @ [CHR 0x27] @ ''d (LBA)''), (0x10, ''OPUS''), (0x11, ''Hidden FAT12''),
    (0x12, ''Compaq diagnostics''), (0x14, ''Hidden FAT16 <32M''), (0x16, ''Hidden FAT16''),
    (0x17, ''Hidden HPFS/NTFS''), (0x18, ''AST SmartSleep''), (0x1b, ''Hidden W95 FAT32''),
    (0x1c, ''Hidden W95 FAT32 (LBA)''), (0x1e, ''Hidden W95 FAT16 (LBA)''),
    (0x20, ''Pintos OS kernel''), (0x21, ''Pintos file system''), (0x22, ''Pintos scratch''),
    (0x23, ''Pintos swap''), (0x24, ''NEC DOS''), (0x39, ''Plan 9''),
    (0x3c, ''PartitionMagic recovery''), (0x40, ''Venix 80286''), (0x41, ''PPC PReP Boot''),
    (0x42, ''SFS''), (0x4d, ''QNX4.x''), (0x4e, ''QNX4.x 2nd part''),
    (0x4f, ''QNX4.x 3rd part''), (0x50, ''OnTrack DM''), (0x51, ''OnTrack DM6 Aux1''),
    (0x52, ''CP/M''), (0x53, ''OnTrack DM6 Aux3''), (0x54, ''OnTrackDM6''), (0x55, ''EZ-Drive''),
    (0x56, ''Golden Bow''), (0x5c, ''Priam Edisk''), (0x61, ''SpeedStor''),
    (0x63, ''GNU HURD or SysV''), (0x64, ''Novell Netware 286''), (0x65, ''Novell Netware 386''),
    (0x70, ''DiskSecure Multi-Boot''), (0x75, ''PC/IX''), (0x80, ''Old Minix''),
    (0x81, ''Minix / old Linux''), (0x82, ''Linux swap / Solaris''), (0x83, ''Linux''),
    (0x84, ''OS/2 hidden C: drive''), (0x85, ''Linux extended''), (0x86, ''NTFS volume set''),
    (0x87, ''NTFS volume set''), (0x88, ''Linux plaintext''), (0x8e, ''Linux LVM''),
    (0x93, ''Amoeba''), (0x94, ''Amoeba BBT''), (0x9f, ''BSD/OS''),
    (0xa0, ''IBM Thinkpad hibernation''), (0xa5, ''FreeBSD''), (0xa6, ''OpenBSD''),
    (0xa7, ''NeXTSTEP''), (0xa8, ''Darwin UFS''), (0xa9, ''NetBSD''), (0xab, ''Darwin boot''),
    (0xb7, ''BSDI fs''), (0xb8, ''BSDI swap''), (0xbb, ''Boot Wizard hidden''),
    (0xbe, ''Solaris boot''), (0xbf, ''Solaris''), (0xc1, ''DRDOS/sec (FAT-12)''),
    (0xc4, ''DRDOS/sec (FAT-16 < 32M)''), (0xc6, ''DRDOS/sec (FAT-16)''), (0xc7, ''Syrinx''),
    (0xda, ''Non-FS data''), (0xdb, ''CP/M / CTOS / ...''), (0xde, ''Dell Utility''),
    (0xdf, ''BootIt''), (0xe1, ''DOS access''), (0xe3, ''DOS R/O''), (0xe4, ''SpeedStor''),
    (0xeb, ''BeOS fs''), (0xee, ''EFI GPT''), (0xef, ''EFI (FAT-12/16/32)''),
    (0xf0, ''Linux/PA-RISC boot''), (0xf1, ''SpeedStor''), (0xf4, ''SpeedStor''),
    (0xf2, ''DOS secondary''), (0xfd, ''Linux raid autodetect''), (0xfe, ''LANstep''),
    (0xff, ''BBT'')]"

definition partition_type_name :: "u8 \<Rightarrow> string" where
  "partition_type_name t = (case map_of type_names t of Some nm \<Rightarrow> nm | None \<Rightarrow> ''Unknown'')"

definition get16 :: "u8 list \<Rightarrow> nat \<Rightarrow> nat" where
  "get16 bs i = unat (bs ! i) + 256 * unat (bs ! (i + 1))"

definition get32 :: "u8 list \<Rightarrow> nat \<Rightarrow> nat" where
  "get32 bs i = get16 bs i + 65536 * get16 bs (i + 2)"

record partition_table_entry =
  pte_type :: u8
  pte_offset :: nat
  pte_size :: nat

definition partition_entry :: "u8 list \<Rightarrow> nat \<Rightarrow> partition_table_entry" where
  "partition_entry pt i = \<lparr>pte_type = pt ! (446 + 16 * i + 4), pte_offset = get32 pt (446 + 16 * i + 8),
     pte_size = get32 pt (446 + 16 * i + 12)\<rparr>"

definition partitions :: "u8 list \<Rightarrow> partition_table_entry list" where
  "partitions pt = map (partition_entry pt) [0..<4]"

definition signature :: "u8 list \<Rightarrow> nat" where
  "signature pt = get16 pt 510"

section \<open>Scanning\<close>

definition partition_block_type :: "u8 \<Rightarrow> block_type" where
  "partition_block_type part_type =
     (if part_type = 0x20 then BLOCK_KERNEL
      else if part_type = 0x21 then BLOCK_FILESYS
      else if part_type = 0x22 then BLOCK_SCRATCH
      else if part_type = 0x23 then BLOCK_SWAP
      else BLOCK_FOREIGN)"

definition found_partition ::
    "nat \<Rightarrow> u8 \<Rightarrow> nat \<Rightarrow> nat \<Rightarrow> u32 \<Rightarrow> 'a block_state_scheme \<Rightarrow> 'a block_state_scheme option" where
  "found_partition blk part_type start sz part_nr s = do {
     nm \<leftarrow> block_name blk s;
     bsize \<leftarrow> get_block_size blk s;
     if start \<ge> bsize
     then kprintf (''%s%d: Partition starts past end of device (sector %u)'' @ newline)
       [ArgString (Some nm), Arg32 part_nr, Arg32 (of_nat start)] s
     else if add32 start sz < start \<or> add32 start sz > bsize
     then kprintf (''%s%d: Partition end (%u) past end of device (%u)'' @ newline)
       [ArgString (Some nm), Arg32 part_nr, Arg32 (of_nat (add32 start sz)), Arg32 (of_nat bsize)] s
     else do {
       let (ok, s) = ask_malloc s;
       ASSERT ok;
       part_name \<leftarrow> string_printf 16 ''%s%d'' [ArgString (Some nm), Arg32 part_nr];
       info \<leftarrow> string_printf 128 ''%s (%02x)''
         [ArgString (Some (partition_type_name part_type)), Arg32 (ucast part_type)];
       (_, s) \<leftarrow> block_register part_name (partition_block_type part_type) (Some info) sz
         (partition_operations \<lparr>part_block = blk, part_start = start\<rparr>) s;
       Some s } }"

definition is_extended :: "u8 \<Rightarrow> bool" where
  "is_extended t \<longleftrightarrow> t = 0x05 \<or> t = 0x0f \<or> t = 0x85 \<or> t = 0xc5"

text \<open>The state carries \<open>*part_nr\<close>. Sector 0 is what the code reads, whatever \<open>sector\<close> is.\<close>

partial_function (option) read_partition_table ::
    "nat \<Rightarrow> nat \<Rightarrow> nat \<Rightarrow> u32 \<times> 'a block_state_scheme \<Rightarrow> (u32 \<times> 'a block_state_scheme) option" where
  "read_partition_table blk sector primary_extended_sector st = do {
     let (part_nr, s) = st;
     nm \<leftarrow> block_name blk s;
     bsize \<leftarrow> get_block_size blk s;
     if sector \<ge> bsize
     then map_option (Pair part_nr) (kprintf (''%s: Partition table at sector %u past end of device.'' @ newline)
       [ArgString (Some nm), Arg32 (of_nat sector)] s)
     else do {
       let (ok, s) = ask_malloc s;
       ASSERT ok;
       (pt, s) \<leftarrow> block_read blk 0 s;
       if signature pt \<noteq> 0xaa55
       then map_option (Pair part_nr)
         (if primary_extended_sector = 0
          then kprintf (''%s: Invalid partition table signature'' @ newline) [ArgString (Some nm)] s
          else kprintf (''%s: Invalid extended partition table in sector %u'' @ newline)
            [ArgString (Some nm), Arg32 (of_nat sector)] s)
       else foldM (\<lambda>e (part_nr, s).
         if pte_size e = 0 \<or> pte_type e = 0 then Some (part_nr, s)
         else if is_extended (pte_type e) then do {
           s \<leftarrow> kprintf (''%s: Extended partition in sector %u'' @ newline)
             [ArgString (Some nm), Arg32 (of_nat sector)] s;
           if sector = 0
           then read_partition_table blk (pte_offset e) (pte_offset e) (part_nr, s)
           else read_partition_table blk (add32 (pte_offset e) primary_extended_sector)
             primary_extended_sector (part_nr, s) }
         else map_option (Pair (part_nr + 1))
           (found_partition blk (pte_type e) (add32 (pte_offset e) sector) (pte_size e) (part_nr + 1) s))
         (partitions pt) (part_nr, s) } }"

definition partition_scan :: "nat \<Rightarrow> 'a block_state_scheme \<Rightarrow> 'a block_state_scheme option" where
  "partition_scan blk s = do {
     (part_nr, s) \<leftarrow> read_partition_table blk 0 0 (0, s);
     if part_nr = 0 then do {
       nm \<leftarrow> block_name blk s;
       kprintf (''%s: Device contains no partitions'' @ newline) [ArgString (Some nm)] s }
     else Some s }"

section \<open>Messages\<close>

definition printable :: "string \<Rightarrow> arg list \<Rightarrow> bool" where
  "printable format args \<longleftrightarrow> (\<exists>out. vprintf_helper format args = Some out)"

lemma printable_simps:
  "printable [] args"
  "c \<noteq> CHR ''%'' \<Longrightarrow> printable (c # rest) args \<longleftrightarrow> printable rest args"
  "printable (CHR ''%'' # CHR ''s'' # rest) (ArgString (Some nm) # args) \<longleftrightarrow> printable rest args"
  "printable (CHR ''%'' # CHR ''d'' # rest) (Arg32 w # args) \<longleftrightarrow> printable rest args"
  "printable (CHR ''%'' # CHR ''u'' # rest) (Arg32 w # args) \<longleftrightarrow> printable rest args"
  "printable (CHR ''%'' # CHR 0x27 # CHR ''u'' # rest) (Arg32 w # args) \<longleftrightarrow> printable rest args"
  "printable (CHR ''%'' # CHR ''0'' # CHR ''2'' # CHR ''x'' # rest) (Arg32 w # args) \<longleftrightarrow> printable rest args"
  "printable (CHR ''%'' # CHR ''l'' # CHR ''l'' # CHR ''u'' # rest) (Arg64 v # args) \<longleftrightarrow> printable rest args"
  by (auto simp: printable_def parse_conversion_def flag_of_def parse_star_def parse_precision_def
      parse_type_def convert_def signed_arg_def unsigned_arg_def int_arg_def long_arg_def isdigit_def Let_def GROUP_def ZERO_def)

lemma kprintf_ok: "printable format args \<Longrightarrow> \<exists>out. kprintf format args s = Some (s\<lparr>console := out\<rparr>)"
  by (auto simp: kprintf_def printable_def)

lemma string_printf_ok: "printable format args \<Longrightarrow> \<exists>out. string_printf n format args = Some out"
  by (auto simp: string_printf_def printable_def)

lemma human_readable_ok: "\<exists>out. print_human_readable_size v = Some out"
proof -
  have "printable ''1 byte'' []" "\<And>w u. printable ''%llu %s'' [Arg64 w, ArgString (Some u)]"
    by (simp_all add: printable_simps)
  then show ?thesis
    by (auto simp: print_human_readable_size_def printable_def Let_def split: prod.splits)
qed

lemma partition_name_ok:
  "string_printf 16 ''%s%d'' [ArgString (Some nm), Arg32 nr] = Some (take 15 (nm @ decimal_bytes_of (sint nr)))"
proof -
  have "vprintf_helper ''%s%d'' [ArgString (Some nm), Arg32 nr] = Some (nm @ decimal_bytes_of (sint nr))"
    using vprintf_helper_d [of nr]
    by (simp del: vprintf_helper.simps(2) add: vprintf_helper.simps(2) [of "CHR ''%''" "CHR ''s'' # _"]
      parse_conversion_def flag_of_def parse_star_def parse_precision_def parse_type_def convert_def
      isdigit_def Let_def limit_precision_def format_string_def)
  then show ?thesis by (simp add: string_printf_def)
qed

lemma block_register_ok:
  assumes "mallocs s = []"
  shows "\<exists>out. block_register nm ty info sz ops s = Some (length (all_blocks s),
    s\<lparr>all_blocks := all_blocks s @ [\<lparr>blk_name = take 15 nm, blk_type = ty, blk_size = sz, blk_ops = ops,
       read_cnt = 0, write_cnt = 0\<rparr>], console := out\<rparr>)"
proof -
  have p: "\<And>n w. \<exists>out. vprintf_helper (''%s: %'' @ [CHR 0x27] @ ''u sectors ('') [ArgString (Some n), Arg32 w] = Some out"
    "\<And>i. \<exists>out. vprintf_helper '', %s'' [ArgString (Some i)] = Some out"
    unfolding printable_def [symmetric] by (simp_all add: printable_simps)
  have p2: "\<exists>out. \<forall>i. info = Some i \<longrightarrow> vprintf_helper '', %s'' [ArgString (Some i)] = Some out"
    using p(2) by (cases info) (auto simp del: vprintf_helper.simps)
  obtain o1 where "vprintf_helper (''%s: %'' @ [CHR 0x27] @ ''u sectors ('') [ArgString (Some (take 15 nm)), Arg32 (of_nat sz)] = Some o1"
    using p(1) by blast
  moreover obtain o2 where "print_human_readable_size (of_nat sz * of_nat BLOCK_SECTOR_SIZE) = Some o2"
    using human_readable_ok by blast
  moreover obtain o3 where "\<And>i. info = Some i \<Longrightarrow> vprintf_helper '', %s'' [ArgString (Some i)] = Some o3"
    using p2 by blast
  ultimately show ?thesis
    by (cases info; simp add: block_register_def ask_malloc_def assms kprintf_def newline_def Let_def
      del: append.simps vprintf_helper.simps add: vprintf_helper.simps(1) vprintf_helper.simps(2) [of "CHR 0x0a"]
        vprintf_helper.simps(2) [of "CHR '')''"]; blast)
qed

section \<open>What a table says\<close>

text \<open>The device that an entry of the primary table describes.\<close>

definition entry_device :: "nat \<Rightarrow> block \<Rightarrow> u32 \<Rightarrow> partition_table_entry \<Rightarrow> block list" where
  "entry_device blk b nr e =
     (if pte_offset e < blk_size b \<and> pte_offset e + pte_size e \<le> blk_size b
      then [\<lparr>blk_name = take 15 (blk_name b @ decimal_bytes_of (sint nr)), blk_type = partition_block_type (pte_type e),
             blk_size = pte_size e, blk_ops = partition_operations \<lparr>part_block = blk, part_start = pte_offset e\<rparr>,
             read_cnt = 0, write_cnt = 0\<rparr>]
      else [])"

fun table_devices :: "nat \<Rightarrow> block \<Rightarrow> u32 \<Rightarrow> partition_table_entry list \<Rightarrow> block list" where
  "table_devices blk b nr [] = []"
| "table_devices blk b nr (e # es) =
     (if pte_size e = 0 \<or> pte_type e = 0 then table_devices blk b nr es
      else entry_device blk b (nr + 1) e @ table_devices blk b (nr + 1) es)"

lemma get32_less: "get32 bs i < 2 ^ 32"
proof -
  have "unat a + 256 * unat b + 65536 * (unat c + 256 * unat d) < 2 ^ 32" for a b c d :: u8
    using unat_u8_lt [of a] unat_u8_lt [of b] unat_u8_lt [of c] unat_u8_lt [of d] by (simp del: unat_u8_lt)
  then show ?thesis unfolding get32_def get16_def by blast
qed

lemma found_partition_ok:
  assumes "blk < length (all_blocks s)" "mallocs s = []" "b = all_blocks s ! blk" "blk_size b < 2 ^ 32"
    "pte_size e < 2 ^ 32"
  shows "\<exists>out. found_partition blk (pte_type e) (pte_offset e) (pte_size e) nr s =
    Some (s\<lparr>all_blocks := all_blocks s @ entry_device blk b nr e, console := out\<rparr>)"
proof -
  have b: "block_name blk s = Some (blk_name b)" "get_block_size blk s = Some (blk_size b)"
    using assms(1,3) by (simp_all add: block_name_def get_block_size_def block_at_def)
  have past: "printable (''%s%d: Partition starts past end of device (sector %u)'' @ newline) [ArgString (Some n), Arg32 w, Arg32 v]"
    "printable (''%s%d: Partition end (%u) past end of device (%u)'' @ newline) [ArgString (Some n), Arg32 w, Arg32 v, Arg32 u]"
    "printable ''%s (%02x)'' [ArgString (Some n), Arg32 w]" for n w v u
    by (simp_all add: printable_simps newline_def)
  have fits: "add32 start sz < start \<or> add32 start sz > blk_size b \<longleftrightarrow> start + sz > blk_size b"
    if "start < blk_size b" "sz < 2 ^ 32" for start sz
    using that assms(4) by (cases "start + sz < 2 ^ 32") (auto simp: add32_def mod_if)
  consider "pte_offset e \<ge> blk_size b" | "pte_offset e < blk_size b" "pte_offset e + pte_size e > blk_size b"
    | "pte_offset e < blk_size b" "pte_offset e + pte_size e \<le> blk_size b" by linarith
  then show ?thesis
  proof cases
    case 1
    then show ?thesis
      using kprintf_ok [OF past(1)] by (simp add: found_partition_def b entry_device_def del: append.simps) blast
  next
    case 2
    then show ?thesis using fits [OF 2(1) assms(5)] kprintf_ok [OF past(2)]
      by (simp add: found_partition_def b entry_device_def del: append.simps) blast
  next
    case 3
    obtain info where info: "string_printf 128 ''%s (%02x)''
        [ArgString (Some (partition_type_name (pte_type e))), Arg32 (ucast (pte_type e))] = Some info"
      using string_printf_ok [OF past(3)] by blast
    obtain out where "block_register (take 15 (blk_name b @ decimal_bytes_of (sint nr)))
       (partition_block_type (pte_type e)) (Some info) (pte_size e)
       (partition_operations \<lparr>part_block = blk, part_start = pte_offset e\<rparr>) s =
       Some (length (all_blocks s), s\<lparr>all_blocks := all_blocks s @ entry_device blk b nr e, console := out\<rparr>)"
      using block_register_ok [OF assms(2), of "take 15 (blk_name b @ decimal_bytes_of (sint nr))"
        "partition_block_type (pte_type e)" "Some info" "pte_size e"
        "partition_operations \<lparr>part_block = blk, part_start = pte_offset e\<rparr>"] 3
      by (simp add: entry_device_def take_append min_def split: if_splits)
    moreover have "\<not> add32 (pte_offset e) (pte_size e) < pte_offset e" "\<not> blk_size b < add32 (pte_offset e) (pte_size e)"
      using fits [OF 3(1) assms(5)] 3(2) by auto
    ultimately show ?thesis using 3(1) info
      by (simp add: found_partition_def b ask_malloc_def assms(2) partition_name_ok) blast
  qed
qed

lemma entries_scanned:
  assumes "blk < length (all_blocks s)" "mallocs s = []" "all_blocks s ! blk = b" "blk_size b < 2 ^ 32"
    "\<forall>e \<in> set es. pte_size e < 2 ^ 32 \<and> pte_offset e < 2 ^ 32 \<and> \<not> is_extended (pte_type e)"
  shows "\<exists>out nr'. foldM (\<lambda>e (part_nr, s).
         if pte_size e = 0 \<or> pte_type e = 0 then Some (part_nr, s)
         else if is_extended (pte_type e) then F e part_nr s
         else map_option (Pair (part_nr + 1))
           (found_partition blk (pte_type e) (add32 (pte_offset e) 0) (pte_size e) (part_nr + 1) s)) es (nr, s) =
    Some (nr', s\<lparr>all_blocks := all_blocks s @ table_devices blk b nr es, console := out\<rparr>)"
  using assms
proof (induction es arbitrary: nr s)
  case Nil
  have "s\<lparr>console := console s\<rparr> = s" by simp
  then show ?case by (metis append_Nil2 block_state.update_convs(1) block_state.surjective foldM.simps(1) table_devices.simps(1))
next
  case (Cons e es)
  have e: "pte_size e < 2 ^ 32" "add32 (pte_offset e) 0 = pte_offset e" "\<not> is_extended (pte_type e)"
    using Cons.prems(5) by (simp_all add: add32_def)
  show ?case
  proof (cases "pte_size e = 0 \<or> pte_type e = 0")
    case True
    then show ?thesis using Cons.IH [OF Cons.prems(1-4), of nr] Cons.prems(5) by simp
  next
    case False
    obtain out where out: "found_partition blk (pte_type e) (pte_offset e) (pte_size e) (nr + 1) s =
        Some (s\<lparr>all_blocks := all_blocks s @ entry_device blk b (nr + 1) e, console := out\<rparr>)"
      using found_partition_ok [OF Cons.prems(1,2) _ Cons.prems(4) e(1)] Cons.prems(3) by metis
    have "all_blocks (s\<lparr>all_blocks := all_blocks s @ entry_device blk b (nr + 1) e, console := out\<rparr>) ! blk = b"
      using Cons.prems(1,3) by (simp add: nth_append)
    note ih = Cons.IH [OF _ _ this Cons.prems(4), of "nr + 1"]
    show ?thesis using ih Cons.prems(1,2,5) False e(3) by (simp add: out e(2))
  qed
qed

lemma table_devices_ok:
  assumes "blocks_ok bs" "bs ! blk = b" "blk < length bs" "blk_ops b = Disk d" "blk_type b \<noteq> BLOCK_FOREIGN"
    "\<forall>e \<in> set es. pte_size e < 2 ^ 32"
  shows "blocks_ok (bs @ table_devices blk b nr es)"
  using assms(1-3,6)
proof (induction es arbitrary: nr bs)
  case (Cons e es)
  have "blocks_ok (bs @ entry_device blk b n e)" for n
    using Cons.prems assms(5)
    by (auto simp: blocks_ok_def block_ok_def entry_device_def less_Suc_eq nth_append split: block_operations.splits)
  then show ?case
    using Cons.IH [of "bs @ entry_device blk b (nr + 1) e" "nr + 1"] Cons.IH [OF Cons.prems(1-3)] Cons.prems
    by (auto simp: nth_append)
qed simp

text \<open>C23:
  Scanning a disk registers exactly the partitions of its primary table. Suppose that the disk is not
  empty and not registered as foreign, that sector 0 carries the signature and its table names no
  extended partition, and that every \<open>malloc\<close> succeeds (the code panics when one fails). Then
  \<open>partition_scan\<close> returns, and it appends to \<open>all_blocks\<close> one device for each entry that is not empty and lies inside the disk, in
  table order, with the name, type, start and size the entry gives it; entries that do not fit are
  skipped but use up a partition number. Every device still lies inside the one below it, and the
  disks and the roles are unchanged.\<close>

theorem partition_scan_primary:
  assumes ok: "blocks_ok (all_blocks s)" and blk: "blk < length (all_blocks s)" "b = all_blocks s ! blk"
    and b: "blk_ops b = Disk d" "blk_type b \<noteq> BLOCK_FOREIGN" "0 < blk_size b"
    and mem: "mallocs s = []" and pt: "signature (media s d 0) = 0xaa55"
    and primary: "\<forall>e \<in> set (partitions (media s d 0)). \<not> is_extended (pte_type e)"
  shows "\<exists>s'. partition_scan blk s = Some s' \<and>
    uncount (all_blocks s') = uncount (all_blocks s @ table_devices blk b 0 (partitions (media s d 0))) \<and>
    blocks_ok (all_blocks s') \<and> media s' = media s \<and> block_by_role s' = block_by_role s"
proof -
  let ?es = "partitions (media s d 0)"
  have es: "\<forall>e \<in> set ?es. pte_size e < 2 ^ 32 \<and> pte_offset e < 2 ^ 32"
    using get32_less by (auto simp: partitions_def partition_entry_def)
  obtain s1 where s1: "block_read blk 0 s = Some (media s d 0, s1)" "same_but_counts s s1"
    using block_read_ok [OF ok blk(1), of 0] b(1,3) blk(2) by (auto simp: locate_disk)
  note s1' = same_but_countsD [OF s1(2)]
  have u: "uncount (all_blocks s) = uncount (all_blocks s1)" using s1'(1) by simp
  have n1: "blk < length (all_blocks s1)" using blk(1) uncount_length [OF u] by simp
  have es': "\<forall>e \<in> set ?es. pte_size e < 2 ^ 32 \<and> pte_offset e < 2 ^ 32 \<and> \<not> is_extended (pte_type e)"
    using es primary by blast
  let ?b1 = "all_blocks s1 ! blk"
  have b1: "blk_name ?b1 = blk_name b" "blk_size ?b1 = blk_size b" "blk_ops ?b1 = Disk d" "blk_type ?b1 = blk_type b"
    using uncount_nth [OF u blk(1)] b(1) blk(2) by simp_all
  have same: "entry_device blk ?b1 nr e = entry_device blk b nr e" for nr e
    by (simp add: entry_device_def b1)
  have tab: "table_devices blk ?b1 nr es = table_devices blk b nr es" for nr es
    by (induction es arbitrary: nr) (simp_all add: same)
  have size: "blk_size b < 2 ^ 32" using ok blk by (auto simp: blocks_ok_def block_ok_def)
  have m1: "mallocs s1 = []" and size1: "blk_size ?b1 < 2 ^ 32" using s1'(5) mem size b1(2) by simp_all
  let ?f = "\<lambda>e (part_nr, s).
         if pte_size e = 0 \<or> pte_type e = 0 then Some (part_nr, s)
         else if is_extended (pte_type e) then do {
           s \<leftarrow> kprintf (''%s: Extended partition in sector %u'' @ newline)
             [ArgString (Some (blk_name b)), Arg32 (of_nat 0)] s;
           if 0 = (0::nat)
           then read_partition_table blk (pte_offset e) (pte_offset e) (part_nr, s)
           else read_partition_table blk (add32 (pte_offset e) 0) 0 (part_nr, s) }
         else map_option (Pair (part_nr + 1))
           (found_partition blk (pte_type e) (add32 (pte_offset e) 0) (pte_size e) (part_nr + 1) s)"
  have f: "\<exists>out nr. foldM ?f ?es (0, s1) =
      Some (nr, s1\<lparr>all_blocks := all_blocks s1 @ table_devices blk b 0 ?es, console := out\<rparr>)"
    by (rule entries_scanned [OF n1 m1 refl size1 es', of _ 0, unfolded tab])
  have "block_name blk s = Some (blk_name b)" "get_block_size blk s = Some (blk_size b)"
    using blk by (simp_all add: block_name_def get_block_size_def block_at_def)
  then have "read_partition_table blk 0 0 (0, s) = foldM ?f ?es (0, s1)"
    using b(3) by (subst read_partition_table.simps) (simp add: ask_malloc_def mem s1(1) pt del: append.simps)
  then obtain out nr where
    read: "read_partition_table blk 0 0 (0, s) = Some (nr, s1\<lparr>all_blocks := all_blocks s1 @ table_devices blk b 0 ?es, console := out\<rparr>)"
    using f by auto
  let ?s2 = "s1\<lparr>all_blocks := all_blocks s1 @ table_devices blk b 0 ?es, console := out\<rparr>"
  have name: "block_name blk ?s2 = Some (blk_name b)"
    using n1 b1(1) by (simp add: block_name_def block_at_def nth_append)
  have "printable (''%s: Device contains no partitions'' @ newline) [ArgString (Some (blk_name b))]"
    by (simp add: printable_simps newline_def)
  then obtain out2 where out2: "kprintf (''%s: Device contains no partitions'' @ newline) [ArgString (Some (blk_name b))] ?s2
    = Some (?s2\<lparr>console := out2\<rparr>)" using kprintf_ok by blast
  obtain s3 where s3: "partition_scan blk s = Some s3" "s3 = ?s2 \<or> s3 = ?s2\<lparr>console := out2\<rparr>"
    unfolding partition_scan_def read by (cases "nr = 0") (simp_all add: name out2 del: append.simps)
  have "uncount (all_blocks s @ xs) = uncount (all_blocks s1 @ xs)" for xs
    using u by (simp add: uncount_def)
  moreover have "blocks_ok (all_blocks s @ table_devices blk b 0 ?es)"
    using table_devices_ok [OF ok blk(2) [symmetric] blk(1) b(1,2)] es by simp
  moreover have "all_blocks s3 = all_blocks s1 @ table_devices blk b 0 ?es" "media s3 = media s"
    "block_by_role s3 = block_by_role s" using s3(2) s1'(2,3) by auto
  ultimately show ?thesis using s3(1) blocks_ok_uncount by metis
qed

definition demo_mbr :: "u8 list" where
  "demo_mbr = replicate 450 0 @ [0x21, 0, 0, 0] @ [5, 0, 0, 0] @ [10, 0, 0, 0] @ replicate 48 0 @ [0x55, 0xaa]"

definition demo_disk :: block_state where
  "demo_disk = demo_blocks\<lparr>all_blocks := take 1 (all_blocks demo_blocks), media := (\<lambda>_ _. demo_mbr)\<rparr>"

lemma demo_table:
  "signature demo_mbr = 0xaa55"
  "partitions demo_mbr = \<lparr>pte_type = 0x21, pte_offset = 5, pte_size = 10\<rparr> #
     replicate 3 \<lparr>pte_type = 0, pte_offset = 0, pte_size = 0\<rparr>"
proof -
  have u: "[0..<4] = [0, 1, 2, 3 :: nat]" by (simp add: upt_rec)
  show "signature demo_mbr = 0xaa55"
    by (simp add: signature_def get16_def demo_mbr_def nth_append nth_Cons')
  show "partitions demo_mbr = \<lparr>pte_type = 0x21, pte_offset = 5, pte_size = 10\<rparr> #
     replicate 3 \<lparr>pte_type = 0, pte_offset = 0, pte_size = 0\<rparr>"
    by (simp add: partitions_def u partition_entry_def get32_def get16_def demo_mbr_def nth_append nth_Cons' numeral_3_eq_3)
qed

lemma partition_scan_primary_witness:
  "\<exists>s'. partition_scan 0 demo_disk = Some s' \<and>
    uncount (all_blocks s') = uncount (all_blocks demo_disk) @
      [\<lparr>blk_name = ''hda1'', blk_type = BLOCK_FILESYS, blk_size = 10,
        blk_ops = partition_operations \<lparr>part_block = 0, part_start = 5\<rparr>, read_cnt = 0, write_cnt = 0\<rparr>]"
proof -
  let ?b = "all_blocks demo_disk ! 0"
  have "table_devices 0 ?b 0 (partitions demo_mbr) = [\<lparr>blk_name = ''hda1'', blk_type = BLOCK_FILESYS, blk_size = 10,
      blk_ops = partition_operations \<lparr>part_block = 0, part_start = 5\<rparr>, read_cnt = 0, write_cnt = 0\<rparr>]"
    unfolding demo_table by (simp add: demo_disk_def demo_blocks_def) code_simp
  moreover have "media demo_disk 0 0 = demo_mbr" "blocks_ok (all_blocks demo_disk)" "?b = all_blocks demo_disk ! 0"
    "0 < length (all_blocks demo_disk)" "blk_ops ?b = Disk 0" "blk_type ?b \<noteq> BLOCK_FOREIGN" "0 < blk_size ?b"
    "mallocs demo_disk = []" "\<forall>e \<in> set (partitions demo_mbr). \<not> is_extended (pte_type e)"
    unfolding demo_table by (simp_all add: demo_disk_def demo_blocks_def blocks_ok_def block_ok_def is_extended_def)
  ultimately show ?thesis
    using partition_scan_primary [of demo_disk 0 ?b 0] demo_table(1) by (auto simp: uncount_def)
qed

section \<open>Only sector 0 is ever read\<close>

definition with_media :: "(nat \<Rightarrow> nat \<Rightarrow> u8 list) \<Rightarrow> 'a block_state_scheme \<Rightarrow> 'a block_state_scheme" where
  "with_media m s = s\<lparr>media := m\<rparr>"

lemma with_media_simps [simp]:
  "media (with_media m s) = m" "all_blocks (with_media m s) = all_blocks s"
  "mallocs (with_media m s) = mallocs s" "console (with_media m s) = console s"
  "with_media m (s\<lparr>console := c\<rparr>) = (with_media m s)\<lparr>console := c\<rparr>"
  "with_media m (s\<lparr>all_blocks := bs\<rparr>) = (with_media m s)\<lparr>all_blocks := bs\<rparr>"
  "with_media m (s\<lparr>mallocs := a\<rparr>) = (with_media m s)\<lparr>mallocs := a\<rparr>"
  "block_name i (with_media m s) = block_name i s" "get_block_size i (with_media m s) = get_block_size i s"
  by (simp_all add: with_media_def block_name_def get_block_size_def block_at_def)

definition keeps_disk :: "nat \<Rightarrow> 'a block_state_scheme \<Rightarrow> 'a block_state_scheme \<Rightarrow> bool" where
  "keeps_disk blk s s' \<longleftrightarrow> media s' = media s \<and> (blk < length (all_blocks s) \<longrightarrow>
     blk < length (all_blocks s') \<and> blk_ops (all_blocks s' ! blk) = blk_ops (all_blocks s ! blk))"

lemma keeps_disk_refl [simp]: "keeps_disk blk s s"
  by (simp add: keeps_disk_def)

lemma keeps_disk_trans: "keeps_disk blk s s' \<Longrightarrow> keeps_disk blk s' s'' \<Longrightarrow> keeps_disk blk s s''"
  by (auto simp: keeps_disk_def)

lemma kprintf_media:
  assumes "kprintf f a s = Some s'"
  shows "kprintf f a (with_media m s) = Some (with_media m s')" "keeps_disk blk s s'"
  using assms by (auto simp: kprintf_def keeps_disk_def kbind)

lemma kprintf_media_both:
  "kprintf f a s = Some s' \<Longrightarrow> kprintf f a (with_media m s) = Some (with_media m s') \<and> keeps_disk blk s s'"
  using kprintf_media by blast

lemma ask_malloc_media:
  assumes "ask_malloc s = (ok, s')"
  shows "ask_malloc (with_media m s) = (ok, with_media m s')" "keeps_disk blk s s'"
  using assms by (auto simp: ask_malloc_def keeps_disk_def split: list.splits)

lemma block_register_media:
  assumes "block_register nm ty info sz ops s = Some (i, s')"
  shows "block_register nm ty info sz ops (with_media m s) = Some (i, with_media m s') \<and> keeps_disk blk s s'"
proof -
  let ?new = "\<lparr>blk_name = take 15 nm, blk_type = ty, blk_size = sz, blk_ops = ops, read_cnt = 0, write_cnt = 0\<rparr>"
  let ?info = "\<lambda>s. case info of None \<Rightarrow> Some s | Some i \<Rightarrow> kprintf '', %s'' [ArgString (Some i)] s"
  obtain ok s0 where m: "ask_malloc s = (ok, s0)" by fastforce
  obtain s1 out s2 s3 where
    1: "kprintf (''%s: %'' @ [CHR 0x27] @ ''u sectors ('') [ArgString (Some (take 15 nm)), Arg32 (of_nat sz)]
      (s0\<lparr>all_blocks := all_blocks s0 @ [?new]\<rparr>) = Some s1" and
    2: "print_human_readable_size (of_nat sz * of_nat BLOCK_SECTOR_SIZE) = Some out"
      "kprintf '')'' [] (s1\<lparr>console := console s1 @ out\<rparr>) = Some s2" and
    3: "?info s2 = Some s3" and 4: "kprintf newline [] s3 = Some s'" "ok" "i = length (all_blocks s0)"
    using assms m unfolding block_register_def Let_def by (auto simp: kbind split: if_splits simp del: append.simps)
  have i: "?info (with_media m s2) = Some (with_media m s3) \<and> keeps_disk blk s2 s3"
    using 3 kprintf_media [of _ _ s2 s3] by (cases info) auto
  note r = ask_malloc_media(1) [OF m] kprintf_media(1) [OF 1] kprintf_media(1) [OF 2(2)] kprintf_media(1) [OF 4(1)]
  have "block_register nm ty info sz ops (with_media m s) = Some (i, with_media m s')"
    using r i 2(1) 4(2,3) unfolding block_register_def Let_def by (simp del: append.simps)
  moreover have "keeps_disk blk s0 s'"
    using kprintf_media(2) [OF 1, of blk] kprintf_media(2) [OF 2(2), of blk] kprintf_media(2) [OF 4(1), of blk] i
    by (auto simp: keeps_disk_def nth_append)
  ultimately show ?thesis using ask_malloc_media(2) [OF m] keeps_disk_trans by blast
qed

lemma found_partition_media:
  assumes "found_partition blk ty start sz nr s = Some s'"
  shows "found_partition blk ty start sz nr (with_media m s) = Some (with_media m s') \<and> keeps_disk blk s s'"
proof -
  obtain nm bs where nb: "block_name blk s = Some nm" "get_block_size blk s = Some bs"
    using assms by (auto simp: found_partition_def kbind)
  obtain ok s1 where m: "ask_malloc s = (ok, s1)" by fastforce
  note m' = ask_malloc_media [OF m]
  consider (past) "start \<ge> bs" | (over) "start < bs" "add32 start sz < start \<or> add32 start sz > bs"
    | (fits) "start < bs" "\<not> (add32 start sz < start \<or> add32 start sz > bs)" by linarith
  then show ?thesis
  proof cases
    case past
    then show ?thesis using assms kprintf_media(1) [where s = s and s' = s' and m = m] kprintf_media(2) [where s = s and s' = s' and blk = blk]
      by (simp add: found_partition_def nb del: append.simps)
  next
    case over
    then show ?thesis using assms kprintf_media(1) [where s = s and s' = s' and m = m] kprintf_media(2) [where s = s and s' = s' and blk = blk]
      by (simp add: found_partition_def nb del: append.simps)
  next
    case fits
    obtain pn inf i where r: "string_printf 16 ''%s%d'' [ArgString (Some nm), Arg32 nr] = Some pn"
      "string_printf 128 ''%s (%02x)'' [ArgString (Some (partition_type_name ty)), Arg32 (ucast ty)] = Some inf"
      "block_register pn (partition_block_type ty) (Some inf) sz
         (partition_operations \<lparr>part_block = blk, part_start = start\<rparr>) s1 = Some (i, s')" "ok"
      using assms fits m by (auto simp: found_partition_def nb kbind simp del: append.simps)
    then show ?thesis
      using fits m' block_register_media [OF r(3), of m blk] keeps_disk_trans [of blk s s1 s']
      by (simp add: found_partition_def nb del: append.simps)
  qed
qed

lemma block_read_media:
  assumes "block_read blk 0 s = Some (pt, s')" "blk_ops (all_blocks s ! blk) = Disk d" "m d 0 = media s d 0"
  shows "block_read blk 0 (with_media m s) = Some (pt, with_media m s') \<and> keeps_disk blk s s' \<and> pt = media s d 0"
proof -
  have "check_sector s blk 0 = Some ()" "s' = count_read blk s" "pt = media s d 0"
    using assms(1,2) block_read.simps [of blk 0 s] by (auto simp: kbind)
  moreover from this have "blk < length (all_blocks s)"
    by (auto simp: check_sector_def get_block_size_def block_at_def kbind split: if_splits)
  moreover have "check_sector (with_media m s) blk 0 = check_sector s blk 0" by (simp add: check_sector_def)
  ultimately show ?thesis using assms(2,3) block_read.simps [of blk 0 "with_media m s"]
    by (simp add: count_read_def keeps_disk_def)
qed

definition media_blind :: "nat \<Rightarrow> nat \<Rightarrow> u32 \<times> 'a block_state_scheme \<Rightarrow> u32 \<times> 'a block_state_scheme \<Rightarrow>
    (u32 \<times> 'a block_state_scheme \<Rightarrow> (u32 \<times> 'a block_state_scheme) option) \<Rightarrow> bool" where
  "media_blind blk d st st' f \<longleftrightarrow> (\<forall>m. blk < length (all_blocks (snd st)) \<and>
     blk_ops (all_blocks (snd st) ! blk) = Disk d \<and> m d 0 = media (snd st) d 0 \<longrightarrow>
     f (apsnd (with_media m) st) = Some (apsnd (with_media m) st') \<and> keeps_disk blk (snd st) (snd st'))"

lemma read_partition_table_media:
  "read_partition_table blk sector primary st = Some st' \<Longrightarrow>
   media_blind blk d st st' (read_partition_table blk sector primary)"
proof (rule read_partition_table.raw_induct [where P = "\<lambda>blk sector primary st st'.
    media_blind blk d st st' (read_partition_table blk sector primary)"], goal_cases)
  case (1 rec blk sector primary st st')
  note rec = 1(2)
  obtain n s where st: "st = (n, s)" by (cases st)
  show ?case unfolding media_blind_def
  proof (intro allI impI)
    fix m :: "nat \<Rightarrow> nat \<Rightarrow> u8 list" assume "blk < length (all_blocks (snd st)) \<and> blk_ops (all_blocks (snd st) ! blk) = Disk d \<and> m d 0 = media (snd st) d 0"
    then have pre: "blk < length (all_blocks s)" "blk_ops (all_blocks s ! blk) = Disk d" "m d 0 = media s d 0"
      by (simp_all add: st)
    let ?h = "apsnd (with_media m)"
    obtain nm bs where nb: "block_name blk s = Some nm" "get_block_size blk s = Some bs"
      using pre(1) by (simp add: block_name_def get_block_size_def block_at_def)
    obtain ok s1 where ok: "ask_malloc s = (ok, s1)" by fastforce
    note ok' = ask_malloc_media [OF ok]
    show "read_partition_table blk sector primary (?h st) = Some (?h st') \<and> keeps_disk blk (snd st) (snd st')"
    proof (cases "sector \<ge> bs")
      case True
      then obtain s' where "st' = (n, s')" "kprintf (''%s: Partition table at sector %u past end of device.'' @ newline)
          [ArgString (Some nm), Arg32 (of_nat sector)] s = Some s'"
        using 1(3) by (auto simp: st nb simp del: append.simps)
      then show ?thesis using True kprintf_media [of _ _ s s'] nb
        by (subst read_partition_table.simps) (simp add: st del: append.simps)
    next
      case False
      then obtain pt s2 where ok1: "ok" and r: "block_read blk 0 s1 = Some (pt, s2)"
        using 1(3) ok by (auto simp: st nb kbind simp del: append.simps)
      have pre1: "blk_ops (all_blocks s1 ! blk) = Disk d" "m d 0 = media s1 d 0"
        using ok'(2) [of blk] pre by (auto simp: keeps_disk_def)
      note r' = block_read_media [OF r pre1(1), of m, OF pre1(2)]
      have s2: "keeps_disk blk s s2" using r' ok'(2) keeps_disk_trans by blast
      show ?thesis
      proof (cases "signature pt = 0xaa55")
        case sig: False
        let ?say = "\<lambda>s. if primary = 0
          then kprintf (''%s: Invalid partition table signature'' @ newline) [ArgString (Some nm)] s
          else kprintf (''%s: Invalid extended partition table in sector %u'' @ newline)
            [ArgString (Some nm), Arg32 (of_nat sector)] s"
        obtain s3 where s3: "?say s2 = Some s3" "st' = (n, s3)"
          using 1(3) False ok ok1 r nb sig by (auto simp: st simp del: append.simps)
        then have "?say (with_media m s2) = Some (with_media m s3) \<and> keeps_disk blk s2 s3"
          using kprintf_media_both [where s = s2 and s' = s3 and m = m and blk = blk]
          by (cases "primary = 0") (simp_all del: append.simps)
        then show ?thesis using False ok1 ok'(1) r' s2 s3 nb sig keeps_disk_trans [of blk s s2 s3]
          by (subst read_partition_table.simps) (simp add: st del: append.simps)
      next
        case sig: True
        let ?f = "\<lambda>r e (part_nr, s).
         if pte_size e = 0 \<or> pte_type e = 0 then Some (part_nr, s)
         else if is_extended (pte_type e) then do {
           s \<leftarrow> kprintf (''%s: Extended partition in sector %u'' @ newline)
             [ArgString (Some nm), Arg32 (of_nat sector)] s;
           if sector = 0
           then r blk (pte_offset e) (pte_offset e) (part_nr, s)
           else r blk (add32 (pte_offset e) primary) primary (part_nr, s) }
         else map_option (Pair (part_nr + 1))
           (found_partition blk (pte_type e) (add32 (pte_offset e) sector) (pte_size e) (part_nr + 1) s)"
        have loop: "foldM (?f rec) (partitions pt) (n, s2) = Some st'"
          using 1(3) False ok ok1 r sig nb by (simp add: st del: append.simps)
        have "keeps_disk blk s (snd st') \<and> foldM (?f read_partition_table) (partitions pt) (?h (n, s2)) = Some (?h st')"
        proof (rule foldM_commute [where I = "\<lambda>st. keeps_disk blk s (snd st)", OF loop])
          show "keeps_disk blk s (snd (n, s2))" using s2 by simp
        next
          fix e and t t' :: "u32 \<times> 'a block_state_scheme"
          assume t: "?f rec e t = Some t'" and k: "keeps_disk blk s (snd t)"
          obtain pn u where tu: "t = (pn, u)" by (cases t)
          have rd: "read_partition_table blk a b (q, with_media m v) = Some (?h t') \<and> keeps_disk blk v (snd t')"
            if "rec blk a b (q, v) = Some t'" "keeps_disk blk s v" for a b q v
            using rec [OF that(1)] that(2) pre by (auto simp: media_blind_def keeps_disk_def)
          show "keeps_disk blk s (snd t') \<and> ?f read_partition_table e (?h t) = Some (?h t')"
          proof (cases "pte_size e = 0 \<or> pte_type e = 0")
            case True then show ?thesis using t k by (auto simp: tu)
          next
            case ne: False
            show ?thesis
            proof (cases "is_extended (pte_type e)")
              case True
              then obtain v where v: "kprintf (''%s: Extended partition in sector %u'' @ newline)
                  [ArgString (Some nm), Arg32 (of_nat sector)] u = Some v"
                "if sector = 0 then rec blk (pte_offset e) (pte_offset e) (pn, v) = Some t'
                 else rec blk (add32 (pte_offset e) primary) primary (pn, v) = Some t'"
                using t ne by (auto simp: tu kbind simp del: append.simps split: if_splits)
              have kv: "keeps_disk blk s v" using kprintf_media(2) [OF v(1)] k tu keeps_disk_trans by fastforce
              show ?thesis using v(2) rd [OF _ kv] kprintf_media(1) [OF v(1)] ne True kv
                by (auto simp: tu simp del: append.simps split: if_splits intro: keeps_disk_trans)
            next
              case False
              then obtain v where v: "found_partition blk (pte_type e) (add32 (pte_offset e) sector) (pte_size e) (pn + 1) u = Some v"
                "t' = (pn + 1, v)" using t ne by (auto simp: tu)
              show ?thesis using found_partition_media [OF v(1)] k ne False v(2) keeps_disk_trans by (fastforce simp: tu)
            qed
          qed
        qed
        then show ?thesis using False nb ok'(1) ok1 r' sig
          by (subst read_partition_table.simps) (simp add: st del: append.simps)
      qed
    qed
  qed
qed (assumption)

text \<open>C36:
  Only sector 0 of a disk takes part in a scan. Whatever the other sectors hold, \<open>partition_scan\<close>
  returns for the same disks, registers the same devices and prints the same messages: the tables of
  extended partitions, which start in other sectors, are never read, because
  \<open>read_partition_table\<close> reads sector 0 at every level of its recursion. Logical partitions are
  therefore not found, and an extended partition makes the primary table be taken for its own.\<close>

theorem partition_scan_reads_sector_0_only:
  assumes "blk < length (all_blocks s)" "blk_ops (all_blocks s ! blk) = Disk d" "m d 0 = media s d 0"
  shows "partition_scan blk (s\<lparr>media := m\<rparr>) = map_option (\<lambda>s. s\<lparr>media := m\<rparr>) (partition_scan blk s)"
proof -
  let ?scan = "\<lambda>s. partition_scan blk s"
  have fwd: "?scan (with_media m s) = Some (with_media m s')"
    if sc: "?scan s = Some s'" and dsk: "blk < length (all_blocks s)" "blk_ops (all_blocks s ! blk) = Disk d" "m d 0 = media s d 0"
    for m and s s' :: "'a block_state_scheme"
  proof -
    obtain nr s1 where r: "read_partition_table blk 0 0 (0, s) = Some (nr, s1)"
      using sc by (auto simp: partition_scan_def kbind)
    then have "read_partition_table blk 0 0 (0, with_media m s) = Some (nr, with_media m s1)"
      using read_partition_table_media [OF r, of d] dsk by (auto simp: media_blind_def)
    moreover have "if nr = 0 then \<exists>nm. block_name blk s1 = Some nm \<and>
        kprintf (''%s: Device contains no partitions'' @ newline) [ArgString (Some nm)] s1 = Some s' else s' = s1"
      using sc unfolding partition_scan_def r by (simp add: kbind split: if_splits del: append.simps)
    ultimately show ?thesis using kprintf_media(1) [where s = s1 and s' = s' and m = m]
      by (cases "nr = 0") (auto simp: partition_scan_def simp del: append.simps)
  qed
  have restore: "with_media (media s) (with_media m s) = s" by (simp add: with_media_def)
  show ?thesis
  proof (cases "?scan s")
    case None
    have "?scan (with_media m s) \<noteq> Some t" for t
      using fwd [of "with_media m s" t "media s"] assms None by (auto simp: restore)
    then have "?scan (with_media m s) = None" by (cases "?scan (with_media m s)") auto
    then show ?thesis using None by (simp add: with_media_def)
  next
    case (Some s')
    then show ?thesis using fwd [of s s' m] Some assms by (simp add: with_media_def)
  qed
qed

lemma partition_scan_reads_sector_0_only_witness:
  "partition_scan 0 (demo_disk\<lparr>media := (\<lambda>_ t. if t = 0 then demo_mbr else replicate 512 7)\<rparr>) =
   map_option (\<lambda>s. s\<lparr>media := (\<lambda>_ t. if t = 0 then demo_mbr else replicate 512 7)\<rparr>) (partition_scan 0 demo_disk)"
  by (rule partition_scan_reads_sector_0_only [of _ _ 0]) (simp_all add: demo_disk_def demo_blocks_def)

end
