(* ===== verification/Kernel_Inode.thy ===== *)
theory Kernel_Inode
  imports Kernel_Partition Kernel_Bitmap
begin

text \<open>
  Inodes, open files and the free map: \<open>filesys/inode.c\<close>, \<open>filesys/file.c\<close>,
  \<open>filesys/free-map.c\<close> and the file input and output of \<open>lib/kernel/bitmap.c\<close>.

  The state of the file system extends the state of the block devices. An in-memory inode is an
  entry of \<open>inodes\<close>, a heap keyed by addresses; \<open>open_inodes\<close> is the list of the open ones. A
  \<open>struct file\<close> is a value that its owner holds and that the operations return updated. A buffer
  is the list of its bytes: reading returns the bytes read, whose number is what the C function
  returns. An \<open>off_t\<close> is an integer; division and remainder truncate as in C. A byte offset in
  front of a sector buffer is undefined behaviour, \<^const>\<open>None\<close>. A sector of a disk always has
  512 bytes.
\<close>

section \<open>The state\<close>

definition FREE_MAP_SECTOR :: nat where "FREE_MAP_SECTOR = 0"
definition ROOT_DIR_SECTOR :: nat where "ROOT_DIR_SECTOR = 1"
definition INODE_MAGIC :: nat where "INODE_MAGIC = 0x494e4f44"

record inode_disk =
  id_start :: nat
  id_length :: int
  id_magic :: nat
  id_unused :: "u8 list"

record inode =
  i_sector :: nat
  open_cnt :: int
  i_removed :: bool
  deny_write_cnt :: int
  i_data :: inode_disk

record open_file =
  f_inode :: nat
  f_pos :: int
  f_deny_write :: bool

record fs_state = block_state +
  fs_device :: "nat option"
  free_map :: "bitmap option"
  free_map_file :: "open_file option"
  open_inodes :: "nat list"
  inodes :: "nat \<Rightarrow> inode option"
  next_inode :: nat

text \<open>The layout of an inode in its sector.\<close>

definition signed32 :: "nat \<Rightarrow> int" where
  "signed32 n = (if n < 2 ^ 31 then int n else int n - 2 ^ 32)"

definition put32 :: "nat \<Rightarrow> u8 list" where
  "put32 n = [of_nat n, of_nat (n div 2 ^ 8), of_nat (n div 2 ^ 16), of_nat (n div 2 ^ 24)]"

definition get_inode_disk :: "u8 list \<Rightarrow> inode_disk" where
  "get_inode_disk bs = \<lparr>id_start = get32 bs 0, id_length = signed32 (get32 bs 4), id_magic = get32 bs 8,
     id_unused = drop 12 bs\<rparr>"

definition put_inode_disk :: "inode_disk \<Rightarrow> u8 list" where
  "put_inode_disk d = put32 (id_start d) @ put32 (nat (id_length d mod 2 ^ 32)) @ put32 (id_magic d) @ id_unused d"

text \<open>C's division: it truncates.\<close>

definition cdiv :: "int \<Rightarrow> int \<Rightarrow> int" where
  "cdiv a b = (if a < 0 then - (- a div b) else a div b)"

definition cmod :: "int \<Rightarrow> int \<Rightarrow> int" where
  "cmod a b = a - cdiv a b * b"

definition SECTOR :: int where "SECTOR = int BLOCK_SECTOR_SIZE"

text \<open>The sum in \<open>DIV_ROUND_UP\<close> is of type \<open>int\<close> and must not overflow.\<close>

definition bytes_to_sectors :: "int \<Rightarrow> nat option" where
  "bytes_to_sectors sz = (if sz + SECTOR - 1 < 2 ^ 31 then Some (nat (cdiv (sz + SECTOR - 1) SECTOR mod 2 ^ 32)) else None)"

definition byte_to_sector :: "inode \<Rightarrow> int \<Rightarrow> nat" where
  "byte_to_sector inode pos =
     (if pos < id_length (i_data inode)
      then nat ((int (id_start (i_data inode)) + cdiv pos SECTOR) mod 2 ^ 32) else 2 ^ 32 - 1)"

section \<open>Reading and writing\<close>

definition fs_read :: "nat \<Rightarrow> 'a fs_state_scheme \<Rightarrow> (u8 list \<times> 'a fs_state_scheme) option" where
  "fs_read sector s = do { dev \<leftarrow> fs_device s; block_read dev sector s }"

definition fs_write :: "nat \<Rightarrow> u8 list \<Rightarrow> 'a fs_state_scheme \<Rightarrow> 'a fs_state_scheme option" where
  "fs_write sector buffer s = do { dev \<leftarrow> fs_device s; block_write dev sector buffer s }"

text \<open>\<open>chunk\<close> bytes of a sector buffer from \<open>ofs\<close> on, and their replacement.\<close>

definition sector_part :: "u8 list \<Rightarrow> int \<Rightarrow> int \<Rightarrow> u8 list option" where
  "sector_part buf ofs chunk = (if 0 \<le> ofs then Some (take (nat chunk) (drop (nat ofs) buf)) else None)"

definition sector_update :: "u8 list \<Rightarrow> int \<Rightarrow> u8 list \<Rightarrow> u8 list option" where
  "sector_update buf ofs bs = (if 0 \<le> ofs
     then Some (take (nat ofs) buf @ bs @ drop (nat ofs + length bs) buf) else None)"

definition chunk_size :: "inode \<Rightarrow> int \<Rightarrow> int \<Rightarrow> int" where
  "chunk_size inode sz offset =
     (let sector_ofs = cmod offset SECTOR;
          inode_left = id_length (i_data inode) - offset;
          sector_left = SECTOR - sector_ofs;
          min_left = (if inode_left < sector_left then inode_left else sector_left)
      in if sz < min_left then sz else min_left)"

definition get_bounce :: "bool \<Rightarrow> 'a fs_state_scheme \<Rightarrow> bool \<times> 'a fs_state_scheme" where
  "get_bounce bounce s = (if bounce then (True, s) else ask_malloc s)"

text \<open>\<open>bounce\<close> says that the bounce buffer has been allocated.\<close>

function read_loop :: "inode \<Rightarrow> bool \<Rightarrow> int \<Rightarrow> int \<Rightarrow> 'a fs_state_scheme \<Rightarrow> (u8 list \<times> 'a fs_state_scheme) option" where
  "read_loop inode bounce sz offset s =
     (let sector_idx = byte_to_sector inode offset;
          sector_ofs = cmod offset SECTOR;
          chunk = chunk_size inode sz offset
      in if sz \<le> 0 \<or> chunk \<le> 0 then Some ([], s)
         else if sector_ofs = 0 \<and> chunk = SECTOR then do {
           (buffer, s) \<leftarrow> fs_read sector_idx s;
           (rest, s) \<leftarrow> read_loop inode bounce (sz - chunk) (offset + chunk) s;
           Some (buffer @ rest, s) }
         else let (ok, s) = get_bounce bounce s in
           if \<not> ok then Some ([], s)
           else do {
             (buffer, s) \<leftarrow> fs_read sector_idx s;
             part \<leftarrow> sector_part buffer sector_ofs chunk;
             (rest, s) \<leftarrow> read_loop inode True (sz - chunk) (offset + chunk) s;
             Some (part @ rest, s) })"
  by pat_completeness auto
termination
  by (relation "measure (\<lambda>(inode, bounce, sz, offset, s). nat sz)") auto

declare read_loop.simps [simp del]

definition inode_read_at :: "nat \<Rightarrow> int \<Rightarrow> int \<Rightarrow> 'a fs_state_scheme \<Rightarrow> (u8 list \<times> 'a fs_state_scheme) option" where
  "inode_read_at ino sz offset s = do {
     inode \<leftarrow> inodes s ino;
     read_loop inode False sz offset s }"

text \<open>The buffer of \<open>inode_write_at\<close> is the list of the bytes still to write.\<close>

function write_loop :: "inode \<Rightarrow> bool \<Rightarrow> u8 list \<Rightarrow> int \<Rightarrow> int \<Rightarrow> 'a fs_state_scheme \<Rightarrow> (int \<times> 'a fs_state_scheme) option" where
  "write_loop inode bounce buffer offset bytes_written s =
     (let sz = int (length buffer);
          sector_idx = byte_to_sector inode offset;
          sector_ofs = cmod offset SECTOR;
          sector_left = SECTOR - sector_ofs;
          chunk = chunk_size inode sz offset;
          bs = take (nat chunk) buffer; rest = drop (nat chunk) buffer
      in if sz \<le> 0 \<or> chunk \<le> 0 then Some (bytes_written, s)
         else if sector_ofs = 0 \<and> chunk = SECTOR then do {
           s \<leftarrow> fs_write sector_idx bs s;
           write_loop inode bounce rest (offset + chunk) (bytes_written + chunk) s }
         else let (ok, s) = get_bounce bounce s in
           if \<not> ok then Some (bytes_written, s)
           else do {
             (old, s) \<leftarrow> (if sector_ofs > 0 \<or> chunk < sector_left then fs_read sector_idx s
                else Some (replicate BLOCK_SECTOR_SIZE 0, s));
             new \<leftarrow> sector_update old sector_ofs bs;
             s \<leftarrow> fs_write sector_idx new s;
             write_loop inode True rest (offset + chunk) (bytes_written + chunk) s })"
  by pat_completeness auto
termination
  by (relation "measure (\<lambda>(inode, bounce, buffer, offset, n, s). length buffer)") auto

declare write_loop.simps [simp del]

definition inode_write_at :: "nat \<Rightarrow> u8 list \<Rightarrow> int \<Rightarrow> 'a fs_state_scheme \<Rightarrow> (int \<times> 'a fs_state_scheme) option" where
  "inode_write_at ino buffer offset s = do {
     inode \<leftarrow> inodes s ino;
     if deny_write_cnt inode \<noteq> 0 then Some (0, s)
     else write_loop inode False buffer offset 0 s }"

definition inode_length :: "nat \<Rightarrow> 'a fs_state_scheme \<Rightarrow> int option" where
  "inode_length ino s = map_option (\<lambda>i. id_length (i_data i)) (inodes s ino)"

definition inode_get_inumber :: "nat \<Rightarrow> 'a fs_state_scheme \<Rightarrow> nat option" where
  "inode_get_inumber ino s = map_option i_sector (inodes s ino)"

section \<open>Files\<close>

definition file_read :: "open_file \<Rightarrow> int \<Rightarrow> 'a fs_state_scheme \<Rightarrow> (u8 list \<times> open_file \<times> 'a fs_state_scheme) option" where
  "file_read f sz s = do {
     (bs, s) \<leftarrow> inode_read_at (f_inode f) sz (f_pos f) s;
     Some (bs, f\<lparr>f_pos := f_pos f + int (length bs)\<rparr>, s) }"

definition file_read_at :: "open_file \<Rightarrow> int \<Rightarrow> int \<Rightarrow> 'a fs_state_scheme \<Rightarrow> (u8 list \<times> 'a fs_state_scheme) option" where
  "file_read_at f sz file_ofs s = inode_read_at (f_inode f) sz file_ofs s"

definition file_write :: "open_file \<Rightarrow> u8 list \<Rightarrow> 'a fs_state_scheme \<Rightarrow> (int \<times> open_file \<times> 'a fs_state_scheme) option" where
  "file_write f buffer s = do {
     (n, s) \<leftarrow> inode_write_at (f_inode f) buffer (f_pos f) s;
     Some (n, f\<lparr>f_pos := f_pos f + n\<rparr>, s) }"

definition file_write_at :: "open_file \<Rightarrow> u8 list \<Rightarrow> int \<Rightarrow> 'a fs_state_scheme \<Rightarrow> (int \<times> 'a fs_state_scheme) option" where
  "file_write_at f buffer file_ofs s = inode_write_at (f_inode f) buffer file_ofs s"

definition file_length :: "open_file \<Rightarrow> 'a fs_state_scheme \<Rightarrow> int option" where
  "file_length f s = inode_length (f_inode f) s"

definition file_seek :: "open_file \<Rightarrow> int \<Rightarrow> open_file option" where
  "file_seek f new_pos = do { ASSERT (new_pos \<ge> 0); Some (f\<lparr>f_pos := new_pos\<rparr>) }"

definition file_tell :: "open_file \<Rightarrow> int" where
  "file_tell f = f_pos f"

definition file_get_inode :: "open_file \<Rightarrow> nat" where
  "file_get_inode f = f_inode f"

section \<open>Bitmaps in files\<close>

definition bytes_of_elems :: "u32 list \<Rightarrow> u8 list" where
  "bytes_of_elems es = concat (map (\<lambda>e. map (\<lambda>k. le_byte k e) [0..<4]) es)"

fun elems_of_bytes :: "u8 list \<Rightarrow> u32 list" where
  "elems_of_bytes (a # b # c # d # bs) = le_word a b c d # elems_of_bytes bs"
| "elems_of_bytes bs = []"

definition bitmap_file_size :: "bitmap \<Rightarrow> nat" where
  "bitmap_file_size b = byte_cnt (bit_cnt b)"

definition bitmap_read :: "bitmap \<Rightarrow> open_file \<Rightarrow> 'a fs_state_scheme \<Rightarrow> (bool \<times> bitmap \<times> 'a fs_state_scheme) option" where
  "bitmap_read b f s =
     (if bit_cnt b > 0 then do {
        let sz = int (byte_cnt (bit_cnt b));
        (bs, s) \<leftarrow> file_read_at f sz 0 s;
        let b = b\<lparr>bits := elems_of_bytes (bs @ drop (length bs) (bytes_of_elems (bits b)))\<rparr>;
        b \<leftarrow> upd_elem b (elem_cnt (bit_cnt b) - 1) (\<lambda>e. e AND last_mask b);
        Some (int (length bs) = sz, b, s) }
      else Some (True, b, s))"

definition bitmap_write :: "bitmap \<Rightarrow> open_file \<Rightarrow> 'a fs_state_scheme \<Rightarrow> (bool \<times> 'a fs_state_scheme) option" where
  "bitmap_write b f s = do {
     let sz = byte_cnt (bit_cnt b);
     (n, s) \<leftarrow> file_write_at f (take sz (bytes_of_elems (bits b))) 0 s;
     Some (n = int sz, s) }"

definition bitmap_dump :: "bitmap \<Rightarrow> string option" where
  "bitmap_dump b = hex_dump 0 (take (byte_cnt (bit_cnt b)) (bytes_of_elems (bits b))) False"

section \<open>The free map\<close>

text \<open>\<open>storage\<close> is the memory the allocator hands out for the bits.\<close>

definition free_map_init :: "u32 list option \<Rightarrow> 'a fs_state_scheme \<Rightarrow> 'a fs_state_scheme option" where
  "free_map_init storage s = do {
     dev \<leftarrow> fs_device s;
     n \<leftarrow> get_block_size dev s;
     let (ok, s) = ask_malloc s;
     b \<leftarrow> bitmap_create ok storage n;
     b \<leftarrow> b;
     b \<leftarrow> bitmap_mark b FREE_MAP_SECTOR;
     b \<leftarrow> bitmap_mark b ROOT_DIR_SECTOR;
     Some (s\<lparr>free_map := Some b\<rparr>) }"

text \<open>The result is the sector, which the code stores in \<open>*sectorp\<close> on success.\<close>

definition free_map_allocate :: "nat \<Rightarrow> 'a fs_state_scheme \<Rightarrow> (nat option \<times> 'a fs_state_scheme) option" where
  "free_map_allocate cnt s = do {
     b \<leftarrow> free_map s;
     (sector, b) \<leftarrow> bitmap_scan_and_flip b 0 cnt False;
     let s = s\<lparr>free_map := Some b\<rparr>;
     if sector = BITMAP_ERROR then Some (None, s)
     else (case free_map_file s of
         None \<Rightarrow> Some (Some sector, s)
       | Some f \<Rightarrow> do {
           (success, s) \<leftarrow> bitmap_write b f s;
           if success then Some (Some sector, s)
           else do {
             b \<leftarrow> bitmap_set_multiple b sector cnt False;
             Some (None, s\<lparr>free_map := Some b\<rparr>) } }) }"

definition free_map_release :: "nat \<Rightarrow> nat \<Rightarrow> 'a fs_state_scheme \<Rightarrow> 'a fs_state_scheme option" where
  "free_map_release sector cnt s = do {
     b \<leftarrow> free_map s;
     all_set \<leftarrow> bitmap_all b sector cnt;
     ASSERT all_set;
     b \<leftarrow> bitmap_set_multiple b sector cnt False;
     f \<leftarrow> free_map_file s;
     (_, s) \<leftarrow> bitmap_write b f (s\<lparr>free_map := Some b\<rparr>);
     Some s }"

section \<open>Creating, opening and closing inodes\<close>

definition inode_init :: "'a fs_state_scheme \<Rightarrow> 'a fs_state_scheme" where
  "inode_init s = s\<lparr>open_inodes := []\<rparr>"

fun zero_loop :: "nat \<Rightarrow> nat \<Rightarrow> nat \<Rightarrow> 'a fs_state_scheme \<Rightarrow> 'a fs_state_scheme option" where
  "zero_loop start i 0 s = Some s"
| "zero_loop start i (Suc n) s = do {
     s \<leftarrow> fs_write (add32 start i) (replicate BLOCK_SECTOR_SIZE 0) s;
     zero_loop start (i + 1) n s }"

definition inode_create :: "nat \<Rightarrow> int \<Rightarrow> 'a fs_state_scheme \<Rightarrow> (bool \<times> 'a fs_state_scheme) option" where
  "inode_create sector len s = do {
     ASSERT (len \<ge> 0);
     let (ok, s) = ask_malloc s;
     if \<not> ok then Some (False, s)
     else do {
       sectors \<leftarrow> bytes_to_sectors len;
       (start, s) \<leftarrow> free_map_allocate sectors s;
       (case start of
          None \<Rightarrow> Some (False, s)
        | Some start \<Rightarrow> do {
            s \<leftarrow> fs_write sector (put_inode_disk \<lparr>id_start = start, id_length = len, id_magic = INODE_MAGIC,
                    id_unused = replicate 500 0\<rparr>) s;
            s \<leftarrow> zero_loop start 0 sectors s;
            Some (True, s) }) } }"

definition inode_reopen :: "nat option \<Rightarrow> 'a fs_state_scheme \<Rightarrow> (nat option \<times> 'a fs_state_scheme) option" where
  "inode_reopen ino s = (case ino of
     None \<Rightarrow> Some (None, s)
   | Some a \<Rightarrow> do {
       inode \<leftarrow> inodes s a;
       Some (Some a, s\<lparr>inodes := (inodes s)(a \<mapsto> inode\<lparr>open_cnt := open_cnt inode + 1\<rparr>)\<rparr>) })"

fun find_open :: "nat \<Rightarrow> nat list \<Rightarrow> 'a fs_state_scheme \<Rightarrow> nat option option" where
  "find_open sector [] s = Some None"
| "find_open sector (a # as) s = do {
     inode \<leftarrow> inodes s a;
     if i_sector inode = sector then Some (Some a) else find_open sector as s }"

definition inode_open :: "nat \<Rightarrow> 'a fs_state_scheme \<Rightarrow> (nat option \<times> 'a fs_state_scheme) option" where
  "inode_open sector s = do {
     found \<leftarrow> find_open sector (open_inodes s) s;
     (case found of
        Some a \<Rightarrow> inode_reopen (Some a) s
      | None \<Rightarrow>
          let (ok, s) = ask_malloc s in
          if \<not> ok then Some (None, s)
          else do {
            let a = next_inode s;
            let s = s\<lparr>open_inodes := a # open_inodes s, next_inode := a + 1\<rparr>;
            (buffer, s) \<leftarrow> fs_read sector s;
            Some (Some a, s\<lparr>inodes := (inodes s)(a \<mapsto> \<lparr>i_sector = sector, open_cnt = 1, i_removed = False,
              deny_write_cnt = 0, i_data = get_inode_disk buffer\<rparr>)\<rparr>) }) }"

definition inode_close :: "nat option \<Rightarrow> 'a fs_state_scheme \<Rightarrow> 'a fs_state_scheme option" where
  "inode_close ino s = (case ino of
     None \<Rightarrow> Some s
   | Some a \<Rightarrow> do {
       inode \<leftarrow> inodes s a;
       let s = s\<lparr>inodes := (inodes s)(a \<mapsto> inode\<lparr>open_cnt := open_cnt inode - 1\<rparr>)\<rparr>;
       if open_cnt inode - 1 = 0 then do {
         let s = s\<lparr>open_inodes := remove1 a (open_inodes s)\<rparr>;
         s \<leftarrow> (if i_removed inode then do {
             s \<leftarrow> free_map_release (i_sector inode) 1 s;
             sectors \<leftarrow> bytes_to_sectors (id_length (i_data inode));
             free_map_release (id_start (i_data inode)) sectors s }
           else Some s);
         Some (s\<lparr>inodes := (inodes s)(a := None)\<rparr>) }
       else Some s })"

definition upd_inode :: "nat \<Rightarrow> (inode \<Rightarrow> inode) \<Rightarrow> 'a fs_state_scheme \<Rightarrow> 'a fs_state_scheme option" where
  "upd_inode a f s = do { inode \<leftarrow> inodes s a; Some (s\<lparr>inodes := (inodes s)(a \<mapsto> f inode)\<rparr>) }"

definition inode_remove :: "nat \<Rightarrow> 'a fs_state_scheme \<Rightarrow> 'a fs_state_scheme option" where
  "inode_remove a s = upd_inode a (\<lambda>i. i\<lparr>i_removed := True\<rparr>) s"

definition inode_deny_write :: "nat \<Rightarrow> 'a fs_state_scheme \<Rightarrow> 'a fs_state_scheme option" where
  "inode_deny_write a s = do {
     s \<leftarrow> upd_inode a (\<lambda>i. i\<lparr>deny_write_cnt := deny_write_cnt i + 1\<rparr>) s;
     inode \<leftarrow> inodes s a;
     ASSERT (deny_write_cnt inode \<le> open_cnt inode);
     Some s }"

definition inode_allow_write :: "nat \<Rightarrow> 'a fs_state_scheme \<Rightarrow> 'a fs_state_scheme option" where
  "inode_allow_write a s = do {
     inode \<leftarrow> inodes s a;
     ASSERT (deny_write_cnt inode > 0);
     ASSERT (deny_write_cnt inode \<le> open_cnt inode);
     upd_inode a (\<lambda>i. i\<lparr>deny_write_cnt := deny_write_cnt i - 1\<rparr>) s }"

section \<open>Opening and closing files\<close>

definition file_open :: "nat option \<Rightarrow> 'a fs_state_scheme \<Rightarrow> (open_file option \<times> 'a fs_state_scheme) option" where
  "file_open ino s =
     (let (ok, s) = ask_malloc s in
      case ino of
        Some a \<Rightarrow>
          if ok then Some (Some \<lparr>f_inode = a, f_pos = 0, f_deny_write = False\<rparr>, s)
          else map_option (Pair None) (inode_close ino s)
      | None \<Rightarrow> map_option (Pair None) (inode_close ino s))"

definition file_reopen :: "open_file \<Rightarrow> 'a fs_state_scheme \<Rightarrow> (open_file option \<times> 'a fs_state_scheme) option" where
  "file_reopen f s = do {
     (ino, s) \<leftarrow> inode_reopen (Some (f_inode f)) s;
     file_open ino s }"

definition file_deny_write :: "open_file \<Rightarrow> 'a fs_state_scheme \<Rightarrow> (open_file \<times> 'a fs_state_scheme) option" where
  "file_deny_write f s =
     (if \<not> f_deny_write f
      then map_option (Pair (f\<lparr>f_deny_write := True\<rparr>)) (inode_deny_write (f_inode f) s)
      else Some (f, s))"

definition file_allow_write :: "open_file \<Rightarrow> 'a fs_state_scheme \<Rightarrow> (open_file \<times> 'a fs_state_scheme) option" where
  "file_allow_write f s =
     (if f_deny_write f
      then map_option (Pair (f\<lparr>f_deny_write := False\<rparr>)) (inode_allow_write (f_inode f) s)
      else Some (f, s))"

definition file_close :: "open_file option \<Rightarrow> 'a fs_state_scheme \<Rightarrow> 'a fs_state_scheme option" where
  "file_close f s = (case f of
     None \<Rightarrow> Some s
   | Some f \<Rightarrow> do {
       (f, s) \<leftarrow> file_allow_write f s;
       inode_close (Some (f_inode f)) s })"

section \<open>The free map file\<close>

definition free_map_open :: "'a fs_state_scheme \<Rightarrow> 'a fs_state_scheme option" where
  "free_map_open s = do {
     (ino, s) \<leftarrow> inode_open FREE_MAP_SECTOR s;
     (f, s) \<leftarrow> file_open ino s;
     let s = s\<lparr>free_map_file := f\<rparr>;
     f \<leftarrow> f;
     b \<leftarrow> free_map s;
     (success, b, s) \<leftarrow> bitmap_read b f s;
     ASSERT success;
     Some (s\<lparr>free_map := Some b\<rparr>) }"

definition free_map_close :: "'a fs_state_scheme \<Rightarrow> 'a fs_state_scheme option" where
  "free_map_close s = file_close (free_map_file s) s"

definition free_map_create :: "'a fs_state_scheme \<Rightarrow> 'a fs_state_scheme option" where
  "free_map_create s = do {
     b \<leftarrow> free_map s;
     (success, s) \<leftarrow> inode_create FREE_MAP_SECTOR (int (bitmap_file_size b)) s;
     ASSERT success;
     (ino, s) \<leftarrow> inode_open FREE_MAP_SECTOR s;
     (f, s) \<leftarrow> file_open ino s;
     let s = s\<lparr>free_map_file := f\<rparr>;
     f \<leftarrow> f;
     b \<leftarrow> free_map s;
     (success, s) \<leftarrow> bitmap_write b f s;
     ASSERT success;
     Some s }"

end
