(* ===== verification/Kernel_Ustar.thy ===== *)
theory Kernel_Ustar
  imports Kernel_Block
begin

text \<open>
  The headers of tar archives, \<open>lib/ustar.c\<close>. A header is the list of its 512 bytes, with the
  fields of \<open>struct ustar_header\<close> at their offsets; a C string is the list of the bytes in front of
  its terminator.
\<close>

definition USTAR_HEADER_SIZE :: nat where "USTAR_HEADER_SIZE = 512"

datatype ustar_type = USTAR_REGULAR | USTAR_DIRECTORY | USTAR_EOF

text \<open>The byte of a type in the archive.\<close>

fun type_byte :: "ustar_type \<Rightarrow> u8" where
  "type_byte USTAR_REGULAR = 48"
| "type_byte USTAR_DIRECTORY = 53"
| "type_byte USTAR_EOF = - 1"

section \<open>Fields\<close>

text \<open>Offset and size of the fields.\<close>

definition fld_name :: "nat \<times> nat" where "fld_name = (0, 100)"
definition fld_mode :: "nat \<times> nat" where "fld_mode = (100, 8)"
definition fld_uid :: "nat \<times> nat" where "fld_uid = (108, 8)"
definition fld_gid :: "nat \<times> nat" where "fld_gid = (116, 8)"
definition fld_size :: "nat \<times> nat" where "fld_size = (124, 12)"
definition fld_mtime :: "nat \<times> nat" where "fld_mtime = (136, 12)"
definition fld_chksum :: "nat \<times> nat" where "fld_chksum = (148, 8)"
definition fld_typeflag :: "nat \<times> nat" where "fld_typeflag = (156, 1)"
definition fld_magic :: "nat \<times> nat" where "fld_magic = (257, 6)"
definition fld_version :: "nat \<times> nat" where "fld_version = (263, 2)"
definition fld_uname :: "nat \<times> nat" where "fld_uname = (265, 32)"
definition fld_gname :: "nat \<times> nat" where "fld_gname = (297, 32)"
definition fld_prefix :: "nat \<times> nat" where "fld_prefix = (345, 155)"

definition get_field :: "u8 list \<Rightarrow> nat \<times> nat \<Rightarrow> u8 list" where
  "get_field h f = take (snd f) (drop (fst f) h)"

text \<open>Bytes stored from the start of a field on; the rest of the field is kept.\<close>

definition put_field :: "u8 list \<Rightarrow> nat \<times> nat \<Rightarrow> u8 list \<Rightarrow> u8 list" where
  "put_field h f bs = take (fst f) h @ bs @ drop (fst f + length bs) h"

definition bytes_of :: "string \<Rightarrow> u8 list" where
  "bytes_of cs = map of_char cs"

definition chars_of :: "u8 list \<Rightarrow> string" where
  "chars_of bs = map (\<lambda>b. char_of (unat b)) bs"

text \<open>\<open>strlcpy\<close> and \<open>snprintf\<close> into a field.\<close>

definition put_string :: "u8 list \<Rightarrow> nat \<times> nat \<Rightarrow> u8 list \<Rightarrow> u8 list" where
  "put_string h f src = put_field h f (take (snd f - 1) src @ [0])"

definition put_printf :: "u8 list \<Rightarrow> nat \<times> nat \<Rightarrow> string \<Rightarrow> arg list \<Rightarrow> u8 list option" where
  "put_printf h f format args = do {
     out \<leftarrow> string_printf (snd f) format args;
     Some (put_field h f (bytes_of out @ [0])) }"

section \<open>Checksums and names\<close>

definition calculate_chksum :: "u8 list \<Rightarrow> u32" where
  "calculate_chksum h = fold (\<lambda>i chksum. chksum +
     (if fst fld_chksum \<le> i \<and> i < fst fld_chksum + snd fld_chksum then 32 else ucast (h ! i)))
     [0..<USTAR_HEADER_SIZE] 0"

definition has_prefix :: "u8 list \<Rightarrow> string \<Rightarrow> bool" where
  "has_prefix name p \<longleftrightarrow> take (length p) name = bytes_of p"

lemma dropWhile_shorter: "xs \<noteq> [] \<Longrightarrow> length (tl (dropWhile P xs)) < length xs"
  by (metis length_dropWhile_le length_greater_0_conv length_tl diff_less le_less_trans less_numeral_extra(1)
      diff_le_self order_less_le_trans not_less)

function strip_prefixes :: "u8 list \<Rightarrow> u8 list" where
  "strip_prefixes name =
     (if name \<noteq> [] \<and> (has_prefix name ''/'' \<or> has_prefix name ''./'' \<or> has_prefix name ''../'')
      then strip_prefixes (tl (dropWhile (\<lambda>b. b \<noteq> 47) name)) else name)"
  by pat_completeness auto
termination
  by (relation "measure length") (auto intro: dropWhile_shorter simp del: length_tl)

declare strip_prefixes.simps [simp del]

definition strip_antisocial_prefixes :: "u8 list \<Rightarrow> u8 list" where
  "strip_antisocial_prefixes name =
     (let name = strip_prefixes name
      in if name = [] \<or> name = bytes_of ''..'' then bytes_of ''.'' else name)"

section \<open>Making a header\<close>

definition ustar_make_header ::
    "u8 list \<Rightarrow> ustar_type \<Rightarrow> int \<Rightarrow> 'a block_state_scheme \<Rightarrow> (u8 list option \<times> 'a block_state_scheme) option" where
  "ustar_make_header name type sz s = do {
     ASSERT (type = USTAR_REGULAR \<or> type = USTAR_DIRECTORY);
     let name = strip_antisocial_prefixes name;
     if length name > 99 then do {
       s \<leftarrow> kprintf (''%s: file name too long'' @ newline) [ArgString (Some (chars_of name))] s;
       Some (None, s) }
     else do {
       let h = replicate USTAR_HEADER_SIZE 0;
       let h = put_string h fld_name name;
       h \<leftarrow> put_printf h fld_mode ''%07o'' [Arg32 (if type = USTAR_REGULAR then 420 else 493)];
       let h = put_string h fld_uid (bytes_of ''0000000'');
       let h = put_string h fld_gid (bytes_of ''0000000'');
       h \<leftarrow> put_printf h fld_size ''%011o'' [Arg32 (of_int sz)];
       h \<leftarrow> put_printf h fld_mtime ''%011o'' [Arg32 1136102400];
       let h = put_field h fld_typeflag [type_byte type];
       let h = put_string h fld_magic (bytes_of ''ustar'');
       let h = put_field h fld_version (bytes_of ''00'');
       let h = put_string h fld_gname (bytes_of ''root'');
       let h = put_string h fld_uname (bytes_of ''root'');
       h \<leftarrow> put_printf h fld_chksum ''%07o'' [Arg32 (calculate_chksum h)];
       Some (Some h, s) } }"

section \<open>Parsing a header\<close>

fun octal_loop :: "u8 list \<Rightarrow> nat \<Rightarrow> u32 \<Rightarrow> u32 option" where
  "octal_loop [] ofs v = None"
| "octal_loop (c # cs) ofs v =
     (if 48 \<le> c \<and> c \<le> 55 then
        (if v > 0xffffffff div 8 then None else octal_loop cs (ofs + 1) (ucast c - 48 + v * 8))
      else if c = 32 \<or> c = 0 then (if ofs > 0 then Some v else None)
      else None)"

definition parse_octal_field :: "u8 list \<Rightarrow> u32 option" where
  "parse_octal_field field = octal_loop field 0 0"

definition is_all_zeros :: "u8 list \<Rightarrow> bool" where
  "is_all_zeros bs \<longleftrightarrow> list_all (\<lambda>b. b = 0) bs"

definition ustar_parse_header :: "u8 list \<Rightarrow> string + u8 list option \<times> ustar_type \<times> int" where
  "ustar_parse_header h =
     (if is_all_zeros (take USTAR_HEADER_SIZE h) then Inr (None, USTAR_EOF, 0)
      else if get_field h fld_magic \<noteq> bytes_of ''ustar'' @ [0] then Inl ''not a ustar archive''
      else if get_field h fld_version \<noteq> bytes_of ''00'' then Inl ''invalid ustar version''
      else case parse_octal_field (get_field h fld_chksum) of
        None \<Rightarrow> Inl ''corrupt chksum field''
      | Some chksum \<Rightarrow>
        if chksum \<noteq> calculate_chksum h then Inl ''checksum mismatch''
        else if h ! 99 \<noteq> 0 \<or> h ! fst fld_prefix \<noteq> 0 then Inl ''file name too long''
        else if h ! fst fld_typeflag \<noteq> type_byte USTAR_REGULAR \<and> h ! fst fld_typeflag \<noteq> type_byte USTAR_DIRECTORY
        then Inl ''unimplemented file type''
        else let name = Some (strip_antisocial_prefixes (takeWhile (\<lambda>b. b \<noteq> 0) (get_field h fld_name)))
          in if h ! fst fld_typeflag = type_byte USTAR_REGULAR then
            (case parse_octal_field (get_field h fld_size) of
               None \<Rightarrow> Inl ''corrupt file size field''
             | Some sz \<Rightarrow> if sz > 0x7fffffff then Inl ''file too large''
                 else Inr (name, USTAR_REGULAR, uint sz))
          else Inr (name, USTAR_DIRECTORY, 0))"

end
