(* ===== verification/Kernel_Filesys.thy ===== *)
theory Kernel_Filesys
  imports Kernel_Inode Kernel_Ustar
begin

text \<open>
  Directories, the interface of the file system, and the shell's file utilities:
  \<open>filesys/directory.c\<close>, \<open>filesys/filesys.c\<close>, \<open>filesys/fsutil.c\<close>. A \<open>struct dir\<close> is a value of
  its owner, a directory entry the list of its 20 bytes, a file name the list of the bytes in front
  of its terminator. An entry whose name has no terminator makes \<open>strcmp\<close> and \<open>strlcpy\<close> run behind
  the entry, \<^const>\<open>None\<close>. The entry on the stack of \<open>dir_add\<close> starts as zeros; the code leaves
  it uninitialised.
\<close>

section \<open>Directory entries\<close>

definition NAME_MAX :: nat where "NAME_MAX = 14"
definition DIR_ENTRY_SIZE :: nat where "DIR_ENTRY_SIZE = 20"

record dir =
  d_inode :: nat
  d_pos :: int

definition e_inode_sector :: "u8 list \<Rightarrow> nat" where "e_inode_sector e = get32 e 0"
definition e_name :: "u8 list \<Rightarrow> u8 list" where "e_name e = take (NAME_MAX + 1) (drop 4 e)"
definition e_in_use :: "u8 list \<Rightarrow> bool" where "e_in_use e \<longleftrightarrow> e ! 19 \<noteq> 0"

definition set_in_use :: "bool \<Rightarrow> u8 list \<Rightarrow> u8 list" where
  "set_in_use v e = e[19 := (if v then 1 else 0)]"

definition set_name :: "u8 list \<Rightarrow> u8 list \<Rightarrow> u8 list" where
  "set_name name e = take 4 e @ take NAME_MAX name @ [0] @ drop (4 + length (take NAME_MAX name) + 1) e"

definition set_inode_sector :: "nat \<Rightarrow> u8 list \<Rightarrow> u8 list" where
  "set_inode_sector sector e = put32 sector @ drop 4 e"

text \<open>The string in a name field, and \<open>strcmp\<close> with it.\<close>

definition field_string :: "u8 list \<Rightarrow> u8 list option" where
  "field_string bs = (if 0 \<in> set bs then Some (takeWhile (\<lambda>b. b \<noteq> 0) bs) else None)"

definition name_equal :: "u8 list \<Rightarrow> u8 list \<Rightarrow> bool option" where
  "name_equal name bs =
     (if 0 \<in> set bs then Some (name = takeWhile (\<lambda>b. b \<noteq> 0) bs)
      else if take (length bs) name = bs then None else Some False)"

section \<open>Directories\<close>

definition dir_create :: "nat \<Rightarrow> nat \<Rightarrow> 'a fs_state_scheme \<Rightarrow> (bool \<times> 'a fs_state_scheme) option" where
  "dir_create sector entry_cnt s = inode_create sector (signed32 (entry_cnt * DIR_ENTRY_SIZE mod 2 ^ 32)) s"

definition dir_open :: "nat option \<Rightarrow> 'a fs_state_scheme \<Rightarrow> (dir option \<times> 'a fs_state_scheme) option" where
  "dir_open ino s =
     (let (ok, s) = ask_malloc s in
      case ino of
        Some a \<Rightarrow>
          if ok then Some (Some \<lparr>d_inode = a, d_pos = 0\<rparr>, s)
          else map_option (Pair None) (inode_close ino s)
      | None \<Rightarrow> map_option (Pair None) (inode_close ino s))"

definition dir_open_root :: "'a fs_state_scheme \<Rightarrow> (dir option \<times> 'a fs_state_scheme) option" where
  "dir_open_root s = do { (ino, s) \<leftarrow> inode_open ROOT_DIR_SECTOR s; dir_open ino s }"

definition dir_reopen :: "dir \<Rightarrow> 'a fs_state_scheme \<Rightarrow> (dir option \<times> 'a fs_state_scheme) option" where
  "dir_reopen d s = do { (ino, s) \<leftarrow> inode_reopen (Some (d_inode d)) s; dir_open ino s }"

definition dir_close :: "dir option \<Rightarrow> 'a fs_state_scheme \<Rightarrow> 'a fs_state_scheme option" where
  "dir_close d s = (case d of None \<Rightarrow> Some s | Some d \<Rightarrow> inode_close (Some (d_inode d)) s)"

definition dir_get_inode :: "dir \<Rightarrow> nat" where
  "dir_get_inode d = d_inode d"

text \<open>The entry that is read and its offset, if there is one.\<close>

partial_function (option) lookup_loop ::
    "nat \<Rightarrow> u8 list \<Rightarrow> int \<Rightarrow> 'a fs_state_scheme \<Rightarrow> ((u8 list \<times> int) option \<times> 'a fs_state_scheme) option" where
  "lookup_loop ino name ofs s = do {
     (e, s) \<leftarrow> inode_read_at ino (int DIR_ENTRY_SIZE) ofs s;
     if length e \<noteq> DIR_ENTRY_SIZE then Some (None, s)
     else do {
       found \<leftarrow> (if e_in_use e then name_equal name (e_name e) else Some False);
       if found then Some (Some (e, ofs), s)
       else lookup_loop ino name (ofs + int DIR_ENTRY_SIZE) s } }"

definition lookup :: "dir \<Rightarrow> u8 list \<Rightarrow> 'a fs_state_scheme \<Rightarrow> ((u8 list \<times> int) option \<times> 'a fs_state_scheme) option" where
  "lookup d name s = lookup_loop (d_inode d) name 0 s"

definition dir_lookup :: "dir \<Rightarrow> u8 list \<Rightarrow> 'a fs_state_scheme \<Rightarrow> (nat option \<times> 'a fs_state_scheme) option" where
  "dir_lookup d name s = do {
     (r, s) \<leftarrow> lookup d name s;
     (case r of
        Some (e, _) \<Rightarrow> inode_open (e_inode_sector e) s
      | None \<Rightarrow> Some (None, s)) }"

partial_function (option) free_slot_loop ::
    "nat \<Rightarrow> u8 list \<Rightarrow> int \<Rightarrow> 'a fs_state_scheme \<Rightarrow> (u8 list \<times> int \<times> 'a fs_state_scheme) option" where
  "free_slot_loop ino e ofs s = do {
     (bs, s) \<leftarrow> inode_read_at ino (int DIR_ENTRY_SIZE) ofs s;
     let e = bs @ drop (length bs) e;
     if length bs \<noteq> DIR_ENTRY_SIZE \<or> \<not> e_in_use e then Some (e, ofs, s)
     else free_slot_loop ino e (ofs + int DIR_ENTRY_SIZE) s }"

definition dir_add :: "dir \<Rightarrow> u8 list \<Rightarrow> nat \<Rightarrow> 'a fs_state_scheme \<Rightarrow> (bool \<times> 'a fs_state_scheme) option" where
  "dir_add d name inode_sector s =
     (if name = [] \<or> length name > NAME_MAX then Some (False, s)
      else do {
        (r, s) \<leftarrow> lookup d name s;
        if r \<noteq> None then Some (False, s)
        else do {
          (e, ofs, s) \<leftarrow> free_slot_loop (d_inode d) (replicate DIR_ENTRY_SIZE 0) 0 s;
          let e = set_inode_sector inode_sector (set_name name (set_in_use True e));
          (n, s) \<leftarrow> inode_write_at (d_inode d) e ofs s;
          Some (n = int DIR_ENTRY_SIZE, s) } })"

definition dir_remove :: "dir \<Rightarrow> u8 list \<Rightarrow> 'a fs_state_scheme \<Rightarrow> (bool \<times> 'a fs_state_scheme) option" where
  "dir_remove d name s = do {
     (r, s) \<leftarrow> lookup d name s;
     (case r of
        None \<Rightarrow> do { s \<leftarrow> inode_close None s; Some (False, s) }
      | Some (e, ofs) \<Rightarrow> do {
          (ino, s) \<leftarrow> inode_open (e_inode_sector e) s;
          (case ino of
             None \<Rightarrow> do { s \<leftarrow> inode_close None s; Some (False, s) }
           | Some a \<Rightarrow> do {
               (n, s) \<leftarrow> inode_write_at (d_inode d) (set_in_use False e) ofs s;
               if n \<noteq> int DIR_ENTRY_SIZE then do { s \<leftarrow> inode_close ino s; Some (False, s) }
               else do {
                 s \<leftarrow> inode_remove a s;
                 s \<leftarrow> inode_close ino s;
                 Some (True, s) } }) }) }"

partial_function (option) dir_readdir :: "dir \<Rightarrow> 'a fs_state_scheme \<Rightarrow> (u8 list option \<times> dir \<times> 'a fs_state_scheme) option" where
  "dir_readdir d s = do {
     (e, s) \<leftarrow> inode_read_at (d_inode d) (int DIR_ENTRY_SIZE) (d_pos d) s;
     if length e \<noteq> DIR_ENTRY_SIZE then Some (None, d, s)
     else do {
       let d = d\<lparr>d_pos := d_pos d + int DIR_ENTRY_SIZE\<rparr>;
       if e_in_use e then do {
         name \<leftarrow> field_string (e_name e);
         Some (Some (take NAME_MAX name), d, s) }
       else dir_readdir d s } }"

section \<open>The file system\<close>

definition do_format :: "'a fs_state_scheme \<Rightarrow> 'a fs_state_scheme option" where
  "do_format s = do {
     s \<leftarrow> kprintf ''Formatting file system...'' [] s;
     s \<leftarrow> free_map_create s;
     (success, s) \<leftarrow> dir_create ROOT_DIR_SECTOR 16 s;
     ASSERT success;
     s \<leftarrow> free_map_close s;
     kprintf (''done.'' @ newline) [] s }"

definition filesys_init :: "u32 list option \<Rightarrow> bool \<Rightarrow> 'a fs_state_scheme \<Rightarrow> 'a fs_state_scheme option" where
  "filesys_init storage format s = do {
     dev \<leftarrow> block_get_role BLOCK_FILESYS s;
     let s = s\<lparr>fs_device := dev\<rparr>;
     ASSERT (dev \<noteq> None);
     let s = inode_init s;
     s \<leftarrow> free_map_init storage s;
     s \<leftarrow> (if format then do_format s else Some s);
     free_map_open s }"

definition filesys_done :: "'a fs_state_scheme \<Rightarrow> 'a fs_state_scheme option" where
  "filesys_done s = free_map_close s"

text \<open>The local \<open>inode_sector\<close> is 0 until a sector has been allocated.\<close>

definition filesys_create :: "u8 list \<Rightarrow> int \<Rightarrow> 'a fs_state_scheme \<Rightarrow> (bool \<times> 'a fs_state_scheme) option" where
  "filesys_create name initial_size s = do {
     (d, s) \<leftarrow> dir_open_root s;
     (success, inode_sector, s) \<leftarrow> (case d of
        None \<Rightarrow> Some (False, 0, s)
      | Some dir \<Rightarrow> do {
          (sector, s) \<leftarrow> free_map_allocate 1 s;
          (case sector of
             None \<Rightarrow> Some (False, 0, s)
           | Some sector \<Rightarrow> do {
               (created, s) \<leftarrow> inode_create sector initial_size s;
               if \<not> created then Some (False, sector, s)
               else do {
                 (added, s) \<leftarrow> dir_add dir name sector s;
                 Some (added, sector, s) } }) });
     s \<leftarrow> (if \<not> success \<and> inode_sector \<noteq> 0 then free_map_release inode_sector 1 s else Some s);
     s \<leftarrow> dir_close d s;
     Some (success, s) }"

definition filesys_open :: "u8 list \<Rightarrow> 'a fs_state_scheme \<Rightarrow> (open_file option \<times> 'a fs_state_scheme) option" where
  "filesys_open name s = do {
     (d, s) \<leftarrow> dir_open_root s;
     (ino, s) \<leftarrow> (case d of None \<Rightarrow> Some (None, s) | Some dir \<Rightarrow> dir_lookup dir name s);
     s \<leftarrow> dir_close d s;
     file_open ino s }"

definition filesys_remove :: "u8 list \<Rightarrow> 'a fs_state_scheme \<Rightarrow> (bool \<times> 'a fs_state_scheme) option" where
  "filesys_remove name s = do {
     (d, s) \<leftarrow> dir_open_root s;
     (success, s) \<leftarrow> (case d of None \<Rightarrow> Some (False, s) | Some dir \<Rightarrow> dir_remove dir name s);
     s \<leftarrow> dir_close d s;
     Some (success, s) }"

section \<open>File utilities\<close>

definition arg_string :: "u8 list \<Rightarrow> arg" where
  "arg_string name = ArgString (Some (chars_of name))"

definition say :: "string \<Rightarrow> 'a fs_state_scheme \<Rightarrow> 'a fs_state_scheme" where
  "say out s = s\<lparr>console := console s @ out\<rparr>"

partial_function (option) ls_loop :: "dir \<Rightarrow> 'a fs_state_scheme \<Rightarrow> (dir \<times> 'a fs_state_scheme) option" where
  "ls_loop d s = do {
     (name, d, s) \<leftarrow> dir_readdir d s;
     (case name of
        None \<Rightarrow> Some (d, s)
      | Some name \<Rightarrow> do {
          s \<leftarrow> kprintf (''%s'' @ newline) [arg_string name] s;
          ls_loop d s }) }"

definition fsutil_ls :: "'a fs_state_scheme \<Rightarrow> 'a fs_state_scheme option" where
  "fsutil_ls s = do {
     s \<leftarrow> kprintf (''Files in the root directory:'' @ newline) [] s;
     (d, s) \<leftarrow> dir_open_root s;
     d \<leftarrow> d;
     (d, s) \<leftarrow> ls_loop d s;
     s \<leftarrow> dir_close (Some d) s;
     kprintf (''End of listing.'' @ newline) [] s }"

partial_function (option) cat_loop :: "open_file \<Rightarrow> 'a fs_state_scheme \<Rightarrow> (open_file \<times> 'a fs_state_scheme) option" where
  "cat_loop f s = do {
     let pos = file_tell f;
     (buffer, f, s) \<leftarrow> file_read f (int PGSIZE) s;
     if buffer = [] then Some (f, s)
     else do {
       out \<leftarrow> hex_dump (of_int pos) buffer True;
       cat_loop f (say out s) } }"

definition fsutil_cat :: "u8 list \<Rightarrow> 'a fs_state_scheme \<Rightarrow> 'a fs_state_scheme option" where
  "fsutil_cat name s = do {
     s \<leftarrow> kprintf (''Printing '' @ [CHR 0x27] @ ''%s'' @ [CHR 0x27] @ '' to the console...'' @ newline) [arg_string name] s;
     (f, s) \<leftarrow> filesys_open name s;
     f \<leftarrow> f;
     (f, s) \<leftarrow> cat_loop f s;
     file_close (Some f) s }"

definition fsutil_rm :: "u8 list \<Rightarrow> 'a fs_state_scheme \<Rightarrow> 'a fs_state_scheme option" where
  "fsutil_rm name s = do {
     s \<leftarrow> kprintf (''Deleting '' @ [CHR 0x27] @ ''%s'' @ [CHR 0x27] @ ''...'' @ newline) [arg_string name] s;
     (success, s) \<leftarrow> filesys_remove name s;
     ASSERT success;
     Some s }"

text \<open>\<open>sector\<close> is the static variable of each of the two functions.\<close>

function extract_data ::
    "nat \<Rightarrow> open_file \<Rightarrow> int \<Rightarrow> nat \<Rightarrow> 'a fs_state_scheme \<Rightarrow> (open_file \<times> nat \<times> 'a fs_state_scheme) option" where
  "extract_data src dst sz sector s =
     (if sz \<le> 0 then Some (dst, sector, s)
      else do {
        let chunk = (if sz > SECTOR then SECTOR else sz);
        (data, s) \<leftarrow> block_read src sector s;
        (n, dst, s) \<leftarrow> file_write dst (take (nat chunk) data) s;
        if n \<noteq> chunk then None
        else extract_data src dst (sz - chunk) (add32 sector 1) s })"
  by pat_completeness auto
termination
  by (relation "measure (\<lambda>(src, dst, sz, sector, s). nat sz)") (auto simp: SECTOR_def BLOCK_SECTOR_SIZE_def split: if_splits)

definition extract_file :: "nat \<Rightarrow> u8 list \<Rightarrow> int \<Rightarrow> nat \<Rightarrow> 'a fs_state_scheme \<Rightarrow> (nat \<times> 'a fs_state_scheme) option" where
  "extract_file src name sz sector s = do {
     s \<leftarrow> kprintf (''Putting '' @ [CHR 0x27] @ ''%s'' @ [CHR 0x27] @ '' into the file system...'' @ newline) [arg_string name] s;
     (created, s) \<leftarrow> filesys_create name sz s;
     ASSERT created;
     (dst, s) \<leftarrow> filesys_open name s;
     dst \<leftarrow> dst;
     (dst, sector, s) \<leftarrow> extract_data src dst sz sector s;
     s \<leftarrow> file_close (Some dst) s;
     Some (sector, s) }"

partial_function (option) extract_loop :: "nat \<Rightarrow> nat \<Rightarrow> 'a fs_state_scheme \<Rightarrow> (nat \<times> 'a fs_state_scheme) option" where
  "extract_loop src sector s = do {
     (header, s) \<leftarrow> block_read src sector s;
     let sector = add32 sector 1;
     (case ustar_parse_header header of
        Inl _ \<Rightarrow> None
      | Inr (name, type, sz) \<Rightarrow>
        if type = USTAR_EOF then Some (sector, s)
        else do {
          name \<leftarrow> name;
          if type = USTAR_DIRECTORY then do {
            s \<leftarrow> kprintf (''ignoring directory %s'' @ newline) [arg_string name] s;
            extract_loop src sector s }
          else do {
            (sector, s) \<leftarrow> extract_file src name sz sector s;
            extract_loop src sector s } }) }"

definition fsutil_extract :: "nat \<Rightarrow> 'a fs_state_scheme \<Rightarrow> (nat \<times> 'a fs_state_scheme) option" where
  "fsutil_extract sector s = do {
     let (ok1, s) = ask_malloc s;
     let (ok2, s) = ask_malloc s;
     ASSERT (ok1 \<and> ok2);
     src \<leftarrow> block_get_role BLOCK_SCRATCH s;
     src \<leftarrow> src;
     s \<leftarrow> kprintf (''Extracting ustar archive from scratch device into file system...'' @ newline) [] s;
     (sector, s) \<leftarrow> extract_loop src sector s;
     s \<leftarrow> kprintf (''Erasing ustar archive...'' @ newline) [] s;
     s \<leftarrow> block_write src 0 (replicate BLOCK_SECTOR_SIZE 0) s;
     s \<leftarrow> block_write src 1 (replicate BLOCK_SECTOR_SIZE 0) s;
     Some (sector, s) }"

function append_data :: "nat \<Rightarrow> open_file \<Rightarrow> int \<Rightarrow> nat \<Rightarrow> 'a fs_state_scheme \<Rightarrow> (open_file \<times> nat \<times> 'a fs_state_scheme) option" where
  "append_data dst src sz sector s =
     (if sz \<le> 0 then Some (src, sector, s)
      else do {
        let chunk = (if sz > SECTOR then SECTOR else sz);
        dst_size \<leftarrow> get_block_size dst s;
        if sector \<ge> dst_size then None
        else do {
          (buffer, src, s) \<leftarrow> file_read src chunk s;
          if int (length buffer) \<noteq> chunk then None
          else do {
            s \<leftarrow> block_write dst sector (buffer @ replicate (BLOCK_SECTOR_SIZE - nat chunk) 0) s;
            append_data dst src (sz - chunk) (add32 sector 1) s } } })"
  by pat_completeness auto
termination
  by (relation "measure (\<lambda>(dst, src, sz, sector, s). nat sz)") (auto simp: SECTOR_def BLOCK_SECTOR_SIZE_def split: if_splits)

definition fsutil_append :: "u8 list \<Rightarrow> nat \<Rightarrow> 'a fs_state_scheme \<Rightarrow> (nat \<times> 'a fs_state_scheme) option" where
  "fsutil_append name sector s = do {
     s \<leftarrow> kprintf (''Appending '' @ [CHR 0x27] @ ''%s'' @ [CHR 0x27] @ '' to ustar archive on scratch device...'' @ newline)
       [arg_string name] s;
     let (ok, s) = ask_malloc s;
     ASSERT ok;
     (src, s) \<leftarrow> filesys_open name s;
     src \<leftarrow> src;
     sz \<leftarrow> file_length src s;
     dst \<leftarrow> block_get_role BLOCK_SCRATCH s;
     dst \<leftarrow> dst;
     (header, s) \<leftarrow> ustar_make_header name USTAR_REGULAR sz s;
     header \<leftarrow> header;
     s \<leftarrow> block_write dst sector header s;
     (src, sector, s) \<leftarrow> append_data dst src sz (add32 sector 1) s;
     s \<leftarrow> block_write dst sector (replicate BLOCK_SECTOR_SIZE 0) s;
     s \<leftarrow> block_write dst (add32 sector 1) (replicate BLOCK_SECTOR_SIZE 0) s;
     s \<leftarrow> file_close (Some src) s;
     Some (sector, s) }"

end
