(* ===== verification/Kernel_File_Safe.thy ===== *)
theory Kernel_File_Safe
  imports Kernel_Filesys
begin

text \<open>
  What reading and writing a file does to its bytes. \<open>file_byte\<close> is a byte of an inode's data as
  the sectors of the device hold it; a write replaces exactly the bytes it names, a read returns
  them, and neither touches a sector of another file.
\<close>

section \<open>The device of the file system\<close>

definition fs_blocks :: "'a fs_state_scheme \<Rightarrow> nat \<Rightarrow> bool" where
  "fs_blocks s dev \<longleftrightarrow> fs_device s = Some dev \<and> dev < length (all_blocks s) \<and>
     blk_type (all_blocks s ! dev) \<noteq> BLOCK_FOREIGN \<and> blocks_ok (all_blocks s) \<and>
     (\<forall>d t. length (media s d t) = BLOCK_SECTOR_SIZE)"

definition dev_size :: "'a fs_state_scheme \<Rightarrow> nat \<Rightarrow> nat" where
  "dev_size s dev = blk_size (all_blocks s ! dev)"

definition media_at :: "'a fs_state_scheme \<Rightarrow> nat \<times> nat \<Rightarrow> u8 list" where
  "media_at s a = media s (fst a) (snd a)"

definition sector_at :: "'a fs_state_scheme \<Rightarrow> nat \<Rightarrow> nat \<Rightarrow> u8 list" where
  "sector_at s dev t = media_at s (locate (all_blocks s) dev t)"

lemma locate_linear:
  "\<exists>d base. \<forall>t. locate bs i t = (d, base + t)"
proof (induction i rule: less_induct)
  case (less i)
  show ?case
  proof (cases "blk_ops (bs ! i)")
    case (Disk d)
    then show ?thesis using locate_disk [OF Disk] by (metis add_0)
  next
    case (partition_operations p)
    show ?thesis
    proof (cases "part_block p < i")
      case True
      then obtain d base where l: "\<forall>t. locate bs (part_block p) t = (d, base + t)" using less by blast
      have "\<forall>t. locate bs i t = (d, (base + part_start p) + t)"
        using l partition_operations True by (subst locate.simps) simp
      then show ?thesis by blast
    next
      case False
      then have "\<forall>t. locate bs i t = (0, 0 + t)" using partition_operations by (subst locate.simps) simp
      then show ?thesis by blast
    qed
  qed
qed

lemma locate_inj: "locate bs i t = locate bs i t' \<longleftrightarrow> t = t'"
proof -
  obtain d base where "\<forall>t. locate bs i t = (d, base + t)" using locate_linear by blast
  then show ?thesis by simp
qed

text \<open>\<open>s'\<close> differs from \<open>s\<close> in the sectors \<open>T\<close> of the device, in counters and in the allocator.\<close>

definition wrote :: "nat \<Rightarrow> nat set \<Rightarrow> 'a fs_state_scheme \<Rightarrow> 'a fs_state_scheme \<Rightarrow> bool" where
  "wrote dev T s s' \<longleftrightarrow> uncount (all_blocks s') = uncount (all_blocks s) \<and>
     (\<forall>a. a \<notin> locate (all_blocks s) dev ` T \<longrightarrow> media_at s' a = media_at s a) \<and>
     s' = s\<lparr>all_blocks := all_blocks s', media := media s', mallocs := mallocs s'\<rparr>"

lemma wroteD:
  assumes "wrote dev T s s'"
  shows "uncount (all_blocks s') = uncount (all_blocks s)"
    "a \<notin> locate (all_blocks s) dev ` T \<Longrightarrow> media_at s' a = media_at s a"
    "fs_device s' = fs_device s" "free_map s' = free_map s" "free_map_file s' = free_map_file s"
    "open_inodes s' = open_inodes s" "inodes s' = inodes s" "next_inode s' = next_inode s"
    "block_by_role s' = block_by_role s" "console s' = console s" "fs_state.more s' = fs_state.more s"
proof -
  have e: "s' = s\<lparr>all_blocks := all_blocks s', media := media s', mallocs := mallocs s'\<rparr>"
    and u: "uncount (all_blocks s') = uncount (all_blocks s)"
    and m: "\<forall>a. a \<notin> locate (all_blocks s) dev ` T \<longrightarrow> media_at s' a = media_at s a"
    using assms unfolding wrote_def by blast+
  show "uncount (all_blocks s') = uncount (all_blocks s)" by (rule u)
  show "a \<notin> locate (all_blocks s) dev ` T \<Longrightarrow> media_at s' a = media_at s a" using m by blast
  show "fs_device s' = fs_device s" using arg_cong [OF e, of fs_device] by simp
  show "free_map s' = free_map s" using arg_cong [OF e, of free_map] by simp
  show "free_map_file s' = free_map_file s" using arg_cong [OF e, of free_map_file] by simp
  show "open_inodes s' = open_inodes s" using arg_cong [OF e, of open_inodes] by simp
  show "inodes s' = inodes s" using arg_cong [OF e, of inodes] by simp
  show "next_inode s' = next_inode s" using arg_cong [OF e, of next_inode] by simp
  show "block_by_role s' = block_by_role s" using arg_cong [OF e, of block_by_role] by simp
  show "console s' = console s" using arg_cong [OF e, of console] by simp
  show "fs_state.more s' = fs_state.more s" using arg_cong [OF e, of fs_state.more] by simp
qed

lemma wrote_refl: "wrote dev T s s"
  by (simp add: wrote_def)

lemma wrote_mono: "wrote dev T s s' \<Longrightarrow> T \<subseteq> T' \<Longrightarrow> wrote dev T' s s'"
  unfolding wrote_def by blast

lemma wrote_locate: "wrote dev T s s' \<Longrightarrow> dev < length (all_blocks s) \<Longrightarrow>
    locate (all_blocks s') dev t = locate (all_blocks s) dev t"
  using locate_uncount [OF wroteD(1) [symmetric]] by metis

lemma wrote_trans:
  assumes "wrote dev T s s'" "wrote dev T s' s''" "dev < length (all_blocks s)"
  shows "wrote dev T s s''"
proof -
  have e: "s' = s\<lparr>all_blocks := all_blocks s', media := media s', mallocs := mallocs s'\<rparr>"
    "s'' = s'\<lparr>all_blocks := all_blocks s'', media := media s'', mallocs := mallocs s''\<rparr>"
    using assms(1,2) unfolding wrote_def by blast+
  have "s'' = s\<lparr>all_blocks := all_blocks s'', media := media s'', mallocs := mallocs s''\<rparr>"
    by (subst e(2), subst e(1)) simp
  moreover have "locate (all_blocks s') dev ` T = locate (all_blocks s) dev ` T"
    using wrote_locate [OF assms(1,3)] by simp
  ultimately show ?thesis using wroteD(1,2) [OF assms(1)] wroteD(1,2) [OF assms(2)]
    unfolding wrote_def by simp
qed

lemma wrote_sector:
  assumes "wrote dev T s s'" "dev < length (all_blocks s)" "t \<notin> T"
  shows "sector_at s' dev t = sector_at s dev t"
  unfolding sector_at_def wrote_locate [OF assms(1,2)]
  using assms(3) by (intro wroteD(2) [OF assms(1)]) (auto simp: locate_inj)

lemma wrote_dev_size: "wrote dev T s s' \<Longrightarrow> dev < length (all_blocks s) \<Longrightarrow> dev_size s' dev = dev_size s dev"
  unfolding dev_size_def using uncount_nth(3) [OF wroteD(1) [symmetric]] by metis

lemma fs_blocks_wrote:
  assumes "wrote dev T s s'" "fs_blocks s dev" "\<forall>d t. length (media s' d t) = BLOCK_SECTOR_SIZE"
  shows "fs_blocks s' dev"
proof -
  note u = wroteD(1) [OF assms(1), symmetric]
  have dev: "dev < length (all_blocks s)" and ty: "blk_type (all_blocks s ! dev) \<noteq> BLOCK_FOREIGN"
    and ok: "blocks_ok (all_blocks s)" and d: "fs_device s = Some dev" using assms(2) by (simp_all add: fs_blocks_def)
  show ?thesis
    using uncount_length [OF u] uncount_nth(2) [OF u dev] blocks_ok_uncount [OF u ok] dev ty d wroteD(3) [OF assms(1)] assms(3)
    by (simp add: fs_blocks_def)
qed

lemma same_but_counts_wrote: "same_but_counts s s' \<Longrightarrow> wrote dev T s s'"
proof -
  assume a: "same_but_counts s s'"
  then have e: "s' = s\<lparr>all_blocks := all_blocks s'\<rparr>" unfolding same_but_counts_def by blast
  have "s' = s\<lparr>all_blocks := all_blocks s', media := media s', mallocs := mallocs s'\<rparr>"
    using same_but_countsD(2,5) [OF a] by (subst e) simp
  then show ?thesis using same_but_countsD(1,2) [OF a] unfolding wrote_def by (simp add: media_at_def)
qed

lemma fs_read_ok:
  assumes "fs_blocks s dev" "t < dev_size s dev"
  shows "\<exists>s'. fs_read t s = Some (sector_at s dev t, s') \<and> same_but_counts s s'"
  using block_read_ok [of s dev t] assms
  by (auto simp: fs_read_def fs_blocks_def dev_size_def sector_at_def media_at_def case_prod_beta)

lemma fs_blocks_same:
  assumes "same_but_counts s s'" "fs_blocks s dev"
  shows "fs_blocks s' dev" "sector_at s' dev = sector_at s dev" "dev_size s' dev = dev_size s dev"
proof -
  note w = same_but_counts_wrote [OF assms(1), of dev "{}"]
  have dev: "dev < length (all_blocks s)" using assms(2) by (simp add: fs_blocks_def)
  show "fs_blocks s' dev"
    using fs_blocks_wrote [OF w assms(2)] same_but_countsD(2) [OF assms(1)] assms(2) by (simp add: fs_blocks_def)
  show "sector_at s' dev = sector_at s dev" using wrote_sector [OF w dev] by auto
  show "dev_size s' dev = dev_size s dev" by (rule wrote_dev_size [OF w dev])
qed

lemma fs_write_ok:
  assumes "fs_blocks s dev" "t < dev_size s dev" "length buffer = BLOCK_SECTOR_SIZE"
  shows "\<exists>s'. fs_write t buffer s = Some s' \<and> wrote dev {t} s s' \<and> fs_blocks s' dev \<and>
    sector_at s' dev = (sector_at s dev)(t := buffer) \<and> mallocs s' = mallocs s"
proof -
  have dev: "dev < length (all_blocks s)" "fs_device s = Some dev" using assms(1) by (simp_all add: fs_blocks_def)
  let ?a = "locate (all_blocks s) dev t"
  obtain s' where s': "block_write dev t buffer s = Some s'"
    "same_but_counts (s\<lparr>media := write_media (media s) ?a buffer\<rparr>) s'"
    using block_write_ok [of s dev t buffer] assms(1,2) by (auto simp: fs_blocks_def dev_size_def)
  note f = same_but_countsD [OF s'(2)]
  have m: "media_at s' a = (if a = ?a then buffer else media_at s a)" for a
    using f(2) by (cases a; cases ?a) (auto simp: media_at_def write_media_def)
  have e: "s' = s\<lparr>media := write_media (media s) ?a buffer, all_blocks := all_blocks s'\<rparr>"
    using s'(2) unfolding same_but_counts_def by simp
  have "s' = s\<lparr>all_blocks := all_blocks s', media := media s', mallocs := mallocs s'\<rparr>"
    using f(2,5) by (subst e) simp
  then have w: "wrote dev {t} s s'" using f(1) m unfolding wrote_def by simp
  have "length (media s' d x) = BLOCK_SECTOR_SIZE" for d x
    using m [of "(d, x)"] assms(1,3) by (auto simp: media_at_def fs_blocks_def split: if_splits)
  then have "fs_blocks s' dev" using fs_blocks_wrote [OF w assms(1)] by blast
  moreover have "sector_at s' dev = (sector_at s dev)(t := buffer)"
    using m wrote_locate [OF w dev(1)] by (intro ext) (auto simp: sector_at_def locate_inj)
  ultimately show ?thesis using s'(1) w f(5) dev(2) by (simp add: fs_write_def)
qed

section \<open>The bytes of a file\<close>

definition file_size :: "inode \<Rightarrow> nat" where
  "file_size i = nat (id_length (i_data i))"

definition file_byte :: "'a fs_state_scheme \<Rightarrow> nat \<Rightarrow> inode \<Rightarrow> nat \<Rightarrow> u8" where
  "file_byte s dev i k = sector_at s dev (id_start (i_data i) + k div BLOCK_SECTOR_SIZE) ! (k mod BLOCK_SECTOR_SIZE)"

definition file_bytes :: "'a fs_state_scheme \<Rightarrow> nat \<Rightarrow> inode \<Rightarrow> u8 list" where
  "file_bytes s dev i = map (file_byte s dev i) [0..<file_size i]"

definition file_sectors :: "inode \<Rightarrow> nat set" where
  "file_sectors i = {id_start (i_data i) ..< id_start (i_data i) + (file_size i + 511) div 512}"

text \<open>The data of the inode lies on the device.\<close>

definition inode_ok :: "'a fs_state_scheme \<Rightarrow> nat \<Rightarrow> inode \<Rightarrow> bool" where
  "inode_ok s dev i \<longleftrightarrow> 0 \<le> id_length (i_data i) \<and> id_length (i_data i) < 2 ^ 31 \<and>
     id_start (i_data i) + (file_size i + 511) div 512 \<le> dev_size s dev \<and> dev_size s dev < 2 ^ 32"

definition chunk_at :: "inode \<Rightarrow> nat \<Rightarrow> nat \<Rightarrow> nat" where
  "chunk_at i z ofs = min z (min (file_size i - ofs) (512 - ofs mod 512))"

lemma cmod_nat: "cmod (int ofs) SECTOR = int (ofs mod 512)"
  by (simp add: cmod_def cdiv_def SECTOR_def BLOCK_SECTOR_SIZE_def minus_div_mult_eq_mod zmod_int)

lemma chunk_nat:
  assumes "inode_ok s dev i"
  shows "int z \<le> 0 \<or> chunk_size i (int z) (int ofs) \<le> 0 \<longleftrightarrow> chunk_at i z ofs = 0"
    "chunk_at i z ofs \<noteq> 0 \<Longrightarrow> chunk_size i (int z) (int ofs) = int (chunk_at i z ofs)"
proof -
  have m: "ofs mod 512 < 512" by simp
  have l: "id_length (i_data i) = int (file_size i)" using assms by (simp add: inode_ok_def file_size_def)
  have c: "chunk_size i (int z) (int ofs) = (if int z < (if int (file_size i) - int ofs < 512 - int (ofs mod 512)
      then int (file_size i) - int ofs else 512 - int (ofs mod 512)) then int z
      else if int (file_size i) - int ofs < 512 - int (ofs mod 512)
      then int (file_size i) - int ofs else 512 - int (ofs mod 512))"
    unfolding chunk_size_def Let_def cmod_nat l by (simp add: SECTOR_def BLOCK_SECTOR_SIZE_def)
  show "int z \<le> 0 \<or> chunk_size i (int z) (int ofs) \<le> 0 \<longleftrightarrow> chunk_at i z ofs = 0"
    using m unfolding c chunk_at_def by (auto split: if_splits simp: min_def)
  show "chunk_at i z ofs \<noteq> 0 \<Longrightarrow> chunk_size i (int z) (int ofs) = int (chunk_at i z ofs)"
    using m unfolding c chunk_at_def by (auto split: if_splits simp: min_def)
qed

lemma byte_to_sector_nat:
  assumes "inode_ok s dev i" "chunk_at i z ofs \<noteq> 0"
  shows "byte_to_sector i (int ofs) = id_start (i_data i) + ofs div 512"
    "id_start (i_data i) + ofs div 512 < dev_size s dev"
    "id_start (i_data i) + ofs div 512 \<in> file_sectors i"
proof -
  have o: "ofs < file_size i" using assms(2) by (simp add: chunk_at_def)
  then have d: "ofs div 512 < (file_size i + 511) div 512" by (simp add: div_less_iff_less_mult)
  then show le: "id_start (i_data i) + ofs div 512 < dev_size s dev" "id_start (i_data i) + ofs div 512 \<in> file_sectors i"
    using assms(1) by (auto simp: inode_ok_def file_sectors_def)
  have "int (id_start (i_data i)) + int ofs div 512 = int (id_start (i_data i) + ofs div 512)" by (simp add: zdiv_int)
  moreover have "id_start (i_data i) + ofs div 512 < 2 ^ 32" using le(1) assms(1) by (simp add: inode_ok_def)
  moreover have "int ofs < id_length (i_data i)" using o by (simp add: file_size_def)
  ultimately show "byte_to_sector i (int ofs) = id_start (i_data i) + ofs div 512"
    by (simp add: byte_to_sector_def cdiv_def SECTOR_def BLOCK_SECTOR_SIZE_def nat_mod_distrib)
qed

section \<open>Reading\<close>

lemma length_sector: "fs_blocks s dev \<Longrightarrow> length (sector_at s dev t) = 512"
  by (simp add: sector_at_def media_at_def fs_blocks_def BLOCK_SECTOR_SIZE_def)

lemma same_sector:
  assumes "ofs \<le> k" "k < ofs + chunk_at i z ofs"
  shows "k div 512 = ofs div 512" "k mod 512 = ofs mod 512 + (k - ofs)" "k < file_size i"
proof -
  have c: "chunk_at i z ofs \<le> 512 - ofs mod 512" "chunk_at i z ofs \<le> file_size i - ofs" by (simp_all add: chunk_at_def)
  have "k = ofs div 512 * 512 + (ofs mod 512 + (k - ofs))" using assms(1) by simp
  moreover have "ofs mod 512 + (k - ofs) < 512" using assms c by simp
  ultimately show "k div 512 = ofs div 512" "k mod 512 = ofs mod 512 + (k - ofs)"
    by (metis add.commute div_mult_self3 div_less add_0 zero_neq_numeral,
        metis mod_mult_self3 mod_less)
  show "k < file_size i" using assms c by simp
qed

lemma part_bytes:
  assumes "fs_blocks s dev" "c = chunk_at i z ofs"
  shows "take c (drop (ofs mod 512) (sector_at s dev (id_start (i_data i) + ofs div 512))) =
    map (file_byte s dev i) [ofs..<ofs + c]"
proof (rule nth_equalityI)
  have "c \<le> 512 - ofs mod 512" unfolding assms(2) chunk_at_def by (simp only: min.coboundedI2 min.cobounded2)
  then show "length (take c (drop (ofs mod 512) (sector_at s dev (id_start (i_data i) + ofs div 512)))) =
      length (map (file_byte s dev i) [ofs..<ofs + c])"
    using length_sector [OF assms(1)] by simp
  fix j assume "j < length (take c (drop (ofs mod 512) (sector_at s dev (id_start (i_data i) + ofs div 512))))"
  then have j: "j < c" by simp
  show "take c (drop (ofs mod 512) (sector_at s dev (id_start (i_data i) + ofs div 512))) ! j =
      map (file_byte s dev i) [ofs..<ofs + c] ! j"
    using j same_sector [of ofs "ofs + j" i z] assms(2) length_sector [OF assms(1)]
    by (simp add: file_byte_def BLOCK_SECTOR_SIZE_def)
qed

lemma min_chain:
  fixes z n r :: nat
  shows "min z (min n r) + min (z - min z (min n r)) (n - min z (min n r)) = min z n"
    "0 < r \<Longrightarrow> min z (min n r) = 0 \<Longrightarrow> min z n = 0"
  by linarith+

lemma chunk_sum: "chunk_at i z ofs + min (z - chunk_at i z ofs) (file_size i - (ofs + chunk_at i z ofs)) = min z (file_size i - ofs)"
  unfolding chunk_at_def diff_diff_left [symmetric] by (rule min_chain)

lemma chunk_0: "chunk_at i z ofs = 0 \<Longrightarrow> min z (file_size i - ofs) = 0"
  unfolding chunk_at_def by (rule min_chain(2) [of "512 - ofs mod 512"]) simp_all

lemma read_loop_ok:
  assumes "fs_blocks s dev" "inode_ok s dev i" "mallocs s = []"
  shows "\<exists>s'. read_loop i bounce (int z) (int ofs) s =
    Some (map (file_byte s dev i) [ofs..<ofs + min z (file_size i - ofs)], s') \<and> same_but_counts s s'"
  using assms
proof (induction z arbitrary: ofs bounce s rule: less_induct)
  case (less z)
  define c where "c = chunk_at i z ofs"
  note chunk = chunk_nat [OF less.prems(2), of z ofs, folded c_def]
  show ?case
  proof (cases "c = 0")
    case True
    then have "min z (file_size i - ofs) = 0" unfolding c_def by (rule chunk_0)
    then show ?thesis using chunk(1) True by (subst read_loop.simps) (simp add: Let_def)
  next
    case False
    let ?t = "id_start (i_data i) + ofs div 512"
    note sec = byte_to_sector_nat [OF less.prems(2) False [unfolded c_def]]
    have csize: "chunk_size i (int z) (int ofs) = int c" using chunk(2) False by simp
    have go: "\<not> (int z \<le> 0 \<or> int c \<le> 0)" using chunk(1) False csize by simp
    have cz: "c \<le> z" by (simp add: c_def chunk_at_def)
    obtain s1 where s1: "fs_read ?t s = Some (sector_at s dev ?t, s1)" "same_but_counts s s1"
      using fs_read_ok [OF less.prems(1) sec(2)] by blast
    note same = fs_blocks_same [OF s1(2) less.prems(1)]
    have ok1: "inode_ok s1 dev i" using less.prems(2) same(3) by (simp add: inode_ok_def)
    have m1: "mallocs s1 = []" using same_but_countsD(5) [OF s1(2)] less.prems(3) by simp
    have b1: "file_byte s1 dev i = file_byte s dev i" by (intro ext) (simp add: file_byte_def same(2))
    have int: "int (z - c) = int z - int c" "int (ofs + c) = int ofs + int c" using cz by simp_all
    obtain s2 where s2: "\<And>b. read_loop i b (int z - int c) (int ofs + int c) s1 =
        Some (map (file_byte s dev i) [ofs + c..<ofs + c + min (z - c) (file_size i - (ofs + c))], s2 b) \<and> same_but_counts s1 (s2 b)"
      using less.IH [OF _ same(1) ok1 m1, of "z - c" _ "ofs + c"] False cz unfolding b1 int by (metis diff_less gr0I zero_less_diff le_neq_implies_less less_le_trans)
    have total: "ofs + c + min (z - c) (file_size i - (ofs + c)) = ofs + min z (file_size i - ofs)"
      using chunk_sum [of i z ofs, folded c_def] by simp
    have parts: "map (file_byte s dev i) [ofs..<ofs + c] @
        map (file_byte s dev i) [ofs + c..<ofs + c + min (z - c) (file_size i - (ofs + c))] =
        map (file_byte s dev i) [ofs..<ofs + min z (file_size i - ofs)]"
      unfolding map_append [symmetric] total [symmetric] by (subst upt_add_eq_append) simp_all
    have part: "take c (drop (ofs mod 512) (sector_at s dev ?t)) = map (file_byte s dev i) [ofs..<ofs + c]"
      by (rule part_bytes [OF less.prems(1) c_def])
    let ?rest = "map (file_byte s dev i) [ofs + c..<ofs + c + min (z - c) (file_size i - (ofs + c))]"
    note step = read_loop.simps [of i bounce "int z" "int ofs" s, unfolded Let_def csize cmod_nat sec(1)]
    show ?thesis
    proof (cases "int (ofs mod 512) = 0 \<and> int c = SECTOR")
      case True
      then have "sector_at s dev ?t = map (file_byte s dev i) [ofs..<ofs + c]"
        using part length_sector [OF less.prems(1), of ?t] by (simp add: SECTOR_def BLOCK_SECTOR_SIZE_def)
      moreover have "read_loop i bounce (int z) (int ofs) s = Some (sector_at s dev ?t @ ?rest, s2 bounce)"
        unfolding step if_not_P [OF go] if_P [OF True] s1(1) by (simp add: s2)
      ultimately show ?thesis
        using same_but_counts_trans [OF s1(2)] s2 [of bounce] parts by simp
    next
      case part_case: False
      have "get_bounce bounce s = (True, s)" by (simp add: get_bounce_def ask_malloc_def less.prems(3))
      moreover have "sector_part (sector_at s dev ?t) (int (ofs mod 512)) (int c) = Some (map (file_byte s dev i) [ofs..<ofs + c])"
        using part by (simp add: sector_part_def)
      ultimately have "read_loop i bounce (int z) (int ofs) s = Some (map (file_byte s dev i) [ofs..<ofs + c] @ ?rest, s2 True)"
        unfolding step if_not_P [OF go] if_not_P [OF part_case] using s1(1) s2 [of True] by simp
      then show ?thesis
        using same_but_counts_trans [OF s1(2)] s2 [of True] parts by simp
    qed
  qed
qed

section \<open>Writing\<close>

lemma chunk_written:
  assumes blocks: "fs_blocks s dev" and c: "c = chunk_at i z ofs" "c \<le> length buffer"
    and s1: "sector_at s1 dev = (sector_at s dev)(id_start (i_data i) + ofs div 512 :=
      take (ofs mod 512) (sector_at s dev (id_start (i_data i) + ofs div 512)) @ take c buffer @
      drop (ofs mod 512 + c) (sector_at s dev (id_start (i_data i) + ofs div 512)))"
  shows "file_byte s1 dev i k = (if ofs \<le> k \<and> k < ofs + c then buffer ! (k - ofs) else file_byte s dev i k)"
proof (cases "k div 512 = ofs div 512")
  case False
  moreover have "\<not> (ofs \<le> k \<and> k < ofs + c)" using same_sector(1) [of ofs k i z] c(1) False by blast
  ultimately show ?thesis by (auto simp: file_byte_def s1 BLOCK_SECTOR_SIZE_def)
next
  case True
  let ?old = "sector_at s dev (id_start (i_data i) + ofs div 512)"
  let ?new = "take (ofs mod 512) ?old @ take c buffer @ drop (ofs mod 512 + c) ?old"
  have l: "length ?old = 512" by (rule length_sector [OF blocks])
  have m: "ofs mod 512 < 512" "k mod 512 < 512" by simp_all
  have le: "c \<le> 512 - ofs mod 512" unfolding c(1) chunk_at_def by (simp only: min.coboundedI2 min.cobounded2)
  have byte: "file_byte s1 dev i k = ?new ! (k mod 512)" "file_byte s dev i k = ?old ! (k mod 512)"
    using True by (simp_all add: file_byte_def s1 BLOCK_SECTOR_SIZE_def)
  have "k = ofs div 512 * 512 + k mod 512" "ofs = ofs div 512 * 512 + ofs mod 512" by (metis True div_mult_mod_eq, simp)
  then consider "k mod 512 < ofs mod 512" "k < ofs" | "ofs mod 512 \<le> k mod 512" "k mod 512 - ofs mod 512 = k - ofs" "ofs \<le> k"
    by linarith
  then show ?thesis
  proof cases
    case 1
    then show ?thesis unfolding byte using l m by (simp add: nth_append)
  next
    case 2
    have "?new ! (k mod 512) = (take c buffer @ drop (ofs mod 512 + c) ?old) ! (k - ofs)"
      using 2 l m by (simp add: nth_append)
    also have "\<dots> = (if k < ofs + c then buffer ! (k - ofs) else ?old ! (k mod 512))"
    proof (cases "k < ofs + c")
      case True
      then have "k - ofs < c" using 2(3) by linarith
      then show ?thesis using True c(2) by (simp add: nth_append)
    next
      case False
      then have "ofs mod 512 + c + (k - ofs - c) = k mod 512" using 2 by linarith
      moreover have "\<not> k - ofs < c" using False 2(3) by linarith
      ultimately show ?thesis using False 2(3) c(2) le l by (simp add: nth_append)
    qed
    finally show ?thesis unfolding byte using 2(3) by simp
  qed
qed

lemma write_loop_ok:
  assumes "fs_blocks s dev" "inode_ok s dev i" "mallocs s = []"
  shows "\<exists>s'. write_loop i bounce buffer (int ofs) n s = Some (n + int (min (length buffer) (file_size i - ofs)), s') \<and>
    wrote dev (file_sectors i) s s' \<and> fs_blocks s' dev \<and> mallocs s' = [] \<and>
    (\<forall>k. file_byte s' dev i k = (if ofs \<le> k \<and> k < ofs + min (length buffer) (file_size i - ofs)
       then buffer ! (k - ofs) else file_byte s dev i k))"
  using assms
proof (induction "length buffer" arbitrary: buffer ofs bounce n s rule: less_induct)
  case less
  let ?z = "length buffer"
  define c where "c = chunk_at i ?z ofs"
  note chunk = chunk_nat [OF less.prems(2), of ?z ofs, folded c_def]
  show ?case
  proof (cases "c = 0")
    case True
    then have "min ?z (file_size i - ofs) = 0" unfolding c_def by (rule chunk_0)
    then show ?thesis using chunk(1) True less.prems(1,3) wrote_refl [of dev "file_sectors i" s]
      by (subst write_loop.simps) (auto simp: Let_def)
  next
    case False
    let ?t = "id_start (i_data i) + ofs div 512"
    let ?old = "sector_at s dev ?t"
    let ?new = "take (ofs mod 512) ?old @ take c buffer @ drop (ofs mod 512 + c) ?old"
    note sec = byte_to_sector_nat [OF less.prems(2) False [unfolded c_def]]
    have csize: "chunk_size i (int ?z) (int ofs) = int c" using chunk(2) False by simp
    have go: "\<not> (int ?z \<le> 0 \<or> int c \<le> 0)" using chunk(1) False csize by simp
    have cz: "c \<le> ?z" by (simp add: c_def chunk_at_def)
    have le: "c \<le> 512 - ofs mod 512" unfolding c_def chunk_at_def by (simp only: min.coboundedI2 min.cobounded2)
    have lold: "length ?old = 512" by (rule length_sector [OF less.prems(1)])
    have lnew: "length ?new = BLOCK_SECTOR_SIZE" using lold cz le by (simp add: BLOCK_SECTOR_SIZE_def)
    note step = write_loop.simps [of i bounce buffer "int ofs" n s, unfolded Let_def csize cmod_nat sec(1) nat_int]
    text \<open>The rest of the loop, after the sector has been written.\<close>
    have rest: "\<exists>s'. write_loop i b (drop c buffer) (int ofs + int c) (n + int c) s2 =
          Some (n + int (min ?z (file_size i - ofs)), s') \<and>
        wrote dev (file_sectors i) s s' \<and> fs_blocks s' dev \<and> mallocs s' = [] \<and>
        (\<forall>k. file_byte s' dev i k = (if ofs \<le> k \<and> k < ofs + min ?z (file_size i - ofs)
           then buffer ! (k - ofs) else file_byte s dev i k))"
      if w2: "wrote dev (file_sectors i) s s2" and b2: "fs_blocks s2 dev" and m2: "mallocs s2 = []"
        and sec2: "sector_at s2 dev = (sector_at s dev)(?t := ?new)" for s2 b
    proof -
      have dev: "dev < length (all_blocks s)" using less.prems(1) by (simp add: fs_blocks_def)
      have ok2: "inode_ok s2 dev i" using less.prems(2) wrote_dev_size [OF w2 dev] by (simp add: inode_ok_def)
      have short: "length (drop c buffer) < length buffer" using False cz by simp
      obtain s' where s': "write_loop i b (drop c buffer) (int (ofs + c)) (n + int c) s2 =
          Some (n + int c + int (min (length (drop c buffer)) (file_size i - (ofs + c))), s')"
        "wrote dev (file_sectors i) s2 s'" "fs_blocks s' dev" "mallocs s' = []"
        "\<And>k. file_byte s' dev i k = (if ofs + c \<le> k \<and> k < ofs + c + min (length (drop c buffer)) (file_size i - (ofs + c))
           then drop c buffer ! (k - (ofs + c)) else file_byte s2 dev i k)"
        using less.hyps [OF short b2 ok2 m2, of b "ofs + c" "n + int c"] by blast
      have total: "c + min (length (drop c buffer)) (file_size i - (ofs + c)) = min ?z (file_size i - ofs)"
        using chunk_sum [of i ?z ofs, folded c_def] by simp
      have "file_byte s' dev i k = (if ofs \<le> k \<and> k < ofs + min ?z (file_size i - ofs)
           then buffer ! (k - ofs) else file_byte s dev i k)" for k
        unfolding total [symmetric] s'(5) chunk_written [OF less.prems(1) c_def cz sec2]
        by (auto simp: nth_drop add.assoc [symmetric] split: if_splits)
      moreover have "n + int c + int (min (length (drop c buffer)) (file_size i - (ofs + c))) = n + int (min ?z (file_size i - ofs))"
        unfolding total [symmetric] by simp
      ultimately show ?thesis using s'(1,3,4) wrote_trans [OF w2 s'(2) dev] by auto
    qed
    show ?thesis
    proof (cases "int (ofs mod 512) = 0 \<and> int c = SECTOR")
      case True
      then have new: "?new = take c buffer" using lold by (simp add: SECTOR_def BLOCK_SECTOR_SIZE_def)
      obtain s2 where s2: "fs_write ?t (take c buffer) s = Some s2" "wrote dev {?t} s s2" "fs_blocks s2 dev"
        "sector_at s2 dev = (sector_at s dev)(?t := ?new)" "mallocs s2 = []"
        using fs_write_ok [OF less.prems(1) sec(2) lnew] less.prems(3) unfolding new by auto
      have w: "wrote dev (file_sectors i) s s2" using wrote_mono [OF s2(2)] sec(3) by simp
      show ?thesis unfolding step if_not_P [OF go] if_P [OF True] s2(1) bind.simps
        by (rule rest [OF w s2(3,5,4)])
    next
      case part_case: False
      have bounce: "get_bounce bounce s = (True, s)" by (simp add: get_bounce_def ask_malloc_def less.prems(3))
      have rd: "int (ofs mod 512) > 0 \<or> int c < SECTOR - int (ofs mod 512)"
        using part_case le by (auto simp: SECTOR_def BLOCK_SECTOR_SIZE_def)
      obtain s1 where s1: "fs_read ?t s = Some (?old, s1)" "same_but_counts s s1"
        using fs_read_ok [OF less.prems(1) sec(2)] by blast
      note same = fs_blocks_same [OF s1(2) less.prems(1)]
      have upd: "sector_update ?old (int (ofs mod 512)) (take c buffer) = Some ?new" using cz by (simp add: sector_update_def)
      obtain s2 where s2: "fs_write ?t ?new s1 = Some s2" "wrote dev {?t} s1 s2" "fs_blocks s2 dev"
        "sector_at s2 dev = (sector_at s dev)(?t := ?new)" "mallocs s2 = []"
        using fs_write_ok [OF same(1) _ lnew, of ?t] sec(2) same(2,3) less.prems(3) same_but_countsD(5) [OF s1(2)] by auto
      have dev: "dev < length (all_blocks s)" using less.prems(1) by (simp add: fs_blocks_def)
      have w: "wrote dev (file_sectors i) s s2"
        using wrote_trans [OF same_but_counts_wrote [OF s1(2)] s2(2) dev] wrote_mono sec(3)
        by (meson empty_subsetI insert_subset)
      show ?thesis
        unfolding step if_not_P [OF go] if_not_P [OF part_case] bounce prod.case not_True_eq_False if_False if_P [OF rd] s1(1)
          bind.simps upd s2(1)
        by (rule rest [OF w s2(3,5,4)])
    qed
  qed
qed

section \<open>A file is a sequence of bytes\<close>

text \<open>C5:
  Reading and writing an inode is reading and writing a sequence of bytes. For an open inode whose
  data lies on the device, with allocation succeeding and writes not denied, \<open>inode_write_at\<close>
  returns the number of bytes that fit in front of the end of the file, which it writes at the
  offset; the other bytes of the file, every sector that does not belong to it and every in-memory
  inode are as before. \<open>inode_read_at\<close> then returns exactly the bytes of the file from its offset
  on, as many as there are and were asked for. This holds for every offset and length, across
  sector boundaries, whichever parts go through the bounce buffer.\<close>

theorem inode_io_refines_bytes:
  assumes fs: "fs_blocks s dev" "inodes s a = Some i" "inode_ok s dev i" "mallocs s = []"
    and allowed: "deny_write_cnt i = 0" and m: "m = min (length data) (file_size i - ofs)"
  shows "\<exists>s1 s2. inode_write_at a data (int ofs) s = Some (int m, s1) \<and>
    file_bytes s1 dev i = take ofs (file_bytes s dev i) @ take m data @ drop (ofs + m) (file_bytes s dev i) \<and>
    (\<forall>t. t \<notin> file_sectors i \<longrightarrow> sector_at s1 dev t = sector_at s dev t) \<and> inodes s1 = inodes s \<and>
    inode_read_at a (int z) (int ofs2) s1 = Some (take z (drop ofs2 (file_bytes s1 dev i)), s2)"
proof -
  have dev: "dev < length (all_blocks s)" using fs(1) by (simp add: fs_blocks_def)
  obtain s1 where s1: "write_loop i False data (int ofs) 0 s = Some (int m, s1)" "wrote dev (file_sectors i) s s1"
    "fs_blocks s1 dev" "mallocs s1 = []"
    "\<And>k. file_byte s1 dev i k = (if ofs \<le> k \<and> k < ofs + m then data ! (k - ofs) else file_byte s dev i k)"
    using write_loop_ok [OF fs(1,3,4), of False data ofs 0] unfolding m [symmetric] by auto
  have ok1: "inode_ok s1 dev i" using fs(3) wrote_dev_size [OF s1(2) dev] by (simp add: inode_ok_def)
  have ino: "inodes s1 = inodes s" by (rule wroteD(7) [OF s1(2)])
  obtain s2 where s2: "read_loop i False (int z) (int ofs2) s1 =
      Some (map (file_byte s1 dev i) [ofs2..<ofs2 + min z (file_size i - ofs2)], s2)"
    using read_loop_ok [OF s1(3) ok1 s1(4)] by blast
  have "map (file_byte s1 dev i) [ofs2..<ofs2 + min z (file_size i - ofs2)] = take z (drop ofs2 (file_bytes s1 dev i))"
    by (rule nth_equalityI) (auto simp: file_bytes_def)
  moreover have "file_bytes s1 dev i = take ofs (file_bytes s dev i) @ take m data @ drop (ofs + m) (file_bytes s dev i)"
    by (rule nth_equalityI) (auto simp: file_bytes_def s1(5) nth_append m min_def)
  ultimately show ?thesis
    using s1(1) s2 wrote_sector [OF s1(2) dev] ino fs(2) allowed
    by (auto simp: inode_write_at_def inode_read_at_def)
qed

section \<open>Reads that fail\<close>

text \<open>A read of less than a sector needs the bounce buffer, and returns nothing without it.\<close>

lemma read_without_memory:
  assumes "inodes s a = Some i" "mallocs s = False # rest" "0 \<le> ofs" "0 < sz" "sz < 512"
  shows "inode_read_at a sz ofs s = Some ([], if ofs < id_length (i_data i) then s\<lparr>mallocs := rest\<rparr> else s)"
proof -
  have c: "0 < chunk_size i sz ofs \<longleftrightarrow> ofs < id_length (i_data i)" "chunk_size i sz ofs \<le> sz"
  proof -
    have "cmod ofs SECTOR < 512" using assms(3)
      by (simp add: cmod_def cdiv_def SECTOR_def BLOCK_SECTOR_SIZE_def minus_div_mult_eq_mod)
    then show "0 < chunk_size i sz ofs \<longleftrightarrow> ofs < id_length (i_data i)" "chunk_size i sz ofs \<le> sz"
      using assms(4) by (simp_all add: chunk_size_def Let_def SECTOR_def BLOCK_SECTOR_SIZE_def)
  qed
  then have "chunk_size i sz ofs \<le> 0 \<longleftrightarrow> \<not> ofs < id_length (i_data i)" by linarith
  then show ?thesis using assms c(2)
    by (simp add: inode_read_at_def read_loop.simps [of i False sz ofs s] Let_def get_bounce_def ask_malloc_def
        SECTOR_def BLOCK_SECTOR_SIZE_def)
qed

text \<open>C32:
  When the allocator has no memory for the bounce buffer, \<open>lookup\<close> and \<open>dir_lookup\<close> report that a
  directory does not contain a name, whatever the directory holds: the short read of
  \<open>inode_read_at\<close> is taken for the end of the directory. The comment in \<open>dir_add\<close>, which relies on
  short reads only at the end of the file, does not hold, so a name can be added a second time.\<close>

theorem lookup_without_memory:
  assumes "inodes s (d_inode d) = Some i" "mallocs s = False # rest" "0 < id_length (i_data i)"
  shows "lookup d name s = Some (None, s\<lparr>mallocs := rest\<rparr>) \<and> dir_lookup d name s = Some (None, s\<lparr>mallocs := rest\<rparr>)"
proof -
  have "lookup d name s = Some (None, s\<lparr>mallocs := rest\<rparr>)"
    using read_without_memory [OF assms(1,2), of 0 20] assms(3)
    by (simp add: lookup_def lookup_loop.simps [of _ _ 0] DIR_ENTRY_SIZE_def)
  then show ?thesis by (simp add: dir_lookup_def)
qed

section \<open>A small file system\<close>

definition demo_fs :: fs_state where
  "demo_fs = \<lparr>all_blocks =
     [\<lparr>blk_name = ''hda'', blk_type = BLOCK_FILESYS, blk_size = 100, blk_ops = Disk 0, read_cnt = 0, write_cnt = 0\<rparr>],
     block_by_role = (\<lambda>_. None)(BLOCK_FILESYS := Some 0), media = (\<lambda>_ _. replicate 512 0), console = [], mallocs = [],
     fs_device = Some 0, free_map = None, free_map_file = None, open_inodes = [1],
     inodes = (\<lambda>_. None)(1 \<mapsto> \<lparr>i_sector = 2, open_cnt = 1, i_removed = False, deny_write_cnt = 0,
       i_data = \<lparr>id_start = 3, id_length = 700, id_magic = INODE_MAGIC, id_unused = replicate 500 0\<rparr>\<rparr>),
     next_inode = 2\<rparr>"

lemma demo_fs_ok: "fs_blocks demo_fs 0" "inode_ok demo_fs 0 (the (inodes demo_fs 1))" "file_size (the (inodes demo_fs 1)) = 700"
  by (simp_all add: fs_blocks_def inode_ok_def demo_fs_def blocks_ok_def block_ok_def BLOCK_SECTOR_SIZE_def file_size_def dev_size_def)

lemma inode_io_refines_bytes_witness:
  "\<exists>s1 s2. inode_write_at 1 [1, 2, 3, 4] 510 demo_fs = Some (4, s1) \<and>
     file_bytes s1 0 (the (inodes demo_fs 1)) = take 510 (file_bytes demo_fs 0 (the (inodes demo_fs 1))) @ [1, 2, 3, 4] @
       drop 514 (file_bytes demo_fs 0 (the (inodes demo_fs 1))) \<and>
     (\<forall>t. t \<notin> file_sectors (the (inodes demo_fs 1)) \<longrightarrow> sector_at s1 0 t = sector_at demo_fs 0 t) \<and>
     inodes s1 = inodes demo_fs \<and>
     inode_read_at 1 4 510 s1 = Some (take 4 (drop 510 (file_bytes s1 0 (the (inodes demo_fs 1)))), s2)"
proof -
  let ?i = "the (inodes demo_fs 1)"
  have "inodes demo_fs 1 = Some ?i" "mallocs demo_fs = []" "deny_write_cnt ?i = 0"
    "4 = min (length [1, 2, 3, 4 :: u8]) (file_size ?i - 510)"
    by (simp_all add: demo_fs_def file_size_def)
  from inode_io_refines_bytes [OF demo_fs_ok(1) this(1) demo_fs_ok(2) this(2-4), of 4 510] show ?thesis by simp
qed

lemma lookup_without_memory_witness:
  "dir_lookup \<lparr>d_inode = 1, d_pos = 0\<rparr> [97] (demo_fs\<lparr>mallocs := [False]\<rparr>) = Some (None, demo_fs\<lparr>mallocs := []\<rparr>)"
  using lookup_without_memory [of "demo_fs\<lparr>mallocs := [False]\<rparr>" "\<lparr>d_inode = 1, d_pos = 0\<rparr>" "the (inodes demo_fs 1)" "[]" "[97]"]
  by (simp add: demo_fs_def)

end
