(* ===== verification/Kernel_Dir_Safe.thy ===== *)
theory Kernel_Dir_Safe
  imports Kernel_File_Safe Kernel_Store
begin

text \<open>
  A directory is a finite map from names to inode sectors. The slots of a directory are the groups
  of 20 bytes of its file; the map takes a name to the sector in the first slot in use that carries
  the name.
\<close>

definition slot :: "'a fs_state_scheme \<Rightarrow> nat \<Rightarrow> inode \<Rightarrow> nat \<Rightarrow> u8 list" where
  "slot s dev i k = map (file_byte s dev i) [20 * k..<20 * k + 20]"

definition slot_cnt :: "inode \<Rightarrow> nat" where
  "slot_cnt i = file_size i div 20"

definition slot_name :: "u8 list \<Rightarrow> u8 list" where
  "slot_name e = takeWhile (\<lambda>b. b \<noteq> 0) (e_name e)"

definition slot_matches :: "u8 list \<Rightarrow> u8 list \<Rightarrow> bool" where
  "slot_matches name e \<longleftrightarrow> e_in_use e \<and> slot_name e = name"

definition find_slot :: "'a fs_state_scheme \<Rightarrow> nat \<Rightarrow> inode \<Rightarrow> u8 list \<Rightarrow> nat \<Rightarrow> nat option" where
  "find_slot s dev i name k = find (\<lambda>k. slot_matches name (slot s dev i k)) [k..<slot_cnt i]"

definition dir_map :: "'a fs_state_scheme \<Rightarrow> nat \<Rightarrow> inode \<Rightarrow> u8 list \<Rightarrow> nat option" where
  "dir_map s dev i name = map_option (\<lambda>k. e_inode_sector (slot s dev i k)) (find_slot s dev i name 0)"

text \<open>Every name in use is terminated.\<close>

definition names_ok :: "'a fs_state_scheme \<Rightarrow> nat \<Rightarrow> inode \<Rightarrow> bool" where
  "names_ok s dev i \<longleftrightarrow> (\<forall>k < slot_cnt i. e_in_use (slot s dev i k) \<longrightarrow> 0 \<in> set (e_name (slot s dev i k)))"

definition dir_ok :: "'a fs_state_scheme \<Rightarrow> nat \<Rightarrow> nat \<Rightarrow> inode \<Rightarrow> bool" where
  "dir_ok s dev a i \<longleftrightarrow> fs_blocks s dev \<and> inodes s a = Some i \<and> inode_ok s dev i \<and> mallocs s = [] \<and> names_ok s dev i"

lemma dir_okD:
  assumes "dir_ok s dev a i"
  shows "fs_blocks s dev" "inodes s a = Some i" "inode_ok s dev i" "mallocs s = []" "names_ok s dev i"
  using assms by (simp_all add: dir_ok_def)

lemma same_slots:
  assumes "same_but_counts s s'" "fs_blocks s dev"
  shows "slot s' dev i = slot s dev i"
  using fs_blocks_same(2) [OF assms] by (intro ext) (simp add: slot_def file_byte_def)

lemma dir_ok_same:
  assumes "same_but_counts s s'" "dir_ok s dev a i"
  shows "dir_ok s' dev a i"
proof -
  note d = dir_okD [OF assms(2)]
  note w = same_but_counts_wrote [OF assms(1), of dev "{}"]
  show ?thesis using d fs_blocks_same(1,3) [OF assms(1) d(1)] same_slots [OF assms(1) d(1)] wroteD(7) [OF w]
      same_but_countsD(5) [OF assms(1)]
    by (simp add: dir_ok_def inode_ok_def names_ok_def)
qed

lemma slot_length [simp]: "length (slot s dev i k) = 20"
  by (simp add: slot_def)

lemma read_slot:
  assumes "dir_ok s dev a i"
  shows "\<exists>bs s'. inode_read_at a 20 (20 * int k) s = Some (bs, s') \<and> same_but_counts s s' \<and>
    (if k < slot_cnt i then bs = slot s dev i k else length bs < 20)"
proof -
  note d = dir_okD [OF assms]
  obtain s' where s': "read_loop i False (int 20) (int (20 * k)) s =
      Some (map (file_byte s dev i) [20 * k..<20 * k + min 20 (file_size i - 20 * k)], s')" "same_but_counts s s'"
    using read_loop_ok [OF d(1,3,4), of False 20 "20 * k"] by blast
  have "k < slot_cnt i \<longleftrightarrow> 20 * k + 20 \<le> file_size i" by (auto simp: slot_cnt_def less_eq_div_iff_mult_less_eq Suc_le_eq [symmetric] mult.commute)
  then show ?thesis using s' d(2)
    by (auto simp: inode_read_at_def slot_def min_def)
qed

lemma name_equal_slot:
  "names_ok s dev i \<Longrightarrow> k < slot_cnt i \<Longrightarrow> e_in_use (slot s dev i k) \<Longrightarrow>
   name_equal name (e_name (slot s dev i k)) = Some (slot_name (slot s dev i k) = name)"
  by (auto simp: names_ok_def name_equal_def slot_name_def)

lemma find_slot_step:
  "find_slot s dev i name k = (if k < slot_cnt i then
     if slot_matches name (slot s dev i k) then Some k else find_slot s dev i name (k + 1) else None)"
  by (simp add: find_slot_def upt_conv_Cons)

lemma lookup_loop_ok:
  assumes "dir_ok s dev a i"
  shows "\<exists>s'. lookup_loop a name (20 * int k) s =
    Some (map_option (\<lambda>k. (slot s dev i k, 20 * int k)) (find_slot s dev i name k), s') \<and> same_but_counts s s'"
  using assms
proof (induction "slot_cnt i - k" arbitrary: k s)
  case 0
  obtain bs s' where r: "inode_read_at a 20 (20 * int k) s = Some (bs, s')" "same_but_counts s s'" "length bs < 20"
    using read_slot [OF 0(2), of k] 0(1) by auto
  then show ?case using 0(1)
    by (subst lookup_loop.simps) (simp add: DIR_ENTRY_SIZE_def find_slot_step)
next
  case (Suc n)
  have k: "k < slot_cnt i" and n: "n = slot_cnt i - (k + 1)" using Suc.hyps(2) by simp_all
  obtain s1 where r: "inode_read_at a 20 (20 * int k) s = Some (slot s dev i k, s1)" "same_but_counts s s1"
    using read_slot [OF Suc.prems, of k] k by auto
  have same: "slot s1 dev i = slot s dev i" by (rule same_slots [OF r(2) dir_okD(1) [OF Suc.prems]])
  have found: "(if e_in_use (slot s dev i k) then name_equal name (e_name (slot s dev i k)) else Some False) =
      Some (slot_matches name (slot s dev i k))"
    using name_equal_slot [OF dir_okD(5) [OF Suc.prems] k] by (simp add: slot_matches_def)
  obtain s2 where s2: "lookup_loop a name (20 * int k + 20) s1 =
      Some (map_option (\<lambda>k. (slot s dev i k, 20 * int k)) (find_slot s dev i name (k + 1)), s2)" "same_but_counts s1 s2"
    using Suc.hyps(1) [OF n dir_ok_same [OF r(2) Suc.prems]]
    by (auto simp: same find_slot_def algebra_simps)
  show ?case
    using r s2 found k same_but_counts_trans [OF r(2) s2(2)]
    by (subst lookup_loop.simps, subst find_slot_step) (simp add: DIR_ENTRY_SIZE_def)
qed

lemma lookup_ok:
  assumes "dir_ok s dev (d_inode d) i"
  shows "\<exists>s'. lookup d name s =
    Some (map_option (\<lambda>k. (slot s dev i k, 20 * int k)) (find_slot s dev i name 0), s') \<and> same_but_counts s s'"
  using lookup_loop_ok [OF assms, of name 0] by (simp add: lookup_def)

text \<open>The first free slot, or the end of the slots.\<close>

definition free_slot :: "'a fs_state_scheme \<Rightarrow> nat \<Rightarrow> inode \<Rightarrow> nat \<Rightarrow> nat option" where
  "free_slot s dev i k = find (\<lambda>k. \<not> e_in_use (slot s dev i k)) [k..<slot_cnt i]"

lemma free_slotD:
  assumes "free_slot s dev i 0 = Some k"
  shows "k < slot_cnt i" "\<not> e_in_use (slot s dev i k)"
  using assms by (auto simp: free_slot_def find_Some_iff)

lemma free_slot_step:
  "free_slot s dev i k = (if k < slot_cnt i then
     if \<not> e_in_use (slot s dev i k) then Some k else free_slot s dev i (k + 1) else None)"
  by (simp add: free_slot_def upt_conv_Cons)

lemma free_slot_loop_ok:
  assumes "dir_ok s dev a i" "length e = 20" "k \<le> slot_cnt i"
  shows "\<exists>e' s'. free_slot_loop a e (20 * int k) s =
    Some (e', 20 * int (case free_slot s dev i k of None \<Rightarrow> slot_cnt i | Some k \<Rightarrow> k), s') \<and> same_but_counts s s' \<and>
    length e' = 20 \<and> (\<forall>k'. free_slot s dev i k = Some k' \<longrightarrow> e' = slot s dev i k')"
  using assms
proof (induction "slot_cnt i - k" arbitrary: k s e)
  case 0
  obtain bs s' where r: "inode_read_at a 20 (20 * int k) s = Some (bs, s')" "same_but_counts s s'" "length bs < 20"
    using read_slot [OF 0(2), of k] 0(1) by auto
  then show ?case using 0
    by (subst free_slot_loop.simps) (simp add: DIR_ENTRY_SIZE_def free_slot_step)
next
  case (Suc n)
  have k: "k < slot_cnt i" and n: "n = slot_cnt i - (k + 1)" using Suc.hyps(2) by simp_all
  obtain s1 where r: "inode_read_at a 20 (20 * int k) s = Some (slot s dev i k, s1)" "same_but_counts s s1"
    using read_slot [OF Suc.prems(1), of k] k by auto
  have same: "slot s1 dev i = slot s dev i" by (rule same_slots [OF r(2) dir_okD(1) [OF Suc.prems(1)]])
  have fs: "free_slot s1 dev i = free_slot s dev i" by (intro ext) (simp add: free_slot_def same)
  obtain e2 s2 where s2: "free_slot_loop a (slot s dev i k) (20 * int k + 20) s1 =
      Some (e2, 20 * int (case free_slot s dev i (k + 1) of None \<Rightarrow> slot_cnt i | Some k \<Rightarrow> k), s2)" "same_but_counts s1 s2"
      "length e2 = 20" "\<forall>k'. free_slot s dev i (k + 1) = Some k' \<longrightarrow> e2 = slot s dev i k'"
    using Suc.hyps(1) [OF n dir_ok_same [OF r(2) Suc.prems(1)], of "slot s dev i k"] k
    by (auto simp: same fs algebra_simps)
  show ?case
    using r s2 k same_but_counts_trans [OF r(2) s2(2)] Suc.prems(2)
    by (subst free_slot_loop.simps, subst (1 2) free_slot_step) (simp add: DIR_ENTRY_SIZE_def)
qed

section \<open>New entries\<close>

definition new_entry :: "u8 list \<Rightarrow> nat \<Rightarrow> u8 list \<Rightarrow> u8 list" where
  "new_entry name sector e = set_inode_sector sector (set_name name (set_in_use True e))"

lemma get_put32: "n < 2 ^ 32 \<Longrightarrow> get32 (put32 n @ bs) 0 = n"
proof -
  assume n: "n < 2 ^ 32"
  define q1 q2 q3 where "q1 = n div 256" and "q2 = q1 div 256" and "q3 = q2 div 256"
  have q: "n div 2 ^ 8 = q1" "n div 2 ^ 16 = q2" "n div 2 ^ 24 = q3"
    by (simp_all add: q1_def q2_def q3_def div_mult2_eq [symmetric])
  have "q3 < 256" using n unfolding q(3) [symmetric] by (simp add: div_less_iff_less_mult)
  then have "n = n mod 256 + 256 * (q1 mod 256) + 65536 * (q2 mod 256 + 256 * (q3 mod 256))"
    using div_mult_mod_eq [of n 256] div_mult_mod_eq [of q1 256] div_mult_mod_eq [of q2 256]
    unfolding q1_def [symmetric] q2_def [symmetric] q3_def [symmetric] by simp
  then show ?thesis unfolding put32_def q by (simp add: get32_def get16_def unat_of_nat)
qed

lemma new_entry_ok:
  assumes "length e = 20" "length name \<le> NAME_MAX" "0 \<notin> set name" "sector < 2 ^ 32"
  shows "length (new_entry name sector e) = 20" "e_in_use (new_entry name sector e)"
    "0 \<in> set (e_name (new_entry name sector e))" "slot_name (new_entry name sector e) = name"
    "e_inode_sector (new_entry name sector e) = sector"
proof -
  have n: "length name \<le> 14" using assms(2) by (simp add: NAME_MAX_def)
  let ?tail = "drop (4 + length name + 1) (e[19 := 1])"
  have e: "new_entry name sector e = put32 sector @ name @ [0] @ ?tail"
    using n assms(1) by (simp add: new_entry_def set_inode_sector_def set_name_def set_in_use_def NAME_MAX_def)
  have p: "length (put32 sector) = 4" by (simp add: put32_def)
  show "length (new_entry name sector e) = 20" using n assms(1) p by (simp add: e)
  have "new_entry name sector e ! 19 = ?tail ! (19 - (4 + length name + 1))"
    using n p by (simp add: e nth_append nth_Cons')
  also have "\<dots> = 1" using n assms(1) by simp
  finally show "e_in_use (new_entry name sector e)" by (simp add: e_in_use_def)
  have nm: "e_name (new_entry name sector e) = name @ 0 # take (14 - length name) ?tail"
    using n p by (simp add: e_name_def e NAME_MAX_def take_Cons' Suc_diff_le)
  show "0 \<in> set (e_name (new_entry name sector e))" by (simp add: nm)
  show "slot_name (new_entry name sector e) = name"
    using assms(3) unfolding slot_name_def nm by (subst takeWhile_append2) auto
  show "e_inode_sector (new_entry name sector e) = sector"
    unfolding e_inode_sector_def e by (rule get_put32 [OF assms(4)])
qed

lemma find_upd:
  assumes "find P [0..<n] = None" "\<And>k. Q k \<longleftrightarrow> (if k = j then R else P k)" "j < n"
  shows "find Q [0..<n] = (if R then Some j else None)"
proof (cases R)
  case True
  have "Q j" "\<And>k. k < j \<Longrightarrow> \<not> Q k" using assms True by (auto simp: find_None_iff)
  then have "find Q ([0..<j] @ [j..<n]) = Some j"
    using assms(3) by (subst upt_conv_Cons) (auto simp: find_Some_iff nth_append intro!: exI [of _ j])
  moreover have "[0..<j] @ [j..<n] = [0..<n]" using assms(3) using assms(3) upt_add_eq_append [of 0 j "n - j"] by simp
  ultimately show ?thesis using True by simp
next
  case False
  then have "\<forall>k \<in> set [0..<n]. \<not> Q k" using assms(1,2) by (auto simp: find_None_iff)
  then show ?thesis using False by (simp add: find_None_iff)
qed

lemma find_upd_other:
  assumes "\<And>k. k \<noteq> j \<Longrightarrow> Q k \<longleftrightarrow> P k" "\<not> Q j" "\<not> P j"
  shows "find Q xs = find P xs"
proof -
  have "Q k \<longleftrightarrow> P k" for k using assms by (cases "k = j") auto
  then have "Q = P" by blast
  then show ?thesis by simp
qed

text \<open>The directory after the slot \<open>k\<close>, which was free, has been overwritten.\<close>

lemma dir_map_new:
  assumes "\<And>j. slot s1 dev i j = (if j = k then e else slot s dev i j)" "k < slot_cnt i"
    "\<not> e_in_use (slot s dev i k)" "e_in_use e" "find_slot s dev i (slot_name e) 0 = None"
  shows "dir_map s1 dev i = (dir_map s dev i)(slot_name e \<mapsto> e_inode_sector e)"
proof (rule ext)
  fix n
  show "dir_map s1 dev i n = ((dir_map s dev i)(slot_name e \<mapsto> e_inode_sector e)) n"
  proof (cases "n = slot_name e")
    case True
    have "find (\<lambda>j. slot_matches n (slot s1 dev i j)) [0..<slot_cnt i] = (if True then Some k else None)"
      by (rule find_upd [OF assms(5) [folded True, unfolded find_slot_def] _ assms(2)])
        (use assms(1,4) True in \<open>auto simp: slot_matches_def\<close>)
    then have "find_slot s1 dev i n 0 = Some k" by (simp add: find_slot_def)
    then show ?thesis using True assms(1) by (simp add: dir_map_def)
  next
    case False
    have f: "find_slot s1 dev i n 0 = find_slot s dev i n 0"
      unfolding find_slot_def
      by (rule find_upd_other [of k]) (use assms(1,3) False in \<open>auto simp: slot_matches_def\<close>)
    have "j \<noteq> k" if "find_slot s dev i n 0 = Some j" for j
      using that assms(3) by (auto simp: find_slot_def find_Some_iff slot_matches_def)
    then show ?thesis using False assms(1) f by (cases "find_slot s dev i n 0") (auto simp: dir_map_def)
  qed
qed

text \<open>Writing an entry into a slot, or behind the last one, where it does not fit.\<close>

lemma write_slot:
  assumes dir: "dir_ok s dev a i" "20 dvd file_size i" and e: "length e = 20" and k: "k \<le> slot_cnt i"
  shows "\<exists>s'. write_loop i False e (int (20 * k)) 0 s = Some (if k < slot_cnt i then 20 else 0, s') \<and>
    (\<forall>j. slot s' dev i j = (if j = k \<and> k < slot_cnt i then e else slot s dev i j)) \<and>
    fs_blocks s' dev \<and> mallocs s' = [] \<and> inode_ok s' dev i \<and> inodes s' a = Some i"
proof -
  let ?n = "min (length e) (file_size i - 20 * k)"
  obtain s' where s': "write_loop i False e (int (20 * k)) 0 s = Some (0 + int ?n, s')" "wrote dev (file_sectors i) s s'"
      "fs_blocks s' dev" "mallocs s' = []"
      "\<And>b. file_byte s' dev i b = (if 20 * k \<le> b \<and> b < 20 * k + ?n then e ! (b - 20 * k) else file_byte s dev i b)"
    using write_loop_ok [OF dir_okD(1,3,4) [OF dir(1)], of False e "20 * k" 0] by blast
  have "dev < length (all_blocks s)" using dir_okD(1) [OF dir(1)] by (simp add: fs_blocks_def)
  then have ok: "inode_ok s' dev i" "inodes s' a = Some i"
    using dir_okD(2,3) [OF dir(1)] wrote_dev_size [OF s'(2)] wroteD(7) [OF s'(2)] by (simp_all add: inode_ok_def)
  have "file_size i = 20 * slot_cnt i" using dir(2) by (simp add: slot_cnt_def)
  then have n: "?n = (if k < slot_cnt i then 20 else 0)" using e k by auto
  have "slot s' dev i j = (if j = k \<and> k < slot_cnt i then e else slot s dev i j)" for j
  proof (rule nth_equalityI)
    show "length (slot s' dev i j) = length (if j = k \<and> k < slot_cnt i then e else slot s dev i j)" using e by simp
    fix b assume "b < length (slot s' dev i j)"
    then have b: "b < 20" by simp
    have "20 * k \<le> 20 * j + b \<and> 20 * j + b < 20 * k + 20 \<longleftrightarrow> j = k" using b by auto
    then show "slot s' dev i j ! b = (if j = k \<and> k < slot_cnt i then e else slot s dev i j) ! b"
      using b by (auto simp: slot_def s'(5) n)
  qed
  then show ?thesis using s'(1,3,4) ok n by auto
qed

lemma dir_map_same: "same_but_counts s t \<Longrightarrow> dir_ok s dev a i \<Longrightarrow> dir_map t dev i = dir_map s dev i"
  using same_slots [of s t dev i] dir_okD(1) [of s dev a i] by (intro ext) (simp add: dir_map_def find_slot_def)

text \<open>\<open>dir_add\<close> of a valid name that is not in the directory.\<close>

lemma dir_add_new:
  assumes dir: "dir_ok s dev (d_inode d) i" "deny_write_cnt i = 0" "20 dvd file_size i"
    and name: "0 \<notin> set name" "name \<noteq> []" "length name \<le> 14" and sector: "sector < 2 ^ 32"
    and none: "find_slot s dev i name 0 = None"
  shows "\<exists>s'. dir_add d name sector s = Some (free_slot s dev i 0 \<noteq> None, s') \<and> dir_ok s' dev (d_inode d) i \<and>
    dir_map s' dev i = (if free_slot s dev i 0 \<noteq> None then (dir_map s dev i)(name \<mapsto> sector) else dir_map s dev i)"
proof -
  obtain s1 where s1: "lookup d name s = Some (None, s1)" "same_but_counts s s1"
    using lookup_ok [OF dir(1), of name] none by auto
  note ok1 = dir_ok_same [OF s1(2) dir(1)]
  have sl1: "slot s1 dev i = slot s dev i" by (rule same_slots [OF s1(2) dir_okD(1) [OF dir(1)]])
  have fs1: "free_slot s1 dev i = free_slot s dev i" by (intro ext) (simp add: free_slot_def sl1)
  let ?k = "case free_slot s dev i 0 of None \<Rightarrow> slot_cnt i | Some k \<Rightarrow> k"
  obtain e s2 where s2: "free_slot_loop (d_inode d) (replicate 20 0) 0 s1 = Some (e, 20 * int ?k, s2)" "same_but_counts s1 s2"
      "length e = 20"
    using free_slot_loop_ok [OF ok1, of "replicate 20 0" 0] by (auto simp: fs1 sl1)
  note ok2 = dir_ok_same [OF s2(2) ok1]
  have sl2: "slot s2 dev i = slot s dev i" using same_slots [OF s2(2) dir_okD(1) [OF ok1]] sl1 by simp
  let ?e = "new_entry name sector e"
  have new: "length ?e = 20" "e_in_use ?e" "0 \<in> set (e_name ?e)" "slot_name ?e = name" "e_inode_sector ?e = sector"
    using new_entry_ok [OF s2(3) _ name(1) sector] name(3) by (auto simp: NAME_MAX_def)
  have k: "?k \<le> slot_cnt i" "?k < slot_cnt i \<longleftrightarrow> free_slot s dev i 0 \<noteq> None"
    and unused: "free_slot s dev i 0 \<noteq> None \<Longrightarrow> \<not> e_in_use (slot s dev i ?k)"
    using free_slotD [of s dev i] by (auto split: option.splits)
  obtain s3 where s3: "write_loop i False ?e (int (20 * ?k)) 0 s2 = Some (if ?k < slot_cnt i then 20 else 0, s3)"
      "\<And>j. slot s3 dev i j = (if j = ?k \<and> ?k < slot_cnt i then ?e else slot s dev i j)"
      "fs_blocks s3 dev" "mallocs s3 = []" "inode_ok s3 dev i" "inodes s3 (d_inode d) = Some i"
    using write_slot [OF ok2 dir(3) new(1) k(1)] unfolding sl2 by blast
  have "dir_add d name sector s = Some (?k < slot_cnt i, s3)"
    using name s1(1) s2(1) s3(1) dir_okD(2) [OF ok2] dir(2) new(1)
    by (simp add: dir_add_def NAME_MAX_def DIR_ENTRY_SIZE_def inode_write_at_def new_entry_def)
  moreover have "dir_ok s3 dev (d_inode d) i"
    using s3 dir_okD(5) [OF dir(1)] new(3) by (auto simp: dir_ok_def names_ok_def)
  moreover have "dir_map s3 dev i = (if ?k < slot_cnt i then (dir_map s dev i)(name \<mapsto> sector) else dir_map s dev i)"
  proof (cases "?k < slot_cnt i")
    case True
    then show ?thesis using dir_map_new [of s3 dev i ?k ?e s] s3(2) unused k(2) none new(2,4,5) by simp
  next
    case False
    then show ?thesis using s3(2) by (intro ext) (simp add: dir_map_def find_slot_def)
  qed
  ultimately show ?thesis unfolding k(2) by blast
qed

lemma dir_add_refused:
  assumes dir: "dir_ok s dev (d_inode d) i" and no: "name = [] \<or> length name > 14 \<or> find_slot s dev i name 0 \<noteq> None"
  shows "\<exists>s'. dir_add d name sector s = Some (False, s') \<and> dir_ok s' dev (d_inode d) i \<and> dir_map s' dev i = dir_map s dev i"
proof (cases "name = [] \<or> length name > 14")
  case True
  then show ?thesis using dir by (auto simp: dir_add_def NAME_MAX_def)
next
  case False
  obtain s1 where s1: "lookup d name s =
      Some (map_option (\<lambda>k. (slot s dev i k, 20 * int k)) (find_slot s dev i name 0), s1)" "same_but_counts s s1"
    using lookup_ok [OF dir] by blast
  then show ?thesis
    using False no dir_ok_same [OF s1(2) dir] dir_map_same [OF s1(2) dir] by (auto simp: dir_add_def NAME_MAX_def)
qed

lemma lookup_map:
  assumes "dir_ok s dev (d_inode d) i"
  shows "\<exists>r s'. lookup d n s = Some (r, s') \<and> map_option (e_inode_sector \<circ> fst) r = dir_map s dev i n \<and> same_but_counts s s'"
  using lookup_ok [OF assms, of n] by (auto simp: dir_map_def option.map_comp comp_def)

text \<open>A directory is a store of sectors by name; the handle, the device and the inode stay the same.\<close>

definition dir_find :: "dir \<Rightarrow> 'a fs_state_scheme \<Rightarrow> u8 list \<Rightarrow> (nat option \<times> 'a fs_state_scheme) option" where
  "dir_find d s n = map_option (apfst (map_option (e_inode_sector \<circ> fst))) (lookup d n s)"

interpretation names: map_store "\<lambda>s. dir_ok s dev (d_inode d) i \<and> deny_write_cnt i = 0 \<and> 20 dvd file_size i"
    "\<lambda>s. dir_map s dev i" "\<lambda>n. True" "\<lambda>s n sector. 0 \<notin> set n \<and> sector < 2 ^ 32" "dir_find d"
    "\<lambda>s n sector. dir_add d n sector s" for dev d i
proof (unfold_locales, goal_cases)
  case (1 s n)
  then obtain r s' where s': "lookup d n s = Some (r, s')" "map_option (e_inode_sector \<circ> fst) r = dir_map s dev i n"
    "same_but_counts s s'" using lookup_map [of s dev d i n] by blast
  then show ?case using 1 dir_ok_same [OF s'(3)] dir_map_same [OF s'(3)] by (auto simp: dir_find_def)
next
  case (2 s n sector)
  then have dir: "dir_ok s dev (d_inode d) i" "deny_write_cnt i = 0" "20 dvd file_size i" and "find_slot s dev i n 0 = None"
    by (auto simp: dir_map_def)
  then show ?case
    using dir_add_refused [OF dir(1), of n sector] dir_add_new [OF dir, of n sector] 2 by (cases "n = [] \<or> length n > 14") fastforce+
qed

text \<open>C6:
  A directory behaves as a finite map from names to sectors. On a directory whose file lies on the
  device and whose size is a multiple of the size of an entry, with writes to it allowed and allocation
  succeeding, and for a name without a null byte, \<open>dir_add\<close> returns; it succeeds exactly when the name is not empty, has at most 14 bytes, is not in
  the directory, and there is a free slot. When it succeeds the map is updated at the name, and when
  it fails the map is unchanged. Afterwards \<open>lookup\<close> returns for every name, with the entry that
  holds the sector of the map, or none. So every history of lookups and of additions of new names is
  one that a finite map explains.
\<close>

theorem dir_refines_map:
  assumes dir: "dir_ok s dev (d_inode d) i" "deny_write_cnt i = 0" "20 dvd file_size i"
    and name: "0 \<notin> set name" and sector: "sector < 2 ^ 32"
    and success: "success \<longleftrightarrow> name \<noteq> [] \<and> length name \<le> 14 \<and> dir_map s dev i name = None \<and>
      (\<exists>k < slot_cnt i. \<not> e_in_use (slot s dev i k))"
    and ops: "distinct (put_keys ops)" "\<forall>n \<in> set (put_keys ops). dir_map s dev i n = None"
      "\<forall>n k. Put n k \<in> set ops \<longrightarrow> 0 \<notin> set n \<and> k < 2 ^ 32"
  shows "(\<exists>s1. dir_add d name sector s = Some (success, s1) \<and>
      dir_map s1 dev i = (if success then (dir_map s dev i)(name \<mapsto> sector) else dir_map s dev i) \<and>
      dir_ok s1 dev (d_inode d) i \<and>
      (\<forall>n. \<exists>r s2. lookup d n s1 = Some (r, s2) \<and> map_option (e_inode_sector \<circ> fst) r = dir_map s1 dev i n)) \<and>
    (\<exists>as s1. run_store (dir_find d) (\<lambda>s n sector. dir_add d n sector s) s ops = Some (as, s1) \<and>
      explains (dir_map s dev i) ops as (dir_map s1 dev i))"
proof
  have free: "(\<exists>k < slot_cnt i. \<not> e_in_use (slot s dev i k)) \<longleftrightarrow> free_slot s dev i 0 \<noteq> None"
    by (auto simp: free_slot_def find_None_iff)
  have none: "dir_map s dev i name = None \<longleftrightarrow> find_slot s dev i name 0 = None" by (simp add: dir_map_def)
  have "\<exists>s1. dir_add d name sector s = Some (success, s1) \<and> dir_ok s1 dev (d_inode d) i \<and>
      dir_map s1 dev i = (if success then (dir_map s dev i)(name \<mapsto> sector) else dir_map s dev i)"
    using dir_add_refused [OF dir(1), of name sector] dir_add_new [OF dir name _ _ sector] success free none
    by (cases "name = [] \<or> length name > 14 \<or> find_slot s dev i name 0 \<noteq> None") auto
  then show "\<exists>s1. dir_add d name sector s = Some (success, s1) \<and>
      dir_map s1 dev i = (if success then (dir_map s dev i)(name \<mapsto> sector) else dir_map s dev i) \<and>
      dir_ok s1 dev (d_inode d) i \<and>
      (\<forall>n. \<exists>r s2. lookup d n s1 = Some (r, s2) \<and> map_option (e_inode_sector \<circ> fst) r = dir_map s1 dev i n)"
    using lookup_map [of _ dev d i] by blast
  show "\<exists>as s1. run_store (dir_find d) (\<lambda>s n sector. dir_add d n sector s) s ops = Some (as, s1) \<and>
      explains (dir_map s dev i) ops as (dir_map s1 dev i)"
    using names.run_explained [of s dev d i ops] dir ops by blast
qed

text \<open>An empty directory with room for two entries.\<close>

definition demo_dir_inode :: inode where
  "demo_dir_inode = \<lparr>i_sector = 1, open_cnt = 1, i_removed = False, deny_write_cnt = 0,
     i_data = \<lparr>id_start = 3, id_length = 40, id_magic = INODE_MAGIC, id_unused = replicate 500 0\<rparr>\<rparr>"

definition demo_dir :: fs_state where
  "demo_dir = demo_fs\<lparr>inodes := (\<lambda>_. None)(1 \<mapsto> demo_dir_inode)\<rparr>"

lemma demo_dir_ok: "dir_ok demo_dir 0 1 demo_dir_inode" "slot_cnt demo_dir_inode = 2"
  "\<not> e_in_use (slot demo_dir 0 demo_dir_inode k)"
proof -
  have sec: "sector_at demo_dir 0 t = replicate 512 0" for t
    by (simp add: sector_at_def media_at_def demo_dir_def demo_fs_def)
  have byte: "file_byte demo_dir 0 demo_dir_inode j = 0" for j by (simp add: file_byte_def sec BLOCK_SECTOR_SIZE_def)
  have free: "\<not> e_in_use (slot demo_dir 0 demo_dir_inode j)" for j by (simp add: e_in_use_def slot_def byte)
  show "slot_cnt demo_dir_inode = 2" by (simp add: slot_cnt_def file_size_def demo_dir_inode_def)
  show "\<not> e_in_use (slot demo_dir 0 demo_dir_inode k)" by (rule free)
  have "fs_blocks demo_dir 0" using demo_fs_ok(1) by (simp add: fs_blocks_def demo_dir_def)
  moreover have "inode_ok demo_dir 0 demo_dir_inode"
    by (simp add: inode_ok_def demo_dir_inode_def demo_dir_def demo_fs_def file_size_def dev_size_def)
  ultimately show "dir_ok demo_dir 0 1 demo_dir_inode"
    using free by (simp add: dir_ok_def names_ok_def) (simp add: demo_dir_def demo_fs_def)
qed

lemma dir_refines_map_witness:
  "\<exists>s1. dir_add \<lparr>d_inode = 1, d_pos = 0\<rparr> [97, 98] 7 demo_dir = Some (True, s1) \<and>
    dir_map s1 0 demo_dir_inode [97, 98] = Some 7 \<and>
    (\<exists>as s2. run_store (dir_find \<lparr>d_inode = 1, d_pos = 0\<rparr>) (\<lambda>s n sector. dir_add \<lparr>d_inode = 1, d_pos = 0\<rparr> n sector s)
      demo_dir [Put [99] 8, Find [99]] = Some (as, s2) \<and> length as = 2)"
proof -
  have none: "dir_map demo_dir 0 demo_dir_inode n = None" for n
    by (simp add: dir_map_def find_slot_def find_None_iff slot_matches_def demo_dir_ok(3))
  have "\<exists>k < slot_cnt demo_dir_inode. \<not> e_in_use (slot demo_dir 0 demo_dir_inode k)"
    unfolding demo_dir_ok(2) using demo_dir_ok(3) by (intro exI [of _ 0]) simp
  moreover have "deny_write_cnt demo_dir_inode = 0" "20 dvd file_size demo_dir_inode"
    by (simp_all add: demo_dir_inode_def file_size_def)
  moreover have "dir_ok demo_dir 0 (d_inode \<lparr>d_inode = 1, d_pos = 0\<rparr>) demo_dir_inode" using demo_dir_ok(1) by simp
  ultimately obtain s1 as s2 where r: "dir_add \<lparr>d_inode = 1, d_pos = 0\<rparr> [97, 98] 7 demo_dir = Some (True, s1)"
    "dir_map s1 0 demo_dir_inode = (dir_map demo_dir 0 demo_dir_inode)([97, 98] \<mapsto> 7)"
    "run_store (dir_find \<lparr>d_inode = 1, d_pos = 0\<rparr>) (\<lambda>s n sector. dir_add \<lparr>d_inode = 1, d_pos = 0\<rparr> n sector s)
      demo_dir [Put [99] 8, Find [99]] = Some (as, s2)"
    "explains (dir_map demo_dir 0 demo_dir_inode) [Put [99] 8, Find [99]] as (dir_map s2 0 demo_dir_inode)"
    using dir_refines_map [of demo_dir 0 "\<lparr>d_inode = 1, d_pos = 0\<rparr>" demo_dir_inode "[97, 98]" 7 True "[Put [99] 8, Find [99]]"] none
    by auto
  have "length as = length ops" if "explains m ops as m'" for m ops as m'
    using that by (induction m ops as m' rule: explains.induct) (auto split: if_splits)
  from this [OF r(4)] show ?thesis using r(1-3) by simp
qed

end
