(* ===== verification/Kernel_Ustar_Safe.thy ===== *)
theory Kernel_Ustar_Safe
  imports Kernel_Ustar
begin

text \<open>
  A header that \<open>ustar_make_header\<close> composes is one that \<open>ustar_parse_header\<close> accepts, and the
  parser gives back what went in. The octal fields are \<open>octal n v\<close>, the \<open>n\<close> octal digits of \<open>v\<close>.
\<close>

section \<open>Octal fields\<close>

fun octal :: "nat \<Rightarrow> nat \<Rightarrow> u8 list" where
  "octal 0 v = []"
| "octal (Suc n) v = octal n (v div 8) @ [48 + of_nat (v mod 8)]"

fun odigits :: "nat \<Rightarrow> string" where
  "odigits v = (if v = 0 then [] else odigits (v div 8) @ [ib_digits base_o ! (v mod 8)])"

declare odigits.simps [simp del]

lemma length_octal [simp]: "length (octal n v) = n"
  by (induction n arbitrary: v) auto

lemma odigits_0 [simp]: "odigits 0 = []"
  by (simp add: odigits.simps)

lemma digits_loop_octal: "digits_loop base_o False v k buf = buf @ rev (odigits v)"
proof (induction v arbitrary: k buf rule: odigits.induct)
  case (1 v)
  then show ?case
    by (subst digits_loop.simps, subst odigits.simps) (simp add: base_o_def del: digits_loop.simps)
qed

lemma octal_digit: "d < 8 \<Longrightarrow> (of_char (ib_digits base_o ! d) :: u8) = 48 + of_nat d"
proof -
  have "\<forall>d \<in> set [0..<8]. (of_char (ib_digits base_o ! d) :: u8) = 48 + of_nat d" by code_simp
  then show "d < 8 \<Longrightarrow> ?thesis" by simp
qed

lemma odigits_octal:
  "v < 8 ^ n \<Longrightarrow> length (odigits v) \<le> n \<and>
   bytes_of (replicate (n - length (odigits v)) (CHR ''0'') @ odigits v) = octal n v"
proof (induction n arbitrary: v)
  case (Suc n)
  show ?case
  proof (cases "v = 0")
    case True
    have "octal m 0 = replicate m 48" for m by (induction m) (simp_all add: replicate_append_same)
    moreover have "(of_char (CHR ''0'') :: u8) = 48" by simp
    ultimately show ?thesis using True by (simp add: bytes_of_def map_replicate)
  next
    case False
    have "v div 8 < 8 ^ n" using Suc.prems by (simp add: div_less_iff_less_mult mult.commute)
    note ih = Suc.IH [OF this]
    have o: "odigits v = odigits (v div 8) @ [ib_digits base_o ! (v mod 8)]" using False by (subst odigits.simps) simp
    have "n - length (odigits (v div 8)) = Suc n - length (odigits v)" using o by simp
    then show ?thesis using ih octal_digit [of "v mod 8"] o by (simp add: bytes_of_def)
  qed
qed (simp add: bytes_of_def)

lemma octal_format:
  assumes "unat w < 8 ^ n" "0 < n" "c = \<lparr>flags = ZERO, width = int n, precision = - 1, conv_type = T_INT\<rparr>"
  shows "bytes_of (format_integer (unat w) False False base_o c) = octal n (unat w)"
proof -
  let ?v = "unat w"
  have fl: "ZERO AND PLUS = 0" "ZERO AND SPACE = 0" "ZERO AND POUND = 0" "ZERO AND GROUP = 0" "ZERO AND MINUS = 0"
    "ZERO AND ZERO \<noteq> 0" "ZERO \<noteq> 0" "ZERO AND (MINUS OR ZERO) \<noteq> 0"
    by (simp_all add: ZERO_def PLUS_def SPACE_def POUND_def GROUP_def MINUS_def)
  note d = odigits_octal [OF assms(1)]
  have f: "format_integer ?v False False base_o c = replicate (n - length (if ?v = 0 then ''0'' else odigits ?v)) (CHR ''0'') @
      (if ?v = 0 then ''0'' else odigits ?v)"
  proof (cases "?v = 0")
    case True
    then show ?thesis using assms(2)
      by (simp add: format_integer_def assms(3) fl Let_def digits_loop_octal output_dup_def nat_diff_distrib' del: digits_loop.simps)
  next
    case False
    then have "odigits ?v \<noteq> []" by (subst odigits.simps) simp
    then have "1 - length (odigits ?v) = 0" by (cases "odigits ?v") auto
    then show ?thesis using False d
      by (simp add: format_integer_def assms(3) fl Let_def digits_loop_octal output_dup_def nat_diff_distrib' del: digits_loop.simps)
  qed
  show ?thesis
  proof (cases "?v = 0")
    case True
    have "octal m 0 = replicate m 48" for m by (induction m) (simp_all add: replicate_append_same)
    moreover have "(of_char (CHR ''0'') :: u8) = 48" by simp
    ultimately show ?thesis unfolding f using True assms(2)
      by (cases n) (simp_all add: bytes_of_def map_replicate replicate_append_same)
  next
    case False
    then show ?thesis unfolding f using d by simp
  qed
qed

lemma printed_octal:
  "vprintf_helper ''%07o'' [Arg32 w] = Some (format_integer (unat w) False False base_o
     \<lparr>flags = ZERO, width = 7, precision = - 1, conv_type = T_INT\<rparr>)"
  "vprintf_helper ''%011o'' [Arg32 w] = Some (format_integer (unat w) False False base_o
     \<lparr>flags = ZERO, width = 11, precision = - 1, conv_type = T_INT\<rparr>)"
  by (simp_all add: parse_conversion_def flag_of_def parse_star_def parse_precision_def parse_type_def convert_def
      unsigned_arg_def int_arg_def isdigit_def Let_def ZERO_def MINUS_def PLUS_def)

lemma put_octal_7:
  assumes "unat w < 8 ^ 7" "snd f = 8"
  shows "put_printf h f ''%07o'' [Arg32 w] = Some (put_field h f (octal 7 (unat w) @ [0]))"
proof -
  let ?s = "format_integer (unat w) False False base_o \<lparr>flags = ZERO, width = 7, precision = - 1, conv_type = T_INT\<rparr>"
  have b: "bytes_of ?s = octal 7 (unat w)" by (rule octal_format [OF assms(1)]) simp_all
  then have "length ?s = 7" unfolding bytes_of_def by (metis length_map length_octal)
  then show ?thesis using b by (simp add: put_printf_def string_printf_def printed_octal assms(2) del: vprintf_helper.simps)
qed

lemma put_octal_11:
  assumes "snd f = 12"
  shows "put_printf h f ''%011o'' [Arg32 w] = Some (put_field h f (octal 11 (unat w) @ [0]))"
proof -
  let ?s = "format_integer (unat w) False False base_o \<lparr>flags = ZERO, width = 11, precision = - 1, conv_type = T_INT\<rparr>"
  have "unat w < 8 ^ 11" using unat_u32_lt [of w] by (simp del: unat_u32_lt)
  then have b: "bytes_of ?s = octal 11 (unat w)" by (rule octal_format) simp_all
  then have "length ?s = 11" unfolding bytes_of_def by (metis length_map length_octal)
  then show ?thesis using b by (simp add: put_printf_def string_printf_def printed_octal assms del: vprintf_helper.simps)
qed

lemma octal_digit_byte: "d < 8 \<Longrightarrow> 48 \<le> (48 + of_nat d :: u8) \<and> (48 + of_nat d :: u8) \<le> 55 \<and> (ucast (48 + of_nat d :: u8) :: u32) = 48 + of_nat d"
proof -
  have "\<forall>d \<in> set [0..<8]. 48 \<le> (48 + of_nat d :: u8) \<and> (48 + of_nat d :: u8) \<le> 55 \<and> (ucast (48 + of_nat d :: u8) :: u32) = 48 + of_nat d"
    by code_simp
  then show "d < 8 \<Longrightarrow> ?thesis" by simp
qed

lemma octal_loop_ok:
  assumes "v < 8 ^ n" "unat w * 8 ^ n + v < 2 ^ 32"
  shows "octal_loop (octal n v @ rest) ofs w = octal_loop rest (ofs + n) (of_nat (unat w * 8 ^ n + v))"
  using assms
proof (induction n arbitrary: v rest)
  case 0
  then show ?case by simp
next
  case (Suc n)
  have v: "v div 8 < 8 ^ n" using Suc.prems(1) by (simp add: div_less_iff_less_mult mult.commute)
  have s: "8 * (unat w * 8 ^ n + v div 8) + v mod 8 = unat w * 8 ^ Suc n + v" by (simp add: algebra_simps)
  then have small: "unat w * 8 ^ n + v div 8 < 2 ^ 29" using Suc.prems(2) by simp
  then have "unat w * 8 ^ n + v div 8 < 2 ^ 32" by simp
  note ih = Suc.IH [OF v this, of "[48 + of_nat (v mod 8)] @ rest"]
  let ?p = "of_nat (unat w * 8 ^ n + v div 8) :: u32"
  have "unat ?p = unat w * 8 ^ n + v div 8" using small by (intro unat_of_nat_small) simp
  then have le: "\<not> ?p > 0xffffffff div 8" using small by (simp add: word_less_nat_alt)
  note d = octal_digit_byte [of "v mod 8"]
  have "(48 + of_nat r - 48 + of_nat q * 8 :: u32) = of_nat (8 * q + r)" for q r by simp
  then have val: "(48 + of_nat (v mod 8) - 48 + ?p * 8 :: u32) = of_nat (unat w * 8 ^ Suc n + v)"
    unfolding s [symmetric] .
  have "octal_loop (octal (Suc n) v @ rest) ofs w = octal_loop ((48 + of_nat (v mod 8)) # rest) (ofs + n) ?p"
    using ih by simp
  also have "\<dots> = octal_loop rest (ofs + n + 1) (48 + of_nat (v mod 8) - 48 + ?p * 8)"
    using d le by simp
  finally show ?case unfolding val by simp
qed

lemma parse_octal: "v < 8 ^ n \<Longrightarrow> v < 2 ^ 32 \<Longrightarrow> 0 < n \<Longrightarrow> parse_octal_field (octal n v @ [0]) = Some (of_nat v)"
  using octal_loop_ok [of v n 0 "[0]" 0] by (simp add: parse_octal_field_def)

section \<open>Fields of a composed header\<close>

lemma length_put_field [simp]: "fst f + length bs \<le> length h \<Longrightarrow> length (put_field h f bs) = length h"
  by (simp add: put_field_def)

lemma nth_put_field:
  "fst f + length bs \<le> length h \<Longrightarrow> put_field h f bs ! k =
     (if fst f \<le> k \<and> k < fst f + length bs then bs ! (k - fst f) else h ! k)"
  by (auto simp: put_field_def nth_append)

lemma get_put_same: "fst f + length bs \<le> length h \<Longrightarrow> length bs = snd f \<Longrightarrow> get_field (put_field h f bs) f = bs"
  by (simp add: get_field_def put_field_def)

lemma get_put_other:
  assumes "fst f + length bs \<le> length h" "fst g + snd g \<le> fst f \<or> fst f + length bs \<le> fst g" "fst g + snd g \<le> length h"
  shows "get_field (put_field h f bs) g = get_field h g"
proof (rule nth_equalityI)
  show "length (get_field (put_field h f bs) g) = length (get_field h g)" using assms by (simp add: get_field_def)
  fix j assume "j < length (get_field (put_field h f bs) g)"
  then have "j < snd g" by (simp add: get_field_def)
  then show "get_field (put_field h f bs) g ! j = get_field h g ! j"
    using assms by (auto simp: get_field_def nth_put_field)
qed

lemma chksum_fold:
  "unat (fold (\<lambda>i c. c + (if a \<le> i \<and> i < b then 32 else ucast ((h :: u8 list) ! i))) [0..<n] 0 :: u32) \<le> 255 * n"
  if "n \<le> 512"
  using that
proof (induction n)
  case (Suc n)
  let ?f = "fold (\<lambda>i c. c + (if a \<le> i \<and> i < b then 32 else ucast (h ! i))) [0..<n] 0 :: u32"
  let ?x = "if a \<le> n \<and> n < b then 32 else ucast (h ! n) :: u32"
  have "unat (ucast (h ! n) :: u32) = unat (h ! n)"
    using unat_u8_lt [of "h ! n"] by (simp add: unsigned_ucast_eq take_bit_nat_eq_self_iff del: unat_u8_lt)
  then have "unat (ucast (h ! n) :: u32) \<le> 255" using unat_u8_lt [of "h ! n"] by (simp del: unat_u8_lt)
  then have x: "unat ?x \<le> 255" by simp
  have f: "unat ?f \<le> 255 * n" using Suc by simp
  have "unat (?f + ?x) = unat ?f + unat ?x" using x f Suc.prems by (intro unat_add_small) simp
  then show ?case using x f by simp
qed simp

lemma chksum_bound: "unat (calculate_chksum h) < 8 ^ 7"
  using chksum_fold [of 512 "fst fld_chksum" "fst fld_chksum + snd fld_chksum" h]
  by (simp add: calculate_chksum_def USTAR_HEADER_SIZE_def)

lemma chksum_put_chksum:
  assumes "length h = 512" "length bs = 8"
  shows "calculate_chksum (put_field h fld_chksum bs) = calculate_chksum h"
  unfolding calculate_chksum_def
  by (rule fold_cong) (auto simp: nth_put_field assms fld_chksum_def USTAR_HEADER_SIZE_def)

text \<open>The header before its checksum.\<close>

definition composed :: "u8 list \<Rightarrow> ustar_type \<Rightarrow> int \<Rightarrow> u8 list" where
  "composed name type sz =
     (let h = put_field (replicate 512 0) fld_name (name @ [0]);
          h = put_field h fld_mode (octal 7 (if type = USTAR_REGULAR then 420 else 493) @ [0]);
          h = put_field h fld_uid (bytes_of ''0000000'' @ [0]);
          h = put_field h fld_gid (bytes_of ''0000000'' @ [0]);
          h = put_field h fld_size (octal 11 (unat (of_int sz :: u32)) @ [0]);
          h = put_field h fld_mtime (octal 11 1136102400 @ [0]);
          h = put_field h fld_typeflag [type_byte type];
          h = put_field h fld_magic (bytes_of ''ustar'' @ [0]);
          h = put_field h fld_version (bytes_of ''00'');
          h = put_field h fld_gname (bytes_of ''root'' @ [0])
      in put_field h fld_uname (bytes_of ''root'' @ [0]))"

lemmas fld_defs = fld_name_def fld_mode_def fld_uid_def fld_gid_def fld_size_def fld_mtime_def fld_chksum_def
  fld_typeflag_def fld_magic_def fld_version_def fld_gname_def fld_uname_def fld_prefix_def

lemma length_bytes_of [simp]: "length (bytes_of cs) = length cs"
  by (simp add: bytes_of_def)

lemma length_composed: "length name \<le> 99 \<Longrightarrow> length (composed name type sz) = 512"
  by (simp add: composed_def Let_def fld_defs)

lemma composed_fields:
  assumes "length name \<le> 99"
  shows "get_field (composed name type sz) fld_magic = bytes_of ''ustar'' @ [0]"
    "get_field (composed name type sz) fld_version = bytes_of ''00''"
    "get_field (composed name type sz) fld_size = octal 11 (unat (of_int sz :: u32)) @ [0]"
    "get_field (composed name type sz) fld_name = name @ replicate (100 - length name) 0"
    "composed name type sz ! 156 = type_byte type" "composed name type sz ! 345 = 0" "composed name type sz ! 99 = 0"
proof -
  show "get_field (composed name type sz) fld_magic = bytes_of ''ustar'' @ [0]"
    using assms unfolding composed_def Let_def
    by (simp add: fld_defs get_put_other get_put_same)
  show "get_field (composed name type sz) fld_version = bytes_of ''00''"
    using assms unfolding composed_def Let_def
    by (simp add: fld_defs get_put_other get_put_same)
  show "get_field (composed name type sz) fld_size = octal 11 (unat (of_int sz :: u32)) @ [0]"
    using assms unfolding composed_def Let_def
    by (simp add: fld_defs get_put_other get_put_same)
  have "get_field (put_field (replicate 512 0) (0, 100) (name @ [0])) (0, 100) = name @ replicate (100 - length name) 0"
    using assms by (simp add: get_field_def put_field_def min_def Suc_diff_le replicate_append_same [symmetric])
  then show "get_field (composed name type sz) fld_name = name @ replicate (100 - length name) 0"
    using assms unfolding composed_def Let_def by (simp add: fld_defs get_put_other)
  show "composed name type sz ! 156 = type_byte type" "composed name type sz ! 345 = 0" "composed name type sz ! 99 = 0"
    using assms unfolding composed_def Let_def
    by (simp_all add: fld_defs nth_put_field) (auto simp: nth_append)
qed

lemma make_header_ok:
  assumes "type \<noteq> USTAR_EOF" "length (strip_antisocial_prefixes name) \<le> 99"
  shows "ustar_make_header name type sz s =
    Some (Some (put_field (composed (strip_antisocial_prefixes name) type sz) fld_chksum
       (octal 7 (unat (calculate_chksum (composed (strip_antisocial_prefixes name) type sz))) @ [0])), s)"
proof -
  have m: "unat (if type = USTAR_REGULAR then 420 else 493 :: u32) < 8 ^ 7" by simp
  have "type = USTAR_REGULAR \<or> type = USTAR_DIRECTORY" using assms(1) by (cases type) auto
  then show ?thesis using assms(2) m chksum_bound
    by (simp add: ustar_make_header_def Let_def put_octal_7 put_octal_11 put_string_def fld_defs USTAR_HEADER_SIZE_def
        composed_def kassert_simps if_distrib del: append.simps)
qed

section \<open>Names\<close>

lemma strip_prefixes_done:
  "strip_prefixes name = [] \<or> \<not> (has_prefix (strip_prefixes name) ''/'' \<or> has_prefix (strip_prefixes name) ''./'' \<or>
     has_prefix (strip_prefixes name) ''../'')"
proof (induction name rule: strip_prefixes.induct)
  case (1 name)
  then show ?case by (subst (1 2 3 4) strip_prefixes.simps) (auto split: if_splits)
qed

lemma strip_prefixes_set: "set (strip_prefixes name) \<subseteq> set name"
proof (induction name rule: strip_prefixes.induct)
  case (1 name)
  have "set (tl (dropWhile (\<lambda>b. b \<noteq> 47) name)) \<subseteq> set name" by (metis in_set_tlD set_dropWhileD subsetI)
  then show ?case using 1 by (subst strip_prefixes.simps) auto
qed

lemma strip_idem: "strip_antisocial_prefixes (strip_antisocial_prefixes name) = strip_antisocial_prefixes name"
proof -
  let ?n = "strip_prefixes name"
  have dot: "strip_prefixes (bytes_of ''.'') = bytes_of ''.''"
    by (subst strip_prefixes.simps) (simp add: has_prefix_def bytes_of_def)
  show ?thesis
  proof (cases "?n = [] \<or> ?n = bytes_of ''..''")
    case True
    then show ?thesis by (auto simp: strip_antisocial_prefixes_def Let_def dot)
  next
    case False
    then have "strip_prefixes ?n = ?n" using strip_prefixes_done [of name] by (subst strip_prefixes.simps) auto
    then show ?thesis using False by (simp add: strip_antisocial_prefixes_def Let_def)
  qed
qed

lemma strip_no_zero: "0 \<notin> set name \<Longrightarrow> 0 \<notin> set (strip_antisocial_prefixes name)"
  using strip_prefixes_set [of name] by (auto simp: strip_antisocial_prefixes_def Let_def bytes_of_def)

text \<open>C16:
  A header that is composed is parsed back. For every type but the end marker, every name that has
  at most 99 bytes once its antisocial prefixes are gone and every size an \<open>int\<close> holds,
  \<open>ustar_make_header\<close> returns a header of 512 bytes, and \<open>ustar_parse_header\<close> accepts it: the
  magic, the version and the checksum are right, and it gives the stripped name, the type and, for a
  regular file, the size.\<close>

theorem ustar_roundtrip:
  assumes "type \<noteq> USTAR_EOF" "0 \<notin> set name" "length (strip_antisocial_prefixes name) \<le> 99" "0 \<le> sz" "sz < 2 ^ 31"
  shows "\<exists>h. ustar_make_header name type sz s = Some (Some h, s) \<and> length h = 512 \<and>
    ustar_parse_header h = Inr (Some (strip_antisocial_prefixes name), type, if type = USTAR_REGULAR then sz else 0)"
proof -
  let ?n = "strip_antisocial_prefixes name"
  define c where "c = composed ?n type sz"
  define h where "h = put_field c fld_chksum (octal 7 (unat (calculate_chksum c)) @ [0])"
  have lc: "length c = 512" unfolding c_def by (rule length_composed [OF assms(3)])
  note f = composed_fields [OF assms(3), of type sz, folded c_def]
  have other: "get_field h g = get_field c g"
    if "fst g + snd g \<le> 148 \<or> 156 \<le> fst g" "fst g + snd g \<le> 512" for g
    unfolding h_def by (rule get_put_other) (use that lc in \<open>simp_all add: fld_chksum_def\<close>)
  have nth: "h ! k = c ! k" if "k < 148 \<or> 156 \<le> k" for k
    using that lc by (auto simp: h_def nth_put_field fld_chksum_def)
  have lh: "length h = 512" by (simp add: h_def lc fld_chksum_def)
  have fields: "get_field h fld_magic = bytes_of ''ustar'' @ [0]" "get_field h fld_version = bytes_of ''00''"
    "get_field h fld_size = octal 11 (unat (of_int sz :: u32)) @ [0]"
    "get_field h fld_name = ?n @ replicate (100 - length ?n) 0"
    using f(1-4) other [of fld_magic] other [of fld_version] other [of fld_size] other [of fld_name] by (simp_all add: fld_defs)
  have bytes: "h ! 156 = type_byte type" "h ! 345 = 0" "h ! 99 = 0" using f(5-7) nth by simp_all
  have tb: "type_byte type \<noteq> 0" "type_byte type = type_byte USTAR_REGULAR \<longleftrightarrow> type = USTAR_REGULAR"
    "type = USTAR_REGULAR \<or> type = USTAR_DIRECTORY" using assms(1) by (cases type; simp)+
  have nonzero: "\<not> is_all_zeros (take USTAR_HEADER_SIZE h)"
    using bytes(1) tb(1) lh nth_mem [of 156 h]
    by (auto simp: is_all_zeros_def USTAR_HEADER_SIZE_def list_all_iff intro!: bexI [of _ "h ! 156"])
  have sum: "calculate_chksum h = calculate_chksum c" unfolding h_def by (rule chksum_put_chksum [OF lc]) simp
  have "get_field h fld_chksum = octal 7 (unat (calculate_chksum c)) @ [0]"
    unfolding h_def by (rule get_put_same) (simp_all add: lc fld_chksum_def)
  then have chk: "parse_octal_field (get_field h fld_chksum) = Some (calculate_chksum h)"
    using parse_octal [OF chksum_bound, of c] unfolding sum by simp
  have us: "unat (of_int sz :: u32) = nat sz" using assms(4,5) by (simp add: unsigned_of_int take_bit_int_eq_self)
  have "nat sz < 8 ^ 11" "nat sz < 2 ^ 32" using assms(5) by simp_all
  then have psz: "parse_octal_field (get_field h fld_size) = Some (of_nat (nat sz))"
    using parse_octal [of "nat sz" 11] unfolding fields(3) us by simp
  have small: "\<not> (of_nat (nat sz) :: u32) > 0x7fffffff" "uint (of_nat (nat sz) :: u32) = sz"
    using assms(4,5) by (simp_all add: word_less_nat_alt unsigned_of_int take_bit_int_eq_self)
  have nm: "takeWhile (\<lambda>b. b \<noteq> 0) (get_field h fld_name) = ?n"
    using strip_no_zero [OF assms(2)] assms(3) unfolding fields(4) by (subst takeWhile_append2) auto
  have "ustar_parse_header h = Inr (Some ?n, type, if type = USTAR_REGULAR then sz else 0)"
    using tb(2,3) small by (auto simp: ustar_parse_header_def nonzero fields(1,2) chk bytes nm strip_idem psz fld_typeflag_def fld_prefix_def)
  then show ?thesis using make_header_ok [OF assms(1,3), of sz s] lh by (simp add: h_def c_def)
qed

lemma ustar_roundtrip_witness:
  "\<exists>h. ustar_make_header (bytes_of ''../a/b'') USTAR_REGULAR 700 demo_blocks = Some (Some h, demo_blocks) \<and>
    ustar_parse_header h = Inr (Some (bytes_of ''a/b''), USTAR_REGULAR, 700)"
proof -
  have s: "strip_antisocial_prefixes (bytes_of ''../a/b'') = bytes_of ''a/b''"
    by (simp add: strip_antisocial_prefixes_def strip_prefixes.simps has_prefix_def bytes_of_def)
  show ?thesis
    using ustar_roundtrip [of USTAR_REGULAR "bytes_of ''../a/b''" 700 demo_blocks] unfolding s by (auto simp: bytes_of_def)
qed

end
