(* ===== verification/Kernel_Fixed_Point.thy ===== *)
theory Kernel_Fixed_Point
  imports Kernel_Prelude "HOL-Library.Signed_Division"
begin

text \<open>
  The fixed-point arithmetic of \<open>threads/fixed-point.h\<close>: a number is an \<open>int\<close> that counts
  65536ths. An \<open>int\<close> is an integer; a signed operation that leaves its 32 bits is undefined
  behaviour, \<^const>\<open>None\<close>, and the conversion of a \<open>long long\<close> to \<open>int\<close> drops the upper half.
  C's division of integers is \<^const>\<open>signed_divide\<close>.
\<close>

definition FIX_BITS :: int where "FIX_BITS = 32"
definition FIX_P :: nat where "FIX_P = 16"
definition FIX_Q :: nat where "FIX_Q = 16"
definition FIX_F :: int where "FIX_F = 2 ^ FIX_Q"
definition FIX_MAX_INT :: int where "FIX_MAX_INT = 2 ^ FIX_P - 1"
definition FIX_MIN_INT :: int where "FIX_MIN_INT = - FIX_MAX_INT"

record fixed_point =
  fp_f :: int

definition c_int :: "int \<Rightarrow> int option" where
  "c_int i = (if - (2 ^ 31) \<le> i \<and> i < 2 ^ 31 then Some i else None)"

definition to_int :: "int \<Rightarrow> int" where
  "to_int i = (i + 2 ^ 31) mod 2 ^ 32 - 2 ^ 31"

definition mk_fix :: "int \<Rightarrow> fixed_point" where
  "mk_fix f = \<lparr>fp_f = f\<rparr>"

definition fix_int :: "int \<Rightarrow> fixed_point option" where
  "fix_int n = do {
     ASSERT (n \<ge> FIX_MIN_INT \<and> n \<le> FIX_MAX_INT);
     map_option mk_fix (c_int (n * FIX_F)) }"

definition fix_frac :: "int \<Rightarrow> int \<Rightarrow> fixed_point option" where
  "fix_frac n d = do {
     ASSERT (d \<noteq> 0);
     q \<leftarrow> c_int (n sdiv d);
     ASSERT (q \<ge> FIX_MIN_INT \<and> q \<le> FIX_MAX_INT);
     Some (mk_fix (to_int (n * FIX_F sdiv d))) }"



definition fix_add :: "fixed_point \<Rightarrow> fixed_point \<Rightarrow> fixed_point option" where
  "fix_add x y = map_option mk_fix (c_int (fp_f x + fp_f y))"

definition fix_sub :: "fixed_point \<Rightarrow> fixed_point \<Rightarrow> fixed_point option" where
  "fix_sub x y = map_option mk_fix (c_int (fp_f x - fp_f y))"

definition fix_mul :: "fixed_point \<Rightarrow> fixed_point \<Rightarrow> fixed_point" where
  "fix_mul x y = mk_fix (to_int (fp_f x * fp_f y sdiv FIX_F))"

definition fix_scale :: "fixed_point \<Rightarrow> int \<Rightarrow> fixed_point option" where
  "fix_scale x n = do { ASSERT (n \<ge> 0); map_option mk_fix (c_int (fp_f x * n)) }"

definition fix_div :: "fixed_point \<Rightarrow> fixed_point \<Rightarrow> fixed_point option" where
  "fix_div x y = (if fp_f y = 0 then None else Some (mk_fix (to_int (fp_f x * FIX_F sdiv fp_f y))))"

definition fix_unscale :: "fixed_point \<Rightarrow> int \<Rightarrow> fixed_point option" where
  "fix_unscale x n = do { ASSERT (n > 0); Some (mk_fix (fp_f x sdiv n)) }"

definition fix_inv :: "fixed_point \<Rightarrow> fixed_point option" where
  "fix_inv x = do { one \<leftarrow> fix_int 1; fix_div one x }"

definition fix_compare :: "fixed_point \<Rightarrow> fixed_point \<Rightarrow> int" where
  "fix_compare x y = (if fp_f x < fp_f y then -1 else if fp_f x > fp_f y then 1 else 0)"

section \<open>Rounding\<close>





end
