(* ===== verification/Kernel_Segments.thy ===== *)
theory Kernel_Segments
  imports Kernel_Memory
begin

text \<open>
  Segment descriptors: \<open>userprog/gdt.c\<close>, \<open>userprog/gdt.h\<close>. The table
  is the list of its six descriptors; what the processor loads with \<open>lgdt\<close> and \<open>ltr\<close> is the
  returned operand and selector.
\<close>

definition SEL_NULL :: nat where "SEL_NULL = 0x00"
definition SEL_KCSEG :: nat where "SEL_KCSEG = 0x08"
definition SEL_KDSEG :: nat where "SEL_KDSEG = 0x10"
definition SEL_UCSEG :: nat where "SEL_UCSEG = 0x1B"
definition SEL_UDSEG :: nat where "SEL_UDSEG = 0x23"
definition SEL_TSS :: nat where "SEL_TSS = 0x28"
definition SEL_CNT :: nat where "SEL_CNT = 6"

datatype seg_class = CLS_SYSTEM | CLS_CODE_DATA
datatype seg_granularity = GRAN_BYTE | GRAN_PAGE

fun class_bit :: "seg_class \<Rightarrow> u32" where
  "class_bit CLS_SYSTEM = 0"
| "class_bit CLS_CODE_DATA = 1"

fun granularity_bit :: "seg_granularity \<Rightarrow> u32" where
  "granularity_bit GRAN_BYTE = 0"
| "granularity_bit GRAN_PAGE = 1"

definition make_seg_desc :: "u32 \<Rightarrow> u32 \<Rightarrow> seg_class \<Rightarrow> nat \<Rightarrow> nat \<Rightarrow> seg_granularity \<Rightarrow> u64 option" where
  "make_seg_desc base limit class type dpl granularity = do {
     ASSERT (limit \<le> 0xfffff);
     ASSERT (type \<le> 15);
     ASSERT (dpl \<le> 3);
     let e0 = (limit AND 0xffff) OR push_bit 16 base;
     let e1 = (drop_bit 16 base AND 0xff) OR push_bit 8 (of_nat type) OR push_bit 12 (class_bit class) OR
       push_bit 13 (of_nat dpl) OR push_bit 15 1 OR (limit AND 0xf0000) OR push_bit 22 1 OR
       push_bit 23 (granularity_bit granularity) OR (base AND 0xff000000);
     Some (ucast e0 OR push_bit 32 (ucast e1)) }"

definition make_code_desc :: "nat \<Rightarrow> u64 option" where
  "make_code_desc dpl = make_seg_desc 0 0xfffff CLS_CODE_DATA 10 dpl GRAN_PAGE"

definition make_data_desc :: "nat \<Rightarrow> u64 option" where
  "make_data_desc dpl = make_seg_desc 0 0xfffff CLS_CODE_DATA 2 dpl GRAN_PAGE"

definition make_tss_desc :: "u32 \<Rightarrow> u64 option" where
  "make_tss_desc laddr = make_seg_desc laddr 0x67 CLS_SYSTEM 9 0 GRAN_BYTE"

definition make_gdtr_operand :: "u16 \<Rightarrow> u32 \<Rightarrow> u64" where
  "make_gdtr_operand limit base = ucast limit OR push_bit 16 (ucast base)"

text \<open>The table, the operand of \<open>lgdt\<close> and the selector of \<open>ltr\<close>.\<close>

definition gdt_init :: "u32 \<Rightarrow> u32 \<Rightarrow> (u64 list \<times> u64 \<times> nat) option" where
  "gdt_init tss gdt_addr = do {
     kc \<leftarrow> make_code_desc 0;
     kd \<leftarrow> make_data_desc 0;
     uc \<leftarrow> make_code_desc 3;
     ud \<leftarrow> make_data_desc 3;
     ts \<leftarrow> make_tss_desc tss;
     let gdt = replicate SEL_CNT 0;
     let gdt = gdt[SEL_NULL div 8 := 0, SEL_KCSEG div 8 := kc, SEL_KDSEG div 8 := kd, SEL_UCSEG div 8 := uc,
       SEL_UDSEG div 8 := ud, SEL_TSS div 8 := ts];
     Some (gdt, make_gdtr_operand (of_nat (8 * SEL_CNT - 1)) gdt_addr, SEL_TSS) }"

text \<open>The descriptors of the flat code and data segments, as the architecture encodes them.\<close>

lemma flat_descriptors:
  "make_code_desc 0 = Some 0x00cf9a000000ffff" "make_data_desc 0 = Some 0x00cf92000000ffff"
  "make_code_desc 3 = Some 0x00cffa000000ffff" "make_data_desc 3 = Some 0x00cff2000000ffff"
  by code_simp+

end
