(* ===== verification/Kernel_Intr.thy ===== *)
theory Kernel_Intr
  imports Kernel_Synch Kernel_Segments Kernel_Printf
begin

text \<open>
  The machine around the processor: the port instructions of \<open>threads/io.h\<close>, and the interrupt
  descriptor table and the interrupt controllers of \<open>threads/interrupt.c\<close>.

  The hardware is a parameter: \<open>port_in s k p\<close> is what the \<open>k\<close>-th read of a port finds when it
  reads the port \<open>p\<close>, and \<open>port_out\<close> is the sequence of the writes. \<open>printed\<close> is the text that
  \<open>printf\<close> has produced. A handler is named by an
  element of \<open>handler\<close>, one for each function the kernel registers; the addresses of the assembly
  stubs are the parameter \<open>intr_stubs\<close>.
\<close>

section \<open>Ports\<close>

record machine =
  kern :: sync
  port_in :: "nat \<Rightarrow> u16 \<Rightarrow> u32"
  port_reads :: nat
  port_out :: "(u16 \<times> u32) list"
  printed :: string

definition inl :: "u16 \<Rightarrow> 'a machine_scheme \<Rightarrow> u32 \<times> 'a machine_scheme" where
  "inl p s = (port_in s (port_reads s) p, s\<lparr>port_reads := port_reads s + 1\<rparr>)"

definition inw :: "u16 \<Rightarrow> 'a machine_scheme \<Rightarrow> u16 \<times> 'a machine_scheme" where
  "inw p s = (let (d, s) = inl p s in (ucast d, s))"

definition inb :: "u16 \<Rightarrow> 'a machine_scheme \<Rightarrow> u8 \<times> 'a machine_scheme" where
  "inb p s = (let (d, s) = inl p s in (ucast d, s))"

text \<open>The string instructions: the buffer is the list of its bytes.\<close>

fun insb :: "u16 \<Rightarrow> nat \<Rightarrow> 'a machine_scheme \<Rightarrow> u8 list \<times> 'a machine_scheme" where
  "insb p 0 s = ([], s)"
| "insb p (Suc cnt) s =
     (let (d, s) = inb p s; (bs, s) = insb p cnt s in (d # bs, s))"

fun insw :: "u16 \<Rightarrow> nat \<Rightarrow> 'a machine_scheme \<Rightarrow> u8 list \<times> 'a machine_scheme" where
  "insw p 0 s = ([], s)"
| "insw p (Suc cnt) s =
     (let (d, s) = inw p s; (bs, s) = insw p cnt s in (ucast d # ucast (drop_bit 8 d) # bs, s))"

fun insl :: "u16 \<Rightarrow> nat \<Rightarrow> 'a machine_scheme \<Rightarrow> u8 list \<times> 'a machine_scheme" where
  "insl p 0 s = ([], s)"
| "insl p (Suc cnt) s =
     (let (d, s) = inl p s; (bs, s) = insl p cnt s in (map (\<lambda>k. le_byte k d) [0..<4] @ bs, s))"

definition outl :: "u16 \<Rightarrow> u32 \<Rightarrow> 'a machine_scheme \<Rightarrow> 'a machine_scheme" where
  "outl p d s = s\<lparr>port_out := port_out s @ [(p, d)]\<rparr>"

definition outw :: "u16 \<Rightarrow> u16 \<Rightarrow> 'a machine_scheme \<Rightarrow> 'a machine_scheme" where
  "outw p d s = outl p (ucast d) s"

definition outb :: "u16 \<Rightarrow> u8 \<Rightarrow> 'a machine_scheme \<Rightarrow> 'a machine_scheme" where
  "outb p d s = outl p (ucast d) s"

fun outsb :: "u16 \<Rightarrow> u8 list \<Rightarrow> 'a machine_scheme \<Rightarrow> 'a machine_scheme" where
  "outsb p [] s = s"
| "outsb p (a # bs) s = outsb p bs (outb p a s)"

text \<open>A buffer of an odd number of bytes is not used with halfwords; nor are other ends with words.\<close>

fun outsw :: "u16 \<Rightarrow> u8 list \<Rightarrow> 'a machine_scheme \<Rightarrow> 'a machine_scheme" where
  "outsw p (a # b # bs) s = outsw p bs (outw p (ucast a OR push_bit 8 (ucast b)) s)"
| "outsw p _ s = s"

fun outsl :: "u16 \<Rightarrow> u8 list \<Rightarrow> 'a machine_scheme \<Rightarrow> 'a machine_scheme" where
  "outsl p (a # b # c # d # bs) s = outsl p bs (outl p (le_word a b c d) s)"
| "outsl p _ s = s"

text \<open>The interrupt level of the processor as part of the machine.\<close>

definition int_level :: "'a machine_scheme \<Rightarrow> bool" where
  "int_level s = intr_get_level (kern s)"

definition int_disable :: "'a machine_scheme \<Rightarrow> bool \<times> 'a machine_scheme" where
  "int_disable s = (let (old_level, k) = intr_disable (kern s) in (old_level, s\<lparr>kern := k\<rparr>))"

definition int_set_level :: "'a machine_scheme \<Rightarrow> bool \<Rightarrow> 'a machine_scheme option" where
  "int_set_level s l = do { (_, k) \<leftarrow> intr_set_level (kern s) l; Some (s\<lparr>kern := k\<rparr>) }"

text \<open>What the kernel prints: the characters \<open>vprintf\<close> hands to the console.\<close>

definition NL :: string where "NL = [CHR 0x0a]"

definition print :: "string \<Rightarrow> arg list \<Rightarrow> 'a machine_scheme \<Rightarrow> 'a machine_scheme option" where
  "print format args s = do {
     out \<leftarrow> vprintf_helper format args;
     Some (s\<lparr>printed := printed s @ out\<rparr>) }"

section \<open>Interrupt controllers\<close>

definition PIC0_CTRL :: u16 where "PIC0_CTRL = 0x20"
definition PIC0_DATA :: u16 where "PIC0_DATA = 0x21"
definition PIC1_CTRL :: u16 where "PIC1_CTRL = 0xa0"
definition PIC1_DATA :: u16 where "PIC1_DATA = 0xa1"

definition pic_init :: "'a machine_scheme \<Rightarrow> 'a machine_scheme" where
  "pic_init s = fold (\<lambda>(p, d). outb p d)
     [(PIC0_DATA, 0xff), (PIC1_DATA, 0xff),
      (PIC0_CTRL, 0x11), (PIC0_DATA, 0x20), (PIC0_DATA, 0x04), (PIC0_DATA, 0x01),
      (PIC1_CTRL, 0x11), (PIC1_DATA, 0x28), (PIC1_DATA, 0x02), (PIC1_DATA, 0x01),
      (PIC0_DATA, 0x00), (PIC1_DATA, 0x00)] s"

definition pic_end_of_interrupt :: "nat \<Rightarrow> 'a machine_scheme \<Rightarrow> 'a machine_scheme option" where
  "pic_end_of_interrupt irq s = do {
     ASSERT (irq \<ge> 0x20 \<and> irq < 0x30);
     let s = outb 0x20 0x20 s;
     Some (if irq \<ge> 0x28 then outb 0xa0 0x20 s else s) }"

section \<open>Gates\<close>

definition make_gate :: "u32 \<Rightarrow> int \<Rightarrow> int \<Rightarrow> u64 option" where
  "make_gate function dpl type = do {
     ASSERT (function \<noteq> 0);
     ASSERT (dpl \<ge> 0 \<and> dpl \<le> 3);
     ASSERT (type \<ge> 0 \<and> type \<le> 15);
     let e0 = (function AND 0xffff) OR push_bit 16 (of_nat SEL_KCSEG);
     let e1 = (function AND 0xffff0000) OR push_bit 15 1 OR push_bit 13 (of_int dpl) OR push_bit 8 (of_int type);
     Some (ucast (e0 :: u32) OR push_bit 32 (ucast (e1 :: u32))) }"

definition make_intr_gate :: "u32 \<Rightarrow> int \<Rightarrow> u64 option" where
  "make_intr_gate function dpl = make_gate function dpl 14"

definition make_trap_gate :: "u32 \<Rightarrow> int \<Rightarrow> u64 option" where
  "make_trap_gate function dpl = make_gate function dpl 15"

definition make_idtr_operand :: "u16 \<Rightarrow> u32 \<Rightarrow> u64" where
  "make_idtr_operand limit base = ucast limit OR push_bit 16 (ucast base)"

section \<open>The table and its handlers\<close>

datatype handler =
    timer_handler
  | keyboard_handler
  | serial_handler
  | ide_handler
  | kill_handler
  | page_fault_handler
  | syscall_handler_entry

definition INTR_CNT :: nat where "INTR_CNT = 256"

record interrupts = machine +
  idt :: "nat \<Rightarrow> u64"
  idtr :: u64
  intr_handlers :: "nat \<Rightarrow> handler option"
  intr_names :: "nat \<Rightarrow> string"

fun init_gates :: "(nat \<Rightarrow> u32) \<Rightarrow> nat list \<Rightarrow> 'a interrupts_scheme \<Rightarrow> 'a interrupts_scheme option" where
  "init_gates intr_stubs [] s = Some s"
| "init_gates intr_stubs (i # is) s = do {
     g \<leftarrow> make_intr_gate (intr_stubs i) 0;
     init_gates intr_stubs is (s\<lparr>idt := (idt s)(i := g)\<rparr>) }"

definition exception_names :: "(nat \<times> string) list" where
  "exception_names =
     [(0, ''#DE Divide Error''), (1, ''#DB Debug Exception''), (2, ''NMI Interrupt''),
      (3, ''#BP Breakpoint Exception''), (4, ''#OF Overflow Exception''),
      (5, ''#BR BOUND Range Exceeded Exception''), (6, ''#UD Invalid Opcode Exception''),
      (7, ''#NM Device Not Available Exception''), (8, ''#DF Double Fault Exception''),
      (9, ''Coprocessor Segment Overrun''), (10, ''#TS Invalid TSS Exception''),
      (11, ''#NP Segment Not Present''), (12, ''#SS Stack Fault Exception''),
      (13, ''#GP General Protection Exception''), (14, ''#PF Page-Fault Exception''),
      (16, ''#MF x87 FPU Floating-Point Error''), (17, ''#AC Alignment Check Exception''),
      (18, ''#MC Machine-Check Exception''), (19, ''#XF SIMD Floating-Point Exception'')]"

definition intr_init :: "(nat \<Rightarrow> u32) \<Rightarrow> u32 \<Rightarrow> 'a interrupts_scheme \<Rightarrow> 'a interrupts_scheme option" where
  "intr_init intr_stubs idt_addr s = do {
     let s = pic_init s;
     s \<leftarrow> init_gates intr_stubs [0..<INTR_CNT] s;
     let s = s\<lparr>idtr := make_idtr_operand (of_nat (8 * INTR_CNT - 1)) idt_addr\<rparr>;
     let s = s\<lparr>intr_names := \<lambda>i. ''unknown''\<rparr>;
     Some (s\<lparr>intr_names := fold (\<lambda>(i, nm) f. f(i := nm)) exception_names (intr_names s)\<rparr>) }"

definition register_handler :: "(nat \<Rightarrow> u32) \<Rightarrow> u8 \<Rightarrow> int \<Rightarrow> bool \<Rightarrow> handler \<Rightarrow> string \<Rightarrow>
    'a interrupts_scheme \<Rightarrow> 'a interrupts_scheme option" where
  "register_handler intr_stubs vec_no dpl level handler name s = do {
     let v = unat vec_no;
     ASSERT (intr_handlers s v = None);
     g \<leftarrow> (if level then make_trap_gate (intr_stubs v) dpl else make_intr_gate (intr_stubs v) dpl);
     Some (s\<lparr>idt := (idt s)(v := g), intr_handlers := (intr_handlers s)(v := Some handler),
       intr_names := (intr_names s)(v := name)\<rparr>) }"

definition intr_register_ext :: "(nat \<Rightarrow> u32) \<Rightarrow> u8 \<Rightarrow> handler \<Rightarrow> string \<Rightarrow> 'a interrupts_scheme \<Rightarrow> 'a interrupts_scheme option" where
  "intr_register_ext intr_stubs vec_no handler name s = do {
     ASSERT (vec_no \<ge> 0x20 \<and> vec_no \<le> 0x2f);
     register_handler intr_stubs vec_no 0 False handler name s }"

definition intr_register_int :: "(nat \<Rightarrow> u32) \<Rightarrow> u8 \<Rightarrow> int \<Rightarrow> bool \<Rightarrow> handler \<Rightarrow> string \<Rightarrow> 'a interrupts_scheme \<Rightarrow> 'a interrupts_scheme option" where
  "intr_register_int intr_stubs vec_no dpl level handler name s = do {
     ASSERT (vec_no < 0x20 \<or> vec_no > 0x2f);
     register_handler intr_stubs vec_no dpl level handler name s }"

definition intr_name :: "u8 \<Rightarrow> 'a interrupts_scheme \<Rightarrow> string" where
  "intr_name vec s = intr_names s (unat vec)"

section \<open>Interrupt frames\<close>

record intr_frame =
  if_edi :: u32
  if_esi :: u32
  if_ebp :: u32
  if_esp_dummy :: u32
  if_ebx :: u32
  if_edx :: u32
  if_ecx :: u32
  if_eax :: u32
  if_gs :: u16
  if_fs :: u16
  if_es :: u16
  if_ds :: u16
  if_vec_no :: u32
  if_error_code :: u32
  if_frame_pointer :: u32
  if_eip :: u32
  if_cs :: u16
  if_eflags :: u32
  if_esp :: u32
  if_ss :: u16

definition is_trap_from_userspace :: "intr_frame \<Rightarrow> bool" where
  "is_trap_from_userspace f \<longleftrightarrow> if_cs f = of_nat SEL_UCSEG \<and> if_ss f = of_nat SEL_UDSEG"

text \<open>\<open>cr2\<close> is the register.\<close>

definition intr_dump_frame :: "u32 \<Rightarrow> intr_frame \<Rightarrow> 'a interrupts_scheme \<Rightarrow> 'a interrupts_scheme option" where
  "intr_dump_frame cr2 f s = do {
     s \<leftarrow> print (''Interrupt %#04x (%s) at eip=%p'' @ NL)
       [Arg32 (if_vec_no f), ArgString (Some (intr_names s (unat (if_vec_no f)))), Arg32 (if_eip f)] s;
     s \<leftarrow> print ('' cr2=%08x error=%08x'' @ NL) [Arg32 cr2, Arg32 (if_error_code f)] s;
     s \<leftarrow> print ('' eax=%08x ebx=%08x ecx=%08x edx=%08x'' @ NL)
       [Arg32 (if_eax f), Arg32 (if_ebx f), Arg32 (if_ecx f), Arg32 (if_edx f)] s;
     s \<leftarrow> print ('' esi=%08x edi=%08x esp=%08x ebp=%08x'' @ NL)
       [Arg32 (if_esi f), Arg32 (if_edi f), Arg32 (if_esp f), Arg32 (if_ebp f)] s;
     print ('' cs=%04hx ds=%04hx es=%04hx ss=%04hx'' @ NL)
       [Arg32 (ucast (if_cs f)), Arg32 (ucast (if_ds f)), Arg32 (ucast (if_es f)), Arg32 (ucast (if_ss f))] s }"

section \<open>What the processor makes of a gate\<close>

definition gate_offset :: "u64 \<Rightarrow> u32" where
  "gate_offset g = ucast (take_bit 16 g) OR push_bit 16 (ucast (drop_bit 48 g))"

definition gate_selector :: "u64 \<Rightarrow> u16" where
  "gate_selector g = ucast (drop_bit 16 g)"

definition gate_type :: "u64 \<Rightarrow> int" where
  "gate_type g = uint (take_bit 4 (drop_bit 40 g))"

definition gate_dpl :: "u64 \<Rightarrow> int" where
  "gate_dpl g = uint (take_bit 2 (drop_bit 45 g))"

definition gate_present :: "u64 \<Rightarrow> bool" where
  "gate_present g \<longleftrightarrow> bit g 47"

lemma gate_masks:
  "(0xffff :: u32) = mask 16" "(0xffff0000 :: u32) = push_bit 16 (mask 16)"
  by (simp_all add: mask_eq_exp_minus_1)

lemma gate_small:
  assumes "0 \<le> i" "i < 2 ^ k" "k \<le> 32"
  shows "uint (of_int i :: u32) = i" "bit (of_int i :: u32) n \<Longrightarrow> n < k"
proof -
  have b: "i < 2 ^ 32" using assms(2) power_increasing [OF assms(3), of "2 :: int"] by simp
  show u: "uint (of_int i :: u32) = i" using assms(1) b by (simp add: uint_word_of_int)
  show "n < k" if n: "bit (of_int i :: u32) n"
  proof -
    have "bit (uint (of_int i :: u32)) n" using n by (subst bit_uint_iff) (auto dest: bit_imp_le_length)
    then have "bit i n" by (simp only: u)
    moreover have "take_bit k i = i" using assms(1,2) by (simp add: take_bit_int_eq_self_iff)
    ultimately show ?thesis by (metis bit_take_bit_iff)
  qed
qed

lemma bit_present: "bit (0x8000 :: u32) n \<longleftrightarrow> n = 15"
proof -
  have "(0x8000 :: u32) = 2 ^ 15" by simp
  then show ?thesis by (simp only: bit_exp_iff) auto
qed

lemma uint_u64: "uint (ucast (w :: u32) :: u64) = uint w"
proof -
  have "uint w < 2 ^ 64" using uint_lt2p [of w] by simp
  then show ?thesis by (simp add: unsigned_ucast_eq take_bit_int_eq_self_iff)
qed

lemma gate_bits:
  fixes f d t sel p :: u32
  assumes p: "\<And>n. bit p n \<longleftrightarrow> n = 15" and d: "\<And>n. bit d n \<Longrightarrow> n < 2" and t: "\<And>n. bit t n \<Longrightarrow> n < 4"
  defines "e0 \<equiv> (f AND 0xffff) OR push_bit 16 sel"
  defines "e1 \<equiv> (f AND 0xffff0000) OR p OR push_bit 13 d OR push_bit 8 t"
  defines "g \<equiv> ucast e0 OR push_bit 32 (ucast e1) :: u64"
  shows "gate_offset g = f" "gate_selector g = ucast sel" "gate_type g = uint t" "gate_dpl g = uint d" "gate_present g"
proof -
  have e0: "bit e0 n \<longleftrightarrow> (if n < 16 then bit f n else bit sel (n - 16) \<and> n < 32)" for n
    unfolding e0_def gate_masks by (auto simp: bit_simps dest: bit_imp_le_length)
  have e1: "bit e1 n \<longleftrightarrow> (if 16 \<le> n then bit f n else n = 15 \<or> 13 \<le> n \<and> bit d (n - 13) \<or> 8 \<le> n \<and> bit t (n - 8))" for n
    unfolding e1_def gate_masks
    by (auto simp: bit_simps p dest: bit_imp_le_length d t)
  have g: "bit g n \<longleftrightarrow> (if n < 32 then bit e0 n else n < 64 \<and> bit e1 (n - 32))" for n
    unfolding g_def by (auto simp: bit_simps dest: bit_imp_le_length)
  show "gate_offset g = f"
    by (rule bit_eqI) (auto simp: gate_offset_def bit_simps g e0 e1 not_less)
  show "gate_selector g = ucast sel"
    by (rule bit_eqI) (auto simp: gate_selector_def bit_simps g e0 e1)
  have "take_bit 4 (drop_bit 40 g) = ucast t"
    by (rule bit_eqI) (auto simp: bit_simps g e0 e1 dest: t d)
  then show "gate_type g = uint t" by (simp add: gate_type_def uint_u64)
  have "take_bit 2 (drop_bit 45 g) = ucast d"
    by (rule bit_eqI) (auto simp: bit_simps g e0 e1 dest: t d)
  then show "gate_dpl g = uint d" by (simp add: gate_dpl_def uint_u64)
  show "gate_present g" by (simp add: gate_present_def g e1)
qed

lemma make_gate_decodes:
  assumes "function \<noteq> 0" "0 \<le> dpl" "dpl \<le> 3" "0 \<le> type" "type \<le> 15"
  shows "\<exists>g. make_gate function dpl type = Some g \<and> gate_offset g = function \<and>
    gate_selector g = of_nat SEL_KCSEG \<and> gate_type g = type \<and> gate_dpl g = dpl \<and> gate_present g"
proof -
  have d: "uint (of_int dpl :: u32) = dpl" "\<And>n. bit (of_int dpl :: u32) n \<Longrightarrow> n < 2"
    using gate_small [of dpl 2] assms(2,3) by simp_all
  have t: "uint (of_int type :: u32) = type" "\<And>n. bit (of_int type :: u32) n \<Longrightarrow> n < 4"
    using gate_small [of type 4] assms(4,5) by simp_all
  show ?thesis
    using gate_bits [OF bit_present d(2) t(2), where f = "function" and sel = "of_nat SEL_KCSEG"] d(1) t(1) assms
    by (simp add: make_gate_def kassert_simps SEL_KCSEG_def or.assoc)
qed

text \<open>Registering a handler succeeds exactly when the vector has none; a second registration stops the
  kernel. It installs the handler and a present gate from which the processor reads the address of the
  stub of that vector, the kernel's code segment and the privilege level that was asked for. The gate
  is an interrupt gate, entered with interrupts off, when the level is \<open>INTR_OFF\<close> and a trap gate
  otherwise. No other vector is touched.\<close>

theorem register_handler_installs:
  assumes "intr_stubs (unat v) \<noteq> 0" "0 \<le> dpl" "dpl \<le> 3"
  shows "case register_handler intr_stubs v dpl lvl h nm s of
      None \<Rightarrow> intr_handlers s (unat v) \<noteq> None
    | Some s' \<Rightarrow> intr_handlers s (unat v) = None \<and> intr_handlers s' = (intr_handlers s)(unat v \<mapsto> h) \<and>
        intr_name v s' = nm \<and>
        (let g = idt s' (unat v) in gate_offset g = intr_stubs (unat v) \<and> gate_selector g = of_nat SEL_KCSEG \<and>
           gate_dpl g = dpl \<and> gate_type g = (if lvl then 15 else 14) \<and> gate_present g) \<and>
        (\<forall>w. w \<noteq> unat v \<longrightarrow> idt s' w = idt s w \<and> intr_names s' w = intr_names s w)"
proof (cases "intr_handlers s (unat v) = None")
  case True
  obtain g where g: "(if lvl then make_trap_gate (intr_stubs (unat v)) dpl else make_intr_gate (intr_stubs (unat v)) dpl) = Some g"
    "gate_offset g = intr_stubs (unat v)" "gate_selector g = of_nat SEL_KCSEG" "gate_dpl g = dpl"
    "gate_type g = (if lvl then 15 else 14)" "gate_present g"
    using make_gate_decodes [OF assms, of 14] make_gate_decodes [OF assms, of 15]
    by (cases lvl) (auto simp: make_trap_gate_def make_intr_gate_def)
  then show ?thesis using True by (simp add: register_handler_def kassert_simps Let_def intr_name_def)
next
  case False
  then show ?thesis by (auto simp: register_handler_def Let_def bind_ASSERT_iff)
qed

lemma register_handler_installs_witness:
  "let s = (undefined :: interrupts)\<lparr>intr_handlers := Map.empty\<rparr>
   in (case register_handler (\<lambda>_. 0xc0020000) 0x30 3 True syscall_handler_entry ''syscall'' s of
       None \<Rightarrow> False
     | Some s' \<Rightarrow> gate_offset (idt s' 48) = 0xc0020000 \<and> gate_dpl (idt s' 48) = 3 \<and> gate_type (idt s' 48) = 15)"
  using register_handler_installs [where intr_stubs = "\<lambda>_. 0xc0020000" and v = "0x30" and dpl = 3 and lvl = True
      and h = syscall_handler_entry and nm = "''syscall''" and s = "(undefined :: interrupts)\<lparr>intr_handlers := Map.empty\<rparr>"]
  by (auto simp: Let_def split: option.splits)

end
