(* ===== verification/Kernel_Clock.thy ===== *)
theory Kernel_Clock
  imports Kernel_Intr "HOL-Library.Signed_Division"
begin

text \<open>
  The clocks: the real-time clock \<open>devices/rtc.c\<close>, the interval timer chip \<open>devices/pit.c\<close> and
  the timer \<open>devices/timer.c\<close>. \<open>too_many\<close> is the outcome of timing a number of loops. A thread
  that sleeps calls \<open>thread_yield\<close>, which switches to the next ready thread, in the same tick or not;
  \<open>run\<close> is what the processor does from there until the call returns in the sleeping thread: the other
  threads, the timer interrupt, and the end of \<open>thread_yield\<close>, \<open>thread_resume\<close>.

  The lemmas say by how much the time of day is wrong, how precise the calibration is, and that
  \<open>timer_sleep\<close> returns, at the first check at which its time is over, whenever the clock goes on
  after some number of turns.
\<close>

section \<open>The real-time clock\<close>

definition RTC_REG_SEC :: u8 where "RTC_REG_SEC = 0"
definition RTC_REG_MIN :: u8 where "RTC_REG_MIN = 2"
definition RTC_REG_HOUR :: u8 where "RTC_REG_HOUR = 4"
definition RTC_REG_MDAY :: u8 where "RTC_REG_MDAY = 7"
definition RTC_REG_MON :: u8 where "RTC_REG_MON = 8"
definition RTC_REG_YEAR :: u8 where "RTC_REG_YEAR = 9"

definition bcd_to_bin :: "u8 \<Rightarrow> int" where
  "bcd_to_bin x = uint (x AND 0x0f) + uint (drop_bit 4 x) * 10"

record rtc_reading =
  r_sec :: int
  r_min :: int
  r_hour :: int
  r_mday :: int
  r_mon :: int
  r_year :: int

definition CMOS_REG_SET :: u16 where "CMOS_REG_SET = 0x70"
definition CMOS_REG_IO :: u16 where "CMOS_REG_IO = 0x71"

definition cmos_read :: "u8 \<Rightarrow> 'a machine_scheme \<Rightarrow> u8 \<times> 'a machine_scheme" where
  "cmos_read index s = inb CMOS_REG_IO (outb CMOS_REG_SET index s)"

partial_function (option) rtc_read :: "'a machine_scheme \<Rightarrow> (rtc_reading \<times> 'a machine_scheme) option" where
  "rtc_read s =
     (let (sec, s) = cmos_read RTC_REG_SEC s;
          (min, s) = cmos_read RTC_REG_MIN s;
          (hour, s) = cmos_read RTC_REG_HOUR s;
          (mday, s) = cmos_read RTC_REG_MDAY s;
          (mon, s) = cmos_read RTC_REG_MON s;
          (year, s) = cmos_read RTC_REG_YEAR s;
          (again, s) = cmos_read RTC_REG_SEC s
      in if bcd_to_bin sec \<noteq> bcd_to_bin again then rtc_read s
         else Some (\<lparr>r_sec = bcd_to_bin sec, r_min = bcd_to_bin min, r_hour = bcd_to_bin hour,
           r_mday = bcd_to_bin mday, r_mon = bcd_to_bin mon, r_year = bcd_to_bin year\<rparr>, s))"

definition days_per_month :: "int list" where
  "days_per_month = [31, 28, 31, 30, 31, 30, 31, 31, 30, 31, 30, 31]"

text \<open>
  The first summand is computed as an \<open>int\<close>, which overflows for years from 2038 on; a \<open>time_t\<close>
  is an \<open>unsigned long\<close>. A month that is not in the table is read out of bounds.
\<close>

definition rtc_seconds :: "rtc_reading \<Rightarrow> int option" where
  "rtc_seconds r =
     (let year = (if r_year r < 70 then r_year r + 100 else r_year r) - 70;
          days = (year * 365 + (year - 1) sdiv 4) * 24 * 60 * 60
      in if days \<ge> 2 ^ 31 \<or> r_mon r > 12 then None
         else Some ((days
           + sum_list (map (\<lambda>d. d * 24 * 60 * 60) (take (nat (r_mon r)) days_per_month))
           + (if r_mon r > 2 \<and> year mod 4 = 0 then 24 * 60 * 60 else 0)
           + (r_mday r - 1) * 24 * 60 * 60 + r_hour r * 60 * 60 + r_min r * 60 + r_sec r) mod 2 ^ 32))"

definition rtc_get_time :: "'a machine_scheme \<Rightarrow> (int \<times> 'a machine_scheme) option" where
  "rtc_get_time s = do { (r, s) \<leftarrow> rtc_read s; t \<leftarrow> rtc_seconds r; Some (t, s) }"

text \<open>The seconds since the start of 1970 of a date up to 2099, by the calendar.\<close>

definition is_leap :: "int \<Rightarrow> bool" where
  "is_leap y \<longleftrightarrow> y mod 4 = 0 \<and> (y mod 100 \<noteq> 0 \<or> y mod 400 = 0)"

definition leap_days_before :: "int \<Rightarrow> int" where
  "leap_days_before y = (y - 1) div 4 - (y - 1) div 100 + (y - 1) div 400"

definition days_since_1970 :: "int \<Rightarrow> int \<Rightarrow> int \<Rightarrow> int" where
  "days_since_1970 y mon mday =
     365 * (y - 1970) + (leap_days_before y - leap_days_before 1970) +
     sum_list (take (nat mon - 1) days_per_month) + (if mon > 2 \<and> is_leap y then 1 else 0) + (mday - 1)"

definition unix_seconds :: "int \<Rightarrow> rtc_reading \<Rightarrow> int" where
  "unix_seconds y r = ((days_since_1970 y (r_mon r) (r_mday r) * 24 + r_hour r) * 60 + r_min r) * 60 + r_sec r"

section \<open>The interval timer\<close>

definition PIT_HZ :: int where "PIT_HZ = 1193180"

definition pit_count :: "int \<Rightarrow> u16" where
  "pit_count frequency =
     (if frequency < 19 then 0
      else if frequency > PIT_HZ then 2
      else of_int ((PIT_HZ + frequency div 2) div frequency))"

definition pit_configure_channel :: "nat \<Rightarrow> nat \<Rightarrow> int \<Rightarrow> 'a machine_scheme \<Rightarrow> 'a machine_scheme option" where
  "pit_configure_channel channel mode frequency s = do {
     ASSERT (channel = 0 \<or> channel = 2);
     ASSERT (mode = 2 \<or> mode = 3);
     let count = pit_count frequency;
     let (old_level, s) = int_disable s;
     let s = outb 0x43 (push_bit 6 (of_nat channel) OR 0x30 OR push_bit 1 (of_nat mode)) s;
     let s = outb (0x40 + of_nat channel) (ucast count) s;
     let s = outb (0x40 + of_nat channel) (ucast (drop_bit 8 count)) s;
     int_set_level s old_level }"

section \<open>The timer\<close>

record clock = interrupts +
  ticks :: int
  loops_per_tick :: u32

definition TIMER_FREQ :: int where "TIMER_FREQ = 100"

definition timer_init :: "(nat \<Rightarrow> u32) \<Rightarrow> 'a clock_scheme \<Rightarrow> 'a clock_scheme option" where
  "timer_init intr_stubs s = do {
     s \<leftarrow> pit_configure_channel 0 2 TIMER_FREQ s;
     intr_register_ext intr_stubs 0x20 timer_handler ''8254 Timer'' s }"

definition timer_interrupt :: "'a clock_scheme \<Rightarrow> 'a clock_scheme option" where
  "timer_interrupt s = do {
     k \<leftarrow> thread_tick (kern s);
     Some (s\<lparr>ticks := ticks s + 1, kern := k\<rparr>) }"

definition timer_ticks :: "'a clock_scheme \<Rightarrow> (int \<times> 'a clock_scheme) option" where
  "timer_ticks s = do {
     let (old_level, s) = int_disable s;
     let t = ticks s;
     s \<leftarrow> int_set_level s old_level;
     Some (t, s) }"

definition timer_elapsed :: "int \<Rightarrow> 'a clock_scheme \<Rightarrow> (int \<times> 'a clock_scheme) option" where
  "timer_elapsed since s = do { (t, s) \<leftarrow> timer_ticks s; Some (t - since, s) }"

definition timer_print_stats :: "'a clock_scheme \<Rightarrow> 'a clock_scheme option" where
  "timer_print_stats s = do {
     (t, s) \<leftarrow> timer_ticks s;
     print (''Timer: %lld ticks'' @ NL) [Arg64 (of_int t)] s }"

text \<open>A call of \<open>thread_yield\<close>, from the switch to another thread until it returns.\<close>

definition yield_turn :: "('a clock_scheme \<Rightarrow> 'a clock_scheme option) \<Rightarrow> 'a clock_scheme \<Rightarrow> 'a clock_scheme option" where
  "yield_turn run s = do { k \<leftarrow> thread_yield (kern s); run (s\<lparr>kern := k\<rparr>) }"

partial_function (option) sleep_loop ::
    "('a clock_scheme \<Rightarrow> 'a clock_scheme option) \<Rightarrow> int \<Rightarrow> int \<Rightarrow> 'a clock_scheme \<Rightarrow> 'a clock_scheme option" where
  "sleep_loop run start n s = do {
     (e, s) \<leftarrow> timer_elapsed start s;
     if e < n then do { s \<leftarrow> yield_turn run s; sleep_loop run start n s } else Some s }"

definition timer_sleep :: "('a clock_scheme \<Rightarrow> 'a clock_scheme option) \<Rightarrow> int \<Rightarrow> 'a clock_scheme \<Rightarrow> 'a clock_scheme option" where
  "timer_sleep run n s = do {
     (start, s) \<leftarrow> timer_ticks s;
     ASSERT (int_level s);
     sleep_loop run start n s }"

definition fits64 :: "int \<Rightarrow> int option" where
  "fits64 i = (if - (2 ^ 63) \<le> i \<and> i < 2 ^ 63 then Some i else None)"

text \<open>The number of iterations of \<open>busy_wait\<close>, which changes nothing.\<close>

definition delay_loops :: "u32 \<Rightarrow> int \<Rightarrow> int \<Rightarrow> int option" where
  "delay_loops loops num denom = do {
     p \<leftarrow> fits64 (uint loops * num);
     p \<leftarrow> fits64 (p sdiv 1000 * TIMER_FREQ);
     Some (p sdiv (denom sdiv 1000)) }"

primrec busy_wait :: "nat \<Rightarrow> 'a clock_scheme \<Rightarrow> 'a clock_scheme" where
  "busy_wait 0 s = s"
| "busy_wait (Suc n) s = busy_wait n s"

definition real_time_delay :: "int \<Rightarrow> int \<Rightarrow> 'a clock_scheme \<Rightarrow> 'a clock_scheme option" where
  "real_time_delay num denom s = do {
     ASSERT (denom smod 1000 = 0);
     n \<leftarrow> delay_loops (loops_per_tick s) num denom;
     Some (busy_wait (nat n) s) }"

definition real_time_sleep :: "('a clock_scheme \<Rightarrow> 'a clock_scheme option) \<Rightarrow> int \<Rightarrow> int \<Rightarrow> 'a clock_scheme \<Rightarrow> 'a clock_scheme option" where
  "real_time_sleep run num denom s = do {
     p \<leftarrow> fits64 (num * TIMER_FREQ);
     let n = p sdiv denom;
     ASSERT (int_level s);
     if n > 0 then timer_sleep run n s else real_time_delay num denom s }"

definition timer_msleep :: "('a clock_scheme \<Rightarrow> 'a clock_scheme option) \<Rightarrow> int \<Rightarrow> 'a clock_scheme \<Rightarrow> 'a clock_scheme option" where
  "timer_msleep run ms s = real_time_sleep run ms 1000 s"

definition timer_usleep :: "('a clock_scheme \<Rightarrow> 'a clock_scheme option) \<Rightarrow> int \<Rightarrow> 'a clock_scheme \<Rightarrow> 'a clock_scheme option" where
  "timer_usleep run us s = real_time_sleep run us (1000 * 1000) s"

definition timer_nsleep :: "('a clock_scheme \<Rightarrow> 'a clock_scheme option) \<Rightarrow> int \<Rightarrow> 'a clock_scheme \<Rightarrow> 'a clock_scheme option" where
  "timer_nsleep run ns s = real_time_sleep run ns (1000 * 1000 * 1000) s"

definition timer_mdelay :: "int \<Rightarrow> 'a clock_scheme \<Rightarrow> 'a clock_scheme option" where
  "timer_mdelay ms s = real_time_delay ms 1000 s"

definition timer_udelay :: "int \<Rightarrow> 'a clock_scheme \<Rightarrow> 'a clock_scheme option" where
  "timer_udelay us s = real_time_delay us (1000 * 1000) s"

definition timer_ndelay :: "int \<Rightarrow> 'a clock_scheme \<Rightarrow> 'a clock_scheme option" where
  "timer_ndelay ns s = real_time_delay ns (1000 * 1000 * 1000) s"

section \<open>Calibration\<close>

text \<open>The outcome of a round: the tick counts around the loops differ.\<close>

definition too_many_loops :: "int \<Rightarrow> int \<Rightarrow> bool" where
  "too_many_loops start now \<longleftrightarrow> start \<noteq> now"

partial_function (option) double_loop :: "(u32 \<Rightarrow> bool) \<Rightarrow> u32 \<Rightarrow> u32 option" where
  "double_loop too_many l =
     (if \<not> too_many (push_bit 1 l) then do {
        let l = push_bit 1 l;
        ASSERT (l \<noteq> 0);
        double_loop too_many l }
      else Some l)"

partial_function (option) refine_loop :: "(u32 \<Rightarrow> bool) \<Rightarrow> u32 \<Rightarrow> u32 \<Rightarrow> u32 \<Rightarrow> u32 option" where
  "refine_loop too_many high_bit test_bit l =
     (if test_bit \<noteq> drop_bit 10 high_bit
      then refine_loop too_many high_bit (drop_bit 1 test_bit) (if \<not> too_many (l OR test_bit) then l OR test_bit else l)
      else Some l)"

definition calibrate_loops :: "(u32 \<Rightarrow> bool) \<Rightarrow> u32 option" where
  "calibrate_loops too_many = do {
     high_bit \<leftarrow> double_loop too_many (push_bit 10 1);
     refine_loop too_many high_bit (drop_bit 1 high_bit) high_bit }"

definition timer_calibrate :: "(u32 \<Rightarrow> bool) \<Rightarrow> 'a clock_scheme \<Rightarrow> 'a clock_scheme option" where
  "timer_calibrate too_many s = do {
     ASSERT (int_level s);
     s \<leftarrow> print ''Calibrating timer...  '' [] s;
     l \<leftarrow> calibrate_loops too_many;
     print (''%'' @ [CHR 0x27] @ ''llu loops/s.'' @ NL) [Arg64 (ucast l * of_int TIMER_FREQ)] (s\<lparr>loops_per_tick := l\<rparr>) }"

section \<open>The time of day\<close>

lemma months_sum:
  assumes "1 \<le> m" "m \<le> 12"
  shows "sum_list (map (\<lambda>d. d * 24 * 60 * 60) (take m days_per_month)) =
      86400 * (sum_list (take (m - 1) days_per_month) + days_per_month ! (m - 1))"
    "28 \<le> days_per_month ! (m - 1)" "days_per_month ! (m - 1) \<le> 31"
    "0 \<le> sum_list (take (m - 1) days_per_month)" "sum_list (take (m - 1) days_per_month) \<le> 334"
proof -
  have "\<forall>m \<in> set [1..<13]. sum_list (map (\<lambda>d. d * 24 * 60 * 60) (take m days_per_month)) =
      86400 * (sum_list (take (m - 1) days_per_month) + days_per_month ! (m - 1)) \<and>
    28 \<le> days_per_month ! (m - 1) \<and> days_per_month ! (m - 1) \<le> 31 \<and>
    0 \<le> sum_list (take (m - 1) days_per_month) \<and> sum_list (take (m - 1) days_per_month) \<le> 334"
    by code_simp
  moreover have "m \<in> set [1..<13]" using assms by simp
  ultimately show "sum_list (map (\<lambda>d. d * 24 * 60 * 60) (take m days_per_month)) =
      86400 * (sum_list (take (m - 1) days_per_month) + days_per_month ! (m - 1))"
    "28 \<le> days_per_month ! (m - 1)" "days_per_month ! (m - 1) \<le> 31"
    "0 \<le> sum_list (take (m - 1) days_per_month)" "sum_list (take (m - 1) days_per_month) \<le> 334"
    by blast+
qed

lemma calendar:
  assumes "0 \<le> n" "n \<le> 67"
  shows "leap_days_before (n + 1970) - leap_days_before 1970 = (n + 1969) div 4 - 492"
    "is_leap (n + 1970) \<longleftrightarrow> (n + 2) mod 4 = 0"
proof -
  have "(n + 1969) div 100 = (if n < 31 then 19 else 20)" "(n + 1969) div 400 = (if n < 31 then 4 else 5)"
    using assms by (cases "n < 31"; simp; presburger)+
  then show "leap_days_before (n + 1970) - leap_days_before 1970 = (n + 1969) div 4 - 492"
    by (cases "n < 31") (simp_all add: leap_days_before_def add.commute)
  have c: "(n + 1970) mod 100 = 0 \<longrightarrow> n = 30" using assms by presburger
  have "(n + 1970) mod 4 = 0 \<longleftrightarrow> (n + 2) mod 4 = 0" by presburger
  then have d: "is_leap (n + 1970) \<longleftrightarrow> (n + 2) mod 4 = 0 \<and> ((n + 1970) mod 100 \<noteq> 0 \<or> (n + 1970) mod 400 = 0)"
    unfolding is_leap_def by (rule arg_cong)
  have "(n + 1970) mod 100 \<noteq> 0 \<or> (n + 1970) mod 400 = 0"
  proof (cases "n = 30")
    case True
    then show ?thesis by simp
  next
    case False
    have "(n + 1970) mod 100 \<noteq> 0" using mp [OF c] False by (rule contrapos_nn [rotated])
    then show ?thesis ..
  qed
  with d show "is_leap (n + 1970) \<longleftrightarrow> (n + 2) mod 4 = 0" by metis
qed

text \<open>C38:
  The time that \<open>rtc_get_time\<close> computes is wrong for every date. For every reading with a valid
  month and valid fields between 1970 and 2037, the result is ahead of the seconds since the start of
  1970, which its comment promises, by a whole number of days between 27 and 32: the loop over the
  months adds the days of the current month too, and leap years are counted as if 1970 were one.\<close>

theorem rtc_time_ahead:
  assumes y: "1970 \<le> y" "y \<le> 2037" "r_year r = y mod 100"
    and f: "1 \<le> r_mon r" "r_mon r \<le> 12" "1 \<le> r_mday r" "r_mday r \<le> 31" "0 \<le> r_hour r" "r_hour r < 24"
      "0 \<le> r_min r" "r_min r < 60" "0 \<le> r_sec r" "r_sec r < 60"
  shows "\<exists>k. rtc_seconds r = Some (unix_seconds y r + k * 86400) \<and> 27 \<le> k \<and> k \<le> 32"
proof -
  define n where "n = y - 1970"
  have n: "0 \<le> n" "n \<le> 67" "y = n + 1970" using y by (simp_all add: n_def)
  have year: "(if r_year r < 70 then r_year r + 100 else r_year r) - 70 = n"
  proof -
    have "y mod 100 = (if y < 2000 then y - 1900 else y - 2000)" using y(1,2) by (cases "y < 2000"; simp; presburger)
    then show ?thesis using y by (auto simp: n_def)
  qed
  define m where "m = nat (r_mon r)"
  have m: "1 \<le> m" "m \<le> 12" "r_mon r > 2 \<longleftrightarrow> m > 2" "nat (r_mon r) = m" using f(1,2) by (auto simp: m_def)
  note ms = months_sum [OF m(1,2)]
  define S where "S = sum_list (take (m - 1) days_per_month)"
  define D where "D = days_per_month ! (m - 1)"
  define L where "L = (n - 1) sdiv 4"
  define e1 :: int where "e1 = (if m > 2 \<and> n mod 4 = 0 then 1 else 0)"
  define e2 :: int where "e2 = (if m > 2 \<and> (n + 2) mod 4 = 0 then 1 else 0)"
  define k where "k = D + L - ((n + 1969) div 4 - 492) + e1 - e2"
  define T where "T = ((365 * n + ((n + 1969) div 4 - 492) + S + e2 + (r_mday r - 1)) * 24 + r_hour r) * 60 + r_min r"
  have L: "L = (if n = 0 then 0 else (n - 1) div 4)"
    using n(1) by (cases "n = 0"; cases "n = 1") (simp_all add: L_def signed_divide_int_def)
  have "- 1 \<le> L - ((n + 1969) div 4 - 492) + e1 - e2 \<and> L - ((n + 1969) div 4 - 492) + e1 - e2 \<le> 1"
    using n(1) unfolding L e1_def e2_def by (cases "m > 2"; cases "n = 0"; simp; presburger?)
  then have kb: "27 \<le> k" "k \<le> 32" using ms(2,3) unfolding k_def D_def [symmetric] by simp_all
  have unix: "unix_seconds y r = T * 60 + r_sec r"
    using calendar [OF n(1,2)] m by (simp add: unix_seconds_def days_since_1970_def n(3) T_def S_def e2_def)
  have B: "0 \<le> (n + 1969) div 4 - 492" "(n + 1969) div 4 - 492 \<le> 17" using n by simp_all
  have e: "0 \<le> e1" "e1 \<le> 1" "0 \<le> e2" "e2 \<le> 1" by (simp_all add: e1_def e2_def)
  have T: "0 \<le> T" "T * 60 + r_sec r + k * 86400 < 2 ^ 32"
    using n B e f ms(4,5) kb unfolding T_def S_def [symmetric] by simp_all
  have small: "(n * 365 + L) * 24 * 60 * 60 < 2 ^ 31"
  proof -
    have "(n - 1) div 4 \<le> 66 div 4" using n by (intro zdiv_mono1) auto
    then have "L \<le> 16" unfolding L by simp
    then show ?thesis using n by simp
  qed
  have "rtc_seconds r = Some (((n * 365 + L) * 24 * 60 * 60 + 86400 * (S + D) +
      (if m > 2 \<and> n mod 4 = 0 then 24 * 60 * 60 else 0) +
      (r_mday r - 1) * 24 * 60 * 60 + r_hour r * 60 * 60 + r_min r * 60 + r_sec r) mod 2 ^ 32)"
    using small f(2) ms(1) unfolding rtc_seconds_def Let_def year L_def [symmetric] m(3,4) S_def [symmetric] D_def [symmetric]
    by simp
  also have "(n * 365 + L) * 24 * 60 * 60 + 86400 * (S + D) + (if m > 2 \<and> n mod 4 = 0 then 24 * 60 * 60 else 0) +
      (r_mday r - 1) * 24 * 60 * 60 + r_hour r * 60 * 60 + r_min r * 60 + r_sec r = T * 60 + r_sec r + k * 86400"
    by (simp add: T_def k_def e1_def algebra_simps)
  finally have "rtc_seconds r = Some (unix_seconds y r + k * 86400)"
    using T kb f(9) unfolding unix by simp
  then show ?thesis using kb by blast
qed

lemma rtc_time_ahead_witness:
  "\<exists>k. rtc_seconds \<lparr>r_sec = 0, r_min = 0, r_hour = 0, r_mday = 1, r_mon = 1, r_year = 70\<rparr> = Some (k * 86400) \<and> 27 \<le> k"
  using rtc_time_ahead [of 1970 "\<lparr>r_sec = 0, r_min = 0, r_hour = 0, r_mday = 1, r_mon = 1, r_year = 70\<rparr>"]
  by (auto simp: unix_seconds_def days_since_1970_def)

section \<open>The precision of the calibration\<close>

lemma push_bit_exp: "k < 31 \<Longrightarrow> push_bit 1 (2 ^ k :: u32) = 2 ^ Suc k"
  by (simp add: push_bit_eq_mult)

lemma unat_exp: "k < 32 \<Longrightarrow> unat (2 ^ k :: u32) = 2 ^ k"
  using unat_of_nat_small [of "2 ^ k"] power_strict_increasing [of k 32 "2 :: nat"] by simp

lemma double_loop_exp:
  assumes "2 ^ k \<le> T" "T < 2 ^ 31" "k \<le> 30"
  shows "\<exists>m. double_loop (\<lambda>l. T < unat l) (2 ^ k) = Some (2 ^ m) \<and> k \<le> m \<and> m \<le> 30 \<and> 2 ^ m \<le> T \<and> T < 2 ^ Suc m"
  using assms
proof (induction "30 - k" arbitrary: k)
  case 0
  then have "k = 30" by simp
  then show ?case using 0 by (intro exI [of _ 30], subst double_loop.simps) (simp add: push_bit_exp unat_exp)
next
  case (Suc n)
  have u: "unat (2 ^ Suc k :: u32) = 2 ^ Suc k" by (rule unat_exp) (use Suc.hyps(2) in simp)
  then have "unat (2 ^ Suc k :: u32) \<noteq> 0" by simp
  then have "(2 ^ Suc k :: u32) \<noteq> 0" by (metis unat_0)
  moreover have "push_bit 1 (2 ^ k :: u32) = 2 ^ Suc k" by (rule push_bit_exp) (use Suc.hyps(2) in simp)
  ultimately have p: "push_bit 1 (2 ^ k :: u32) = 2 ^ Suc k" "unat (2 ^ Suc k :: u32) = 2 ^ Suc k" "(2 ^ Suc k :: u32) \<noteq> 0"
    using u by blast+
  have step: "double_loop (\<lambda>l. T < unat l) (2 ^ k) =
      (if \<not> T < 2 ^ Suc k then double_loop (\<lambda>l. T < unat l) (2 ^ Suc k) else Some (2 ^ k))"
    by (subst double_loop.simps) (simp only: p Let_def bind_ASSERT_iff if_True simp_thms)
  show ?case
  proof (cases "T < 2 ^ Suc k")
    case True
    then show ?thesis using Suc.prems unfolding step by auto
  next
    case False
    then obtain m where "double_loop (\<lambda>l. T < unat l) (2 ^ Suc k) = Some (2 ^ m)" "Suc k \<le> m" "m \<le> 30" "2 ^ m \<le> T" "T < 2 ^ Suc m"
    proof -
      have k: "n = 30 - Suc k" "2 ^ Suc k \<le> T" "Suc k \<le> 30" using Suc.hyps(2) False by auto
      show ?thesis using Suc.hyps(1) [OF k(1,2) Suc.prems(2) k(3)] that by blast
    qed
    then show ?thesis using False unfolding step by auto
  qed
qed

lemma or_exp:
  fixes l :: u32
  assumes "2 ^ Suc j dvd unat l" "unat l + 2 ^ j < 2 ^ 32" "j < 31"
  shows "unat (l OR 2 ^ j) = unat l + 2 ^ j"
proof -
  obtain q where q: "unat l = 2 ^ Suc j * q" using assms(1) by (rule dvdE)
  then have "l = of_nat (2 ^ Suc j * q)" by (metis of_nat_unat ucast_id)
  then have "l = push_bit (Suc j) (of_nat q)" by (simp add: push_bit_eq_mult)
  then have "\<not> bit l j" by (simp only: bit_push_bit_iff) simp
  then have "l AND 2 ^ j = 0" by (intro bit_eqI) (auto simp: bit_simps)
  then have "l OR 2 ^ j = l + 2 ^ j" by (simp add: disjunctive_add_eq_or)
  then show ?thesis using unat_add_small [of l "2 ^ j"] unat_exp [of j] assms(2,3) by simp
qed

lemma refine_loop_exp:
  assumes "m - 10 \<le> j" "10 \<le> m" "m \<le> 30" "j < m" "2 ^ Suc j dvd unat l" "unat l \<le> T" "T < unat l + 2 ^ Suc j" "T < 2 ^ 31"
  shows "\<exists>l'. refine_loop (\<lambda>l. T < unat l) (2 ^ m) (2 ^ j) l = Some l' \<and> unat l' \<le> T \<and> T < unat l' + 2 ^ (m - 9)"
  using assms
proof (induction "j - (m - 10)" arbitrary: j l)
  case 0
  then have j: "j = m - 10" by simp
  have "drop_bit 10 (2 ^ m :: u32) = 2 ^ (m - 10)"
    using 0 by (intro bit_eqI) (auto simp: bit_simps)
  moreover have "m - 9 = Suc (m - 10)" using 0 by simp
  ultimately show ?case using 0 j by (subst refine_loop.simps) auto
next
  case (Suc n)
  have ne: "(2 ^ j :: u32) \<noteq> drop_bit 10 (2 ^ m)"
  proof
    assume "(2 ^ j :: u32) = drop_bit 10 (2 ^ m)"
    then have "bit (2 ^ j :: u32) j = bit (drop_bit 10 (2 ^ m) :: u32) j" by simp
    then show False using Suc.hyps(2) Suc.prems by (auto simp: bit_simps)
  qed
  obtain i where i: "j = Suc i" using Suc.hyps(2) by (cases j) auto
  have d: "drop_bit 1 (2 ^ j :: u32) = 2 ^ i"
    using i Suc.prems by (intro bit_eqI) (auto simp: bit_simps)
  have u: "unat (l OR 2 ^ j) = unat l + 2 ^ j"
    by (rule or_exp) (use Suc.prems power_strict_increasing [of j 30 "2 :: nat"] in auto)
  define l1 where "l1 = (if \<not> T < unat (l OR 2 ^ j) then l OR 2 ^ j else l)"
  have "\<exists>l'. refine_loop (\<lambda>l. T < unat l) (2 ^ m) (2 ^ i) l1 = Some l' \<and> unat l' \<le> T \<and> T < unat l' + 2 ^ (m - 9)"
  proof (rule Suc.hyps(1))
    have dv: "2 ^ j dvd unat l" using Suc.prems(5) by (rule power_le_dvd) simp
    show "2 ^ Suc i dvd unat l1" using dv u by (auto simp: l1_def i [symmetric])
    show "unat l1 \<le> T" "T < unat l1 + 2 ^ Suc i" using u Suc.prems(6,7) by (auto simp: l1_def i [symmetric])
  qed (use Suc.hyps(2) Suc.prems i in auto)
  then show ?case using ne d by (subst refine_loop.simps) (simp add: l1_def)
qed

text \<open>C37:
  The calibration of the timer ends, and it is precise: when more than \<open>T\<close> loops take longer than a
  tick, for any \<open>T\<close> from 1024 up to \<open>2 ^ 31\<close>, it finds a number of loops that fit into a tick and are
  less than one part in 512 below \<open>T\<close>. (The comment in the code promises eight more bits than the
  first power of two; the loop determines nine.)\<close>

theorem calibration_precise:
  assumes "1024 \<le> T" "T < 2 ^ 31"
  shows "\<exists>l. calibrate_loops (\<lambda>l. T < unat l) = Some l \<and> unat l \<le> T \<and> 512 * (T - unat l) < T"
proof -
  obtain m where m: "double_loop (\<lambda>l. T < unat l) (2 ^ 10) = Some (2 ^ m)" "10 \<le> m" "m \<le> 30" "2 ^ m \<le> T" "T < 2 ^ Suc m"
    using double_loop_exp [of 10 T] assms by auto
  have d: "drop_bit 1 (2 ^ m :: u32) = 2 ^ (m - 1)" using m(2,3) by (intro bit_eqI) (auto simp: bit_simps)
  have "m - 10 \<le> m - 1" "m - 1 < m" "Suc (m - 1) = m" using m(2) by auto
  then obtain l where l: "refine_loop (\<lambda>l. T < unat l) (2 ^ m) (2 ^ (m - 1)) (2 ^ m) = Some l" "unat l \<le> T" "T < unat l + 2 ^ (m - 9)"
    using refine_loop_exp [of m "m - 1" "2 ^ m" T] m unat_exp [of m] assms(2) by auto
  have "(2 :: nat) ^ m = 512 * 2 ^ (m - 9)" using m(2) power_add [of "2 :: nat" 9 "m - 9"] by simp
  then have "512 * (T - unat l) < T" using l(2,3) m(4) by simp
  moreover have "(push_bit 10 1 :: u32) = 2 ^ 10" by simp
  ultimately show ?thesis using m(1) l d by (simp add: calibrate_loops_def)
qed

lemma calibration_precise_witness:
  "\<exists>l. calibrate_loops (\<lambda>l. 1000000 < unat l) = Some l \<and> unat l \<le> 1000000 \<and> 512 * (1000000 - unat l) < 1000000"
  using calibration_precise [of 1000000] by simp

section \<open>Sleeping\<close>

lemma timer_ticks_on:
  assumes "int_level s" "\<not> intr_context (kern s)"
  shows "timer_ticks s = Some (ticks s, s)"
  using assms by (simp add: timer_ticks_def int_level_def int_disable_def int_set_level_def intr_disable_def
      intr_set_level_def intr_enable_def intr_get_level_def intr_context_def Let_def kassert_simps)

text \<open>The states between the checks of the loop.\<close>

primrec turns :: "('a clock_scheme \<Rightarrow> 'a clock_scheme option) \<Rightarrow> nat \<Rightarrow> 'a clock_scheme \<Rightarrow> 'a clock_scheme option" where
  "turns run 0 s = Some s"
| "turns run (Suc m) s = do { s \<leftarrow> yield_turn run s; turns run m s }"

lemma turns_add: "turns run m s = Some s1 \<Longrightarrow> turns run (m + j) s = turns run j s1"
  by (induction m arbitrary: s) (auto simp: kbind)

lemma turns_invariant:
  assumes turn: "\<forall>s s'. ok s \<longrightarrow> yield_turn run s = Some s' \<longrightarrow> ok s'"
  shows "ok s \<Longrightarrow> turns run m s = Some s' \<Longrightarrow> ok s'"
  by (induction m arbitrary: s) (use turn in \<open>auto simp: kbind\<close>)

text \<open>A clock that goes on after some number of turns reaches every time.\<close>

lemma turns_reach:
  assumes turn: "\<forall>s s'. ok s \<longrightarrow> yield_turn run s = Some s' \<longrightarrow> ok s'"
    and clock: "\<And>s. ok s \<Longrightarrow> \<exists>m s'. turns run m s = Some s' \<and> ticks s < ticks s'"
    and s: "ok s"
  shows "\<exists>m s'. turns run m s = Some s' \<and> goal \<le> ticks s'"
  using s
proof (induction "nat (goal - ticks s)" arbitrary: s rule: less_induct)
  case less
  show ?case
  proof (cases "goal \<le> ticks s")
    case True
    then show ?thesis by (intro exI [of _ 0] exI [of _ s]) simp
  next
    case False
    obtain m s1 where s1: "turns run m s = Some s1" "ticks s < ticks s1" using clock [OF less.prems] by blast
    then have "nat (goal - ticks s1) < nat (goal - ticks s)" using False by simp
    moreover have "ok s1" using turns_invariant [of ok run, OF turn] less.prems s1(1) by blast
    ultimately
    obtain j s2 where "turns run j s1 = Some s2" "goal \<le> ticks s2" using less.hyps by blast
    then show ?thesis using turns_add [OF s1(1), of j] by auto
  qed
qed

lemma sleep_loop_turns:
  assumes on: "\<And>s. ok s \<Longrightarrow> int_level s \<and> \<not> intr_context (kern s)"
    and turn: "\<forall>s s'. ok s \<longrightarrow> yield_turn run s = Some s' \<longrightarrow> ok s'"
    and s: "ok s" "turns run m s = Some s'" "start + n \<le> ticks s'"
      "\<forall>j < m. \<forall>s''. turns run j s = Some s'' \<longrightarrow> ticks s'' < start + n"
  shows "sleep_loop run start n s = Some s'"
  using s
proof (induction m arbitrary: s)
  case 0
  then show ?case using timer_ticks_on [of s] on [of s] by (subst sleep_loop.simps) (simp add: timer_elapsed_def)
next
  case (Suc m)
  obtain s1 where s1: "yield_turn run s = Some s1" "turns run m s1 = Some s'"
    using Suc.prems(2) by (auto simp: kbind)
  have "ticks s'' < start + n" if "j < m" "turns run j s1 = Some s''" for j s''
    using Suc.prems(4) [rule_format, of "Suc j" s''] s1(1) that by simp
  then have "sleep_loop run start n s1 = Some s'"
    using Suc.IH [OF _ s1(2) Suc.prems(3)] turn Suc.prems(1) s1(1) by blast
  moreover have "ticks s < start + n" using Suc.prems(4) [rule_format, of 0 s] by simp
  ultimately show ?case
    using timer_ticks_on [of s] on [OF Suc.prems(1)] s1(1) by (subst sleep_loop.simps) (simp add: timer_elapsed_def)
qed

text \<open>C25:
  \<open>timer_sleep\<close> returns, and at the right time. Let \<open>ok\<close> hold of the states in which the sleeping
  thread runs: the scheduler's invariant holds, interrupts are on, and no interrupt is being handled.
  Suppose that, when it has yielded, the processor comes back to it in such a state (no other thread
  keeps the processor or stops the kernel), and that the clock goes on: after some number of turns, as
  many as it takes and any number of them in the same tick, the tick count has grown. Then a sleep of
  \<open>n\<close> ticks returns after finitely many turns, at least \<open>n\<close> ticks after it was called, and at the first
  of its checks at which they have passed; a sleep of no or of negative length returns at once.\<close>

theorem timer_sleep_returns:
  fixes run :: "'a clock_scheme \<Rightarrow> 'a clock_scheme option"
  assumes ok: "\<And>s. ok s \<Longrightarrow> sched_inv (kern s) \<and> \<not> in_external_intr (kern s) \<and> int_level s"
    and resumed: "\<And>s k. ok s \<Longrightarrow> thread_yield (kern s) = Some k \<Longrightarrow> \<exists>s'. run (s\<lparr>kern := k\<rparr>) = Some s' \<and> ok s'"
    and clock: "\<And>s. ok s \<Longrightarrow> \<exists>m s'. turns run m s = Some s' \<and> ticks s < ticks s'"
    and s: "ok s"
  shows "\<exists>m s'. timer_sleep run n s = Some s' \<and> turns run m s = Some s' \<and> ticks s + n \<le> ticks s' \<and>
    (\<forall>j < m. \<exists>s''. turns run j s = Some s'' \<and> ticks s'' < ticks s + n) \<and> (n \<le> 0 \<longrightarrow> s' = s)"
proof -
  have turn: "\<forall>s s'. ok s \<longrightarrow> yield_turn run s = Some s' \<longrightarrow> ok s'"
    using resumed by (fastforce simp: yield_turn_def kbind)
  have goes: "\<exists>s'. yield_turn run s = Some s'" if "ok s" for s
    using thread_yield_ok [of "kern s"] ok [OF that] resumed [OF that] by (fastforce simp: yield_turn_def)
  have all: "\<exists>s''. turns run j s = Some s''" if "ok s" for j s
    using that by (induction j arbitrary: s) (use goes turn in \<open>fastforce+\<close>)
  have on: "int_level s \<and> \<not> intr_context (kern s)" if "ok s" for s
    using ok [OF that] by (simp add: intr_context_def)
  let ?done = "\<lambda>m. \<exists>s'. turns run m s = Some s' \<and> ticks s + n \<le> ticks s'"
  define m where "m = (LEAST m. ?done m)"
  have "\<exists>m. ?done m" by (rule turns_reach [of ok run s "ticks s + n", OF turn clock s])
  then obtain s' where s': "turns run m s = Some s'" "ticks s + n \<le> ticks s'"
    unfolding m_def using LeastI_ex [of ?done] by blast
  have before: "ticks s'' < ticks s + n" if "j < m" "turns run j s = Some s''" for j s''
    using not_less_Least [of j ?done] that unfolding m_def by force
  have "sleep_loop run (ticks s) n s = Some s'"
    using sleep_loop_turns [of ok run s m s' "ticks s" n, OF on turn s s'] before by blast
  then have sleep: "timer_sleep run n s = Some s'"
    using timer_ticks_on [of s] on [OF s] by (simp add: timer_sleep_def kassert_simps)
  have "m = 0" if "n \<le> 0" using before [of 0 s] that by (cases m) auto
  then have "n \<le> 0 \<longrightarrow> s' = s" using s'(1) by auto
  moreover have "\<forall>j < m. \<exists>s''. turns run j s = Some s'' \<and> ticks s'' < ticks s + n" using all [OF s] before by blast
  ultimately show ?thesis using sleep s' by blast
qed

text \<open>
  A machine on which only the sleeping thread is ready, so that \<open>thread_yield\<close> returns at once, and the
  timer interrupts it at every third turn.
\<close>

definition lone :: "clock \<Rightarrow> bool" where
  "lone s \<longleftrightarrow> sched_inv (kern s) \<and> \<not> in_external_intr (kern s) \<and> int_level s \<and>
     running (kern s) \<noteq> idle_thread (kern s) \<and> ready (kern s) = []"

definition lone_run :: "clock \<Rightarrow> clock option" where
  "lone_run s = do {
     k \<leftarrow> thread_resume (kern s);
     let s = s\<lparr>kern := k, port_reads := port_reads s + 1\<rparr>;
     if port_reads s mod 3 = 0
     then do {
       k \<leftarrow> external_interrupt tick_handlers (kern s) 0x20;
       k \<leftarrow> thread_resume k;
       Some (s\<lparr>kern := k, ticks := ticks s + 1\<rparr>) }
     else Some s }"

definition lone_clock :: clock where
  "lone_clock = \<lparr>kern = \<lparr>ths = [100 \<mapsto> demo_thread THREAD_RUNNING, 300 \<mapsto> demo_thread THREAD_BLOCKED],
       running = 100, ready = [], all_list = [100, 300], idle_thread = 300, initial_thread = 100,
       next_tid = 3, active_sched_policy = SCHED_FIFO, thread_ticks = 0, idle_ticks = 0, kernel_ticks = 0,
       user_ticks = 0, intr_on = True, in_external_intr = False, yield_on_return = False,
       unexpected_cnt = (\<lambda>_. 0), saved_level = (\<lambda>_. None), semas = (\<lambda>_. \<lparr>sem_value = 0, waiters = []\<rparr>),
       lock_holder = (\<lambda>_. NULL), conds = (\<lambda>_. []), rws = (\<lambda>_. \<lparr>AR = 0, WR = 0, AW = 0, WW = 0\<rparr>),
       frames = (\<lambda>_. []), readers = (\<lambda>_. []), writers = (\<lambda>_. [])\<rparr>,
     port_in = (\<lambda>_ _. 0), port_reads = 0, port_out = [], printed = [],
     idt = (\<lambda>_. 0), idtr = 0, intr_handlers = (\<lambda>_. None), intr_names = (\<lambda>_. []), ticks = 0, loops_per_tick = 0\<rparr>"

lemma lone_clock: "lone lone_clock"
  by (auto simp: lone_def lone_clock_def sched_defs demo_thread_def status_def int_level_def intr_get_level_def split: if_splits)

lemma lone_turn:
  assumes "lone s" "thread_yield (kern s) = Some k"
  shows "\<exists>s'. lone_run (s\<lparr>kern := k\<rparr>) = Some s' \<and> lone s' \<and> port_reads s' = port_reads s + 1 \<and>
    ticks s' = (if (port_reads s + 1) mod 3 = 0 then ticks s + 1 else ticks s)"
proof -
  have l: "sched_inv (kern s)" "\<not> in_external_intr (kern s)" "running (kern s) \<noteq> idle_thread (kern s)"
    "ready (kern s) = []" "intr_on (kern s)"
    using assms(1) by (simp_all add: lone_def int_level_def intr_get_level_def)
  obtain k1 where k1: "thread_resume k = Some k1" "sched_inv k1" "\<not> in_external_intr k1"
    "idle_thread k1 = idle_thread (kern s)" "running k1 = running (kern s)" "ready k1 = []" "intr_on k1"
    using yield_resume_step [OF l(1-3)] assms(2) l(4,5) by auto
  have r1: "running k1 \<noteq> idle_thread k1" using k1(4,5) l(3) by simp
  obtain k2 where k2: "external_interrupt tick_handlers k1 0x20 = Some k2" "sched_inv k2" "\<not> in_external_intr k2"
    "saved_level k2 (running k1) = Some True" "idle_thread k2 = idle_thread k1" "running k2 = running k1" "ready k2 = []"
    using timer_interrupt_preempts [OF k1(2,3) r1] k1(6) by (auto split: if_splits)
  obtain k3 where k3: "thread_resume k2 = Some k3" "k3 = k2\<lparr>intr_on := True, saved_level := (saved_level k2)(running k2 := None)\<rparr>"
    using thread_resume_ok [OF k2(3)] k2(4,6) by auto
  have "sched_inv k3" "\<not> in_external_intr k3" "running k3 \<noteq> idle_thread k3" "ready k3 = []" "intr_on k3"
    using k2 r1 unfolding k3(2) by simp_all
  then show ?thesis
    using k1 k2(1) k3(1) r1 by (simp add: lone_run_def lone_def int_level_def intr_get_level_def)
qed

lemma timer_sleep_returns_witness:
  "\<exists>s'. timer_sleep lone_run 5 lone_clock = Some s' \<and> 5 \<le> ticks s'"
proof -
  have turn: "\<exists>s'. yield_turn lone_run s = Some s' \<and> lone s' \<and> port_reads s' = port_reads s + 1 \<and>
      ticks s' = (if (port_reads s + 1) mod 3 = 0 then ticks s + 1 else ticks s)" if "lone s" for s
    using thread_yield_ok [of "kern s"] lone_turn [OF that] that by (fastforce simp: yield_turn_def lone_def)
  have "\<exists>m s'. turns lone_run m s = Some s' \<and> ticks s < ticks s'" if s: "lone s" for s
  proof -
    obtain s1 where 1: "yield_turn lone_run s = Some s1" "lone s1" "port_reads s1 = port_reads s + 1"
      "ticks s1 = (if (port_reads s + 1) mod 3 = 0 then ticks s + 1 else ticks s)" using turn [OF s] by blast
    obtain s2 where 2: "yield_turn lone_run s1 = Some s2" "lone s2" "port_reads s2 = port_reads s1 + 1"
      "ticks s2 = (if (port_reads s1 + 1) mod 3 = 0 then ticks s1 + 1 else ticks s1)" using turn [OF 1(2)] by blast
    obtain s3 where 3: "yield_turn lone_run s2 = Some s3"
      "ticks s3 = (if (port_reads s2 + 1) mod 3 = 0 then ticks s2 + 1 else ticks s2)" using turn [OF 2(2)] by blast
    have "(port_reads s + 1) mod 3 = 0 \<or> (port_reads s + 2) mod 3 = 0 \<or> (port_reads s + 3) mod 3 = 0" by presburger
    then have "ticks s < ticks s3" using 1(3,4) 2(3,4) 3(2) by auto
    then show ?thesis
      using 1(1) 2(1) 3(1) by (intro exI [of _ 3] exI [of _ s3]) (simp add: numeral_3_eq_3)
  qed
  then show ?thesis
    using timer_sleep_returns [of lone lone_run lone_clock 5] lone_clock lone_turn
    by (fastforce simp: lone_def lone_clock_def)
qed

end
