(* ===== verification/Kernel_Input.thy ===== *)
theory Kernel_Input
  imports Kernel_Clock Kernel_Synch_Reach
begin

text \<open>
  Character input and the serial line: the interrupt queues of \<open>devices/intq.c\<close>, the input buffer of
  \<open>devices/input.c\<close>, the serial driver \<open>devices/serial.c\<close> and the keyboard driver
  \<open>devices/kbd.c\<close>, with the reboot of \<open>devices/shutdown.c\<close> that the keyboard can ask for.

  There are two interrupt queues, named by \<open>queue_id\<close>. A thread that has to wait, for a lock or in
  \<open>thread_block\<close>, continues in the state that \<open>run\<close> makes of its own, in which other threads and
  interrupt handlers have run; a handler never waits.
\<close>

section \<open>Interrupt queues\<close>

definition INTQ_BUFSIZE :: nat where "INTQ_BUFSIZE = 64"

record intq =
  iq_lock :: lock_id
  not_full :: addr
  not_empty :: addr
  iq_buf :: "u8 list"
  iq_head :: nat
  iq_tail :: nat

datatype serial_mode = UNINIT | POLL | QUEUE

record devices = clock +
  input_buffer :: intq
  txq :: intq
  serial_mode :: serial_mode
  left_shift :: bool
  right_shift :: bool
  left_alt :: bool
  right_alt :: bool
  left_ctrl :: bool
  right_ctrl :: bool
  caps_lock :: bool
  key_cnt :: u64

datatype queue_id = Input_buffer | Tx_queue
datatype waiter = Not_full | Not_empty

fun queue :: "queue_id \<Rightarrow> 'a devices_scheme \<Rightarrow> intq" where
  "queue Input_buffer s = input_buffer s"
| "queue Tx_queue s = txq s"

fun set_queue :: "queue_id \<Rightarrow> intq \<Rightarrow> 'a devices_scheme \<Rightarrow> 'a devices_scheme" where
  "set_queue Input_buffer q s = s\<lparr>input_buffer := q\<rparr>"
| "set_queue Tx_queue q s = s\<lparr>txq := q\<rparr>"

fun get_waiter :: "waiter \<Rightarrow> intq \<Rightarrow> addr" where
  "get_waiter Not_full q = not_full q"
| "get_waiter Not_empty q = not_empty q"

fun set_waiter :: "waiter \<Rightarrow> addr \<Rightarrow> intq \<Rightarrow> intq" where
  "set_waiter Not_full t q = q\<lparr>not_full := t\<rparr>"
| "set_waiter Not_empty t q = q\<lparr>not_empty := t\<rparr>"

definition intq_next :: "nat \<Rightarrow> nat" where
  "intq_next pos = (pos + 1) mod INTQ_BUFSIZE"

definition intq_init :: "queue_id \<Rightarrow> 'a devices_scheme \<Rightarrow> 'a devices_scheme" where
  "intq_init i s =
     (let q = queue i s; s = s\<lparr>kern := lock_init (kern s) (iq_lock q)\<rparr>
      in set_queue i (q\<lparr>not_full := NULL, not_empty := NULL, iq_head := 0, iq_tail := 0\<rparr>) s)"

definition intq_empty :: "queue_id \<Rightarrow> 'a devices_scheme \<Rightarrow> bool option" where
  "intq_empty i s = do { ASSERT (\<not> int_level s); Some (iq_head (queue i s) = iq_tail (queue i s)) }"

definition intq_full :: "queue_id \<Rightarrow> 'a devices_scheme \<Rightarrow> bool option" where
  "intq_full i s = do { ASSERT (\<not> int_level s); Some (intq_next (iq_head (queue i s)) = iq_tail (queue i s)) }"

text \<open>The condition a waiter waits for, as the assertions of \<open>wait\<close> and \<open>signal\<close> spell it out.\<close>

fun holds_up :: "waiter \<Rightarrow> queue_id \<Rightarrow> 'a devices_scheme \<Rightarrow> bool option" where
  "holds_up Not_empty i s = intq_empty i s"
| "holds_up Not_full i s = intq_full i s"

definition intq_wait :: "('a devices_scheme \<Rightarrow> 'a devices_scheme option) \<Rightarrow> queue_id \<Rightarrow> waiter \<Rightarrow>
    'a devices_scheme \<Rightarrow> 'a devices_scheme option" where
  "intq_wait run i w s = do {
     ASSERT (\<not> intr_context (kern s));
     ASSERT (\<not> int_level s);
     c \<leftarrow> holds_up w i s;
     ASSERT c;
     t \<leftarrow> thread_current (kern s);
     let s = set_queue i (set_waiter w t (queue i s)) s;
     k \<leftarrow> thread_block (kern s);
     run (s\<lparr>kern := k\<rparr>) }"

definition intq_signal :: "queue_id \<Rightarrow> waiter \<Rightarrow> 'a devices_scheme \<Rightarrow> 'a devices_scheme option" where
  "intq_signal i w s = do {
     ASSERT (\<not> int_level s);
     c \<leftarrow> holds_up w i s;
     ASSERT (\<not> c);
     if get_waiter w (queue i s) \<noteq> NULL
     then do {
       k \<leftarrow> thread_unblock (kern s) (get_waiter w (queue i s));
       Some (set_queue i (set_waiter w NULL (queue i s)) (s\<lparr>kern := k\<rparr>)) }
     else Some s }"

text \<open>The body of the loop in \<open>intq_getc\<close> and \<open>intq_putc\<close>.\<close>

definition wait_round :: "('a devices_scheme \<Rightarrow> 'a devices_scheme option) \<Rightarrow> queue_id \<Rightarrow> waiter \<Rightarrow>
    'a devices_scheme \<Rightarrow> 'a devices_scheme option" where
  "wait_round run i w s = do {
     ASSERT (\<not> intr_context (kern s));
     k \<leftarrow> lock_acquire (kern s) (iq_lock (queue i s));
     s \<leftarrow> run (s\<lparr>kern := k\<rparr>);
     s \<leftarrow> intq_wait run i w s;
     k \<leftarrow> lock_release (kern s) (iq_lock (queue i s));
     run (s\<lparr>kern := k\<rparr>) }"

partial_function (option) wait_loop :: "('a devices_scheme \<Rightarrow> 'a devices_scheme option) \<Rightarrow> queue_id \<Rightarrow> waiter \<Rightarrow>
    'a devices_scheme \<Rightarrow> 'a devices_scheme option" where
  "wait_loop run i w s = do {
     c \<leftarrow> holds_up w i s;
     if c then do { s \<leftarrow> wait_round run i w s; wait_loop run i w s } else Some s }"

definition take_byte :: "intq \<Rightarrow> u8 \<times> intq" where
  "take_byte q = (iq_buf q ! iq_tail q, q\<lparr>iq_tail := intq_next (iq_tail q)\<rparr>)"

definition add_byte :: "u8 \<Rightarrow> intq \<Rightarrow> intq" where
  "add_byte byte q = q\<lparr>iq_buf := (iq_buf q)[iq_head q := byte], iq_head := intq_next (iq_head q)\<rparr>"

definition intq_getc :: "('a devices_scheme \<Rightarrow> 'a devices_scheme option) \<Rightarrow> queue_id \<Rightarrow>
    'a devices_scheme \<Rightarrow> (u8 \<times> 'a devices_scheme) option" where
  "intq_getc run i s = do {
     ASSERT (\<not> int_level s);
     s \<leftarrow> wait_loop run i Not_empty s;
     let (byte, q) = take_byte (queue i s);
     s \<leftarrow> intq_signal i Not_full (set_queue i q s);
     Some (byte, s) }"

definition intq_putc :: "('a devices_scheme \<Rightarrow> 'a devices_scheme option) \<Rightarrow> queue_id \<Rightarrow> u8 \<Rightarrow>
    'a devices_scheme \<Rightarrow> 'a devices_scheme option" where
  "intq_putc run i byte s = do {
     ASSERT (\<not> int_level s);
     s \<leftarrow> wait_loop run i Not_full s;
     intq_signal i Not_empty (set_queue i (add_byte byte (queue i s)) s) }"

section \<open>The serial line and the input buffer\<close>

definition IO_BASE :: u16 where "IO_BASE = 0x3f8"
definition RBR_REG :: u16 where "RBR_REG = IO_BASE + 0"
definition THR_REG :: u16 where "THR_REG = IO_BASE + 0"
definition IER_REG :: u16 where "IER_REG = IO_BASE + 1"
definition LS_REG :: u16 where "LS_REG = IO_BASE + 0"
definition MS_REG :: u16 where "MS_REG = IO_BASE + 1"
definition IIR_REG :: u16 where "IIR_REG = IO_BASE + 2"
definition FCR_REG :: u16 where "FCR_REG = IO_BASE + 2"
definition LCR_REG :: u16 where "LCR_REG = IO_BASE + 3"
definition MCR_REG :: u16 where "MCR_REG = IO_BASE + 4"
definition LSR_REG :: u16 where "LSR_REG = IO_BASE + 5"
definition IER_RECV :: u8 where "IER_RECV = 0x01"
definition IER_XMIT :: u8 where "IER_XMIT = 0x02"
definition LCR_N81 :: u8 where "LCR_N81 = 0x03"
definition LCR_DLAB :: u8 where "LCR_DLAB = 0x80"
definition MCR_OUT2 :: u8 where "MCR_OUT2 = 0x08"
definition LSR_DR :: u8 where "LSR_DR = 0x01"
definition LSR_THRE :: u8 where "LSR_THRE = 0x20"

definition input_init :: "'a devices_scheme \<Rightarrow> 'a devices_scheme" where
  "input_init s = intq_init Input_buffer s"

definition input_full :: "'a devices_scheme \<Rightarrow> bool option" where
  "input_full s = do { ASSERT (\<not> int_level s); intq_full Input_buffer s }"

definition write_ier :: "'a devices_scheme \<Rightarrow> 'a devices_scheme option" where
  "write_ier s = do {
     ASSERT (\<not> int_level s);
     e \<leftarrow> intq_empty Tx_queue s;
     let ier = (if \<not> e then IER_XMIT else 0);
     f \<leftarrow> input_full s;
     let ier = (if \<not> f then ier OR IER_RECV else ier);
     Some (outb IER_REG ier s) }"

definition serial_notify :: "'a devices_scheme \<Rightarrow> 'a devices_scheme option" where
  "serial_notify s = do {
     ASSERT (\<not> int_level s);
     if serial_mode s = QUEUE then write_ier s else Some s }"

definition input_putc :: "('a devices_scheme \<Rightarrow> 'a devices_scheme option) \<Rightarrow> u8 \<Rightarrow> 'a devices_scheme \<Rightarrow> 'a devices_scheme option" where
  "input_putc run key s = do {
     ASSERT (\<not> int_level s);
     f \<leftarrow> intq_full Input_buffer s;
     ASSERT (\<not> f);
     s \<leftarrow> intq_putc run Input_buffer key s;
     serial_notify s }"

definition input_getc :: "('a devices_scheme \<Rightarrow> 'a devices_scheme option) \<Rightarrow> 'a devices_scheme \<Rightarrow> (u8 \<times> 'a devices_scheme) option" where
  "input_getc run s = do {
     let (old_level, s) = int_disable s;
     (key, s) \<leftarrow> intq_getc run Input_buffer s;
     s \<leftarrow> serial_notify s;
     s \<leftarrow> int_set_level s old_level;
     Some (key, s) }"

definition set_serial :: "int \<Rightarrow> 'a devices_scheme \<Rightarrow> 'a devices_scheme option" where
  "set_serial bps s = do {
     let base_rate = 1843200 div 16;
     ASSERT (bps \<noteq> 0);
     let divisor = (of_int (base_rate sdiv bps) :: u16);
     ASSERT (bps \<ge> 300 \<and> bps \<le> 115200);
     let s = outb LCR_REG (LCR_N81 OR LCR_DLAB) s;
     let s = outb LS_REG (ucast (divisor AND 0xff)) s;
     let s = outb MS_REG (ucast (drop_bit 8 divisor)) s;
     Some (outb LCR_REG LCR_N81 s) }"

definition init_poll :: "'a devices_scheme \<Rightarrow> 'a devices_scheme option" where
  "init_poll s = do {
     ASSERT (serial_mode s = UNINIT);
     let s = outb IER_REG 0 s;
     let s = outb FCR_REG 0 s;
     s \<leftarrow> set_serial 9600 s;
     let s = outb MCR_REG MCR_OUT2 s;
     let s = intq_init Tx_queue s;
     Some (s\<lparr>serial_mode := POLL\<rparr>) }"

definition serial_init_queue :: "(nat \<Rightarrow> u32) \<Rightarrow> 'a devices_scheme \<Rightarrow> 'a devices_scheme option" where
  "serial_init_queue intr_stubs s = do {
     s \<leftarrow> (if serial_mode s = UNINIT then init_poll s else Some s);
     ASSERT (serial_mode s = POLL);
     s \<leftarrow> intr_register_ext intr_stubs (0x20 + 4) serial_handler ''serial'' s;
     let s = s\<lparr>serial_mode := QUEUE\<rparr>;
     let (old_level, s) = int_disable s;
     s \<leftarrow> write_ier s;
     int_set_level s old_level }"

partial_function (option) poll_ready :: "'a devices_scheme \<Rightarrow> 'a devices_scheme option" where
  "poll_ready s = (let (lsr, s) = inb LSR_REG s in if lsr AND LSR_THRE = 0 then poll_ready s else Some s)"

definition putc_poll :: "u8 \<Rightarrow> 'a devices_scheme \<Rightarrow> 'a devices_scheme option" where
  "putc_poll byte s = do {
     ASSERT (\<not> int_level s);
     s \<leftarrow> poll_ready s;
     Some (outb THR_REG byte s) }"

definition serial_putc :: "('a devices_scheme \<Rightarrow> 'a devices_scheme option) \<Rightarrow> u8 \<Rightarrow> 'a devices_scheme \<Rightarrow> 'a devices_scheme option" where
  "serial_putc run byte s = do {
     let (old_level, s) = int_disable s;
     s \<leftarrow> (if serial_mode s \<noteq> QUEUE
       then do {
         s \<leftarrow> (if serial_mode s = UNINIT then init_poll s else Some s);
         putc_poll byte s }
       else do {
         s \<leftarrow> (if \<not> old_level then do {
             f \<leftarrow> intq_full Tx_queue s;
             if f then do { (c, s) \<leftarrow> intq_getc run Tx_queue s; putc_poll c s } else Some s }
           else Some s);
         s \<leftarrow> intq_putc run Tx_queue byte s;
         write_ier s });
     int_set_level s old_level }"

partial_function (option) flush_loop :: "('a devices_scheme \<Rightarrow> 'a devices_scheme option) \<Rightarrow> 'a devices_scheme \<Rightarrow> 'a devices_scheme option" where
  "flush_loop run s = do {
     e \<leftarrow> intq_empty Tx_queue s;
     if \<not> e then do { (c, s) \<leftarrow> intq_getc run Tx_queue s; s \<leftarrow> putc_poll c s; flush_loop run s } else Some s }"

definition serial_flush :: "('a devices_scheme \<Rightarrow> 'a devices_scheme option) \<Rightarrow> 'a devices_scheme \<Rightarrow> 'a devices_scheme option" where
  "serial_flush run s = do {
     let (old_level, s) = int_disable s;
     s \<leftarrow> flush_loop run s;
     int_set_level s old_level }"

partial_function (option) receive_loop :: "('a devices_scheme \<Rightarrow> 'a devices_scheme option) \<Rightarrow> 'a devices_scheme \<Rightarrow> 'a devices_scheme option" where
  "receive_loop run s = do {
     f \<leftarrow> input_full s;
     if f then Some s
     else (let (lsr, s) = inb LSR_REG s in
       if lsr AND LSR_DR = 0 then Some s
       else let (c, s) = inb RBR_REG s in do { s \<leftarrow> input_putc run c s; receive_loop run s }) }"

partial_function (option) transmit_loop :: "('a devices_scheme \<Rightarrow> 'a devices_scheme option) \<Rightarrow> 'a devices_scheme \<Rightarrow> 'a devices_scheme option" where
  "transmit_loop run s = do {
     e \<leftarrow> intq_empty Tx_queue s;
     if e then Some s
     else (let (lsr, s) = inb LSR_REG s in
       if lsr AND LSR_THRE = 0 then Some s
       else do { (c, s) \<leftarrow> intq_getc run Tx_queue s; transmit_loop run (outb THR_REG c s) }) }"

definition serial_interrupt :: "('a devices_scheme \<Rightarrow> 'a devices_scheme option) \<Rightarrow> 'a devices_scheme \<Rightarrow> 'a devices_scheme option" where
  "serial_interrupt run s = do {
     let (_, s) = inb IIR_REG s;
     s \<leftarrow> receive_loop run s;
     s \<leftarrow> transmit_loop run s;
     write_ier s }"

section \<open>Reboot\<close>

definition CONTROL_REG :: u16 where "CONTROL_REG = 0x64"

fun reboot_poll :: "nat \<Rightarrow> 'a devices_scheme \<Rightarrow> 'a devices_scheme option" where
  "reboot_poll 0 s = Some s"
| "reboot_poll (Suc n) s =
     (let (st, s) = inb CONTROL_REG s in
      if st AND 0x02 = 0 then Some s else do { s \<leftarrow> timer_udelay 2 s; reboot_poll n s })"

partial_function (option) reboot_loop :: "'a devices_scheme \<Rightarrow> 'a devices_scheme option" where
  "reboot_loop s = do {
     s \<leftarrow> reboot_poll 0x10000 s;
     s \<leftarrow> timer_udelay 50 s;
     s \<leftarrow> timer_udelay 50 (outb CONTROL_REG 0xfe s);
     reboot_loop s }"

definition shutdown_reboot :: "'a devices_scheme \<Rightarrow> 'a devices_scheme option" where
  "shutdown_reboot s = do { s \<leftarrow> print (''Rebooting...'' @ NL) [] s; reboot_loop s }"

section \<open>The keyboard\<close>

definition DATA_REG :: u16 where "DATA_REG = 0x60"

type_synonym keymap = "(u32 \<times> string) list"

definition invariant_keymap :: keymap where
  "invariant_keymap =
     [(0x01, [CHR 0x1b]), (0x0e, [CHR 0x08]), (0x0f, [CHR 0x09] @ ''QWERTYUIOP''), (0x1c, [CHR 0x0d]),
      (0x1e, ''ASDFGHJKL''), (0x2c, ''ZXCVBNM''), (0x37, ''*''), (0x39, '' ''), (0x53, [CHR 0x7f])]"

definition unshifted_keymap :: keymap where
  "unshifted_keymap =
     [(0x02, ''1234567890-=''), (0x1a, ''[]''), (0x27, [CHR 0x3b, CHR 0x27, CHR 0x60]), (0x2b, [CHR 0x5c]), (0x33, '',./'')]"

definition shifted_keymap :: keymap where
  "shifted_keymap =
     [(0x02, ''!@#$%^&*()_+''), (0x1a, ''{}''), (0x27, [CHR 0x3a, CHR 0x22, CHR 0x7e]), (0x2b, ''|''), (0x33, ''<>?'')]"

fun map_key :: "keymap \<Rightarrow> u32 \<Rightarrow> u8 option" where
  "map_key [] scancode = None"
| "map_key ((first_scancode, chars) # k) scancode =
     (if scancode \<ge> first_scancode \<and> scancode < first_scancode + of_nat (length chars)
      then Some (of_char (chars ! unat (scancode - first_scancode)))
      else map_key k scancode)"

text \<open>The table of shift keys.\<close>

definition set_shift_key :: "u32 \<Rightarrow> bool \<Rightarrow> 'a devices_scheme \<Rightarrow> 'a devices_scheme" where
  "set_shift_key code v s =
     (if code = 0x2a then s\<lparr>left_shift := v\<rparr>
      else if code = 0x36 then s\<lparr>right_shift := v\<rparr>
      else if code = 0x38 then s\<lparr>left_alt := v\<rparr>
      else if code = 0xe038 then s\<lparr>right_alt := v\<rparr>
      else if code = 0x1d then s\<lparr>left_ctrl := v\<rparr>
      else if code = 0xe01d then s\<lparr>right_ctrl := v\<rparr>
      else s)"

definition find_char :: "bool \<Rightarrow> u32 \<Rightarrow> u8 option" where
  "find_char shift code =
     (case map_key invariant_keymap code of
        Some c \<Rightarrow> Some c
      | None \<Rightarrow> if \<not> shift then map_key unshifted_keymap code else map_key shifted_keymap code)"

text \<open>The handling of Ctrl, Shift and Alt.\<close>

definition modify_char :: "bool \<Rightarrow> bool \<Rightarrow> bool \<Rightarrow> bool \<Rightarrow> u8 \<Rightarrow> u8" where
  "modify_char ctrl alt shift caps c =
     (let c = (if ctrl \<and> c \<ge> 0x40 \<and> c < 0x60 then c - 0x40
               else if shift = caps then of_int (c_tolower (uint c)) else c)
      in if alt then c + 0x80 else c)"

definition keyboard_interrupt :: "('a devices_scheme \<Rightarrow> 'a devices_scheme option) \<Rightarrow> 'a devices_scheme \<Rightarrow> 'a devices_scheme option" where
  "keyboard_interrupt run s = do {
     let shift = left_shift s \<or> right_shift s;
     let alt = left_alt s \<or> right_alt s;
     let ctrl = left_ctrl s \<or> right_ctrl s;
     let (b, s) = inb DATA_REG s;
     let (code, s) = (if b = 0xe0
       then (let (b2, s) = inb DATA_REG s in (push_bit 8 (ucast b) OR ucast b2, s)) else (ucast b :: u32, s));
     let release = (code AND 0x80 \<noteq> 0);
     let code = code AND NOT 0x80;
     if code = 0x3a then Some (if \<not> release then s\<lparr>caps_lock := \<not> caps_lock s\<rparr> else s)
     else (case find_char shift code of
         Some c \<Rightarrow>
           if release then Some s
           else do {
             s \<leftarrow> (if c = 0x7f \<and> ctrl \<and> alt then shutdown_reboot s else Some s);
             let c = modify_char ctrl alt shift (caps_lock s) c;
             f \<leftarrow> input_full s;
             if \<not> f then input_putc run c (s\<lparr>key_cnt := key_cnt s + 1\<rparr>) else Some s }
       | None \<Rightarrow> Some (set_shift_key code (\<not> release) s)) }"

definition kbd_init :: "(nat \<Rightarrow> u32) \<Rightarrow> 'a devices_scheme \<Rightarrow> 'a devices_scheme option" where
  "kbd_init intr_stubs s = intr_register_ext intr_stubs 0x21 keyboard_handler ''8042 Keyboard'' s"

definition kbd_print_stats :: "'a devices_scheme \<Rightarrow> 'a devices_scheme option" where
  "kbd_print_stats s = print (''Keyboard: %lld keys pressed'' @ NL) [Arg64 (key_cnt s)] s"

section \<open>The ring buffer as a queue\<close>

definition intq_ok :: "intq \<Rightarrow> bool" where
  "intq_ok q \<longleftrightarrow> length (iq_buf q) = INTQ_BUFSIZE \<and> iq_head q < INTQ_BUFSIZE \<and> iq_tail q < INTQ_BUFSIZE"

definition intq_count :: "intq \<Rightarrow> nat" where
  "intq_count q = (iq_head q + INTQ_BUFSIZE - iq_tail q) mod INTQ_BUFSIZE"

definition intq_bytes :: "intq \<Rightarrow> u8 list" where
  "intq_bytes q = map (\<lambda>k. iq_buf q ! ((iq_tail q + k) mod INTQ_BUFSIZE)) [0..<intq_count q]"

lemma length_intq_bytes [simp]: "length (intq_bytes q) = intq_count q"
  by (simp add: intq_bytes_def)

lemma intq_head_eq:
  assumes "intq_ok q"
  shows "iq_head q = (iq_tail q + intq_count q) mod INTQ_BUFSIZE" "intq_count q < INTQ_BUFSIZE"
  using assms by (auto simp: intq_ok_def intq_count_def INTQ_BUFSIZE_def mod_add_right_eq)

lemma ring_index_eq:
  assumes "(t + k) mod INTQ_BUFSIZE = (t + n) mod INTQ_BUFSIZE" "k < INTQ_BUFSIZE" "n < INTQ_BUFSIZE"
  shows "k = n"
proof (cases k n rule: le_cases)
  case le
  then have "INTQ_BUFSIZE dvd n - k" using mod_eq_dvd_iff_nat [of "t + k" "t + n" INTQ_BUFSIZE] assms(1) by simp
  then show ?thesis using assms(3) le by (auto dest: dvd_imp_le)
next
  case ge
  then have "INTQ_BUFSIZE dvd k - n" using mod_eq_dvd_iff_nat [of "t + n" "t + k" INTQ_BUFSIZE] assms(1) by simp
  then show ?thesis using assms(2) ge by (auto dest: dvd_imp_le)
qed

lemma intq_count_eq:
  assumes "intq_ok q" "c < INTQ_BUFSIZE" "iq_head q = (iq_tail q + c) mod INTQ_BUFSIZE"
  shows "intq_count q = c"
  using ring_index_eq [of "iq_tail q" "intq_count q" c] intq_head_eq [OF assms(1)] assms(2,3) by simp

lemma intq_next_add: "intq_next ((t + c) mod INTQ_BUFSIZE) = (t + Suc c) mod INTQ_BUFSIZE"
  by (simp add: intq_next_def mod_Suc_eq)

lemma intq_add:
  assumes q: "intq_ok q" and n: "intq_count q < INTQ_BUFSIZE - 1"
  shows "intq_ok (add_byte b q)" "intq_bytes (add_byte b q) = intq_bytes q @ [b]"
proof -
  let ?c = "intq_count q"
  note h = intq_head_eq [OF q]
  show ok: "intq_ok (add_byte b q)"
    using q by (simp add: intq_ok_def add_byte_def intq_next_def INTQ_BUFSIZE_def)
  have c: "intq_count (add_byte b q) = Suc ?c"
    by (rule intq_count_eq [OF ok]) (use n h intq_next_add [of "iq_tail q" ?c] in \<open>simp_all add: add_byte_def\<close>)
  have "iq_buf (add_byte b q) ! ((iq_tail q + k) mod INTQ_BUFSIZE) = iq_buf q ! ((iq_tail q + k) mod INTQ_BUFSIZE)"
    if "k < ?c" for k
  proof -
    have "(iq_tail q + k) mod INTQ_BUFSIZE \<noteq> iq_head q"
      using ring_index_eq [of "iq_tail q" k ?c] h that by auto
    then show ?thesis by (simp add: add_byte_def)
  qed
  moreover have "iq_buf (add_byte b q) ! ((iq_tail q + ?c) mod INTQ_BUFSIZE) = b"
    using q h(1) by (simp add: add_byte_def intq_ok_def)
  ultimately show "intq_bytes (add_byte b q) = intq_bytes q @ [b]"
    unfolding intq_bytes_def c by (simp add: add_byte_def)
qed

lemma intq_take:
  assumes q: "intq_ok q" and n: "intq_bytes q = b # bs"
  shows "fst (take_byte q) = b" "intq_ok (snd (take_byte q))" "intq_bytes (snd (take_byte q)) = bs"
proof -
  note h = intq_head_eq [OF q]
  obtain c where c: "intq_count q = Suc c" using n length_intq_bytes [of q] by (metis length_Cons)
  have t: "iq_tail q mod INTQ_BUFSIZE = iq_tail q" using q by (simp add: intq_ok_def)
  have up: "[0..<Suc c] = 0 # map Suc [0..<c]" by (simp add: map_Suc_upt upt_conv_Cons)
  show "fst (take_byte q) = b" using n t unfolding intq_bytes_def c up by (simp add: take_byte_def)
  show ok: "intq_ok (snd (take_byte q))"
    using q by (simp add: intq_ok_def take_byte_def intq_next_def INTQ_BUFSIZE_def)
  have e: "(intq_next (iq_tail q) + k) mod INTQ_BUFSIZE = (iq_tail q + Suc k) mod INTQ_BUFSIZE" for k
    by (simp add: intq_next_def mod_add_left_eq)
  have "intq_count (snd (take_byte q)) = c"
    by (rule intq_count_eq [OF ok]) (use h c e [of c] in \<open>simp_all add: take_byte_def\<close>)
  then show "intq_bytes (snd (take_byte q)) = bs"
    using n unfolding intq_bytes_def c up by (simp add: take_byte_def e comp_def)
qed

lemma intq_tests:
  assumes "intq_ok q"
  shows "iq_head q = iq_tail q \<longleftrightarrow> intq_bytes q = []"
    "intq_next (iq_head q) = iq_tail q \<longleftrightarrow> intq_count q = INTQ_BUFSIZE - 1"
proof -
  note h = intq_head_eq [OF assms]
  have t: "iq_tail q mod INTQ_BUFSIZE = iq_tail q" using assms by (simp add: intq_ok_def)
  have z: "(iq_tail q + c) mod INTQ_BUFSIZE = iq_tail q \<longleftrightarrow> c mod INTQ_BUFSIZE = 0" for c
    using mod_eq_dvd_iff_nat [of "iq_tail q" "iq_tail q + c" INTQ_BUFSIZE] t by (simp add: dvd_eq_mod_eq_0)
  have "iq_head q = iq_tail q \<longleftrightarrow> intq_count q = 0" using z [of "intq_count q"] h by simp
  then show "iq_head q = iq_tail q \<longleftrightarrow> intq_bytes q = []" by (metis length_0_conv length_intq_bytes)
  have "intq_next (iq_head q) = iq_tail q \<longleftrightarrow> Suc (intq_count q) mod INTQ_BUFSIZE = 0"
    using z [of "Suc (intq_count q)"] unfolding h(1) intq_next_add by simp
  also have "\<dots> \<longleftrightarrow> intq_count q = INTQ_BUFSIZE - 1" using h(2) by (auto simp: INTQ_BUFSIZE_def mod_Suc)
  finally show "intq_next (iq_head q) = iq_tail q \<longleftrightarrow> intq_count q = INTQ_BUFSIZE - 1" .
qed

section \<open>Waiting threads\<close>

lemma queue_set [simp]:
  "queue i (set_queue j q s) = (if i = j then q else queue i s)" "kern (set_queue j q s) = kern s"
  "serial_mode (set_queue j q s) = serial_mode s" "int_level (set_queue j q s) = int_level s"
  "queue i (s\<lparr>kern := k\<rparr>) = queue i s" "port_in (set_queue j q s) = port_in s"
  by (cases i; cases j; simp add: int_level_def)+

lemma set_queue_twice [simp]:
  "set_queue i q (set_queue i r s) = set_queue i q s"
  "(set_queue i r s)\<lparr>kern := k\<rparr> = set_queue i r (s\<lparr>kern := k\<rparr>)"
  by (cases i; simp)+

lemma ring_waiter [simp]:
  "intq_bytes (set_waiter w t q) = intq_bytes q" "intq_ok (set_waiter w t q) = intq_ok q"
  "get_waiter v (set_waiter w t q) = (if v = w then t else get_waiter v q)"
  "iq_head (set_waiter w t q) = iq_head q" "iq_tail (set_waiter w t q) = iq_tail q"
  "get_waiter w (add_byte b q) = get_waiter w q" "get_waiter w (snd (take_byte q)) = get_waiter w q"
  by (cases w; cases v; simp add: intq_bytes_def intq_count_def intq_ok_def add_byte_def take_byte_def)+

definition waiter_ok :: "'a devices_scheme \<Rightarrow> addr \<Rightarrow> bool" where
  "waiter_ok s t \<longleftrightarrow> t = NULL \<or> status (kern s) t = Some THREAD_BLOCKED \<and> t \<noteq> idle_thread (kern s)"

definition woken :: "addr \<Rightarrow> sync \<Rightarrow> sync" where
  "woken t k = (if t \<noteq> NULL then unblocked k t else k)"

lemma woken_fields [simp]:
  "intr_on (woken t k) = intr_on k" "in_external_intr (woken t k) = in_external_intr k"
  "idle_thread (woken t k) = idle_thread k"
  "status (woken t k) u = (if t \<noteq> NULL \<and> u = t \<and> status k t \<noteq> None then Some THREAD_READY else status k u)"
  by (simp_all add: woken_def unblocked_def)

lemma holds_up_eq:
  assumes "\<not> int_level s" "intq_ok (queue i s)"
  shows "holds_up Not_empty i s = Some (intq_bytes (queue i s) = [])"
    "holds_up Not_full i s = Some (intq_count (queue i s) = INTQ_BUFSIZE - 1)"
  using assms intq_tests [OF assms(2)] by (simp_all add: intq_empty_def intq_full_def kassert_simps)

lemma wait_loop_none: "holds_up w i s = Some False \<Longrightarrow> wait_loop run i w s = Some s"
  by (subst wait_loop.simps) simp

lemma intq_signal_ok:
  assumes "sched_inv (kern s)" "\<not> int_level s" "waiter_ok s (get_waiter w (queue i s))" "holds_up w i s = Some False"
  shows "intq_signal i w s = Some (set_queue i (set_waiter w NULL (queue i s)) (s\<lparr>kern := woken (get_waiter w (queue i s)) (kern s)\<rparr>))"
    "sched_inv (woken (get_waiter w (queue i s)) (kern s))"
proof -
  let ?t = "get_waiter w (queue i s)"
  have off: "\<not> intr_on (kern s)" using assms(2) by (simp add: int_level_def intr_get_level_def)
  have same: "set_queue i (set_waiter w NULL (queue i s)) (s\<lparr>kern := kern s\<rparr>) = s" if "?t = NULL"
    using that by (cases i; cases w) simp_all
  have u: "thread_unblock (kern s) ?t = Some (unblocked (kern s) ?t)" "sched_inv (unblocked (kern s) ?t)" if "?t \<noteq> NULL"
    using thread_unblock_ok [OF assms(1), of ?t] assms(3) that off by (auto simp: waiter_ok_def)
  show "intq_signal i w s = Some (set_queue i (set_waiter w NULL (queue i s)) (s\<lparr>kern := woken ?t (kern s)\<rparr>))"
    using assms(2,4) u(1) same by (cases "?t = NULL") (simp_all add: intq_signal_def kassert_simps woken_def)
  show "sched_inv (woken ?t (kern s))" using assms(1) u(2) by (simp add: woken_def)
qed

lemma intq_putc_ok:
  assumes inv: "sched_inv (kern s)" "\<not> int_level s" "intq_ok (queue i s)"
    and w: "waiter_ok s (not_empty (queue i s))" and n: "intq_count (queue i s) < INTQ_BUFSIZE - 1"
  shows "\<exists>s'. intq_putc run i b s = Some s' \<and>
    s' = set_queue i (set_waiter Not_empty NULL (add_byte b (queue i s))) (s\<lparr>kern := woken (not_empty (queue i s)) (kern s)\<rparr>) \<and>
    sched_inv (kern s') \<and> intq_ok (queue i s') \<and> intq_bytes (queue i s') = intq_bytes (queue i s) @ [b]"
proof -
  note a = intq_add [OF inv(3) n, of b]
  let ?s1 = "set_queue i (add_byte b (queue i s)) s"
  have f: "holds_up Not_full i s = Some False" using holds_up_eq [OF inv(2,3)] n by simp
  have e: "holds_up Not_empty i ?s1 = Some False" using holds_up_eq [of ?s1 i] inv(2) a by simp
  have w1: "waiter_ok ?s1 (get_waiter Not_empty (queue i ?s1))" using w by (simp add: waiter_ok_def add_byte_def)
  have ne: "get_waiter Not_empty (queue i ?s1) = not_empty (queue i s)" by (simp add: add_byte_def)
  have k: "kern ?s1 = kern s" by simp
  note g = intq_signal_ok [OF _ _ w1 e, unfolded ne k]
  show ?thesis
    using g inv(1,2) a wait_loop_none [OF f, of run] by (simp add: intq_putc_def kassert_simps del: set_waiter.simps)
qed

lemma intq_getc_ok:
  assumes inv: "sched_inv (kern s)" "\<not> int_level s" "intq_ok (queue i s)"
    and w: "waiter_ok s (not_full (queue i s))" and n: "intq_bytes (queue i s) = b # bs"
  shows "\<exists>s'. intq_getc run i s = Some (b, s') \<and>
    s' = set_queue i (set_waiter Not_full NULL (snd (take_byte (queue i s)))) (s\<lparr>kern := woken (not_full (queue i s)) (kern s)\<rparr>) \<and>
    sched_inv (kern s') \<and> intq_ok (queue i s') \<and> intq_bytes (queue i s') = bs"
proof -
  obtain q where t: "take_byte (queue i s) = (b, q)" and a: "intq_ok q" "intq_bytes q = bs" and nf: "not_full q = not_full (queue i s)"
    using intq_take [OF inv(3) n] by (cases "take_byte (queue i s)") (auto simp: take_byte_def)
  let ?s1 = "set_queue i q s"
  have f: "holds_up Not_empty i s = Some False" using holds_up_eq [OF inv(2,3)] n by simp
  have "length bs < INTQ_BUFSIZE - 1"
    using n intq_head_eq(2) [OF inv(3)] length_intq_bytes [of "queue i s"] by (simp add: INTQ_BUFSIZE_def)
  then have "intq_count q \<noteq> INTQ_BUFSIZE - 1" using a(2) length_intq_bytes [of q] by simp
  then have e: "holds_up Not_full i ?s1 = Some False" using holds_up_eq [of ?s1 i] inv(2) a by simp
  have w1: "waiter_ok ?s1 (get_waiter Not_full (queue i ?s1))" using w nf by (simp add: waiter_ok_def)
  have ne: "get_waiter Not_full (queue i ?s1) = not_full (queue i s)" by (simp add: nf)
  have k: "kern ?s1 = kern s" by simp
  note g = intq_signal_ok [OF _ _ w1 e, unfolded ne k]
  show ?thesis
    using g inv(1,2) a wait_loop_none [OF f, of run]
    by (simp add: intq_getc_def kassert_simps t del: set_waiter.simps)
qed

text \<open>C15:
  An interrupt queue is a bounded queue of bytes. With interrupts off, and the threads recorded as
  waiting really asleep, \<open>intq_putc\<close> on a queue that is not full appends the byte and makes the thread
  that waits for a byte ready; \<open>intq_getc\<close> on a queue that is not empty takes the oldest byte and makes
  the thread that waits for room ready. A queue holds up to 63 bytes. Neither operation sleeps, so both
  are safe in an interrupt handler.\<close>

theorem intq_refines_queue:
  fixes s :: "'a devices_scheme"
  assumes inv: "sched_inv (kern s)" "\<not> int_level s" "intq_ok (queue i s)"
    and w: "waiter_ok s (not_empty (queue i s))" "waiter_ok s (not_full (queue i s))"
  shows "length (intq_bytes (queue i s)) \<le> 63 \<and>
    (length (intq_bytes (queue i s)) < 63 \<longrightarrow> (\<exists>s'. intq_putc run i b s = Some s' \<and>
      intq_bytes (queue i s') = intq_bytes (queue i s) @ [b] \<and> intq_ok (queue i s') \<and> sched_inv (kern s') \<and>
      not_empty (queue i s') = NULL \<and>
      (not_empty (queue i s) \<noteq> NULL \<longrightarrow> status (kern s') (not_empty (queue i s)) = Some THREAD_READY))) \<and>
    (\<forall>c cs. intq_bytes (queue i s) = c # cs \<longrightarrow> (\<exists>s'. intq_getc run i s = Some (c, s') \<and>
      intq_bytes (queue i s') = cs \<and> intq_ok (queue i s') \<and> sched_inv (kern s') \<and>
      not_full (queue i s') = NULL \<and>
      (not_full (queue i s) \<noteq> NULL \<longrightarrow> status (kern s') (not_full (queue i s)) = Some THREAD_READY)))"
proof (intro conjI allI impI)
  show "length (intq_bytes (queue i s)) \<le> 63" using intq_head_eq(2) [OF inv(3)] by (simp add: INTQ_BUFSIZE_def)
next
  assume "length (intq_bytes (queue i s)) < 63"
  then show "\<exists>s'. intq_putc run i b s = Some s' \<and>
      intq_bytes (queue i s') = intq_bytes (queue i s) @ [b] \<and> intq_ok (queue i s') \<and> sched_inv (kern s') \<and>
      not_empty (queue i s') = NULL \<and>
      (not_empty (queue i s) \<noteq> NULL \<longrightarrow> status (kern s') (not_empty (queue i s)) = Some THREAD_READY)"
    using intq_putc_ok [OF inv w(1), of run b] w(1) by (auto simp: INTQ_BUFSIZE_def waiter_ok_def)
next
  fix c cs
  assume "intq_bytes (queue i s) = c # cs"
  then show "\<exists>s'. intq_getc run i s = Some (c, s') \<and>
      intq_bytes (queue i s') = cs \<and> intq_ok (queue i s') \<and> sched_inv (kern s') \<and>
      not_full (queue i s') = NULL \<and>
      (not_full (queue i s) \<noteq> NULL \<longrightarrow> status (kern s') (not_full (queue i s)) = Some THREAD_READY)"
    using intq_getc_ok [OF inv w(2), of c cs run] w(2) by (auto simp: waiter_ok_def)
qed

definition demo_intq :: intq where
  "demo_intq = \<lparr>iq_lock = Mutex 7, not_full = NULL, not_empty = NULL, iq_buf = replicate INTQ_BUFSIZE 0,
     iq_head = 63, iq_tail = 62\<rparr>"

definition demo_devices :: devices where
  "demo_devices = (undefined :: devices)\<lparr>kern := demo_boot\<lparr>intr_on := False\<rparr>, input_buffer := demo_intq,
     txq := demo_intq\<rparr>"

lemma demo_devices_ok:
  "sched_inv (kern demo_devices)" "\<not> int_level demo_devices" "intq_ok demo_intq" "waiter_ok demo_devices NULL"
proof -
  have "sched_inv demo_boot" using reachable_inv [OF demo_boot_reachable] by (simp add: sync_inv_def)
  then show "sched_inv (kern demo_devices)"
    by (simp add: demo_devices_def sched_inv_def threads_ok_def ready_ok_def all_ok_def)
qed (simp_all add: demo_devices_def int_level_def intr_get_level_def intq_ok_def demo_intq_def INTQ_BUFSIZE_def waiter_ok_def)

lemma intq_refines_queue_witness:
  "(\<exists>s'. intq_putc Some Input_buffer 65 demo_devices = Some s' \<and> intq_bytes (input_buffer s') = [0, 65]) \<and>
   (\<exists>s'. intq_getc Some Input_buffer demo_devices = Some (0, s') \<and> intq_bytes (input_buffer s') = [])"
proof -
  have q: "queue Input_buffer demo_devices = demo_intq" by (simp add: demo_devices_def)
  have b: "intq_bytes demo_intq = [0]" by code_simp
  show ?thesis
    using intq_refines_queue [of demo_devices Input_buffer Some 65] demo_devices_ok
    unfolding q b by (auto simp: demo_intq_def)
qed

section \<open>The serial interrupt\<close>

text \<open>
  Between interrupts: the queues are well formed and the threads they record are asleep. In a handler
  only the reader of the input and the writer of the output can be woken.
\<close>

definition io_ok :: "'a devices_scheme \<Rightarrow> bool" where
  "io_ok s \<longleftrightarrow> sched_inv (kern s) \<and> \<not> int_level s \<and> intq_ok (input_buffer s) \<and> intq_ok (txq s) \<and>
     waiter_ok s (not_empty (input_buffer s)) \<and> waiter_ok s (not_full (txq s)) \<and>
     (not_empty (input_buffer s) \<noteq> NULL \<longrightarrow> not_empty (input_buffer s) \<noteq> not_full (txq s))"

lemma io_ok_fields [simp]:
  "io_ok (s\<lparr>port_reads := n\<rparr>) = io_ok s" "io_ok (s\<lparr>port_out := ps\<rparr>) = io_ok s"
  "io_ok (s\<lparr>key_cnt := k\<rparr>) = io_ok s"
  by (simp_all add: io_ok_def int_level_def waiter_ok_def)

lemma inb_eq: "inb p s = (ucast (port_in s (port_reads s) p), s\<lparr>port_reads := port_reads s + 1\<rparr>)"
  by (simp add: inb_def inl_def)

lemma outb_eq: "outb p d s = s\<lparr>port_out := port_out s @ [(p, ucast d)]\<rparr>"
  by (simp add: outb_def outl_def)

lemma write_ier_ok:
  assumes "io_ok s"
  shows "\<exists>d. write_ier s = Some (outb IER_REG d s)"
  using assms by (auto simp: io_ok_def write_ier_def input_full_def intq_empty_def intq_full_def kassert_simps Let_def)

lemma serial_notify_ok:
  assumes "io_ok s"
  shows "\<exists>s'. serial_notify s = Some s' \<and> io_ok s' \<and> input_buffer s' = input_buffer s \<and> txq s' = txq s"
  using write_ier_ok [OF assms] assms
  by (auto simp: serial_notify_def kassert_simps outb_eq io_ok_def [of s])

lemma input_putc_ok:
  assumes "io_ok s" "intq_count (input_buffer s) < INTQ_BUFSIZE - 1"
  shows "\<exists>s'. input_putc run c s = Some s' \<and> io_ok s' \<and>
    intq_bytes (input_buffer s') = intq_bytes (input_buffer s) @ [c] \<and> txq s' = txq s"
proof -
  have inv: "sched_inv (kern s)" "\<not> int_level s" "intq_ok (queue Input_buffer s)" "waiter_ok s (not_empty (queue Input_buffer s))"
    using assms(1) by (simp_all add: io_ok_def)
  obtain s1 where s1: "intq_putc run Input_buffer c s = Some s1"
    "s1 = set_queue Input_buffer (set_waiter Not_empty NULL (add_byte c (input_buffer s)))
       (s\<lparr>kern := woken (not_empty (input_buffer s)) (kern s)\<rparr>)"
    "sched_inv (kern s1)" "intq_ok (input_buffer s1)" "intq_bytes (input_buffer s1) = intq_bytes (input_buffer s) @ [c]"
    using intq_putc_ok [OF inv, of run c] assms(2) by auto
  have "io_ok s1"
    using assms(1) s1(3,4) unfolding io_ok_def s1(2)
    by (auto simp: waiter_ok_def int_level_def intr_get_level_def)
  moreover have "txq s1 = txq s" by (simp add: s1(2))
  moreover have "intq_full Input_buffer s = Some False"
    using holds_up_eq(2) [OF inv(2,3)] assms(2) by simp
  ultimately show ?thesis
    using serial_notify_ok [of s1] s1(1,5) inv(2) by (auto simp: input_putc_def kassert_simps)
qed

lemma receive_loop_ok:
  assumes "io_ok s"
  shows "\<exists>s'. receive_loop run s = Some s' \<and> io_ok s' \<and> txq s' = txq s"
  using assms
proof (induction "INTQ_BUFSIZE - intq_count (input_buffer s)" arbitrary: s rule: less_induct)
  case less
  have q: "\<not> int_level s" "intq_ok (input_buffer s)" using less.prems by (simp_all add: io_ok_def)
  have full: "input_full s = Some (intq_count (input_buffer s) = INTQ_BUFSIZE - 1)"
    using holds_up_eq(2) [of s Input_buffer] q by (simp add: input_full_def kassert_simps)
  show ?case
  proof (cases "intq_count (input_buffer s) = INTQ_BUFSIZE - 1")
    case True
    then show ?thesis using full less.prems by (subst receive_loop.simps) simp
  next
    case False
    then have lt: "intq_count (input_buffer s) < INTQ_BUFSIZE - 1" using intq_head_eq(2) [OF q(2)] by simp
    let ?s1 = "s\<lparr>port_reads := Suc (port_reads s)\<rparr>" and ?s2 = "s\<lparr>port_reads := Suc (Suc (port_reads s))\<rparr>"
    let ?c = "ucast (port_in s (Suc (port_reads s)) RBR_REG)"
    obtain s3 where s3: "input_putc run ?c ?s2 = Some s3" "io_ok s3"
      "intq_bytes (input_buffer s3) = intq_bytes (input_buffer s) @ [?c]" "txq s3 = txq s"
      using input_putc_ok [of ?s2 run ?c] less.prems lt by auto
    have "intq_count (input_buffer s3) = Suc (intq_count (input_buffer s))"
      using arg_cong [OF s3(3), of length] by simp
    then have "INTQ_BUFSIZE - intq_count (input_buffer s3) < INTQ_BUFSIZE - intq_count (input_buffer s)" using lt by simp
    from less.hyps [OF this s3(2)] show ?thesis
      using full False less.prems s3(1,4) by (subst receive_loop.simps) (auto simp: inb_eq Let_def)
  qed
qed

lemma transmit_loop_ok:
  assumes "io_ok s"
  shows "\<exists>s'. transmit_loop run s = Some s' \<and> io_ok s'"
  using assms
proof (induction "intq_count (txq s)" arbitrary: s rule: less_induct)
  case less
  have q: "sched_inv (kern s)" "\<not> int_level s" "intq_ok (queue Tx_queue s)" "waiter_ok s (not_full (queue Tx_queue s))"
    using less.prems by (simp_all add: io_ok_def)
  have empty: "intq_empty Tx_queue s = Some (intq_bytes (txq s) = [])"
    using holds_up_eq(1) [of s Tx_queue] q by simp
  show ?case
  proof (cases "intq_bytes (txq s)")
    case Nil
    then show ?thesis using empty less.prems by (subst transmit_loop.simps) simp
  next
    case (Cons c cs)
    let ?s1 = "s\<lparr>port_reads := Suc (port_reads s)\<rparr>"
    obtain s2 where s2: "intq_getc run Tx_queue ?s1 = Some (c, s2)"
      "s2 = set_queue Tx_queue (set_waiter Not_full NULL (snd (take_byte (txq s))))
         (?s1\<lparr>kern := woken (not_full (txq s)) (kern s)\<rparr>)"
      "sched_inv (kern s2)" "intq_ok (txq s2)" "intq_bytes (txq s2) = cs"
      using intq_getc_ok [of ?s1 Tx_queue c cs run] q Cons by (auto simp: int_level_def waiter_ok_def)
    have "io_ok s2"
      using less.prems s2(3,4) unfolding io_ok_def s2(2)
      by (auto simp: waiter_ok_def int_level_def intr_get_level_def)
    then have ok: "io_ok (outb THR_REG c s2)" by (simp add: outb_eq)
    have "intq_count (txq (outb THR_REG c s2)) < intq_count (txq s)"
      using arg_cong [OF s2(5), of length] arg_cong [OF Cons, of length] by (simp add: outb_eq)
    from less.hyps [OF this ok] show ?thesis
      using empty Cons less.prems s2(1) by (subst transmit_loop.simps) (auto simp: inb_eq Let_def)
  qed
qed

text \<open>C20:
  The serial interrupt handler always returns, whatever the line delivers: it never sleeps, never fails
  an assertion and makes a bounded number of rounds, since the input buffer fills up and the transmit
  queue runs empty. It leaves the queues and the scheduler consistent, with interrupts off, and no
  waiting thread that it has woken on record.\<close>

theorem serial_interrupt_returns:
  assumes "io_ok s"
  shows "\<exists>s'. serial_interrupt run s = Some s' \<and> io_ok s'"
proof -
  let ?s1 = "s\<lparr>port_reads := Suc (port_reads s)\<rparr>"
  obtain s2 where s2: "receive_loop run ?s1 = Some s2" "io_ok s2" using receive_loop_ok [of ?s1 run] assms by auto
  obtain s3 where s3: "transmit_loop run s2 = Some s3" "io_ok s3" using transmit_loop_ok [OF s2(2)] by blast
  obtain d where "write_ier s3 = Some (outb IER_REG d s3)" using write_ier_ok [OF s3(2)] by blast
  then show ?thesis using s2(1) s3 by (simp add: serial_interrupt_def inb_eq outb_eq)
qed

lemma serial_interrupt_returns_witness:
  "\<exists>s'. serial_interrupt (\<lambda>_. None) demo_devices = Some s' \<and> io_ok s'"
  by (rule serial_interrupt_returns)
    (use demo_devices_ok in \<open>simp add: io_ok_def demo_devices_def demo_intq_def\<close>)

end
