(* ===== verification/Kernel_Console.thy ===== *)
theory Kernel_Console
  imports Kernel_Input
begin

text \<open>
  Output to the user: the text display \<open>devices/vga.c\<close>, the speaker \<open>devices/speaker.c\<close> and the
  console \<open>lib/kernel/console.c\<close> that writes every character to the display and the serial line.

  The frame buffer is the list of its 25 rows of 80 cells, each a character and an attribute. A write
  outside of it is \<^const>\<open>None\<close>. \<open>run\<close> is as in \<open>Kernel_Input\<close>.
\<close>

section \<open>The speaker\<close>

definition SPEAKER_PORT_GATE :: u16 where "SPEAKER_PORT_GATE = 0x61"
definition SPEAKER_GATE_ENABLE :: u8 where "SPEAKER_GATE_ENABLE = 0x03"

definition speaker_off :: "'a machine_scheme \<Rightarrow> 'a machine_scheme option" where
  "speaker_off s = do {
     let (old_level, s) = int_disable s;
     let (g, s) = inb SPEAKER_PORT_GATE s;
     int_set_level (outb SPEAKER_PORT_GATE (g AND NOT SPEAKER_GATE_ENABLE) s) old_level }"

definition speaker_on :: "int \<Rightarrow> 'a machine_scheme \<Rightarrow> 'a machine_scheme option" where
  "speaker_on frequency s =
     (if frequency \<ge> 20 \<and> frequency \<le> 20000
      then do {
        let (old_level, s) = int_disable s;
        s \<leftarrow> pit_configure_channel 2 3 frequency s;
        let (g, s) = inb SPEAKER_PORT_GATE s;
        int_set_level (outb SPEAKER_PORT_GATE (g OR SPEAKER_GATE_ENABLE) s) old_level }
      else speaker_off s)"

definition speaker_beep :: "('a clock_scheme \<Rightarrow> 'a clock_scheme option) \<Rightarrow> 'a clock_scheme \<Rightarrow> 'a clock_scheme option" where
  "speaker_beep run s =
     (if int_level s
      then do {
        s \<leftarrow> speaker_on 440 s;
        s \<leftarrow> timer_msleep run 250 s;
        speaker_off s }
      else Some s)"

section \<open>The display\<close>

definition COL_CNT :: nat where "COL_CNT = 80"
definition ROW_CNT :: nat where "ROW_CNT = 25"
definition GRAY_ON_BLACK :: u8 where "GRAY_ON_BLACK = 0x07"

record screen = devices +
  fb :: "(u8 \<times> u8) list list"
  vga_cx :: nat
  vga_cy :: nat
  vga_inited :: bool
  console_lock :: lock_id
  use_console_lock :: bool
  console_lock_depth :: int
  write_cnt :: u64

definition clear_row :: "nat \<Rightarrow> 'a screen_scheme \<Rightarrow> 'a screen_scheme option" where
  "clear_row y s = do {
     ASSERT (y < ROW_CNT);
     Some (s\<lparr>fb := (fb s)[y := replicate COL_CNT (0x20, GRAY_ON_BLACK)]\<rparr>) }"

definition move_cursor :: "'a screen_scheme \<Rightarrow> 'a screen_scheme" where
  "move_cursor s =
     (let cp = (of_nat (vga_cx s + COL_CNT * vga_cy s) :: u16)
      in outw 0x3d4 (0x0f OR push_bit 8 cp) (outw 0x3d4 (0x0e OR (cp AND 0xff00)) s))"

definition find_cursor :: "'a screen_scheme \<Rightarrow> nat \<times> nat \<times> 'a screen_scheme" where
  "find_cursor s =
     (let s = outb 0x3d4 0x0e s; (hi, s) = inb 0x3d5 s;
          s = outb 0x3d4 0x0f s; (lo, s) = inb 0x3d5 s;
          cp = (push_bit 8 (ucast hi) OR ucast lo :: u16)
      in (unat cp mod COL_CNT, unat cp div COL_CNT, s))"

definition vga_init :: "'a screen_scheme \<Rightarrow> 'a screen_scheme" where
  "vga_init s = (if vga_inited s then s
     else let (x, y, s) = find_cursor s in s\<lparr>vga_cx := x, vga_cy := y, vga_inited := True\<rparr>)"

definition vga_cls :: "'a screen_scheme \<Rightarrow> 'a screen_scheme option" where
  "vga_cls s = do {
     s \<leftarrow> foldM clear_row [0..<ROW_CNT] s;
     Some (move_cursor (s\<lparr>vga_cx := 0, vga_cy := 0\<rparr>)) }"

text \<open>Scrolling moves the rows up by one; the last row keeps its old contents until it is cleared.\<close>

definition vga_newline :: "'a screen_scheme \<Rightarrow> 'a screen_scheme option" where
  "vga_newline s =
     (let s = s\<lparr>vga_cx := 0, vga_cy := vga_cy s + 1\<rparr>
      in if vga_cy s \<ge> ROW_CNT
         then clear_row (ROW_CNT - 1)
           (s\<lparr>vga_cy := ROW_CNT - 1, fb := take (ROW_CNT - 1) (tl (fb s)) @ drop (ROW_CNT - 1) (fb s)\<rparr>)
         else Some s)"

definition put_cell :: "u8 \<Rightarrow> 'a screen_scheme \<Rightarrow> 'a screen_scheme option" where
  "put_cell c s = do {
     ASSERT (vga_cy s < ROW_CNT \<and> vga_cx s < COL_CNT);
     Some (s\<lparr>fb := (fb s)[vga_cy s := (fb s ! vga_cy s)[vga_cx s := (c, GRAY_ON_BLACK)]]\<rparr>) }"

text \<open>The effect of a character; \<open>old_level\<close> is the interrupt level of the caller.\<close>

definition vga_action :: "('a screen_scheme \<Rightarrow> 'a screen_scheme option) \<Rightarrow> bool \<Rightarrow> u8 \<Rightarrow> 'a screen_scheme \<Rightarrow> 'a screen_scheme option" where
  "vga_action run old_level c s =
     (if c = 0x0a then vga_newline s
      else if c = 0x0c then vga_cls s
      else if c = 0x08 then Some (if vga_cx s > 0 then s\<lparr>vga_cx := vga_cx s - 1\<rparr> else s)
      else if c = 0x0d then Some (s\<lparr>vga_cx := 0\<rparr>)
      else if c = 0x09 then (let s = s\<lparr>vga_cx := ROUND_UP (vga_cx s + 1) 8\<rparr>
        in if vga_cx s \<ge> COL_CNT then vga_newline s else Some s)
      else if c = 0x07 then do {
        s \<leftarrow> int_set_level s old_level;
        s \<leftarrow> speaker_beep run s;
        Some (snd (int_disable s)) }
      else do {
        s \<leftarrow> put_cell c s;
        let s = s\<lparr>vga_cx := vga_cx s + 1\<rparr>;
        if vga_cx s \<ge> COL_CNT then vga_newline s else Some s })"

definition vga_putc :: "('a screen_scheme \<Rightarrow> 'a screen_scheme option) \<Rightarrow> u8 \<Rightarrow> 'a screen_scheme \<Rightarrow> 'a screen_scheme option" where
  "vga_putc run c s = do {
     let (old_level, s) = int_disable s;
     s \<leftarrow> vga_action run old_level c (vga_init s);
     int_set_level (move_cursor s) old_level }"

section \<open>The console\<close>

definition console_init :: "'a screen_scheme \<Rightarrow> 'a screen_scheme" where
  "console_init s = s\<lparr>kern := lock_init (kern s) (console_lock s), use_console_lock := True\<rparr>"

definition console_panic :: "'a screen_scheme \<Rightarrow> 'a screen_scheme" where
  "console_panic s = s\<lparr>use_console_lock := False\<rparr>"

definition console_print_stats :: "'a screen_scheme \<Rightarrow> 'a screen_scheme option" where
  "console_print_stats s = print (''Console: %lld characters output'' @ NL) [Arg64 (write_cnt s)] s"

definition acquire_console :: "('a screen_scheme \<Rightarrow> 'a screen_scheme option) \<Rightarrow> 'a screen_scheme \<Rightarrow> 'a screen_scheme option" where
  "acquire_console run s =
     (if \<not> intr_context (kern s) \<and> use_console_lock s
      then do {
        h \<leftarrow> lock_held_by_current_thread (kern s) (console_lock s);
        if h then Some (s\<lparr>console_lock_depth := console_lock_depth s + 1\<rparr>)
        else do { k \<leftarrow> lock_acquire (kern s) (console_lock s); run (s\<lparr>kern := k\<rparr>) } }
      else Some s)"

definition release_console :: "('a screen_scheme \<Rightarrow> 'a screen_scheme option) \<Rightarrow> 'a screen_scheme \<Rightarrow> 'a screen_scheme option" where
  "release_console run s =
     (if \<not> intr_context (kern s) \<and> use_console_lock s
      then if console_lock_depth s > 0 then Some (s\<lparr>console_lock_depth := console_lock_depth s - 1\<rparr>)
           else do { k \<leftarrow> lock_release (kern s) (console_lock s); run (s\<lparr>kern := k\<rparr>) }
      else Some s)"

definition console_locked_by_current_thread :: "'a screen_scheme \<Rightarrow> bool option" where
  "console_locked_by_current_thread s =
     (if intr_context (kern s) \<or> \<not> use_console_lock s then Some True
      else lock_held_by_current_thread (kern s) (console_lock s))"

definition putchar_have_lock :: "('a screen_scheme \<Rightarrow> 'a screen_scheme option) \<Rightarrow> u8 \<Rightarrow> 'a screen_scheme \<Rightarrow> 'a screen_scheme option" where
  "putchar_have_lock run c s = do {
     l \<leftarrow> console_locked_by_current_thread s;
     ASSERT l;
     let s = s\<lparr>write_cnt := write_cnt s + 1\<rparr>;
     s \<leftarrow> serial_putc run c s;
     vga_putc run c s }"

text \<open>The result is the number of characters.\<close>

definition vprintf :: "('a screen_scheme \<Rightarrow> 'a screen_scheme option) \<Rightarrow> string \<Rightarrow> arg list \<Rightarrow> 'a screen_scheme \<Rightarrow> (int \<times> 'a screen_scheme) option" where
  "vprintf run format args s = do {
     s \<leftarrow> acquire_console run s;
     out \<leftarrow> vprintf_helper format args;
     s \<leftarrow> foldM (\<lambda>ch. putchar_have_lock run (of_char ch)) out s;
     s \<leftarrow> release_console run s;
     Some (int (length out), s) }"

definition puts :: "('a screen_scheme \<Rightarrow> 'a screen_scheme option) \<Rightarrow> u8 list \<Rightarrow> 'a screen_scheme \<Rightarrow> 'a screen_scheme option" where
  "puts run str s = do {
     s \<leftarrow> acquire_console run s;
     s \<leftarrow> foldM (putchar_have_lock run) str s;
     s \<leftarrow> putchar_have_lock run 0x0a s;
     release_console run s }"

definition putbuf :: "('a screen_scheme \<Rightarrow> 'a screen_scheme option) \<Rightarrow> u8 list \<Rightarrow> 'a screen_scheme \<Rightarrow> 'a screen_scheme option" where
  "putbuf run buffer s = do {
     s \<leftarrow> acquire_console run s;
     s \<leftarrow> foldM (putchar_have_lock run) buffer s;
     release_console run s }"

definition putchar :: "('a screen_scheme \<Rightarrow> 'a screen_scheme option) \<Rightarrow> u8 \<Rightarrow> 'a screen_scheme \<Rightarrow> 'a screen_scheme option" where
  "putchar run c s = do {
     s \<leftarrow> acquire_console run s;
     s \<leftarrow> putchar_have_lock run c s;
     release_console run s }"

section \<open>The screen stays well formed\<close>

definition screen_ok :: "'a screen_scheme \<Rightarrow> bool" where
  "screen_ok s \<longleftrightarrow> length (fb s) = ROW_CNT \<and> (\<forall>row \<in> set (fb s). length row = COL_CNT) \<and>
     vga_cx s < COL_CNT \<and> vga_cy s < ROW_CNT"

text \<open>
  The position of the hardware cursor: the last two writes to the display controller select its
  registers 14 and 15, the high and the low byte of the position, and write them.
\<close>

definition crtc_index :: "u32 \<Rightarrow> u8" where "crtc_index d = ucast d"
definition crtc_data :: "u32 \<Rightarrow> u8" where "crtc_data d = ucast (drop_bit 8 d)"

definition hardware_cursor :: "'a machine_scheme \<Rightarrow> nat \<Rightarrow> bool" where
  "hardware_cursor s n \<longleftrightarrow> (\<exists>ps a b. port_out s = ps @ [(0x3d4, a), (0x3d4, b)] \<and> crtc_index a = 14 \<and> crtc_index b = 15 \<and>
     n = 256 * unat (crtc_data a) + unat (crtc_data b))"

lemma cursor_words:
  fixes w :: u16
  defines "a \<equiv> ucast (0x0e OR (w AND 0xff00)) :: u32" and "b \<equiv> ucast (0x0f OR push_bit 8 w) :: u32"
  shows "crtc_index a = 14" "crtc_index b = 15" "256 * unat (crtc_data a) + unat (crtc_data b) = unat w"
proof -
  have m: "(0xff00 :: u16) = push_bit 8 (mask 8)" by (simp add: mask_eq_exp_minus_1)
  have or8: "ucast (x OR y) = (ucast x OR ucast y :: u8)" for x y :: u16 by (rule bit_eqI) (auto simp: bit_simps)
  have u: "crtc_index (ucast x) = ucast x" "crtc_data (ucast x) = ucast (drop_bit 8 x)" for x :: u16
    unfolding crtc_index_def crtc_data_def by (rule bit_eqI; auto simp: bit_simps dest: bit_imp_le_length)+
  have "(ucast (w AND 0xff00) :: u8) = 0" "(ucast (push_bit 8 w) :: u8) = 0"
    unfolding m by (rule bit_eqI; simp add: bit_simps)+
  then show "crtc_index a = 14" "crtc_index b = 15" unfolding a_def b_def u or8 by simp_all
  have "drop_bit 8 (w AND 0xff00) = drop_bit 8 w" "(ucast (drop_bit 8 (push_bit 8 w)) :: u8) = ucast w"
    unfolding m by (rule bit_eqI; auto simp: bit_simps dest: bit_imp_le_length)+
  then have "crtc_data a = ucast (drop_bit 8 w)" "crtc_data b = ucast w"
    unfolding a_def b_def u drop_bit_or or8 by simp_all
  moreover have "unat w div 256 < 256" using unsigned_less [of w, where ?'a = nat] by simp
  ultimately show "256 * unat (crtc_data a) + unat (crtc_data b) = unat w"
    by (simp add: unsigned_ucast_eq take_bit_eq_mod drop_bit_eq_div unat_div)
qed

lemma screen_ok_kern [simp]: "screen_ok (s\<lparr>kern := k\<rparr>) = screen_ok s"
  by (simp add: screen_ok_def)

lemma clear_row_ok:
  assumes "screen_ok s" "y < ROW_CNT"
  shows "\<exists>s'. clear_row y s = Some s' \<and> screen_ok s' \<and> kern s' = kern s"
  using assms set_update_subset_insert [of "fb s" y]
  by (fastforce simp: clear_row_def kassert_simps screen_ok_def)

lemma clear_rows_ok:
  assumes "screen_ok s" "\<forall>y \<in> set ys. y < ROW_CNT"
  shows "\<exists>s'. foldM clear_row ys s = Some s' \<and> screen_ok s' \<and> kern s' = kern s"
  using assms
proof (induction ys arbitrary: s)
  case (Cons y ys)
  obtain s1 where "clear_row y s = Some s1" "screen_ok s1" "kern s1 = kern s"
    using clear_row_ok [of s y] Cons.prems by auto
  then show ?case using Cons.IH [of s1] Cons.prems(2) by auto
qed simp

lemma newline_ok:
  assumes "length (fb s) = ROW_CNT" "\<forall>row \<in> set (fb s). length row = COL_CNT" "vga_cy s < ROW_CNT"
  shows "\<exists>s'. vga_newline s = Some s' \<and> screen_ok s' \<and> kern s' = kern s"
proof (cases "vga_cy s + 1 \<ge> ROW_CNT")
  case True
  let ?s = "s\<lparr>vga_cx := 0, vga_cy := ROW_CNT - 1, fb := take (ROW_CNT - 1) (tl (fb s)) @ drop (ROW_CNT - 1) (fb s)\<rparr>"
  have "screen_ok ?s"
    using assms by (auto simp: screen_ok_def ROW_CNT_def COL_CNT_def dest: in_set_takeD in_set_tlD in_set_dropD)
  from clear_row_ok [OF this, of "ROW_CNT - 1"] show ?thesis
    using True by (simp add: vga_newline_def Let_def ROW_CNT_def)
next
  case False
  then show ?thesis using assms by (simp add: vga_newline_def screen_ok_def COL_CNT_def)
qed

lemma put_cell_ok:
  assumes "screen_ok s"
  shows "\<exists>s'. put_cell c s = Some s' \<and> screen_ok s' \<and> kern s' = kern s \<and> vga_cx s' = vga_cx s"
proof -
  have "fb s ! vga_cy s \<in> set (fb s)" using assms by (simp add: screen_ok_def)
  then have "length ((fb s ! vga_cy s)[vga_cx s := (c, GRAY_ON_BLACK)]) = COL_CNT" using assms by (simp add: screen_ok_def)
  then show ?thesis
    using assms set_update_subset_insert [of "fb s" "vga_cy s"]
    by (fastforce simp: put_cell_def kassert_simps screen_ok_def)
qed

lemma int_disable_eq: "int_disable s = (int_level s, s\<lparr>kern := (kern s)\<lparr>intr_on := False\<rparr>\<rparr>)"
  by (simp add: int_disable_def int_level_def intr_disable_def intr_get_level_def)

lemma int_set_level_eq:
  "(l \<longrightarrow> \<not> intr_context (kern s)) \<Longrightarrow> int_set_level s l = Some (s\<lparr>kern := (kern s)\<lparr>intr_on := l\<rparr>\<rparr>)"
  by (auto simp: int_set_level_def intr_set_level_def intr_enable_def intr_disable_def kassert_simps Let_def intr_context_def)

lemma move_cursor_ok:
  "screen_ok (move_cursor s) = screen_ok s" "kern (move_cursor s) = kern s" "fb (move_cursor s) = fb s"
  "vga_cx (move_cursor s) = vga_cx s" "vga_cy (move_cursor s) = vga_cy s"
  "port_out (move_cursor s) = port_out s @
     [(0x3d4, ucast (0x0e OR (of_nat (vga_cx s + COL_CNT * vga_cy s) AND 0xff00 :: u16))),
      (0x3d4, ucast (0x0f OR push_bit 8 (of_nat (vga_cx s + COL_CNT * vga_cy s)) :: u16))]"
  by (simp_all add: move_cursor_def Let_def outw_def outl_def screen_ok_def)

lemma advance_ok:
  assumes "screen_ok s"
  shows "\<exists>s'. (if x \<ge> COL_CNT then vga_newline (s\<lparr>vga_cx := x\<rparr>) else Some (s\<lparr>vga_cx := x\<rparr>)) = Some s' \<and>
    screen_ok s' \<and> kern s' = kern s"
  using assms newline_ok [of "s\<lparr>vga_cx := x\<rparr>"] by (auto simp: screen_ok_def)

lemma vga_action_ok:
  assumes ok: "screen_ok s" and c: "c \<noteq> 7 \<or> \<not> old_level" and off: "\<not> intr_on (kern s)"
  shows "\<exists>s'. vga_action run old_level c s = Some s' \<and> screen_ok s' \<and> kern s' = kern s"
proof -
  have nl: "\<exists>s'. vga_newline s = Some s' \<and> screen_ok s' \<and> kern s' = kern s"
    using newline_ok [of s] ok by (simp add: screen_ok_def)
  obtain s1 where "foldM clear_row [0..<ROW_CNT] s = Some s1" "screen_ok s1" "kern s1 = kern s"
    using clear_rows_ok [OF ok, of "[0..<ROW_CNT]"] by auto
  then have cls: "\<exists>s'. vga_cls s = Some s' \<and> screen_ok s' \<and> kern s' = kern s"
    by (simp add: vga_cls_def move_cursor_ok screen_ok_def COL_CNT_def ROW_CNT_def)
  have bs: "screen_ok (if vga_cx s > 0 then s\<lparr>vga_cx := vga_cx s - 1\<rparr> else s)" "screen_ok (s\<lparr>vga_cx := 0\<rparr>)"
    using ok by (auto simp: screen_ok_def)
  obtain s2 where s2: "put_cell c s = Some s2" "screen_ok s2" "kern s2 = kern s" using put_cell_ok [OF ok] by blast
  have "kern (s\<lparr>kern := (kern s)\<lparr>intr_on := False\<rparr>\<rparr>) = kern s" "s\<lparr>kern := (kern s)\<lparr>intr_on := False\<rparr>\<rparr> = s" using off by simp_all
  then have bell: "int_set_level s False = Some s" "speaker_beep run s = Some s" "snd (int_disable s) = s"
    for run :: "'a screen_scheme \<Rightarrow> 'a screen_scheme option"
    using off by (simp_all add: int_set_level_eq speaker_beep_def int_disable_eq int_level_def intr_get_level_def)
  obtain t1 where t1: "(let s = s\<lparr>vga_cx := ROUND_UP (vga_cx s + 1) 8\<rparr>
      in if vga_cx s \<ge> COL_CNT then vga_newline s else Some s) = Some t1" "screen_ok t1" "kern t1 = kern s"
    using advance_ok [OF ok, of "ROUND_UP (Suc (vga_cx s)) 8"] by (auto simp: Let_def)
  obtain t2 where t2: "do {
      s \<leftarrow> put_cell c s;
      let s = s\<lparr>vga_cx := vga_cx s + 1\<rparr>;
      if vga_cx s \<ge> COL_CNT then vga_newline s else Some s } = Some t2" "screen_ok t2" "kern t2 = kern s"
    using advance_ok [OF s2(2), of "Suc (vga_cx s2)"] s2 by (auto simp: Let_def)
  show ?thesis
    unfolding vga_action_def t1(1) t2(1) using nl cls bs t1 t2 bell ok c by auto
qed

text \<open>C19:
  The display, once it has been initialised, keeps its type: 25 rows of 80 cells, with the cursor on one of them. Every character that
  is written while this holds, a control character or not, at the end of a line or of the screen, is
  handled inside the frame buffer, leaves the display well formed and the interrupt level as it was, and
  moves the hardware cursor to the cursor. (The bell takes time, and is covered for callers that have
  interrupts off, for which it is silent.)\<close>

theorem vga_putc_keeps_screen:
  assumes ok: "screen_ok s" "vga_inited s" and l: "int_level s \<longrightarrow> \<not> intr_context (kern s)" and c: "c \<noteq> 7 \<or> \<not> int_level s"
  shows "\<exists>s'. vga_putc run c s = Some s' \<and> screen_ok s' \<and> kern s' = kern s \<and>
    hardware_cursor s' (vga_cx s' + COL_CNT * vga_cy s')"
proof -
  let ?s0 = "s\<lparr>kern := (kern s)\<lparr>intr_on := False\<rparr>\<rparr>"
  have "screen_ok ?s0" "vga_init ?s0 = ?s0" using ok by (simp_all add: vga_init_def)
  moreover obtain s1 where s1: "vga_action run (int_level s) c ?s0 = Some s1" "screen_ok s1" "kern s1 = kern ?s0"
    using vga_action_ok [of ?s0 c "int_level s" run] ok c by auto
  moreover have "int_set_level (move_cursor s1) (int_level s) = Some ((move_cursor s1)\<lparr>kern := kern s\<rparr>)"
    using int_set_level_eq [of "int_level s" "move_cursor s1"] l s1(3)
    by (simp add: move_cursor_ok int_level_def intr_get_level_def intr_context_def)
  ultimately have p: "vga_putc run c s = Some ((move_cursor s1)\<lparr>kern := kern s\<rparr>)"
    by (simp add: vga_putc_def int_disable_eq)
  have "vga_cx s1 + COL_CNT * vga_cy s1 < 2 ^ 16" using s1(2) by (simp add: screen_ok_def COL_CNT_def ROW_CNT_def)
  then have u: "unat (of_nat (vga_cx s1 + COL_CNT * vga_cy s1) :: u16) = vga_cx s1 + COL_CNT * vga_cy s1"
    by (simp add: unat_of_nat del: of_nat_add)
  have "hardware_cursor ((move_cursor s1)\<lparr>kern := kern s\<rparr>) (vga_cx s1 + COL_CNT * vga_cy s1)"
    using cursor_words [of "of_nat (vga_cx s1 + COL_CNT * vga_cy s1)"]
    by (auto simp: hardware_cursor_def move_cursor_ok u simp del: of_nat_add)
  then show ?thesis using p s1(2) by (simp add: move_cursor_ok)
qed

definition demo_screen :: screen where
  "demo_screen = (undefined :: screen)\<lparr>kern := demo_boot, vga_inited := True,
     fb := replicate ROW_CNT (replicate COL_CNT (0x20, GRAY_ON_BLACK)), vga_cx := 79, vga_cy := 24\<rparr>"

lemma vga_putc_keeps_screen_witness:
  "\<exists>s'. vga_putc (\<lambda>_. None) 65 demo_screen = Some s' \<and> screen_ok s'"
proof -
  have "\<not> intr_context (kern demo_screen)" by (simp add: demo_screen_def) code_simp
  then show ?thesis
    using vga_putc_keeps_screen [of demo_screen 65 "\<lambda>_. None"]
    by (auto simp: demo_screen_def screen_ok_def ROW_CNT_def COL_CNT_def)
qed

end
