(* ===== verification/Kernel_Process.thy ===== *)
theory Kernel_Process
  imports Kernel_File_Safe Kernel_Pagedir Kernel_Intr
begin

text \<open>
  User processes: \<open>userprog/process.c\<close> with its ELF loader, the task-state segment of
  \<open>userprog/tss.c\<close>, the exceptions of \<open>userprog/exception.c\<close> and the system calls of
  \<open>userprog/syscall.c\<close>.

  The state puts the pieces together: the interrupts with the threads (\<open>kern\<close>), the page tables and
  the byte memory (\<open>vmem\<close>), the file system (\<open>disk\<close>), the process control blocks by address
  (\<open>pcbs\<close>; \<open>th_pcb\<close> of a thread is such an address) and the static variables of the files. The
  address that \<open>malloc\<close> answers for a control block is a parameter. An operation that ends in
  \<open>thread_exit\<close> ends in the state in which another thread runs. What the kernel prints is \<open>printed\<close>.
\<close>

section \<open>State\<close>

record process =
  pagedir :: u32
  process_name :: string
  main_thread :: addr

record processes = interrupts +
  vmem :: vm
  disk :: fs_state
  tss_page :: u32
  pcbs :: "addr \<rightharpoonup> process"
  page_fault_cnt :: int

definition pages :: "'a processes_scheme \<Rightarrow> palloc" where
  "pages s = vm.frames (vmem s)"

definition set_pages :: "palloc \<Rightarrow> 'a processes_scheme \<Rightarrow> 'a processes_scheme" where
  "set_pages fr s = s\<lparr>vmem := vm.frames_update (\<lambda>_. fr) (vmem s)\<rparr>"

definition set_mem :: "memory \<Rightarrow> 'a processes_scheme \<Rightarrow> 'a processes_scheme" where
  "set_mem m s = set_pages ((pages s)\<lparr>mem := m\<rparr>) s"

text \<open>The control block of the running thread; following a null pointer is a fault in the kernel.\<close>

definition current_pcb :: "'a processes_scheme \<Rightarrow> addr option" where
  "current_pcb s = do { t \<leftarrow> thread_current (kern s); th \<leftarrow> ths (kern s) t; Some (th_pcb th) }"

definition set_pcb :: "addr \<Rightarrow> 'a processes_scheme \<Rightarrow> 'a processes_scheme option" where
  "set_pcb p s = do {
     t \<leftarrow> thread_current (kern s);
     Some (s\<lparr>kern := upd_thread (kern s) t (\<lambda>th. th\<lparr>th_pcb := p\<rparr>)\<rparr>) }"

definition set_pagedir :: "u32 \<Rightarrow> 'a processes_scheme \<Rightarrow> 'a processes_scheme option" where
  "set_pagedir pd s = do {
     a \<leftarrow> current_pcb s;
     p \<leftarrow> pcbs s a;
     Some (s\<lparr>pcbs := (pcbs s)(a \<mapsto> p\<lparr>pagedir := pd\<rparr>)\<rparr>) }"

definition current_pagedir :: "'a processes_scheme \<Rightarrow> u32 option" where
  "current_pagedir s = do { a \<leftarrow> current_pcb s; p \<leftarrow> pcbs s a; Some (pagedir p) }"

text \<open>The string at an address.\<close>

definition string_at :: "memory \<Rightarrow> u32 \<Rightarrow> u8 list option" where
  "string_at m p = do {
     n \<leftarrow> strlen m p;
     Some (map (\<lambda>i. m (p + of_nat i)) [0..<n]) }"

section \<open>tss.c\<close>

definition store16 :: "memory \<Rightarrow> u32 \<Rightarrow> u16 \<Rightarrow> memory" where
  "store16 m p v = m(p := ucast v, p + 1 := ucast (drop_bit 8 v))"

text \<open>The fields \<open>esp0\<close>, \<open>ss0\<close> and \<open>bitmap\<close> of \<open>struct tss\<close> are at these offsets.\<close>

definition tss_esp0 :: u32 where "tss_esp0 = 4"
definition tss_ss0 :: u32 where "tss_ss0 = 8"
definition tss_bitmap :: u32 where "tss_bitmap = 102"

definition tss_update :: "'a processes_scheme \<Rightarrow> 'a processes_scheme option" where
  "tss_update s = do {
     ASSERT (tss_page s \<noteq> 0);
     t \<leftarrow> thread_current (kern s);
     Some (set_mem (store32 (mem (pages s)) (tss_page s + tss_esp0) (of_nat t + of_nat PGSIZE)) s) }"

definition tss_init :: "'a processes_scheme \<Rightarrow> 'a processes_scheme option" where
  "tss_init s = do {
     (p, fr) \<leftarrow> palloc_get_page (pages s) (PAL_ASSERT OR PAL_ZERO);
     let s = (set_pages fr s)\<lparr>tss_page := p\<rparr>;
     let m = store16 (mem (pages s)) (tss_page s + tss_ss0) (of_nat SEL_KDSEG);
     let m = store16 m (tss_page s + tss_bitmap) 0xdfff;
     tss_update (set_mem m s) }"

definition tss_get :: "'a processes_scheme \<Rightarrow> u32 option" where
  "tss_get s = do { ASSERT (tss_page s \<noteq> 0); Some (tss_page s) }"

section \<open>ELF headers\<close>

record Elf32_Ehdr =
  e_ident :: "u8 list"
  e_type :: nat
  e_machine :: nat
  e_version :: nat
  e_entry :: u32
  e_phoff :: nat
  e_phentsize :: nat
  e_phnum :: nat

record Elf32_Phdr =
  p_type :: nat
  p_offset :: u32
  p_vaddr :: u32
  p_filesz :: u32
  p_memsz :: u32
  p_flags :: u32

definition EHDR_SIZE :: nat where "EHDR_SIZE = 52"
definition PHDR_SIZE :: nat where "PHDR_SIZE = 32"

definition get_ehdr :: "u8 list \<Rightarrow> Elf32_Ehdr" where
  "get_ehdr bs = \<lparr>e_ident = take 16 bs, e_type = get16 bs 16, e_machine = get16 bs 18, e_version = get32 bs 20,
     e_entry = of_nat (get32 bs 24), e_phoff = get32 bs 28, e_phentsize = get16 bs 42, e_phnum = get16 bs 44\<rparr>"

definition get_phdr :: "u8 list \<Rightarrow> Elf32_Phdr" where
  "get_phdr bs = \<lparr>p_type = get32 bs 0, p_offset = of_nat (get32 bs 4), p_vaddr = of_nat (get32 bs 8),
     p_filesz = of_nat (get32 bs 16), p_memsz = of_nat (get32 bs 20), p_flags = of_nat (get32 bs 24)\<rparr>"

definition PT_NULL :: nat where "PT_NULL = 0"
definition PT_LOAD :: nat where "PT_LOAD = 1"
definition PT_DYNAMIC :: nat where "PT_DYNAMIC = 2"
definition PT_INTERP :: nat where "PT_INTERP = 3"
definition PT_NOTE :: nat where "PT_NOTE = 4"
definition PT_SHLIB :: nat where "PT_SHLIB = 5"
definition PT_PHDR :: nat where "PT_PHDR = 6"
definition PT_STACK :: nat where "PT_STACK = 0x6474e551"

definition PF_X :: u32 where "PF_X = 1"
definition PF_W :: u32 where "PF_W = 2"
definition PF_R :: u32 where "PF_R = 4"

definition elf_magic :: "u8 list" where
  "elf_magic = [0x7f, 0x45, 0x4c, 0x46, 1, 1, 1]"

definition ehdr_ok :: "Elf32_Ehdr \<Rightarrow> bool" where
  "ehdr_ok h \<longleftrightarrow> take 7 (e_ident h) = elf_magic \<and> e_type h = 2 \<and> e_machine h = 3 \<and> e_version h = 1 \<and>
     e_phentsize h = PHDR_SIZE \<and> e_phnum h \<le> 1024"

definition validate_segment :: "Elf32_Phdr \<Rightarrow> open_file \<Rightarrow> 'a processes_scheme \<Rightarrow> bool option" where
  "validate_segment phdr f s =
     (if p_offset phdr AND PGMASK \<noteq> p_vaddr phdr AND PGMASK then Some False
      else do {
        len \<leftarrow> file_length f (disk s);
        Some (
          if uint (p_offset phdr) > len mod 2 ^ 32 then False
          else if p_memsz phdr < p_filesz phdr then False
          else if p_memsz phdr = 0 then False
          else if \<not> is_user_vaddr (p_vaddr phdr) then False
          else if \<not> is_user_vaddr (p_vaddr phdr + p_memsz phdr) then False
          else if p_vaddr phdr + p_memsz phdr < p_vaddr phdr then False
          else if p_vaddr phdr < of_nat PGSIZE then False
          else True) })"

section \<open>The loader\<close>

definition process_activate :: "'a processes_scheme \<Rightarrow> 'a processes_scheme option" where
  "process_activate s = do {
     a \<leftarrow> current_pcb s;
     pd \<leftarrow> (if a \<noteq> NULL then current_pagedir s else Some 0);
     v \<leftarrow> (if pd \<noteq> 0 then pagedir_activate (vmem s) pd else pagedir_activate (vmem s) 0);
     tss_update (s\<lparr>vmem := v\<rparr>) }"

definition install_page :: "u32 \<Rightarrow> u32 \<Rightarrow> bool \<Rightarrow> 'a processes_scheme \<Rightarrow> (bool \<times> 'a processes_scheme) option" where
  "install_page upage kpage writable s = do {
     pd \<leftarrow> current_pagedir s;
     p \<leftarrow> pagedir_get_page (vmem s) pd upage;
     if p = 0
     then do {
       (ok, v) \<leftarrow> pagedir_set_page (vmem s) pd upage kpage writable;
       Some (ok, s\<lparr>vmem := v\<rparr>) }
     else Some (False, s) }"

definition free_page :: "u32 \<Rightarrow> 'a processes_scheme \<Rightarrow> 'a processes_scheme option" where
  "free_page p s = do { fr \<leftarrow> palloc_free_page (pages s) p; Some (set_pages fr s) }"

text \<open>\<open>file_read\<close> into memory: the number of bytes, which are stored at \<open>buffer\<close>.\<close>

definition file_read_mem :: "open_file \<Rightarrow> u32 \<Rightarrow> nat \<Rightarrow> 'a processes_scheme \<Rightarrow> (nat \<times> open_file \<times> 'a processes_scheme) option" where
  "file_read_mem f buffer sz s = do {
     (bs, f, d) \<leftarrow> file_read f (int sz) (disk s);
     Some (length bs, f, set_mem (mem_write (mem (pages s)) buffer bs) (s\<lparr>disk := d\<rparr>)) }"

text \<open>One turn of the loop of \<open>load_segment\<close>: a page is filled and installed.\<close>

definition load_page :: "u32 \<Rightarrow> nat \<Rightarrow> bool \<Rightarrow> open_file \<Rightarrow> 'a processes_scheme \<Rightarrow> (bool \<times> open_file \<times> 'a processes_scheme) option" where
  "load_page upage page_read_bytes writable f s = do {
     let page_zero_bytes = PGSIZE - page_read_bytes;
     (kpage, fr) \<leftarrow> palloc_get_page (pages s) PAL_USER;
     let s = set_pages fr s;
     if kpage = 0 then Some (False, f, s)
     else do {
       (n, f, s) \<leftarrow> file_read_mem f kpage page_read_bytes s;
       if n \<noteq> page_read_bytes
       then do { s \<leftarrow> free_page kpage s; Some (False, f, s) }
       else do {
         (_, m) \<leftarrow> memset (mem (pages s)) (kpage + of_nat page_read_bytes) 0 page_zero_bytes;
         let s = set_mem m s;
         (ok, s) \<leftarrow> install_page upage kpage writable s;
         if ok then Some (True, f, s)
         else do { s \<leftarrow> free_page kpage s; Some (False, f, s) } } } }"

partial_function (option) load_loop :: "u32 \<Rightarrow> u32 \<Rightarrow> u32 \<Rightarrow> bool \<Rightarrow> open_file \<Rightarrow> 'a processes_scheme \<Rightarrow>
    (bool \<times> open_file \<times> 'a processes_scheme) option" where
  "load_loop upage read_bytes zero_bytes writable f s =
     (if read_bytes > 0 \<or> zero_bytes > 0
      then do {
        let page_read_bytes = (if read_bytes < of_nat PGSIZE then read_bytes else of_nat PGSIZE);
        let page_zero_bytes = of_nat PGSIZE - page_read_bytes;
        r \<leftarrow> load_page upage (unat page_read_bytes) writable f s;
        if fst r
        then load_loop (upage + of_nat PGSIZE) (read_bytes - page_read_bytes) (zero_bytes - page_zero_bytes) writable
          (fst (snd r)) (snd (snd r))
        else Some r }
      else Some (True, f, s))"

definition load_segment :: "open_file \<Rightarrow> int \<Rightarrow> u32 \<Rightarrow> u32 \<Rightarrow> u32 \<Rightarrow> bool \<Rightarrow> 'a processes_scheme \<Rightarrow>
    (bool \<times> open_file \<times> 'a processes_scheme) option" where
  "load_segment f ofs upage read_bytes zero_bytes writable s = do {
     ASSERT (unat (read_bytes + zero_bytes) mod PGSIZE = 0);
     ASSERT (pg_ofs upage = 0);
     ASSERT (uint (word_of_int ofs :: u32) mod int PGSIZE = 0);
     f \<leftarrow> file_seek f ofs;
     load_loop upage read_bytes zero_bytes writable f s }"

definition setup_stack :: "'a processes_scheme \<Rightarrow> (u32 option \<times> 'a processes_scheme) option" where
  "setup_stack s = do {
     (kpage, fr) \<leftarrow> palloc_get_page (pages s) (PAL_USER OR PAL_ZERO);
     let s = set_pages fr s;
     if kpage \<noteq> 0
     then do {
       (success, s) \<leftarrow> install_page (PHYS_BASE - of_nat PGSIZE) kpage True s;
       if success then Some (Some PHYS_BASE, s)
       else do { s \<leftarrow> free_page kpage s; Some (None, s) } }
     else Some (None, s) }"

text \<open>The numbers of bytes to read and to zero for a segment, in unsigned 32-bit arithmetic.\<close>

definition segment_bytes :: "Elf32_Phdr \<Rightarrow> u32 \<times> u32" where
  "segment_bytes phdr =
     (let page_offset = p_vaddr phdr AND PGMASK;
          rounded = of_nat (ROUND_UP (unat (page_offset + p_memsz phdr)) PGSIZE) :: u32
      in if p_filesz phdr > 0
         then (page_offset + p_filesz phdr, rounded - (page_offset + p_filesz phdr))
         else (0, rounded))"

text \<open>The loop over the program headers; \<open>n\<close> of them are left.\<close>

fun header_loop :: "nat \<Rightarrow> int \<Rightarrow> open_file \<Rightarrow> 'a processes_scheme \<Rightarrow> (bool \<times> open_file \<times> 'a processes_scheme) option" where
  "header_loop 0 file_ofs f s = Some (True, f, s)"
| "header_loop (Suc n) file_ofs f s = do {
     len \<leftarrow> file_length f (disk s);
     if file_ofs < 0 \<or> file_ofs > len then Some (False, f, s)
     else do {
       f \<leftarrow> file_seek f file_ofs;
       (bs, f, d) \<leftarrow> file_read f (int PHDR_SIZE) (disk s);
       let s = s\<lparr>disk := d\<rparr>;
       if length bs \<noteq> PHDR_SIZE then Some (False, f, s)
       else do {
         let phdr = get_phdr bs;
         let file_ofs = file_ofs + int PHDR_SIZE;
         if p_type phdr = PT_DYNAMIC \<or> p_type phdr = PT_INTERP \<or> p_type phdr = PT_SHLIB then Some (False, f, s)
         else if p_type phdr = PT_LOAD
         then do {
           valid \<leftarrow> validate_segment phdr f s;
           if valid
           then do {
             let writable = (p_flags phdr AND PF_W \<noteq> 0);
             let file_page = p_offset phdr AND NOT PGMASK;
             let mem_page = p_vaddr phdr AND NOT PGMASK;
             let (read_bytes, zero_bytes) = segment_bytes phdr;
             (ok, f, s) \<leftarrow> load_segment f (sint file_page) mem_page read_bytes zero_bytes writable s;
             if ok then header_loop n file_ofs f s else Some (False, f, s) }
           else Some (False, f, s) }
         else header_loop n file_ofs f s } } }"

text \<open>\<open>load\<close> up to its label \<open>done\<close>: the entry point and the stack pointer on success, and the file.\<close>

definition load_file :: "u8 list \<Rightarrow> 'a processes_scheme \<Rightarrow> ((u32 \<times> u32) option \<times> open_file option \<times> 'a processes_scheme) option" where
  "load_file file_name s = do {
     (pd, v) \<leftarrow> pagedir_create (vmem s);
     s \<leftarrow> set_pagedir pd (s\<lparr>vmem := v\<rparr>);
     if pd = 0 then Some (None, None, s)
     else do {
       s \<leftarrow> process_activate s;
       (file, d) \<leftarrow> filesys_open file_name (disk s);
       let s = s\<lparr>disk := d\<rparr>;
       case file of
         None \<Rightarrow> do {
           s \<leftarrow> print (''load: %s: open failed'' @ NL) [arg_string file_name] s;
           Some (None, None, s) }
       | Some f \<Rightarrow> do {
           (bs, f, d) \<leftarrow> file_read f (int EHDR_SIZE) (disk s);
           let s = s\<lparr>disk := d\<rparr>;
           let ehdr = get_ehdr bs;
           if length bs \<noteq> EHDR_SIZE \<or> \<not> ehdr_ok ehdr
           then do {
             s \<leftarrow> print (''load: %s: error loading executable'' @ NL) [arg_string file_name] s;
             Some (None, Some f, s) }
           else do {
             (ok, f, s) \<leftarrow> header_loop (e_phnum ehdr) (signed32 (e_phoff ehdr)) f s;
             if \<not> ok then Some (None, Some f, s)
             else do {
               (esp, s) \<leftarrow> setup_stack s;
               Some (map_option (Pair (e_entry ehdr)) esp, Some f, s) } } } } }"

definition load :: "u8 list \<Rightarrow> 'a processes_scheme \<Rightarrow> ((u32 \<times> u32) option \<times> 'a processes_scheme) option" where
  "load file_name s = do {
     (r, file, s) \<leftarrow> load_file file_name s;
     d \<leftarrow> file_close file (disk s);
     Some (r, s\<lparr>disk := d\<rparr>) }"

section \<open>Processes\<close>

text \<open>The semaphore of the file, and the entry of \<open>start_process\<close> in the kernel's code (a parameter).\<close>

definition temporary :: sem where "temporary = Sem 0"

definition userprog_init :: "addr \<Rightarrow> 'a processes_scheme \<Rightarrow> 'a processes_scheme option" where
  "userprog_init new_pcb s = do {
     s \<leftarrow> set_pcb new_pcb s;
     ASSERT (new_pcb \<noteq> NULL);
     Some (s\<lparr>pcbs := (pcbs s)(new_pcb \<mapsto> \<lparr>pagedir = 0, process_name = [], main_thread = NULL\<rparr>)\<rparr>) }"

definition process_execute :: "addr \<Rightarrow> u32 \<Rightarrow> 'a processes_scheme \<Rightarrow> (int \<times> 'a processes_scheme) option" where
  "process_execute start_process_entry file_name s = do {
     let s = s\<lparr>kern := sema_init (kern s) temporary 0\<rparr>;
     (fn_copy, fr) \<leftarrow> palloc_get_page (pages s) 0;
     let s = set_pages fr s;
     if fn_copy = 0 then Some (TID_ERROR, s)
     else do {
       (_, m) \<leftarrow> strlcpy (mem (pages s)) fn_copy file_name PGSIZE;
       let s = set_mem m s;
       name \<leftarrow> string_at (mem (pages s)) file_name;
       (page, fr) \<leftarrow> palloc_get_page (pages s) PAL_ZERO;
       let s = set_pages fr s;
       (tid, k) \<leftarrow> thread_create (kern s) (unat page) (Some (chars_of name)) PRI_DEFAULT start_process_entry (unat fn_copy);
       let s = s\<lparr>kern := k\<rparr>;
       if tid = TID_ERROR
       then do { s \<leftarrow> free_page fn_copy s; Some (tid, s) }
       else Some (tid, s) } }"

definition FLAG_MBS :: u32 where "FLAG_MBS = 0x00000002"
definition FLAG_IF :: u32 where "FLAG_IF = 0x00000200"

text \<open>The frame with which a process starts.\<close>

definition start_frame :: "u32 \<times> u32 \<Rightarrow> intr_frame" where
  "start_frame r = \<lparr>if_edi = 0, if_esi = 0, if_ebp = 0, if_esp_dummy = 0, if_ebx = 0, if_edx = 0, if_ecx = 0, if_eax = 0,
     if_gs = of_nat SEL_UDSEG, if_fs = of_nat SEL_UDSEG, if_es = of_nat SEL_UDSEG, if_ds = of_nat SEL_UDSEG,
     if_vec_no = 0, if_error_code = 0, if_frame_pointer = 0,
     if_eip = fst r, if_cs = of_nat SEL_UCSEG, if_eflags = FLAG_IF OR FLAG_MBS, if_esp = snd r, if_ss = of_nat SEL_UDSEG\<rparr>"

definition sema_up_temporary :: "'a processes_scheme \<Rightarrow> 'a processes_scheme option" where
  "sema_up_temporary s = map_option (\<lambda>k. s\<lparr>kern := k\<rparr>) (sema_up (kern s) temporary)"

definition exit_thread :: "'a processes_scheme \<Rightarrow> 'a processes_scheme option" where
  "exit_thread s = map_option (\<lambda>k. s\<lparr>kern := k\<rparr>) (thread_exit (kern s))"

text \<open>The frame of the jump to user mode, or nothing when the thread has exited.\<close>

definition start_process :: "addr \<Rightarrow> u32 \<Rightarrow> 'a processes_scheme \<Rightarrow> (intr_frame option \<times> 'a processes_scheme) option" where
  "start_process new_pcb fn_copy s = do {
     t \<leftarrow> thread_current (kern s);
     let pcb_success = (new_pcb \<noteq> NULL);
     (r, s) \<leftarrow>
       (if pcb_success
        then do {
          s \<leftarrow> set_pcb new_pcb s;
          th \<leftarrow> ths (kern s) t;
          let s = s\<lparr>pcbs := (pcbs s)(new_pcb \<mapsto> \<lparr>pagedir = 0, process_name = take 15 (th_name th), main_thread = t\<rparr>)\<rparr>;
          file_name \<leftarrow> string_at (mem (pages s)) fn_copy;
          load file_name s }
        else Some (None, s));
     s \<leftarrow>
       (if r = None \<and> pcb_success
        then do {
          pcb_to_free \<leftarrow> current_pcb s;
          s \<leftarrow> set_pcb NULL s;
          Some (s\<lparr>pcbs := (pcbs s)(pcb_to_free := None)\<rparr>) }
        else Some s);
     s \<leftarrow> free_page fn_copy s;
     case r of
       None \<Rightarrow> do {
         s \<leftarrow> sema_up_temporary s;
         s \<leftarrow> exit_thread s;
         Some (None, s) }
     | Some x \<Rightarrow> Some (Some (start_frame x), s) }"

definition process_wait :: "int \<Rightarrow> 'a processes_scheme \<Rightarrow> (int \<times> 'a processes_scheme) option" where
  "process_wait child_pid s = map_option (\<lambda>k. (0, s\<lparr>kern := k\<rparr>)) (sema_down (kern s) temporary)"

definition process_exit :: "'a processes_scheme \<Rightarrow> 'a processes_scheme option" where
  "process_exit s = do {
     a \<leftarrow> current_pcb s;
     if a = NULL then exit_thread s
     else do {
       pd \<leftarrow> current_pagedir s;
       s \<leftarrow>
         (if pd \<noteq> 0
          then do {
            s \<leftarrow> set_pagedir 0 s;
            v \<leftarrow> pagedir_activate (vmem s) 0;
            v \<leftarrow> pagedir_destroy v pd;
            Some (s\<lparr>vmem := v\<rparr>) }
          else Some s);
       pcb_to_free \<leftarrow> current_pcb s;
       s \<leftarrow> set_pcb NULL s;
       let s = s\<lparr>pcbs := (pcbs s)(pcb_to_free := None)\<rparr>;
       s \<leftarrow> sema_up_temporary s;
       exit_thread s } }"

definition is_main_thread :: "addr \<Rightarrow> process \<Rightarrow> bool" where
  "is_main_thread t p \<longleftrightarrow> main_thread p = t"

definition get_pid :: "process \<Rightarrow> 'a processes_scheme \<Rightarrow> int option" where
  "get_pid p s = map_option th_tid (ths (kern s) (main_thread p))"

definition setup_thread :: "'a processes_scheme \<Rightarrow> bool \<times> 'a processes_scheme" where
  "setup_thread s = (False, s)"

definition pthread_execute :: "'a processes_scheme \<Rightarrow> int \<times> 'a processes_scheme" where
  "pthread_execute s = (-1, s)"

definition start_pthread :: "'a processes_scheme \<Rightarrow> 'a processes_scheme" where
  "start_pthread s = s"

definition pthread_join :: "int \<Rightarrow> 'a processes_scheme \<Rightarrow> int \<times> 'a processes_scheme" where
  "pthread_join tid s = (-1, s)"

definition pthread_exit :: "'a processes_scheme \<Rightarrow> 'a processes_scheme" where
  "pthread_exit s = s"

definition pthread_exit_main :: "'a processes_scheme \<Rightarrow> 'a processes_scheme" where
  "pthread_exit_main s = s"

section \<open>Exceptions\<close>

text \<open>The flags of a page fault; \<open>PF_W\<close> is the same number as the flag of a segment.\<close>

definition PF_P :: u32 where "PF_P = 1"
definition PF_U :: u32 where "PF_U = 4"

definition register_all :: "(nat \<Rightarrow> u32) \<Rightarrow> (u8 \<times> int \<times> bool \<times> handler \<times> string) list \<Rightarrow>
    'a interrupts_scheme \<Rightarrow> 'a interrupts_scheme option" where
  "register_all intr_stubs xs s =
     foldM (\<lambda>(v, dpl, level, h, name) s. intr_register_int intr_stubs v dpl level h name s) xs s"

definition exception_init :: "(nat \<Rightarrow> u32) \<Rightarrow> 'a interrupts_scheme \<Rightarrow> 'a interrupts_scheme option" where
  "exception_init intr_stubs s = register_all intr_stubs
     [(3, 3, True, kill_handler, ''#BP Breakpoint Exception''),
      (4, 3, True, kill_handler, ''#OF Overflow Exception''),
      (5, 3, True, kill_handler, ''#BR BOUND Range Exceeded Exception''),
      (0, 0, True, kill_handler, ''#DE Divide Error''),
      (1, 0, True, kill_handler, ''#DB Debug Exception''),
      (6, 0, True, kill_handler, ''#UD Invalid Opcode Exception''),
      (7, 0, True, kill_handler, ''#NM Device Not Available Exception''),
      (11, 0, True, kill_handler, ''#NP Segment Not Present''),
      (12, 0, True, kill_handler, ''#SS Stack Fault Exception''),
      (13, 0, True, kill_handler, ''#GP General Protection Exception''),
      (16, 0, True, kill_handler, ''#MF x87 FPU Floating-Point Error''),
      (19, 0, True, kill_handler, ''#XF SIMD Floating-Point Exception''),
      (14, 0, False, page_fault_handler, ''#PF Page-Fault Exception'')] s"

definition exception_print_stats :: "'a processes_scheme \<Rightarrow> 'a processes_scheme option" where
  "exception_print_stats s = print (''Exception: %lld page faults'' @ NL) [Arg64 (word_of_int (page_fault_cnt s))] s"

text \<open>\<open>cr2\<close> is the register; a panic is \<open>None\<close>.\<close>

definition kill :: "u32 \<Rightarrow> intr_frame \<Rightarrow> 'a processes_scheme \<Rightarrow> 'a processes_scheme option" where
  "kill cr2 f s =
     (if if_cs f = of_nat SEL_UCSEG
      then do {
        name \<leftarrow> thread_name (kern s);
        s \<leftarrow> print (''%s: dying due to interrupt %#04x (%s).'' @ NL)
          [ArgString (Some name), Arg32 (if_vec_no f), ArgString (Some (intr_name (ucast (if_vec_no f)) s))] s;
        s \<leftarrow> intr_dump_frame cr2 f s;
        process_exit s }
      else None)"

definition page_fault :: "u32 \<Rightarrow> intr_frame \<Rightarrow> 'a processes_scheme \<Rightarrow> 'a processes_scheme option" where
  "page_fault cr2 f s = do {
     (_, k) \<leftarrow> intr_enable (kern s);
     let s = s\<lparr>kern := k, page_fault_cnt := page_fault_cnt s + 1\<rparr>;
     let not_present = (if_error_code f AND PF_P = 0);
     let wr = (if_error_code f AND PF_W \<noteq> 0);
     let user = (if_error_code f AND PF_U \<noteq> 0);
     s \<leftarrow> print (''Page fault at %p: %s error %s page in %s context.'' @ NL)
       [Arg32 cr2,
        ArgString (Some (if not_present then ''not present'' else ''rights violation'')),
        ArgString (Some (if wr then ''writing'' else ''reading'')),
        ArgString (Some (if user then ''user'' else ''kernel''))] s;
     kill cr2 f s }"

section \<open>System calls\<close>

definition SYS_EXIT :: u32 where "SYS_EXIT = 1"

definition syscall_init :: "(nat \<Rightarrow> u32) \<Rightarrow> 'a interrupts_scheme \<Rightarrow> 'a interrupts_scheme option" where
  "syscall_init intr_stubs s = intr_register_int intr_stubs 0x30 3 True syscall_handler_entry ''syscall'' s"

text \<open>
  A byte that the kernel reads at a user address goes through the active page directory; without a
  page there, the processor raises a page fault in kernel mode, in which \<open>page_fault\<close> panics.
\<close>

definition user_byte :: "'a processes_scheme \<Rightarrow> u32 \<Rightarrow> u8 option" where
  "user_byte s v =
     (if is_user_vaddr v
      then do {
        pd \<leftarrow> active_pd (vmem s);
        (fr, w) \<leftarrow> pd_mapping (vmem s) pd v;
        Some (mem (pages s) (fr + PHYS_BASE + pg_ofs v)) }
      else Some (mem (pages s) v))"

definition user_word :: "'a processes_scheme \<Rightarrow> u32 \<Rightarrow> u32 option" where
  "user_word s v = do {
     a \<leftarrow> user_byte s v; b \<leftarrow> user_byte s (v + 1); c \<leftarrow> user_byte s (v + 2); d \<leftarrow> user_byte s (v + 3);
     Some (le_word a b c d) }"

definition syscall_handler :: "intr_frame \<Rightarrow> 'a processes_scheme \<Rightarrow> (intr_frame \<times> 'a processes_scheme) option" where
  "syscall_handler f s = do {
     nr \<leftarrow> user_word s (if_esp f);
     if nr = SYS_EXIT
     then do {
       st \<leftarrow> user_word s (if_esp f + 4);
       let f = f\<lparr>if_eax := st\<rparr>;
       a \<leftarrow> current_pcb s;
       p \<leftarrow> pcbs s a;
       s \<leftarrow> print (''%s: exit(%d)'' @ NL) [ArgString (Some (process_name p)), Arg32 st] s;
       s \<leftarrow> process_exit s;
       Some (f, s) }
     else Some (f, s) }"

end
