(* ===== verification/Kernel_Address_Space.thy ===== *)
theory Kernel_Address_Space
  imports Kernel_Pagedir
begin

text \<open>
  The address space of a process, as the page directory and the two pools of pages make it up.
  \<open>user_page\<close> is what the processor sees at a page of user memory: its bytes and whether they may
  be written. \<open>as_inv\<close> says that the directory is well formed and that the frames it maps are pages
  in use of the user pool. The lemmas say which changes of memory an address space does not see, and
  what \<open>pagedir_get_page\<close> and \<open>pagedir_set_page\<close> do to it.
\<close>

section \<open>Pages that keep their bytes\<close>

definition same_page :: "memory \<Rightarrow> memory \<Rightarrow> u32 \<Rightarrow> bool" where
  "same_page m m' p \<longleftrightarrow> (\<forall>k < PGSIZE. m' (p + of_nat k) = m (p + of_nat k))"

lemma same_page_refl [simp]: "same_page m m p"
  by (simp add: same_page_def)

lemma same_page_trans: "same_page m m' p \<Longrightarrow> same_page m' m'' p \<Longrightarrow> same_page m m'' p"
  by (simp add: same_page_def)

lemma same_page_outside:
  assumes "pg_ofs p = 0" "pg_ofs q = 0" "p \<noteq> q" "\<And>a. \<not> in_range q PGSIZE a \<Longrightarrow> m' a = m a"
  shows "same_page m m' p"
  unfolding same_page_def using page_bytes_apart [OF assms(2,1) assms(3) [symmetric]] assms(4) by blast

lemma same_page_load:
  assumes "same_page m m' p" "pg_ofs p = 0" "unat i < 1024"
  shows "load32 m' (word_at p i) = load32 m (word_at p i)"
proof -
  have "m' (word_at p i + of_nat k) = m (word_at p i + of_nat k)" if "k < 4" for k
    unfolding word_at_bytes(1) [OF assms(2,3) that] using assms(1) word_at_bytes(2) [OF assms(2,3) that]
    by (simp only: same_page_def)
  from this [of 0] this [of 1] this [of 2] this [of 3] show ?thesis by (simp add: load32_def)
qed

lemma store_in_page:
  assumes "pg_ofs q = 0" "unat i < 1024" "\<not> in_range q PGSIZE a"
  shows "store32 m (word_at q i) x a = m a"
proof -
  have "a \<noteq> word_at q i + of_nat k" if "k < 4" for k
  proof
    assume a: "a = word_at q i + of_nat k"
    note w = word_at_bytes [OF assms(1,2) that]
    have "in_range q PGSIZE a" unfolding a w(1) using w(2) by (subst in_range_offset) (auto simp: PGSIZE_def simp del: of_nat_add)
    then show False using assms(3) by blast
  qed
  from this [of 0] this [of 1] this [of 2] this [of 3] show ?thesis by (simp add: store32_def)
qed

lemma pool_pages_apart:
  assumes "palloc_inv fr" "i < bit_cnt (used_map (kernel_pool fr))" "j < bit_cnt (used_map (user_pool fr))"
  shows "pool_page (kernel_pool fr) i \<noteq> pool_page (user_pool fr) j"
proof
  assume e: "pool_page (kernel_pool fr) i = pool_page (user_pool fr) j"
  have "pool_inv (kernel_pool fr)" using assms(1) by (simp add: palloc_inv_def)
  then show False using pool_page_facts(4) [of "kernel_pool fr" i] kernel_not_user [OF assms(1,3)] assms(2) e by simp
qed

abbreviation user_frames :: "vm \<Rightarrow> pool" where
  "user_frames s \<equiv> user_pool (frames s)"

definition keeps_kernel :: "vm \<Rightarrow> vm \<Rightarrow> bool" where
  "keeps_kernel s s' \<longleftrightarrow> palloc_inv (frames s') \<and> kernel_frames s' = kernel_frames s \<and> cr3 s' = cr3 s \<and>
     init_page_dir s' = init_page_dir s \<and> init_ram_pages s' = init_ram_pages s \<and>
     (\<forall>j < bit_cnt (used_map (kernel_frames s)). same_page (mem (frames s)) (mem (frames s')) (pool_page (kernel_frames s) j))"

definition keeps_user :: "vm \<Rightarrow> vm \<Rightarrow> bool" where
  "keeps_user s s' \<longleftrightarrow> palloc_inv (frames s') \<and> user_frames s' = user_frames s \<and>
     pool_base (kernel_frames s') = pool_base (kernel_frames s) \<and>
     bit_cnt (used_map (kernel_frames s')) = bit_cnt (used_map (kernel_frames s)) \<and>
     init_page_dir s' = init_page_dir s \<and> init_ram_pages s' = init_ram_pages s \<and>
     (\<forall>j < bit_cnt (used_map (user_frames s)). same_page (mem (frames s)) (mem (frames s')) (pool_page (user_frames s) j))"

lemma keeps_user_refl: "palloc_inv (frames s) \<Longrightarrow> keeps_user s s"
  by (simp add: keeps_user_def)

lemma keeps_user_trans: "keeps_user s s' \<Longrightarrow> keeps_user s' s'' \<Longrightarrow> keeps_user s s''"
  by (auto simp: keeps_user_def intro: same_page_trans)

lemma used_page_index:
  assumes "used_page s p"
  obtains j where "j < bit_cnt (used_map (kernel_frames s))" "p = pool_page (kernel_frames s) j"
  using assms by (auto simp: used_page_def)

section \<open>Changes a page directory does not see\<close>

lemma keeps_kernel_load:
  assumes "keeps_kernel s s'" "palloc_inv (frames s)" "used_page s p" "unat i < 1024"
  shows "vm_load s' (word_at p i) = vm_load s (word_at p i)"
proof -
  obtain j where j: "j < bit_cnt (used_map (kernel_frames s))" "p = pool_page (kernel_frames s) j"
    using assms(3) by (rule used_page_index)
  have "same_page (mem (frames s)) (mem (frames s')) p" using assms(1) j by (simp add: keeps_kernel_def)
  then show ?thesis
    using same_page_load used_page_facts(2) [OF assms(2,3)] assms(4) by (simp add: vm_load_def)
qed

lemma keeps_kernel_directory:
  assumes k: "keeps_kernel s s'" and inv: "pd_inv s pd"
  shows "pd_inv s' pd" "is_user_vaddr v \<Longrightarrow> pd_mapping s' pd v = pd_mapping s pd v"
proof -
  have u: "is_user_vaddr 0" by (simp add: is_user_vaddr_def PHYS_BASE_def)
  note D = pd_invD [OF inv u]
  have kf: "kernel_frames s' = kernel_frames s" "palloc_inv (frames s')" "cr3 s' = cr3 s" using k by (simp_all add: keeps_kernel_def)
  have up: "used_page s' q = used_page s q" for q by (simp add: used_page_def kf)
  have pde: "pde_at s' pd v = pde_at s pd v" for v
    unfolding pde_at_def by (rule keeps_kernel_load [OF k D(2,3) unat_pd_no_less])
  have "pde_ok s' pd e = pde_ok s pd e" for e by (simp add: pde_ok_def up)
  then show "pd_inv s' pd" using inv kf up unfolding pd_inv_def pde by simp
  show "pd_mapping s' pd v = pd_mapping s pd v" if v: "is_user_vaddr v"
  proof (cases "pde_at s pd v = 0")
    case False
    have "pte_at s' pd v = pte_at s pd v"
      unfolding pte_at_def pde by (rule keeps_kernel_load [OF k D(2) table_facts(5) [OF inv v False] pt_no_less])
    then show ?thesis by (simp add: pd_mapping_def pde)
  qed (simp add: pd_mapping_def pde)
qed

text \<open>Memory that changes in a page of the user pool only, with any change of its bitmap.\<close>

lemma keeps_kernel_user_page:
  assumes inv: "palloc_inv (frames s)" "palloc_inv fr" and j: "j < bit_cnt (used_map (user_frames s))"
    and fr: "kernel_pool fr = kernel_frames s"
      "\<And>a. \<not> in_range (pool_page (user_frames s) j) PGSIZE a \<Longrightarrow> mem fr a = mem (frames s) a"
  shows "keeps_kernel s (s\<lparr>frames := fr\<rparr>)"
proof -
  have pi: "pool_inv (kernel_frames s)" "pool_inv (user_frames s)" using inv(1) by (simp_all add: palloc_inv_def)
  have "same_page (mem (frames s)) (mem fr) (pool_page (kernel_frames s) i)"
    if "i < bit_cnt (used_map (kernel_frames s))" for i
    by (rule same_page_outside [OF pool_page_facts(2) [OF pi(1) that] pool_page_facts(2) [OF pi(2) j]
          pool_pages_apart [OF inv(1) that j] fr(2)])
  then show ?thesis using inv(2) fr(1) by (simp add: keeps_kernel_def)
qed

section \<open>Changes the frames of a process do not see\<close>

lemma keeps_user_kernel_page:
  assumes inv: "palloc_inv (frames s)" "palloc_inv fr" and i: "i < bit_cnt (used_map (kernel_frames s))"
    and fr: "user_pool fr = user_frames s" "pool_base (kernel_pool fr) = pool_base (kernel_frames s)"
      "bit_cnt (used_map (kernel_pool fr)) = bit_cnt (used_map (kernel_frames s))"
      "\<And>a. \<not> in_range (pool_page (kernel_frames s) i) PGSIZE a \<Longrightarrow> mem fr a = mem (frames s) a"
  shows "keeps_user s (s\<lparr>frames := fr\<rparr>)"
proof -
  have pi: "pool_inv (kernel_frames s)" "pool_inv (user_frames s)" using inv(1) by (simp_all add: palloc_inv_def)
  have "same_page (mem (frames s)) (mem fr) (pool_page (user_frames s) j)"
    if "j < bit_cnt (used_map (user_frames s))" for j
    by (rule same_page_outside [OF pool_page_facts(2) [OF pi(2) that] pool_page_facts(2) [OF pi(1) i]
          pool_pages_apart [OF inv(1) i that, symmetric] fr(4)])
  then show ?thesis using inv(2) fr by (simp add: keeps_user_def)
qed

lemma vm_store_keeps_user:
  assumes "palloc_inv (frames s)" "j < bit_cnt (used_map (kernel_frames s))" "unat i < 1024"
  shows "keeps_user s (vm_store s (word_at (pool_page (kernel_frames s) j) i) x)"
proof -
  have "pg_ofs (pool_page (kernel_frames s) j) = 0"
    using pool_page_facts(2) assms(1,2) by (simp add: palloc_inv_def)
  then show ?thesis
    unfolding vm_store_def
    by (intro keeps_user_kernel_page [OF assms(1) _ assms(2)]) (use assms(1) store_in_page assms(3) in simp_all)
qed

lemma lookup_page_keeps_user:
  assumes inv: "pd_inv s pd" and u: "is_user_vaddr u" and look: "lookup_page s pd u True = Some (pte, s')"
  shows "keeps_user s s'"
proof (cases "pde_at s pd u = 0")
  case False
  then show ?thesis
    using look lookup_page_existing [OF inv u False, of True] keeps_user_refl pd_invD(2) [OF inv u] by simp
next
  case True
  note D = pd_invD [OF inv u]
  show ?thesis
  proof (rule lookup_page_new [OF inv u True])
    assume "lookup_page s pd u True = Some (0, s)"
    then show ?thesis using look keeps_user_refl [OF D(2)] by simp
  next
    fix pt fr e
    assume z: "zero_page s pt fr"
      and new: "lookup_page s pd u True = Some (word_at pt (pt_no u), vm_store (s\<lparr>frames := fr\<rparr>) (word_at pd (pd_no u)) e)"
    note Z = zero_pageD [OF z]
    let ?s = "s\<lparr>frames := fr\<rparr>"
    obtain k where k: "k < bit_cnt (used_map (kernel_frames s))" "pt = pool_page (kernel_frames s) k"
      using z by (auto simp: zero_page_def)
    have k1: "keeps_user s ?s"
      by (rule keeps_user_kernel_page [OF D(2) Z(1) k(1) Z(2) Z(4,5)]) (simp add: Z(3) k(2) mem_set_def)
    obtain j where j: "j < bit_cnt (used_map (kernel_frames s))" "pd = pool_page (kernel_frames s) j"
      using D(3) by (rule used_page_index)
    have j': "j < bit_cnt (used_map (kernel_frames ?s))" "pd = pool_page (kernel_frames ?s) j"
      using j Z(4,5) by (simp_all add: pool_page_def)
    have "keeps_user ?s (vm_store ?s (word_at pd (pd_no u)) e)"
      using vm_store_keeps_user [of ?s, OF _ j'(1) unat_pd_no_less] Z(1) j'(2) by simp
    then show ?thesis using keeps_user_trans [OF k1] look new by simp
  qed
qed

lemma set_page_keeps_user:
  assumes inv: "pd_inv s pd" and u: "is_user_vaddr u" and set: "pagedir_set_page s pd u k w = Some (ok, s')"
  shows "keeps_user s s'"
proof -
  obtain pte s1 where s1: "lookup_page s pd u True = Some (pte, s1)"
    and s': "s' = s1 \<or> pte \<noteq> 0 \<and> (\<exists>e. s' = vm_store s1 pte e)"
    using set by (auto simp: pagedir_set_page_def kbind split: if_splits)
  note k1 = lookup_page_keeps_user [OF inv u s1]
  have "keeps_user s1 s'"
  proof (cases "s' = s1")
    case True
    then show ?thesis using k1 by (simp add: keeps_user_def)
  next
    case other: False
    then have False: "pte \<noteq> 0" and e: "\<exists>e. s' = vm_store s1 pte e" using s' by auto
    have "pd_inv s1 pd \<and> pde_at s1 pd u \<noteq> 0 \<and> pte = word_at (pt_of (pde_at s1 pd u)) (pt_no u)"
    proof (cases "pde_at s pd u = 0")
      case True
      show ?thesis using inv u True by (cases rule: lookup_page_create) (use s1 False in auto)
    next
      case existing: False
      then show ?thesis using s1 lookup_page_existing [OF inv u existing, of True] inv by auto
    qed
    then have t: "pd_inv s1 pd" "pde_at s1 pd u \<noteq> 0" "pte = word_at (pt_of (pde_at s1 pd u)) (pt_no u)" by simp_all
    obtain j where "j < bit_cnt (used_map (kernel_frames s1))" "pt_of (pde_at s1 pd u) = pool_page (kernel_frames s1) j"
      using table_facts(5) [OF t(1) u t(2)] by (rule used_page_index)
    then show ?thesis
      using vm_store_keeps_user [of s1 j "pt_no u"] pt_no_less pd_invD(2) [OF t(1) u] e t(3) by auto
  qed
  then show ?thesis by (rule keeps_user_trans [OF k1])
qed

section \<open>Address spaces\<close>

definition used_frame :: "vm \<Rightarrow> u32 \<Rightarrow> bool" where
  "used_frame s p \<longleftrightarrow> (\<exists>i < bit_cnt (used_map (user_frames s)).
     p = pool_page (user_frames s) i \<and> pool_used (user_frames s) ! i)"

definition as_inv :: "vm \<Rightarrow> u32 \<Rightarrow> bool" where
  "as_inv s pd \<longleftrightarrow> pd_inv s pd \<and> pd \<noteq> init_page_dir s \<and>
     (\<forall>i < bit_cnt (used_map (user_frames s)). drop_bit PTSHIFT (pool_page (user_frames s) i - PHYS_BASE) < init_ram_pages s) \<and>
     (\<forall>v f w. is_user_vaddr v \<longrightarrow> pd_mapping s pd v = Some (f, w) \<longrightarrow> used_frame s (f + PHYS_BASE))"

text \<open>A page of memory as a user program sees it: its bytes, and whether it may write them.\<close>

definition page_bytes :: "memory \<Rightarrow> u32 \<Rightarrow> u8 list" where
  "page_bytes m p = map (\<lambda>k. m (p + of_nat k)) [0..<PGSIZE]"

definition user_page :: "vm \<Rightarrow> u32 \<Rightarrow> u32 \<Rightarrow> (u8 list \<times> bool) option" where
  "user_page s pd v = map_option (\<lambda>(f, w). (page_bytes (mem (frames s)) (f + PHYS_BASE), w)) (pd_mapping s pd v)"

lemma page_bytes_same: "same_page m m' p \<Longrightarrow> page_bytes m' p = page_bytes m p"
  by (simp add: page_bytes_def same_page_def)

lemma as_invD:
  assumes "as_inv s pd"
  shows "pd_inv s pd" "pd \<noteq> init_page_dir s" "palloc_inv (frames s)" "PHYS_BASE \<le> pool_base (kernel_frames s)"
    "pool_inv (user_frames s)"
  using assms pd_invD [of s pd 0] by (auto simp: as_inv_def is_user_vaddr_def PHYS_BASE_def palloc_inv_def)

lemma user_pool_page_facts:
  assumes "as_inv s pd" "i < bit_cnt (used_map (user_frames s))"
  shows "pg_ofs (pool_page (user_frames s) i) = 0" "PHYS_BASE \<le> pool_page (user_frames s) i" "pool_page (user_frames s) i \<noteq> 0"
proof -
  note A = as_invD [OF assms(1)]
  show "pg_ofs (pool_page (user_frames s) i) = 0" "pool_page (user_frames s) i \<noteq> 0"
    using pool_page_facts(1,2) [OF A(5) assms(2)] by simp_all
  have "unat (pool_base (kernel_frames s)) \<le> unat (pool_base (user_frames s))"
    using A(3) by (simp add: palloc_inv_def)
  then show "PHYS_BASE \<le> pool_page (user_frames s) i"
    using A(4) unat_pool_page [OF A(5), of i] assms(2) by (simp add: word_le_nat_alt)
qed

definition unmapped :: "vm \<Rightarrow> u32 \<Rightarrow> u32 \<Rightarrow> bool" where
  "unmapped s pd p \<longleftrightarrow> (\<forall>v f w. is_user_vaddr v \<longrightarrow> pd_mapping s pd v = Some (f, w) \<longrightarrow> f + PHYS_BASE \<noteq> p)"

lemma mapped_frame:
  assumes "as_inv s pd" "is_user_vaddr v" "pd_mapping s pd v = Some (f, w)"
  obtains i where "i < bit_cnt (used_map (user_frames s))" "f + PHYS_BASE = pool_page (user_frames s) i" "pool_used (user_frames s) ! i"
proof -
  have "used_frame s (f + PHYS_BASE)" using assms unfolding as_inv_def by blast
  then show ?thesis using that unfolding used_frame_def by blast
qed

lemma pool_page_inj:
  assumes "pool_inv p" "i < bit_cnt (used_map p)" "j < bit_cnt (used_map p)"
  shows "pool_page p i = pool_page p j \<longleftrightarrow> i = j"
  using pool_page_facts(5) [OF assms(1,2)] pool_page_facts(5) [OF assms(1,3)] by metis

lemma unused_unmapped:
  assumes "as_inv s pd" "j < bit_cnt (used_map (user_frames s))" "\<not> pool_used (user_frames s) ! j"
  shows "unmapped s pd (pool_page (user_frames s) j)"
  unfolding unmapped_def
proof (intro allI impI notI)
  fix v f w
  assume v: "is_user_vaddr v" and m: "pd_mapping s pd v = Some (f, w)" and e: "f + PHYS_BASE = pool_page (user_frames s) j"
  obtain i where i: "i < bit_cnt (used_map (user_frames s))" "f + PHYS_BASE = pool_page (user_frames s) i" "pool_used (user_frames s) ! i"
    using mapped_frame [OF assms(1) v m] .
  have "i = j" using pool_page_inj [OF as_invD(5) [OF assms(1)] i(1) assms(2)] i(2) e by simp
  then show False using i(3) assms(3) by simp
qed

text \<open>
  What may happen to a page of the user pool that no address maps, with its bit of the bitmap: the
  address space does not see it.
\<close>

definition user_change :: "palloc \<Rightarrow> nat \<Rightarrow> palloc \<Rightarrow> bool" where
  "user_change fr j fr' \<longleftrightarrow> palloc_inv fr' \<and> kernel_pool fr' = kernel_pool fr \<and>
     pool_base (user_pool fr') = pool_base (user_pool fr) \<and>
     bit_cnt (used_map (user_pool fr')) = bit_cnt (used_map (user_pool fr)) \<and>
     (\<forall>i < bit_cnt (used_map (user_pool fr)). i \<noteq> j \<longrightarrow> pool_used (user_pool fr') ! i = pool_used (user_pool fr) ! i) \<and>
     (\<forall>a. \<not> in_range (pool_page (user_pool fr) j) PGSIZE a \<longrightarrow> mem fr' a = mem fr a)"

lemma user_change_page: "user_change fr j fr' \<Longrightarrow> pool_page (user_pool fr') i = pool_page (user_pool fr) i"
  by (simp add: user_change_def pool_page_def)

lemma user_change_trans:
  assumes "user_change fr j fr'" "user_change fr' j fr''"
  shows "user_change fr j fr''"
proof -
  have p: "pool_page (user_pool fr') j = pool_page (user_pool fr) j" by (rule user_change_page [OF assms(1)])
  show ?thesis using assms unfolding user_change_def p by (simp del: nth_bm_abs)
qed

lemma user_change_mem:
  assumes "palloc_inv fr" "\<And>a. \<not> in_range (pool_page (user_pool fr) j) PGSIZE a \<Longrightarrow> m a = mem fr a"
  shows "user_change fr j (fr\<lparr>mem := m\<rparr>)"
  using assms by (simp add: user_change_def)

lemma as_inv_user_change:
  assumes inv: "as_inv s pd" and ch: "user_change (frames s) j fr"
    and j: "j < bit_cnt (used_map (user_frames s))" "unmapped s pd (pool_page (user_frames s) j)"
  defines "s' \<equiv> s\<lparr>frames := fr\<rparr>"
  shows "as_inv s' pd" "is_user_vaddr v \<Longrightarrow> user_page s' pd v = user_page s pd v"
    "is_user_vaddr v \<Longrightarrow> pd_mapping s' pd v = pd_mapping s pd v"
proof -
  note A = as_invD [OF inv]
  have fr: "palloc_inv fr" "kernel_pool fr = kernel_frames s" "bit_cnt (used_map (user_pool fr)) = bit_cnt (used_map (user_frames s))"
    and bits: "\<And>i. i < bit_cnt (used_map (user_frames s)) \<Longrightarrow> i \<noteq> j \<Longrightarrow> pool_used (user_pool fr) ! i = pool_used (user_frames s) ! i"
    and mem: "\<And>a. \<not> in_range (pool_page (user_frames s) j) PGSIZE a \<Longrightarrow> mem fr a = mem (frames s) a"
    using ch unfolding user_change_def by blast+
  note K = keeps_kernel_directory [OF keeps_kernel_user_page [OF A(3) fr(1) j(1) fr(2) mem] A(1), folded s'_def]
  note pp = user_change_page [OF ch]
  show map: "is_user_vaddr v \<Longrightarrow> pd_mapping s' pd v = pd_mapping s pd v" for v by (rule K(2))
  have frame: "\<exists>i. i < bit_cnt (used_map (user_frames s)) \<and> i \<noteq> j \<and> f + PHYS_BASE = pool_page (user_frames s) i \<and>
      pool_used (user_frames s) ! i"
    if m: "is_user_vaddr v" "pd_mapping s pd v = Some (f, w)" for v f w
  proof -
    have "f + PHYS_BASE \<noteq> pool_page (user_frames s) j" using j(2) m unfolding unmapped_def by blast
    then show ?thesis using mapped_frame [OF inv m] by metis
  qed
  have "used_frame s' (f + PHYS_BASE)" if m: "is_user_vaddr v" "pd_mapping s pd v = Some (f, w)" for v f w
  proof -
    obtain i where "i < bit_cnt (used_map (user_frames s))" "i \<noteq> j" "f + PHYS_BASE = pool_page (user_frames s) i"
      "pool_used (user_frames s) ! i" using frame [OF m] by blast
    then show ?thesis unfolding used_frame_def s'_def using bits [of i] by (intro exI [of _ i]) (simp add: pp fr(3))
  qed
  then have "\<forall>v f w. is_user_vaddr v \<longrightarrow> pd_mapping s' pd v = Some (f, w) \<longrightarrow> used_frame s' (f + PHYS_BASE)"
    using map by metis
  then show "as_inv s' pd"
    using inv K(1) unfolding as_inv_def by (simp add: s'_def pp fr(3))
  show "user_page s' pd v = user_page s pd v" if v: "is_user_vaddr v"
  proof (cases "pd_mapping s pd v")
    case (Some fw)
    obtain f w where fw: "fw = (f, w)" by fastforce
    obtain i where i: "i < bit_cnt (used_map (user_frames s))" "i \<noteq> j" "f + PHYS_BASE = pool_page (user_frames s) i"
      using frame [OF v, of f w] Some fw by auto
    have "same_page (mem (frames s)) (mem fr) (f + PHYS_BASE)"
      unfolding i(3) using pool_page_inj [OF A(5) i(1) j(1)] i(2)
      by (intro same_page_outside [OF pool_page_facts(2) [OF A(5) i(1)] pool_page_facts(2) [OF A(5) j(1)] _ mem]) simp_all
    then have "page_bytes (mem fr) (f + PHYS_BASE) = page_bytes (mem (frames s)) (f + PHYS_BASE)" by (rule page_bytes_same)
    then show ?thesis using Some fw by (simp add: user_page_def map [OF v]) (simp add: s'_def)
  qed (simp add: user_page_def map [OF v])
qed

section \<open>Pages for a process\<close>

lemma get_user_page:
  assumes "palloc_inv fr" "flags AND PAL_USER \<noteq> 0" "flags AND PAL_ASSERT = 0"
  obtains "palloc_get_page fr flags = Some (0, fr)"
  | j fr' where "palloc_get_page fr flags = Some (pool_page (user_pool fr) j, fr')" "user_change fr j fr'"
      "j < bit_cnt (used_map (user_pool fr))" "\<not> pool_used (user_pool fr) ! j" "pool_used (user_pool fr') ! j"
      "mem fr' = (if flags AND PAL_ZERO \<noteq> 0 then mem_set (mem fr) (pool_page (user_pool fr) j) 0 PGSIZE else mem fr)"
proof -
  have sel: "selected_pool fr flags = user_pool fr" using assms(2) by (simp add: selected_pool_def)
  note spec = palloc_get_multiple_spec [OF assms(1) zero_less_one, of flags, unfolded sel]
  show ?thesis
  proof (cases "\<exists>k. is_group (pool_used (user_pool fr)) k 1 False")
    case False
    then show ?thesis using spec assms(3) that(1) by (simp add: palloc_get_page_def)
  next
    case True
    obtain k um fr' where g: "palloc_get_multiple fr flags 1 = Some (pool_page (user_pool fr) k, fr')"
      "is_group (pool_used (user_pool fr)) k 1 False"
      "bit_cnt um = bit_cnt (used_map (user_pool fr))" "bm_abs um = fill (pool_used (user_pool fr)) k 1 True"
      "fr' = (with_pool fr flags ((user_pool fr)\<lparr>used_map := um\<rparr>))\<lparr>mem :=
        (if flags AND PAL_ZERO \<noteq> 0 then mem_set (mem fr) (pool_page (user_pool fr) k) 0 (PGSIZE * 1) else mem fr)\<rparr>"
      using spec True by auto
    have k: "k < bit_cnt (used_map (user_pool fr))" "\<not> pool_used (user_pool fr) ! k"
      using g(2) by (simp_all add: is_group_def)
    have f: "user_pool fr' = (user_pool fr)\<lparr>used_map := um\<rparr>" "kernel_pool fr' = kernel_pool fr"
      "mem fr' = (if flags AND PAL_ZERO \<noteq> 0 then mem_set (mem fr) (pool_page (user_pool fr) k) 0 PGSIZE else mem fr)"
      using assms(2) by (simp_all add: g(5) with_pool_def)
    have inv: "palloc_inv fr'" by (rule palloc_get_multiple_inv [OF assms(1) g(1)])
    have nth: "pool_used (user_pool fr') ! i \<longleftrightarrow> pool_used (user_pool fr) ! i \<or> i = k"
      if "i < bit_cnt (used_map (user_pool fr))" for i
      using that k(1) by (auto simp: f g(4) nth_fill)
    have "user_change fr k fr'"
      using inv nth by (auto simp: user_change_def f g(3) mem_set_def)
    then show ?thesis using that(2) [of k fr'] g(1) k f(3) nth [OF k(1)] by (simp add: palloc_get_page_def)
  qed
qed

lemma free_user_page:
  assumes "palloc_inv fr" "j < bit_cnt (used_map (user_pool fr))" "pool_used (user_pool fr) ! j"
  obtains fr' where "palloc_free_page fr (pool_page (user_pool fr) j) = Some fr'" "user_change fr j fr'"
proof -
  have z: "PAL_USER \<noteq> 0" by (simp add: PAL_USER_def)
  have sel: "selected_pool fr PAL_USER = user_pool fr" using z by (simp add: selected_pool_def)
  have g: "is_group (pool_used (user_pool fr)) j 1 True" using assms(2,3) by (simp add: is_group_def)
  obtain um where f: "palloc_free_multiple fr (pool_page (user_pool fr) j) 1 =
      Some ((with_pool fr PAL_USER ((user_pool fr)\<lparr>used_map := um\<rparr>))\<lparr>mem := mem_set (mem fr) (pool_page (user_pool fr) j) 0xcc (PGSIZE * 1)\<rparr>)"
    "bm_inv um" "bit_cnt um = bit_cnt (used_map (user_pool fr))" "bm_abs um = fill (pool_used (user_pool fr)) j 1 False"
    using palloc_free_multiple_spec [OF assms(1) zero_less_one, of j PAL_USER, unfolded sel] assms(2) g by auto
  let ?p = "(user_pool fr)\<lparr>used_map := um\<rparr>"
  let ?fr = "(with_pool fr PAL_USER ?p)\<lparr>mem := mem_set (mem fr) (pool_page (user_pool fr) j) 0xcc PGSIZE\<rparr>"
  have up: "pool_inv (user_pool fr)" using assms(1) by (simp add: palloc_inv_def)
  have "palloc_inv (with_pool fr PAL_USER ?p)"
    by (rule palloc_inv_with_pool [OF assms(1)]) (use up f(2,3) in \<open>simp_all add: sel pool_inv_def\<close>)
  then have inv: "palloc_inv ?fr" by simp
  have pools: "user_pool ?fr = ?p" "kernel_pool ?fr = kernel_pool fr" using z by (simp_all add: with_pool_def)
  have "user_change fr j ?fr"
    unfolding user_change_def pools using inv f(3) assms(2) by (auto simp: f(4) nth_fill mem_set_def)
  then show ?thesis using that f(1) by (simp add: palloc_free_page_def)
qed

section \<open>Lookup and installation of a page\<close>

lemma get_page_null:
  assumes inv: "as_inv s pd" and v: "is_user_vaddr v" "pg_ofs v = 0"
  obtains p where "pagedir_get_page s pd v = Some p" "p = 0 \<longleftrightarrow> pd_mapping s pd v = None"
proof (cases "pd_mapping s pd v")
  case None
  then show ?thesis using that get_page_mapping [OF as_invD(1) [OF inv] v(1)] by simp
next
  case (Some fw)
  obtain f w where fw: "fw = (f, w)" by fastforce
  obtain i where i: "i < bit_cnt (used_map (user_frames s))" "f + PHYS_BASE = pool_page (user_frames s) i"
    using mapped_frame [OF inv v(1)] Some fw by metis
  note P = user_pool_page_facts [OF inv i(1)]
  have "f = pool_page (user_frames s) i - PHYS_BASE" using i(2) by (metis add_diff_cancel_right')
  then have "f < PHYS_BASE" using vtop_page(3) [OF P(1,2)] by simp
  then show ?thesis
    using that [of "f + PHYS_BASE"] get_page_mapping [OF as_invD(1) [OF inv] v(1)] Some fw v(2) P(3) i(2)
    by (simp add: ptov_def)
qed

lemma as_inv_set_page:
  assumes inv: "as_inv s pd" and u: "is_user_vaddr u" "pg_ofs u = 0" "pd_mapping s pd u = None"
    and j: "j < bit_cnt (used_map (user_frames s))" "pool_used (user_frames s) ! j"
  defines "kp \<equiv> pool_page (user_frames s) j"
  obtains ok s' where "pagedir_set_page s pd u kp w = Some (ok, s')" "as_inv s' pd" "keeps_user s s'"
    "\<And>v. is_user_vaddr v \<Longrightarrow> user_page s' pd v = (if ok \<and> pg_no v = pg_no u then Some (page_bytes (mem (frames s)) kp, w) else user_page s pd v)"
    "\<And>v. is_user_vaddr v \<Longrightarrow> pd_mapping s' pd v = (if ok \<and> pg_no v = pg_no u then Some (kp - PHYS_BASE, w) else pd_mapping s pd v)"
proof -
  note A = as_invD [OF inv] and P = user_pool_page_facts [OF inv j(1), folded kp_def]
  have ram: "drop_bit PTSHIFT (kp - PHYS_BASE) < init_ram_pages s" using inv j(1) by (simp add: as_inv_def kp_def)
  obtain ok s' where set: "pagedir_set_page s pd u kp w = Some (ok, s')" "pd_inv s' pd"
    and map: "\<And>v. is_user_vaddr v \<Longrightarrow>
      pd_mapping s' pd v = (if ok \<and> pg_no v = pg_no u then Some (kp - PHYS_BASE, w) else pd_mapping s pd v)"
    using set_page_mapping [OF A(1) u(1,2) P(1,2) ram A(2) u(3), of w] by auto
  note k = set_page_keeps_user [OF A(1) u(1) set(1)]
  have uf: "user_frames s' = user_frames s" "init_page_dir s' = init_page_dir s" "init_ram_pages s' = init_ram_pages s"
    using k by (simp_all add: keeps_user_def)
  have same: "page_bytes (mem (frames s')) (pool_page (user_frames s) i) = page_bytes (mem (frames s)) (pool_page (user_frames s) i)"
    if "i < bit_cnt (used_map (user_frames s))" for i
    using k that by (intro page_bytes_same) (simp add: keeps_user_def)
  have "used_frame s' (f + PHYS_BASE)" if v: "is_user_vaddr v" and m: "pd_mapping s' pd v = Some (f, w')" for v f w'
  proof (cases "ok \<and> pg_no v = pg_no u")
    case True
    then have "f + PHYS_BASE = kp" using m map [OF v] by auto
    then show ?thesis using j unfolding used_frame_def uf kp_def by blast
  next
    case False
    then have "pd_mapping s pd v = Some (f, w')" using m map [OF v] by (simp only: if_False)
    then show ?thesis using mapped_frame [OF inv v] unfolding used_frame_def uf by metis
  qed
  then have inv': "as_inv s' pd" using inv set(2) uf by (simp add: as_inv_def)
  have page: "user_page s' pd v = (if ok \<and> pg_no v = pg_no u then Some (page_bytes (mem (frames s)) kp, w) else user_page s pd v)"
    if v: "is_user_vaddr v" for v
  proof (cases "ok \<and> pg_no v = pg_no u")
    case True
    then show ?thesis using map [OF v] same [OF j(1), folded kp_def] by (simp add: user_page_def)
  next
    case False
    show ?thesis
    proof (cases "pd_mapping s pd v")
      case (Some fw)
      obtain f w' where fw: "fw = (f, w')" by fastforce
      obtain i where i: "i < bit_cnt (used_map (user_frames s))" "f + PHYS_BASE = pool_page (user_frames s) i"
        using mapped_frame [OF inv v] Some fw by metis
      show ?thesis using False map [OF v] same [OF i(1), folded i(2)] Some fw by (auto simp: user_page_def)
    qed (use False map [OF v] in \<open>auto simp: user_page_def\<close>)
  qed
  show ?thesis by (rule that [OF set(1) inv' k page map])
qed

end
