(* ===== verification/Kernel_Process_Safe.thy ===== *)
theory Kernel_Process_Safe
  imports Kernel_Process Kernel_Address_Space Kernel_Synch_Reach
begin

text \<open>
  What the loader makes of an address space. A turn of the loop of \<open>load_segment\<close> maps one page with
  the bytes of the file, or gives back what it has allocated; whichever happens, the pages at other
  addresses stay as they are. The whole of \<open>load_segment\<close> lays the image of the segment, bytes of the
  file and then zeros, over consecutive pages. The last section is about a process that cannot be
  loaded.
\<close>

section \<open>A page in memory\<close>

lemma fill_page:
  fixes m :: memory
  assumes kp: "pg_ofs kp = 0" and n: "length bs \<le> PGSIZE"
  defines "m' \<equiv> mem_set (mem_write m kp bs) (kp + of_nat (length bs)) 0 (PGSIZE - length bs)"
  shows "page_bytes m' kp = bs @ replicate (PGSIZE - length bs) 0"
    "\<not> in_range kp PGSIZE a \<Longrightarrow> m' a = m a" "\<not> in_range kp PGSIZE a \<Longrightarrow> mem_write m kp bs a = m a"
proof -
  have pg: "PGSIZE \<le> 2 ^ 32" by (simp add: PGSIZE_def)
  have w: "in_range kp (length bs) a \<Longrightarrow> in_range kp PGSIZE a" for a using n by (simp add: in_range_def)
  have z: "in_range (kp + of_nat (length bs)) (PGSIZE - length bs) a \<Longrightarrow> in_range kp PGSIZE a" for a
    by (rule in_range_part [OF _ _ pg]) (use n in auto)
  show "\<not> in_range kp PGSIZE a \<Longrightarrow> mem_write m kp bs a = m a" using w by (auto simp: mem_write_def)
  then show "\<not> in_range kp PGSIZE a \<Longrightarrow> m' a = m a" using z by (auto simp: m'_def mem_set_def)
  show "page_bytes m' kp = bs @ replicate (PGSIZE - length bs) 0"
  proof (rule nth_equalityI)
    show "length (page_bytes m' kp) = length (bs @ replicate (PGSIZE - length bs) 0)" using n by (simp add: page_bytes_def)
    fix k assume "k < length (page_bytes m' kp)"
    then have k: "k < PGSIZE" by (simp add: page_bytes_def)
    have "in_range (kp + of_nat (length bs)) (PGSIZE - length bs) (kp + of_nat k) \<longleftrightarrow> length bs \<le> k"
    proof (cases "length bs \<le> k")
      case True
      then have "kp + of_nat k - (kp + of_nat (length bs)) = of_nat (k - length bs)" by simp
      moreover have "unat (of_nat (k - length bs) :: u32) = k - length bs"
        using k pg by (intro unat_of_nat_small) (simp add: PGSIZE_def)
      ultimately show ?thesis using True k by (simp add: in_range_def)
    next
      case False
      have "\<not> (\<exists>i < PGSIZE - length bs. kp + of_nat k = kp + of_nat (length bs) + of_nat i)"
      proof
        assume "\<exists>i < PGSIZE - length bs. kp + of_nat k = kp + of_nat (length bs) + of_nat i"
        then obtain i where i: "i < PGSIZE - length bs" "kp + of_nat k = kp + of_nat (length bs + i)" by (auto simp: algebra_simps)
        then have "length bs + i < PGSIZE" by simp
        then show False using page_offset(3) [OF kp k] page_offset(3) [OF kp, of "length bs + i"] i(2) False by simp
      qed
      then show ?thesis using False pg by (subst in_range_offset) (auto simp: PGSIZE_def)
    qed
    moreover have "mem_write m kp bs (kp + of_nat k) = bs ! k" if "k < length bs"
      using that n by (intro mem_write_at) (simp_all add: PGSIZE_def)
    ultimately show "page_bytes m' kp ! k = (bs @ replicate (PGSIZE - length bs) 0) ! k"
      using k n by (auto simp: page_bytes_def m'_def mem_set_def nth_append)
  qed
qed

section \<open>The state of the loader\<close>

definition loading :: "'a processes_scheme \<Rightarrow> u32 \<Rightarrow> nat \<Rightarrow> inode \<Rightarrow> open_file \<Rightarrow> bool" where
  "loading s pd dev i f \<longleftrightarrow> current_pagedir s = Some pd \<and> as_inv (vmem s) pd \<and>
     fs_blocks (disk s) dev \<and> inodes (disk s) (f_inode f) = Some i \<and> inode_ok (disk s) dev i \<and> mallocs (disk s) = []"

lemma same_files:
  assumes "same_but_counts d d'" "fs_blocks d dev"
  shows "fs_blocks d' dev" "inodes d' = inodes d" "inode_ok d' dev i = inode_ok d dev i" "mallocs d' = mallocs d"
    "file_byte d' dev i = file_byte d dev i"
proof -
  note F = fs_blocks_same [OF assms]
  show "fs_blocks d' dev" by (rule F(1))
  show "inodes d' = inodes d" by (rule wroteD(7) [OF same_but_counts_wrote [OF assms(1)]])
  show "inode_ok d' dev i = inode_ok d dev i" by (simp add: inode_ok_def F(3))
  show "mallocs d' = mallocs d" by (rule same_but_countsD(5) [OF assms(1)])
  show "file_byte d' dev i = file_byte d dev i" by (rule ext) (simp add: file_byte_def F(2))
qed

lemma loading_step:
  assumes "loading s pd dev i f" "as_inv v pd" "same_but_counts (disk s) d" "f_inode f' = f_inode f"
  shows "loading (s\<lparr>disk := d, vmem := v\<rparr>) pd dev i f'"
  using assms same_files [OF assms(3), of dev] by (simp add: loading_def current_pagedir_def current_pcb_def)

lemma file_read_loading:
  assumes "loading s pd dev i f" "f_pos f = int ofs"
  obtains d where "file_read f (int n) (disk s) =
      Some (map (file_byte (disk s) dev i) [ofs..<ofs + min n (file_size i - ofs)],
        f\<lparr>f_pos := int (ofs + min n (file_size i - ofs))\<rparr>, d)" "same_but_counts (disk s) d"
proof -
  have l: "fs_blocks (disk s) dev" "inodes (disk s) (f_inode f) = Some i" "inode_ok (disk s) dev i" "mallocs (disk s) = []"
    using assms(1) by (simp_all add: loading_def)
  obtain d where d: "read_loop i False (int n) (int ofs) (disk s) =
      Some (map (file_byte (disk s) dev i) [ofs..<ofs + min n (file_size i - ofs)], d)" "same_but_counts (disk s) d"
    using read_loop_ok [OF l(1,3,4), of False n ofs] by blast
  then show ?thesis using that l(2) assms(2) by (simp add: file_read_def inode_read_at_def)
qed

section \<open>One page of a segment\<close>

text \<open>The last steps of a turn: the page is filled, and either installed or given back.\<close>

lemma install_or_free:
  assumes inv: "as_inv v0 pd" "current_pagedir s = Some pd" and u: "is_user_vaddr u" "pg_ofs u = 0"
    and j: "j < bit_cnt (used_map (user_frames v0))" "unmapped v0 pd (pool_page (user_frames v0) j)"
      "pool_used (user_frames v0) ! j" and s: "vmem s = v0"
  defines "kp \<equiv> pool_page (user_frames v0) j"
  obtains v where "install_page u kp w s = Some (True, s\<lparr>vmem := v\<rparr>)" "as_inv v pd"
      "\<And>a. is_user_vaddr a \<Longrightarrow> user_page v pd a = (if pg_no a = pg_no u then Some (page_bytes (mem (vm.frames v0)) kp, w) else user_page v0 pd a)"
  | v v' where "install_page u kp w s = Some (False, s\<lparr>vmem := v\<rparr>)" "free_page kp (s\<lparr>vmem := v\<rparr>) = Some (s\<lparr>vmem := v'\<rparr>)"
      "as_inv v' pd" "\<And>a. is_user_vaddr a \<Longrightarrow> user_page v' pd a = user_page v0 pd a"
proof -
  have give_back: "\<exists>v'. free_page kp (s\<lparr>vmem := v\<rparr>) = Some (s\<lparr>vmem := v'\<rparr>) \<and> as_inv v' pd \<and>
      (\<forall>a. is_user_vaddr a \<longrightarrow> user_page v' pd a = user_page v0 pd a)"
    if v: "as_inv v pd" "user_frames v = user_frames v0"
      "\<And>a. is_user_vaddr a \<Longrightarrow> user_page v pd a = user_page v0 pd a"
      "\<And>a. is_user_vaddr a \<Longrightarrow> pd_mapping v pd a = pd_mapping v0 pd a" for v
  proof -
    have jv: "j < bit_cnt (used_map (user_frames v))" "pool_used (user_frames v) ! j" using j(1,3) v(2) by simp_all
    have un: "unmapped v pd (pool_page (user_frames v) j)" using j(2) v(2,4) by (simp add: unmapped_def)
    obtain fr' where fr: "palloc_free_page (vm.frames v) (pool_page (user_frames v) j) = Some fr'" "user_change (vm.frames v) j fr'"
      using free_user_page [OF as_invD(3) [OF v(1)] jv] .
    note C = as_inv_user_change [OF v(1) fr(2) jv(1) un]
    have "free_page kp (s\<lparr>vmem := v\<rparr>) = Some (s\<lparr>vmem := vm.frames_update (\<lambda>_. fr') v\<rparr>)"
      using fr(1) by (simp add: free_page_def pages_def set_pages_def kp_def v(2))
    moreover have "user_page (vm.frames_update (\<lambda>_. fr') v) pd a = user_page v0 pd a" if "is_user_vaddr a" for a
      using C(2) [OF that] v(3) [OF that] by simp
    ultimately show ?thesis using C(1) by (intro exI [of _ "vm.frames_update (\<lambda>_. fr') v"]) simp
  qed
  obtain p where p: "pagedir_get_page v0 pd u = Some p" "p = 0 \<longleftrightarrow> pd_mapping v0 pd u = None"
    using get_page_null [OF inv(1) u] .
  show ?thesis
  proof (cases "p = 0")
    case False
    have same: "s\<lparr>vmem := v0\<rparr> = s" using s by auto
    have "install_page u kp w s = Some (False, s\<lparr>vmem := v0\<rparr>)"
      using p(1) False inv(2) s same by (simp add: install_page_def)
    then show ?thesis using give_back [OF inv(1)] that(2) by blast
  next
    case True
    obtain ok v where set: "pagedir_set_page v0 pd u kp w = Some (ok, v)" "as_inv v pd" "keeps_user v0 v"
      and page: "\<And>a. is_user_vaddr a \<Longrightarrow> user_page v pd a =
        (if ok \<and> pg_no a = pg_no u then Some (page_bytes (mem (vm.frames v0)) kp, w) else user_page v0 pd a)"
      and map: "\<And>a. is_user_vaddr a \<Longrightarrow> pd_mapping v pd a =
        (if ok \<and> pg_no a = pg_no u then Some (kp - PHYS_BASE, w) else pd_mapping v0 pd a)"
      using as_inv_set_page [OF inv(1) u _ j(1,3), of w, folded kp_def] p(2) True by metis
    have inst: "install_page u kp w s = Some (ok, s\<lparr>vmem := v\<rparr>)"
      using p(1) True inv(2) s set(1) by (simp add: install_page_def)
    show ?thesis
    proof (cases ok)
      case True
      then show ?thesis using inst set(2) page that(1) by auto
    next
      case False
      have "user_frames v = user_frames v0" using set(3) by (simp add: keeps_user_def)
      then obtain v' where x: "free_page kp (s\<lparr>vmem := v\<rparr>) = Some (s\<lparr>vmem := v'\<rparr>)" "as_inv v' pd"
        "\<And>a. is_user_vaddr a \<Longrightarrow> user_page v' pd a = user_page v0 pd a"
        using give_back [OF set(2)] page map False by auto
      show ?thesis by (rule that(2) [OF _ x]) (use inst False in simp_all)
    qed
  qed
qed

text \<open>The bytes of a page of a segment: \<open>n\<close> bytes of the file from \<open>ofs\<close> on, then zeros.\<close>

definition segment_page :: "(nat \<Rightarrow> u8) \<Rightarrow> nat \<Rightarrow> nat \<Rightarrow> u8 list" where
  "segment_page byte ofs n = map byte [ofs..<ofs + n] @ replicate (PGSIZE - n) 0"

lemma load_page_ok:
  assumes l: "loading s pd dev i f" "f_pos f = int ofs" and n: "n \<le> PGSIZE" and u: "is_user_vaddr u" "pg_ofs u = 0"
  obtains ok f' v d where "load_page u n w f s = Some (ok, f', s\<lparr>disk := d, vmem := v\<rparr>)" "as_inv v pd"
    "same_but_counts (disk s) d" "f_inode f' = f_inode f" "ok \<Longrightarrow> f_pos f' = int (ofs + n)"
    "\<And>a. is_user_vaddr a \<Longrightarrow> user_page v pd a =
      (if ok \<and> pg_no a = pg_no u then Some (segment_page (file_byte (disk s) dev i) ofs n, w) else user_page (vmem s) pd a)"
proof -
  have inv: "as_inv (vmem s) pd" "current_pagedir s = Some pd" using l(1) by (simp_all add: loading_def)
  note A = as_invD [OF inv(1)]
  let ?up = "user_pool (vm.frames (vmem s))"
  have flags: "PAL_USER AND PAL_USER \<noteq> 0" "PAL_USER AND PAL_ASSERT = 0" "PAL_USER AND PAL_ZERO = 0"
    by (simp_all add: PAL_USER_def PAL_ASSERT_def PAL_ZERO_def)
  from A(3) flags(1,2) show ?thesis
  proof (cases rule: get_user_page)
    case 1
    then have "load_page u n w f s = Some (False, f, s\<lparr>disk := disk s, vmem := vmem s\<rparr>)"
      by (simp add: load_page_def pages_def set_pages_def Let_def)
    then show ?thesis by (rule that) (use inv in auto)
  next
    case (2 j fr)
    let ?kp = "pool_page ?up j"
    have un: "unmapped (vmem s) pd ?kp" by (rule unused_unmapped [OF inv(1) 2(3,4)])
    have up: "user_pool fr = (user_pool fr)\<lparr>pool_base := pool_base ?up\<rparr>" "pool_page (user_pool fr) j = ?kp"
      "bit_cnt (used_map (user_pool fr)) = bit_cnt (used_map ?up)" "palloc_inv fr"
      using 2(2) user_change_page [OF 2(2)] by (simp_all add: user_change_def)
    have kp: "pg_ofs ?kp = 0" "?kp \<noteq> 0" using user_pool_page_facts(1,3) [OF inv(1) 2(3)] by simp_all
    define m where "m = min n (file_size i - ofs)"
    define bs where "bs = map (file_byte (disk s) dev i) [ofs..<ofs + m]"
    have len: "length bs = m" "m \<le> n" by (simp_all add: bs_def m_def)
    obtain d where d: "file_read f (int n) (disk s) = Some (bs, f\<lparr>f_pos := int (ofs + m)\<rparr>, d)" "same_but_counts (disk s) d"
      using file_read_loading [OF l, of n] unfolding bs_def m_def by blast
    have bs_pg: "length bs \<le> PGSIZE" using len n by simp
    note F = fill_page [OF kp(1) bs_pg, where m = "mem fr"]
    let ?fr1 = "fr\<lparr>mem := mem_write (mem fr) ?kp bs\<rparr>"
    have c1: "user_change fr j ?fr1" by (rule user_change_mem [OF up(4)]) (use F(3) up(2) in simp)
    have read: "file_read_mem f ?kp n (set_pages fr s) = Some (m, f\<lparr>f_pos := int (ofs + m)\<rparr>, set_pages ?fr1 (s\<lparr>disk := d\<rparr>))"
      using d(1) len(1) by (simp add: file_read_mem_def set_mem_def pages_def set_pages_def)
    have page: "palloc_get_page (pages s) PAL_USER = Some (?kp, fr)" using 2(1) by (simp add: pages_def)
    show ?thesis
    proof (cases "m = n")
      case False
      obtain fr2 where fr2: "palloc_free_page ?fr1 ?kp = Some fr2" "user_change ?fr1 j fr2"
        using free_user_page [of ?fr1 j] up 2(3,5) by auto
      note C = as_inv_user_change [OF inv(1) user_change_trans [OF user_change_trans [OF 2(2) c1] fr2(2)] 2(3) un]
      have "load_page u n w f s = Some (False, f\<lparr>f_pos := int (ofs + m)\<rparr>, s\<lparr>disk := d, vmem := vm.frames_update (\<lambda>_. fr2) (vmem s)\<rparr>)"
        unfolding load_page_def Let_def page bind.simps prod.case if_not_P [OF kp(2)] read if_P [OF False]
        using fr2(1) by (simp add: free_page_def pages_def set_pages_def)
      then show ?thesis by (rule that) (use C(1,2) d(2) in auto)
    next
      case True
      define m2 where "m2 = mem_set (mem ?fr1) (?kp + of_nat n) 0 (PGSIZE - n)"
      let ?fr2 = "fr\<lparr>mem := m2\<rparr>"
      have ln: "length bs = n" using len True by simp
      have m2: "page_bytes m2 ?kp = segment_page (file_byte (disk s) dev i) ofs n"
        "\<And>a. \<not> in_range ?kp PGSIZE a \<Longrightarrow> m2 a = mem fr a"
        using F(1,2) ln True by (simp_all add: m2_def segment_page_def bs_def)
      have c2: "user_change fr j ?fr2" by (rule user_change_mem [OF up(4)]) (use m2(2) up(2) in simp)
      let ?v0 = "vm.frames_update (\<lambda>_. ?fr2) (vmem s)"
      let ?s0 = "s\<lparr>disk := d, vmem := ?v0\<rparr>"
      note C = as_inv_user_change [OF inv(1) user_change_trans [OF 2(2) c2] 2(3) un]
      have dst: "?kp + of_nat n \<noteq> 0 \<or> PGSIZE - n = 0"
      proof (cases "n < PGSIZE")
        case True
        then have "unat (?kp + of_nat n) \<noteq> 0" using page_offset(3) [OF kp(1) True] kp(2) by (simp add: unat_eq_0)
        then show ?thesis by (metis unat_0)
      qed simp
      have zero: "memset (mem ?fr1) (?kp + of_nat n) 0 (PGSIZE - n) = Some (?kp + of_nat n, m2)"
        using dst memset_loop_set [of "PGSIZE - n"] by (simp add: memset_def m2_def PGSIZE_def kassert_simps)
      have run: "load_page u n w f s = do {
          (ok, s') \<leftarrow> install_page u ?kp w ?s0;
          if ok then Some (True, f\<lparr>f_pos := int (ofs + m)\<rparr>, s')
          else do { s' \<leftarrow> free_page ?kp s'; Some (False, f\<lparr>f_pos := int (ofs + m)\<rparr>, s') } }"
        unfolding load_page_def Let_def page bind.simps prod.case if_not_P [OF kp(2)] read
        using True zero by (simp add: pages_def set_pages_def set_mem_def)
      have cur: "current_pagedir ?s0 = Some pd" using inv(2) by (simp add: current_pagedir_def current_pcb_def)
      have j0: "j < bit_cnt (used_map (user_pool (vm.frames ?v0)))" "pool_page (user_pool (vm.frames ?v0)) j = ?kp"
        "pool_used (user_pool (vm.frames ?v0)) ! j" using up(2,3) 2(3,5) by simp_all
      have un0: "unmapped ?v0 pd (pool_page (user_pool (vm.frames ?v0)) j)"
        using un C(3) unfolding unmapped_def j0(2) by simp
      have v0: "vmem ?s0 = ?v0" by simp
      from C(1) cur u j0(1) un0 j0(3) v0 show ?thesis
      proof (cases rule: install_or_free [where w = w])
        case (1 v)
        have "load_page u n w f s = Some (True, f\<lparr>f_pos := int (ofs + m)\<rparr>, s\<lparr>disk := d, vmem := v\<rparr>)"
          using run 1(1) j0(2) by simp
        then show ?thesis
          by (rule that) (use 1(2,3) j0(2) d(2) True m2(1) C(2) in auto)
      next
        case (2 v v')
        have "load_page u n w f s = Some (False, f\<lparr>f_pos := int (ofs + m)\<rparr>, s\<lparr>disk := d, vmem := v'\<rparr>)"
          using run 2(1,2) j0(2) by simp
        then show ?thesis by (rule that) (use 2(3,4) d(2) C(2) in auto)
      qed
    qed
  qed
qed

section \<open>A whole segment\<close>

text \<open>The image of a segment: \<open>r\<close> bytes of the file, then \<open>z\<close> zeros.\<close>

definition segment_image :: "(nat \<Rightarrow> u8) \<Rightarrow> nat \<Rightarrow> nat \<Rightarrow> nat \<Rightarrow> u8 list" where
  "segment_image byte ofs r z = map byte [ofs..<ofs + r] @ replicate z 0"

lemma segment_image_step:
  assumes "r + z = PGSIZE * Suc k" and n: "n = min r PGSIZE"
  shows "take PGSIZE (segment_image byte ofs r z) = segment_page byte ofs n"
    "drop PGSIZE (segment_image byte ofs r z) = segment_image byte (ofs + n) (r - n) (z - (PGSIZE - n))"
proof -
  have le: "PGSIZE \<le> r + z" using assms(1) by simp
  show "take PGSIZE (segment_image byte ofs r z) = segment_page byte ofs n"
    unfolding segment_image_def segment_page_def n using le
    by (intro nth_equalityI) (auto simp: nth_append not_less)
  show "drop PGSIZE (segment_image byte ofs r z) = segment_image byte (ofs + n) (r - n) (z - (PGSIZE - n))"
    unfolding segment_image_def n using le
    by (intro nth_equalityI) (auto simp: nth_append min_def add.assoc)
qed

lemma loop_counts:
  fixes r z p :: u32
  assumes "unat r + unat z = PGSIZE * Suc k" and p: "p = (if r < of_nat PGSIZE then r else of_nat PGSIZE)"
  shows "unat p = min (unat r) PGSIZE" "unat (r - p) = unat r - unat p"
    "unat (z - (of_nat PGSIZE - p)) = unat z - (PGSIZE - unat p)" "r > 0 \<or> z > 0"
proof -
  have pg: "unat (of_nat PGSIZE :: u32) = PGSIZE" by (simp add: PGSIZE_def)
  show un: "unat p = min (unat r) PGSIZE" by (simp add: p word_less_nat_alt pg)
  show "unat (r - p) = unat r - unat p" by (rule unat_sub) (simp add: word_le_nat_alt un)
  have q: "unat (of_nat PGSIZE - p) = PGSIZE - unat p"
    using unat_sub [of p "of_nat PGSIZE"] by (simp add: word_le_nat_alt un pg)
  show "unat (z - (of_nat PGSIZE - p)) = unat z - (PGSIZE - unat p)"
  proof (subst unat_sub)
    have "PGSIZE \<le> unat r + unat z" using assms(1) by simp
    then show "of_nat PGSIZE - p \<le> z" unfolding word_le_nat_alt q un by linarith
  qed (simp add: q)
  show "r > 0 \<or> z > 0"
  proof (rule ccontr)
    assume "\<not> (r > 0 \<or> z > 0)"
    then have "r = 0" "z = 0" by (simp_all add: word_neq_0_conv [symmetric])
    then show False using assms(1) by (simp add: PGSIZE_def)
  qed
qed

lemma next_page:
  assumes "pg_ofs u = 0" "unat u + PGSIZE * Suc k \<le> unat PHYS_BASE"
  shows "pg_ofs (u + of_nat PGSIZE) = 0" "unat (u + of_nat PGSIZE) = unat u + PGSIZE"
    "unat (pg_no (u + of_nat PGSIZE)) = Suc (unat (pg_no u))" "is_user_vaddr u"
proof -
  have b: "unat u + PGSIZE < 2 ^ 32" using assms(2) by (simp add: PHYS_BASE_def)
  have "unat (of_nat PGSIZE :: u32) = PGSIZE" by (simp add: PGSIZE_def)
  then show u: "unat (u + of_nat PGSIZE) = unat u + PGSIZE" using b unat_add_small [of u "of_nat PGSIZE"] by simp
  show "pg_ofs (u + of_nat PGSIZE) = 0" using assms(1) by (simp add: pg_aligned_iff u)
  show "unat (pg_no (u + of_nat PGSIZE)) = Suc (unat (pg_no u))" unfolding unat_pg_no u by (simp add: PGSIZE_def)
  show "is_user_vaddr u" using assms(2) by (simp add: is_user_vaddr_def word_less_nat_alt PGSIZE_def)
qed

lemma load_loop_ok:
  assumes "loading s pd dev i f" "f_pos f = int ofs" "pg_ofs u = 0"
    "unat r + unat z = PGSIZE * k" "unat u + PGSIZE * k \<le> unat PHYS_BASE"
  shows "\<exists>ok f' v d. load_loop u r z w f s = Some (ok, f', s\<lparr>disk := d, vmem := v\<rparr>) \<and> as_inv v pd \<and>
    same_but_counts (disk s) d \<and> f_inode f' = f_inode f \<and>
    (\<forall>a. is_user_vaddr a \<longrightarrow> \<not> (unat (pg_no u) \<le> unat (pg_no a) \<and> unat (pg_no a) < unat (pg_no u) + k) \<longrightarrow>
       user_page v pd a = user_page (vmem s) pd a) \<and>
    (ok \<longrightarrow> (\<forall>a t. is_user_vaddr a \<longrightarrow> t < k \<longrightarrow> unat (pg_no a) = unat (pg_no u) + t \<longrightarrow>
       user_page v pd a = Some (take PGSIZE (drop (PGSIZE * t) (segment_image (file_byte (disk s) dev i) ofs (unat r) (unat z))), w)))"
  using assms
proof (induction k arbitrary: u r z f s ofs)
  case 0
  then have "r = 0" "z = 0" by (simp_all add: unat_eq_0)
  moreover have "as_inv (vmem s) pd" using 0 by (simp add: loading_def)
  ultimately show ?case
    by (intro exI [of _ True] exI [of _ f] exI [of _ "vmem s"] exI [of _ "disk s"]) (subst load_loop.simps, simp)
next
  case (Suc k)
  define p where "p = (if r < of_nat PGSIZE then r else of_nat PGSIZE :: u32)"
  define n where "n = unat p"
  note L = loop_counts [OF Suc.prems(4) p_def, folded n_def]
  note N = next_page [OF Suc.prems(3,5)]
  have n: "n \<le> PGSIZE" by (simp add: L(1))
  let ?byte = "file_byte (disk s) dev i"
  obtain ok f1 v1 d1 where one: "load_page u n w f s = Some (ok, f1, s\<lparr>disk := d1, vmem := v1\<rparr>)" "as_inv v1 pd"
    "same_but_counts (disk s) d1" "f_inode f1 = f_inode f" "ok \<Longrightarrow> f_pos f1 = int (ofs + n)"
    and page: "\<And>a. is_user_vaddr a \<Longrightarrow> user_page v1 pd a =
      (if ok \<and> pg_no a = pg_no u then Some (segment_page ?byte ofs n, w) else user_page (vmem s) pd a)"
    using load_page_ok [OF Suc.prems(1,2) n N(4) Suc.prems(3), of w] by metis
  let ?s1 = "s\<lparr>disk := d1, vmem := v1\<rparr>"
  have step: "load_loop u r z w f s = (if ok then load_loop (u + of_nat PGSIZE) (r - p) (z - (of_nat PGSIZE - p)) w f1 ?s1
      else Some (False, f1, ?s1))"
    using L(4) one(1) by (subst load_loop.simps) (simp add: Let_def p_def [symmetric] n_def [symmetric])
  show ?case
  proof (cases ok)
    case False
    then show ?thesis using step one(2-4) page
      by (intro exI [of _ False] exI [of _ f1] exI [of _ v1] exI [of _ d1]) simp
  next
    case True
    have l1: "loading ?s1 pd dev i f1" by (rule loading_step [OF Suc.prems(1) one(2-4)])
    have bytes: "file_byte d1 dev i = ?byte" using same_files(5) [OF one(3)] Suc.prems(1) by (simp add: loading_def)
    have "n + (PGSIZE - n) = PGSIZE" "n \<le> unat r" using L(1) by simp_all
    moreover have "PGSIZE \<le> unat r + unat z" using Suc.prems(4) by simp
    then have "PGSIZE - n \<le> unat z" unfolding L(1) by linarith
    ultimately have sum: "unat (r - p) + unat (z - (of_nat PGSIZE - p)) = PGSIZE * k"
      using Suc.prems(4) L(2,3) by (simp add: n_def [symmetric])
    have top: "unat (u + of_nat PGSIZE) + PGSIZE * k \<le> unat PHYS_BASE" using Suc.prems(5) by (simp only: N(2)) simp
    let ?im = "segment_image ?byte ofs (unat r) (unat z)"
    note I = segment_image_step [OF Suc.prems(4) L(1), of ?byte ofs]
    obtain ok' f' v d where rest: "load_loop (u + of_nat PGSIZE) (r - p) (z - (of_nat PGSIZE - p)) w f1 ?s1 =
        Some (ok', f', ?s1\<lparr>disk := d, vmem := v\<rparr>)" "as_inv v pd" "same_but_counts d1 d" "f_inode f' = f_inode f1"
      and out: "\<And>a. is_user_vaddr a \<Longrightarrow> \<not> (Suc (unat (pg_no u)) \<le> unat (pg_no a) \<and> unat (pg_no a) < Suc (unat (pg_no u)) + k) \<Longrightarrow>
        user_page v pd a = user_page v1 pd a"
      and into: "\<And>a t. ok' \<Longrightarrow> is_user_vaddr a \<Longrightarrow> t < k \<Longrightarrow> unat (pg_no a) = Suc (unat (pg_no u)) + t \<Longrightarrow>
        user_page v pd a = Some (take PGSIZE (drop (PGSIZE * t) (drop PGSIZE ?im)), w)"
      using Suc.IH [OF l1 one(5) [OF True] N(1) sum top] unfolding N(3) I(2)
      by (auto simp: bytes L(2,3) [unfolded n_def [symmetric]])
    have "load_loop u r z w f s = Some (ok', f', s\<lparr>disk := d, vmem := v\<rparr>)" using step rest(1) True by simp
    moreover have "same_but_counts (disk s) d" by (rule same_but_counts_trans [OF one(3) rest(3)])
    moreover have "user_page v pd a = user_page (vmem s) pd a"
      if "is_user_vaddr a" "\<not> (unat (pg_no u) \<le> unat (pg_no a) \<and> unat (pg_no a) < unat (pg_no u) + Suc k)" for a
    proof -
      have "pg_no a \<noteq> pg_no u" using that(2) by auto
      then show ?thesis using out [OF that(1)] page [OF that(1)] that(2) by simp
    qed
    moreover have "user_page v pd a = Some (take PGSIZE (drop (PGSIZE * t) ?im), w)"
      if a: "ok'" "is_user_vaddr a" "t < Suc k" "unat (pg_no a) = unat (pg_no u) + t" for a t
    proof (cases t)
      case 0
      then have "pg_no a = pg_no u" using a(4) by (simp add: word_unat_eq_iff)
      then show ?thesis using out [OF a(2)] page [OF a(2)] True I(1) 0 by simp
    next
      case (Suc t')
      then show ?thesis using into [OF a(1,2), of t'] a(3,4) by (simp add: add.commute)
    qed
    ultimately show ?thesis using rest(2,4) one(4) by (intro exI [of _ ok'] exI [of _ f'] exI [of _ v] exI [of _ d]) simp
  qed
qed

text \<open>C10:
  \<open>load_segment\<close> builds the address space that the segment describes. The running process has the
  directory \<open>pd\<close> and the file is open, allocation in the file system succeeds, and the region
  \<open>upage\<close> of \<open>k\<close> pages lies below the kernel. Then the call returns without a failing assertion,
  keeps the invariant of the address space, changes no page outside the region, and if it answers
  true then page \<open>t\<close> of the region holds exactly the bytes \<open>t * 4096\<close> and following of the image
  (\<open>read_bytes\<close> bytes of the file from \<open>ofs\<close> on, then \<open>zero_bytes\<close> zeros), with the write
  permission that was asked for.\<close>

theorem load_segment_image:
  assumes l: "loading s pd dev i f" and args: "pg_ofs upage = 0" "PGSIZE dvd ofs"
    "unat r + unat z = PGSIZE * k" "unat upage + PGSIZE * k \<le> unat PHYS_BASE"
  shows "\<exists>ok f' v d. load_segment f (int ofs) upage r z w s = Some (ok, f', s\<lparr>disk := d, vmem := v\<rparr>) \<and> as_inv v pd \<and>
    (\<forall>a. is_user_vaddr a \<longrightarrow> \<not> (unat (pg_no upage) \<le> unat (pg_no a) \<and> unat (pg_no a) < unat (pg_no upage) + k) \<longrightarrow>
       user_page v pd a = user_page (vmem s) pd a) \<and>
    (ok \<longrightarrow> (\<forall>a t. is_user_vaddr a \<longrightarrow> t < k \<longrightarrow> unat (pg_no a) = unat (pg_no upage) + t \<longrightarrow>
       user_page v pd a = Some (take PGSIZE (drop (PGSIZE * t) (segment_image (file_byte (disk s) dev i) ofs (unat r) (unat z))), w)))"
proof -
  have "PGSIZE * k < 2 ^ 32" using args(4) by (simp add: PHYS_BASE_def)
  then have "unat (r + z) = PGSIZE * k" using args(3) unat_add_small [of r z] by simp
  then have a1: "unat (r + z) mod PGSIZE = 0" by simp
  have a2: "uint (word_of_int (int ofs) :: u32) mod int PGSIZE = 0"
  proof -
    obtain q where q: "ofs = PGSIZE * q" using args(2) by (auto elim: dvdE)
    have "uint (word_of_int (int ofs) :: u32) = int ofs mod 2 ^ 32" by (simp only: uint_word_of_int) simp
    then show ?thesis unfolding q by (simp add: PGSIZE_def mod_mod_cancel)
  qed
  let ?f = "f\<lparr>f_pos := int ofs\<rparr>"
  have seek: "file_seek f (int ofs) = Some ?f" by (simp add: file_seek_def)
  have l': "loading s pd dev i ?f" using l by (simp add: loading_def)
  have "load_segment f (int ofs) upage r z w s = load_loop upage r z w ?f s"
    using a1 a2 args(1) seek by (simp add: load_segment_def kassert_simps)
  then show ?thesis
    using load_loop_ok [OF l' _ args(1,3,4), of ofs w] by simp blast
qed

section \<open>A process that cannot be loaded\<close>

lemma print_name_ok:
  "\<exists>out. print (''load: %s: open failed'' @ NL) [arg_string name] s = Some (s\<lparr>printed := out\<rparr>)"
proof -
  have "printable (''load: %s: open failed'' @ NL) [arg_string name]"
    by (simp add: printable_simps arg_string_def NL_def)
  then show ?thesis by (auto simp: printable_def print_def)
qed

lemma set_pcb_ok:
  fixes s :: "'a processes_scheme" and p :: addr
  assumes "thread_current (kern s) = Some t" "ths (kern s) t = Some th"
  defines "s' \<equiv> s\<lparr>kern := (kern s)\<lparr>ths := (ths (kern s))(t \<mapsto> th\<lparr>th_pcb := p\<rparr>)\<rparr>\<rparr>"
  shows "set_pcb p s = Some s'" "thread_current (kern s') = Some t" "ths (kern s') t = Some (th\<lparr>th_pcb := p\<rparr>)"
    "current_pcb s' = Some p"
proof -
  show "set_pcb p s = Some s'" using assms(1,2) by (simp add: set_pcb_def upd_thread_def s'_def)
  have "is_thread (kern s) t" "status (kern s) t = Some THREAD_RUNNING" "running (kern s) = t"
    using assms(1) by (auto simp: thread_current_def running_thread_def kbind Let_def)
  then show c: "thread_current (kern s') = Some t"
    using assms(2) by (simp add: thread_current_def running_thread_def is_thread_def status_def s'_def kassert_simps Let_def)
  show "ths (kern s') t = Some (th\<lparr>th_pcb := p\<rparr>)" by (simp add: s'_def)
  then show "current_pcb s' = Some p" using c by (simp add: current_pcb_def)
qed

text \<open>The kernel page that a directory is made of.\<close>

lemma pagedir_create_page:
  assumes inv: "palloc_inv (vm.frames v)" and create: "pagedir_create v = Some (pd, v')" and pd: "pd \<noteq> 0"
  shows "\<not> used_page v pd" "used_page v' p \<longleftrightarrow> used_page v p \<or> p = pd" "palloc_inv (vm.frames v')"
    "pg_ofs pd = 0" "pool_base (kernel_frames v') = pool_base (kernel_frames v)"
proof -
  obtain fr m where get: "palloc_get_multiple (vm.frames v) 0 1 = Some (pd, fr)"
    and v': "v' = vm.frames_update (\<lambda>_. fr\<lparr>mem := m\<rparr>) v"
    using create pd by (auto simp: pagedir_create_def palloc_get_page_def kbind split: if_splits)
  have sel: "selected_pool (vm.frames v) 0 = kernel_frames v" by (simp add: selected_pool_def)
  obtain k um where k: "pd = pool_page (kernel_frames v) k" "is_group (pool_used (kernel_frames v)) k 1 False"
    "bit_cnt um = bit_cnt (used_map (kernel_frames v))" "bm_abs um = fill (pool_used (kernel_frames v)) k 1 True"
    and fr: "fr = (vm.frames v)\<lparr>kernel_pool := (kernel_frames v)\<lparr>used_map := um\<rparr>\<rparr>"
    using get_group [OF inv get pd] unfolding sel by (auto simp: with_pool_def)
  have kinv: "pool_inv (kernel_frames v)" using inv by (simp add: palloc_inv_def)
  have kb: "k < bit_cnt (used_map (kernel_frames v))" "\<not> pool_used (kernel_frames v) ! k"
    using k(2) by (simp_all add: is_group_def)
  show "\<not> used_page v pd"
  proof
    assume "used_page v pd"
    then obtain i where i: "i < bit_cnt (used_map (kernel_frames v))" "pd = pool_page (kernel_frames v) i"
      "pool_used (kernel_frames v) ! i" by (auto simp: used_page_def)
    have "i = k" using pool_page_inj [OF kinv i(1) kb(1)] i(2) k(1) by simp
    then show False using i(3) kb(2) by simp
  qed
  show "pg_ofs pd = 0" using pool_page_facts(2) [OF kinv kb(1)] k(1) by simp
  show "pool_base (kernel_frames v') = pool_base (kernel_frames v)" by (simp add: v' fr)
  show "palloc_inv (vm.frames v')" using palloc_get_multiple_inv [OF inv get] by (simp add: v')
  have pp: "pool_page (kernel_frames v') i = pool_page (kernel_frames v) i" for i by (simp add: v' fr pool_page_def)
  have "pool_used (kernel_frames v') ! i \<longleftrightarrow> pool_used (kernel_frames v) ! i \<or> i = k"
    if "i < bit_cnt (used_map (kernel_frames v))" for i
    using that kb(1) by (auto simp: v' fr k(4) nth_fill)
  then show "used_page v' p \<longleftrightarrow> used_page v p \<or> p = pd"
    unfolding used_page_def pp using kb(1) k(1) by (auto simp: v' fr k(3))
qed

lemma free_kernel_page:
  assumes inv: "palloc_inv (vm.frames v)" and used: "used_page v p"
  obtains fr where "palloc_free_page (vm.frames v) p = Some fr"
    "\<And>q. used_page (vm.frames_update (\<lambda>_. fr) v) q \<longleftrightarrow> used_page v q \<and> q \<noteq> p"
proof -
  have kinv: "pool_inv (kernel_frames v)" using inv by (simp add: palloc_inv_def)
  have sel: "selected_pool (vm.frames v) 0 = kernel_frames v" by (simp add: selected_pool_def)
  obtain j where j: "j < bit_cnt (used_map (kernel_frames v))" "p = pool_page (kernel_frames v) j" "pool_used (kernel_frames v) ! j"
    using used by (auto simp: used_page_def)
  have g: "is_group (pool_used (kernel_frames v)) j 1 True" using j by (simp add: is_group_def)
  obtain um where f: "palloc_free_multiple (vm.frames v) p 1 =
      Some ((with_pool (vm.frames v) 0 ((kernel_frames v)\<lparr>used_map := um\<rparr>))\<lparr>mem := mem_set (mem (vm.frames v)) p 0xcc (PGSIZE * 1)\<rparr>)"
    "bit_cnt um = bit_cnt (used_map (kernel_frames v))" "bm_abs um = fill (pool_used (kernel_frames v)) j 1 False"
    using palloc_free_multiple_spec [OF inv zero_less_one, of j 0, unfolded sel] j(1,2) g by auto
  define fr where "fr = (with_pool (vm.frames v) 0 ((kernel_frames v)\<lparr>used_map := um\<rparr>))\<lparr>mem := mem_set (mem (vm.frames v)) p 0xcc PGSIZE\<rparr>"
  let ?v = "vm.frames_update (\<lambda>_. fr) v"
  have kp: "kernel_frames ?v = (kernel_frames v)\<lparr>used_map := um\<rparr>" by (simp add: fr_def with_pool_def)
  have pp: "pool_page (kernel_frames ?v) i = pool_page (kernel_frames v) i" for i unfolding kp by (simp add: pool_page_def)
  have "used_page ?v q \<longleftrightarrow> used_page v q \<and> q \<noteq> p" for q
  proof -
    have "pool_used (kernel_frames ?v) ! i \<longleftrightarrow> pool_used (kernel_frames v) ! i \<and> i \<noteq> j"
      if "i < bit_cnt (used_map (kernel_frames v))" for i
      using that j(1) unfolding kp by (auto simp: f(3) nth_fill)
    then show ?thesis
      unfolding used_page_def pp using pool_page_inj [OF kinv _ j(1)] j(2) unfolding kp by (auto simp: f(2))
  qed
  then show ?thesis using that f(1) by (simp add: palloc_free_page_def fr_def)
qed

text \<open>C31:
  A process whose program cannot be opened leaks its page directory: \<open>start_process\<close> gives back the
  control block and the page with the name, wakes the parent and exits, but the page that
  \<open>pagedir_create\<close> has allocated stays in use in the kernel pool, and no control block names it any
  more. Every failed \<open>process_execute\<close> costs the kernel a page for ever; if the load fails later,
  the page tables and the pages of the program are lost as well.\<close>

theorem failed_load_leaks_pagedir:
  assumes t: "thread_current (kern s) = Some t" "ths (kern s) t = Some th" "th_pcb th = NULL"
    and mem: "palloc_inv (pages s)" "PHYS_BASE \<le> pool_base (kernel_pool (pages s))" "used_page (vmem s) fn"
      "string_at (mem (pages s)) fn = Some name" "tss_page s \<noteq> 0" "new_pcb \<noteq> NULL" "pcbs s new_pcb = None"
    and create: "pagedir_create (vmem s) = Some (pd, v)" "pd \<noteq> 0"
    and missing: "filesys_open name (disk s) = Some (None, d)"
    and exits: "sema_up (kern s) temporary = Some k1" "thread_exit k1 = Some k2"
  shows "\<exists>s'. start_process new_pcb fn s = Some (None, s') \<and> \<not> used_page (vmem s) pd \<and> used_page (vmem s') pd \<and>
    pcbs s' = pcbs s \<and> \<not> used_page (vmem s') fn"
proof -
  have P: "pages s = vm.frames (vmem s)" by (simp add: pages_def)
  note C = pagedir_create_page [OF mem(1) [unfolded P] create]
  let ?K = "(kern s)\<lparr>ths := (ths (kern s))(t \<mapsto> th\<lparr>th_pcb := new_pcb\<rparr>)\<rparr>"
  let ?p = "\<lparr>pagedir = 0, process_name = take 15 (th_name th), main_thread = t\<rparr>"
  let ?p' = "\<lparr>pagedir = pd, process_name = take 15 (th_name th), main_thread = t\<rparr>"
  let ?s2 = "s\<lparr>kern := ?K, pcbs := (pcbs s)(new_pcb \<mapsto> ?p)\<rparr>"
  note T = set_pcb_ok [OF t(1,2), of new_pcb]
  have tk: "thread_current ?K = Some t" using T(2) by simp
  have pd: "PHYS_BASE \<le> pd"
    using used_page_facts(3) [OF C(3), of pd] C(2,5) mem(2) unfolding P by simp
  have act: "pagedir_activate v pd = Some (v\<lparr>cr3 := pd - PHYS_BASE, tlb_flushes := tlb_flushes v + 1\<rparr>)"
    using vtop_page(1) [OF C(4) pd] create(2) by (simp add: pagedir_activate_def)
  define v2 where "v2 = v\<lparr>cr3 := pd - PHYS_BASE, tlb_flushes := tlb_flushes v + 1\<rparr>"
  define m where "m = store32 (mem (vm.frames v2)) (tss_page s + tss_esp0) (of_nat t + of_nat PGSIZE)"
  define v3 where "v3 = vm.frames_update (\<lambda>_. (vm.frames v2)\<lparr>mem := m\<rparr>) v2"
  let ?s3 = "s\<lparr>kern := ?K, pcbs := (pcbs s)(new_pcb \<mapsto> ?p'), vmem := v3\<rparr>"
  obtain out where out: "print (''load: %s: open failed'' @ NL) [arg_string name] (?s3\<lparr>disk := d\<rparr>) = Some (?s3\<lparr>disk := d, printed := out\<rparr>)"
    using print_name_ok by blast
  have load: "load name ?s2 = Some (None, ?s3\<lparr>disk := d, printed := out\<rparr>)"
    using tk mem(5,6) create act missing out
    by (simp add: load_def load_file_def set_pagedir_def current_pagedir_def current_pcb_def process_activate_def tss_update_def
        set_mem_def set_pages_def pages_def v3_def v2_def m_def file_close_def Let_def)
  let ?s4 = "?s3\<lparr>disk := d, printed := out\<rparr>"
  have used3: "used_page v3 q \<longleftrightarrow> used_page v q" for q by (simp add: used_page_def v3_def v2_def)
  have "th\<lparr>th_pcb := NULL\<rparr> = th" using t(3) by simp
  then have restored: "?K\<lparr>ths := (ths ?K)(t \<mapsto> th\<lparr>th_pcb := new_pcb\<rparr>\<lparr>th_pcb := NULL\<rparr>)\<rparr> = kern s" using t(2) by (simp add: fun_upd_idem)
  have cur4: "current_pcb ?s4 = Some new_pcb" using tk by (simp add: current_pcb_def)
  let ?s5 = "s\<lparr>vmem := v3, disk := d, printed := out\<rparr>"
  have set4: "set_pcb NULL ?s4 = Some (?s4\<lparr>kern := kern s\<rparr>)"
    using set_pcb_ok(1) [of ?s4 t "th\<lparr>th_pcb := new_pcb\<rparr>" NULL] tk restored by simp
  have pcbs: "(pcbs s)(new_pcb := None) = pcbs s" using mem(7) by (simp add: fun_upd_idem)
  have inv3: "palloc_inv (vm.frames v3)" using C(3) by (simp add: v3_def v2_def)
  have fn3: "used_page v3 fn" using mem(3) C(2) used3 by simp
  obtain fr where fr: "palloc_free_page (vm.frames v3) fn = Some fr"
    "\<And>q. used_page (vm.frames_update (\<lambda>_. fr) v3) q \<longleftrightarrow> used_page v3 q \<and> q \<noteq> fn"
    by (rule free_kernel_page [OF inv3 fn3]) blast
  let ?s6 = "s\<lparr>vmem := vm.frames_update (\<lambda>_. fr) v3, disk := d, printed := out, kern := k2\<rparr>"
  have strat: "string_at (mem (pages (s\<lparr>kern := ?K, pcbs := (pcbs s)(new_pcb \<mapsto> ?p)\<rparr>))) fn = Some name"
    using mem(4) by (simp add: pages_def)
  have "start_process new_pcb fn s = Some (None, ?s6)"
    using t(1) mem(6) T(1) strat load cur4 set4 fr(1) exits pcbs
    by (simp add: start_process_def free_page_def pages_def set_pages_def sema_up_temporary_def exit_thread_def Let_def)
  moreover have "pd \<noteq> fn" using C(1) mem(3) by auto
  ultimately show ?thesis using C(1,2) fr(2) used3 by (intro exI [of _ ?s6]) simp
qed

section \<open>A small system\<close>

text \<open>Thread 100 runs a process with an empty page directory; a file of 700 bytes is open.\<close>

definition demo_process :: processes where
  "demo_process = (undefined :: processes)\<lparr>
     kern := demo_boot\<lparr>ths := (ths demo_boot)(100 \<mapsto> (demo_thread THREAD_RUNNING)\<lparr>th_pcb := 500\<rparr>), running := 100\<rparr>,
     vmem := demo_vm, disk := demo_fs, tss_page := 0xc0102000,
     pcbs := [500 \<mapsto> \<lparr>pagedir = 0xc0101000, process_name = [], main_thread = 100\<rparr>]\<rparr>"

definition demo_file :: open_file where
  "demo_file = \<lparr>f_inode = 1, f_pos = 0, f_deny_write = False\<rparr>"

lemma demo_as_inv: "as_inv demo_vm 0xc0101000"
proof -
  have "drop_bit PTSHIFT (pool_page (user_frames demo_vm) i - PHYS_BASE) < init_ram_pages demo_vm"
    if "i < bit_cnt (used_map (user_frames demo_vm))" for i
  proof -
    have "i = 0 \<or> i = 1" using that by (auto simp: demo_vm_def demo_pool_def)
    then show ?thesis
      by (auto simp: demo_vm_def demo_pool_def pool_page_def PHYS_BASE_def PTSHIFT_def PGBITS_def PGSIZE_def)
  qed
  moreover have "(0xc0101000 :: u32) \<noteq> init_page_dir demo_vm" by (simp add: demo_vm_def)
  ultimately show ?thesis using demo_vm_inv unfolding as_inv_def by simp
qed

lemma demo_loading: "loading demo_process 0xc0101000 0 (the (inodes demo_fs 1)) demo_file"
proof -
  have "current_pagedir demo_process = Some 0xc0101000"
    by (simp add: current_pagedir_def current_pcb_def thread_current_def running_thread_def is_thread_def status_def
        demo_process_def demo_thread_def kassert_simps Let_def)
  moreover have "vmem demo_process = demo_vm" "disk demo_process = demo_fs" by (simp_all add: demo_process_def)
  ultimately show ?thesis
    using demo_as_inv demo_fs_ok(1,2) by (simp add: loading_def) (simp add: demo_fs_def demo_file_def)
qed

lemma load_segment_image_witness:
  "\<exists>ok f v d. load_segment demo_file (int 0) 0x08048000 700 3396 True demo_process = Some (ok, f, demo_process\<lparr>disk := d, vmem := v\<rparr>) \<and>
     as_inv v 0xc0101000 \<and> user_page v 0xc0101000 0x08049000 = user_page demo_vm 0xc0101000 0x08049000"
proof -
  have a: "pg_ofs 0x08048000 = 0" "PGSIZE dvd 0" "unat (700 :: u32) + unat (3396 :: u32) = PGSIZE * 1"
    "unat (0x08048000 :: u32) + PGSIZE * 1 \<le> unat PHYS_BASE"
    by (simp_all add: pg_aligned_iff PGSIZE_def PHYS_BASE_def)
  have b: "is_user_vaddr 0x08049000" "pg_no 0x08049000 = 0x8049" "pg_no 0x08048000 = 0x8048"
    by (simp_all add: is_user_vaddr_def PHYS_BASE_def pg_no_def PGBITS_def)
  have v: "vmem demo_process = demo_vm" by (simp add: demo_process_def)
  obtain ok f v d where "load_segment demo_file (int 0) 0x08048000 700 3396 True demo_process = Some (ok, f, demo_process\<lparr>disk := d, vmem := v\<rparr>)"
    "as_inv v 0xc0101000" and out: "\<forall>a. is_user_vaddr a \<longrightarrow>
      \<not> (unat (pg_no 0x08048000) \<le> unat (pg_no a) \<and> unat (pg_no a) < unat (pg_no 0x08048000) + 1) \<longrightarrow>
      user_page v 0xc0101000 a = user_page (vmem demo_process) 0xc0101000 a"
    using load_segment_image [OF demo_loading a, of True] by blast
  moreover have "user_page v 0xc0101000 0x08049000 = user_page demo_vm 0xc0101000 0x08049000"
    using out [rule_format, OF b(1)] unfolding b(2,3) v by simp
  ultimately show ?thesis by blast
qed

lemma demo_create: "\<exists>pd w. pagedir_create demo_vm = Some (pd, w) \<and> pd \<noteq> 0"
proof -
  have inv: "palloc_inv (vm.frames demo_vm)" by (rule as_invD(3) [OF demo_as_inv])
  have sel: "selected_pool (vm.frames demo_vm) 0 = kernel_frames demo_vm" by (simp add: selected_pool_def)
  have g: "is_group (pool_used (kernel_frames demo_vm)) 1 1 False"
    by (simp add: is_group_def demo_vm_def bm_bit_def elem_idx_def ELEM_BITS_def)
  obtain k fr where get: "palloc_get_multiple (vm.frames demo_vm) 0 1 = Some (pool_page (kernel_frames demo_vm) k, fr)"
    "is_group (pool_used (kernel_frames demo_vm)) k 1 False"
    using palloc_get_multiple_spec [OF inv zero_less_one, of 0, unfolded sel] g by (auto split: if_splits)
  have "pool_page (kernel_frames demo_vm) k \<noteq> 0"
    using pool_page_facts(1) [of "kernel_frames demo_vm" k] inv get(2) by (simp add: palloc_inv_def is_group_def)
  moreover have "init_page_dir demo_vm \<noteq> 0" by (simp add: demo_vm_def)
  ultimately show ?thesis
    using get(1) by (simp add: pagedir_create_def palloc_get_page_def memcpy_def kassert_simps)
qed

lemma failed_load_leaks_pagedir_witness:
  "\<exists>(s :: processes) pd s'. start_process 500 0xc0101000 s = Some (None, s') \<and> \<not> used_page (vmem s) pd \<and> used_page (vmem s') pd \<and> pcbs s' = pcbs s"
proof -
  let ?s = "demo_process\<lparr>kern := demo_boot, pcbs := \<lambda>_. None, disk := demo_fs\<lparr>mallocs := [False, False, False, False]\<rparr>\<rparr>"
  have v: "vmem ?s = demo_vm" "pages ?s = vm.frames demo_vm" by (simp_all add: demo_process_def pages_def)
  have t: "thread_current (kern ?s) = Some 100" "ths (kern ?s) 100 \<noteq> None" "th_pcb (the (ths (kern ?s) 100)) = NULL"
  proof -
    have "thread_current demo_boot = Some 100" "ths demo_boot 100 \<noteq> None" "th_pcb (the (ths demo_boot 100)) = NULL" by code_simp+
    then show "thread_current (kern ?s) = Some 100" "ths (kern ?s) 100 \<noteq> None" "th_pcb (the (ths (kern ?s) 100)) = NULL" by simp_all
  qed
  have inv: "palloc_inv (pages ?s)" "PHYS_BASE \<le> pool_base (kernel_pool (pages ?s))" "used_page (vmem ?s) 0xc0101000"
    using as_invD(3,4) [OF demo_as_inv] demo_vm_inv(1) unfolding v by (simp_all add: pd_inv_def)
  have str: "string_at (mem (pages ?s)) 0xc0101000 = Some []"
    unfolding v by (simp add: string_at_def strlen_def demo_vm_def strlen_loop.simps [of "\<lambda>_. 0"])
  obtain pd w where create: "pagedir_create (vmem ?s) = Some (pd, w)" "pd \<noteq> 0"
    unfolding v using demo_create by blast
  have "\<exists>d. filesys_open [] (demo_fs\<lparr>mallocs := [False, False, False, False]\<rparr>) = Some (None, d)"
    by (simp add: filesys_open_def dir_open_root_def dir_open_def dir_close_def inode_open_def inode_close_def file_open_def ask_malloc_def ROOT_DIR_SECTOR_def demo_fs_def)
  then obtain d where missing: "filesys_open [] (disk ?s) = Some (None, d)" by auto
  have "Option.bind (sema_up demo_boot temporary) thread_exit \<noteq> None" by code_simp
  then obtain k1 k2 where k: "sema_up (kern ?s) temporary = Some k1" "thread_exit k1 = Some k2" by (auto simp: bind_eq_Some_conv)
  have "ths (kern ?s) 100 = Some (the (ths (kern ?s) 100))" using t(2) by auto
  moreover have "tss_page ?s \<noteq> 0" "(500 :: addr) \<noteq> NULL" "pcbs ?s 500 = None" by (simp_all add: demo_process_def)
  ultimately obtain s' where "start_process 500 0xc0101000 ?s = Some (None, s')" "\<not> used_page (vmem ?s) pd"
    "used_page (vmem s') pd" "pcbs s' = pcbs ?s"
    using failed_load_leaks_pagedir [OF t(1) _ t(3) inv str _ _ _ create missing k] by blast
  then show ?thesis by blast
qed

end
