(* ===== verification/Kernel_Ide.thy ===== *)
theory Kernel_Ide
  imports Kernel_Clock Kernel_Partition Kernel_Ustar
begin

text \<open>
  The driver of the ATA controllers, \<open>devices/ide.c\<close>: detection and identification of the disks,
  reading and writing a sector in programmed I/O, and the interrupt handler.

  Channel \<open>c\<close> and device \<open>d\<close> of it stand for the pointers of the code. The devices answer through
  the ports; \<open>run\<close> is what happens while the thread sleeps or waits for the lock or for the
  completion interrupt, until it runs again. The buffer of a sector is the list of its bytes. The
  disks that are found are registered in \<open>blocks\<close>, the state of the block layer, where their
  contents are the medium with the number \<open>2 * c + d\<close>. A panic is \<open>None\<close>.
\<close>

section \<open>Registers\<close>

record ata_disk =
  ata_name :: string
  dev_no :: nat
  is_ata :: bool

record channel =
  ch_name :: string
  reg_base :: u16
  irq :: u8
  ch_lock :: lock_id
  expecting_interrupt :: bool
  completion_wait :: sem
  ata_devices :: "nat \<Rightarrow> ata_disk"

record ide = clock +
  channels :: "nat \<Rightarrow> channel"
  blocks :: block_state

definition CHANNEL_CNT :: nat where "CHANNEL_CNT = 2"

definition reg_data :: "channel \<Rightarrow> u16" where "reg_data c = reg_base c + 0"
definition reg_error :: "channel \<Rightarrow> u16" where "reg_error c = reg_base c + 1"
definition reg_nsect :: "channel \<Rightarrow> u16" where "reg_nsect c = reg_base c + 2"
definition reg_lbal :: "channel \<Rightarrow> u16" where "reg_lbal c = reg_base c + 3"
definition reg_lbam :: "channel \<Rightarrow> u16" where "reg_lbam c = reg_base c + 4"
definition reg_lbah :: "channel \<Rightarrow> u16" where "reg_lbah c = reg_base c + 5"
definition reg_device :: "channel \<Rightarrow> u16" where "reg_device c = reg_base c + 6"
definition reg_status :: "channel \<Rightarrow> u16" where "reg_status c = reg_base c + 7"
definition reg_command :: "channel \<Rightarrow> u16" where "reg_command c = reg_status c"
definition reg_ctl :: "channel \<Rightarrow> u16" where "reg_ctl c = reg_base c + 0x206"
definition reg_alt_status :: "channel \<Rightarrow> u16" where "reg_alt_status c = reg_ctl c"

definition STA_BSY :: u8 where "STA_BSY = 0x80"
definition STA_DRDY :: u8 where "STA_DRDY = 0x40"
definition STA_DRQ :: u8 where "STA_DRQ = 0x08"
definition CTL_SRST :: u8 where "CTL_SRST = 0x04"
definition DEV_MBS :: u8 where "DEV_MBS = 0xa0"
definition DEV_LBA :: u8 where "DEV_LBA = 0x40"
definition DEV_DEV :: u8 where "DEV_DEV = 0x10"
definition CMD_IDENTIFY_DEVICE :: u8 where "CMD_IDENTIFY_DEVICE = 0xec"
definition CMD_READ_SECTOR_RETRY :: u8 where "CMD_READ_SECTOR_RETRY = 0x20"
definition CMD_WRITE_SECTOR_RETRY :: u8 where "CMD_WRITE_SECTOR_RETRY = 0x30"

definition disk_of :: "nat \<Rightarrow> nat \<Rightarrow> 'a ide_scheme \<Rightarrow> ata_disk" where
  "disk_of c d s = ata_devices (channels s c) d"

definition upd_channel :: "nat \<Rightarrow> (channel \<Rightarrow> channel) \<Rightarrow> 'a ide_scheme \<Rightarrow> 'a ide_scheme" where
  "upd_channel c f s = s\<lparr>channels := (channels s)(c := f (channels s c))\<rparr>"

definition set_is_ata :: "nat \<Rightarrow> nat \<Rightarrow> bool \<Rightarrow> 'a ide_scheme \<Rightarrow> 'a ide_scheme" where
  "set_is_ata c d v s = upd_channel c (\<lambda>ch. ch\<lparr>ata_devices := (ata_devices ch)(d := (ata_devices ch d)\<lparr>is_ata := v\<rparr>)\<rparr>) s"

section \<open>Waiting\<close>

text \<open>The loop of \<open>wait_until_idle\<close>; \<open>n\<close> rounds are left.\<close>

fun idle_poll :: "('a ide_scheme \<Rightarrow> 'a ide_scheme option) \<Rightarrow> nat \<Rightarrow> nat \<Rightarrow> nat \<Rightarrow> 'a ide_scheme \<Rightarrow> 'a ide_scheme option" where
  "idle_poll run c d 0 s = print (''%s: idle timeout'' @ NL) [ArgString (Some (ata_name (disk_of c d s)))] s"
| "idle_poll run c d (Suc n) s =
     (let (st, s) = inb (reg_status (channels s c)) s in
      if st AND (STA_BSY OR STA_DRQ) = 0 then Some s
      else do { s \<leftarrow> timer_usleep run 10 s; idle_poll run c d n s })"

definition wait_until_idle :: "('a ide_scheme \<Rightarrow> 'a ide_scheme option) \<Rightarrow> nat \<Rightarrow> nat \<Rightarrow> 'a ide_scheme \<Rightarrow> 'a ide_scheme option" where
  "wait_until_idle run c d s = idle_poll run c d 1000 s"

text \<open>The loop of \<open>wait_while_busy\<close> with its counter \<open>3000 - n\<close>.\<close>

fun busy_poll :: "('a ide_scheme \<Rightarrow> 'a ide_scheme option) \<Rightarrow> nat \<Rightarrow> nat \<Rightarrow> nat \<Rightarrow> 'a ide_scheme \<Rightarrow> (bool \<times> 'a ide_scheme) option" where
  "busy_poll run c d 0 s = do { s \<leftarrow> print (''failed'' @ NL) [] s; Some (False, s) }"
| "busy_poll run c d (Suc n) s = do {
     let i = 3000 - Suc n;
     s \<leftarrow> (if i = 700 then print ''%s: busy, waiting...'' [ArgString (Some (ata_name (disk_of c d s)))] s else Some s);
     let (st, s) = inb (reg_alt_status (channels s c)) s;
     if st AND STA_BSY = 0
     then do {
       s \<leftarrow> (if i \<ge> 700 then print (''ok'' @ NL) [] s else Some s);
       let (st, s) = inb (reg_alt_status (channels s c)) s;
       Some (st AND STA_DRQ \<noteq> 0, s) }
     else do { s \<leftarrow> timer_msleep run 10 s; busy_poll run c d n s } }"

definition wait_while_busy :: "('a ide_scheme \<Rightarrow> 'a ide_scheme option) \<Rightarrow> nat \<Rightarrow> nat \<Rightarrow> 'a ide_scheme \<Rightarrow> (bool \<times> 'a ide_scheme) option" where
  "wait_while_busy run c d s = busy_poll run c d 3000 s"

definition select_device :: "('a ide_scheme \<Rightarrow> 'a ide_scheme option) \<Rightarrow> nat \<Rightarrow> nat \<Rightarrow> 'a ide_scheme \<Rightarrow> 'a ide_scheme option" where
  "select_device run c d s = do {
     let dev = (if dev_no (disk_of c d s) = 1 then DEV_MBS OR DEV_DEV else DEV_MBS);
     let s = outb (reg_device (channels s c)) dev s;
     let (_, s) = inb (reg_alt_status (channels s c)) s;
     timer_nsleep run 400 s }"

definition select_device_wait :: "('a ide_scheme \<Rightarrow> 'a ide_scheme option) \<Rightarrow> nat \<Rightarrow> nat \<Rightarrow> 'a ide_scheme \<Rightarrow> 'a ide_scheme option" where
  "select_device_wait run c d s = do {
     s \<leftarrow> wait_until_idle run c d s;
     s \<leftarrow> select_device run c d s;
     wait_until_idle run c d s }"

section \<open>Commands\<close>

text \<open>The writes of \<open>select_sector\<close> once the device is selected: each register is 8 bits wide.\<close>

definition sector_registers :: "channel \<Rightarrow> nat \<Rightarrow> u32 \<Rightarrow> (u16 \<times> u8) list" where
  "sector_registers ch no sec_no =
     [(reg_nsect ch, 1),
      (reg_lbal ch, ucast sec_no),
      (reg_lbam ch, ucast (drop_bit 8 sec_no)),
      (reg_lbah ch, ucast (drop_bit 16 sec_no)),
      (reg_device ch, ucast (ucast DEV_MBS OR ucast DEV_LBA OR (if no = 1 then ucast DEV_DEV else 0) OR drop_bit 24 sec_no :: u32))]"

definition select_sector :: "('a ide_scheme \<Rightarrow> 'a ide_scheme option) \<Rightarrow> nat \<Rightarrow> nat \<Rightarrow> u32 \<Rightarrow> 'a ide_scheme \<Rightarrow> 'a ide_scheme option" where
  "select_sector run c d sec_no s = do {
     ASSERT (sec_no < push_bit 28 1);
     s \<leftarrow> select_device_wait run c d s;
     Some (fold (\<lambda>(p, v). outb p v) (sector_registers (channels s c) (dev_no (disk_of c d s)) sec_no) s) }"

definition issue_pio_command :: "nat \<Rightarrow> u8 \<Rightarrow> 'a ide_scheme \<Rightarrow> 'a ide_scheme option" where
  "issue_pio_command c command s = do {
     ASSERT (int_level s);
     let s = upd_channel c (\<lambda>ch. ch\<lparr>expecting_interrupt := True\<rparr>) s;
     Some (outb (reg_command (channels s c)) command s) }"

definition input_sector :: "nat \<Rightarrow> 'a ide_scheme \<Rightarrow> u8 list \<times> 'a ide_scheme" where
  "input_sector c s = insw (reg_data (channels s c)) (BLOCK_SECTOR_SIZE div 2) s"

definition output_sector :: "nat \<Rightarrow> u8 list \<Rightarrow> 'a ide_scheme \<Rightarrow> 'a ide_scheme" where
  "output_sector c sector s = outsw (reg_data (channels s c)) (take BLOCK_SECTOR_SIZE sector) s"

text \<open>A thread in a semaphore or a lock: it runs again when the operation is complete.\<close>

definition await_completion :: "('a ide_scheme \<Rightarrow> 'a ide_scheme option) \<Rightarrow> nat \<Rightarrow> 'a ide_scheme \<Rightarrow> 'a ide_scheme option" where
  "await_completion run c s = do { k \<leftarrow> sema_down (kern s) (completion_wait (channels s c)); run (s\<lparr>kern := k\<rparr>) }"

definition lock_channel :: "('a ide_scheme \<Rightarrow> 'a ide_scheme option) \<Rightarrow> nat \<Rightarrow> 'a ide_scheme \<Rightarrow> 'a ide_scheme option" where
  "lock_channel run c s = do { k \<leftarrow> lock_acquire (kern s) (ch_lock (channels s c)); run (s\<lparr>kern := k\<rparr>) }"

definition unlock_channel :: "('a ide_scheme \<Rightarrow> 'a ide_scheme option) \<Rightarrow> nat \<Rightarrow> 'a ide_scheme \<Rightarrow> 'a ide_scheme option" where
  "unlock_channel run c s = do { k \<leftarrow> lock_release (kern s) (ch_lock (channels s c)); run (s\<lparr>kern := k\<rparr>) }"

definition ide_read :: "('a ide_scheme \<Rightarrow> 'a ide_scheme option) \<Rightarrow> nat \<Rightarrow> nat \<Rightarrow> u32 \<Rightarrow> 'a ide_scheme \<Rightarrow> (u8 list \<times> 'a ide_scheme) option" where
  "ide_read run c d sec_no s = do {
     s \<leftarrow> lock_channel run c s;
     s \<leftarrow> select_sector run c d sec_no s;
     s \<leftarrow> issue_pio_command c CMD_READ_SECTOR_RETRY s;
     s \<leftarrow> await_completion run c s;
     (ok, s) \<leftarrow> wait_while_busy run c d s;
     ASSERT ok;
     let (buffer, s) = input_sector c s;
     s \<leftarrow> unlock_channel run c s;
     Some (buffer, s) }"

definition ide_write :: "('a ide_scheme \<Rightarrow> 'a ide_scheme option) \<Rightarrow> nat \<Rightarrow> nat \<Rightarrow> u32 \<Rightarrow> u8 list \<Rightarrow> 'a ide_scheme \<Rightarrow> 'a ide_scheme option" where
  "ide_write run c d sec_no buffer s = do {
     s \<leftarrow> lock_channel run c s;
     s \<leftarrow> select_sector run c d sec_no s;
     s \<leftarrow> issue_pio_command c CMD_WRITE_SECTOR_RETRY s;
     (ok, s) \<leftarrow> wait_while_busy run c d s;
     ASSERT ok;
     let s = output_sector c buffer s;
     s \<leftarrow> await_completion run c s;
     unlock_channel run c s }"

section \<open>The interrupt handler\<close>

fun find_channel :: "u8 \<Rightarrow> nat list \<Rightarrow> 'a ide_scheme \<Rightarrow> nat option" where
  "find_channel vec [] s = None"
| "find_channel vec (c # cs) s = (if vec = irq (channels s c) then Some c else find_channel vec cs s)"

definition interrupt_handler :: "u8 \<Rightarrow> 'a ide_scheme \<Rightarrow> 'a ide_scheme option" where
  "interrupt_handler vec s = do {
     c \<leftarrow> find_channel vec [0..<CHANNEL_CNT] s;
     if expecting_interrupt (channels s c)
     then do {
       let (_, s) = inb (reg_status (channels s c)) s;
       k \<leftarrow> sema_up (kern s) (completion_wait (channels s c));
       Some (s\<lparr>kern := k\<rparr>) }
     else print (''%s: unexpected interrupt'' @ NL) [ArgString (Some (ch_name (channels s c)))] s }"

section \<open>Detection of the disks\<close>

text \<open>Whether the registers of device \<open>d\<close> keep what is written to them.\<close>

definition probe_device :: "('a ide_scheme \<Rightarrow> 'a ide_scheme option) \<Rightarrow> nat \<Rightarrow> nat \<Rightarrow> 'a ide_scheme \<Rightarrow> (bool \<times> 'a ide_scheme) option" where
  "probe_device run c d s = do {
     s \<leftarrow> select_device run c d s;
     let ch = channels s c;
     let s = fold (\<lambda>(p, v). outb p v)
       [(reg_nsect ch, 0x55), (reg_lbal ch, 0xaa), (reg_nsect ch, 0xaa), (reg_lbal ch, 0x55),
        (reg_nsect ch, 0x55), (reg_lbal ch, 0xaa)] s;
     let (a, s) = inb (reg_nsect ch) s;
     if a \<noteq> 0x55 then Some (False, s)
     else let (b, s) = inb (reg_lbal ch) s in Some (b = 0xaa, s) }"

fun slave_poll :: "('a ide_scheme \<Rightarrow> 'a ide_scheme option) \<Rightarrow> nat \<Rightarrow> nat \<Rightarrow> 'a ide_scheme \<Rightarrow> 'a ide_scheme option" where
  "slave_poll run c 0 s = Some s"
| "slave_poll run c (Suc n) s =
     (let (a, s) = inb (reg_nsect (channels s c)) s in
      if a = 1
      then (let (b, s) = inb (reg_lbal (channels s c)) s in
            if b = 1 then Some s else do { s \<leftarrow> timer_msleep run 10 s; slave_poll run c n s })
      else do { s \<leftarrow> timer_msleep run 10 s; slave_poll run c n s })"

definition reset_channel :: "('a ide_scheme \<Rightarrow> 'a ide_scheme option) \<Rightarrow> nat \<Rightarrow> 'a ide_scheme \<Rightarrow> 'a ide_scheme option" where
  "reset_channel run c s = do {
     (present0, s) \<leftarrow> probe_device run c 0 s;
     (present1, s) \<leftarrow> probe_device run c 1 s;
     let ctl = reg_ctl (channels s c);
     s \<leftarrow> timer_usleep run 10 (outb ctl 0 s);
     s \<leftarrow> timer_usleep run 10 (outb ctl CTL_SRST s);
     s \<leftarrow> timer_msleep run 150 (outb ctl 0 s);
     s \<leftarrow> (if present0
       then do { s \<leftarrow> select_device run c 0 s; (_, s) \<leftarrow> wait_while_busy run c 0 s; Some s }
       else Some s);
     if present1
     then do {
       s \<leftarrow> select_device run c 1 s;
       s \<leftarrow> slave_poll run c 3000 s;
       (_, s) \<leftarrow> wait_while_busy run c 1 s;
       Some s }
     else Some s }"

definition check_device_type :: "('a ide_scheme \<Rightarrow> 'a ide_scheme option) \<Rightarrow> nat \<Rightarrow> nat \<Rightarrow> 'a ide_scheme \<Rightarrow> (bool \<times> 'a ide_scheme) option" where
  "check_device_type run c d s = do {
     s \<leftarrow> select_device run c d s;
     let ch = channels s c;
     let (error, s) = inb (reg_error ch) s;
     let (lbam, s) = inb (reg_lbam ch) s;
     let (lbah, s) = inb (reg_lbah ch) s;
     let (status, s) = inb (reg_status ch) s;
     if (error \<noteq> 1 \<and> (error \<noteq> 0x81 \<or> dev_no (disk_of c d s) = 1)) \<or> status AND STA_DRDY = 0 \<or> status AND STA_BSY \<noteq> 0
     then Some (error \<noteq> 0x81, set_is_ata c d False s)
     else Some (True, set_is_ata c d ((lbam = 0 \<and> lbah = 0) \<or> (lbam = 0x3c \<and> lbah = 0xc3)) s) }"

section \<open>Identification\<close>

fun swap_pairs :: "u8 list \<Rightarrow> u8 list" where
  "swap_pairs (a # b # xs) = b # a # swap_pairs xs"
| "swap_pairs xs = xs"

text \<open>The index where the terminating null goes: the loop of \<open>descramble_ata_string\<close> from \<open>n\<close> down.\<close>

fun string_end :: "u8 list \<Rightarrow> nat \<Rightarrow> nat" where
  "string_end xs 0 = 0"
| "string_end xs (Suc n) =
     (let c = sint (scast (xs ! n) :: u32) in if c \<noteq> 0 \<and> \<not> isspace c then Suc n else string_end xs n)"

definition descramble_ata_string :: "u8 list \<Rightarrow> u8 list" where
  "descramble_ata_string string =
     (let string = swap_pairs string;
          sz = string_end string (length string - 1)
      in string[sz := 0])"

text \<open>The characters of a buffer up to its first null byte.\<close>

definition buffer_string :: "u8 list \<Rightarrow> string" where
  "buffer_string bs = chars_of (takeWhile (\<lambda>b. b \<noteq> 0) bs)"

definition identify_ata_device :: "('a ide_scheme \<Rightarrow> 'a ide_scheme option) \<Rightarrow> nat \<Rightarrow> nat \<Rightarrow> 'a ide_scheme \<Rightarrow> 'a ide_scheme option" where
  "identify_ata_device run c d s = do {
     ASSERT (is_ata (disk_of c d s));
     s \<leftarrow> select_device_wait run c d s;
     s \<leftarrow> issue_pio_command c CMD_IDENTIFY_DEVICE s;
     s \<leftarrow> await_completion run c s;
     (ok, s) \<leftarrow> wait_while_busy run c d s;
     if \<not> ok then Some (set_is_ata c d False s)
     else do {
       let (id, s) = input_sector c s;
       let capacity = get32 id (60 * 2);
       let model = buffer_string (descramble_ata_string (take 20 (drop (10 * 2) id)));
       let serial = buffer_string (descramble_ata_string (take 40 (drop (27 * 2) id)));
       extra_info \<leftarrow> string_printf 128 ''model \"%s\", serial \"%s\"'' [ArgString (Some model), ArgString (Some serial)];
       if capacity \<ge> 1024 * 1024 * 1024 div BLOCK_SECTOR_SIZE
       then do {
         s \<leftarrow> print ''%s: ignoring '' [ArgString (Some (ata_name (disk_of c d s)))] s;
         out \<leftarrow> print_human_readable_size (ucast (of_nat capacity * 512 :: u32));
         s \<leftarrow> print (''disk for safety'' @ NL) [] (s\<lparr>printed := printed s @ out\<rparr>);
         Some (set_is_ata c d False s) }
       else do {
         (blk, b) \<leftarrow> block_register (ata_name (disk_of c d s)) BLOCK_RAW (Some extra_info) capacity (Disk (2 * c + d)) (blocks s);
         b \<leftarrow> partition_scan blk b;
         Some (s\<lparr>blocks := b\<rparr>) } } }"

definition init_channel :: "(nat \<Rightarrow> u32) \<Rightarrow> ('a ide_scheme \<Rightarrow> 'a ide_scheme option) \<Rightarrow> nat \<Rightarrow> 'a ide_scheme \<Rightarrow> 'a ide_scheme option" where
  "init_channel intr_stubs run c s = do {
     nm \<leftarrow> string_printf 8 ''ide%zu'' [Arg32 (of_nat c)];
     da \<leftarrow> string_printf 8 ''hd%c'' [Arg32 (97 + of_nat c * 2 + 0)];
     db \<leftarrow> string_printf 8 ''hd%c'' [Arg32 (97 + of_nat c * 2 + 1)];
     let s = upd_channel c (\<lambda>ch. ch\<lparr>ch_name := nm, reg_base := (if c = 0 then 0x1f0 else 0x170),
       irq := (if c = 0 then 14 + 0x20 else 15 + 0x20), expecting_interrupt := False,
       ata_devices := (\<lambda>d. \<lparr>ata_name = (if d = 0 then da else db), dev_no = d, is_ata = False\<rparr>)\<rparr>) s;
     let k = lock_init (kern s) (ch_lock (channels s c));
     let s = s\<lparr>kern := sema_init k (completion_wait (channels s c)) 0\<rparr>;
     s \<leftarrow> intr_register_ext intr_stubs (irq (channels s c)) ide_handler nm s;
     s \<leftarrow> reset_channel run c s;
     (maybe_slave, s) \<leftarrow> check_device_type run c 0 s;
     s \<leftarrow> (if maybe_slave then do { (_, s) \<leftarrow> check_device_type run c 1 s; Some s } else Some s);
     s \<leftarrow> (if is_ata (disk_of c 0 s) then identify_ata_device run c 0 s else Some s);
     if is_ata (disk_of c 1 s) then identify_ata_device run c 1 s else Some s }"

definition ide_init :: "(nat \<Rightarrow> u32) \<Rightarrow> ('a ide_scheme \<Rightarrow> 'a ide_scheme option) \<Rightarrow> 'a ide_scheme \<Rightarrow> 'a ide_scheme option" where
  "ide_init intr_stubs run s = foldM (init_channel intr_stubs run) [0..<CHANNEL_CNT] s"

section \<open>Sector addresses\<close>

lemma fold_outb: "port_out (fold (\<lambda>(p, v). outb p v) ws s) = port_out s @ map (\<lambda>(p, v). (p, ucast v)) ws"
  by (induction ws arbitrary: s) (auto simp: outb_def outl_def)

lemma byte_of_word: "unat (ucast (drop_bit k (w :: u32)) :: u8) = unat w div 2 ^ k mod 256"
proof -
  have "unat (ucast (drop_bit k w) :: u8) = take_bit 8 (unat (drop_bit k w))" by (simp add: unsigned_ucast_eq)
  also have "unat (drop_bit k w) = unat w div 2 ^ k"
    unfolding unsigned_drop_bit_eq using unat_u32_lt [of w] by (simp add: drop_bit_eq_div take_bit_nat_eq_self)
  finally show ?thesis by (simp add: take_bit_eq_mod)
qed

lemma split_sector: "n = n mod 256 + 256 * (n div 256 mod 256) + 65536 * (n div 65536 mod 256) + 16777216 * (n div 16777216)"
  for n :: nat
proof -
  have "n div 65536 = n div 256 div 256" "n div 16777216 = n div 65536 div 256"
    by (simp_all add: div_mult2_eq [symmetric])
  then show ?thesis
    using div_mult_mod_eq [of n 256] div_mult_mod_eq [of "n div 256" 256] div_mult_mod_eq [of "n div 65536" 256] by linarith
qed

lemma device_register:
  fixes sec_no :: u32 and p :: bool
  assumes "sec_no < push_bit 28 1"
  defines "g \<equiv> ucast (ucast DEV_MBS OR ucast DEV_LBA OR (if p then ucast DEV_DEV else 0) OR drop_bit 24 sec_no :: u32) :: u8"
  shows "unat (g AND 0x0f) = unat sec_no div 2 ^ 24" "bit g 4 \<longleftrightarrow> p" "bit g 6"
proof -
  let ?k = "DEV_MBS OR DEV_LBA OR (if p then DEV_DEV else 0)"
  have small: "unat sec_no div 2 ^ 24 < 16" using assms(1) by (simp add: word_less_nat_alt less_mult_imp_div_less)
  have d: "unat (ucast (drop_bit 24 sec_no) :: u8) = unat sec_no div 2 ^ 24" using byte_of_word [of 24 sec_no] small by simp
  let ?d = "ucast (drop_bit 24 sec_no) :: u8"
  have g: "g = ?k OR ?d" unfolding g_def by (rule bit_eqI) (auto simp: bit_simps)
  have low: "?d AND 0x0f = ?d"
  proof -
    have "unat (take_bit 4 ?d) = unat ?d mod 16" unfolding unsigned_take_bit_eq by (simp add: take_bit_eq_mod)
    then have "take_bit 4 ?d = ?d" using small d by (simp add: word_unat_eq_iff)
    then show ?thesis by (simp add: take_bit_eq_mask mask_eq_exp_minus_1)
  qed
  have dis: "(?k OR ?d) AND 0x0f = (?k AND 0x0f) OR (?d AND 0x0f)" by (rule bit_eqI) (auto simp: bit_simps)
  have "?k AND 0x0f = 0" by (simp add: DEV_MBS_def DEV_LBA_def DEV_DEV_def)
  then show "unat (g AND 0x0f) = unat sec_no div 2 ^ 24" unfolding g dis using low d by simp
  have "\<not> bit ?d n" if "4 \<le> n" for n
  proof -
    have "take_bit 4 ?d = ?d" using low by (simp add: take_bit_eq_mask mask_eq_exp_minus_1)
    then show ?thesis using that by (metis bit_take_bit_iff not_le)
  qed
  from this [of 4] this [of 6] have "\<not> bit ?d 4" "\<not> bit ?d 6" by simp_all
  then show "bit g 4 \<longleftrightarrow> p" "bit g 6"
    unfolding g by (auto simp: bit_or_iff DEV_MBS_def DEV_LBA_def DEV_DEV_def bit_numeral_rec)
qed

text \<open>C21:
  \<open>select_sector\<close> addresses the sector it is asked for: once the device is idle and selected, it
  writes the five registers in order, and a controller that reads them back as ATA defines them, a
  count of one and a 28-bit linear address from the three address registers and the low half of the
  device register, finds exactly \<open>sec_no\<close>, in linear mode, on the device of the disk.\<close>

theorem select_sector_addresses:
  assumes "sec_no < push_bit 28 1" "select_device_wait run c d s = Some s1"
  shows "\<exists>s2 x y z g. select_sector run c d sec_no s = Some s2 \<and>
    port_out s2 = port_out s1 @ map (\<lambda>(p, v). (p, ucast v)) [(reg_nsect (channels s1 c), 1), (reg_lbal (channels s1 c), x),
      (reg_lbam (channels s1 c), y), (reg_lbah (channels s1 c), z), (reg_device (channels s1 c), g :: u8)] \<and>
    unat sec_no = unat x + 2 ^ 8 * unat y + 2 ^ 16 * unat z + 2 ^ 24 * unat (g AND 0x0f) \<and>
    (bit g 4 \<longleftrightarrow> dev_no (disk_of c d s1) = 1) \<and> bit g 6"
proof -
  let ?ws = "sector_registers (channels s1 c) (dev_no (disk_of c d s1)) sec_no"
  let ?g = "ucast (ucast DEV_MBS OR ucast DEV_LBA OR (if dev_no (disk_of c d s1) = 1 then ucast DEV_DEV else 0) OR drop_bit 24 sec_no :: u32) :: u8"
  note G = device_register [OF assms(1), of "dev_no (disk_of c d s1) = 1"]
  have "select_sector run c d sec_no s = Some (fold (\<lambda>(p, v). outb p v) ?ws s1)"
    using assms by (simp add: select_sector_def kassert_simps)
  moreover have "unat sec_no = unat (ucast sec_no :: u8) + 2 ^ 8 * unat (ucast (drop_bit 8 sec_no) :: u8) +
      2 ^ 16 * unat (ucast (drop_bit 16 sec_no) :: u8) + 2 ^ 24 * unat (?g AND 0x0f)"
    using split_sector [of "unat sec_no"] byte_of_word [of 0 sec_no] byte_of_word [of 8 sec_no] byte_of_word [of 16 sec_no] G(1)
    by simp
  ultimately show ?thesis using G(2,3)
    by (intro exI [of _ "fold (\<lambda>(p, v). outb p v) ?ws s1"] exI [of _ "ucast sec_no"] exI [of _ "ucast (drop_bit 8 sec_no)"]
        exI [of _ "ucast (drop_bit 16 sec_no)"] exI [of _ ?g]) (simp only: fold_outb sector_registers_def)
qed

text \<open>One idle controller and thread that may sleep.\<close>

definition demo_ide :: ide where
  "demo_ide = (undefined :: ide)\<lparr>kern := (undefined :: sync)\<lparr>intr_on := True\<rparr>, port_in := (\<lambda>_ _. 0), port_reads := 0,
     port_out := [], loops_per_tick := 0,
     channels := (\<lambda>_. \<lparr>ch_name = ''ide0'', reg_base = 0x1f0, irq = 0x2e, ch_lock = Mutex 0, expecting_interrupt = True,
       completion_wait = Sem 0, ata_devices = (\<lambda>d. \<lparr>ata_name = ''hda'', dev_no = d, is_ata = True\<rparr>)\<rparr>)\<rparr>"

lemma quiet_ports_idle:
  assumes "port_in s = (\<lambda>_ _. 0)"
  shows "wait_until_idle run c d s = Some (s\<lparr>port_reads := port_reads s + 1\<rparr>)"
  using assms by (simp add: wait_until_idle_def numeral_eq_Suc inb_def inl_def Let_def)

lemma short_sleep: "int_level s \<Longrightarrow> loops_per_tick s = 0 \<Longrightarrow> timer_nsleep run 400 s = Some s"
  by (simp add: timer_nsleep_def real_time_sleep_def fits64_def real_time_delay_def delay_loops_def TIMER_FREQ_def
      signed_divide_int_def signed_modulo_int_def kassert_simps)

lemma demo_ide_ready: "\<exists>s. select_device_wait Some 0 1 demo_ide = Some s"
proof -
  have q: "port_in demo_ide = (\<lambda>_ _. 0)" "int_level demo_ide" "loops_per_tick demo_ide = 0"
    by (simp_all add: demo_ide_def int_level_def intr_get_level_def)
  have sel: "\<exists>s'. select_device Some c d s = Some s' \<and> port_in s' = (\<lambda>_ _. 0)"
    if "port_in s = (\<lambda>_ _. 0)" "int_level s" "loops_per_tick s = 0" for c d and s :: ide
    using that short_sleep [where s = "(outb p v s)\<lparr>port_reads := r\<rparr>" for p v r]
    by (auto simp: select_device_def inb_def inl_def outb_def outl_def Let_def int_level_def)
  obtain s' where "select_device Some 0 1 (demo_ide\<lparr>port_reads := port_reads demo_ide + 1\<rparr>) = Some s'" "port_in s' = (\<lambda>_ _. 0)"
    using sel [of "demo_ide\<lparr>port_reads := port_reads demo_ide + 1\<rparr>"] q by (auto simp: int_level_def)
  then show ?thesis using quiet_ports_idle [OF q(1)] quiet_ports_idle [of s'] by (simp add: select_device_wait_def)
qed

lemma select_sector_addresses_witness:
  "\<exists>s2 (x :: u8) (y :: u8) (z :: u8) g. select_sector Some 0 1 0x1234567 demo_ide = Some s2 \<and>
    0x1234567 = unat x + 2 ^ 8 * unat y + 2 ^ 16 * unat z + 2 ^ 24 * unat (g AND 0x0f :: u8)"
proof -
  obtain s where sel: "select_device_wait Some 0 1 demo_ide = Some s" using demo_ide_ready by blast
  have b: "(0x1234567 :: u32) < push_bit 28 1" by simp
  obtain s2 and x y z g :: u8 where "select_sector Some 0 1 0x1234567 demo_ide = Some s2"
    "unat (0x1234567 :: u32) = unat x + 2 ^ 8 * unat y + 2 ^ 16 * unat z + 2 ^ 24 * unat (g AND 0x0f)"
    using select_sector_addresses [OF b sel] by blast
  then show ?thesis by (intro exI [of _ s2] exI [of _ x] exI [of _ y] exI [of _ z] exI [of _ g]) simp
qed

section \<open>Interrupts nobody waits for\<close>

lemma sema_up_nobody:
  assumes "waiters (semas s m) = []" "\<not> intr_get_level s"
  shows "\<exists>s'. sema_up s m = Some s' \<and> semas s' m = (semas s m)\<lparr>sem_value := sem_value (semas s m) + 1\<rparr> \<and> \<not> intr_get_level s'"
  using assms by (simp add: sema_up_def intr_disable_def intr_set_level_def intr_get_level_def set_sem_def Let_def)

text \<open>C22:
  Spurious interrupts are taken for completions. \<open>expecting_interrupt\<close> is meant to tell an expected
  interrupt from a spurious one, but it is set with every command and never cleared: after one
  command, two interrupts of the channel both raise the semaphore that nobody waits for, by two in
  all, so the next commands do not wait for their own completion.\<close>

theorem spurious_interrupt_counted:
  assumes c: "find_channel vec [0..<CHANNEL_CNT] s = Some c" "expecting_interrupt (channels s c)"
    and sem: "waiters (semas (kern s) (completion_wait (channels s c))) = []" "\<not> int_level s"
  shows "\<exists>s1 s2. interrupt_handler vec s = Some s1 \<and> interrupt_handler vec s1 = Some s2 \<and>
    sem_value (semas (kern s2) (completion_wait (channels s c))) = sem_value (semas (kern s) (completion_wait (channels s c))) + 2"
proof -
  let ?m = "completion_wait (channels s c)"
  have fc: "find_channel vec cs s' = find_channel vec cs s" if "channels s' = channels s" for cs s'
    using that by (induction cs) auto
  have step: "\<exists>s''. interrupt_handler vec s' = Some s'' \<and> channels s'' = channels s \<and> \<not> intr_get_level (kern s'') \<and>
      semas (kern s'') ?m = (semas (kern s') ?m)\<lparr>sem_value := sem_value (semas (kern s') ?m) + 1\<rparr>"
    if s': "channels s' = channels s" "\<not> intr_get_level (kern s')" "waiters (semas (kern s') ?m) = []" for s'
  proof -
    have k: "kern (snd (inb p s')) = kern s'" "channels (snd (inb p s')) = channels s'" for p
      by (simp_all add: inb_def inl_def)
    obtain k' where "sema_up (kern s') ?m = Some k'" "semas k' ?m = (semas (kern s') ?m)\<lparr>sem_value := sem_value (semas (kern s') ?m) + 1\<rparr>"
      "\<not> intr_get_level k'" using sema_up_nobody [OF s'(3,2)] by blast
    then show ?thesis
      using c fc [OF s'(1)] s'(1) k by (simp add: interrupt_handler_def case_prod_beta Let_def)
  qed
  obtain s1 where s1: "interrupt_handler vec s = Some s1" "channels s1 = channels s" "\<not> intr_get_level (kern s1)"
    "semas (kern s1) ?m = (semas (kern s) ?m)\<lparr>sem_value := sem_value (semas (kern s) ?m) + 1\<rparr>"
    using step [of s] sem by (auto simp: int_level_def)
  obtain s2 where "interrupt_handler vec s1 = Some s2"
    "semas (kern s2) ?m = (semas (kern s1) ?m)\<lparr>sem_value := sem_value (semas (kern s1) ?m) + 1\<rparr>"
    using step [OF s1(2,3)] s1(4) sem(1) by auto
  then show ?thesis using s1(1,4) by auto
qed

lemma spurious_interrupt_counted_witness:
  "\<exists>s0 s1 s2. interrupt_handler 0x2e (s0 :: ide) = Some s1 \<and> interrupt_handler 0x2e s1 = Some s2 \<and>
    sem_value (semas (kern s0) (Sem 0)) = 0 \<and> sem_value (semas (kern s2) (Sem 0)) = 2"
proof -
  let ?s = "demo_ide\<lparr>kern := (undefined :: sync)\<lparr>intr_on := False, semas := (\<lambda>_. \<lparr>sem_value = 0, waiters = []\<rparr>)\<rparr>\<rparr>"
  have "find_channel 0x2e [0..<CHANNEL_CNT] ?s = Some 0" by (simp add: CHANNEL_CNT_def upt_rec demo_ide_def)
  moreover have "expecting_interrupt (channels ?s 0)" "completion_wait (channels ?s 0) = Sem 0" by (simp_all add: demo_ide_def)
  moreover have "waiters (semas (kern ?s) (Sem 0)) = []" "sem_value (semas (kern ?s) (Sem 0)) = 0" "\<not> int_level ?s"
    by (simp_all add: int_level_def intr_get_level_def)
  ultimately obtain s1 s2 where "interrupt_handler 0x2e ?s = Some s1" "interrupt_handler 0x2e s1 = Some s2"
    "sem_value (semas (kern s2) (Sem 0)) = 2"
    using spurious_interrupt_counted [of "0x2e" ?s 0] by auto
  then show ?thesis using \<open>sem_value (semas (kern ?s) (Sem 0)) = 0\<close> by blast
qed

section \<open>Strings of a disk\<close>

definition blank :: "u8 \<Rightarrow> bool" where
  "blank b \<longleftrightarrow> b = 0 \<or> isspace (sint (scast b :: u32))"

lemma string_end_spec:
  "string_end xs n \<le> n" "\<forall>i. string_end xs n \<le> i \<longrightarrow> i < n \<longrightarrow> blank (xs ! i)"
  "string_end xs n \<noteq> 0 \<longrightarrow> \<not> blank (xs ! (string_end xs n - 1))"
proof (induction n)
  case (Suc n)
  have z: "sint (scast b :: u32) = 0 \<longleftrightarrow> b = 0" for b :: u8
  proof -
    have "sint (scast b :: u32) = sint b" by (rule sint_up_scast) (simp add: is_up.rep_eq)
    then show ?thesis by (metis signed_0 signed_word_eqI)
  qed
  {
    case 1 show ?case using Suc(1) by (auto simp: Let_def)
  next
    case 2 show ?case using Suc(2) by (auto simp: Let_def blank_def z less_Suc_eq)
  next
    case 3 show ?case using Suc(3) by (auto simp: Let_def blank_def z)
  }
qed simp_all

text \<open>
  The string that \<open>descramble_ata_string\<close> leaves is the longest part of the swapped bytes, without the
  last of them, that does not end in a blank. The last byte is lost even when it is not blank.
\<close>

lemma length_swap_pairs [simp]: "length (swap_pairs xs) = length xs"
  by (induction xs rule: swap_pairs.induct) auto

lemma descramble_ata_string_spec:
  assumes "xs \<noteq> []"
  shows "\<exists>m < length xs. descramble_ata_string xs = (swap_pairs xs)[m := 0] \<and>
    (\<forall>i. m \<le> i \<longrightarrow> i < length xs - 1 \<longrightarrow> blank (swap_pairs xs ! i)) \<and> (m \<noteq> 0 \<longrightarrow> \<not> blank (swap_pairs xs ! (m - 1)))"
proof -
  note S = string_end_spec [of "swap_pairs xs" "length xs - 1"]
  have "string_end (swap_pairs xs) (length xs - 1) < length xs" using S(1) assms by (cases xs) auto
  then show ?thesis using S(2,3) by (intro exI [of _ "string_end (swap_pairs xs) (length xs - 1)"]) (simp add: descramble_ata_string_def Let_def)
qed

end
