(* ===== verification/Kernel_Paging.thy ===== *)
theory Kernel_Paging
  imports Kernel_Address_Space
begin

text \<open>
  The base page directory: \<open>paging_init\<close> of \<open>threads/init.c\<close>, which maps all of memory above
  \<open>PHYS_BASE\<close> and makes the kernel's code read-only. The addresses \<open>_start\<close> and \<open>_end_kernel_text\<close>
  of the linker are parameters.
\<close>

section \<open>paging_init\<close>

text \<open>The loop, with the number of pages that are left, the page and the last page table.\<close>

fun paging_loop :: "u32 \<Rightarrow> u32 \<Rightarrow> nat \<Rightarrow> nat \<Rightarrow> u32 \<Rightarrow> vm \<Rightarrow> vm option" where
  "paging_loop start end_text 0 page pt s = Some s"
| "paging_loop start end_text (Suc n) page pt s = do {
     vaddr \<leftarrow> ptov (of_nat (page * PGSIZE));
     let in_kernel_text = (start \<le> vaddr \<and> vaddr < end_text);
     let pde = init_page_dir s + 4 * pd_no vaddr;
     (pt, s) \<leftarrow>
       (if vm_load s pde = 0
        then do {
          (pt, fr) \<leftarrow> palloc_get_page (frames s) (PAL_ASSERT OR PAL_ZERO);
          let s = s\<lparr>frames := fr\<rparr>;
          e \<leftarrow> pde_create pt;
          Some (pt, vm_store s pde e) }
        else Some (pt, s));
     e \<leftarrow> pte_create_kernel vaddr (\<not> in_kernel_text);
     paging_loop start end_text n (page + 1) pt (vm_store s (pt + 4 * pt_no vaddr) e) }"

definition paging_init :: "u32 \<Rightarrow> u32 \<Rightarrow> vm \<Rightarrow> vm option" where
  "paging_init start end_text s = do {
     (pd, fr) \<leftarrow> palloc_get_page (frames s) (PAL_ASSERT OR PAL_ZERO);
     let s = s\<lparr>frames := fr, init_page_dir := pd\<rparr>;
     s \<leftarrow> paging_loop start end_text (unat (init_ram_pages s)) 0 0 s;
     p \<leftarrow> vtop (init_page_dir s);
     Some (s\<lparr>cr3 := p, tlb_flushes := tlb_flushes s + 1\<rparr>) }"

section \<open>A page for the kernel\<close>

lemma kernel_zero_page:
  fixes s :: vm
  assumes inv: "palloc_inv (frames s)" and free: "0 < kernel_free s"
  obtains pt fr where "palloc_get_page (frames s) (PAL_ASSERT OR PAL_ZERO) = Some (pt, fr)" "zero_page s pt fr"
proof -
  have f: "(PAL_ASSERT OR PAL_ZERO) AND PAL_USER = 0" "(PAL_ASSERT OR PAL_ZERO) AND PAL_ZERO \<noteq> 0"
    by (simp_all add: PAL_ASSERT_def PAL_ZERO_def PAL_USER_def)
  show ?thesis by (rule get_zero_page [OF inv f]) (use free that in auto)
qed

section \<open>The tables and their entries\<close>

text \<open>The number of a page of physical memory by its kernel address, and its entry.\<close>

definition pgn :: "u32 \<Rightarrow> nat" where
  "pgn v = (unat v - 0xc0000000) div 4096"

definition kernel_page :: "nat \<Rightarrow> u32" where
  "kernel_page m = of_nat (m * PGSIZE) + PHYS_BASE"

definition in_text :: "u32 \<Rightarrow> u32 \<Rightarrow> nat \<Rightarrow> bool" where
  "in_text start end_text m \<longleftrightarrow> start \<le> kernel_page m \<and> kernel_page m < end_text"

definition kernel_entry :: "u32 \<Rightarrow> u32 \<Rightarrow> nat \<Rightarrow> u32" where
  "kernel_entry start end_text m = of_nat (m * PGSIZE) OR PTE_P OR (if in_text start end_text m then 0 else PTE_W)"

text \<open>
  The page directory \<open>pd\<close> with the tables for the first \<open>t\<close> pages and the entries of the first
  \<open>n\<close>.
\<close>

definition tables_upto :: "vm \<Rightarrow> u32 \<Rightarrow> nat \<Rightarrow> bool" where
  "tables_upto s pd t \<longleftrightarrow> palloc_inv (frames s) \<and> PHYS_BASE \<le> pool_base (kernel_frames s) \<and> used_page s pd \<and>
     (\<forall>v. pde_at s pd v \<noteq> 0 \<longleftrightarrow> PHYS_BASE \<le> v \<and> pgn v div 1024 * 1024 < t) \<and>
     (\<forall>v. pde_at s pd v \<noteq> 0 \<longrightarrow> used_page s (pt_of (pde_at s pd v)) \<and> pt_of (pde_at s pd v) \<noteq> pd) \<and>
     (\<forall>v w. pde_at s pd v \<noteq> 0 \<longrightarrow> pde_at s pd w \<noteq> 0 \<longrightarrow> pd_no v \<noteq> pd_no w \<longrightarrow>
       pt_of (pde_at s pd v) \<noteq> pt_of (pde_at s pd w))"

definition entries_upto :: "u32 \<Rightarrow> u32 \<Rightarrow> vm \<Rightarrow> u32 \<Rightarrow> nat \<Rightarrow> bool" where
  "entries_upto start end_text s pd n \<longleftrightarrow>
     (\<forall>v. pde_at s pd v \<noteq> 0 \<longrightarrow> pte_at s pd v = (if pgn v < n then kernel_entry start end_text (pgn v) else 0))"

lemma kernel_page_facts:
  assumes "m < 0x40000"
  shows "unat (kernel_page m) = 0xc0000000 + 4096 * m" "PHYS_BASE \<le> kernel_page m" "pgn (kernel_page m) = m"
    "pg_ofs (kernel_page m) = 0" "ptov (of_nat (m * PGSIZE)) = Some (kernel_page m)"
    "pte_create_kernel (kernel_page m) (\<not> in_text start end_text m) = Some (kernel_entry start end_text m)"
proof -
  have u: "unat (of_nat (m * PGSIZE) :: u32) = 4096 * m" using assms by (simp add: PGSIZE_def unat_of_nat_small del: of_nat_mult)
  show k: "unat (kernel_page m) = 0xc0000000 + 4096 * m"
    unfolding kernel_page_def using assms u unat_add_small [of "of_nat (m * PGSIZE)" PHYS_BASE]
    by (simp add: PHYS_BASE_def)
  then show "PHYS_BASE \<le> kernel_page m" "pgn (kernel_page m) = m"
    by (simp_all add: word_le_nat_alt PHYS_BASE_def pgn_def)
  have "0xc0000000 + 4096 * m = 4096 * (0xc0000 + m)" by simp
  then show o: "pg_ofs (kernel_page m) = 0" unfolding pg_aligned_iff k PGSIZE_def by (metis dvd_triv_left)
  show "ptov (of_nat (m * PGSIZE)) = Some (kernel_page m)"
    using assms u by (simp add: ptov_def word_less_nat_alt kernel_page_def) (simp add: PHYS_BASE_def)
  have "vtop (kernel_page m) = Some (of_nat (m * PGSIZE))"
    using vtop_page(1) [OF o \<open>PHYS_BASE \<le> kernel_page m\<close>] by (simp add: kernel_page_def)
  then show "pte_create_kernel (kernel_page m) (\<not> in_text start end_text m) = Some (kernel_entry start end_text m)"
    using o by (simp add: pte_create_kernel_def kernel_entry_def or.assoc)
qed

lemma kernel_address_index:
  assumes "PHYS_BASE \<le> v"
  shows "unat (pd_no v) = 768 + pgn v div 1024" "unat (pt_no v) = pgn v mod 1024" "pgn v < 0x40000"
    "pg_round_down v = kernel_page (pgn v)"
proof -
  obtain d where d: "unat v = 0xc0000000 + d" using assms by (auto simp: word_le_nat_alt PHYS_BASE_def le_iff_add)
  then have p: "pgn v = d div 4096" by (simp add: pgn_def)
  have dd: "d div 4194304 = d div 4096 div 1024" by (simp add: div_mult2_eq [symmetric])
  have e: "(0xc0000000 + d) div 4096 = d div 4096 + 768 * 1024" using div_mult_self1 [of 4096 d 786432] by (simp add: add.commute)
  show "unat (pd_no v) = 768 + pgn v div 1024" unfolding unat_pd_no p d using dd by simp
  show "unat (pt_no v) = pgn v mod 1024" unfolding unat_pt_no p d e by (simp only: mod_mult_self1)
  show s: "pgn v < 0x40000" unfolding p using unat_u32_lt [of v] d by (simp add: less_mult_imp_div_less)
  have "unat (pg_round_down v) = unat (kernel_page (pgn v))"
    unfolding kernel_page_facts(1) [OF s] using d e by (simp add: unat_pg_round_down p PGSIZE_def)
  then show "pg_round_down v = kernel_page (pgn v)" by (simp add: word_unat_eq_iff)
qed

section \<open>The loop\<close>

lemma user_has_no_table: "tables_upto s pd t \<Longrightarrow> is_user_vaddr v \<Longrightarrow> pde_at s pd v = 0"
  unfolding tables_upto_def is_user_vaddr_def by (meson not_le)

lemma tables_uptoD:
  assumes "tables_upto s pd t"
  shows "palloc_inv (frames s)" "PHYS_BASE \<le> pool_base (kernel_frames s)" "used_page s pd" "pg_ofs pd = 0"
    "pde_at s pd v \<noteq> 0 \<longleftrightarrow> PHYS_BASE \<le> v \<and> pgn v div 1024 * 1024 < t"
    "pde_at s pd v \<noteq> 0 \<Longrightarrow> used_page s (pt_of (pde_at s pd v)) \<and> pt_of (pde_at s pd v) \<noteq> pd \<and> pg_ofs (pt_of (pde_at s pd v)) = 0"
    "pde_at s pd v \<noteq> 0 \<Longrightarrow> pde_at s pd w \<noteq> 0 \<Longrightarrow> pt_of (pde_at s pd v) = pt_of (pde_at s pd w) \<Longrightarrow> pd_no v = pd_no w"
  using assms used_page_facts(2) [of s] unfolding tables_upto_def by blast+

lemma same_table:
  assumes "PHYS_BASE \<le> v" "PHYS_BASE \<le> w"
  shows "pd_no v = pd_no w \<longleftrightarrow> pgn v div 1024 = pgn w div 1024"
    "pd_no v = pd_no w \<Longrightarrow> pt_no v = pt_no w \<longleftrightarrow> pgn v = pgn w"
proof -
  note V = kernel_address_index [OF assms(1)] and W = kernel_address_index [OF assms(2)]
  show d: "pd_no v = pd_no w \<longleftrightarrow> pgn v div 1024 = pgn w div 1024" by (simp add: word_unat_eq_iff V W)
  show "pt_no v = pt_no w \<longleftrightarrow> pgn v = pgn w" if "pd_no v = pd_no w"
    using that [unfolded d] unfolding word_unat_eq_iff V(2) W(2) by (metis div_mult_mod_eq)
qed

text \<open>Writing the entry of page \<open>n\<close>.\<close>

lemma store_entry:
  fixes s :: vm and pd start end_text :: u32 and n :: nat
  assumes t: "tables_upto s pd (Suc n)" and e: "entries_upto start end_text s pd n" and n: "n < 0x40000"
  defines "pt \<equiv> pt_of (pde_at s pd (kernel_page n))"
  defines "s' \<equiv> vm_store s (pt + 4 * pt_no (kernel_page n)) (kernel_entry start end_text n)"
  shows "tables_upto s' pd (Suc n)" "entries_upto start end_text s' pd (Suc n)"
proof -
  note K = kernel_page_facts [OF n] and T = tables_uptoD [OF t]
  have k: "pde_at s pd (kernel_page n) \<noteq> 0" using T(5) [of "kernel_page n"] K by simp
  have pt: "pg_ofs pt = 0" "pt \<noteq> pd" using T(6) [OF k] by (simp_all add: pt_def)
  have s': "s' = vm_store s (word_at pt (pt_no (kernel_page n))) (kernel_entry start end_text n)"
    by (simp add: s'_def word_at_def)
  have pde: "pde_at s' pd v = pde_at s pd v" for v
    unfolding pde_at_def s' using vm_load_store [OF pt(1) T(4) pt_no_less unat_pd_no_less] pt(2) by simp
  show "tables_upto s' pd (Suc n)" using t unfolding tables_upto_def pde by (simp add: s'_def)
  show "entries_upto start end_text s' pd (Suc n)"
    unfolding entries_upto_def pde
  proof (intro allI impI)
    fix v
    assume v: "pde_at s pd v \<noteq> 0"
    have kv: "PHYS_BASE \<le> v" using v T(5) by blast
    have "pte_at s' pd v = (if pgn v = n then kernel_entry start end_text n else pte_at s pd v)"
      unfolding pte_at_def pde unfolding s'
      using vm_load_store [OF pt(1) conjunct2 [OF conjunct2 [OF T(6) [OF v]]] pt_no_less pt_no_less] T(7) [OF k v]
        same_table [OF K(2) kv] K(3) same_table(1) [OF K(2) kv, THEN iffD2]
      by (auto simp: pt_def pde_at_def)
    then show "pte_at s' pd v = (if pgn v < Suc n then kernel_entry start end_text (pgn v) else 0)"
      using e v unfolding entries_upto_def by auto
  qed
qed

text \<open>A table for the pages from \<open>n\<close> on.\<close>

lemma new_table:
  assumes t: "tables_upto s pd n" and e: "entries_upto start end_text s pd n" and n: "n < 0x40000" "n mod 1024 = 0"
    and free: "0 < kernel_free s"
  obtains pt fr e s' where "palloc_get_page (frames s) (PAL_ASSERT OR PAL_ZERO) = Some (pt, fr)" "pde_create pt = Some e"
    "s' = vm_store (s\<lparr>frames := fr\<rparr>) (pd + 4 * pd_no (kernel_page n)) e"
    "pt = pt_of (pde_at s' pd (kernel_page n))" "tables_upto s' pd (Suc n)" "entries_upto start end_text s' pd n"
    "Suc (kernel_free s') = kernel_free s" "init_page_dir s' = init_page_dir s" "init_ram_pages s' = init_ram_pages s"
proof -
  note K = kernel_page_facts [OF n(1)] and T = tables_uptoD [OF t]
  obtain pt fr where get: "palloc_get_page (frames s) (PAL_ASSERT OR PAL_ZERO) = Some (pt, fr)" "zero_page s pt fr"
    using kernel_zero_page [OF T(1) free] by blast
  note Z = zero_pageD [OF get(2)]
  let ?s = "s\<lparr>frames := fr\<rparr>" and ?v = "kernel_page n"
  have ptb: "PHYS_BASE \<le> pt" using used_page_facts(3) [of ?s pt] Z(1,4,9) T(2) by simp
  obtain e where pe: "pde_create pt = Some e" "pt_of e = pt" "e AND PTE_P \<noteq> 0" "e AND PTE_ADDR < PHYS_BASE" "e \<noteq> 0"
    using pde_create_ok [OF Z(7) ptb] .
  let ?s' = "vm_store ?s (word_at pd (pd_no ?v)) e"
  have load: "vm_load ?s' (word_at q j) = (if q = pd \<and> j = pd_no ?v then e else if q = pt then 0 else vm_load s (word_at q j))"
    if "pg_ofs q = 0" "unat j < 1024" for q j
  proof -
    have "vm_load ?s (word_at q j) = (if q = pt then 0 else vm_load s (word_at q j))"
      using load_mem_set_page [OF Z(7) that] by (simp add: vm_load_def Z(3))
    then show ?thesis using vm_load_store [OF T(4) that(1) unat_pd_no_less that(2), of ?s] by auto
  qed
  have pdpt: "pd \<noteq> pt" using Z(8) T(3) by auto
  have pde: "pde_at ?s' pd v = (if pd_no v = pd_no ?v then e else pde_at s pd v)" for v
    unfolding pde_at_def load [OF T(4) unat_pd_no_less] using pdpt by simp
  have old: "pt_of (pde_at s pd v) \<noteq> pt" if "pde_at s pd v \<noteq> 0" for v using T(6) [OF that] Z(8) by auto
  have nd: "n div 1024 * 1024 = n" using n(2) div_mult_mod_eq [of n 1024] by simp
  have none: "pde_at s pd v = 0" if "pd_no v = pd_no ?v" for v
    using that T(5) [of ?v] K(2,3) nd by (simp add: pde_at_def)
  have present: "pde_at ?s' pd v \<noteq> 0 \<longleftrightarrow> PHYS_BASE \<le> v \<and> pgn v div 1024 * 1024 < Suc n" for v
  proof (cases "PHYS_BASE \<le> v")
    case True
    have "pgn v div 1024 * 1024 < Suc n \<longleftrightarrow> pgn v div 1024 * 1024 < n \<or> pgn v div 1024 = n div 1024" using n(2) by auto
    then show ?thesis using True T(5) [of v] same_table(1) [OF True K(2)] pe(5) K(3) unfolding pde by auto
  next
    case False
    then have "unat (pd_no v) < 768" using pd_no_user by (simp add: is_user_vaddr_def)
    then have "pd_no v \<noteq> pd_no ?v" using kernel_address_index(1) [OF K(2)] by auto
    then show ?thesis using False T(5) [of v] unfolding pde by auto
  qed
  have tables: "tables_upto ?s' pd (Suc n)"
    unfolding tables_upto_def
  proof (intro conjI allI impI)
    show "palloc_inv (frames ?s')" "PHYS_BASE \<le> pool_base (kernel_frames ?s')" "used_page ?s' pd"
      using Z(1,4,9) T(2,3) by simp_all
    show "(pde_at ?s' pd v \<noteq> 0) = (PHYS_BASE \<le> v \<and> pgn v div 1024 * 1024 < Suc n)" for v by (rule present)
    show "used_page ?s' (pt_of (pde_at ?s' pd v))" "pt_of (pde_at ?s' pd v) \<noteq> pd" if "pde_at ?s' pd v \<noteq> 0" for v
      using that T(6) [of v] Z(9) pe(2) pdpt unfolding pde by (auto split: if_splits)
    show "pt_of (pde_at ?s' pd v) \<noteq> pt_of (pde_at ?s' pd w)"
      if "pde_at ?s' pd v \<noteq> 0" "pde_at ?s' pd w \<noteq> 0" "pd_no v \<noteq> pd_no w" for v w
      using that T(7) [of v w] old [of v] old [of w] pe(2) unfolding pde by (auto split: if_splits)
  qed
  have entries: "entries_upto start end_text ?s' pd n"
    unfolding entries_upto_def
  proof (intro allI impI)
    fix v
    assume v: "pde_at ?s' pd v \<noteq> 0"
    show "pte_at ?s' pd v = (if pgn v < n then kernel_entry start end_text (pgn v) else 0)"
    proof (cases "pd_no v = pd_no ?v")
      case True
      have kv: "PHYS_BASE \<le> v" using v present by blast
      have "\<not> pgn v < n" using True same_table(1) [OF kv K(2)] K(3) n(2) by (metis div_mult_mod_eq add_0_right times_div_less_eq_dividend not_le mult.commute)
      moreover have "pte_at ?s' pd v = 0"
        unfolding pte_at_def pde using True load [OF Z(7) pt_no_less] pe(2) pdpt by simp
      ultimately show ?thesis by simp
    next
      case False
      then have o: "pde_at s pd v \<noteq> 0" using v by (simp add: pde)
      have "pte_at ?s' pd v = pte_at s pd v"
        unfolding pte_at_def pde using False load [of "pt_of (pde_at s pd v)" "pt_no v"] T(6) [OF o] old [OF o] pt_no_less by simp
      then show ?thesis using e o unfolding entries_upto_def by simp
    qed
  qed
  show ?thesis
    by (rule that [OF get(1) pe(1) refl])
      (use tables entries pe(2) Z(10) in \<open>simp_all add: pde [unfolded word_at_def] word_at_def kernel_free_def\<close>)
qed

lemma paging_loop_maps:
  assumes "tables_upto s pd page" "entries_upto start end_text s pd page" "init_page_dir s = pd"
    "page mod 1024 \<noteq> 0 \<Longrightarrow> pt = pt_of (pde_at s pd (kernel_page page))"
    "page + k \<le> 0x40000" "(page + k + 1023) div 1024 \<le> (page + 1023) div 1024 + kernel_free s"
  shows "\<exists>s'. paging_loop start end_text k page pt s = Some s' \<and> tables_upto s' pd (page + k) \<and>
    entries_upto start end_text s' pd (page + k) \<and> init_page_dir s' = pd \<and> init_ram_pages s' = init_ram_pages s"
  using assms
proof (induction k arbitrary: page pt s)
  case 0
  then show ?case by simp
next
  case (Suc k)
  note t = Suc.prems(1) and e = Suc.prems(2)
  have n: "page < 0x40000" using Suc.prems(5) by simp
  let ?v = "kernel_page page"
  note K = kernel_page_facts [OF n]
  have pde: "(vm_load s (init_page_dir s + 4 * pd_no ?v) = 0) = (page mod 1024 = 0)"
  proof -
    have "page div 1024 * 1024 < page \<longleftrightarrow> page mod 1024 \<noteq> 0" using div_mult_mod_eq [of page 1024] by linarith
    then show ?thesis using tables_uptoD(5) [OF t, of ?v] K(2,3) Suc.prems(3) by (auto simp: pde_at_def word_at_def)
  qed
  have go: ?case
    if loop: "paging_loop start end_text (Suc k) page pt s =
        paging_loop start end_text k (page + 1) pt1 (vm_store s1 (pt1 + 4 * pt_no ?v) (kernel_entry start end_text page))"
      and s1: "tables_upto s1 pd (Suc page)" "entries_upto start end_text s1 pd page" "init_page_dir s1 = pd"
        "init_ram_pages s1 = init_ram_pages s" "pt1 = pt_of (pde_at s1 pd ?v)"
      and free: "(page + Suc k + 1023) div 1024 \<le> (Suc page + 1023) div 1024 + kernel_free s1" for pt1 s1
  proof -
    let ?s = "vm_store s1 (pt_of (pde_at s1 pd ?v) + 4 * pt_no ?v) (kernel_entry start end_text page)"
    note S = store_entry [OF s1(1,2) n]
    have "pt1 = pt_of (pde_at ?s pd (kernel_page (Suc page)))" if m: "Suc page mod 1024 \<noteq> 0"
    proof -
      have sn: "Suc page < 0x40000"
      proof (rule ccontr)
        assume "\<not> Suc page < 0x40000"
        then have "Suc page = 0x40000" using n by simp
        then show False using m by simp
      qed
      have "Suc page div 1024 = page div 1024" using m by (simp add: div_Suc)
      then have "pd_no (kernel_page (Suc page)) = pd_no ?v"
        using same_table(1) [OF kernel_page_facts(2) [OF sn] K(2)] kernel_page_facts(3) [OF sn] K(3) by simp
      then have p: "pde_at w pd (kernel_page (Suc page)) = pde_at w pd ?v" for w by (simp add: pde_at_def)
      have k: "pde_at s1 pd ?v \<noteq> 0" using tables_uptoD(5) [OF s1(1), of ?v] K by simp
      note T = tables_uptoD(4,6) [OF s1(1)]
      have "pde_at ?s pd ?v = pde_at s1 pd ?v"
        unfolding pde_at_def using vm_load_store [of "pt_of (pde_at s1 pd ?v)" pd "pt_no ?v" "pd_no ?v" s1] T(2) [OF k] T(1)
          pt_no_less unat_pd_no_less by (simp add: word_at_def pde_at_def)
      then show ?thesis using s1(5) p by simp
    qed
    moreover have "kernel_free ?s = kernel_free s1" by (simp add: kernel_free_def)
    ultimately have "\<exists>s'. paging_loop start end_text k (Suc page) pt1 ?s = Some s' \<and> tables_upto s' pd (Suc page + k) \<and>
      entries_upto start end_text s' pd (Suc page + k) \<and> init_page_dir s' = pd \<and> init_ram_pages s' = init_ram_pages ?s"
      using S s1(3) Suc.prems(5) free by (intro Suc.IH) simp_all
    then show ?thesis using loop s1(4,5) by simp
  qed
  show ?case
  proof (cases "page mod 1024 = 0")
    case True
    have "page div 1024 * 1024 = page" using True div_mult_mod_eq [of page 1024] by simp
    then have q: "page = 1024 * (page div 1024)" by (simp add: mult.commute)
    have c: "(page + 1023) div 1024 = page div 1024" "(page + Suc k + 1023) div 1024 = page div 1024 + (Suc k + 1023) div 1024"
      "(Suc page + 1023) div 1024 = Suc (page div 1024)"
      by (subst q, simp add: div_mult_self4)+
    have "0 < kernel_free s" using Suc.prems(6) unfolding c by simp
    then obtain pt' fr e' s' where n': "palloc_get_page (frames s) (PAL_ASSERT OR PAL_ZERO) = Some (pt', fr)" "pde_create pt' = Some e'"
      "s' = vm_store (s\<lparr>frames := fr\<rparr>) (pd + 4 * pd_no ?v) e'" "pt' = pt_of (pde_at s' pd ?v)" "tables_upto s' pd (Suc page)"
      "entries_upto start end_text s' pd page" "Suc (kernel_free s') = kernel_free s" "init_page_dir s' = init_page_dir s"
      "init_ram_pages s' = init_ram_pages s"
      using new_table [OF t e n True] by blast
    show ?thesis
    proof (rule go [OF _ n'(5,6) _ n'(9,4)])
      show "paging_loop start end_text (Suc k) page pt s = paging_loop start end_text k (page + 1) pt'
          (vm_store s' (pt' + 4 * pt_no ?v) (kernel_entry start end_text page))"
        using pde True K(5) n'(1,2) K(6) [of start end_text] n'(3) Suc.prems(3) by (simp add: Let_def in_text_def)
      show "init_page_dir s' = pd" using n'(8) Suc.prems(3) by simp
      show "(page + Suc k + 1023) div 1024 \<le> (Suc page + 1023) div 1024 + kernel_free s'"
        using Suc.prems(6) n'(7) unfolding c by simp
    qed
  next
    case False
    have up: "x div 1024 * 1024 < Suc page \<longleftrightarrow> x div 1024 * 1024 < page" for x
      using False by (metis less_Suc_eq mod_mult_self2_is_0)
    have t1: "tables_upto s pd (Suc page)" using t unfolding tables_upto_def up .
    show ?thesis
    proof (rule go [OF _ t1 e Suc.prems(3) refl])
      show "paging_loop start end_text (Suc k) page pt s = paging_loop start end_text k (page + 1) pt
          (vm_store s (pt + 4 * pt_no ?v) (kernel_entry start end_text page))"
        using pde False K(5) K(6) [of start end_text] by (simp add: Let_def in_text_def)
      show "pt = pt_of (pde_at s pd ?v)" using False Suc.prems(4) by simp
      have "page + 1023 = page mod 1024 - 1 + (page div 1024 + 1) * 1024" "Suc page + 1023 = page mod 1024 + (page div 1024 + 1) * 1024"
        using False div_mult_mod_eq [of page 1024] by (simp_all add: algebra_simps)
      then have "(page + 1023) div 1024 = (Suc page + 1023) div 1024" using mod_less_divisor [of 1024 page]
        by (simp only: div_mult_self1 less_imp_diff_less div_less zero_less_numeral)
      then show "(page + Suc k + 1023) div 1024 \<le> (Suc page + 1023) div 1024 + kernel_free s" using Suc.prems(6) by simp
    qed
  qed
qed

section \<open>The kernel mapping\<close>

lemma flags_of_entry:
  assumes "pg_ofs a = 0" "g AND PTE_ADDR = 0"
  shows "(a OR f) AND g = f AND g"
proof -
  have "a AND PTE_ADDR = a" using entry_bits [OF assms(1), of 0] by simp
  then have "a AND g = a AND (PTE_ADDR AND g)" by (metis and.assoc)
  then have "a AND g = 0" using assms(2) by (simp add: and.commute)
  moreover have "(a OR f) AND g = (a AND g) OR (f AND g)" by (rule bit_eqI) (auto simp: bit_simps)
  ultimately show ?thesis by simp
qed

lemma kernel_entry_facts:
  assumes "m < 0x40000"
  shows "pte_decode (kernel_entry start end_text m) = Some (kernel_page m - PHYS_BASE, \<not> in_text start end_text m)"
    "kernel_entry start end_text m AND PTE_U = 0"
proof -
  let ?f = "PTE_P OR (if in_text start end_text m then 0 else PTE_W)"
  have f: "?f AND PTE_ADDR = 0" "?f AND PTE_P \<noteq> 0" "(?f AND PTE_W \<noteq> 0) = (\<not> in_text start end_text m)" "?f AND PTE_U = 0"
    by (simp_all add: PTE_U_def PTE_P_def PTE_W_def PTE_ADDR_def)
  have g: "PTE_P AND PTE_ADDR = 0" "PTE_W AND PTE_ADDR = 0" "PTE_U AND PTE_ADDR = 0"
    by (simp_all add: PTE_U_def PTE_P_def PTE_W_def PTE_ADDR_def)
  have a: "pg_ofs (kernel_page m - PHYS_BASE) = 0" by (rule vtop_page(2) [OF kernel_page_facts(4,2) [OF assms]])
  have e: "kernel_entry start end_text m = (kernel_page m - PHYS_BASE) OR ?f"
    by (simp add: kernel_entry_def kernel_page_def or.assoc)
  show "pte_decode (kernel_entry start end_text m) = Some (kernel_page m - PHYS_BASE, \<not> in_text start end_text m)"
    unfolding pte_decode_def e flags_of_entry [OF a g(1)] flags_of_entry [OF a g(2)] entry_bits [OF a f(1)] using f(2,3) by simp
  show "kernel_entry start end_text m AND PTE_U = 0" unfolding e flags_of_entry [OF a g(3)] by (rule f(4))
qed

text \<open>C26:
  \<open>paging_init\<close> on a machine with at most 1 GB of memory and enough free pages returns with a new,
  well-formed page directory loaded. It maps an address exactly when it is the kernel address of a
  byte of memory, to that byte, for the kernel only, and it lets the kernel write everything but the
  pages of its code.
\<close>

theorem paging_init_maps_ram:
  assumes inv: "palloc_inv (frames s)" "PHYS_BASE \<le> pool_base (kernel_frames s)" and ram: "unat (init_ram_pages s) \<le> 0x40000"
    and free: "1 + (unat (init_ram_pages s) + 1023) div 1024 \<le> kernel_free s"
  shows "\<exists>s'. paging_init start end_text s = Some s' \<and> pd_inv s' (init_page_dir s') \<and> cr3 s' + PHYS_BASE = init_page_dir s' \<and>
    (\<forall>v. if PHYS_BASE \<le> v \<and> (unat v - 0xc0000000) div 4096 < unat (init_ram_pages s)
      then pd_mapping s' (init_page_dir s') v =
          Some (pg_round_down v - PHYS_BASE, \<not> (start \<le> pg_round_down v \<and> pg_round_down v < end_text)) \<and>
        pte_at s' (init_page_dir s') v AND PTE_U = 0
      else pd_mapping s' (init_page_dir s') v = None)"
proof -
  let ?n = "unat (init_ram_pages s)"
  have "0 < kernel_free s" using free by simp
  then obtain pd fr where get: "palloc_get_page (frames s) (PAL_ASSERT OR PAL_ZERO) = Some (pd, fr)" "zero_page s pd fr"
    using kernel_zero_page [OF inv(1)] by blast
  note Z = zero_pageD [OF get(2)]
  let ?s = "s\<lparr>frames := fr, init_page_dir := pd\<rparr>"
  have used: "used_page ?s q \<longleftrightarrow> used_page s q \<or> q = pd" for q using Z(9) by (simp add: used_page_def)
  have zero: "pde_at ?s pd v = 0" for v
    using load_mem_set_page [OF Z(7,7) unat_pd_no_less] by (simp add: pde_at_def vm_load_def Z(3))
  have t: "tables_upto ?s pd 0" "entries_upto start end_text ?s pd 0"
    unfolding tables_upto_def entries_upto_def zero using used inv(2) Z(1,4) by simp_all
  have "kernel_free ?s = kernel_free (s\<lparr>frames := fr\<rparr>)" by (simp add: kernel_free_def)
  then have "(0 + ?n + 1023) div 1024 \<le> (0 + 1023) div 1024 + kernel_free ?s" using free Z(10) by simp
  then obtain s1 where s1: "paging_loop start end_text ?n 0 0 ?s = Some s1" "tables_upto s1 pd ?n"
    "entries_upto start end_text s1 pd ?n" "init_page_dir s1 = pd"
    using paging_loop_maps [OF t, of 0 ?n] ram by auto
  note T = tables_uptoD [OF s1(2)]
  have pdb: "PHYS_BASE \<le> pd" by (rule used_page_facts(3) [OF T(1,3,2)])
  note V = vtop_page [OF T(4) pdb]
  define r where "r = s1\<lparr>cr3 := pd - PHYS_BASE, tlb_flushes := tlb_flushes s1 + 1\<rparr>"
  have run: "paging_init start end_text s = Some r"
    using get(1) s1(1,4) V(1) by (simp add: paging_init_def r_def)
  have same: "pde_at r pd v = pde_at s1 pd v" "pte_at r pd v = pte_at s1 pd v" "pd_mapping r pd v = pd_mapping s1 pd v" for v
    by (simp_all add: r_def pde_at_def vm_load_def pd_mapping_def pte_at_def)
  have pdi: "pd_inv r pd"
    unfolding pd_inv_def same using T(1-3) V(3) user_has_no_table [OF s1(2)] by (auto simp: r_def pde_ok_def used_page_def)
  have map: "if PHYS_BASE \<le> v \<and> pgn v < ?n
      then pd_mapping s1 pd v = Some (pg_round_down v - PHYS_BASE, \<not> (start \<le> pg_round_down v \<and> pg_round_down v < end_text)) \<and>
        pte_at s1 pd v AND PTE_U = 0
      else pd_mapping s1 pd v = None" for v
  proof (cases "pde_at s1 pd v = 0")
    case True
    have "pgn v div 1024 * 1024 \<le> pgn v" by simp
    then have "\<not> (PHYS_BASE \<le> v \<and> pgn v < ?n)" using True T(5) [of v] by auto
    then show ?thesis using True by (simp add: pd_mapping_def)
  next
    case False
    then have v: "PHYS_BASE \<le> v" using T(5) by blast
    note A = kernel_address_index [OF v]
    have e: "pte_at s1 pd v = (if pgn v < ?n then kernel_entry start end_text (pgn v) else 0)"
      using s1(3) False unfolding entries_upto_def by blast
    show ?thesis
      using v False kernel_entry_facts [OF A(3), of start end_text] e
      by (simp add: pd_mapping_def A(4) in_text_def) (simp add: pte_decode_def)
  qed
  have "init_page_dir r = pd" "cr3 r + PHYS_BASE = pd" using s1(4) by (simp_all add: r_def)
  then show ?thesis using run pdi allI [OF map [unfolded pgn_def]] by (intro exI [of _ r]) (simp only: same simp_thms HOL.all_simps if_cancel)
qed

text \<open>A machine with three pages of memory, the first of them code; the kernel pool has two pages.\<close>

definition boot_vm :: vm where
  "boot_vm = \<lparr>frames = \<lparr>kernel_pool = \<lparr>used_map = \<lparr>bit_cnt = 2, bits = [0]\<rparr>, pool_base = 0xc0101000\<rparr>,
       user_pool = demo_pool 0xc0104000, mem = (\<lambda>_. 0)\<rparr>,
     init_page_dir = 0, init_ram_pages = 3, cr3 = 0, tlb_flushes = 0\<rparr>"

lemma paging_init_maps_ram_witness:
  "\<exists>s'. paging_init 0xc0000000 0xc0000010 boot_vm = Some s' \<and>
     pd_mapping s' (init_page_dir s') 0xc0000004 = Some (0, False) \<and>
     pd_mapping s' (init_page_dir s') 0xc0002fff = Some (0x2000, True) \<and>
     pd_mapping s' (init_page_dir s') 0xc0003000 = None"
proof -
  have inv: "palloc_inv (frames boot_vm)" "PHYS_BASE \<le> pool_base (kernel_frames boot_vm)"
    by (simp_all add: palloc_inv_def pool_inv_def boot_vm_def demo_pool_def bm_inv_def BITMAP_ERROR_def pg_aligned_iff PGSIZE_def
        PHYS_BASE_def)
  have "[0..<2] = [0, 1 :: nat]" by (simp add: upt_rec)
  then have "pool_used (kernel_frames boot_vm) = [False, False]"
    by (simp add: bm_abs_def boot_vm_def bm_bit_def elem_idx_def ELEM_BITS_def)
  then have free: "1 + (unat (init_ram_pages boot_vm) + 1023) div 1024 \<le> kernel_free boot_vm"
    unfolding kernel_free_def by (simp add: boot_vm_def)
  have ram: "unat (init_ram_pages boot_vm) = 3" by (simp add: boot_vm_def)
  have v: "pg_round_down 0xc0000004 = 0xc0000000" "pg_round_down 0xc0002fff = 0xc0002000"
    by (simp_all add: pg_round_down_def PGMASK_def BITMASK_def PGBITS_def)
  obtain s' where s': "paging_init 0xc0000000 0xc0000010 boot_vm = Some s'" and m: "\<forall>v. if PHYS_BASE \<le> v \<and> (unat v - 0xc0000000) div 4096 < 3
      then pd_mapping s' (init_page_dir s') v =
          Some (pg_round_down v - PHYS_BASE, \<not> (0xc0000000 \<le> pg_round_down v \<and> pg_round_down v < 0xc0000010)) \<and>
        pte_at s' (init_page_dir s') v AND PTE_U = 0
      else pd_mapping s' (init_page_dir s') v = None"
    using paging_init_maps_ram [OF inv _ free, where start = "0xc0000000" and end_text = "0xc0000010"] unfolding ram by auto
  show ?thesis
    using s' m [THEN spec, of "0xc0000004"] m [THEN spec, of "0xc0002fff"] m [THEN spec, of "0xc0003000"]
    by (simp add: v PHYS_BASE_def)
qed

end
