(* ===== verification/Kernel_Init.thy ===== *)
theory Kernel_Init
  imports Kernel_Process Kernel_Clock Kernel_Random Kernel_Partition
begin

text \<open>
  The command line of the kernel, \<open>threads/init.c\<close>: how it is split into words, what the options do,
  and how the actions are run, with the choice of the block devices and the type of shutdown
  (\<open>devices/shutdown.c\<close>). \<open>argv\<close> is the list of the pointers in front of the null pointer.

  Parameters are the addresses of the two string constants of delimiters and of the local variable
  \<open>save_ptr\<close> of \<open>parse_options\<close>; \<open>run\<close>, which gives the state when the calling thread runs again; the
  kernel tests; and the entry point of a new process. \<open>usage\<close> and a panic do not return: None.
\<close>

section \<open>State\<close>

datatype shutdown_type = SHUTDOWN_NONE | SHUTDOWN_POWER_OFF | SHUTDOWN_REBOOT

record boot = processes +
  how :: shutdown_type
  format_filesys :: bool
  filesys_bdev_name :: u32
  scratch_bdev_name :: u32
  user_page_limit :: u32
  generator :: rng
  extract_sector :: nat
  append_sector :: nat

definition shutdown_configure :: "shutdown_type \<Rightarrow> 'a boot_scheme \<Rightarrow> 'a boot_scheme" where
  "shutdown_configure type s = s\<lparr>how := type\<rparr>"

text \<open>Only the default type lets \<open>shutdown\<close> return.\<close>

definition shutdown :: "'a boot_scheme \<Rightarrow> 'a boot_scheme option" where
  "shutdown s = (if how s = SHUTDOWN_NONE then Some s else None)"

section \<open>Words\<close>

definition LOADER_END :: u32 where "LOADER_END = 0x7e00"
definition LOADER_SIG_LEN :: nat where "LOADER_SIG_LEN = 2"
definition LOADER_PARTS_LEN :: nat where "LOADER_PARTS_LEN = 64"
definition LOADER_ARGS_LEN :: nat where "LOADER_ARGS_LEN = 128"
definition LOADER_ARG_CNT_LEN :: nat where "LOADER_ARG_CNT_LEN = 4"
definition LOADER_SIG :: u32 where "LOADER_SIG = LOADER_END - of_nat LOADER_SIG_LEN"
definition LOADER_PARTS :: u32 where "LOADER_PARTS = LOADER_SIG - of_nat LOADER_PARTS_LEN"
definition LOADER_ARGS :: u32 where "LOADER_ARGS = LOADER_PARTS - of_nat LOADER_ARGS_LEN"
definition LOADER_ARG_CNT :: u32 where "LOADER_ARG_CNT = LOADER_ARGS - of_nat LOADER_ARG_CNT_LEN"

text \<open>The array \<open>argv\<close> has \<open>LOADER_ARGS_LEN / 2 + 1\<close> elements; a write behind it is None.\<close>

fun arg_loop :: "memory \<Rightarrow> u32 \<Rightarrow> nat \<Rightarrow> nat \<Rightarrow> u32 \<Rightarrow> u32 list option" where
  "arg_loop m fin 0 i p = Some []"
| "arg_loop m fin (Suc left) i p = do {
     ASSERT (p < fin);
     ASSERT (i < LOADER_ARGS_LEN div 2 + 1);
     argv \<leftarrow> arg_loop m fin left (i + 1) (p + (of_nat (strnlen m p (unat (fin - p))) + 1));
     Some (p # argv) }"

definition quoted :: "string \<Rightarrow> string" where
  "quoted text = [CHR 0x27] @ text @ [CHR 0x27]"

definition print_arg :: "u32 \<Rightarrow> 'a processes_scheme \<Rightarrow> 'a processes_scheme option" where
  "print_arg arg s = do {
     r \<leftarrow> strchr (mem (pages s)) arg 0x20;
     text \<leftarrow> string_at (mem (pages s)) arg;
     if r = 0 then print '' %s'' [arg_string text] s
     else print ('' '' @ quoted ''%s'') [arg_string text] s }"

definition read_command_line :: "'a processes_scheme \<Rightarrow> (u32 list \<times> 'a processes_scheme) option" where
  "read_command_line s = do {
     cnt \<leftarrow> ptov LOADER_ARG_CNT;
     let argc = sint (load32 (mem (pages s)) cnt);
     p \<leftarrow> ptov LOADER_ARGS;
     argv \<leftarrow> arg_loop (mem (pages s)) (p + of_nat LOADER_ARGS_LEN) (nat argc) 0 p;
     ASSERT (0 \<le> argc \<and> argc < int (LOADER_ARGS_LEN div 2 + 1));
     s \<leftarrow> print ''Kernel command line:'' [] s;
     s \<leftarrow> foldM print_arg argv s;
     s \<leftarrow> print NL [] s;
     Some (argv, s) }"

section \<open>Options\<close>

text \<open>The string of a pointer, as \<open>strcmp\<close> reads it; a null pointer is a panic.\<close>

definition string_of :: "u32 \<Rightarrow> 'a processes_scheme \<Rightarrow> string option" where
  "string_of p s = map_option chars_of (string_at (mem (pages s)) p)"

definition SCHED_DEFAULT :: sched_policy where "SCHED_DEFAULT = SCHED_FIFO"

fun sched_index :: "sched_policy \<Rightarrow> nat" where
  "sched_index SCHED_FIFO = 0"
| "sched_index SCHED_PRIO = 1"
| "sched_index SCHED_FAIR = 2"
| "sched_index SCHED_MLFQS = 3"
| "sched_index SCHED_RESERVED = 4"

definition sched_option :: "string \<Rightarrow> bool list \<Rightarrow> bool list option" where
  "sched_option value chosen =
     (if value = ''fifo'' then Some (chosen[sched_index SCHED_FIFO := True])
      else if value = ''prio'' then Some (chosen[sched_index SCHED_PRIO := True])
      else if value = ''fair'' then Some (chosen[sched_index SCHED_FAIR := True])
      else if value = ''mlfqs'' then Some (chosen[sched_index SCHED_MLFQS := True])
      else None)"

definition apply_option :: "u32 \<Rightarrow> u32 \<Rightarrow> bool list \<Rightarrow> 'a boot_scheme \<Rightarrow> (bool list \<times> 'a boot_scheme) option" where
  "apply_option name value chosen s = do {
     n \<leftarrow> string_of name s;
     if n = ''-h'' then None
     else if n = ''-q'' then Some (chosen, shutdown_configure SHUTDOWN_POWER_OFF s)
     else if n = ''-r'' then Some (chosen, shutdown_configure SHUTDOWN_REBOOT s)
     else if n = ''-f'' then Some (chosen, s\<lparr>format_filesys := True\<rparr>)
     else if n = ''-filesys'' then Some (chosen, s\<lparr>filesys_bdev_name := value\<rparr>)
     else if n = ''-scratch'' then Some (chosen, s\<lparr>scratch_bdev_name := value\<rparr>)
     else if n = ''-rs'' then do {
       seed \<leftarrow> atoi (mem (pages s)) value;
       Some (chosen, s\<lparr>generator := random_init seed\<rparr>) }
     else if n = ''-sched'' then do {
       v \<leftarrow> string_of value s;
       chosen \<leftarrow> sched_option v chosen;
       Some (chosen, s) }
     else if n = ''-ul'' then do {
       limit \<leftarrow> atoi (mem (pages s)) value;
       Some (chosen, s\<lparr>user_page_limit := limit\<rparr>) }
     else None }"

fun option_loop :: "u32 \<Rightarrow> u32 \<Rightarrow> u32 \<Rightarrow> u32 list \<Rightarrow> bool list \<Rightarrow> 'a boot_scheme \<Rightarrow>
    (u32 list \<times> bool list \<times> 'a boot_scheme) option" where
  "option_loop eq_delim no_delim save_ptr [] chosen s = Some ([], chosen, s)"
| "option_loop eq_delim no_delim save_ptr (arg # argv) chosen s =
     (if mem (pages s) arg \<noteq> 0x2d then Some (arg # argv, chosen, s)
      else do {
        (name, m) \<leftarrow> strtok_r (mem (pages s)) arg eq_delim save_ptr;
        (value, m) \<leftarrow> strtok_r m 0 no_delim save_ptr;
        (chosen, s) \<leftarrow> apply_option name value chosen (set_mem m s);
        option_loop eq_delim no_delim save_ptr argv chosen s })"

definition choose_policy :: "bool list \<Rightarrow> sched_policy option" where
  "choose_policy chosen =
     (let sched_flags_set = length (filter id (take 8 chosen))
      in if sched_flags_set = 0 then Some SCHED_DEFAULT
         else if sched_flags_set > 1 then None
         else if chosen ! sched_index SCHED_FIFO then Some SCHED_FIFO
         else if chosen ! sched_index SCHED_PRIO then Some SCHED_PRIO
         else if chosen ! sched_index SCHED_FAIR then Some SCHED_FAIR
         else if chosen ! sched_index SCHED_MLFQS then Some SCHED_MLFQS
         else None)"

definition parse_options :: "u32 \<Rightarrow> u32 \<Rightarrow> u32 \<Rightarrow> u32 list \<Rightarrow> 'a boot_scheme \<Rightarrow> (u32 list \<times> 'a boot_scheme) option" where
  "parse_options eq_delim no_delim save_ptr argv s = do {
     (argv, chosen, s) \<leftarrow> option_loop eq_delim no_delim save_ptr argv (replicate 8 False) s;
     policy \<leftarrow> choose_policy chosen;
     let s = s\<lparr>kern := (kern s)\<lparr>active_sched_policy := policy\<rparr>\<rparr>;
     (t, s) \<leftarrow> rtc_get_time s;
     Some (argv, s\<lparr>generator := random_init (of_int t)\<rparr>) }"

section \<open>Actions\<close>

definition executing :: "string \<Rightarrow> 'a processes_scheme \<Rightarrow> 'a processes_scheme option" where
  "executing task s = print (''Executing '' @ quoted ''%s'' @ '':'' @ NL) [ArgString (Some task)] s"

definition complete :: "string \<Rightarrow> 'a processes_scheme \<Rightarrow> 'a processes_scheme option" where
  "complete task s = print (''Execution of '' @ quoted ''%s'' @ '' complete.'' @ NL) [ArgString (Some task)] s"

definition run_task :: "addr \<Rightarrow> ('a boot_scheme \<Rightarrow> 'a boot_scheme option) \<Rightarrow> u32 list \<Rightarrow> 'a boot_scheme \<Rightarrow> 'a boot_scheme option" where
  "run_task entry run argv s = do {
     task \<leftarrow> string_of (argv ! 1) s;
     s \<leftarrow> executing task s;
     (tid, s) \<leftarrow> process_execute entry (argv ! 1) s;
     (_, s) \<leftarrow> process_wait tid s;
     s \<leftarrow> run s;
     task \<leftarrow> string_of (argv ! 1) s;
     complete task s }"

definition run_userprog_kernel_task :: "(string \<Rightarrow> 'a boot_scheme \<Rightarrow> 'a boot_scheme option) \<Rightarrow> u32 list \<Rightarrow> 'a boot_scheme \<Rightarrow> 'a boot_scheme option" where
  "run_userprog_kernel_task run_userprog_test argv s = do {
     task \<leftarrow> string_of (argv ! 1) s;
     s \<leftarrow> executing task s;
     s \<leftarrow> run_userprog_test task s;
     task \<leftarrow> string_of (argv ! 1) s;
     complete task s }"

text \<open>The utilities of the file system.\<close>

definition ls_action :: "u32 list \<Rightarrow> 'a boot_scheme \<Rightarrow> 'a boot_scheme option" where
  "ls_action argv s = map_option (\<lambda>d. s\<lparr>disk := d\<rparr>) (fsutil_ls (disk s))"

definition cat_action :: "u32 list \<Rightarrow> 'a boot_scheme \<Rightarrow> 'a boot_scheme option" where
  "cat_action argv s = do {
     name \<leftarrow> string_at (mem (pages s)) (argv ! 1);
     d \<leftarrow> fsutil_cat name (disk s);
     Some (s\<lparr>disk := d\<rparr>) }"

definition rm_action :: "u32 list \<Rightarrow> 'a boot_scheme \<Rightarrow> 'a boot_scheme option" where
  "rm_action argv s = do {
     name \<leftarrow> string_at (mem (pages s)) (argv ! 1);
     d \<leftarrow> fsutil_rm name (disk s);
     Some (s\<lparr>disk := d\<rparr>) }"

definition extract_action :: "u32 list \<Rightarrow> 'a boot_scheme \<Rightarrow> 'a boot_scheme option" where
  "extract_action argv s = do {
     (sector, d) \<leftarrow> fsutil_extract (extract_sector s) (disk s);
     Some (s\<lparr>disk := d, extract_sector := sector\<rparr>) }"

definition append_action :: "u32 list \<Rightarrow> 'a boot_scheme \<Rightarrow> 'a boot_scheme option" where
  "append_action argv s = do {
     name \<leftarrow> string_at (mem (pages s)) (argv ! 1);
     (sector, d) \<leftarrow> fsutil_append name (append_sector s) (disk s);
     Some (s\<lparr>disk := d, append_sector := sector\<rparr>) }"

definition actions :: "addr \<Rightarrow> ('a boot_scheme \<Rightarrow> 'a boot_scheme option) \<Rightarrow> (string \<Rightarrow> 'a boot_scheme \<Rightarrow> 'a boot_scheme option) \<Rightarrow>
    (string \<times> nat \<times> (u32 list \<Rightarrow> 'a boot_scheme \<Rightarrow> 'a boot_scheme option)) list" where
  "actions entry run run_userprog_test =
     [(''run'', 2, run_task entry run), (''rukt'', 2, run_userprog_kernel_task run_userprog_test),
      (''ls'', 1, ls_action), (''cat'', 2, cat_action), (''rm'', 2, rm_action),
      (''extract'', 1, extract_action), (''append'', 2, append_action)]"

text \<open>\<open>argv\<close> ends behind the last word: an action that needs more words than are left panics.\<close>

partial_function (option) run_actions ::
    "(string \<times> nat \<times> (u32 list \<Rightarrow> 'a boot_scheme \<Rightarrow> 'a boot_scheme option)) list \<Rightarrow> u32 list \<Rightarrow> 'a boot_scheme \<Rightarrow> 'a boot_scheme option" where
  "run_actions table argv s =
     (if argv = [] then Some s
      else do {
        name \<leftarrow> string_of (argv ! 0) s;
        (argc, f) \<leftarrow> map_of table name;
        ASSERT (argc \<le> length argv);
        s \<leftarrow> f argv s;
        run_actions table (drop argc argv) s })"

section \<open>Block devices\<close>

partial_function (option) locate_loop :: "block_type \<Rightarrow> nat option \<Rightarrow> 'a block_state_scheme \<Rightarrow> nat option option" where
  "locate_loop role bl s =
     (case bl of
        None \<Rightarrow> Some None
      | Some b \<Rightarrow> do {
          t \<leftarrow> get_block_type b s;
          if t = role then Some (Some b)
          else do { n \<leftarrow> block_next b s; locate_loop role n s } })"

definition locate_block_device :: "block_type \<Rightarrow> u32 \<Rightarrow> 'a boot_scheme \<Rightarrow> 'a boot_scheme option" where
  "locate_block_device role name s = do {
     bl \<leftarrow>
       (if name \<noteq> 0
        then do {
          n \<leftarrow> string_of name s;
          b \<leftarrow> block_get_by_name n (disk s);
          Some (Some b) }
        else locate_loop role (block_first (disk s)) (disk s));
     case bl of
       None \<Rightarrow> Some s
     | Some b \<Rightarrow> do {
         n \<leftarrow> block_name b (disk s);
         d \<leftarrow> kprintf (''%s: using %s'' @ newline) [ArgString (Some (block_type_name role)), ArgString (Some n)] (disk s);
         d \<leftarrow> block_set_role role (Some b) d;
         Some (s\<lparr>disk := d\<rparr>) } }"

definition locate_block_devices :: "'a boot_scheme \<Rightarrow> 'a boot_scheme option" where
  "locate_block_devices s = do {
     s \<leftarrow> locate_block_device BLOCK_FILESYS (filesys_bdev_name s) s;
     locate_block_device BLOCK_SCRATCH (scratch_bdev_name s) s }"

definition bss_init :: "u32 \<Rightarrow> u32 \<Rightarrow> 'a processes_scheme \<Rightarrow> 'a processes_scheme option" where
  "bss_init start_bss end_bss s = do {
     (_, m) \<leftarrow> memset (mem (pages s)) start_bss 0 (unat (end_bss - start_bss));
     Some (set_mem m s) }"

section \<open>The words of the command line\<close>

lemma string_at_ok: "cstring m p w \<Longrightarrow> string_at m p = Some w"
  using strlen_ok [of m p w] cstring_at(1) [of m p w] by (auto simp: string_at_def intro: nth_equalityI)

lemma strnlen_loop_ok:
  assumes "cstring m p w" "n \<le> length w" "length w < n + left"
  shows "strnlen_loop left m p n = length w"
  using assms(2,3)
proof (induction left arbitrary: n)
  case (Suc left)
  show ?case
  proof (cases "n = length w")
    case True
    then have "m (p + of_nat n) = 0" using cstring_drop [of m p w "[]"] assms(1) by (simp add: cstring_def)
    then show ?thesis using True by simp
  next
    case False
    then show ?thesis using cstring_at [OF assms(1), of n] Suc by simp
  qed
qed simp

text \<open>The strings one behind the other, each with its null byte, and their addresses.\<close>

fun argument_block :: "memory \<Rightarrow> u32 \<Rightarrow> u8 list list \<Rightarrow> bool" where
  "argument_block m p [] \<longleftrightarrow> True"
| "argument_block m p (w # ws) \<longleftrightarrow> cstring m p w \<and> argument_block m (p + of_nat (length w + 1)) ws"

fun addresses :: "u32 \<Rightarrow> u8 list list \<Rightarrow> u32 list" where
  "addresses p [] = []"
| "addresses p (w # ws) = p # addresses (p + of_nat (length w + 1)) ws"

definition block_length :: "u8 list list \<Rightarrow> nat" where
  "block_length ws = sum_list (map (\<lambda>w. length w + 1) ws)"

lemma arg_loop_ok:
  assumes "argument_block m p ws" "unat p + block_length ws \<le> unat fin" "i + length ws \<le> 65"
  shows "arg_loop m fin (length ws) i p = Some (addresses p ws)"
  using assms
proof (induction ws arbitrary: p i)
  case (Cons w ws)
  have w: "cstring m p w" and rest: "argument_block m (p + of_nat (length w + 1)) ws" using Cons.prems(1) by simp_all
  have len: "unat p + (length w + 1) + block_length ws \<le> unat fin" using Cons.prems(2) by (simp add: block_length_def)
  then have p: "p < fin" by (simp add: word_less_nat_alt)
  have up: "unat (p + of_nat (length w + 1)) = unat p + (length w + 1)"
  proof -
    have big: "unat fin < 2 ^ 32" by (rule order_less_le_trans [OF unat_u32_lt]) simp
    have k: "unat (of_nat (length w + 1) :: u32) = length w + 1" by (rule unat_of_nat_small) (rule le_less_trans [OF _ big], use len in simp)
    have "unat p + unat (of_nat (length w + 1) :: u32) < 2 ^ 32"
      unfolding k by (rule le_less_trans [OF _ big]) (use len in simp)
    then show ?thesis using k unat_add_small [of p "of_nat (length w + 1)"] by simp
  qed
  have "unat (fin - p) = unat fin - unat p" using p by (simp add: unat_sub)
  then have "strnlen m p (unat (fin - p)) = length w"
    using strnlen_loop_ok [OF w, of 0] len by (simp add: strnlen_def)
  moreover have "arg_loop m fin (length ws) (i + 1) (p + of_nat (length w + 1)) = Some (addresses (p + of_nat (length w + 1)) ws)"
    using Cons.prems(3) len up by (intro Cons.IH [OF rest]) simp_all
  ultimately show ?case using p Cons.prems(3) by (simp add: LOADER_ARGS_LEN_def add.commute)
qed simp

lemma addresses_strings: "argument_block m p ws \<Longrightarrow> map (string_at m) (addresses p ws) = map Some ws"
  by (induction ws arbitrary: p) (auto simp: string_at_ok)

definition shown_word :: "u8 list \<Rightarrow> string" where
  "shown_word w = '' '' @ (if 0x20 \<in> set w then quoted (chars_of w) else chars_of w)"

lemma printed_word:
  "vprintf_helper '' %s'' [arg_string w] = Some ('' '' @ chars_of w)"
  "vprintf_helper ('' '' @ quoted ''%s'') [arg_string w] = Some ('' '' @ quoted (chars_of w))"
  by (simp_all add: arg_string_def quoted_def parse_conversion_def flag_of_def parse_star_def parse_precision_def
      parse_type_def convert_def isdigit_def Let_def format_string_def limit_precision_def)

lemma print_args_ok:
  assumes "argument_block (mem (pages s)) p ws"
  shows "foldM print_arg (addresses p ws) s = Some (s\<lparr>printed := printed s @ concat (map shown_word ws)\<rparr>)"
  using assms
proof (induction ws arbitrary: p s)
  case (Cons w ws)
  have w: "cstring (mem (pages s)) p w" using Cons.prems by simp
  obtain r where r: "strchr (mem (pages s)) p 0x20 = Some r" "r = 0 \<longleftrightarrow> 0x20 \<notin> set w"
    using strchr_found [OF w, of "0x20"] by auto
  let ?s = "s\<lparr>printed := printed s @ shown_word w\<rparr>"
  have "print_arg p s = Some ?s"
    using r string_at_ok [OF w] by (simp add: print_arg_def print_def printed_word shown_word_def del: vprintf_helper.simps append.simps)
  moreover have "pages ?s = pages s" by (simp add: pages_def)
  ultimately show ?case using Cons.IH [of ?s] Cons.prems by simp
qed simp

text \<open>C27:
  \<open>read_command_line\<close> finds the words the loader has put into memory one behind the other, up to 64
  words in 128 bytes: it returns pointers to exactly these strings, in order, shows them on a line,
  those with a space in quotes, and changes nothing else.
\<close>

theorem read_command_line_words:
  fixes s :: "'a processes_scheme"
  assumes block: "argument_block (mem (pages s)) (LOADER_ARGS + PHYS_BASE) ws"
    and fits: "length (concat (map (\<lambda>w. w @ [0]) ws)) \<le> 128" "length ws \<le> 64"
    and cnt: "load32 (mem (pages s)) (LOADER_ARG_CNT + PHYS_BASE) = of_nat (length ws)"
  shows "\<exists>argv. read_command_line s = Some (argv, s\<lparr>printed := printed s @ ''Kernel command line:'' @
       concat (map shown_word ws) @ NL\<rparr>) \<and> map (string_at (mem (pages s))) argv = map Some ws"
proof -
  have ptov: "ptov LOADER_ARGS = Some (LOADER_ARGS + PHYS_BASE)" "ptov LOADER_ARG_CNT = Some (LOADER_ARG_CNT + PHYS_BASE)"
    by (simp_all add: ptov_def LOADER_ARGS_def LOADER_ARG_CNT_def LOADER_PARTS_def LOADER_SIG_def LOADER_END_def LOADER_SIG_LEN_def
        LOADER_PARTS_LEN_def LOADER_ARGS_LEN_def LOADER_ARG_CNT_LEN_def PHYS_BASE_def)
  let ?p = "LOADER_ARGS + PHYS_BASE"
  have p: "unat (?p + of_nat LOADER_ARGS_LEN) = unat ?p + 128"
    by (simp add: LOADER_ARGS_def LOADER_PARTS_def LOADER_SIG_def LOADER_END_def LOADER_SIG_LEN_def
        LOADER_PARTS_LEN_def LOADER_ARGS_LEN_def PHYS_BASE_def)
  have len: "block_length ws \<le> 128" using fits(1) by (simp add: block_length_def length_concat comp_def)
  have argc: "sint (of_nat (length ws) :: u32) = int (length ws)"
    using fits(2) by (intro sint_of_nat_small) simp
  have loop: "arg_loop (mem (pages s)) (?p + of_nat LOADER_ARGS_LEN) (length ws) 0 ?p = Some (addresses ?p ws)"
    by (rule arg_loop_ok [OF block]) (use p len fits(2) in simp_all)
  have lines: "vprintf_helper ''Kernel command line:'' [] = Some ''Kernel command line:''" "vprintf_helper NL [] = Some NL"
    by (simp_all add: NL_def)
  let ?s = "s\<lparr>printed := printed s @ ''Kernel command line:''\<rparr>"
  have "pages ?s = pages s" by (simp add: pages_def)
  then have args: "foldM print_arg (addresses ?p ws) ?s =
      Some (?s\<lparr>printed := printed ?s @ concat (map shown_word ws)\<rparr>)"
    using print_args_ok [of ?s ?p ws] block by simp
  show ?thesis
    using ptov cnt argc loop fits(2) args addresses_strings [OF block]
    by (simp add: read_command_line_def print_def lines LOADER_ARGS_LEN_def)
qed

text \<open>The command line \<open>-q 'run x'\<close>.\<close>

definition demo_line :: processes where
  "demo_line = (undefined :: processes)\<lparr>
     vmem := vm.frames_update (\<lambda>_. (pages (undefined :: processes))\<lparr>mem := mem_of 0xc0007d3a [2, 0, 0, 0, 45, 113, 0, 114, 117, 110, 32, 120, 0]\<rparr>)
       (vmem (undefined :: processes)), printed := []\<rparr>"

lemma read_command_line_words_witness:
  "\<exists>argv s'. read_command_line demo_line = Some (argv, s') \<and>
     map (string_at (mem (pages demo_line))) argv = [Some [45, 113], Some [114, 117, 110, 32, 120]]"
proof -
  have m: "mem (pages demo_line) = mem_of 0xc0007d3a [2, 0, 0, 0, 45, 113, 0, 114, 117, 110, 32, 120, 0]"
    by (simp add: pages_def demo_line_def)
  have a: "LOADER_ARGS + PHYS_BASE = 0xc0007d3e" "LOADER_ARG_CNT + PHYS_BASE = 0xc0007d3a"
    by (simp_all add: LOADER_ARGS_def LOADER_ARG_CNT_def LOADER_PARTS_def LOADER_SIG_def LOADER_END_def LOADER_SIG_LEN_def
        LOADER_PARTS_LEN_def LOADER_ARGS_LEN_def LOADER_ARG_CNT_LEN_def PHYS_BASE_def)
  have "argument_block (mem (pages demo_line)) (LOADER_ARGS + PHYS_BASE) [[45, 113], [114, 117, 110, 32, 120]]"
    "load32 (mem (pages demo_line)) (LOADER_ARG_CNT + PHYS_BASE) = of_nat (length [[45, 113], [114, 117, 110, 32, 120 :: u8]])"
    unfolding m a by (simp_all add: cstring_def mem_of_def in_range_def load32_def le_word_def)
  then show ?thesis
    using read_command_line_words [of demo_line "[[45, 113], [114, 117, 110, 32, 120]]"] by auto
qed

section \<open>The seed of the random numbers\<close>

definition same_answers :: "'a machine_scheme \<Rightarrow> 'b machine_scheme \<Rightarrow> bool" where
  "same_answers s s' \<longleftrightarrow> port_in s' = port_in s \<and> port_reads s' = port_reads s"

lemma rtc_read_answers:
  fixes s :: "'a machine_scheme"
  shows "rtc_read s = Some rt \<Longrightarrow> \<forall>s' :: 'b machine_scheme. same_answers s s' \<longrightarrow> (\<exists>t'. rtc_read s' = Some (fst rt, t'))"
proof (rule rtc_read.raw_induct [where P = "\<lambda>s rt. \<forall>s' :: 'b machine_scheme.
    same_answers s s' \<longrightarrow> (\<exists>t'. rtc_read s' = Some (fst rt, t'))"], goal_cases)
  case (1 rec s rt)
  note ih = 1(2) [THEN spec, THEN mp]
  show ?case
  proof (intro allI impI)
    fix s' :: "'b machine_scheme"
    assume p: "same_answers s s'"
    show "\<exists>t'. rtc_read s' = Some (fst rt, t')"
      using 1(3) p
      by (subst rtc_read.simps)
        (auto intro!: ih simp: cmos_read_def inb_def inl_def outb_def outl_def Let_def same_answers_def split: if_splits)
  qed
qed simp

lemma option_loop_answers:
  fixes s s' :: "'a boot_scheme"
  shows "option_loop eq_delim no_delim save_ptr argv chosen s = Some (rest, chosen', s') \<Longrightarrow> same_answers s s'"
proof (induction argv arbitrary: chosen s)
  case (Cons arg argv)
  have opt: "same_answers s0 s1" if "apply_option name value chosen s0 = Some (chosen1, s1)"
    for "name" "value" chosen chosen1 and s0 s1 :: "'a boot_scheme"
    using that by (auto simp: apply_option_def kbind shutdown_configure_def same_answers_def split: if_splits)
  have mem: "same_answers s0 (set_mem m s0)" for m and s0 :: "'a boot_scheme"
    by (simp add: set_mem_def set_pages_def same_answers_def)
  have trans: "same_answers s0 s2" if "same_answers s0 s1" "same_answers s1 s2" for s0 s1 s2 :: "'a boot_scheme"
    using that by (simp add: same_answers_def)
  show ?case
    using Cons.prems Cons.IH opt mem trans by (fastforce simp: kbind same_answers_def split: if_splits)
qed (simp add: same_answers_def)

text \<open>C28:
  The option \<open>-rs\<close> has no effect: whatever the options are, when \<open>parse_options\<close> returns the generator
  has the state that \<open>random_init\<close> makes of the time of the real-time clock, although a comment says
  that this call has no effect after \<open>-rs\<close>.
\<close>

theorem seed_option_ignored:
  fixes s s' :: "'a boot_scheme"
  assumes "parse_options eq_delim no_delim save_ptr argv s = Some (rest, s')"
  shows "\<exists>t s1. rtc_get_time s = Some (t, s1) \<and> generator s' = random_init (of_int t)"
proof -
  obtain chosen s2 policy t s3 where loop: "option_loop eq_delim no_delim save_ptr argv (replicate 8 False) s = Some (rest, chosen, s2)"
    and time: "rtc_get_time (s2\<lparr>kern := (kern s2)\<lparr>active_sched_policy := policy\<rparr>\<rparr>) = Some (t, s3)"
    and gen: "generator s' = random_init (of_int t)"
    using assms by (auto simp: parse_options_def kbind)
  let ?s2 = "s2\<lparr>kern := (kern s2)\<lparr>active_sched_policy := policy\<rparr>\<rparr>"
  obtain r where r: "rtc_read ?s2 = Some (r, s3)" "rtc_seconds r = Some t" using time by (auto simp: rtc_get_time_def kbind)
  have "same_answers ?s2 s" using option_loop_answers [OF loop] by (simp add: same_answers_def)
  then obtain s1 where "rtc_read s = Some (r, s1)" using rtc_read_answers [OF r(1)] by fastforce
  then show ?thesis using r(2) gen by (simp add: rtc_get_time_def)
qed

text \<open>The option \<open>-rs=5\<close>, with the strings of delimiters behind it.\<close>

definition demo_memory :: memory where
  "demo_memory = mem_of 0x1000 [45, 114, 115, 61, 53, 0, 61, 0]"

definition demo_options :: boot where
  "demo_options = (undefined :: boot)\<lparr>
     vmem := vm.frames_update (\<lambda>_. (pages (undefined :: boot))\<lparr>mem := demo_memory\<rparr>) (vmem (undefined :: boot)),
     port_in := (\<lambda>_ _. 1), port_reads := 0\<rparr>"

definition demo_split :: memory where
  "demo_split = store32 (store32 (demo_memory(0x1003 := 0)) 0x2000 0x1004) 0x2000 0x1005"

lemma demo_cstrings:
  "cstring demo_memory 0x1000 [45, 114, 115, 61, 53]" "cstring demo_memory 0x1006 [61]"
  "cstring (store32 (demo_memory(0x1003 := 0)) 0x2000 0x1004) 0x1004 [53]"
  "cstring (store32 (demo_memory(0x1003 := 0)) 0x2000 0x1004) 0x1007 []"
  "cstring demo_split 0x1000 [45, 114, 115]"
  by (simp_all add: demo_split_def demo_memory_def cstring_def mem_of_def in_range_def store32_def)

lemma demo_tokens:
  "strtok_r demo_memory 0x1000 0x1006 0x2000 = Some (0x1000, store32 (demo_memory(0x1003 := 0)) 0x2000 0x1004)"
  "strtok_r (store32 (demo_memory(0x1003 := 0)) 0x2000 0x1004) 0 0x1007 0x2000 = Some (0x1004, demo_split)"
proof -
  let ?m = "store32 (demo_memory(0x1003 := 0)) 0x2000 0x1004"
  have "demo_memory 0x1003 \<noteq> 0" "?m 0x1005 = 0"
    by (simp_all add: demo_memory_def mem_of_def in_range_def store32_def)
  then show "strtok_r demo_memory 0x1000 0x1006 0x2000 = Some (0x1000, ?m)"
    "strtok_r ?m 0 0x1007 0x2000 = Some (0x1004, demo_split)"
    using skip_delimiters_ok [OF demo_cstrings(1,2)] skip_token_ok [OF demo_cstrings(1,2)]
      skip_delimiters_ok [OF demo_cstrings(3,4)] skip_token_ok [OF demo_cstrings(3,4)]
    by (simp_all add: strtok_r_def load_store_same demo_split_def)
qed

lemma demo_atoi: "atoi demo_split 0x1004 = Some 5"
proof -
  have m: "demo_split 0x1004 = 53" "demo_split 0x1005 = 0"
    by (simp_all add: demo_split_def demo_memory_def mem_of_def in_range_def store32_def)
  have "skip_space demo_split 0x1004 = Some 0x1004" by (subst skip_space.simps) (simp add: m isspace_def)
  moreover have "parse_digits demo_split 0x1004 0 = Some (- 5)"
    by (subst parse_digits.simps, subst parse_digits.simps) (simp add: m isdigit_def)
  ultimately show ?thesis by (simp add: atoi_def m)
qed

lemma demo_clock:
  fixes s :: "'a machine_scheme"
  assumes "port_in s = (\<lambda>_ _. 1)"
  shows "\<exists>t s'. rtc_get_time s = Some (t, s')"
proof -
  let ?r = "\<lparr>r_sec = 1, r_min = 1, r_hour = 1, r_mday = 1, r_mon = 1, r_year = 1\<rparr>"
  have "bcd_to_bin 1 = 1" by (simp add: bcd_to_bin_def)
  then have "\<exists>s'. rtc_read s = Some (?r, s')"
    by (subst rtc_read.simps) (simp add: assms cmos_read_def inb_def inl_def outb_def outl_def Let_def)
  moreover have "rtc_seconds ?r = Some 980902861"
    by (simp add: rtc_seconds_def days_per_month_def signed_divide_int_def)
  ultimately show ?thesis by (auto simp: rtc_get_time_def)
qed

lemma seed_option_ignored_witness:
  "\<exists>s' t. parse_options 0x1006 0x1007 0x2000 [0x1000] demo_options = Some ([], s') \<and> generator s' = random_init t"
proof -
  have arg: "mem (pages demo_options) = demo_memory" by (simp add: pages_def demo_options_def)
  have setm: "mem (pages (set_mem m s)) = m" for m and s :: boot by (simp add: pages_def set_mem_def set_pages_def)
  have "unat (45 :: u8) = of_char CHR ''-''" "unat (114 :: u8) = of_char CHR ''r''" "unat (115 :: u8) = of_char CHR ''s''" by simp_all
  then have chars: "chars_of [45, 114, 115] = ''-rs''" by (simp only: chars_of_def list.map char_of_char)
  have name: "string_of 0x1000 (set_mem demo_split demo_options) = Some ''-rs''"
    using string_at_ok [OF demo_cstrings(5)] by (simp add: string_of_def setm chars)
  let ?s = "(set_mem demo_split demo_options)\<lparr>generator := random_init 5\<rparr>"
  have "demo_memory 0x1000 = 0x2d" by (simp add: demo_memory_def mem_of_def in_range_def)
  then have loop: "option_loop 0x1006 0x1007 0x2000 [0x1000] (replicate 8 False) demo_options = Some ([], replicate 8 False, ?s)"
    by (simp add: arg demo_tokens apply_option_def name setm demo_atoi)
  have policy: "choose_policy (replicate 8 False) = Some SCHED_FIFO"
    by (simp add: choose_policy_def SCHED_DEFAULT_def)
  let ?k = "?s\<lparr>kern := (kern ?s)\<lparr>active_sched_policy := SCHED_FIFO\<rparr>\<rparr>"
  have "port_in ?k = (\<lambda>_ _. 1)" by (simp add: demo_options_def set_mem_def set_pages_def)
  then obtain t s2 where "rtc_get_time ?k = Some (t, s2)" using demo_clock by blast
  then have "\<exists>s'. parse_options 0x1006 0x1007 0x2000 [0x1000] demo_options = Some ([], s')"
    using loop policy by (simp add: parse_options_def)
  then show ?thesis using seed_option_ignored by blast
qed

end
