(* ===== verification/Spec2Isabelle.thy ===== *)
theory Spec2Isabelle
  imports Kernel_List_Theorems Kernel_Palloc Kernel_Synch_Reach Kernel_Random Kernel_Hash Kernel_Printf
    Kernel_Malloc_Safe Kernel_Pagedir Kernel_Dir_Safe Kernel_Ustar_Safe
    Kernel_Fixed_Point Kernel_Console Kernel_Process_Safe Kernel_Ide Kernel_Paging Kernel_Init
begin

text \<open>
  Verification of the CS 162 Pintos kernel of this repository (\<open>code/group/src\<close>), an x86 teaching
  operating system of one processor: threads and their synchronisation, memory, devices, a file system
  and user processes, configured with \<open>USERPROG\<close> and \<open>FILESYS\<close> and without \<open>VM\<close> and \<open>THREADS\<close>. The C
  code is translated function by function; paths below are relative to \<open>code/group/src\<close>.

  How code is modelled (\<open>Kernel_Prelude\<close>, \<open>Kernel_Memory\<close>). A function is a HOL function from the state
  to an option: \<^const>\<open>None\<close> is a failed \<open>ASSERT\<close>, a \<open>PANIC\<close>, undefined behaviour of C or an operation
  that does not return, and Some is the result with the new state. The option monad sequences; \<open>ASSERT\<close> is
  one of its actions, and the collections \<open>kassert_simps\<close> and \<open>kbind\<close> evaluate and take apart such
  code. Machine words are \<open>8 word\<close> to \<open>64 word\<close>, which wrap round as in C; a \<open>size_t\<close> is a natural number
  where the code's arithmetic cannot wrap. Memory is a function from 32-bit addresses to bytes. Linked
  structures are heaps, maps from addresses to records; static variables are fields of the state.

  Loops. A loop with a bound is structural recursion on the number of turns left, or a function with a
  termination proof, so it is total. A loop that may run for ever is a \<open>partial_function\<close> into the option
  type, where not returning is \<^const>\<open>None\<close>; a theorem that such an operation returns Some therefore says
  that it terminates. The bounds are those of the code (1000 polls of \<open>wait_until_idle\<close>, 3000 of
  \<open>wait_while_busy\<close>, 0x10000 of \<open>shutdown_reboot\<close>, the size of a table, the length of a buffer); no fuel
  has been added.

  The state. Records are extended along the dependencies of the code: \<open>kernel\<close> (threads) and \<open>sync\<close>
  (semaphores, locks and the frames of sleeping threads); \<open>machine\<close> (the threads with the ports and the
  printed text), \<open>interrupts\<close>, \<open>clock\<close>, \<open>devices\<close> and \<open>screen\<close> (console), or \<open>ide\<close>; \<open>block_state\<close> and
  \<open>fs_state\<close> (block devices, file system); \<open>palloc\<close>, \<open>malloc_state\<close> and \<open>vm\<close> (pages, blocks, page tables);
  and \<open>processes\<close> and \<open>boot\<close>, which put the threads, the memory and the file system together.

  What the model does not contain is a parameter. The answers of the hardware are the function \<open>port_in\<close>
  of the number of the read and the port; \<open>run\<close> gives the state in which a thread that has left the
  processor, by \<open>thread_yield\<close> in \<open>timer_sleep\<close> or by blocking in \<open>intq.c\<close>, runs again; the list \<open>mallocs\<close> says which allocations of the file system succeed (all do when it is
  used up); comparison and hash functions are arguments, with what their contract promises as named
  hypotheses. Every theorem with a hypothesis has a witness, a concrete input where it applies.

  The theories, the code each models and what its lemmas show.

  \<^item> Lists: \<open>Kernel_List\<close>, \<open>Kernel_List_Loops\<close>, \<open>Kernel_List_Sort\<close>, \<open>Kernel_List_Theorems\<close>
    (\<open>lib/kernel/list.c\<close>), pointer code refined to sequences by \<open>list_rep\<close>; sorting is stable and correct.
    \<open>Kernel_Queue\<close> states the use as a first-in first-out queue as the locale \<open>fifo_queue\<close>, which the
    pointer code interprets.
  \<^item> Threads: \<open>Kernel_Thread\<close> (\<open>threads/thread.c\<close>, \<open>threads/interrupt.c\<close>) with the invariant \<open>sched_inv\<close>
    of the scheduler, which every operation keeps; \<open>Kernel_Synch\<close> (\<open>threads/synch.c\<close>), where a thread that
    sleeps in the middle of an operation keeps the rest as a frame, so that threads interleave wherever the
    code can be interrupted; \<open>Kernel_Synch_Inv\<close> and \<open>Kernel_Synch_Reach\<close>, the step relation of the whole
    kernel and its invariant by rule induction: no panic, mutual exclusion, no lost wake-up. Its steps are
    those of the semaphores and what is built from them, of yielding, exiting, idling and of interrupts;
    \<open>thread_create\<close> is one step, and the waiting of \<open>intq.c\<close>, which uses no semaphore, is not among them.
  \<^item> Memory: \<open>Kernel_Bitmap\<close> (\<open>lib/kernel/bitmap.c\<close>), \<open>Kernel_Palloc\<close> (\<open>threads/palloc.c\<close>, \<open>threads/vaddr.h\<close>),
    \<open>Kernel_Malloc\<close> and \<open>Kernel_Malloc_Safe\<close> (\<open>threads/malloc.c\<close>): pages and blocks in use never overlap,
    also along every history of a client that releases only what it holds. \<open>Kernel_Pagedir\<close>
    (\<open>userprog/pagedir.c\<close>, \<open>threads/pte.h\<close>): a page directory is a map from pages to frames, which
    fails to grow exactly when there is no page for a table. \<open>Kernel_Store\<close> holds the contract of a finite
    map with failing insertion as the locales \<open>map_store\<close>, which directories of the file system interpret,
    and \<open>removable_store\<close>, which page directories interpret.
    \<open>Kernel_Address_Space\<close> says which changes of memory an address space does not see. \<open>Kernel_Paging\<close>
    (\<open>paging_init\<close> of \<open>threads/init.c\<close>): the base directory maps all of memory.
  \<^item> Libraries: \<open>Kernel_String\<close> (\<open>lib/string.c\<close>), \<open>Kernel_Stdlib\<close> (\<open>lib/stdlib.c\<close>, \<open>lib/ctype.h\<close>),
    \<open>Kernel_Arithmetic\<close> (\<open>lib/arithmetic.c\<close>, with the trap of the divide instruction), \<open>Kernel_Printf\<close>
    (\<open>lib/stdio.c\<close>), \<open>Kernel_Random\<close> (\<open>lib/random.c\<close>), \<open>Kernel_Fixed_Point\<close> (\<open>threads/fixed-point.h\<close>) and
    \<open>Kernel_Hash\<close> (\<open>lib/kernel/hash.c\<close>), whose table interprets the locale \<open>dictionary\<close>.
  \<^item> Machine and devices: \<open>Kernel_Segments\<close> (\<open>userprog/gdt.c\<close>), \<open>Kernel_Intr\<close> (\<open>threads/io.h\<close>, gates and
    handlers of \<open>threads/interrupt.c\<close>), \<open>Kernel_Clock\<close> (\<open>devices/rtc.c\<close>, \<open>pit.c\<close>, \<open>timer.c\<close>;
    sleeping ends if the clock goes on after some number of yields),
    \<open>Kernel_Input\<close> (\<open>intq.c\<close>, \<open>input.c\<close>, \<open>serial.c\<close>, \<open>kbd.c\<close>, and the reboot of \<open>shutdown.c\<close>),
    \<open>Kernel_Console\<close> (\<open>vga.c\<close>, \<open>speaker.c\<close>, \<open>lib/kernel/console.c\<close>), \<open>Kernel_Ide\<close> (\<open>ide.c\<close>).
  \<^item> Storage: \<open>Kernel_Block\<close> and \<open>Kernel_Partition\<close> (\<open>devices/block.c\<close>, \<open>devices/partition.c\<close>); \<open>Kernel_Inode\<close>
    (\<open>filesys/inode.c\<close>, \<open>file.c\<close>, \<open>free-map.c\<close>), \<open>Kernel_Filesys\<close> (\<open>directory.c\<close>, \<open>filesys.c\<close>, \<open>fsutil.c\<close>),
    \<open>Kernel_Ustar\<close> and \<open>Kernel_Ustar_Safe\<close> (\<open>lib/ustar.c\<close>). \<open>Kernel_File_Safe\<close> shows that reading and writing a
    file act on its bytes only, \<open>Kernel_Dir_Safe\<close> that a directory is a finite map.
  \<^item> Processes: \<open>Kernel_Process\<close> (\<open>userprog/process.c\<close>, \<open>tss.c\<close>, \<open>exception.c\<close>, \<open>syscall.c\<close>) and
    \<open>Kernel_Process_Safe\<close>: the image that the loader makes in an address space, and what a failed load leaks.
  \<^item> Start: \<open>Kernel_Init\<close> (\<open>threads/init.c\<close>): the command line, its options and actions, the choice of the
    block devices.

  The properties are the theorems with an identifier C1 to C40 in the text before them, each next to the
  component it is about. Those that span components are in \<open>Kernel_Synch_Reach\<close> (threads, interrupts and
  synchronisation), \<open>Kernel_Malloc_Safe\<close> (blocks over pages), \<open>Kernel_File_Safe\<close> and \<open>Kernel_Dir_Safe\<close>
  (file system over block devices), \<open>Kernel_Input\<close> (queues over the scheduler) and \<open>Kernel_Process_Safe\<close>
  (processes over all of them). Several state what the code does where its comments promise something
  else; the findings of the manifest name them.

  Not modelled. \<open>main\<close>, which calls the initialisations in order: its parts are here, but their states
  are extensions of the same record in different directions. Powering off and the statistics it prints.
  Panics are \<^const>\<open>None\<close>; their messages and backtraces (\<open>lib/debug.c\<close>) are not. The assembly
  (\<open>loader.S\<close>, \<open>start.S\<close>, \<open>switch.S\<close>, \<open>intr-stubs.S\<close>) is seen through its effect only. The schedulers other
  than first-in first-out are stubs in the code. The user library and the programs that run in user mode,
  the tests and the host utilities are clients of the kernel, not part of it. Outside of \<open>code/group\<close>, the
  repository holds two older copies of the same kernel, independent homework programs, and third-party
  code.
\<close>

end
